(* ===== verification/Prelude.thy ===== *)
theory Prelude
  imports Complex_Main "HOL-Library.AList" "HOL-Library.Multiset" "HOL-Library.Sublist"
begin

text \<open>
  Shared vocabulary of the development.

  \<^item> Python dictionaries keep insertion order, and several loops of the engine depend on it
    (the tournament sorts the items of a dictionary with a stable sort), so a dictionary is an
    association list with distinct keys: \<open>AList.update\<close> overwrites in place or appends at the
    end, as \<open>d[k] = v\<close> does, \<open>AList.delete\<close> is \<open>d.pop(k, None)\<close> and \<open>map_of\<close> is \<open>d.get(k)\<close>.
  \<^item> Exceptions are values: an operation that can raise returns \<open>exn + 'a\<close>.
  \<^item> Scores, times and averages, floats in the source, are exact rationals: rounding, infinities
    and NaN are not modelled.
  \<^item> Generic lemmas on dictionaries, stable sorting, list suffixes and decimal numerals follow.
\<close>

named_theorems dict_simps \<open>rewrite rules for insertion-ordered dictionaries\<close>

type_synonym ('k, 'v) dict = "('k \<times> 'v) list"
type_synonym score = rat
type_synonym reqid = string
type_synonym token = int

abbreviation dkeys :: "('k, 'v) dict \<Rightarrow> 'k list" where
  "dkeys d \<equiv> map fst d"

abbreviation keyset :: "('k, 'v) dict \<Rightarrow> 'k set" where
  "keyset d \<equiv> fst ` set d"

abbreviation dvals :: "('k, 'v) dict \<Rightarrow> 'v list" where
  "dvals d \<equiv> map snd d"

definition dget_or :: "('k, 'v) dict \<Rightarrow> 'k \<Rightarrow> 'v \<Rightarrow> 'v" where
  "dget_or d k v = (case map_of d k of None \<Rightarrow> v | Some x \<Rightarrow> x)"

definition dsetdefault :: "('k, 'v) dict \<Rightarrow> 'k \<Rightarrow> 'v \<Rightarrow> ('k, 'v) dict" where
  "dsetdefault d k v = (case map_of d k of None \<Rightarrow> AList.update k v d | Some _ \<Rightarrow> d)"

definition wf_dict :: "('k, 'v) dict \<Rightarrow> bool" where
  "wf_dict d \<longleftrightarrow> distinct (dkeys d)"

text \<open>\<open>dmodify k f d\<close> updates the object stored under a key in place, and does nothing when the
  key is absent: the idiom \<open>if node := d.get(k): node.mutate()\<close>.\<close>

definition dmodify :: "'k \<Rightarrow> ('v \<Rightarrow> 'v) \<Rightarrow> ('k, 'v) dict \<Rightarrow> ('k, 'v) dict" where
  "dmodify k f d = map (\<lambda>(k', v). (k', if k' = k then f v else v)) d"

definition dcount :: "('v \<Rightarrow> bool) \<Rightarrow> ('k, 'v) dict \<Rightarrow> nat" where
  "dcount P d = length (filter (\<lambda>kv. P (snd kv)) d)"

subsection \<open>Dictionaries\<close>

lemma wf_dict_Nil [simp, intro]: "wf_dict []"
  by (simp add: wf_dict_def)

lemma wf_dict_Cons [simp]: "wf_dict ((k, v) # d) \<longleftrightarrow> k \<notin> keyset d \<and> wf_dict d"
  by (simp add: wf_dict_def)

lemma wf_dict_update [simp, intro]: "wf_dict d \<Longrightarrow> wf_dict (AList.update k v d)"
  by (simp add: wf_dict_def distinct_update)

lemma wf_dict_delete [simp, intro]: "wf_dict d \<Longrightarrow> wf_dict (AList.delete k d)"
  by (simp add: wf_dict_def distinct_delete)

lemma dkeys_dmodify [simp]: "dkeys (dmodify k f d) = dkeys d"
  by (induction d) (auto simp: dmodify_def)

lemma length_dmodify [simp]: "length (dmodify k f d) = length d"
  by (simp add: dmodify_def)

lemma wf_dict_dmodify [simp]: "wf_dict (dmodify k f d) \<longleftrightarrow> wf_dict d"
  by (simp add: wf_dict_def)

lemma map_of_dmodify [dict_simps]:
  "map_of (dmodify k f d) k' = (if k' = k then map_option f (map_of d k) else map_of d k')"
  by (induction d) (auto simp: dmodify_def)

lemma dmodify_absent: "k \<notin> keyset d \<Longrightarrow> dmodify k f d = d"
  by (induction d) (auto simp: dmodify_def)

lemma map_of_update [dict_simps]:
  "map_of (AList.update k v d) k' = (if k' = k then Some v else map_of d k')"
  by (simp add: update_conv')

lemma map_of_delete [dict_simps]:
  "map_of (AList.delete k d) k' = (if k' = k then None else map_of d k')"
  by (simp add: delete_conv')

lemma map_of_None_iff: "map_of d k = None \<longleftrightarrow> k \<notin> keyset d"
  by (simp add: map_of_eq_None_iff)

lemma map_of_in_keys: "map_of d k = Some v \<Longrightarrow> k \<in> keyset d"
  by (metis map_of_None_iff option.distinct(1))

lemma in_keys_map_of: "k \<in> keyset d \<Longrightarrow> \<exists>v. map_of d k = Some v"
  using map_of_None_iff [of d k] by auto

lemma in_set_wf_dict: "wf_dict d \<Longrightarrow> (k, v) \<in> set d \<longleftrightarrow> map_of d k = Some v"
  by (simp add: wf_dict_def)

lemma keyset_update [simp]: "keyset (AList.update k v d) = insert k (keyset d)"
  by (simp add: dom_update)

lemma keyset_delete [simp]: "keyset (AList.delete k d) = keyset d - {k}"
  by (auto simp: AList.delete_eq)

lemma keyset_dmodify [simp]: "keyset (dmodify k f d) = keyset d"
  by (metis dkeys_dmodify set_map)

lemma update_absent: "k \<notin> keyset d \<Longrightarrow> AList.update k v d = d @ [(k, v)]"
  by (induction d) auto

lemma delete_snoc_absent:
  "k \<notin> keyset d \<Longrightarrow> AList.delete k (d @ [(k, v)]) = d"
  by (induction d) (auto simp: AList.delete_eq)

lemma length_update_absent:
  "k \<notin> keyset d \<Longrightarrow> length (AList.update k v d) = Suc (length d)"
  by (simp add: update_absent)

lemma dget_or_update [dict_simps]:
  "dget_or (AList.update k v d) k' x = (if k' = k then v else dget_or d k' x)"
  by (simp add: dget_or_def dict_simps)

lemma map_of_dsetdefault [dict_simps]:
  "map_of (dsetdefault d k v) k' =
     (if k' = k then Some (dget_or d k v) else map_of d k')"
  by (auto simp: dsetdefault_def dget_or_def dict_simps split: option.splits)

lemma keyset_dsetdefault [simp]:
  "keyset (dsetdefault d k v) = insert k (keyset d)"
  by (auto simp: dsetdefault_def dest: map_of_in_keys split: option.splits)

lemma wf_dict_dsetdefault [simp, intro]: "wf_dict d \<Longrightarrow> wf_dict (dsetdefault d k v)"
  by (simp add: dsetdefault_def split: option.splits)

lemma dmodify_compose: "dmodify k f (dmodify k g d) = dmodify k (f \<circ> g) d"
  by (induction d) (auto simp: dmodify_def)

subsection \<open>Counting dictionary values\<close>

lemma dcount_Nil [simp]: "dcount P [] = 0"
  by (simp add: dcount_def)

lemma dcount_Cons: "dcount P ((k, v) # d) = (if P v then 1 else 0) + dcount P d"
  by (simp add: dcount_def)

lemma dcount_append: "dcount P (d @ e) = dcount P d + dcount P e"
  by (simp add: dcount_def)

lemma dcount_le_length: "dcount P d \<le> length d"
  by (simp add: dcount_def)

lemma dcount_update_absent:
  "k \<notin> keyset d \<Longrightarrow> dcount P (AList.update k v d) = dcount P d + (if P v then 1 else 0)"
  by (simp add: update_absent dcount_append dcount_Cons)

lemma dcount_dmodify:
  assumes "wf_dict d" and "map_of d k = Some v"
  shows "dcount P (dmodify k f d) + (if P v then 1 else 0) =
         dcount P d + (if P (f v) then 1 else 0)"
  using assms
proof (induction d)
  case Nil
  then show ?case by simp
next
  case (Cons e d)
  obtain k' v' where e: "e = (k', v')" by (cases e)
  show ?case
  proof (cases "k' = k")
    case True
    with Cons.prems e have "k \<notin> keyset d" and "v' = v" by auto
    with True e show ?thesis
      using dmodify_absent [of k d f]
      by (auto simp: dmodify_def dcount_def)
  next
    case False
    with Cons e have "dcount P (dmodify k f d) + (if P v then 1 else 0) =
      dcount P d + (if P (f v) then 1 else 0)" by simp
    with False e show ?thesis by (simp add: dmodify_def dcount_Cons)
  qed
qed

lemma dcount_dmodify_same:
  assumes "\<And>v. map_of d k = Some v \<Longrightarrow> P (f v) = P v" and "wf_dict d"
  shows "dcount P (dmodify k f d) = dcount P d"
proof (cases "map_of d k")
  case None
  then show ?thesis by (simp add: dmodify_absent map_of_None_iff)
next
  case (Some v)
  from dcount_dmodify [OF assms(2) Some, of P f] assms(1) [OF Some] show ?thesis
    by (simp split: if_splits)
qed

lemma dcount_update:
  assumes "wf_dict d"
  shows "dcount P (AList.update k v d) + (case map_of d k of Some w \<Rightarrow> if P w then 1 else 0 | None \<Rightarrow> 0) =
    dcount P d + (if P v then 1 else 0)"
  using assms
proof (induction d)
  case (Cons e d)
  obtain k' v' where e: "e = (k', v')" by (cases e)
  show ?case
  proof (cases "k' = k")
    case True
    with e show ?thesis by (simp add: dcount_Cons)
  next
    case False
    with Cons e show ?thesis by (simp add: dcount_Cons)
  qed
qed (simp add: dcount_Cons)

lemma dcount_delete:
  assumes "wf_dict d"
  shows "dcount P (AList.delete k d) + (case map_of d k of Some w \<Rightarrow> if P w then 1 else 0 | None \<Rightarrow> 0) = dcount P d"
  using assms
proof (induction d)
  case (Cons e d)
  obtain k' v' where e: "e = (k', v')" by (cases e)
  show ?case
  proof (cases "k' = k")
    case True
    with Cons.prems e have "AList.delete k d = d" by (auto simp: AList.delete_eq filter_id_conv image_iff)
    with True e show ?thesis by (simp add: dcount_Cons)
  next
    case False
    with Cons e show ?thesis by (simp add: dcount_Cons)
  qed
qed simp

lemma dcount_two:
  assumes "map_of d k = Some v" and "map_of d k' = Some v'" and "k \<noteq> k'" and "P v" and "P v'"
  shows "dcount P d \<ge> 2"
proof -
  have "{(k, v), (k', v')} \<subseteq> set (filter (\<lambda>kv. P (snd kv)) d)"
    using assms by (auto dest: map_of_SomeD)
  then have "card {(k, v), (k', v')} \<le> card (set (filter (\<lambda>kv. P (snd kv)) d))" by (intro card_mono) auto
  also have "\<dots> \<le> dcount P d" unfolding dcount_def by (rule card_length)
  finally show ?thesis using assms(3) by simp
qed

lemma dcount_pos_iff: "0 < dcount P d \<longleftrightarrow> (\<exists>kv \<in> set d. P (snd kv))"
  by (auto simp: dcount_def filter_empty_conv)

lemma dcount_mono: "(\<And>v. P v \<Longrightarrow> Q v) \<Longrightarrow> dcount P d \<le> dcount Q d"
  unfolding dcount_def by (induction d) auto

subsection \<open>Exceptions\<close>

datatype exn = IndexError | KeyError | ValueError | TypeError | RuntimeError
  | AssertionError | AttributeError | OverflowError | StopIteration | ZeroDivisionError | NotImplementedError

type_synonym 'a result = "exn + 'a"

definition ebind :: "'a result \<Rightarrow> ('a \<Rightarrow> 'b result) \<Rightarrow> 'b result" where
  "ebind m f = (case m of Inl e \<Rightarrow> Inl e | Inr x \<Rightarrow> f x)"

definition assert_that :: "bool \<Rightarrow> unit result" where
  "assert_that b = (if b then Inr () else Inl AssertionError)"

lemma ebind_Inl [simp]: "ebind (Inl e) f = Inl e"
  by (simp add: ebind_def)

lemma ebind_Inr [simp]: "ebind (Inr x) f = f x"
  by (simp add: ebind_def)

lemma ebind_cong [fundef_cong]:
  "m = m' \<Longrightarrow> (\<And>x. m' = Inr x \<Longrightarrow> f x = f' x) \<Longrightarrow> ebind m f = ebind m' f'"
  by (auto simp: ebind_def split: sum.splits)

lemma ebind_eq_Inr: "ebind m f = Inr y \<longleftrightarrow> (\<exists>x. m = Inr x \<and> f x = Inr y)"
  by (auto simp: ebind_def split: sum.splits)

lemma ebind_Inr_E [elim]:
  assumes "ebind m f = Inr y"
  obtains x where "m = Inr x" and "f x = Inr y"
  using assms by (auto simp: ebind_eq_Inr)

lemma assert_that_Inr [simp]: "assert_that b = Inr u \<longleftrightarrow> b"
  by (simp add: assert_that_def)

lemma assert_that_True [simp]: "assert_that True = Inr ()"
  by (simp add: assert_that_def)

lemma assert_that_False [simp]: "assert_that False = Inl AssertionError"
  by (simp add: assert_that_def)

subsection \<open>Stable sorting and suffixes\<close>

text \<open>\<open>list.sort(key=f)\<close> is stable, as \<open>sort_key\<close> is.\<close>

lemma distinct_sort_key [simp]: "distinct (sort_key f xs) \<longleftrightarrow> distinct xs"
  by (metis distinct_count_atmost_1 mset_sort set_mset_mset)

lemma length_suffix [simp]: "length (drop (length xs - k) xs) = min k (length xs)"
  by simp

lemma sorted_take_drop_le:
  assumes "sorted (map f xs)" and "x \<in> set (take n xs)" and "y \<in> set (drop n xs)"
  shows "f x \<le> f y"
proof -
  have "sorted (map f (take n xs) @ map f (drop n xs))"
    using assms(1) by (simp flip: map_append)
  with assms(2,3) show ?thesis by (auto simp: sorted_append)
qed

lemma set_take_Un_drop: "set (take n xs) \<union> set (drop n xs) = set xs"
  by (metis append_take_drop_id set_append)

lemma distinct_take_drop_disjoint:
  "distinct xs \<Longrightarrow> set (take n xs) \<inter> set (drop n xs) = {}"
  by (metis append_take_drop_id distinct_append)

lemma le_int_div_iff:
  assumes "(0::int) < b"
  shows "c \<le> a div b \<longleftrightarrow> c * b \<le> a"
proof
  assume "c \<le> a div b"
  then have "c * b \<le> a div b * b" using assms by (simp add: mult_right_mono)
  also have "\<dots> = a - a mod b" by (simp add: minus_mod_eq_div_mult)
  also have "\<dots> \<le> a" using assms by simp
  finally show "c * b \<le> a" .
next
  assume "c * b \<le> a"
  then have "c * b div b \<le> a div b" using assms by (intro zdiv_mono1)
  with assms show "c \<le> a div b" by simp
qed

subsection \<open>Decimal numerals\<close>

text \<open>\<open>f"{n}"\<close> for a natural number, and its injectivity; used for the identifiers of branches.\<close>

definition digit_char :: "nat \<Rightarrow> char" where
  "digit_char d = char_of (48 + d)"

fun nat_str :: "nat \<Rightarrow> string" where
  "nat_str n = (if n < 10 then [digit_char n] else nat_str (n div 10) @ [digit_char (n mod 10)])"

declare nat_str.simps [simp del]

definition int_str :: "int \<Rightarrow> string" where
  "int_str i = (if i < 0 then CHR ''-'' # nat_str (nat (- i)) else nat_str (nat i))"

lemma of_char_digit: "d < 10 \<Longrightarrow> of_char (digit_char d) = (48 + d :: nat)"
  by (simp add: digit_char_def of_char_of)

lemma digit_char_inj: "d < 10 \<Longrightarrow> e < 10 \<Longrightarrow> digit_char d = digit_char e \<longleftrightarrow> d = e"
  by (metis add_left_imp_eq of_char_digit)

lemma digit_char_not_underscore: "d < 10 \<Longrightarrow> digit_char d \<noteq> CHR ''_''"
proof
  assume "d < 10" and "digit_char d = CHR ''_''"
  then have "(48 + d :: nat) = of_char CHR ''_''" by (metis of_char_digit)
  with \<open>d < 10\<close> show False by simp
qed

lemma nat_str_no_underscore: "CHR ''_'' \<notin> set (nat_str n)"
proof (induction n rule: nat_str.induct)
  case (1 n)
  show ?case
  proof (cases "n < 10")
    case True
    with digit_char_not_underscore [of n] show ?thesis
      by (subst nat_str.simps) auto
  next
    case False
    with 1 digit_char_not_underscore [of "n mod 10"] show ?thesis
      by (subst nat_str.simps) auto
  qed
qed

lemma nat_str_nonempty [simp]: "nat_str n \<noteq> []"
  by (subst nat_str.simps) simp

lemma nat_str_inj: "nat_str m = nat_str n \<Longrightarrow> m = n"
proof (induction m arbitrary: n rule: nat_str.induct)
  case (1 m)
  have dm: "nat_str m = (if m < 10 then [digit_char m]
      else nat_str (m div 10) @ [digit_char (m mod 10)])" by (rule nat_str.simps)
  have dn: "nat_str n = (if n < 10 then [digit_char n]
      else nat_str (n div 10) @ [digit_char (n mod 10)])" by (rule nat_str.simps)
  show ?case
  proof (cases "m < 10"; cases "n < 10")
    assume "m < 10" "n < 10"
    with 1 dm dn show ?thesis by (simp add: digit_char_inj)
  next
    assume "\<not> m < 10" "\<not> n < 10"
    with 1 dm dn have "m div 10 = n div 10" and "m mod 10 = n mod 10"
      by (simp_all add: digit_char_inj)
    then show ?thesis by (metis div_mult_mod_eq)
  next
    assume "m < 10" "\<not> n < 10"
    with 1 dm dn have "[] = nat_str (n div 10)" by simp
    then show ?thesis by (metis nat_str_nonempty)
  next
    assume "\<not> m < 10" "n < 10"
    with 1 dm dn have "nat_str (m div 10) = []" by simp
    then show ?thesis by simp
  qed
qed

lemma split_at_underscore:
  assumes "xs @ CHR ''_'' # ys = xs' @ CHR ''_'' # ys'"
    and "CHR ''_'' \<notin> set xs" and "CHR ''_'' \<notin> set xs'"
  shows "xs = xs' \<and> ys = ys'"
  using assms by (auto simp: append_eq_append_conv2 append_eq_Cons_conv Cons_eq_append_conv)

end
