(* ===== verification/Trace_Tree.thy ===== *)
theory Trace_Tree
  imports Prelude
begin

text \<open>
  The trace tree of \<open>vllm/v1/engine/trace_tree.py\<close>: \<open>TraceNode\<close> and \<open>TraceTree\<close> with all their
  operations (constructor, root and branch insertion, completion, pruning, counting, the branching
  gates, score recording, identifier generation, removal, statistics, export), the structural
  invariant of the tree, and the freshness of the identifiers of branches. Fields of \<open>TraceNode\<close>
  carry the prefix \<open>nd_\<close>, fields of \<open>TraceTree\<close> the prefix \<open>tt_\<close>. Log calls have no effect on the
  state and are left out.
\<close>

subsection \<open>Nodes\<close>

datatype stop_reason = StopToken int | StopText string

record trace_node =
  nd_req_id :: reqid
  nd_parent_id :: "reqid option"
  nd_branch_depth :: int
  nd_created_at_step :: int
  nd_last_branch_step :: int
  nd_branch_parent_output_len :: int
  nd_score_history :: "score list"
  nd_is_active :: bool
  nd_is_completed :: bool
  nd_is_pruned :: bool
  nd_children :: "reqid list"
  nd_output_text :: "string option"
  nd_output_token_ids :: "token list option"
  nd_output_token_count :: int
  nd_finish_reason :: "string option"
  nd_stop_reason :: "stop_reason option"
  nd_final_score :: "score option"

definition latest_score :: "trace_node \<Rightarrow> score option" where
  "latest_score n = (if nd_score_history n = [] then None else Some (last (nd_score_history n)))"

definition mean :: "score list \<Rightarrow> score" where
  "mean xs = sum_list xs / of_nat (length xs)"

definition avg_score :: "trace_node \<Rightarrow> score option" where
  "avg_score n = (if nd_score_history n = [] then None else Some (mean (nd_score_history n)))"

definition node_record_score :: "score \<Rightarrow> trace_node \<Rightarrow> trace_node" where
  "node_record_score s n = n\<lparr>nd_score_history := nd_score_history n @ [s]\<rparr>"

definition set_output :: "string option \<Rightarrow> token list option \<Rightarrow> string option \<Rightarrow>
    stop_reason option \<Rightarrow> score option \<Rightarrow> trace_node \<Rightarrow> trace_node" where
  "set_output text ids fin stop sc n = n\<lparr>
     nd_output_text := text,
     nd_output_token_ids := ids,
     nd_output_token_count := (case ids of None \<Rightarrow> 0 | Some xs \<Rightarrow> int (length xs)),
     nd_finish_reason := fin,
     nd_stop_reason := stop,
     nd_final_score := sc\<rparr>"

subsection \<open>The tree\<close>

record trace_tree =
  tt_max_traces :: int
  tt_branch_cooldown_steps :: int
  tt_min_tokens_before_branch :: int
  tt_nodes :: "(reqid, trace_node) dict"
  tt_root_ids :: "reqid set"
  tt_branch_counter :: int
  tt_current_step :: int
  tt_lineage_cache :: "(reqid, reqid set) dict"

definition new_tree :: "int \<Rightarrow> int \<Rightarrow> int \<Rightarrow> trace_tree" where
  "new_tree max_traces cooldown min_tokens = \<lparr>
     tt_max_traces = max_traces,
     tt_branch_cooldown_steps = cooldown,
     tt_min_tokens_before_branch = min_tokens,
     tt_nodes = [], tt_root_ids = {}, tt_branch_counter = 0, tt_current_step = 0,
     tt_lineage_cache = []\<rparr>"

definition new_node :: "reqid \<Rightarrow> reqid option \<Rightarrow> int \<Rightarrow> int \<Rightarrow> int \<Rightarrow> score list \<Rightarrow> trace_node" where
  "new_node rid parent depth step plen hist = \<lparr>
     nd_req_id = rid, nd_parent_id = parent, nd_branch_depth = depth, nd_created_at_step = step,
     nd_last_branch_step = -1, nd_branch_parent_output_len = plen, nd_score_history = hist,
     nd_is_active = True, nd_is_completed = False, nd_is_pruned = False, nd_children = [],
     nd_output_text = None, nd_output_token_ids = None, nd_output_token_count = 0,
     nd_finish_reason = None, nd_stop_reason = None, nd_final_score = None\<rparr>"

definition invalidate_lineage_cache :: "trace_tree \<Rightarrow> trace_tree" where
  "invalidate_lineage_cache t = t\<lparr>tt_lineage_cache := []\<rparr>"

definition add_root :: "reqid \<Rightarrow> trace_tree \<Rightarrow> trace_tree" where
  "add_root rid t = invalidate_lineage_cache (t\<lparr>
     tt_nodes := AList.update rid (new_node rid None 0 (tt_current_step t) 0 []) (tt_nodes t),
     tt_root_ids := insert rid (tt_root_ids t)\<rparr>)"

text \<open>The parent object is mutated whether or not the child takes its key, so the parent is updated
  first and the child stored afterwards. The result is \<open>None\<close> when the parent is unknown.\<close>

definition add_branch :: "reqid \<Rightarrow> reqid \<Rightarrow> int \<Rightarrow> trace_tree \<Rightarrow> trace_node option \<times> trace_tree" where
  "add_branch parent_id child_id plen t =
     (case map_of (tt_nodes t) parent_id of
        None \<Rightarrow> (None, t)
      | Some parent \<Rightarrow>
          let child = new_node child_id (Some parent_id) (nd_branch_depth parent + 1)
                        (tt_current_step t) plen (nd_score_history parent)
          in (Some child, invalidate_lineage_cache (t\<lparr>
               tt_nodes := AList.update child_id child
                 (dmodify parent_id (\<lambda>p. p\<lparr>nd_children := nd_children p @ [child_id],
                                          nd_last_branch_step := tt_current_step t\<rparr>) (tt_nodes t)),
               tt_branch_counter := tt_branch_counter t + 1\<rparr>)))"

definition mark_completed :: "reqid \<Rightarrow> string option \<Rightarrow> token list option \<Rightarrow> string option \<Rightarrow>
    stop_reason option \<Rightarrow> score option \<Rightarrow> trace_tree \<Rightarrow> trace_tree" where
  "mark_completed rid text ids fin stop sc t = t\<lparr>tt_nodes :=
     dmodify rid (\<lambda>n. set_output text ids fin stop sc
                        (n\<lparr>nd_is_active := False, nd_is_completed := True\<rparr>)) (tt_nodes t)\<rparr>"

definition mark_pruned :: "reqid \<Rightarrow> trace_tree \<Rightarrow> trace_tree" where
  "mark_pruned rid t = t\<lparr>tt_nodes :=
     dmodify rid (\<lambda>n. n\<lparr>nd_is_active := False, nd_is_pruned := True\<rparr>) (tt_nodes t)\<rparr>"

definition get_active_count :: "trace_tree \<Rightarrow> int" where
  "get_active_count t = int (dcount nd_is_active (tt_nodes t))"

definition get_completed_count :: "trace_tree \<Rightarrow> int" where
  "get_completed_count t = int (dcount nd_is_completed (tt_nodes t))"

definition can_branch :: "trace_tree \<Rightarrow> bool" where
  "can_branch t \<longleftrightarrow> get_active_count t < tt_max_traces t"

definition can_trace_branch :: "reqid \<Rightarrow> int \<Rightarrow> trace_tree \<Rightarrow> bool" where
  "can_trace_branch rid num_tokens_generated t =
     (case map_of (tt_nodes t) rid of
        None \<Rightarrow> False
      | Some node \<Rightarrow>
          if \<not> nd_is_active node then False
          else if \<not> can_branch t then False
          else if num_tokens_generated < tt_min_tokens_before_branch t then False
          else if nd_last_branch_step node \<ge> 0 \<and>
                  tt_current_step t - nd_last_branch_step node < tt_branch_cooldown_steps t then False
          else True)"

definition record_score :: "reqid \<Rightarrow> score \<Rightarrow> trace_tree \<Rightarrow> trace_tree" where
  "record_score rid s t = t\<lparr>tt_nodes := dmodify rid (node_record_score s) (tt_nodes t)\<rparr>"

definition get_score :: "reqid \<Rightarrow> trace_tree \<Rightarrow> score option" where
  "get_score rid t = (case map_of (tt_nodes t) rid of None \<Rightarrow> None | Some n \<Rightarrow> avg_score n)"

definition get_node :: "reqid \<Rightarrow> trace_tree \<Rightarrow> trace_node option" where
  "get_node rid t = map_of (tt_nodes t) rid"

definition increment_step :: "trace_tree \<Rightarrow> trace_tree" where
  "increment_step t = t\<lparr>tt_current_step := tt_current_step t + 1\<rparr>"

definition branch_id :: "int \<Rightarrow> reqid \<Rightarrow> reqid" where
  "branch_id n parent = ''gambit_'' @ int_str n @ ''_'' @ parent"

definition generate_branch_id :: "reqid \<Rightarrow> trace_tree \<Rightarrow> reqid" where
  "generate_branch_id parent t = branch_id (tt_branch_counter t) parent"

definition tree_contains :: "trace_tree \<Rightarrow> reqid \<Rightarrow> bool" where
  "tree_contains t rid \<longleftrightarrow> rid \<in> keyset (tt_nodes t)"

definition tree_len :: "trace_tree \<Rightarrow> int" where
  "tree_len t = int (length (tt_nodes t))"

definition remove_trace :: "reqid \<Rightarrow> trace_tree \<Rightarrow> trace_tree" where
  "remove_trace rid t =
     (if tree_contains t rid
      then invalidate_lineage_cache (t\<lparr>tt_nodes := AList.delete rid (tt_nodes t),
                                       tt_root_ids := tt_root_ids t - {rid}\<rparr>)
      else t)"

subsection \<open>Statistics and export\<close>

record tree_stats =
  st_total_nodes :: int
  st_active_count :: int
  st_completed_count :: int
  st_pruned_count :: int
  st_max_depth :: int
  st_num_roots :: int
  st_branch_counter :: int
  st_current_step :: int

text \<open>One pass over the nodes with four accumulators, as in the source.\<close>

fun stats_loop :: "(reqid, trace_node) dict \<Rightarrow> int \<Rightarrow> int \<Rightarrow> int \<Rightarrow> int \<Rightarrow> int \<times> int \<times> int \<times> int" where
  "stats_loop [] a c p d = (a, c, p, d)"
| "stats_loop ((_, n) # ns) a c p d =
     stats_loop ns (if nd_is_active n then a + 1 else a)
                   (if nd_is_completed n then c + 1 else c)
                   (if nd_is_pruned n then p + 1 else p)
                   (max d (nd_branch_depth n))"

definition get_stats :: "trace_tree \<Rightarrow> tree_stats" where
  "get_stats t =
     (case stats_loop (tt_nodes t) 0 0 0 0 of (a, c, p, d) \<Rightarrow> \<lparr>
        st_total_nodes = int (length (tt_nodes t)), st_active_count = a, st_completed_count = c,
        st_pruned_count = p, st_max_depth = d, st_num_roots = int (card (tt_root_ids t)),
        st_branch_counter = tt_branch_counter t, st_current_step = tt_current_step t\<rparr>)"

text \<open>The exported dictionary of a node: its fields without the output text, and the two derived
  scores.\<close>

record node_data =
  ex_req_id :: reqid
  ex_parent_id :: "reqid option"
  ex_branch_depth :: int
  ex_created_at_step :: int
  ex_last_branch_step :: int
  ex_branch_parent_output_len :: int
  ex_score_history :: "score list"
  ex_latest_score :: "score option"
  ex_avg_score :: "score option"
  ex_is_active :: bool
  ex_is_completed :: bool
  ex_is_pruned :: bool
  ex_children :: "reqid list"
  ex_output_token_count :: int
  ex_output_token_ids :: "token list option"
  ex_finish_reason :: "string option"
  ex_stop_reason :: "stop_reason option"
  ex_final_score :: "score option"

definition export_node :: "trace_node \<Rightarrow> node_data" where
  "export_node n = \<lparr>
     ex_req_id = nd_req_id n, ex_parent_id = nd_parent_id n, ex_branch_depth = nd_branch_depth n,
     ex_created_at_step = nd_created_at_step n, ex_last_branch_step = nd_last_branch_step n,
     ex_branch_parent_output_len = nd_branch_parent_output_len n,
     ex_score_history = nd_score_history n, ex_latest_score = latest_score n,
     ex_avg_score = avg_score n, ex_is_active = nd_is_active n,
     ex_is_completed = nd_is_completed n, ex_is_pruned = nd_is_pruned n,
     ex_children = nd_children n, ex_output_token_count = nd_output_token_count n,
     ex_output_token_ids = nd_output_token_ids n, ex_finish_reason = nd_finish_reason n,
     ex_stop_reason = nd_stop_reason n, ex_final_score = nd_final_score n\<rparr>"

record completed_trace =
  ct_req_id :: reqid
  ct_parent_id :: "reqid option"
  ct_branch_depth :: int
  ct_output_text :: string
  ct_output_token_count :: int
  ct_final_score :: "score option"
  ct_finish_reason :: "string option"
  ct_stop_reason :: "stop_reason option"

record tree_export =
  xp_stats :: tree_stats
  xp_nodes :: "(reqid, node_data) dict"
  xp_roots :: "reqid set"
  xp_completed_traces :: "completed_trace list"

fun completed_entry :: "trace_node \<Rightarrow> completed_trace list" where
  "completed_entry n =
     (case nd_output_text n of
        Some text \<Rightarrow> if nd_is_completed n then [\<lparr>
            ct_req_id = nd_req_id n, ct_parent_id = nd_parent_id n,
            ct_branch_depth = nd_branch_depth n, ct_output_text = text,
            ct_output_token_count = nd_output_token_count n, ct_final_score = nd_final_score n,
            ct_finish_reason = nd_finish_reason n, ct_stop_reason = nd_stop_reason n\<rparr>] else []
      | None \<Rightarrow> [])"

definition export_tree :: "trace_tree \<Rightarrow> tree_export" where
  "export_tree t = \<lparr>
     xp_stats = get_stats t,
     xp_nodes = map (\<lambda>(rid, n). (rid, export_node n)) (tt_nodes t),
     xp_roots = tt_root_ids t,
     xp_completed_traces = concat (map (completed_entry \<circ> snd) (tt_nodes t))\<rparr>"

record node_metadata =
  md_parent_id :: "reqid option"
  md_branch_depth :: int
  md_is_branch :: bool
  md_branch_parent_output_len :: int
  md_score_history :: "score list"
  md_avg_score :: "score option"
  md_is_completed :: bool
  md_is_pruned :: bool

definition get_node_metadata :: "reqid \<Rightarrow> trace_tree \<Rightarrow> node_metadata option" where
  "get_node_metadata rid t = map_option (\<lambda>n. \<lparr>
     md_parent_id = nd_parent_id n, md_branch_depth = nd_branch_depth n,
     md_is_branch = (nd_parent_id n \<noteq> None),
     md_branch_parent_output_len = nd_branch_parent_output_len n,
     md_score_history = nd_score_history n, md_avg_score = avg_score n,
     md_is_completed = nd_is_completed n, md_is_pruned = nd_is_pruned n\<rparr>) (map_of (tt_nodes t) rid)"

subsection \<open>Identifiers of branches\<close>

lemma branch_id_inj:
  assumes "0 \<le> m" and "0 \<le> n" and "branch_id m p = branch_id n q"
  shows "m = n \<and> p = q"
proof -
  have "nat_str (nat m) @ CHR ''_'' # p = nat_str (nat n) @ CHR ''_'' # q"
    using assms by (simp add: branch_id_def int_str_def)
  then have "nat_str (nat m) = nat_str (nat n) \<and> p = q"
    by (rule split_at_underscore) (rule nat_str_no_underscore)+
  with assms(1,2) show ?thesis by (auto dest: nat_str_inj)
qed

text \<open>A request id that no call of \<open>generate_branch_id\<close> can return: the ids of the requests that enter
  the engine from outside. \<open>EngineCore.add_request\<close> recognises them by their prefix.\<close>

definition external_id :: "reqid \<Rightarrow> bool" where
  "external_id rid \<longleftrightarrow> \<not> prefix ''gambit_'' rid"

lemma external_not_branch_id: "external_id rid \<Longrightarrow> rid \<noteq> branch_id n p"
  by (auto simp: external_id_def branch_id_def)

subsection \<open>The invariant of the tree\<close>

definition node_ok :: "reqid \<Rightarrow> trace_node \<Rightarrow> bool" where
  "node_ok k n \<longleftrightarrow> nd_req_id n = k \<and>
     (nd_is_active n \<longleftrightarrow> \<not> nd_is_completed n \<and> \<not> nd_is_pruned n) \<and>
     \<not> (nd_is_completed n \<and> nd_is_pruned n) \<and>
     nd_output_token_count n =
       (case nd_output_token_ids n of None \<Rightarrow> 0 | Some xs \<Rightarrow> int (length xs))"

definition link_ok :: "trace_tree \<Rightarrow> reqid \<Rightarrow> trace_node \<Rightarrow> bool" where
  "link_ok t k n \<longleftrightarrow>
     (case nd_parent_id n of
        None \<Rightarrow> nd_branch_depth n = 0 \<and> k \<in> tt_root_ids t
      | Some p \<Rightarrow> k \<notin> tt_root_ids t \<and>
          (case map_of (tt_nodes t) p of
             None \<Rightarrow> False
           | Some m \<Rightarrow> 0 \<le> nd_branch_depth m \<and> nd_branch_depth n = nd_branch_depth m + 1 \<and>
                       k \<in> set (nd_children m)))"

definition ids_below :: "trace_tree \<Rightarrow> bool" where
  "ids_below t \<longleftrightarrow> 0 \<le> tt_branch_counter t \<and>
     (\<forall>k \<in> keyset (tt_nodes t). \<forall>n p. 0 \<le> n \<and> k = branch_id n p \<longrightarrow> n < tt_branch_counter t)"

definition tree_inv :: "trace_tree \<Rightarrow> bool" where
  "tree_inv t \<longleftrightarrow> wf_dict (tt_nodes t) \<and>
     (\<forall>(k, n) \<in> set (tt_nodes t). node_ok k n \<and> link_ok t k n) \<and>
     tt_root_ids t \<subseteq> keyset (tt_nodes t) \<and> ids_below t"

lemmas tree_op_defs = add_root_def invalidate_lineage_cache_def mark_completed_def mark_pruned_def
  record_score_def increment_step_def remove_trace_def get_node_def tree_contains_def
  node_record_score_def set_output_def

lemma tree_inv_alt:
  "tree_inv t \<longleftrightarrow> wf_dict (tt_nodes t) \<and>
     (\<forall>k n. map_of (tt_nodes t) k = Some n \<longrightarrow> node_ok k n \<and> link_ok t k n) \<and>
     tt_root_ids t \<subseteq> keyset (tt_nodes t) \<and> ids_below t"
  unfolding tree_inv_def by (auto simp: in_set_wf_dict)

lemma tree_invD:
  assumes "tree_inv t"
  shows "wf_dict (tt_nodes t)"
    and "map_of (tt_nodes t) k = Some n \<Longrightarrow> node_ok k n"
    and "map_of (tt_nodes t) k = Some n \<Longrightarrow> link_ok t k n"
    and "tt_root_ids t \<subseteq> keyset (tt_nodes t)"
    and "ids_below t"
  using assms by (auto simp: tree_inv_alt)

lemma tree_inv_new [simp]: "tree_inv (new_tree m c k)"
  by (simp add: tree_inv_def new_tree_def ids_below_def)

lemma node_ok_new [simp]: "node_ok k (new_node k p d s l h)"
  by (simp add: node_ok_def new_node_def)

lemma fresh_branch_id:
  assumes "tree_inv t"
  shows "\<not> tree_contains t (generate_branch_id p t)"
  using tree_invD(5) [OF assms] unfolding ids_below_def tree_contains_def generate_branch_id_def
  by blast

lemma ids_below_update:
  assumes "ids_below t" and "\<And>n p. 0 \<le> n \<Longrightarrow> rid = branch_id n p \<Longrightarrow> n < c"
    and "tt_branch_counter t \<le> c" and "keyset (tt_nodes t') \<subseteq> insert rid (keyset (tt_nodes t))"
    and "tt_branch_counter t' = c"
  shows "ids_below t'"
proof -
  have "0 \<le> c" using assms(1,3) by (simp add: ids_below_def)
  moreover have "n < c" if k: "k \<in> keyset (tt_nodes t')" "0 \<le> n" "k = branch_id n p" for k n p
  proof (cases "k = rid")
    case True
    with assms(2) k show ?thesis by blast
  next
    case False
    with k assms(4) have "k \<in> keyset (tt_nodes t)" by blast
    with k(2,3) assms(1) have "n < tt_branch_counter t" unfolding ids_below_def by blast
    with assms(3) show ?thesis by simp
  qed
  ultimately show ?thesis using assms(5) unfolding ids_below_def by blast
qed

text \<open>Links survive when every node keeps a successor with the same depth and at least its children.\<close>

lemma link_ok_iff:
  "link_ok t k n \<longleftrightarrow>
     (nd_parent_id n = None \<and> nd_branch_depth n = 0 \<and> k \<in> tt_root_ids t) \<or>
     (\<exists>p m. nd_parent_id n = Some p \<and> k \<notin> tt_root_ids t \<and> map_of (tt_nodes t) p = Some m \<and>
            0 \<le> nd_branch_depth m \<and> nd_branch_depth n = nd_branch_depth m + 1 \<and>
            k \<in> set (nd_children m))"
  by (auto simp: link_ok_def split: option.splits)

lemma link_ok_mono:
  assumes "link_ok t k n" and "k \<in> tt_root_ids t' \<longleftrightarrow> k \<in> tt_root_ids t"
    and "\<And>p m. map_of (tt_nodes t) p = Some m \<Longrightarrow> \<exists>m'. map_of (tt_nodes t') p = Some m' \<and>
           nd_branch_depth m' = nd_branch_depth m \<and> set (nd_children m) \<subseteq> set (nd_children m')"
    and "nd_parent_id n' = nd_parent_id n" and "nd_branch_depth n' = nd_branch_depth n"
  shows "link_ok t' k n'"
  using assms(1)
proof (unfold link_ok_iff [of t], elim disjE exE conjE)
  assume "nd_parent_id n = None" "nd_branch_depth n = 0" "k \<in> tt_root_ids t"
  with assms(2,4,5) show ?thesis by (simp add: link_ok_iff)
next
  fix p m
  assume "nd_parent_id n = Some p" "k \<notin> tt_root_ids t" "map_of (tt_nodes t) p = Some m"
    "0 \<le> nd_branch_depth m" "nd_branch_depth n = nd_branch_depth m + 1" "k \<in> set (nd_children m)"
  with assms(2,4,5) assms(3) [of p m] show ?thesis by (auto simp: link_ok_iff [of t'])
qed

lemma tree_inv_dmodify:
  assumes inv: "tree_inv t"
    and links: "\<And>m. nd_parent_id (f m) = nd_parent_id m \<and> nd_branch_depth (f m) = nd_branch_depth m \<and>
              set (nd_children m) \<subseteq> set (nd_children (f m))"
    and ok: "\<And>n. map_of (tt_nodes t) rid = Some n \<Longrightarrow> node_ok rid n \<Longrightarrow> node_ok rid (f n)"
  shows "tree_inv (t\<lparr>tt_nodes := dmodify rid f (tt_nodes t)\<rparr>)" (is "tree_inv ?t")
  unfolding tree_inv_alt
proof (intro conjI allI impI)
  fix k n assume k: "map_of (tt_nodes ?t) k = Some n"
  then obtain m where m: "map_of (tt_nodes t) k = Some m"
      and n: "n = (if k = rid then f m else m)"
    by (auto simp: dict_simps split: if_splits)
  show "node_ok k n" using tree_invD(2) [OF inv m] ok m n by (auto split: if_splits)
  show "link_ok ?t k n"
    by (rule link_ok_mono [OF tree_invD(3) [OF inv m]]) (use links n in \<open>auto simp: dict_simps\<close>)
qed (use tree_invD(1,4,5) [OF inv] in \<open>auto simp: ids_below_def\<close>)

lemma tree_inv_cong:
  assumes "tree_inv t" and "tt_nodes t' = tt_nodes t" and "tt_root_ids t' = tt_root_ids t"
    and "tt_branch_counter t' = tt_branch_counter t"
  shows "tree_inv t'"
proof -
  from assms(2,3) have "link_ok t' = link_ok t" by (simp add: link_ok_iff fun_eq_iff)
  with assms show ?thesis by (simp add: tree_inv_def ids_below_def)
qed

lemma tree_inv_mark_pruned:
  assumes "tree_inv t" and "\<And>n. map_of (tt_nodes t) rid = Some n \<Longrightarrow> \<not> nd_is_completed n"
  shows "tree_inv (mark_pruned rid t)"
  unfolding mark_pruned_def
  by (rule tree_inv_dmodify [OF assms(1)]) (use assms(2) in \<open>auto simp: node_ok_def\<close>)

lemma tree_inv_mark_completed:
  assumes "tree_inv t" and "\<And>n. map_of (tt_nodes t) rid = Some n \<Longrightarrow> \<not> nd_is_pruned n"
  shows "tree_inv (mark_completed rid text ids fin stop sc t)"
  unfolding mark_completed_def
  by (rule tree_inv_dmodify [OF assms(1)])
    (use assms(2) in \<open>auto simp: node_ok_def set_output_def\<close>)

lemma tree_inv_set_output:
  assumes "tree_inv t"
  shows "tree_inv (t\<lparr>tt_nodes := dmodify rid (set_output text ids fin stop sc) (tt_nodes t)\<rparr>)"
  by (rule tree_inv_dmodify [OF assms]) (auto simp: node_ok_def set_output_def)

lemma tree_inv_record_score [simp, intro]: "tree_inv t \<Longrightarrow> tree_inv (record_score rid s t)"
  unfolding record_score_def
  by (rule tree_inv_dmodify) (auto simp: node_ok_def node_record_score_def)

lemma tree_inv_increment_step [simp, intro]: "tree_inv t \<Longrightarrow> tree_inv (increment_step t)"
  by (rule tree_inv_cong) (simp_all add: increment_step_def)

lemma tree_inv_add_root:
  assumes inv: "tree_inv t" and new: "\<not> tree_contains t rid" and ext: "external_id rid"
  shows "tree_inv (add_root rid t)" (is "tree_inv ?t")
  unfolding tree_inv_alt
proof (intro conjI allI impI)
  have nodes: "tt_nodes ?t = AList.update rid (new_node rid None 0 (tt_current_step t) 0 []) (tt_nodes t)"
    and roots: "tt_root_ids ?t = insert rid (tt_root_ids t)"
    and cnt: "tt_branch_counter ?t = tt_branch_counter t"
    by (simp_all add: tree_op_defs)
  show "wf_dict (tt_nodes ?t)" using tree_invD(1) [OF inv] nodes by simp
  show "tt_root_ids ?t \<subseteq> keyset (tt_nodes ?t)" using tree_invD(4) [OF inv] nodes roots by auto
  show "ids_below ?t"
    using ids_below_update [OF tree_invD(5) [OF inv], of rid "tt_branch_counter t" ?t]
      external_not_branch_id [OF ext] nodes cnt by auto
  fix k n assume k: "map_of (tt_nodes ?t) k = Some n"
  show "node_ok k n" using k nodes tree_invD(2) [OF inv] by (auto simp: dict_simps split: if_splits)
  show "link_ok ?t k n"
  proof (cases "k = rid")
    case True
    with k nodes roots show ?thesis by (auto simp: dict_simps link_ok_iff new_node_def)
  next
    case False
    with k nodes have old: "link_ok t k n" using tree_invD(3) [OF inv] by (auto simp: dict_simps)
    from new have "map_of (tt_nodes t) rid = None"
      by (simp add: tree_contains_def map_of_None_iff)
    then show ?thesis
      by (intro link_ok_mono [OF old]) (use False nodes roots in \<open>auto simp: dict_simps\<close>)
  qed
qed

lemma add_branch_Some:
  assumes "map_of (tt_nodes t) p = Some parent"
  shows "fst (add_branch p c l t) = Some (new_node c (Some p) (nd_branch_depth parent + 1)
           (tt_current_step t) l (nd_score_history parent))"
    and "tt_nodes (snd (add_branch p c l t)) =
           AList.update c (new_node c (Some p) (nd_branch_depth parent + 1)
             (tt_current_step t) l (nd_score_history parent))
           (dmodify p (\<lambda>m. m\<lparr>nd_children := nd_children m @ [c],
                            nd_last_branch_step := tt_current_step t\<rparr>) (tt_nodes t))"
    and "tt_branch_counter (snd (add_branch p c l t)) = tt_branch_counter t + 1"
    and "tt_root_ids (snd (add_branch p c l t)) = tt_root_ids t"
    and "tt_max_traces (snd (add_branch p c l t)) = tt_max_traces t"
    and "tt_current_step (snd (add_branch p c l t)) = tt_current_step t"
    and "tt_branch_cooldown_steps (snd (add_branch p c l t)) = tt_branch_cooldown_steps t"
    and "tt_min_tokens_before_branch (snd (add_branch p c l t)) = tt_min_tokens_before_branch t"
  using assms by (simp_all add: add_branch_def Let_def invalidate_lineage_cache_def)

lemma tree_inv_add_branch:
  assumes inv: "tree_inv t" and parent: "map_of (tt_nodes t) p = Some parent"
  shows "tree_inv (snd (add_branch p (generate_branch_id p t) l t))" (is "tree_inv ?t")
proof -
  let ?c = "generate_branch_id p t"
  let ?f = "\<lambda>m. m\<lparr>nd_children := nd_children m @ [?c], nd_last_branch_step := tt_current_step t\<rparr>"
  let ?child = "new_node ?c (Some p) (nd_branch_depth parent + 1) (tt_current_step t) l
                  (nd_score_history parent)"
  let ?mid = "t\<lparr>tt_nodes := dmodify p ?f (tt_nodes t)\<rparr>"
  note eqs = add_branch_Some [OF parent, of ?c l]
  have mid: "tree_inv ?mid" by (rule tree_inv_dmodify [OF inv]) (auto simp: node_ok_def)
  have fresh: "?c \<notin> keyset (tt_nodes t)" using fresh_branch_id [OF inv] by (simp add: tree_contains_def)
  with parent have ne: "p \<noteq> ?c" by (auto dest: map_of_in_keys)
  have fresh': "map_of (tt_nodes ?mid) ?c = None" using fresh by (simp add: map_of_None_iff)
  have depth: "0 \<le> nd_branch_depth parent"
    using tree_invD(3) [OF inv parent] by (auto simp: link_ok_iff)
  have "?c \<notin> tt_root_ids t" using fresh tree_invD(4) [OF inv] by auto
  with parent ne depth eqs have child: "link_ok ?t ?c ?child"
    by (simp add: link_ok_iff new_node_def dict_simps)
  show ?thesis
    unfolding tree_inv_alt
  proof (intro conjI allI impI)
    show "wf_dict (tt_nodes ?t)" using eqs tree_invD(1) [OF inv] by simp
    show "tt_root_ids ?t \<subseteq> keyset (tt_nodes ?t)" using eqs tree_invD(4) [OF inv] by auto
    have "0 \<le> tt_branch_counter t" using tree_invD(5) [OF inv] by (simp add: ids_below_def)
    then show "ids_below ?t"
      using ids_below_update [OF tree_invD(5) [OF inv], of ?c "tt_branch_counter t + 1" ?t] eqs
      by (auto simp: generate_branch_id_def dest: branch_id_inj)
    fix k n assume k: "map_of (tt_nodes ?t) k = Some n"
    show "node_ok k n" using k eqs tree_invD(2) [OF mid] by (auto simp: dict_simps split: if_splits)
    show "link_ok ?t k n"
    proof (cases "k = ?c")
      case True
      with k eqs child show ?thesis by (simp add: dict_simps)
    next
      case False
      with k eqs have old: "link_ok ?mid k n" using tree_invD(3) [OF mid] by (simp add: dict_simps)
      show ?thesis
        by (rule link_ok_mono [OF old]) (use fresh' eqs in \<open>auto simp: dict_simps\<close>)
    qed
  qed
qed

lemma tree_inv_remove_trace:
  assumes inv: "tree_inv t" and leaf: "\<And>k n. map_of (tt_nodes t) k = Some n \<Longrightarrow> nd_parent_id n \<noteq> Some rid"
  shows "tree_inv (remove_trace rid t)" (is "tree_inv ?t")
proof (cases "tree_contains t rid")
  case False
  with inv show ?thesis by (simp add: remove_trace_def)
next
  case True
  then have nodes: "tt_nodes ?t = AList.delete rid (tt_nodes t)"
    and roots: "tt_root_ids ?t = tt_root_ids t - {rid}"
    and cnt: "tt_branch_counter ?t = tt_branch_counter t"
    by (simp_all add: remove_trace_def invalidate_lineage_cache_def)
  show ?thesis
    unfolding tree_inv_alt
  proof (intro conjI allI impI)
    show "wf_dict (tt_nodes ?t)" using tree_invD(1) [OF inv] nodes by simp
    show "tt_root_ids ?t \<subseteq> keyset (tt_nodes ?t)" using tree_invD(4) [OF inv] nodes roots by auto
    show "ids_below ?t" using tree_invD(5) [OF inv] nodes cnt by (auto simp: ids_below_def)
    fix k n assume k: "map_of (tt_nodes ?t) k = Some n"
    then have old: "map_of (tt_nodes t) k = Some n" and ne: "k \<noteq> rid"
      using nodes by (auto simp: dict_simps split: if_splits)
    show "node_ok k n" using tree_invD(2) [OF inv old] .
    show "link_ok ?t k n" using tree_invD(3) [OF inv old] leaf [OF old] ne
      unfolding link_ok_iff nodes roots map_of_delete by (elim disjE exE conjE) simp_all
  qed
qed

subsection \<open>Counts\<close>

lemma get_active_count_nonneg [simp]: "0 \<le> get_active_count t"
  by (simp add: get_active_count_def)

lemma active_count_add_root:
  "\<not> tree_contains t rid \<Longrightarrow> get_active_count (add_root rid t) = get_active_count t + 1"
  by (simp add: get_active_count_def tree_op_defs dcount_update_absent new_node_def)

lemma active_count_add_branch:
  assumes "tree_inv t" and "map_of (tt_nodes t) p = Some parent" and "\<not> tree_contains t c"
  shows "get_active_count (snd (add_branch p c l t)) = get_active_count t + 1"
proof -
  have "dcount nd_is_active (dmodify p (\<lambda>m. m\<lparr>nd_children := nd_children m @ [c],
          nd_last_branch_step := tt_current_step t\<rparr>) (tt_nodes t)) = dcount nd_is_active (tt_nodes t)"
    by (rule dcount_dmodify_same) (use tree_invD(1) [OF assms(1)] in auto)
  with assms(3) show ?thesis
    by (simp add: get_active_count_def add_branch_Some [OF assms(2)] dcount_update_absent
        tree_contains_def new_node_def)
qed

lemma active_count_mark_pruned:
  assumes "wf_dict (tt_nodes t)"
  shows "get_active_count (mark_pruned rid t) = get_active_count t -
    (case map_of (tt_nodes t) rid of Some n \<Rightarrow> if nd_is_active n then 1 else 0 | None \<Rightarrow> 0)"
proof (cases "map_of (tt_nodes t) rid")
  case None
  then have "dmodify rid f (tt_nodes t) = tt_nodes t" for f
    using map_of_None_iff by (metis dmodify_absent)
  with None show ?thesis by (simp add: mark_pruned_def get_active_count_def)
next
  case (Some n)
  from dcount_dmodify [OF assms Some, of nd_is_active
      "\<lambda>n. n\<lparr>nd_is_active := False, nd_is_pruned := True\<rparr>"] Some
  show ?thesis by (simp add: mark_pruned_def get_active_count_def split: if_splits)
qed

lemma active_count_mark_pruned_le:
  "wf_dict (tt_nodes t) \<Longrightarrow> get_active_count (mark_pruned rid t) \<le> get_active_count t"
  by (simp add: active_count_mark_pruned split: option.splits)

lemma active_count_record_score [simp]:
  "wf_dict (tt_nodes t) \<Longrightarrow> get_active_count (record_score rid s t) = get_active_count t"
  unfolding get_active_count_def record_score_def
  by (simp, rule dcount_dmodify_same) (auto simp: node_record_score_def)

lemma active_count_increment_step [simp]: "get_active_count (increment_step t) = get_active_count t"
  by (simp add: get_active_count_def increment_step_def)

text \<open>The single pass of \<open>get_stats\<close> computes the same numbers as the counting queries.\<close>

lemma stats_loop_eq:
  "stats_loop ns a c p d =
     (a + int (dcount nd_is_active ns), c + int (dcount nd_is_completed ns),
      p + int (dcount nd_is_pruned ns), foldl max d (map (nd_branch_depth \<circ> snd) ns))"
  by (induction ns arbitrary: a c p d) (auto simp: dcount_Cons)

lemma get_stats_counts:
  "st_active_count (get_stats t) = get_active_count t"
  "st_completed_count (get_stats t) = get_completed_count t"
  "st_pruned_count (get_stats t) = int (dcount nd_is_pruned (tt_nodes t))"
  by (simp_all add: get_stats_def stats_loop_eq get_active_count_def get_completed_count_def)

lemma dcount_partition:
  assumes "\<And>k n. (k, n) \<in> set ns \<Longrightarrow> node_ok k n"
  shows "length ns = dcount nd_is_active ns + dcount nd_is_completed ns + dcount nd_is_pruned ns"
  using assms
proof (induction ns)
  case Nil
  then show ?case by simp
next
  case (Cons e ns)
  obtain k n where e: "e = (k, n)" by (cases e)
  with Cons.prems have "node_ok k n" by simp
  moreover from Cons have
    "length ns = dcount nd_is_active ns + dcount nd_is_completed ns + dcount nd_is_pruned ns" by simp
  ultimately show ?case by (auto simp: e dcount_Cons node_ok_def)
qed

subsection \<open>Lineage\<close>

text \<open>Following the parent links a given number of times.\<close>

fun ancestor :: "nat \<Rightarrow> trace_tree \<Rightarrow> reqid \<Rightarrow> reqid option" where
  "ancestor 0 t k = (if tree_contains t k then Some k else None)"
| "ancestor (Suc i) t k =
     (case map_of (tt_nodes t) k of
        None \<Rightarrow> None
      | Some n \<Rightarrow> (case nd_parent_id n of None \<Rightarrow> None | Some p \<Rightarrow> ancestor i t p))"

lemma ancestor_root:
  assumes inv: "tree_inv t"
  shows "map_of (tt_nodes t) k = Some n \<Longrightarrow> nd_branch_depth n = int d \<Longrightarrow>
    \<exists>r \<in> tt_root_ids t. ancestor d t k = Some r"
proof (induction d arbitrary: k n)
  case 0
  from tree_invD(3) [OF inv 0(1)] 0 have "k \<in> tt_root_ids t" by (auto simp: link_ok_iff)
  moreover from 0(1) have "ancestor 0 t k = Some k"
    by (auto simp: tree_contains_def dest: map_of_in_keys)
  ultimately show ?case by blast
next
  case (Suc d)
  from tree_invD(3) [OF inv Suc(2)] Suc(3) obtain p m
    where "nd_parent_id n = Some p" "map_of (tt_nodes t) p = Some m" "nd_branch_depth m = int d"
    by (auto simp: link_ok_iff)
  with Suc.IH Suc(2) show ?case by simp
qed

end
