(* ===== verification/Request.thy ===== *)
theory Request
  imports Trace_Tree
begin

text \<open>
  Requests (\<open>vllm/v1/request.py\<close>) and the stop check (\<open>vllm/v1/core/sched/utils.py\<close>). Fields of
  \<open>Request\<close> carry the prefix \<open>rq_\<close>, fields of \<open>SamplingParams\<close> the prefix \<open>sp_\<close> (only those the
  modelled code reads). A request is identified by its \<open>request_id\<close>: the objects shared by the
  queues and the table of requests are entries of that table. The block hasher that a request
  closes over is an argument of the operations that call it. Events, trace headers and timing
  data, which only feed metrics, are not modelled.
\<close>

subsection \<open>Status\<close>

datatype request_status = WAITING | WAITING_FOR_FSM | WAITING_FOR_REMOTE_KVS | RUNNING | PREEMPTED
  | FINISHED_STOPPED | FINISHED_LENGTH_CAPPED | FINISHED_ABORTED | FINISHED_IGNORED

text \<open>The values of the \<open>IntEnum\<close>, and the order it inherits from them.\<close>

fun status_value :: "request_status \<Rightarrow> nat" where
  "status_value WAITING = 1"
| "status_value WAITING_FOR_FSM = 2"
| "status_value WAITING_FOR_REMOTE_KVS = 3"
| "status_value RUNNING = 4"
| "status_value PREEMPTED = 5"
| "status_value FINISHED_STOPPED = 6"
| "status_value FINISHED_LENGTH_CAPPED = 7"
| "status_value FINISHED_ABORTED = 8"
| "status_value FINISHED_IGNORED = 9"

lemma status_value_inj: "status_value a = status_value b \<Longrightarrow> a = b"
  by (cases a; cases b) simp_all

instantiation request_status :: linorder
begin
definition less_eq_request_status :: "request_status \<Rightarrow> request_status \<Rightarrow> bool" where
  "less_eq_request_status a b \<longleftrightarrow> status_value a \<le> status_value b"
definition less_request_status :: "request_status \<Rightarrow> request_status \<Rightarrow> bool" where
  "less_request_status a b \<longleftrightarrow> status_value a < status_value b"
instance
  by standard (auto simp: less_eq_request_status_def less_request_status_def dest: status_value_inj)
end

definition status_is_finished :: "request_status \<Rightarrow> bool" where
  "status_is_finished st \<longleftrightarrow> st > PREEMPTED"

datatype finish_reason = STOP | LENGTH | ABORT

fun finished_reason_map :: "request_status \<Rightarrow> finish_reason option" where
  "finished_reason_map FINISHED_STOPPED = Some STOP"
| "finished_reason_map FINISHED_LENGTH_CAPPED = Some LENGTH"
| "finished_reason_map FINISHED_ABORTED = Some ABORT"
| "finished_reason_map FINISHED_IGNORED = Some LENGTH"
| "finished_reason_map _ = None"

fun status_name :: "request_status \<Rightarrow> string" where
  "status_name WAITING = ''WAITING''"
| "status_name WAITING_FOR_FSM = ''WAITING_FOR_FSM''"
| "status_name WAITING_FOR_REMOTE_KVS = ''WAITING_FOR_REMOTE_KVS''"
| "status_name RUNNING = ''RUNNING''"
| "status_name PREEMPTED = ''PREEMPTED''"
| "status_name FINISHED_STOPPED = ''FINISHED_STOPPED''"
| "status_name FINISHED_LENGTH_CAPPED = ''FINISHED_LENGTH_CAPPED''"
| "status_name FINISHED_ABORTED = ''FINISHED_ABORTED''"
| "status_name FINISHED_IGNORED = ''FINISHED_IGNORED''"

lemma status_is_finished_iff:
  "status_is_finished st \<longleftrightarrow>
     st \<in> {FINISHED_STOPPED, FINISHED_LENGTH_CAPPED, FINISHED_ABORTED, FINISHED_IGNORED}"
  by (cases st) (simp_all add: status_is_finished_def less_request_status_def)

lemma finished_reason_iff: "finished_reason_map st \<noteq> None \<longleftrightarrow> status_is_finished st"
  by (cases st) (simp_all add: status_is_finished_iff)

subsection \<open>Requests\<close>

type_synonym bytes = "nat list"

record sampling_params =
  sp_temperature :: "rat option"
  sp_seed :: "int option"
  sp_max_tokens :: "int option"
  sp_min_tokens :: int
  sp_ignore_eos :: bool
  sp_stop_token_ids :: "token list option"
  sp_prompt_logprobs :: "int option"
  sp_structured_outputs :: bool

record mm_feature =
  mm_identifier :: string
  mm_offset :: int
  mm_length :: int

record lora_request =
  lora_name :: string
  lora_int_id :: int

record request =
  rq_request_id :: reqid
  rq_client_index :: int
  rq_priority :: int
  rq_sampling_params :: "sampling_params option"
  rq_pooling_params :: "string option"
  rq_eos_token_id :: "token option"
  rq_lora_request :: "lora_request option"
  rq_use_structured_output :: bool
  rq_arrival_time :: rat
  rq_status :: request_status
  rq_stop_reason :: "stop_reason option"
  rq_trace_avg_score :: "score option"
  rq_max_tokens :: int
  rq_prompt_token_ids :: "token list option"
  rq_prompt_embeds :: "bytes list option"
  rq_num_prompt_tokens :: int
  rq_output_token_ids :: "token list"
  rq_all_token_ids :: "token list"
  rq_num_output_placeholders :: int
  rq_spec_token_ids :: "token list"
  rq_num_computed_tokens :: int
  rq_cache_salt :: "string option"
  rq_mm_features :: "mm_feature list"
  rq_num_cached_tokens :: int
  rq_num_preemptions :: int
  rq_block_hashes :: "bytes list"

definition length_from_prompt_token_ids_or_embeds ::
  "token list option \<Rightarrow> bytes list option \<Rightarrow> int result" where
  "length_from_prompt_token_ids_or_embeds toks embeds =
     (case toks of
        None \<Rightarrow> (case embeds of None \<Rightarrow> Inl ValueError | Some e \<Rightarrow> Inr (int (length e)))
      | Some ts \<Rightarrow> (case embeds of
            None \<Rightarrow> Inr (int (length ts))
          | Some e \<Rightarrow> if length e \<noteq> length ts then Inl ValueError else Inr (int (length ts))))"

definition init_block_hashes :: "(request \<Rightarrow> bytes list) option \<Rightarrow> request \<Rightarrow> request" where
  "init_block_hashes hasher r = (case hasher of None \<Rightarrow> r | Some h \<Rightarrow> r\<lparr>rq_block_hashes := h r\<rparr>)"

text \<open>The constructor. \<open>arrival\<close> is the arrival time, already defaulted to the current time. A
  request with neither sampling nor pooling parameters raises \<open>ValueError\<close>, sampling parameters
  without \<open>max_tokens\<close> fail an assertion.\<close>

definition new_request ::
  "(request \<Rightarrow> bytes list) option \<Rightarrow> reqid \<Rightarrow> token list option \<Rightarrow> sampling_params option \<Rightarrow>
   string option \<Rightarrow> token option \<Rightarrow> int \<Rightarrow> rat \<Rightarrow> bytes list option \<Rightarrow> mm_feature list \<Rightarrow>
   lora_request option \<Rightarrow> string option \<Rightarrow> int \<Rightarrow> request result" where
  "new_request hasher rid prompt sp pool eos client arrival embeds mm lora salt prio =
     ebind
       (if pool \<noteq> None then Inr (1, WAITING)
        else case sp of
          Some s \<Rightarrow> (case sp_max_tokens s of
              None \<Rightarrow> Inl AssertionError
            | Some m \<Rightarrow> Inr (m, if sp_structured_outputs s then WAITING_FOR_FSM else WAITING))
        | None \<Rightarrow> Inl ValueError)
     (\<lambda>(max_tokens, status).
     ebind (length_from_prompt_token_ids_or_embeds prompt embeds)
     (\<lambda>num_prompt.
       let r = \<lparr>rq_request_id = rid, rq_client_index = client, rq_priority = prio,
             rq_sampling_params = sp, rq_pooling_params = pool, rq_eos_token_id = eos,
             rq_lora_request = lora,
             rq_use_structured_output = (case sp of Some s \<Rightarrow> sp_structured_outputs s | None \<Rightarrow> False),
             rq_arrival_time = arrival, rq_status = status, rq_stop_reason = None,
             rq_trace_avg_score = None, rq_max_tokens = max_tokens, rq_prompt_token_ids = prompt,
             rq_prompt_embeds = embeds, rq_num_prompt_tokens = num_prompt,
             rq_output_token_ids = [],
             rq_all_token_ids = (case prompt of Some ts \<Rightarrow> ts | None \<Rightarrow> replicate (nat num_prompt) 0),
             rq_num_output_placeholders = 0, rq_spec_token_ids = [], rq_num_computed_tokens = 0,
             rq_cache_salt = salt, rq_mm_features = mm, rq_num_cached_tokens = -1,
             rq_num_preemptions = 0, rq_block_hashes = []\<rparr>
       in Inr (init_block_hashes hasher r)))"

lemma init_block_hashes_simps [simp]:
  "rq_request_id (init_block_hashes hasher r) = rq_request_id r"
  "rq_status (init_block_hashes hasher r) = rq_status r"
  "rq_all_token_ids (init_block_hashes hasher r) = rq_all_token_ids r"
  "rq_output_token_ids (init_block_hashes hasher r) = rq_output_token_ids r"
  "rq_num_computed_tokens (init_block_hashes hasher r) = rq_num_computed_tokens r"
  "rq_mm_features (init_block_hashes hasher r) = rq_mm_features r"
  by (simp_all add: init_block_hashes_def split: option.splits)

lemma new_request_shape:
  assumes "new_request hasher rid prompt sp pool eos client arrival embeds mm lora salt prio = Inr r"
  obtains r0 where "r = init_block_hashes hasher r0" "rq_block_hashes r0 = []" "rq_mm_features r0 = mm"
    "rq_request_id r0 = rid" "rq_output_token_ids r0 = []" "rq_num_computed_tokens r0 = 0"
    "\<And>ts. prompt = Some ts \<Longrightarrow> rq_all_token_ids r0 = ts"
    "\<not> status_is_finished (rq_status r0)"
  using assms unfolding new_request_def ebind_eq_Inr Let_def
  by (auto simp: status_is_finished_iff split: if_splits option.splits)

definition append_output_token_ids ::
  "(request \<Rightarrow> bytes list) option \<Rightarrow> token list \<Rightarrow> request \<Rightarrow> request" where
  "append_output_token_ids hasher toks r =
     (let r' = r\<lparr>rq_output_token_ids := rq_output_token_ids r @ toks,
                 rq_all_token_ids := rq_all_token_ids r @ toks\<rparr>
      in case hasher of
           None \<Rightarrow> r'
         | Some h \<Rightarrow> r'\<lparr>rq_block_hashes := rq_block_hashes r' @ h r'\<rparr>)"

definition num_tokens :: "request \<Rightarrow> int" where
  "num_tokens r = int (length (rq_all_token_ids r))"

definition num_tokens_with_spec :: "request \<Rightarrow> int" where
  "num_tokens_with_spec r = int (length (rq_all_token_ids r)) + int (length (rq_spec_token_ids r))"

definition num_output_tokens :: "request \<Rightarrow> int" where
  "num_output_tokens r = int (length (rq_output_token_ids r))"

definition is_finished :: "request \<Rightarrow> bool" where
  "is_finished r \<longleftrightarrow> status_is_finished (rq_status r)"

definition get_finished_reason :: "request \<Rightarrow> finish_reason option" where
  "get_finished_reason r = finished_reason_map (rq_status r)"

definition get_num_encoder_tokens :: "nat \<Rightarrow> request \<Rightarrow> int result" where
  "get_num_encoder_tokens i r =
     (if i < length (rq_mm_features r) then Inr (mm_length (rq_mm_features r ! i))
      else Inl AssertionError)"

subsection \<open>The stop check\<close>

text \<open>\<open>check_stop\<close> returns the flag and the mutated request. Reading the last output token of an empty
  output raises \<open>IndexError\<close>; a request without sampling parameters fails an assertion. The
  argument \<open>pooled\<close> says whether a pooler output is present.\<close>

definition check_stop :: "request \<Rightarrow> int \<Rightarrow> bool \<Rightarrow> (bool \<times> request) result" where
  "check_stop r max_model_len pooled =
     (if rq_pooling_params r \<noteq> None then
        (if pooled then Inr (True, r\<lparr>rq_status := FINISHED_STOPPED\<rparr>) else Inr (False, r))
      else case rq_sampling_params r of
        None \<Rightarrow> Inl AssertionError
      | Some sp \<Rightarrow>
          if num_output_tokens r < sp_min_tokens sp then Inr (False, r)
          else if rq_output_token_ids r = [] then Inl IndexError
          else
            let last_token_id = last (rq_output_token_ids r) in
            if \<not> sp_ignore_eos sp \<and> Some last_token_id = rq_eos_token_id r then
              Inr (True, r\<lparr>rq_status := FINISHED_STOPPED\<rparr>)
            else if last_token_id \<in> set (case sp_stop_token_ids sp of None \<Rightarrow> [] | Some ts \<Rightarrow> ts) then
              Inr (True, r\<lparr>rq_status := FINISHED_STOPPED,
                           rq_stop_reason := Some (StopToken last_token_id)\<rparr>)
            else if num_tokens r \<ge> max_model_len \<or> num_output_tokens r \<ge> rq_max_tokens r then
              Inr (True, r\<lparr>rq_status := FINISHED_LENGTH_CAPPED\<rparr>)
            else Inr (False, r))"

text \<open>\<open>Scheduler._update_request_with_output\<close>: append the new tokens one by one, checking for a stop
  after each, and trim the tokens behind the stop.\<close>

fun update_request_with_output ::
  "(request \<Rightarrow> bytes list) option \<Rightarrow> int \<Rightarrow> request \<Rightarrow> token list \<Rightarrow> (token list \<times> bool \<times> request) result"
where
  "update_request_with_output hasher mml r [] = Inr ([], False, r)"
| "update_request_with_output hasher mml r (x # xs) =
     ebind (check_stop (append_output_token_ids hasher [x] r) mml False) (\<lambda>(stopped, r').
       if stopped then Inr ([x], True, r')
       else ebind (update_request_with_output hasher mml r' xs)
              (\<lambda>(toks, st, r''). Inr (x # toks, st, r'')))"

text \<open>\<open>remove_all\<close> with its fast path for one element (\<open>list.remove\<close> drops the first occurrence).\<close>

definition remove_all :: "'a list \<Rightarrow> 'a set \<Rightarrow> 'a list" where
  "remove_all lst items =
     (if items = {} then lst
      else if card items = 1 then remove1 (the_elem items) lst
      else filter (\<lambda>x. x \<notin> items) lst)"

subsection \<open>Lemmas\<close>

text \<open>The fields an output append leaves alone.\<close>

lemma append_output_frame [simp]:
  "rq_request_id (append_output_token_ids h ts r) = rq_request_id r"
  "rq_client_index (append_output_token_ids h ts r) = rq_client_index r"
  "rq_sampling_params (append_output_token_ids h ts r) = rq_sampling_params r"
  "rq_pooling_params (append_output_token_ids h ts r) = rq_pooling_params r"
  "rq_eos_token_id (append_output_token_ids h ts r) = rq_eos_token_id r"
  "rq_status (append_output_token_ids h ts r) = rq_status r"
  "rq_stop_reason (append_output_token_ids h ts r) = rq_stop_reason r"
  "rq_max_tokens (append_output_token_ids h ts r) = rq_max_tokens r"
  "rq_mm_features (append_output_token_ids h ts r) = rq_mm_features r"
  "rq_num_computed_tokens (append_output_token_ids h ts r) = rq_num_computed_tokens r"
  "rq_num_output_placeholders (append_output_token_ids h ts r) = rq_num_output_placeholders r"
  "rq_spec_token_ids (append_output_token_ids h ts r) = rq_spec_token_ids r"
  "rq_output_token_ids (append_output_token_ids h ts r) = rq_output_token_ids r @ ts"
  "rq_all_token_ids (append_output_token_ids h ts r) = rq_all_token_ids r @ ts"
  by (simp_all add: append_output_token_ids_def Let_def split: option.splits)

lemma check_stop_frame:
  assumes "check_stop r mml pooled = Inr (stopped, r')"
  shows "rq_output_token_ids r' = rq_output_token_ids r" "rq_all_token_ids r' = rq_all_token_ids r"
    "rq_request_id r' = rq_request_id r" "rq_sampling_params r' = rq_sampling_params r"
    "rq_pooling_params r' = rq_pooling_params r" "rq_max_tokens r' = rq_max_tokens r"
    "rq_eos_token_id r' = rq_eos_token_id r" "rq_client_index r' = rq_client_index r"
  using assms
  by (auto simp: check_stop_def Let_def split: if_splits option.splits)

lemma check_stop_status:
  assumes "check_stop r mml pooled = Inr (stopped, r')"
  shows "stopped \<Longrightarrow> is_finished r'" and "\<not> stopped \<Longrightarrow> r' = r"
  using assms
  by (auto simp: check_stop_def Let_def is_finished_def status_is_finished_iff
      split: if_splits option.splits)

text \<open>An EOS token stops a generative request unless it is ignored or comes too early.\<close>

lemma check_stop_eos:
  assumes "rq_pooling_params r = None" and "rq_sampling_params r = Some sp"
    and "sp_min_tokens sp \<le> num_output_tokens r" and "\<not> sp_ignore_eos sp"
    and "rq_output_token_ids r \<noteq> []" and "rq_eos_token_id r = Some (last (rq_output_token_ids r))"
  shows "check_stop r mml pooled = Inr (True, r\<lparr>rq_status := FINISHED_STOPPED\<rparr>)"
  using assms by (simp add: check_stop_def)

lemma check_stop_too_early:
  assumes "rq_pooling_params r = None" and "rq_sampling_params r = Some sp"
    and "num_output_tokens r < sp_min_tokens sp"
  shows "check_stop r mml pooled = Inr (False, r)"
  using assms by (simp add: check_stop_def)

lemma update_request_ConsE:
  assumes "update_request_with_output h mml r (x # xs) = Inr (toks, stopped, r')"
  obtains (stop) "check_stop (append_output_token_ids h [x] r) mml False = Inr (True, r')"
      and "toks = [x]" and "stopped"
    | (go) toks' where
      "check_stop (append_output_token_ids h [x] r) mml False = Inr (False, append_output_token_ids h [x] r)"
      and "update_request_with_output h mml (append_output_token_ids h [x] r) xs = Inr (toks', stopped, r')"
      and "toks = x # toks'"
proof -
  from assms obtain st r1 where c: "check_stop (append_output_token_ids h [x] r) mml False = Inr (st, r1)"
    and rest: "if st then toks = [x] \<and> stopped \<and> r' = r1
       else ebind (update_request_with_output h mml r1 xs)
              (\<lambda>(toks, st, r''). Inr (x # toks, st, r'')) = Inr (toks, stopped, r')"
    by (auto split: if_splits)
  show thesis
  proof (cases st)
    case True
    with rest c show thesis by (intro stop) auto
  next
    case False
    with check_stop_status(2) [OF c] have r1: "r1 = append_output_token_ids h [x] r" by simp
    from rest False obtain toks' where "update_request_with_output h mml r1 xs = Inr (toks', stopped, r')"
      and "toks = x # toks'" by auto
    with c False r1 show thesis by (intro go) auto
  qed
qed

lemma update_request_tokens:
  assumes "update_request_with_output h mml r xs = Inr (toks, stopped, r')"
  shows "prefix toks xs \<and> rq_output_token_ids r' = rq_output_token_ids r @ toks \<and>
    rq_all_token_ids r' = rq_all_token_ids r @ toks \<and> rq_request_id r' = rq_request_id r \<and>
    rq_max_tokens r' = rq_max_tokens r \<and> rq_sampling_params r' = rq_sampling_params r \<and>
    rq_client_index r' = rq_client_index r \<and> rq_pooling_params r' = rq_pooling_params r \<and>
    (if stopped then is_finished r' \<and> toks \<noteq> [] else toks = xs \<and> rq_status r' = rq_status r)"
  using assms
proof (induction xs arbitrary: r toks)
  case Nil
  then show ?case by simp
next
  case (Cons x xs)
  from Cons.prems show ?case
  proof (cases rule: update_request_ConsE)
    case stop
    with check_stop_frame [OF stop(1)] check_stop_status(1) [OF stop(1)] show ?thesis by simp
  next
    case (go toks')
    from Cons.IH [OF go(2)] go(3) show ?thesis by (auto split: if_splits)
  qed
qed

text \<open>A request that has not reached its limits: it may still produce a token, and the minimum number of
  tokens fits below both limits.\<close>

definition below_limits :: "int \<Rightarrow> request \<Rightarrow> bool" where
  "below_limits mml r \<longleftrightarrow> rq_pooling_params r = None \<and> num_output_tokens r < rq_max_tokens r \<and> num_tokens r < mml \<and>
     (case rq_sampling_params r of None \<Rightarrow> False
      | Some sp \<Rightarrow> sp_min_tokens sp \<le> rq_max_tokens r \<and> num_tokens r - num_output_tokens r + sp_min_tokens sp \<le> mml)"

lemma check_stop_below_limits:
  fixes h :: "(request \<Rightarrow> bytes list) option" and x :: token and r :: request
  defines "r' \<equiv> append_output_token_ids h [x] r"
  assumes "below_limits mml r"
  shows "(\<exists>r''. check_stop r' mml False = Inr (True, r'')) \<or> check_stop r' mml False = Inr (False, r') \<and> below_limits mml r'"
  using assms(2) unfolding r'_def
  by (auto simp: below_limits_def check_stop_def Let_def num_output_tokens_def num_tokens_def split: option.splits)

text \<open>The fast path of \<open>remove_all\<close> agrees with the comprehension on a list without repetitions.\<close>

lemma remove_all_eq_filter:
  assumes "distinct xs"
  shows "remove_all xs S = filter (\<lambda>x. x \<notin> S) xs"
proof -
  consider "S = {}" | x where "S = {x}" | "S \<noteq> {}" "card S \<noteq> 1"
    by (metis card_1_singletonE)
  then show ?thesis
    by cases (auto simp: remove_all_def distinct_remove1_removeAll assms removeAll_filter_not_eq
        intro: filter_cong)
qed

subsection \<open>Sample values\<close>

text \<open>A concrete request, on which properties are instantiated.\<close>

definition sample_params :: sampling_params where
  "sample_params = \<lparr>sp_temperature = None, sp_seed = None, sp_max_tokens = Some 100, sp_min_tokens = 0,
     sp_ignore_eos = False, sp_stop_token_ids = None, sp_prompt_logprobs = None,
     sp_structured_outputs = False\<rparr>"

definition sample_request :: "reqid \<Rightarrow> token list \<Rightarrow> request" where
  "sample_request rid toks = \<lparr>rq_request_id = rid, rq_client_index = 0, rq_priority = 0,
     rq_sampling_params = Some sample_params, rq_pooling_params = None, rq_eos_token_id = Some 2,
     rq_lora_request = None, rq_use_structured_output = False, rq_arrival_time = 0,
     rq_status = WAITING, rq_stop_reason = None, rq_trace_avg_score = None, rq_max_tokens = 100,
     rq_prompt_token_ids = Some toks, rq_prompt_embeds = None,
     rq_num_prompt_tokens = int (length toks), rq_output_token_ids = [], rq_all_token_ids = toks,
     rq_num_output_placeholders = 0, rq_spec_token_ids = [], rq_num_computed_tokens = 0,
     rq_cache_salt = None, rq_mm_features = [], rq_num_cached_tokens = -1, rq_num_preemptions = 0,
     rq_block_hashes = []\<rparr>"

lemma sample_request_fields [simp]:
  "rq_request_id (sample_request rid toks) = rid"
  "rq_mm_features (sample_request rid toks) = []"
  "rq_all_token_ids (sample_request rid toks) = toks"
  "rq_block_hashes (sample_request rid toks) = []"
  "rq_lora_request (sample_request rid toks) = None"
  "rq_cache_salt (sample_request rid toks) = None"
  "rq_prompt_embeds (sample_request rid toks) = None"
  by (simp_all add: sample_request_def)

lemma new_sample_request:
  "new_request h rid (Some toks) (Some sample_params) None (Some 2) 0 0 None [] None None 0 =
   Inr (init_block_hashes h (sample_request rid toks))"
  by (simp add: new_request_def sample_request_def sample_params_def
      length_from_prompt_token_ids_or_embeds_def)

subsection \<open>Properties\<close>

text \<open>C24: generation respects its limits. For a request below its limits, appending any list of sampled tokens returns: a prefix of the
  list is appended, neither \<open>max_tokens\<close> nor the model length is ever exceeded, and either the request is finished or all tokens were taken
  and it is still below both limits with its status unchanged.\<close>

theorem generation_within_limits:
  assumes "below_limits mml r"
  shows "\<exists>toks stopped r'. update_request_with_output h mml r xs = Inr (toks, stopped, r') \<and> prefix toks xs \<and>
    rq_output_token_ids r' = rq_output_token_ids r @ toks \<and> num_output_tokens r' \<le> rq_max_tokens r \<and> num_tokens r' \<le> mml \<and>
    (if stopped then is_finished r' \<and> toks \<noteq> [] else toks = xs \<and> below_limits mml r' \<and> rq_status r' = rq_status r)"
  using assms
proof (induction xs arbitrary: r)
  case Nil
  then show ?case by (intro exI [of _ "[]"] exI [of _ False] exI [of _ r]) (simp add: below_limits_def)
next
  case (Cons x xs)
  let ?r = "append_output_token_ids h [x] r"
  have room: "num_output_tokens ?r \<le> rq_max_tokens r" "num_tokens ?r \<le> mml"
    using Cons.prems by (simp_all add: below_limits_def num_output_tokens_def num_tokens_def)
  from check_stop_below_limits [OF Cons.prems, of h x] show ?case
  proof (elim disjE exE conjE)
    fix r' assume c: "check_stop ?r mml False = Inr (True, r')"
    from c check_stop_frame(1,2) [OF c] check_stop_status(1) [OF c] room show ?thesis
      by (intro exI [of _ "[x]"] exI [of _ True] exI [of _ r']) (simp add: num_output_tokens_def num_tokens_def)
  next
    assume c: "check_stop ?r mml False = Inr (False, ?r)" and "below_limits mml ?r"
    from Cons.IH [OF this(2)] obtain toks stopped r' where r': "update_request_with_output h mml ?r xs = Inr (toks, stopped, r')"
      "prefix toks xs" "rq_output_token_ids r' = rq_output_token_ids ?r @ toks" "num_output_tokens r' \<le> rq_max_tokens ?r" "num_tokens r' \<le> mml"
      "if stopped then is_finished r' \<and> toks \<noteq> [] else toks = xs \<and> below_limits mml r' \<and> rq_status r' = rq_status ?r" by blast
    with c show ?thesis by (intro exI [of _ "x # toks"] exI [of _ stopped] exI [of _ r']) (auto split: if_splits)
  qed
qed

theorem generation_within_limits_witness:
  "\<exists>toks stopped r'. update_request_with_output None 100 (sample_request ''a'' [1, 2]) [5, 2, 7] = Inr (toks, stopped, r') \<and>
    prefix toks [5, 2, 7] \<and> num_tokens r' \<le> 100"
proof -
  have "below_limits 100 (sample_request ''a'' [1, 2])"
    by (simp add: below_limits_def sample_request_def sample_params_def num_output_tokens_def num_tokens_def)
  from generation_within_limits [OF this, of None "[5, 2, 7]"] show ?thesis by blast
qed

text \<open>A minimum length beyond the limits switches them off. While a request has produced fewer than \<open>min_tokens\<close> tokens,
  \<open>check_stop\<close> returns before it looks at any limit, so all sampled tokens are taken and the request is not finished, however far it is past the
  model length.\<close>

lemma min_tokens_defers_limits:
  assumes "rq_pooling_params r = None" and "rq_sampling_params r = Some sp" and "num_output_tokens r + int (length xs) < sp_min_tokens sp"
  shows "\<exists>r'. update_request_with_output h mml r xs = Inr (xs, False, r') \<and> rq_status r' = rq_status r \<and>
    num_tokens r' = num_tokens r + int (length xs)"
  using assms
proof (induction xs arbitrary: r)
  case (Cons x xs)
  let ?r = "append_output_token_ids h [x] r"
  have n: "num_output_tokens ?r = num_output_tokens r + 1" "num_tokens ?r = num_tokens r + 1"
    by (simp_all add: num_output_tokens_def num_tokens_def)
  have "check_stop ?r mml False = Inr (False, ?r)"
    by (rule check_stop_too_early) (use Cons.prems n in auto)
  moreover obtain r' where "update_request_with_output h mml ?r xs = Inr (xs, False, r')" "rq_status r' = rq_status ?r"
    "num_tokens r' = num_tokens ?r + int (length xs)"
    using Cons.IH [of ?r] Cons.prems n by auto
  ultimately show ?case using n by simp
qed simp

end
