(* ===== verification/Free_Queue.thy ===== *)
theory Free_Queue
  imports Request
begin

text \<open>
  \<open>KVCacheBlock\<close> and \<open>FreeKVCacheBlockQueue\<close> of \<open>vllm/v1/core/kv_cache_utils.py\<close>: the doubly linked
  list of free blocks threaded through the block objects. The objects are a store from references
  to records: \<open>Head\<close> and \<open>Tail\<close> are the two fake blocks, \<open>Blk i\<close> is the block with id \<open>i\<close>. Every
  operation is a sequence of pointer updates, with its assertions and exceptions. The theory shows
  that the pointer structure implements a sequence of block ids, states that contract as the locale
  \<open>free_block_queue\<close>, and interprets the locale on the pointer operations.
\<close>

subsection \<open>Blocks and the store\<close>

datatype blkref = Head | Tail | Blk nat

record kv_block =
  kb_block_id :: int
  kb_ref_cnt :: int
  kb_block_hash :: "bytes option"
  kb_prev_free_block :: "blkref option"
  kb_next_free_block :: "blkref option"
  kb_is_null :: bool

type_synonym block_heap = "blkref \<Rightarrow> kv_block"

definition new_block :: "int \<Rightarrow> kv_block" where
  "new_block i = \<lparr>kb_block_id = i, kb_ref_cnt = 0, kb_block_hash = None,
     kb_prev_free_block = None, kb_next_free_block = None, kb_is_null = False\<rparr>"

definition initial_heap :: block_heap where
  "initial_heap r = (case r of Head \<Rightarrow> new_block (-1) | Tail \<Rightarrow> new_block (-1) | Blk i \<Rightarrow> new_block (int i))"

definition set_next :: "blkref \<Rightarrow> blkref option \<Rightarrow> block_heap \<Rightarrow> block_heap" where
  "set_next r v h = h(r := (h r)\<lparr>kb_next_free_block := v\<rparr>)"

definition set_prev :: "blkref \<Rightarrow> blkref option \<Rightarrow> block_heap \<Rightarrow> block_heap" where
  "set_prev r v h = h(r := (h r)\<lparr>kb_prev_free_block := v\<rparr>)"

abbreviation nxt :: "block_heap \<Rightarrow> blkref \<Rightarrow> blkref option" where
  "nxt h r \<equiv> kb_next_free_block (h r)"

abbreviation prv :: "block_heap \<Rightarrow> blkref \<Rightarrow> blkref option" where
  "prv h r \<equiv> kb_prev_free_block (h r)"

record free_queue =
  fq_heap :: block_heap
  fq_num_free_blocks :: int

subsection \<open>Operations\<close>

text \<open>The constructor: the loop that links consecutive blocks, then the fake ends.\<close>

definition link_step :: "nat list \<Rightarrow> nat \<Rightarrow> block_heap \<Rightarrow> block_heap" where
  "link_step blocks i h =
     (let h1 = (if i > 0 then set_prev (Blk (blocks ! i)) (Some (Blk (blocks ! (i - 1)))) h else h)
      in if i < length blocks - 1
         then set_next (Blk (blocks ! i)) (Some (Blk (blocks ! (i + 1)))) h1 else h1)"

definition link_blocks :: "nat list \<Rightarrow> block_heap \<Rightarrow> block_heap" where
  "link_blocks blocks h = fold (link_step blocks) [0..<length blocks] h"

definition init_free_queue :: "nat list \<Rightarrow> block_heap \<Rightarrow> free_queue" where
  "init_free_queue blocks h0 =
     (let h = link_blocks blocks h0;
          h' = (if blocks \<noteq> [] then
                  set_next (Blk (last blocks)) (Some Tail)
                  (set_prev Tail (Some (Blk (last blocks)))
                  (set_prev (Blk (hd blocks)) (Some Head)
                  (set_next Head (Some (Blk (hd blocks))) h)))
                else set_prev Tail (Some Head) (set_next Head (Some Tail) h))
      in \<lparr>fq_heap = h', fq_num_free_blocks = int (length blocks)\<rparr>)"

definition popleft :: "free_queue \<Rightarrow> (blkref \<times> free_queue) result" where
  "popleft q =
     (let h = fq_heap q in
      case nxt h Head of
        None \<Rightarrow> (if fq_num_free_blocks q = 0 then Inl ValueError else Inl AssertionError)
      | Some first_block \<Rightarrow>
          if first_block = Tail then
            (if fq_num_free_blocks q = 0 then Inl ValueError else Inl AssertionError)
          else case nxt h first_block of
            None \<Rightarrow> Inl RuntimeError
          | Some second \<Rightarrow> Inr (first_block,
              q\<lparr>fq_heap := set_next first_block None (set_prev first_block None
                             (set_prev second (Some Head) (set_next Head (Some second) h))),
                fq_num_free_blocks := fq_num_free_blocks q - 1\<rparr>))"

fun pop_loop :: "nat \<Rightarrow> block_heap \<Rightarrow> blkref option \<Rightarrow> blkref list \<Rightarrow>
    (blkref option \<times> block_heap \<times> blkref list) result" where
  "pop_loop 0 h cur ret = Inr (cur, h, ret)"
| "pop_loop (Suc k) h None ret = Inl AssertionError"
| "pop_loop (Suc k) h (Some b) ret =
     pop_loop k (set_next b None (set_prev b None h)) (nxt h b) (ret @ [b])"

definition popleft_n :: "int \<Rightarrow> free_queue \<Rightarrow> (blkref list \<times> free_queue) result" where
  "popleft_n n q =
     (if n = 0 then Inr ([], q)
      else if fq_num_free_blocks q < n then Inl AssertionError
      else ebind (pop_loop (nat n) (fq_heap q) (nxt (fq_heap q) Head) []) (\<lambda>(cur, h, ret).
        Inr (ret, q\<lparr>
          fq_heap := (case cur of None \<Rightarrow> h
                      | Some c \<Rightarrow> set_prev c (Some Head) (set_next Head (Some c) h)),
          fq_num_free_blocks := fq_num_free_blocks q - n\<rparr>)))"

definition fq_remove :: "blkref \<Rightarrow> free_queue \<Rightarrow> free_queue result" where
  "fq_remove b q =
     (let h = fq_heap q in
      case (prv h b, nxt h b) of
        (Some p, Some n) \<Rightarrow> Inr (q\<lparr>
          fq_heap := set_next b None (set_prev b None
                       (set_prev n (Some p) (set_next p (Some n) h))),
          fq_num_free_blocks := fq_num_free_blocks q - 1\<rparr>)
      | _ \<Rightarrow> Inl RuntimeError)"

definition fq_append :: "blkref \<Rightarrow> free_queue \<Rightarrow> free_queue result" where
  "fq_append b q =
     (let h = fq_heap q in
      case prv h Tail of
        None \<Rightarrow> Inl RuntimeError
      | Some last_block \<Rightarrow> Inr (q\<lparr>
          fq_heap := set_prev Tail (Some b) (set_next b (Some Tail)
                       (set_prev b (Some last_block) (set_next last_block (Some b) h))),
          fq_num_free_blocks := fq_num_free_blocks q + 1\<rparr>))"

fun append_loop :: "blkref list \<Rightarrow> blkref \<Rightarrow> block_heap \<Rightarrow> blkref \<times> block_heap" where
  "append_loop [] last_block h = (last_block, h)"
| "append_loop (b # bs) last_block h =
     append_loop bs b (set_next last_block (Some b) (set_prev b (Some last_block) h))"

definition append_n :: "blkref list \<Rightarrow> free_queue \<Rightarrow> free_queue result" where
  "append_n blocks q =
     (if blocks = [] then Inr q
      else case prv (fq_heap q) Tail of
        None \<Rightarrow> Inl AssertionError
      | Some last0 \<Rightarrow>
          (case append_loop blocks last0 (fq_heap q) of (last_block, h) \<Rightarrow> Inr (q\<lparr>
             fq_heap := set_prev Tail (Some last_block) (set_next last_block (Some Tail) h),
             fq_num_free_blocks := fq_num_free_blocks q + int (length blocks)\<rparr>)))"

text \<open>The walk of \<open>get_all_free_blocks\<close> ends at the block without a successor; on a cyclic structure it
  would not end, so it is a partial function.\<close>

partial_function (option) free_walk :: "block_heap \<Rightarrow> blkref \<Rightarrow> blkref list option" where
  "free_walk h cur =
     (case nxt h cur of
        None \<Rightarrow> Some []
      | Some n \<Rightarrow> Option.bind (free_walk h n) (\<lambda>rest. Some (cur # rest)))"

declare free_walk.simps [code]

definition get_all_free_blocks :: "free_queue \<Rightarrow> blkref list option result" where
  "get_all_free_blocks q =
     (case nxt (fq_heap q) Head of
        None \<Rightarrow> Inl RuntimeError
      | Some first \<Rightarrow> Inr (free_walk (fq_heap q) first))"

subsection \<open>Pointer lemmas\<close>

lemma set_next_simps [simp]:
  "nxt (set_next r v h) s = (if s = r then v else nxt h s)"
  "prv (set_next r v h) s = prv h s"
  "kb_ref_cnt (set_next r v h s) = kb_ref_cnt (h s)"
  "kb_block_hash (set_next r v h s) = kb_block_hash (h s)"
  "kb_is_null (set_next r v h s) = kb_is_null (h s)"
  "kb_block_id (set_next r v h s) = kb_block_id (h s)"
  by (simp_all add: set_next_def)

lemma set_prev_simps [simp]:
  "prv (set_prev r v h) s = (if s = r then v else prv h s)"
  "nxt (set_prev r v h) s = nxt h s"
  "kb_ref_cnt (set_prev r v h s) = kb_ref_cnt (h s)"
  "kb_block_hash (set_prev r v h s) = kb_block_hash (h s)"
  "kb_is_null (set_prev r v h s) = kb_is_null (h s)"
  "kb_block_id (set_prev r v h s) = kb_block_id (h s)"
  by (simp_all add: set_prev_def)

text \<open>What the queue does not own of a block.\<close>

definition payload :: "block_heap \<Rightarrow> blkref \<Rightarrow> int \<times> int \<times> bytes option \<times> bool" where
  "payload h r = (kb_block_id (h r), kb_ref_cnt (h r), kb_block_hash (h r), kb_is_null (h r))"

lemma payload_set [simp]:
  "payload (set_next r v h) = payload h" "payload (set_prev r v h) = payload h"
  by (simp_all add: payload_def fun_eq_iff)

text \<open>A doubly linked segment strictly between two references.\<close>

fun dseg :: "block_heap \<Rightarrow> blkref \<Rightarrow> blkref list \<Rightarrow> blkref \<Rightarrow> bool" where
  "dseg h a [] b \<longleftrightarrow> nxt h a = Some b \<and> prv h b = Some a"
| "dseg h a (x # xs) b \<longleftrightarrow> nxt h a = Some x \<and> prv h x = Some a \<and> dseg h x xs b"

lemma dseg_append: "dseg h a (xs @ y # ys) b \<longleftrightarrow> dseg h a xs y \<and> dseg h y ys b"
  by (induction xs arbitrary: a) auto

lemma dseg_snoc: "dseg h a (xs @ [y]) b \<longleftrightarrow> dseg h a xs y \<and> nxt h y = Some b \<and> prv h b = Some y"
  by (simp add: dseg_append)

lemma dseg_cong:
  assumes "dseg h a xs b" and "\<And>r. r \<in> set (a # xs) \<Longrightarrow> nxt h' r = nxt h r"
    and "\<And>r. r \<in> set (xs @ [b]) \<Longrightarrow> prv h' r = prv h r"
  shows "dseg h' a xs b"
  using assms by (induction xs arbitrary: a) auto

lemma dseg_nxt_Some: "dseg h a xs b \<Longrightarrow> r \<in> set (a # xs) \<Longrightarrow> nxt h r \<noteq> None"
  by (induction xs arbitrary: a) auto

lemma dseg_prv_last: "dseg h a xs b \<Longrightarrow> prv h b = Some (last (a # xs))"
  by (induction xs arbitrary: a) auto

subsection \<open>The abstraction\<close>

definition queue_rep :: "free_queue \<Rightarrow> nat list \<Rightarrow> bool" where
  "queue_rep q xs \<longleftrightarrow> dseg (fq_heap q) Head (map Blk xs) Tail \<and> distinct xs \<and>
     fq_num_free_blocks q = int (length xs) \<and> nxt (fq_heap q) Tail = None \<and>
     (\<forall>i. i \<notin> set xs \<longrightarrow> nxt (fq_heap q) (Blk i) = None \<and> prv (fq_heap q) (Blk i) = None)"

lemma queue_repD:
  assumes "queue_rep q xs"
  shows "dseg (fq_heap q) Head (map Blk xs) Tail" "distinct xs"
    "fq_num_free_blocks q = int (length xs)" "nxt (fq_heap q) Tail = None"
    "\<And>i. i \<notin> set xs \<Longrightarrow> nxt (fq_heap q) (Blk i) = None"
    "\<And>i. i \<notin> set xs \<Longrightarrow> prv (fq_heap q) (Blk i) = None"
  using assms by (simp_all add: queue_rep_def)

lemma rep_popleft_Nil: "queue_rep q [] \<Longrightarrow> popleft q = Inl ValueError"
  by (auto simp: popleft_def queue_rep_def)

lemma rep_popleft_Cons:
  assumes "queue_rep q (x # xs)"
  shows "\<exists>q'. popleft q = Inr (Blk x, q') \<and> queue_rep q' xs \<and>
    payload (fq_heap q') = payload (fq_heap q)"
proof -
  let ?h = "fq_heap q"
  from queue_repD(1) [OF assms] have head: "nxt ?h Head = Some (Blk x)"
    and seg: "dseg ?h (Blk x) (map Blk xs) Tail" by auto
  define second where "second = (case xs of [] \<Rightarrow> Tail | y # _ \<Rightarrow> Blk y)"
  have nx: "nxt ?h (Blk x) = Some second" using seg by (cases xs) (auto simp: second_def)
  let ?h' = "set_next (Blk x) None (set_prev (Blk x) None
      (set_prev second (Some Head) (set_next Head (Some second) ?h)))"
  let ?q' = "q\<lparr>fq_heap := ?h', fq_num_free_blocks := fq_num_free_blocks q - 1\<rparr>"
  have pop: "popleft q = Inr (Blk x, ?q')"
    using head nx by (simp add: popleft_def)
  have "dseg ?h' Head (map Blk xs) Tail"
  proof (cases xs)
    case Nil
    with queue_repD(2) [OF assms] show ?thesis by (simp add: second_def)
  next
    case (Cons y ys)
    from seg Cons have "dseg ?h (Blk y) (map Blk ys) Tail" by simp
    then have "dseg ?h' (Blk y) (map Blk ys) Tail"
      by (rule dseg_cong) (use queue_repD(2) [OF assms] Cons in \<open>auto simp: second_def\<close>)
    with Cons queue_repD(2) [OF assms] show ?thesis by (auto simp: second_def)
  qed
  then have "queue_rep ?q' xs"
    using queue_repD [OF assms] by (cases xs) (auto simp: queue_rep_def second_def)
  with pop show ?thesis by auto
qed

text \<open>The loop of \<open>popleft_n\<close>, started at the first block of a segment, pops its first blocks, clears
  their links and leaves the rest of the segment to be reconnected.\<close>

definition first_of :: "blkref list \<Rightarrow> blkref \<Rightarrow> blkref" where
  "first_of xs b = (case xs of [] \<Rightarrow> b | x # _ \<Rightarrow> x)"

lemma dseg_first: "dseg h a xs b \<Longrightarrow> nxt h a = Some (first_of xs b)"
  by (cases xs) (auto simp: first_of_def)

fun fseg :: "block_heap \<Rightarrow> blkref list \<Rightarrow> blkref \<Rightarrow> bool" where
  "fseg h [] b \<longleftrightarrow> True"
| "fseg h (x # xs) b \<longleftrightarrow> nxt h x = Some (first_of xs b) \<and> fseg h xs b"

lemma dseg_fseg: "dseg h a xs b \<Longrightarrow> fseg h xs b"
  by (induction xs arbitrary: a) (auto dest: dseg_first)

lemma fseg_frame: "x \<notin> set xs \<Longrightarrow> fseg (set_next x v (set_prev x w h)) xs b = fseg h xs b"
  by (induction xs) auto

lemma pop_loop_fseg:
  assumes "fseg h xs b" and "distinct xs" and "n \<le> length xs"
  shows "\<exists>h'. pop_loop n h (Some (first_of xs b)) ret =
      Inr (Some (first_of (drop n xs) b), h', ret @ take n xs) \<and>
    (\<forall>r. nxt h' r = (if r \<in> set (take n xs) then None else nxt h r)) \<and>
    (\<forall>r. prv h' r = (if r \<in> set (take n xs) then None else prv h r)) \<and> payload h' = payload h"
  using assms
proof (induction n arbitrary: h xs ret)
  case 0
  then show ?case by auto
next
  case (Suc n)
  then obtain x ys where xs: "xs = x # ys" by (cases xs) auto
  let ?h = "set_next x None (set_prev x None h)"
  from Suc.prems xs have "fseg ?h ys b" "distinct ys" "n \<le> length ys" by (auto simp: fseg_frame)
  from Suc.IH [OF this, of "ret @ [x]"] Suc.prems xs show ?case
    by (auto simp: first_of_def [of "x # ys"])
qed

lemma rep_popleft_n:
  assumes rep: "queue_rep q xs" and n: "n \<le> length xs"
  shows "\<exists>q'. popleft_n (int n) q = Inr (map Blk (take n xs), q') \<and> queue_rep q' (drop n xs) \<and>
    payload (fq_heap q') = payload (fq_heap q)"
proof (cases "n = 0")
  case True
  with rep show ?thesis by (simp add: popleft_n_def)
next
  case False
  let ?h = "fq_heap q" and ?bs = "map Blk xs"
  let ?c = "first_of (drop n ?bs) Tail"
  note seg = queue_repD(1) [OF rep]
  have dist: "distinct ?bs" using queue_repD(2) [OF rep] by (simp add: distinct_map inj_on_def)
  obtain h' where loop: "pop_loop n ?h (Some (first_of ?bs Tail)) [] = Inr (Some ?c, h', take n ?bs)"
    and nx: "\<And>r. nxt h' r = (if r \<in> set (take n ?bs) then None else nxt ?h r)"
    and pv: "\<And>r. prv h' r = (if r \<in> set (take n ?bs) then None else prv ?h r)"
    and pay: "payload h' = payload ?h"
    using pop_loop_fseg [OF dseg_fseg [OF seg] dist, of n "[]"] n by auto
  let ?h' = "set_prev ?c (Some Head) (set_next Head (Some ?c) h')"
  let ?q' = "q\<lparr>fq_heap := ?h', fq_num_free_blocks := fq_num_free_blocks q - int n\<rparr>"
  have pop: "popleft_n (int n) q = Inr (map Blk (take n xs), ?q')"
    using False n queue_repD(3) [OF rep] loop dseg_first [OF seg] by (simp add: popleft_n_def take_map)
  have dseg': "dseg ?h' Head (map Blk (drop n xs)) Tail"
  proof (cases "drop n xs")
    case Nil
    then show ?thesis using n by (auto simp: first_of_def nx pv drop_map)
  next
    case (Cons y ys)
    have split: "xs = take n xs @ y # ys" by (metis Cons append_take_drop_id)
    then have "?bs = map Blk (take n xs) @ Blk y # map Blk ys" by (metis list.map(2) map_append)
    with seg have "dseg ?h (Blk y) (map Blk ys) Tail" by (simp add: dseg_append)
    moreover have "y \<notin> set (take n xs) \<union> set ys" "set ys \<inter> set (take n xs) = {}"
      using queue_repD(2) [OF rep] by (subst (asm) split; auto)+
    moreover have "?c = Blk y" using Cons by (simp add: first_of_def drop_map)
    ultimately have "dseg ?h' (Blk y) (map Blk ys) Tail"
      by (auto intro!: dseg_cong [of ?h] simp: nx pv take_map)
    with Cons show ?thesis by (auto simp: first_of_def drop_map)
  qed
  have "nxt ?h' (Blk i) = None \<and> prv ?h' (Blk i) = None" if "i \<notin> set (drop n xs)" for i
  proof (cases "i \<in> set (take n xs)")
    case True
    with that show ?thesis
      by (cases "drop n xs") (auto simp: nx pv take_map drop_map first_of_def)
  next
    case False
    with that have "i \<notin> set xs" by (metis Un_iff set_take_Un_drop)
    with that queue_repD(5,6) [OF rep] show ?thesis
      by (cases "drop n xs") (auto simp: nx pv drop_map first_of_def)
  qed
  moreover have "nxt ?h' Tail = None" using queue_repD(4) [OF rep] by (auto simp: nx)
  ultimately have "queue_rep ?q' (drop n xs)"
    using dseg' queue_repD(2,3) [OF rep] n by (simp add: queue_rep_def)
  with pop pay show ?thesis by auto
qed

lemma rep_remove:
  assumes rep: "queue_rep q (xs @ x # ys)"
  shows "\<exists>q'. fq_remove (Blk x) q = Inr q' \<and> queue_rep q' (xs @ ys) \<and>
    payload (fq_heap q') = payload (fq_heap q)"
proof -
  let ?h = "fq_heap q"
  define p where "p = last (Head # map Blk xs)"
  define n where "n = first_of (map Blk ys) Tail"
  have seg: "dseg ?h Head (map Blk xs) (Blk x)" "dseg ?h (Blk x) (map Blk ys) Tail"
    using queue_repD(1) [OF rep] by (simp_all add: dseg_append)
  have pv: "prv ?h (Blk x) = Some p" and nx: "nxt ?h (Blk x) = Some n"
    using dseg_prv_last [OF seg(1)] dseg_first [OF seg(2)] by (simp_all add: p_def n_def)
  let ?h' = "set_next (Blk x) None (set_prev (Blk x) None (set_prev n (Some p) (set_next p (Some n) ?h)))"
  let ?q' = "q\<lparr>fq_heap := ?h', fq_num_free_blocks := fq_num_free_blocks q - 1\<rparr>"
  have rem: "fq_remove (Blk x) q = Inr ?q'" using pv nx by (simp add: fq_remove_def)
  note dist = queue_repD(2) [OF rep]
  have pn: "p \<noteq> Blk x" "n \<noteq> Blk x" "p \<noteq> Tail" "n \<noteq> Head"
    using dist by (auto simp: p_def n_def first_of_def last_map split: list.splits)
  have seg': "dseg ?h' Head (map Blk (xs @ ys)) Tail"
  proof (cases ys)
    case Nil
    then have n: "n = Tail" by (simp add: n_def first_of_def)
    show ?thesis
    proof (cases xs rule: rev_cases)
      case Nil
      with \<open>ys = []\<close> n pn show ?thesis by (simp add: p_def)
    next
      case (snoc zs z)
      with seg(1) have "dseg ?h Head (map Blk zs) (Blk z)" by (simp add: dseg_snoc)
      then have "dseg ?h' Head (map Blk zs) (Blk z)"
        by (rule dseg_cong) (use snoc dist n in \<open>auto simp: p_def\<close>)
      with snoc \<open>ys = []\<close> n pn show ?thesis by (simp add: dseg_snoc p_def)
    qed
  next
    case (Cons y zs)
    then have n: "n = Blk y" by (simp add: n_def first_of_def)
    from seg(2) Cons have "dseg ?h (Blk y) (map Blk zs) Tail" by simp
    moreover have "p \<notin> Blk ` set ys"
      using dist by (cases xs rule: rev_cases) (auto simp: p_def)
    ultimately have right: "dseg ?h' (Blk y) (map Blk zs) Tail"
      using Cons dist n by (auto intro!: dseg_cong [of ?h])
    have left: "dseg ?h' Head (map Blk xs) (Blk y)"
    proof (cases xs rule: rev_cases)
      case Nil
      with n pn show ?thesis by (simp add: p_def)
    next
      case (snoc ws w)
      with seg(1) have "dseg ?h Head (map Blk ws) (Blk w)" by (simp add: dseg_snoc)
      then have "dseg ?h' Head (map Blk ws) (Blk w)"
        by (rule dseg_cong) (use snoc dist n Cons in \<open>auto simp: p_def\<close>)
      with snoc n pn show ?thesis by (simp add: dseg_snoc p_def)
    qed
    from left right Cons show ?thesis by (simp add: dseg_append)
  qed
  have "nxt ?h' (Blk i) = None \<and> prv ?h' (Blk i) = None" if i: "i \<notin> set (xs @ ys)" for i
  proof -
    have "p \<noteq> Blk i" "n \<noteq> Blk i" using i
      by (auto simp: p_def n_def first_of_def last_map split: list.splits)
    with i queue_repD(5,6) [OF rep, of i] show ?thesis by auto
  qed
  then have "queue_rep ?q' (xs @ ys)"
    using seg' queue_repD(2,3,4) [OF rep] pn by (simp add: queue_rep_def)
  with rem show ?thesis by auto
qed

lemma rep_remove_absent: "queue_rep q xs \<Longrightarrow> x \<notin> set xs \<Longrightarrow> fq_remove (Blk x) q = Inl RuntimeError"
  by (simp add: fq_remove_def queue_rep_def)

text \<open>The loop of \<open>append_n\<close> extends a segment that ends just before the tail.\<close>

lemma append_loop_seg:
  assumes "dseg h Head xs l" and "distinct (xs @ l # bs)" and "Head \<notin> set (l # bs)"
    and "Tail \<notin> set (xs @ l # bs)"
  shows "\<exists>h'. append_loop bs l h = (last (l # bs), h') \<and>
    dseg h' Head (butlast (xs @ l # bs)) (last (l # bs)) \<and>
    nxt h' Tail = nxt h Tail \<and>
    (\<forall>r. r \<notin> set (l # bs) \<longrightarrow> nxt h' r = nxt h r) \<and>
    (\<forall>r. r \<notin> set bs \<longrightarrow> prv h' r = prv h r) \<and> payload h' = payload h"
  using assms
proof (induction bs arbitrary: h xs l)
  case Nil
  then show ?case by simp
next
  case (Cons b bs)
  let ?h = "set_next l (Some b) (set_prev b (Some l) h)"
  have "dseg ?h Head xs l" using Cons.prems by (auto intro!: dseg_cong [of h])
  then have "dseg ?h Head (xs @ [l]) b" by (simp add: dseg_snoc)
  from Cons.IH [OF this] Cons.prems obtain h' where
    h': "append_loop bs b ?h = (last (b # bs), h')"
      "dseg h' Head (butlast ((xs @ [l]) @ b # bs)) (last (b # bs))" "nxt h' Tail = nxt ?h Tail"
      "\<forall>r. r \<notin> set (b # bs) \<longrightarrow> nxt h' r = nxt ?h r" "\<forall>r. r \<notin> set bs \<longrightarrow> prv h' r = prv ?h r"
      "payload h' = payload ?h" by auto
  moreover have "butlast ((xs @ [l]) @ b # bs) = butlast (xs @ l # b # bs)" by simp
  ultimately show ?case using Cons.prems by (intro exI [of _ h']) auto
qed

lemma append_loop_head:
  assumes "b \<noteq> Head" and "Head \<notin> set bs" and "nxt h Tail = None" and "Tail \<notin> set (b # bs)"
    and "distinct (b # bs)"
  shows "\<exists>h'. append_loop (b # bs) Head h = (last (b # bs), h') \<and>
    dseg h' Head (butlast (b # bs)) (last (b # bs)) \<and> nxt h' Tail = None \<and>
    (\<forall>r. r \<notin> set (Head # b # bs) \<longrightarrow> nxt h' r = nxt h r) \<and>
    (\<forall>r. r \<notin> set (b # bs) \<longrightarrow> prv h' r = prv h r) \<and> payload h' = payload h"
proof -
  let ?h = "set_next Head (Some b) (set_prev b (Some Head) h)"
  have "dseg ?h Head [] b" by simp
  from append_loop_seg [OF this, of bs] assms show ?thesis by auto
qed

lemma rep_append_n:
  assumes rep: "queue_rep q xs" and dist: "distinct ys" and disj: "set xs \<inter> set ys = {}"
  shows "\<exists>q'. append_n (map Blk ys) q = Inr q' \<and> queue_rep q' (xs @ ys) \<and>
    payload (fq_heap q') = payload (fq_heap q)"
proof (cases ys)
  case Nil
  with rep show ?thesis by (simp add: append_n_def)
next
  case (Cons y zs)
  let ?h = "fq_heap q" and ?l = "last (Head # map Blk xs)" and ?bs = "map Blk ys"
  note seg = queue_repD(1) [OF rep]
  have dall: "distinct (map Blk (xs @ ys))"
    using dist disj queue_repD(2) [OF rep] by (auto simp: distinct_map inj_on_def)
  have last: "prv ?h Tail = Some ?l" using dseg_prv_last [OF seg] .
  obtain h' where loop: "append_loop ?bs ?l ?h = (last ?bs, h')"
    and s: "dseg h' Head (butlast (map Blk (xs @ ys))) (last ?bs)" "nxt h' Tail = None"
    and nx: "\<forall>r. r \<notin> set (?l # ?bs) \<longrightarrow> nxt h' r = nxt ?h r"
    and pv: "\<forall>r. r \<notin> set ?bs \<longrightarrow> prv h' r = prv ?h r" and pay: "payload h' = payload ?h"
  proof (cases xs rule: rev_cases)
    case Nil
    with append_loop_head [of "Blk y" "map Blk zs" ?h] dall queue_repD(4) [OF rep] Cons that
    show thesis by auto
  next
    case (snoc ws w)
    with seg have "dseg ?h Head (map Blk ws) (Blk w)" by (simp add: dseg_snoc)
    from append_loop_seg [OF this, of ?bs] dall queue_repD(4) [OF rep] Cons snoc that
    show thesis by (auto simp: butlast_append)
  qed
  let ?h' = "set_prev Tail (Some (last ?bs)) (set_next (last ?bs) (Some Tail) h')"
  let ?q' = "q\<lparr>fq_heap := ?h', fq_num_free_blocks := fq_num_free_blocks q + int (length ?bs)\<rparr>"
  have app: "append_n ?bs q = Inr ?q'" using Cons last loop by (simp add: append_n_def)
  have lastne: "last ?bs \<in> Blk ` set ys" "last ?bs \<noteq> Head" "last ?bs \<noteq> Tail"
    using Cons by (auto simp: last_map)
  have full: "map Blk (xs @ ys) = butlast (map Blk (xs @ ys)) @ [last ?bs]"
    using Cons by (metis append_butlast_last_id last_appendR list.simps(8) map_append map_is_Nil_conv
        snoc_eq_iff_butlast append_is_Nil_conv list.distinct(1))
  have notin: "last ?bs \<notin> set (butlast (map Blk (xs @ ys)))"
    using dall full by (metis distinct_append disjoint_iff list.set_intros(1))
  have "Tail \<notin> set (butlast (map Blk (xs @ ys)))" by (auto dest: in_set_butlastD)
  with s(1) lastne notin have "dseg ?h' Head (butlast (map Blk (xs @ ys))) (last ?bs)"
    by (auto intro!: dseg_cong [of h'])
  then have "dseg ?h' Head (map Blk (xs @ ys)) Tail" by (subst full) (simp add: dseg_snoc)
  moreover have "nxt ?h' (Blk i) = None \<and> prv ?h' (Blk i) = None" if "i \<notin> set (xs @ ys)" for i
  proof -
    have "Blk i \<notin> set (?l # ?bs)" using that by (auto simp: last_map)
    with that nx pv lastne queue_repD(5,6) [OF rep, of i] show ?thesis by auto
  qed
  moreover have "nxt ?h' Tail = None" using s(2) lastne by auto
  ultimately have "queue_rep ?q' (xs @ ys)"
    using queue_repD(2,3) [OF rep] dist disj by (simp add: queue_rep_def)
  with app pay show ?thesis by auto
qed

lemma fq_append_eq_append_n:
  assumes "queue_rep q xs"
  shows "fq_append (Blk y) q = append_n [Blk y] q"
proof -
  have "last (Head # map Blk xs) \<noteq> Tail" by (auto simp: last_map)
  then show ?thesis
    using dseg_prv_last [OF queue_repD(1) [OF assms]]
    by (auto simp: fq_append_def append_n_def set_next_def set_prev_def Let_def fun_eq_iff)
qed

lemma free_walk_seg:
  assumes "fseg h xs Tail" and "nxt h Tail = None"
  shows "free_walk h (first_of xs Tail) = Some xs"
  using assms
proof (induction xs)
  case Nil
  then show ?case by (subst free_walk.simps) (simp add: first_of_def)
next
  case (Cons x xs)
  then show ?case by (subst free_walk.simps) (simp add: first_of_def [of "x # xs"])
qed

lemma rep_get_all:
  assumes "queue_rep q xs"
  shows "get_all_free_blocks q = Inr (Some (map Blk xs))"
  using free_walk_seg [OF dseg_fseg [OF queue_repD(1) [OF assms]] queue_repD(4) [OF assms]]
    dseg_first [OF queue_repD(1) [OF assms]]
  by (simp add: get_all_free_blocks_def)

subsection \<open>The constructor\<close>

lemma dseg_nthI:
  assumes "xs \<noteq> []" and "nxt h a = Some (xs ! 0)" and "prv h (xs ! 0) = Some a"
    and "\<And>i. Suc i < length xs \<Longrightarrow> nxt h (xs ! i) = Some (xs ! Suc i) \<and> prv h (xs ! Suc i) = Some (xs ! i)"
    and "nxt h (last xs) = Some b" and "prv h b = Some (last xs)"
  shows "dseg h a xs b"
  using assms
proof (induction xs arbitrary: a)
  case Nil
  then show ?case by simp
next
  case (Cons x xs)
  show ?case
  proof (cases xs)
    case Nil
    with Cons.prems show ?thesis by simp
  next
    case (Cons y ys)
    have "dseg h x xs b"
    proof (rule Cons.IH)
      show "nxt h (xs ! i) = Some (xs ! Suc i) \<and> prv h (xs ! Suc i) = Some (xs ! i)"
        if "Suc i < length xs" for i using Cons.prems(4) [of "Suc i"] that by simp
    qed (use Cons Cons.prems(4) [of 0] Cons.prems(5,6) in auto)
    with Cons.prems(2,3) show ?thesis by simp
  qed
qed

lemma link_prefix:
  assumes "distinct bs" and "k \<le> length bs"
  shows "let h' = fold (link_step bs) [0..<k] h in
    (\<forall>i. 0 < i \<and> i < k \<longrightarrow> prv h' (Blk (bs ! i)) = Some (Blk (bs ! (i - 1)))) \<and>
    (\<forall>i. i < k \<and> i < length bs - 1 \<longrightarrow> nxt h' (Blk (bs ! i)) = Some (Blk (bs ! (i + 1)))) \<and>
    (\<forall>r. r \<notin> Blk ` set bs \<longrightarrow> prv h' r = prv h r \<and> nxt h' r = nxt h r) \<and>
    payload h' = payload h"
  using assms(2)
proof (induction k)
  case 0
  then show ?case by simp
next
  case (Suc k)
  then have neq: "\<And>i. i < k \<Longrightarrow> bs ! i \<noteq> bs ! k" using assms(1) by (simp add: nth_eq_iff_index_eq)
  from Suc have mem: "Blk (bs ! k) \<in> Blk ` set bs" by simp
  then have out: "r \<noteq> Blk (bs ! k)" if "r \<notin> Blk ` set bs" for r using that by blast
  let ?h = "fold (link_step bs) [0..<k] h"
  from Suc have
    pv: "\<And>i. 0 < i \<Longrightarrow> i < k \<Longrightarrow> prv ?h (Blk (bs ! i)) = Some (Blk (bs ! (i - 1)))"
    and nx: "\<And>i. i < k \<Longrightarrow> i < length bs - 1 \<Longrightarrow> nxt ?h (Blk (bs ! i)) = Some (Blk (bs ! (i + 1)))"
    and fr: "\<And>r. r \<notin> Blk ` set bs \<Longrightarrow> prv ?h r = prv h r \<and> nxt ?h r = nxt h r"
    and pay: "payload ?h = payload h"
    by (simp_all add: Let_def)
  show ?case
    unfolding Let_def
  proof (intro conjI allI impI)
    fix i assume "0 < i \<and> i < Suc k"
    then show "prv (fold (link_step bs) [0..<Suc k] h) (Blk (bs ! i)) = Some (Blk (bs ! (i - 1)))"
      using pv [of i] neq [of i] by (cases "i = k") (auto simp: link_step_def Let_def)
  next
    fix i assume "i < Suc k \<and> i < length bs - 1"
    then show "nxt (fold (link_step bs) [0..<Suc k] h) (Blk (bs ! i)) = Some (Blk (bs ! (i + 1)))"
      using nx [of i] neq [of i] by (cases "i = k") (auto simp: link_step_def Let_def)
  next
    fix r assume "r \<notin> Blk ` set bs"
    with fr [of r] out [of r]
    show "prv (fold (link_step bs) [0..<Suc k] h) r = prv h r"
      and "nxt (fold (link_step bs) [0..<Suc k] h) r = nxt h r"
      by (simp_all add: link_step_def Let_def)
  qed (simp add: link_step_def Let_def pay)
qed

lemma rep_init:
  assumes "distinct bs" and "\<And>i. i \<notin> set bs \<Longrightarrow> prv h0 (Blk i) = None \<and> nxt h0 (Blk i) = None"
    and "nxt h0 Tail = None"
  shows "queue_rep (init_free_queue bs h0) bs"
    and "payload (fq_heap (init_free_queue bs h0)) = payload h0"
proof -
  let ?h = "link_blocks bs h0" and ?q = "init_free_queue bs h0"
  from link_prefix [OF assms(1) order_refl, of h0]
  have pv: "\<And>i. 0 < i \<Longrightarrow> i < length bs \<Longrightarrow> prv ?h (Blk (bs ! i)) = Some (Blk (bs ! (i - 1)))"
    and nx: "\<And>i. i < length bs - 1 \<Longrightarrow> nxt ?h (Blk (bs ! i)) = Some (Blk (bs ! (i + 1)))"
    and frame: "\<And>r. r \<notin> Blk ` set bs \<Longrightarrow> prv ?h r = prv h0 r \<and> nxt ?h r = nxt h0 r"
    and pay: "payload ?h = payload h0"
    by (simp_all add: link_blocks_def Let_def)
  have "payload (fq_heap ?q) = payload ?h" unfolding init_free_queue_def Let_def by simp
  with pay show "payload (fq_heap ?q) = payload h0" by simp
  have tail: "nxt ?h Tail = None" using frame [of Tail] assms(3) by auto
  show "queue_rep ?q bs"
  proof (cases "bs = []")
    case True
    with frame assms(2) tail show ?thesis
      by (simp add: queue_rep_def init_free_queue_def Let_def)
  next
    case False
    then have idx: "hd bs = bs ! 0" "last bs = bs ! (length bs - 1)" "0 < length bs"
      by (simp_all add: hd_conv_nth last_conv_nth)
    have inj: "bs ! i = bs ! j \<longleftrightarrow> i = j" if "i < length bs" "j < length bs" for i j
      using assms(1) that by (simp add: nth_eq_iff_index_eq)
    have lastb: "bs ! i \<noteq> bs ! (length bs - 1)" if "Suc i < length bs" for i
      using inj [of i "length bs - 1"] that by auto
    have "dseg (fq_heap ?q) Head (map Blk bs) Tail"
    proof (rule dseg_nthI)
      fix i assume "Suc i < length (map Blk bs)"
      then have i: "Suc i < length bs" by simp
      with pv [of "Suc i"] nx [of i] idx inj [of "Suc i" 0] lastb [OF i]
      show "nxt (fq_heap ?q) (map Blk bs ! i) = Some (map Blk bs ! Suc i) \<and>
            prv (fq_heap ?q) (map Blk bs ! Suc i) = Some (map Blk bs ! i)"
        by (auto simp: init_free_queue_def Let_def)
    qed (use False idx in \<open>auto simp: init_free_queue_def Let_def last_map\<close>)
    moreover have "nxt (fq_heap ?q) (Blk i) = None \<and> prv (fq_heap ?q) (Blk i) = None"
      if "i \<notin> set bs" for i
      using that frame [of "Blk i"] assms(2) [OF that] False
      by (auto simp: init_free_queue_def Let_def)
    ultimately show ?thesis
      using assms(1) tail False by (simp add: queue_rep_def init_free_queue_def Let_def)
  qed
qed

subsection \<open>The contract of the free queue\<close>

text \<open>
  What the block pool relies on: the queue is a sequence of distinct block ids, taken from the left,
  extended on the right, with removal from the middle; an operation that its precondition does not
  allow raises; and nothing but the links of a block is ever written.
\<close>

locale free_block_queue =
  fixes rep :: "'q \<Rightarrow> nat list \<Rightarrow> bool"
    and size_of :: "'q \<Rightarrow> int"
    and pay :: "'q \<Rightarrow> blkref \<Rightarrow> 'p"
    and pop_n :: "int \<Rightarrow> 'q \<Rightarrow> (blkref list \<times> 'q) result"
    and rem :: "blkref \<Rightarrow> 'q \<Rightarrow> 'q result"
    and app_n :: "blkref list \<Rightarrow> 'q \<Rightarrow> 'q result"
  assumes rep_distinct: "rep q xs \<Longrightarrow> distinct xs"
    and rep_size: "rep q xs \<Longrightarrow> size_of q = int (length xs)"
    and pop_n_ok: "rep q xs \<Longrightarrow> n \<le> length xs \<Longrightarrow>
      \<exists>q'. pop_n (int n) q = Inr (map Blk (take n xs), q') \<and> rep q' (drop n xs) \<and> pay q' = pay q"
    and rem_ok: "rep q (xs @ x # ys) \<Longrightarrow>
      \<exists>q'. rem (Blk x) q = Inr q' \<and> rep q' (xs @ ys) \<and> pay q' = pay q"
    and rem_absent: "rep q xs \<Longrightarrow> x \<notin> set xs \<Longrightarrow> rem (Blk x) q = Inl RuntimeError"
    and app_n_ok: "rep q xs \<Longrightarrow> distinct ys \<Longrightarrow> set xs \<inter> set ys = {} \<Longrightarrow>
      \<exists>q'. app_n (map Blk ys) q = Inr q' \<and> rep q' (xs @ ys) \<and> pay q' = pay q"
begin

lemma rem_mem:
  assumes "rep q xs" and "x \<in> set xs"
  shows "\<exists>q'. rem (Blk x) q = Inr q' \<and> rep q' (remove1 x xs) \<and> pay q' = pay q"
proof -
  from assms(2) obtain ys zs where xs: "xs = ys @ x # zs" and "x \<notin> set ys"
    by (meson split_list_first)
  with rem_ok [of q ys x zs] assms(1) show ?thesis by (simp add: remove1_append)
qed

lemma rem_iff:
  assumes "rep q xs"
  shows "(\<exists>q'. rem (Blk x) q = Inr q') \<longleftrightarrow> x \<in> set xs"
  using rem_mem [OF assms] rem_absent [OF assms] by force

text \<open>Blocks that are allocated and freed again in reverse order go to the back of the queue.\<close>

lemma pop_then_append:
  assumes "rep q xs" and "n \<le> length xs"
  shows "\<exists>q' q''. pop_n (int n) q = Inr (map Blk (take n xs), q') \<and>
    app_n (map Blk (rev (take n xs))) q' = Inr q'' \<and> rep q'' (drop n xs @ rev (take n xs)) \<and>
    pay q'' = pay q"
proof -
  obtain q' where q': "pop_n (int n) q = Inr (map Blk (take n xs), q')" "rep q' (drop n xs)"
    "pay q' = pay q" using pop_n_ok [OF assms] by blast
  have "distinct (rev (take n xs))" "set (drop n xs) \<inter> set (rev (take n xs)) = {}"
    using rep_distinct [OF assms(1)] distinct_take_drop_disjoint [of xs n] by auto
  from app_n_ok [OF q'(2) this] q' show ?thesis by metis
qed

end

interpretation fq: free_block_queue queue_rep fq_num_free_blocks "\<lambda>q. payload (fq_heap q)"
  popleft_n fq_remove append_n
  by unfold_locales
    (blast intro: queue_repD(2) queue_repD(3) rep_popleft_n rep_remove rep_remove_absent rep_append_n)+

end
