(* ===== verification/Block_Hash.thy ===== *)
theory Block_Hash
  imports Free_Queue "HOL-Library.Countable"
begin

text \<open>
  Block hashes of \<open>vllm/v1/core/kv_cache_utils.py\<close>: the packing of a hash with a group id, the
  extra keys of a block, and the hasher that a request closes over. The hash function (SHA-256 over
  a serialised tuple) and the seed \<open>NONE_HASH\<close> are parameters, and so is the environment flag that
  selects integer hashes in events. The theory shows that packing round-trips, that hashing block by
  block as tokens arrive gives the same hashes as hashing the whole request, that requests with
  a common prefix share the hashes of its full blocks, and that without collisions the
  converse holds.
\<close>

unbundle bit_operations_syntax

subsection \<open>Keys of the prefix cache\<close>

definition to_bytes_4 :: "int \<Rightarrow> bytes result" where
  "to_bytes_4 n = (if n < 0 \<or> n \<ge> 2 ^ 32 then Inl OverflowError
     else Inr (map (\<lambda>k. nat (n div 256 ^ k mod 256)) [3, 2, 1, 0]))"

definition from_bytes_big :: "bytes \<Rightarrow> int" where
  "from_bytes_big bs = foldl (\<lambda>acc b. acc * 256 + int b) 0 bs"

definition make_block_hash_with_group_id :: "bytes \<Rightarrow> int \<Rightarrow> bytes result" where
  "make_block_hash_with_group_id block_hash group_id =
     ebind (to_bytes_4 group_id) (\<lambda>g. Inr (block_hash @ g))"

definition get_block_hash :: "bytes \<Rightarrow> bytes" where
  "get_block_hash key = take (length key - 4) key"

definition get_group_id :: "bytes \<Rightarrow> int" where
  "get_group_id key = from_bytes_big (drop (length key - 4) key)"

datatype external_hash = HashBytes bytes | HashInt int

definition maybe_convert_block_hash :: "bool \<Rightarrow> bytes \<Rightarrow> external_hash" where
  "maybe_convert_block_hash use_int hash_bytes =
     (if \<not> use_int then HashBytes hash_bytes
      else HashInt (from_bytes_big hash_bytes AND (push_bit 64 1 - 1)))"

subsection \<open>Extra keys\<close>

datatype extra_key = KeyStr string | KeyBytes bytes

type_synonym hash_input = "bytes \<times> token list \<times> extra_key list option"

definition need_extra_keys :: "request \<Rightarrow> bool" where
  "need_extra_keys r \<longleftrightarrow>
     rq_mm_features r \<noteq> [] \<or> rq_lora_request r \<noteq> None \<or> rq_cache_salt r \<noteq> None"

function mm_key_loop :: "mm_feature list \<Rightarrow> int \<Rightarrow> int \<Rightarrow> nat \<Rightarrow> extra_key list \<Rightarrow> extra_key list \<times> nat" where
  "mm_key_loop ms start_idx end_idx i keys =
     (if i < length ms then
        let m = ms ! i; offset = mm_offset m; len = mm_length m in
        if end_idx > offset then
          if start_idx > offset + len then mm_key_loop ms start_idx end_idx (i + 1) keys
          else let keys' = keys @ [KeyStr (mm_identifier m)] in
            if end_idx \<ge> offset + len then mm_key_loop ms start_idx end_idx (i + 1) keys'
            else (keys', i)
        else (keys, i)
      else (keys, i))"
  by pat_completeness auto
termination by (relation "measure (\<lambda>(ms, _, _, i, _). length ms - i)") auto

declare mm_key_loop.simps [simp del]

definition gen_mm_extra_hash_keys ::
  "request \<Rightarrow> int \<Rightarrow> int \<Rightarrow> int \<Rightarrow> (extra_key list \<times> int) result" where
  "gen_mm_extra_hash_keys r start_idx end_idx start_mm =
     (let ms = rq_mm_features r in
      if ms = [] then Inr ([], start_mm)
      else if mm_offset (last ms) + mm_length (last ms) < start_idx then Inr ([], start_mm)
      else ebind
        (if start_mm < 0 then
           (if - start_mm \<le> int (length ms) then Inr (int (length ms) + start_mm)
            else Inl AssertionError)
         else Inr start_mm)
        (\<lambda>i. case mm_key_loop ms start_idx end_idx (nat i) [] of
               (keys, j) \<Rightarrow> Inr (keys, int j)))"

definition gen_lora_extra_hash_keys :: "request \<Rightarrow> extra_key list" where
  "gen_lora_extra_hash_keys r =
     (case rq_lora_request r of None \<Rightarrow> [] | Some l \<Rightarrow> [KeyStr (lora_name l)])"

definition slice :: "nat \<Rightarrow> nat \<Rightarrow> 'a list \<Rightarrow> 'a list" where
  "slice i j xs = drop i (take j xs)"

definition gen_prompt_embeds_extra_hash_keys :: "request \<Rightarrow> nat \<Rightarrow> nat \<Rightarrow> extra_key list" where
  "gen_prompt_embeds_extra_hash_keys r i j =
     (case rq_prompt_embeds r of None \<Rightarrow> [] | Some e \<Rightarrow> [KeyBytes (concat (slice i j e))])"

definition generate_block_hash_extra_keys ::
  "request \<Rightarrow> nat \<Rightarrow> nat \<Rightarrow> int \<Rightarrow> (extra_key list option \<times> int) result" where
  "generate_block_hash_extra_keys r i j start_mm =
     ebind (gen_mm_extra_hash_keys r (int i) (int j) start_mm) (\<lambda>(mm_keys, new_mm).
       let lora_keys = gen_lora_extra_hash_keys r;
           salt_keys = (case rq_cache_salt r of
                          Some s \<Rightarrow> if i = 0 \<and> s \<noteq> [] then [KeyStr s] else []
                        | None \<Rightarrow> []);
           embeds_keys = gen_prompt_embeds_extra_hash_keys r i j;
           extra_keys = lora_keys @ mm_keys @ salt_keys @ embeds_keys
       in Inr (if extra_keys = [] then None else Some extra_keys, new_mm))"

subsection \<open>The hasher\<close>

definition hash_block_tokens ::
  "(hash_input \<Rightarrow> bytes) \<Rightarrow> bytes \<Rightarrow> bytes option \<Rightarrow> token list \<Rightarrow> extra_key list option \<Rightarrow> bytes" where
  "hash_block_tokens hf none_hash parent toks extra =
     (let p = (case parent of None \<Rightarrow> none_hash | Some b \<Rightarrow> if b = [] then none_hash else b)
      in hf (p, toks, extra))"

text \<open>The loop of the hasher. With a block size of zero it would not end, hence the partial function.\<close>

partial_function (option) hasher_loop ::
  "(hash_input \<Rightarrow> bytes) \<Rightarrow> bytes \<Rightarrow> nat \<Rightarrow> request \<Rightarrow> nat \<Rightarrow> int \<Rightarrow> bytes option \<Rightarrow> bytes list \<Rightarrow>
   bytes list result option" where
  "hasher_loop hf none_hash bs r start mm prev acc =
     (if start + bs > length (rq_all_token_ids r) then Some (Inr acc)
      else case generate_block_hash_extra_keys r start (start + bs) mm of
        Inl e \<Rightarrow> Some (Inl e)
      | Inr (extra, mm') \<Rightarrow>
          let h = hash_block_tokens hf none_hash prev (slice start (start + bs) (rq_all_token_ids r)) extra
          in hasher_loop hf none_hash bs r (start + bs) mm' (Some h) (acc @ [h]))"

declare hasher_loop.simps [code]

definition request_block_hasher ::
  "(hash_input \<Rightarrow> bytes) \<Rightarrow> bytes \<Rightarrow> nat \<Rightarrow> request \<Rightarrow> bytes list result option" where
  "request_block_hasher hf none_hash bs r =
     (let start = length (rq_block_hashes r) * bs in
      if start + bs > length (rq_all_token_ids r) then Some (Inr [])
      else hasher_loop hf none_hash bs r start (if start > 0 then -1 else 0)
        (if rq_block_hashes r \<noteq> [] then Some (last (rq_block_hashes r)) else None) [])"

text \<open>The closure that requests call. The other outcomes cannot occur with a positive block size, as
  \<open>request_block_hasher_returns\<close> below shows.\<close>

definition get_request_block_hasher ::
  "(hash_input \<Rightarrow> bytes) \<Rightarrow> bytes \<Rightarrow> nat \<Rightarrow> request \<Rightarrow> bytes list" where
  "get_request_block_hasher hf none_hash bs r =
     (case request_block_hasher hf none_hash bs r of Some (Inr hs) \<Rightarrow> hs | _ \<Rightarrow> [])"

subsection \<open>Packing\<close>

lemma slice_map: "slice i j (map f xs) = map f (slice i j xs)"
  by (simp add: slice_def drop_map take_map)

lemma to_bytes_4_length: "to_bytes_4 n = Inr bs \<Longrightarrow> length bs = 4"
  by (auto simp: to_bytes_4_def split: if_splits)

lemma from_to_bytes_4:
  assumes "to_bytes_4 n = Inr bs"
  shows "from_bytes_big bs = n"
proof -
  from assms have n: "0 \<le> n" "n < 2 ^ 32"
    and bs: "bs = map (\<lambda>k. nat (n div 256 ^ k mod 256)) [3, 2, 1, 0]"
    by (auto simp: to_bytes_4_def split: if_splits)
  define a where "a = n div 256"
  define b where "b = a div 256"
  define c where "c = b div 256"
  have d: "n div 256 ^ 3 = c" "n div 256 ^ 2 = b"
    by (simp_all add: a_def b_def c_def flip: zdiv_zmult2_eq)
  have "c mod 256 = c"
    using n unfolding d(1) [symmetric] by (simp add: mod_pos_pos_trivial pos_imp_zdiv_nonneg_iff)
  moreover have "0 \<le> c" using n unfolding d(1) [symmetric] by (simp add: pos_imp_zdiv_nonneg_iff)
  moreover have "n = 256 * a + n mod 256" "a = 256 * b + a mod 256" "b = 256 * c + b mod 256"
    by (simp_all add: a_def b_def c_def)
  ultimately show ?thesis
    unfolding bs from_bytes_big_def list.map d
    by (simp add: a_def [symmetric])
qed

lemma to_bytes_4_ok: "(\<exists>bs. to_bytes_4 n = Inr bs) \<longleftrightarrow> 0 \<le> n \<and> n < 2 ^ 32"
  by (auto simp: to_bytes_4_def)

lemma key_components:
  assumes "make_block_hash_with_group_id h g = Inr key"
  shows "get_block_hash key = h" and "get_group_id key = g"
  using assms
  by (auto simp: make_block_hash_with_group_id_def get_block_hash_def get_group_id_def
      to_bytes_4_length from_to_bytes_4)

lemma key_inj:
  "make_block_hash_with_group_id h g = Inr k \<Longrightarrow> make_block_hash_with_group_id h' g' = Inr k \<Longrightarrow>
   h = h' \<and> g = g'"
  using key_components by blast

text \<open>Packing a block hash with a group id succeeds exactly for group ids that fit four unsigned
  bytes and raises \<open>OverflowError\<close> otherwise; a packed key gives back both components.\<close>

lemma block_hash_group_id_roundtrip:
  "case make_block_hash_with_group_id h g of
     Inl e \<Rightarrow> e = OverflowError \<and> \<not> (0 \<le> g \<and> g < 2 ^ 32)
   | Inr key \<Rightarrow> 0 \<le> g \<and> g < 2 ^ 32 \<and> get_block_hash key = h \<and> get_group_id key = g \<and>
       length key = length h + 4"
proof (cases "0 \<le> g \<and> g < 2 ^ 32")
  case True
  then obtain bs where bs: "to_bytes_4 g = Inr bs" using to_bytes_4_ok by blast
  then have "make_block_hash_with_group_id h g = Inr (h @ bs)"
    by (simp add: make_block_hash_with_group_id_def)
  with True key_components [OF this] to_bytes_4_length [OF bs] show ?thesis by simp
next
  case False
  then show ?thesis by (auto simp: make_block_hash_with_group_id_def to_bytes_4_def)
qed

subsection \<open>The hasher returns\<close>

lemma gen_mm_returns:
  assumes "start_mm \<ge> -1"
  shows "\<exists>keys mm'. gen_mm_extra_hash_keys r i j start_mm = Inr (keys, mm') \<and> mm' \<ge> -1"
proof (cases "rq_mm_features r")
  case Nil
  with assms show ?thesis by (simp add: gen_mm_extra_hash_keys_def)
next
  case (Cons m ms)
  then have "1 \<le> length (rq_mm_features r)" by simp
  with assms Cons show ?thesis
    by (auto simp: gen_mm_extra_hash_keys_def Let_def split: prod.splits)
qed

lemma generate_extra_returns:
  "start_mm \<ge> -1 \<Longrightarrow>
   \<exists>keys mm'. generate_block_hash_extra_keys r i j start_mm = Inr (keys, mm') \<and> mm' \<ge> -1"
  using gen_mm_returns [of start_mm r "int i" "int j"]
  by (auto simp: generate_block_hash_extra_keys_def Let_def)

lemma hasher_loop_returns:
  assumes "bs > 0" and "mm \<ge> -1"
  shows "\<exists>hs. hasher_loop hf nh bs r start mm prev acc = Some (Inr hs)"
  using assms(2)
proof (induction "length (rq_all_token_ids r) - start" arbitrary: start mm prev acc
    rule: less_induct)
  case less
  obtain keys mm' where g: "generate_block_hash_extra_keys r start (start + bs) mm = Inr (keys, mm')"
    and mm': "mm' \<ge> -1" using generate_extra_returns [OF less.prems] by blast
  show ?case
  proof (cases "start + bs > length (rq_all_token_ids r)")
    case True
    then show ?thesis by (subst hasher_loop.simps) simp
  next
    case False
    then have "length (rq_all_token_ids r) - (start + bs) < length (rq_all_token_ids r) - start"
      using assms(1) by simp
    from less.hyps [OF this mm'] False g show ?thesis
      by (subst hasher_loop.simps) (simp add: Let_def)
  qed
qed

lemma request_block_hasher_returns:
  "bs > 0 \<Longrightarrow>
   request_block_hasher hf nh bs r = Some (Inr (get_request_block_hasher hf nh bs r))"
  using hasher_loop_returns [of bs "if length (rq_block_hashes r) * bs > 0 then -1 else 0" hf nh r
      "length (rq_block_hashes r) * bs"
      "if rq_block_hashes r \<noteq> [] then Some (last (rq_block_hashes r)) else None" "[]"]
  by (auto simp: get_request_block_hasher_def request_block_hasher_def Let_def)

subsection \<open>Hashing in one pass\<close>

text \<open>The reference: the hashes of the first \<open>n\<close> blocks of a request without multi-modal inputs.\<close>

definition plain_extra :: "request \<Rightarrow> nat \<Rightarrow> nat \<Rightarrow> extra_key list option" where
  "plain_extra r i j =
     (let ks = gen_lora_extra_hash_keys r @
               (case rq_cache_salt r of Some s \<Rightarrow> if i = 0 \<and> s \<noteq> [] then [KeyStr s] else [] | None \<Rightarrow> []) @
               gen_prompt_embeds_extra_hash_keys r i j
      in if ks = [] then None else Some ks)"

definition parent_hash :: "bytes list \<Rightarrow> bytes option" where
  "parent_hash hs = (if hs = [] then None else Some (last hs))"

primrec block_chain :: "(hash_input \<Rightarrow> bytes) \<Rightarrow> bytes \<Rightarrow> nat \<Rightarrow> request \<Rightarrow> nat \<Rightarrow> bytes list" where
  "block_chain hf nh bs r 0 = []"
| "block_chain hf nh bs r (Suc n) = block_chain hf nh bs r n @
     [hash_block_tokens hf nh (parent_hash (block_chain hf nh bs r n))
        (slice (n * bs) (n * bs + bs) (rq_all_token_ids r)) (plain_extra r (n * bs) (n * bs + bs))]"

definition full_blocks :: "nat \<Rightarrow> request \<Rightarrow> nat" where
  "full_blocks bs r = length (rq_all_token_ids r) div bs"

lemma below_next_block: "bs > 0 \<Longrightarrow> (n::nat) < n div bs * bs + bs"
  by (metis div_mult_mod_eq mod_less_divisor nat_add_left_cancel_less)

lemma length_block_chain [simp]: "length (block_chain hf nh bs r n) = n"
  by (induction n) auto

lemma block_chain_prefix: "m \<le> n \<Longrightarrow> take m (block_chain hf nh bs r n) = block_chain hf nh bs r m"
proof (induction n)
  case (Suc n)
  show ?case
  proof (cases "m = Suc n")
    case True
    then show ?thesis by (simp del: block_chain.simps)
  next
    case False
    with Suc show ?thesis by simp
  qed
qed simp

lemma parent_hash_snoc [simp]: "parent_hash (hs @ [h]) = Some h"
  by (simp add: parent_hash_def)

lemma generate_plain:
  "rq_mm_features r = [] \<Longrightarrow> generate_block_hash_extra_keys r i j mm = Inr (plain_extra r i j, mm)"
  by (simp add: generate_block_hash_extra_keys_def gen_mm_extra_hash_keys_def plain_extra_def Let_def)

lemma hasher_loop_plain:
  assumes "bs > 0" and "rq_mm_features r = []" and "k \<le> full_blocks bs r"
  shows "hasher_loop hf nh bs r (k * bs) mm (parent_hash (block_chain hf nh bs r k)) acc =
    Some (Inr (acc @ drop k (block_chain hf nh bs r (full_blocks bs r))))"
  using assms(3)
proof (induction "full_blocks bs r - k" arbitrary: k acc)
  case 0
  then have k: "k = full_blocks bs r" by simp
  have "k * bs + bs > length (rq_all_token_ids r)"
    unfolding k full_blocks_def by (rule below_next_block [OF assms(1)])
  with k show ?case by (subst hasher_loop.simps) simp
next
  case (Suc x)
  then have k: "k < full_blocks bs r" by simp
  then have "Suc k * bs \<le> length (rq_all_token_ids r)"
    unfolding full_blocks_def using assms(1) by (metis Suc_leI less_eq_div_iff_mult_less_eq)
  then have fits: "\<not> length (rq_all_token_ids r) < k * bs + bs" by simp
  let ?h = "hash_block_tokens hf nh (parent_hash (block_chain hf nh bs r k))
        (slice (k * bs) (k * bs + bs) (rq_all_token_ids r)) (plain_extra r (k * bs) (k * bs + bs))"
  have step: "hasher_loop hf nh bs r (k * bs) mm (parent_hash (block_chain hf nh bs r k)) acc =
      hasher_loop hf nh bs r (Suc k * bs) mm (parent_hash (block_chain hf nh bs r (Suc k))) (acc @ [?h])"
    by (subst hasher_loop.simps) (use fits assms(2) in \<open>simp add: generate_plain Let_def add.commute\<close>)
  let ?c = "block_chain hf nh bs r (full_blocks bs r)"
  have "take (Suc k) ?c = block_chain hf nh bs r (Suc k)"
    using k by (intro block_chain_prefix) simp
  then have "?c ! k = ?h" by (metis length_block_chain block_chain.simps(2) lessI nth_append_length nth_take)
  then have "drop k ?c = ?h # drop (Suc k) ?c" using k by (simp add: Cons_nth_drop_Suc [symmetric])
  with step Suc.hyps(1) [of "Suc k" "acc @ [?h]"] Suc.hyps(2) k show ?case by simp
qed

definition hashes_ok :: "(hash_input \<Rightarrow> bytes) \<Rightarrow> bytes \<Rightarrow> nat \<Rightarrow> request \<Rightarrow> bool" where
  "hashes_ok hf nh bs r \<longleftrightarrow> rq_block_hashes r = block_chain hf nh bs r (full_blocks bs r)"

text \<open>The hasher, called on a request that already holds the hashes of its first \<open>k\<close> blocks,
  returns the hashes of the remaining full blocks.\<close>

lemma hasher_completes:
  assumes "bs > 0" and "rq_mm_features r = []" and "k \<le> full_blocks bs r"
    and "rq_block_hashes r = block_chain hf nh bs r k"
  shows "get_request_block_hasher hf nh bs r = drop k (block_chain hf nh bs r (full_blocks bs r))"
proof (cases "k = full_blocks bs r")
  case True
  have "k * bs + bs > length (rq_all_token_ids r)"
    unfolding True full_blocks_def by (rule below_next_block [OF assms(1)])
  with assms(4) have "request_block_hasher hf nh bs r = Some (Inr [])"
    by (simp add: request_block_hasher_def)
  with True show ?thesis by (simp add: get_request_block_hasher_def)
next
  case False
  with assms(1,3) have "Suc k * bs \<le> length (rq_all_token_ids r)"
    unfolding full_blocks_def by (metis Suc_leI le_neq_implies_less less_eq_div_iff_mult_less_eq)
  with assms(4) have "request_block_hasher hf nh bs r =
      hasher_loop hf nh bs r (k * bs) (if k * bs > 0 then -1 else 0)
        (parent_hash (block_chain hf nh bs r k)) []"
    by (simp add: request_block_hasher_def parent_hash_def Let_def)
  with hasher_loop_plain [OF assms(1-3)] show ?thesis
    by (simp add: get_request_block_hasher_def)
qed

subsection \<open>Incremental hashing and prefix sharing\<close>

text \<open>Appending tokens does not change the blocks that were already full.\<close>

definition same_keys :: "request \<Rightarrow> request \<Rightarrow> bool" where
  "same_keys r r' \<longleftrightarrow> map_option lora_name (rq_lora_request r) = map_option lora_name (rq_lora_request r') \<and>
     rq_cache_salt r = rq_cache_salt r' \<and> rq_prompt_embeds r = rq_prompt_embeds r'"

lemma plain_extra_cong: "same_keys r r' \<Longrightarrow> plain_extra r i j = plain_extra r' i j"
  by (cases "rq_lora_request r"; cases "rq_lora_request r'")
    (auto simp: same_keys_def plain_extra_def gen_lora_extra_hash_keys_def
      gen_prompt_embeds_extra_hash_keys_def)

lemma slice_take_cong:
  assumes "take n xs = take n ys" and "j \<le> n"
  shows "slice i j xs = slice i j ys"
proof -
  have "take j (take n xs) = take j (take n ys)" using assms(1) by simp
  with assms(2) have "take j xs = take j ys" by (simp add: min_absorb1)
  then show ?thesis by (simp add: slice_def)
qed

lemma block_chain_cong:
  assumes "same_keys r r'" and "take (n * bs) (rq_all_token_ids r) = take (n * bs) (rq_all_token_ids r')"
  shows "block_chain hf nh bs r n = block_chain hf nh bs r' n"
  using assms(2)
proof (induction n)
  case (Suc n)
  have "take (n * bs) (take (Suc n * bs) (rq_all_token_ids r)) =
        take (n * bs) (take (Suc n * bs) (rq_all_token_ids r'))" using Suc.prems by simp
  then have "block_chain hf nh bs r n = block_chain hf nh bs r' n"
    by (intro Suc.IH) (simp add: min_absorb1)
  moreover have "slice (n * bs) (n * bs + bs) (rq_all_token_ids r) =
      slice (n * bs) (n * bs + bs) (rq_all_token_ids r')"
    using Suc.prems by (rule slice_take_cong) simp
  ultimately show ?case using plain_extra_cong [OF assms(1)] by simp
qed simp

lemma full_blocks_mono:
  "length (rq_all_token_ids r) \<le> length (rq_all_token_ids r') \<Longrightarrow> full_blocks bs r \<le> full_blocks bs r'"
  by (simp add: full_blocks_def div_le_mono)

lemma full_blocks_le: "full_blocks bs r * bs \<le> length (rq_all_token_ids r)"
  by (simp add: full_blocks_def)

text \<open>Hashing commutes with generation: the hashes a request has after tokens were appended are those
  of hashing the longer request from scratch.\<close>

lemma append_output_hashes_ok:
  assumes "bs > 0" and "rq_mm_features r = []" and "hashes_ok hf nh bs r"
  shows "hashes_ok hf nh bs (append_output_token_ids (Some (get_request_block_hasher hf nh bs)) toks r)"
proof -
  let ?r = "r\<lparr>rq_output_token_ids := rq_output_token_ids r @ toks,
              rq_all_token_ids := rq_all_token_ids r @ toks\<rparr>"
  let ?k = "full_blocks bs r" and ?n = "full_blocks bs ?r"
  have le: "?k \<le> ?n" by (rule full_blocks_mono) simp
  have "block_chain hf nh bs r ?k = block_chain hf nh bs ?r ?k"
    by (rule block_chain_cong) (simp_all add: same_keys_def full_blocks_le)
  with assms(3) have hs: "rq_block_hashes ?r = block_chain hf nh bs ?r ?k"
    by (simp add: hashes_ok_def)
  have new: "get_request_block_hasher hf nh bs ?r = drop ?k (block_chain hf nh bs ?r ?n)"
    using hasher_completes [OF assms(1) _ le hs] assms(2) by simp
  have "rq_block_hashes ?r @ get_request_block_hasher hf nh bs ?r = block_chain hf nh bs ?r ?n"
    unfolding new hs by (subst block_chain_prefix [OF le, symmetric]) (rule append_take_drop_id)
  moreover have "block_chain hf nh bs (?r\<lparr>rq_block_hashes := hs\<rparr>) ?n = block_chain hf nh bs ?r ?n" for hs
    by (rule block_chain_cong) (simp_all add: same_keys_def)
  moreover have "full_blocks bs (?r\<lparr>rq_block_hashes := hs\<rparr>) = ?n" for hs
    by (simp add: full_blocks_def)
  ultimately show ?thesis
    unfolding append_output_token_ids_def hashes_ok_def Let_def by simp
qed

lemma new_request_hashes_ok:
  assumes "bs > 0"
    and "new_request (Some (get_request_block_hasher hf nh bs)) rid prompt sp pool eos cl arr emb []
           lora salt prio = Inr r"
  shows "hashes_ok hf nh bs r" and "rq_mm_features r = []"
proof -
  from assms(2) obtain r0 where r: "r = r0\<lparr>rq_block_hashes := get_request_block_hasher hf nh bs r0\<rparr>"
    and r0: "rq_block_hashes r0 = []" "rq_mm_features r0 = []"
    by (rule new_request_shape) (simp add: init_block_hashes_def)
  show "rq_mm_features r = []" using r r0 by simp
  have "get_request_block_hasher hf nh bs r0 = block_chain hf nh bs r0 (full_blocks bs r0)"
    using hasher_completes [OF assms(1) r0(2), of 0 hf nh] r0(1) by simp
  moreover have "block_chain hf nh bs r (full_blocks bs r0) = block_chain hf nh bs r0 (full_blocks bs r0)"
    by (rule block_chain_cong) (simp_all add: r same_keys_def)
  ultimately show "hashes_ok hf nh bs r" by (simp add: hashes_ok_def r full_blocks_def)
qed

text \<open>C28: hashes of a request are maintained incrementally: a new request without multi-modal inputs holds the
  chained hash of each of its full blocks, and appending output tokens keeps it so, block by block as
  they fill, exactly as if the longer request had been hashed from scratch.\<close>

theorem incremental_hashing:
  assumes "bs > 0"
    and "new_request (Some (get_request_block_hasher hf nh bs)) rid prompt sp pool eos cl arr emb []
           lora salt prio = Inr r"
  shows "hashes_ok hf nh bs
    (fold (append_output_token_ids (Some (get_request_block_hasher hf nh bs))) toks r)"
proof -
  have "hashes_ok hf nh bs r \<Longrightarrow> rq_mm_features r = [] \<Longrightarrow> hashes_ok hf nh bs
    (fold (append_output_token_ids (Some (get_request_block_hasher hf nh bs))) toks r)" for r
    by (induction toks arbitrary: r)
      (simp_all add: append_output_hashes_ok [OF assms(1)])
  with new_request_hashes_ok [OF assms] show ?thesis by blast
qed

theorem incremental_hashing_witness:
  "hashes_ok (\<lambda>x. [length (fst (snd x))]) [7] 2
    (fold (append_output_token_ids (Some (get_request_block_hasher (\<lambda>x. [length (fst (snd x))]) [7] 2)))
      [[4], [5]] (init_block_hashes (Some (get_request_block_hasher (\<lambda>x. [length (fst (snd x))]) [7] 2))
        (sample_request ''a'' [1, 2, 3])))"
  by (rule incremental_hashing [OF _ new_sample_request]) simp

text \<open>Equal hashes give equal blocks when the hash function has no collisions.\<close>

lemma hash_block_tokens_inj:
  assumes "inj hf" and "\<And>x. hf x \<noteq> [] \<and> hf x \<noteq> nh"
    and "hash_block_tokens hf nh (parent_hash hs) t e = hash_block_tokens hf nh (parent_hash hs') t' e'"
    and "set hs \<union> set hs' \<subseteq> range hf"
  shows "t = t' \<and> e = e' \<and> parent_hash hs = parent_hash hs'"
proof -
  have ne: "last xs \<noteq> [] \<and> last xs \<noteq> nh" if "set xs \<subseteq> range hf" "xs \<noteq> []" for xs
    using assms(2) subsetD [OF that(1) last_in_set [OF that(2)]] by (metis imageE)
  from assms(3,1) show ?thesis
    using ne [of hs] ne [of hs'] assms(4)
    by (auto simp: hash_block_tokens_def parent_hash_def Let_def dest!: injD split: if_splits)
qed

lemma block_chain_range: "set (block_chain hf nh bs r n) \<subseteq> range hf"
  by (induction n) (auto simp: hash_block_tokens_def Let_def)

lemma take_block_eqI:
  assumes "take (n * bs) xs = take (n * bs) ys"
    and "slice (n * bs) (n * bs + bs) xs = slice (n * bs) (n * bs + bs) ys"
  shows "take (Suc n * bs) xs = take (Suc n * bs) ys"
proof -
  have "take (n * bs + bs) zs = take (n * bs) zs @ slice (n * bs) (n * bs + bs) zs" for zs :: "'a list"
    by (metis append_take_drop_id le_add1 min.absorb1 slice_def take_take)
  with assms show ?thesis by (simp add: add.commute)
qed

lemma block_chain_inj:
  assumes "inj hf" and "\<And>x. hf x \<noteq> [] \<and> hf x \<noteq> nh"
    and "last (block_chain hf nh bs r (Suc n)) = last (block_chain hf nh bs r' (Suc n))"
  shows "take (Suc n * bs) (rq_all_token_ids r) = take (Suc n * bs) (rq_all_token_ids r')"
  using assms(3)
proof (induction n)
  case 0
  with hash_block_tokens_inj [OF assms(1,2), of "[]" _ _ "[]"]
  show ?case by (intro take_block_eqI) (auto simp: slice_def)
next
  case (Suc n)
  let ?c = "\<lambda>r. block_chain hf nh bs r (Suc n)"
  have eq: "hash_block_tokens hf nh (parent_hash (?c r))
        (slice (Suc n * bs) (Suc n * bs + bs) (rq_all_token_ids r)) (plain_extra r (Suc n * bs) (Suc n * bs + bs)) =
      hash_block_tokens hf nh (parent_hash (?c r'))
        (slice (Suc n * bs) (Suc n * bs + bs) (rq_all_token_ids r')) (plain_extra r' (Suc n * bs) (Suc n * bs + bs))"
    using Suc.prems unfolding block_chain.simps(2) [of _ _ _ _ "Suc n"] last_snoc .
  have sub: "set (?c r) \<union> set (?c r') \<subseteq> range hf" using block_chain_range by blast
  from hash_block_tokens_inj [OF assms(1,2) eq sub]
  have "parent_hash (?c r) = parent_hash (?c r')"
    and sl: "slice (Suc n * bs) (Suc n * bs + bs) (rq_all_token_ids r) =
      slice (Suc n * bs) (Suc n * bs + bs) (rq_all_token_ids r')" by blast+
  then have "last (?c r) = last (?c r')" by (simp add: parent_hash_def)
  from Suc.IH [OF this] sl show ?case by (rule take_block_eqI)
qed

lemma block_chain_nth: "n < m \<Longrightarrow> block_chain hf nh bs r m ! n = last (block_chain hf nh bs r (Suc n))"
  using block_chain_prefix [of "Suc n" m hf nh bs r]
  by (metis Suc_leI last_snoc length_block_chain lessI nth_take take_Suc_conv_app_nth)


instance extra_key :: countable
  by countable_datatype

text \<open>A collision-free hash function for the instance below.\<close>

definition ideal_hash :: "hash_input \<Rightarrow> bytes" where
  "ideal_hash x = [Suc (to_nat x)]"

definition hashed_sample :: "reqid \<Rightarrow> token list \<Rightarrow> request" where
  "hashed_sample rid toks = init_block_hashes (Some (get_request_block_hasher ideal_hash [0] 2))
     (sample_request rid toks)"

lemma hashed_sample_ok: "hashes_ok ideal_hash [0] 2 (hashed_sample rid toks)"
  unfolding hashed_sample_def by (rule new_request_hashes_ok(1) [OF _ new_sample_request]) simp

lemma hashed_sample_toks [simp]: "rq_all_token_ids (hashed_sample rid toks) = toks"
  by (simp add: hashed_sample_def)

lemma hashed_sample_length: "length (rq_block_hashes (hashed_sample rid toks)) = length toks div 2"
  using hashed_sample_ok [of rid toks] by (simp add: hashes_ok_def full_blocks_def)


end
