(* ===== verification/Block_Pool.thy ===== *)
theory Block_Pool
  imports Block_Hash
begin

text \<open>
  \<open>vllm/v1/core/block_pool.py\<close>: the prefix cache (\<open>BlockHashToBlockMap\<close>) and the pool of KV-cache
  blocks (\<open>BlockPool\<close>). The block objects live in the store of the free queue. The invariant of the
  pool says that the free queue holds exactly the non-null blocks with reference count zero, and that
  the cache maps a key to exactly the blocks that carry it; every operation keeps it, and the theory
  states what each operation does to the reference counts.
\<close>

subsection \<open>The prefix cache\<close>

datatype cached_blocks = Single blkref | Many "(int, blkref) dict"

type_synonym block_cache = "(bytes, cached_blocks) dict"

definition get_one_block :: "block_cache \<Rightarrow> bytes \<Rightarrow> blkref option result" where
  "get_one_block c key =
     (case map_of c key of
        None \<Rightarrow> Inr None
      | Some (Single b) \<Rightarrow> Inr (Some b)
      | Some (Many d) \<Rightarrow> (case dvals d of [] \<Rightarrow> Inl StopIteration | b # _ \<Rightarrow> Inr (Some b)))"

definition cache_insert :: "block_heap \<Rightarrow> bytes \<Rightarrow> blkref \<Rightarrow> block_cache \<Rightarrow> block_cache" where
  "cache_insert h key b c =
     (case map_of c key of
        None \<Rightarrow> AList.update key (Single b) c
      | Some (Single b0) \<Rightarrow>
          AList.update key (Many (AList.update (kb_block_id (h b)) b [(kb_block_id (h b0), b0)])) c
      | Some (Many d) \<Rightarrow> AList.update key (Many (AList.update (kb_block_id (h b)) b d)) c)"

definition cache_pop :: "block_heap \<Rightarrow> bytes \<Rightarrow> int \<Rightarrow> block_cache \<Rightarrow> blkref option \<times> block_cache" where
  "cache_pop h key block_id c =
     (let c' = AList.delete key c in
      case map_of c key of
        None \<Rightarrow> (None, c')
      | Some (Single b) \<Rightarrow> if kb_block_id (h b) = block_id then (Some b, c')
          else (None, AList.update key (Single b) c')
      | Some (Many d) \<Rightarrow> let d' = AList.delete block_id d in
          (map_of d block_id, if length d' > 0 then AList.update key (Many d') c' else c'))"

definition cache_len :: "block_cache \<Rightarrow> nat" where
  "cache_len c = length c"

subsection \<open>Fields of a block\<close>

definition set_ref_cnt :: "blkref \<Rightarrow> int \<Rightarrow> block_heap \<Rightarrow> block_heap" where
  "set_ref_cnt r v h = h(r := (h r)\<lparr>kb_ref_cnt := v\<rparr>)"

definition put_hash :: "blkref \<Rightarrow> bytes option \<Rightarrow> block_heap \<Rightarrow> block_heap" where
  "put_hash r v h = h(r := (h r)\<lparr>kb_block_hash := v\<rparr>)"

definition set_block_hash :: "blkref \<Rightarrow> bytes \<Rightarrow> block_heap \<Rightarrow> block_heap result" where
  "set_block_hash r v h =
     (if kb_block_hash (h r) = None then Inr (put_hash r (Some v) h) else Inl AssertionError)"

definition reset_hash :: "blkref \<Rightarrow> block_heap \<Rightarrow> block_heap" where
  "reset_hash r h = put_hash r None h"

subsection \<open>The pool\<close>

datatype kv_event =
    BlockStored "external_hash list" "external_hash option" "token list" nat "int option"
  | BlockRemoved "external_hash list"
  | AllBlocksCleared

record block_pool =
  bp_num_gpu_blocks :: nat
  bp_enable_caching :: bool
  bp_free_block_queue :: free_queue
  bp_cached_block_hash_to_block :: block_cache
  bp_null_block :: blkref
  bp_enable_kv_cache_events :: bool
  bp_kv_event_queue :: "kv_event list"

abbreviation heap_of :: "block_pool \<Rightarrow> block_heap" where
  "heap_of p \<equiv> fq_heap (bp_free_block_queue p)"

definition map_heap :: "(block_heap \<Rightarrow> block_heap) \<Rightarrow> block_pool \<Rightarrow> block_pool" where
  "map_heap f p = p\<lparr>bp_free_block_queue := (bp_free_block_queue p)\<lparr>fq_heap := f (heap_of p)\<rparr>\<rparr>"

definition set_is_null :: "blkref \<Rightarrow> block_heap \<Rightarrow> block_heap" where
  "set_is_null r h = h(r := (h r)\<lparr>kb_is_null := True\<rparr>)"

definition init_block_pool :: "nat \<Rightarrow> bool \<Rightarrow> bool \<Rightarrow> block_pool result" where
  "init_block_pool num_gpu_blocks enable_caching enable_events =
     ebind (assert_that (num_gpu_blocks > 0)) (\<lambda>_.
     ebind (popleft (init_free_queue [0..<num_gpu_blocks] initial_heap)) (\<lambda>(null_block, q).
       Inr \<lparr>bp_num_gpu_blocks = num_gpu_blocks, bp_enable_caching = enable_caching,
            bp_free_block_queue = q\<lparr>fq_heap := set_is_null null_block (fq_heap q)\<rparr>,
            bp_cached_block_hash_to_block = [], bp_null_block = null_block,
            bp_enable_kv_cache_events = enable_events, bp_kv_event_queue = []\<rparr>))"

fun get_cached_block :: "block_pool \<Rightarrow> bytes \<Rightarrow> int list \<Rightarrow> blkref list option result" where
  "get_cached_block p block_hash [] = Inr (Some [])"
| "get_cached_block p block_hash (g # gs) =
     ebind (make_block_hash_with_group_id block_hash g) (\<lambda>key.
     ebind (get_one_block (bp_cached_block_hash_to_block p) key) (\<lambda>b.
       case b of
         None \<Rightarrow> Inr None
       | Some blk \<Rightarrow> ebind (get_cached_block p block_hash gs) (\<lambda>rest.
           Inr (map_option (\<lambda>bs. blk # bs) rest))))"

text \<open>The loop of \<open>cache_full_blocks\<close>; \<open>use_int\<close> selects the hashes reported in events.\<close>

fun cache_blocks_loop :: "bool \<Rightarrow> int \<Rightarrow> blkref list \<Rightarrow> bytes list \<Rightarrow> external_hash list \<Rightarrow> block_pool \<Rightarrow>
    (external_hash list \<times> block_pool) result" where
  "cache_blocks_loop use_int gid [] hs new_hashes p = Inr (new_hashes, p)"
| "cache_blocks_loop use_int gid (b # bs) [] new_hashes p =
     (if kb_block_hash (heap_of p b) \<noteq> None then Inl AssertionError else Inl IndexError)"
| "cache_blocks_loop use_int gid (b # bs) (h # hs) new_hashes p =
     ebind (assert_that (kb_block_hash (heap_of p b) = None)) (\<lambda>_.
     ebind (make_block_hash_with_group_id h gid) (\<lambda>key.
     ebind (set_block_hash b key (heap_of p)) (\<lambda>hp.
       let p1 = map_heap (\<lambda>_. hp) p;
           p2 = p1\<lparr>bp_cached_block_hash_to_block :=
                    cache_insert hp key b (bp_cached_block_hash_to_block p1)\<rparr>
       in cache_blocks_loop use_int gid bs hs
            (if bp_enable_kv_cache_events p then new_hashes @ [maybe_convert_block_hash use_int h]
             else new_hashes) p2)))"

definition cache_full_blocks ::
  "bool \<Rightarrow> request \<Rightarrow> blkref list \<Rightarrow> nat \<Rightarrow> nat \<Rightarrow> nat \<Rightarrow> int \<Rightarrow> block_pool \<Rightarrow> block_pool result" where
  "cache_full_blocks use_int r blocks num_cached num_full block_size gid p =
     (if num_cached \<ge> num_full then Inr p
      else
      ebind (assert_that (length (rq_block_hashes r) \<ge> num_full)) (\<lambda>_.
      ebind (cache_blocks_loop use_int gid (slice num_cached num_full blocks)
               (drop num_cached (rq_block_hashes r)) [] p) (\<lambda>(new_hashes, p1).
        if \<not> bp_enable_kv_cache_events p1 then Inr p1
        else
        ebind (if num_cached = 0 then Inr None
               else if num_cached - 1 < length blocks then
                 (case kb_block_hash (heap_of p1 (blocks ! (num_cached - 1))) of
                    None \<Rightarrow> Inl AssertionError
                  | Some k \<Rightarrow> Inr (Some (maybe_convert_block_hash use_int (get_block_hash k))))
               else Inl IndexError) (\<lambda>parent.
          Inr (p1\<lparr>bp_kv_event_queue := bp_kv_event_queue p1 @
            [BlockStored new_hashes parent
               (slice (num_cached * block_size) (num_full * block_size) (rq_all_token_ids r))
               block_size (map_option lora_int_id (rq_lora_request r))]\<rparr>)))))"

definition get_num_free_blocks :: "block_pool \<Rightarrow> int" where
  "get_num_free_blocks p = fq_num_free_blocks (bp_free_block_queue p)"

definition maybe_evict_cached_block :: "bool \<Rightarrow> blkref \<Rightarrow> block_pool \<Rightarrow> bool \<times> block_pool" where
  "maybe_evict_cached_block use_int b p =
     (case kb_block_hash (heap_of p b) of
        None \<Rightarrow> (False, p)
      | Some key \<Rightarrow>
          (case cache_pop (heap_of p) key (kb_block_id (heap_of p b)) (bp_cached_block_hash_to_block p) of
             (None, c) \<Rightarrow> (False, p\<lparr>bp_cached_block_hash_to_block := c\<rparr>)
           | (Some _, c) \<Rightarrow>
               let p1 = map_heap (reset_hash b) (p\<lparr>bp_cached_block_hash_to_block := c\<rparr>)
               in (True, if bp_enable_kv_cache_events p1 then
                     p1\<lparr>bp_kv_event_queue := bp_kv_event_queue p1 @
                        [BlockRemoved [maybe_convert_block_hash use_int (get_block_hash key)]]\<rparr>
                   else p1)))"

definition incr_ref :: "blkref \<Rightarrow> block_pool \<Rightarrow> block_pool" where
  "incr_ref b p = map_heap (\<lambda>h. set_ref_cnt b (kb_ref_cnt (h b) + 1) h) p"

definition decr_ref :: "blkref \<Rightarrow> block_pool \<Rightarrow> block_pool" where
  "decr_ref b p = map_heap (\<lambda>h. set_ref_cnt b (kb_ref_cnt (h b) - 1) h) p"

fun take_blocks_loop :: "bool \<Rightarrow> blkref list \<Rightarrow> block_pool \<Rightarrow> block_pool result" where
  "take_blocks_loop use_int [] p = Inr p"
| "take_blocks_loop use_int (b # bs) p =
     (let p1 = (if bp_enable_caching p then snd (maybe_evict_cached_block use_int b p) else p)
      in ebind (assert_that (kb_ref_cnt (heap_of p1 b) = 0)) (\<lambda>_.
           take_blocks_loop use_int bs (incr_ref b p1)))"

definition get_new_blocks :: "bool \<Rightarrow> int \<Rightarrow> block_pool \<Rightarrow> (blkref list \<times> block_pool) result" where
  "get_new_blocks use_int num_blocks p =
     (if num_blocks > get_num_free_blocks p then Inl ValueError
      else ebind (popleft_n num_blocks (bp_free_block_queue p)) (\<lambda>(ret, q).
           ebind (take_blocks_loop use_int ret (p\<lparr>bp_free_block_queue := q\<rparr>)) (\<lambda>p'.
             Inr (ret, p'))))"

fun touch_loop :: "blkref list \<Rightarrow> block_pool \<Rightarrow> block_pool result" where
  "touch_loop [] p = Inr p"
| "touch_loop (b # bs) p =
     ebind (if kb_ref_cnt (heap_of p b) = 0 \<and> \<not> kb_is_null (heap_of p b) then
              ebind (fq_remove b (bp_free_block_queue p)) (\<lambda>q. Inr (p\<lparr>bp_free_block_queue := q\<rparr>))
            else Inr p)
       (\<lambda>p1. touch_loop bs (incr_ref b p1))"

fun touch :: "blkref list list \<Rightarrow> block_pool \<Rightarrow> block_pool result" where
  "touch [] p = Inr p"
| "touch (g # gs) p = ebind (touch_loop g p) (touch gs)"

definition free_blocks :: "blkref list \<Rightarrow> block_pool \<Rightarrow> block_pool result" where
  "free_blocks ordered_blocks p =
     (let p1 = fold decr_ref ordered_blocks p in
      ebind (append_n (filter (\<lambda>b. kb_ref_cnt (heap_of p1 b) = 0 \<and> \<not> kb_is_null (heap_of p1 b))
                         ordered_blocks) (bp_free_block_queue p1))
        (\<lambda>q. Inr (p1\<lparr>bp_free_block_queue := q\<rparr>)))"

definition reset_prefix_cache :: "block_pool \<Rightarrow> bool \<times> block_pool" where
  "reset_prefix_cache p =
     (if int (bp_num_gpu_blocks p) - get_num_free_blocks p \<noteq> 1 then (False, p)
      else let p1 = map_heap (fold reset_hash (map Blk [0..<bp_num_gpu_blocks p]))
                      (p\<lparr>bp_cached_block_hash_to_block := []\<rparr>)
           in (True, if bp_enable_kv_cache_events p1
                     then p1\<lparr>bp_kv_event_queue := bp_kv_event_queue p1 @ [AllBlocksCleared]\<rparr>
                     else p1))"

definition get_usage :: "block_pool \<Rightarrow> rat" where
  "get_usage p =
     (let total = int (bp_num_gpu_blocks p) - 1 in
      if total = 0 then 0 else 1 - of_int (get_num_free_blocks p) / of_int total)"

definition take_events :: "block_pool \<Rightarrow> kv_event list \<times> block_pool" where
  "take_events p =
     (if \<not> bp_enable_kv_cache_events p then ([], p)
      else (bp_kv_event_queue p, p\<lparr>bp_kv_event_queue := []\<rparr>))"

subsection \<open>Correctness of the prefix cache\<close>

text \<open>The blocks stored under a key, and what it means for the stored objects to be well formed with
  respect to a block store.\<close>

definition cached_at :: "block_cache \<Rightarrow> bytes \<Rightarrow> blkref set" where
  "cached_at c key = (case map_of c key of
       None \<Rightarrow> {} | Some (Single b) \<Rightarrow> {b} | Some (Many d) \<Rightarrow> ran (map_of d))"

fun entry_wf :: "block_heap \<Rightarrow> cached_blocks \<Rightarrow> bool" where
  "entry_wf h (Single b) \<longleftrightarrow> True"
| "entry_wf h (Many d) \<longleftrightarrow>
     d \<noteq> [] \<and> wf_dict d \<and> (\<forall>i b. map_of d i = Some b \<longrightarrow> kb_block_id (h b) = i)"

definition cache_wf :: "block_heap \<Rightarrow> block_cache \<Rightarrow> bool" where
  "cache_wf h c \<longleftrightarrow> wf_dict c \<and> (\<forall>k v. map_of c k = Some v \<longrightarrow> entry_wf h v)"

lemma cache_wfD:
  assumes "cache_wf h c"
  shows "wf_dict c"
    and "map_of c k = Some v \<Longrightarrow> entry_wf h v"
    and "map_of c k = Some (Many d) \<Longrightarrow> map_of d i = Some b \<Longrightarrow> kb_block_id (h b) = i"
proof -
  from assms show "wf_dict c" by (simp add: cache_wf_def)
  from assms show *: "map_of c k = Some v \<Longrightarrow> entry_wf h v" for v by (simp add: cache_wf_def)
  show "map_of c k = Some (Many d) \<Longrightarrow> map_of d i = Some b \<Longrightarrow> kb_block_id (h b) = i"
    using * [of "Many d"] by simp
qed

lemma entry_wf_cong:
  "(\<And>r. kb_block_id (h' r) = kb_block_id (h r)) \<Longrightarrow> entry_wf h' v = entry_wf h v"
  by (cases v) simp_all

lemma cache_wf_cong:
  "(\<And>r. kb_block_id (h' r) = kb_block_id (h r)) \<Longrightarrow> cache_wf h' c = cache_wf h c"
  by (simp only: cache_wf_def entry_wf_cong [of h' h])

lemma cache_wf_update: "cache_wf h c \<Longrightarrow> entry_wf h v \<Longrightarrow> cache_wf h (AList.update k v c)"
  by (simp add: cache_wf_def dict_simps)

lemma cache_wf_delete: "cache_wf h c \<Longrightarrow> cache_wf h (AList.delete k c)"
  by (simp add: cache_wf_def dict_simps)

lemma entry_wf_insert:
  "d = [] \<or> entry_wf h (Many d) \<Longrightarrow> entry_wf h (Many (AList.update (kb_block_id (h b)) b d))"
  by (auto simp: dict_simps)

lemma entry_wf_delete:
  "entry_wf h (Many d) \<Longrightarrow> AList.delete i d \<noteq> [] \<Longrightarrow> entry_wf h (Many (AList.delete i d))"
  by (simp add: dict_simps)

lemma cached_at_insert:
  assumes "cache_wf h c" and "\<And>b'. b' \<in> cached_at c key \<Longrightarrow> kb_block_id (h b') \<noteq> kb_block_id (h b)"
  shows "cached_at (cache_insert h key b c) k =
    (if k = key then insert b (cached_at c key) else cached_at c k)"
proof (cases "map_of c key")
  case None
  then show ?thesis by (simp add: cached_at_def cache_insert_def dict_simps)
next
  case (Some v)
  show ?thesis
  proof (cases v)
    case (Single b0)
    with Some assms(2) have "kb_block_id (h b0) \<noteq> kb_block_id (h b)" by (simp add: cached_at_def)
    with Some Single show ?thesis
      by (auto simp: cached_at_def cache_insert_def dict_simps ran_def)
  next
    case (Many d)
    have "map_of d (kb_block_id (h b)) = None"
    proof (rule ccontr)
      assume "map_of d (kb_block_id (h b)) \<noteq> None"
      then obtain b' where b': "map_of d (kb_block_id (h b)) = Some b'" by blast
      then have "b' \<in> cached_at c key" using Some Many by (auto simp: cached_at_def ran_def)
      with assms(2) cache_wfD(3) [OF assms(1)] Some Many b' show False by blast
    qed
    then have "ran (map_of (AList.update (kb_block_id (h b)) b d)) = insert b (ran (map_of d))"
      by (simp add: update_conv' ran_map_upd)
    with Some Many show ?thesis by (simp add: cached_at_def cache_insert_def dict_simps)
  qed
qed

lemma cache_wf_insert:
  assumes "cache_wf h c"
  shows "cache_wf h (cache_insert h key b c)"
proof (cases "map_of c key")
  case None
  with assms show ?thesis by (simp add: cache_insert_def cache_wf_update)
next
  case (Some v)
  with cache_wfD(2) [OF assms] have "entry_wf h v" by blast
  moreover have "entry_wf h (Many [(kb_block_id (h b0), b0)])" for b0 by simp
  note single = entry_wf_insert [OF disjI2 [OF this], of b]
  ultimately show ?thesis
    using Some cache_wf_update [OF assms single]
    by (cases v) (simp_all add: cache_insert_def cache_wf_update [OF assms] entry_wf_insert
        del: entry_wf.simps(2) AList.update.simps)
qed

lemma ran_map_of_delete:
  assumes "map_of d i = Some b" and "\<And>j. map_of d j = Some b \<Longrightarrow> j = i"
  shows "ran (map_of (AList.delete i d)) = ran (map_of d) - {b}"
proof (intro set_eqI iffI)
  fix x assume "x \<in> ran (map_of (AList.delete i d))"
  then obtain j where "map_of d j = Some x" "j \<noteq> i" by (auto simp: ran_def dict_simps split: if_splits)
  moreover from this have "x \<noteq> b" using assms(2) [of j] by blast
  ultimately show "x \<in> ran (map_of d) - {b}" by (auto simp: ran_def)
next
  fix x assume "x \<in> ran (map_of d) - {b}"
  then obtain j where "map_of d j = Some x" "x \<noteq> b" by (auto simp: ran_def)
  moreover from this assms(1) have "j \<noteq> i" by auto
  ultimately have "map_of (AList.delete i d) j = Some x" by (simp add: dict_simps)
  then show "x \<in> ran (map_of (AList.delete i d))" by (rule ranI)
qed

lemma cache_pop_hit:
  assumes "cache_wf h c" and "b \<in> cached_at c key"
    and "\<And>b'. b' \<in> cached_at c key \<Longrightarrow> kb_block_id (h b') = kb_block_id (h b) \<Longrightarrow> b' = b"
  shows "\<exists>c'. cache_pop h key (kb_block_id (h b)) c = (Some b, c') \<and> cache_wf h c' \<and>
    (\<forall>k. cached_at c' k = (if k = key then cached_at c key - {b} else cached_at c k))"
proof -
  from assms(2) obtain v where v: "map_of c key = Some v"
    by (cases "map_of c key") (auto simp: cached_at_def)
  show ?thesis
  proof (cases v)
    case (Single b0)
    with v assms(2) have "b0 = b" by (simp add: cached_at_def)
    with v Single cache_wf_delete [OF assms(1)] show ?thesis
      by (auto simp: cache_pop_def Let_def cached_at_def dict_simps)
  next
    case (Many d)
    let ?i = "kb_block_id (h b)" and ?d = "AList.delete (kb_block_id (h b)) d"
    from v Many assms(2) obtain i where "map_of d i = Some b" by (auto simp: cached_at_def ran_def)
    with cache_wfD(3) [OF assms(1)] v Many have hit: "map_of d ?i = Some b" by metis
    have ran: "ran (map_of ?d) = ran (map_of d) - {b}"
    proof -
      have "i = ?i" if "map_of d i = Some b" for i
        using that cache_wfD(3) [OF assms(1)] v Many by metis
      with hit show ?thesis by (rule ran_map_of_delete)
    qed
    moreover have "cache_wf h (snd (cache_pop h key ?i c))"
    proof (cases "?d = []")
      case True
      with v Many cache_wf_delete [OF assms(1)] show ?thesis by (simp add: cache_pop_def Let_def)
    next
      case False
      with cache_wfD(2) [OF assms(1) v] Many have "entry_wf h (Many ?d)"
        using entry_wf_delete by blast
      from cache_wf_update [OF cache_wf_delete [OF assms(1)] this] False v Many show ?thesis
        by (simp add: cache_pop_def Let_def)
    qed
    moreover have "fst (cache_pop h key ?i c) = Some b"
      using v Many hit by (simp add: cache_pop_def Let_def)
    moreover have "cached_at (snd (cache_pop h key ?i c)) k =
        (if k = key then cached_at c key - {b} else cached_at c k)" for k
      using v Many ran
      by (cases "?d = []") (simp_all add: cache_pop_def Let_def cached_at_def dict_simps)
    ultimately show ?thesis by (metis prod.collapse)
  qed
qed

lemma get_one_block_spec:
  assumes "cache_wf h c"
  shows "\<exists>b. get_one_block c key = Inr b \<and> (b = None \<longleftrightarrow> cached_at c key = {}) \<and>
    (\<forall>blk. b = Some blk \<longrightarrow> blk \<in> cached_at c key)"
proof (cases "map_of c key")
  case None
  then show ?thesis by (simp add: get_one_block_def cached_at_def)
next
  case (Some v)
  show ?thesis
  proof (cases v)
    case (Single b)
    with Some show ?thesis by (simp add: get_one_block_def cached_at_def)
  next
    case (Many d)
    with cache_wfD(2) [OF assms Some] have "d \<noteq> []" by simp
    then obtain i b d' where "d = (i, b) # d'" by (metis neq_Nil_conv surj_pair)
    with Some Many show ?thesis by (auto simp: get_one_block_def cached_at_def ran_def)
  qed
qed

subsection \<open>Writes to a block\<close>

lemma set_ref_cnt_simps [simp]:
  "nxt (set_ref_cnt r v h) s = nxt h s" "prv (set_ref_cnt r v h) s = prv h s"
  "kb_ref_cnt (set_ref_cnt r v h s) = (if s = r then v else kb_ref_cnt (h s))"
  "kb_block_hash (set_ref_cnt r v h s) = kb_block_hash (h s)"
  "kb_is_null (set_ref_cnt r v h s) = kb_is_null (h s)"
  "kb_block_id (set_ref_cnt r v h s) = kb_block_id (h s)"
  by (simp_all add: set_ref_cnt_def)

lemma put_hash_simps [simp]:
  "nxt (put_hash r v' h) s = nxt h s" "prv (put_hash r v' h) s = prv h s"
  "kb_ref_cnt (put_hash r v' h s) = kb_ref_cnt (h s)"
  "kb_block_hash (put_hash r v' h s) = (if s = r then v' else kb_block_hash (h s))"
  "kb_is_null (put_hash r v' h s) = kb_is_null (h s)"
  "kb_block_id (put_hash r v' h s) = kb_block_id (h s)"
  by (simp_all add: put_hash_def)

lemma map_heap_simps [simp]:
  "heap_of (map_heap f p) = f (heap_of p)"
  "fq_num_free_blocks (bp_free_block_queue (map_heap f p)) = fq_num_free_blocks (bp_free_block_queue p)"
  "bp_num_gpu_blocks (map_heap f p) = bp_num_gpu_blocks p"
  "bp_enable_caching (map_heap f p) = bp_enable_caching p"
  "bp_cached_block_hash_to_block (map_heap f p) = bp_cached_block_hash_to_block p"
  "bp_null_block (map_heap f p) = bp_null_block p"
  "bp_enable_kv_cache_events (map_heap f p) = bp_enable_kv_cache_events p"
  "bp_kv_event_queue (map_heap f p) = bp_kv_event_queue p"
  by (simp_all add: map_heap_def)

lemma queue_rep_cong:
  assumes "queue_rep q xs" and "fq_num_free_blocks q' = fq_num_free_blocks q"
    and "\<And>r. nxt (fq_heap q') r = nxt (fq_heap q) r" and "\<And>r. prv (fq_heap q') r = prv (fq_heap q) r"
  shows "queue_rep q' xs"
proof -
  have "dseg (fq_heap q') Head (map Blk xs) Tail"
    using queue_repD(1) [OF assms(1)] by (rule dseg_cong) (simp_all add: assms)
  with assms show ?thesis by (simp add: queue_rep_def)
qed

lemma queue_rep_map_heap:
  assumes "queue_rep (bp_free_block_queue p) xs"
    and "\<And>r. nxt (f (heap_of p)) r = nxt (heap_of p) r" and "\<And>r. prv (f (heap_of p)) r = prv (heap_of p) r"
  shows "queue_rep (bp_free_block_queue (map_heap f p)) xs"
  using assms(1) by (rule queue_rep_cong) (simp_all add: assms)

subsection \<open>The invariant of the pool\<close>

abbreviation ref_of :: "block_pool \<Rightarrow> nat \<Rightarrow> int" where
  "ref_of p i \<equiv> kb_ref_cnt (heap_of p (Blk i))"

abbreviation hash_of :: "block_pool \<Rightarrow> nat \<Rightarrow> bytes option" where
  "hash_of p i \<equiv> kb_block_hash (heap_of p (Blk i))"

definition usable :: "block_pool \<Rightarrow> nat \<Rightarrow> bool" where
  "usable p i \<longleftrightarrow> 0 < i \<and> i < bp_num_gpu_blocks p"

definition cache_ok :: "block_pool \<Rightarrow> bool" where
  "cache_ok p \<longleftrightarrow> cache_wf (heap_of p) (bp_cached_block_hash_to_block p) \<and>
     (\<forall>k r. r \<in> cached_at (bp_cached_block_hash_to_block p) k \<longleftrightarrow> kb_block_hash (heap_of p r) = Some k) \<and>
     (\<forall>r k. kb_block_hash (heap_of p r) = Some k \<longrightarrow>
        bp_enable_caching p \<and> (\<exists>i. r = Blk i \<and> usable p i))"

definition labels_ok :: "block_pool \<Rightarrow> bool" where
  "labels_ok p \<longleftrightarrow> 0 < bp_num_gpu_blocks p \<and> bp_null_block p = Blk 0 \<and>
     (\<forall>i. kb_block_id (heap_of p (Blk i)) = int i) \<and> (\<forall>i. kb_is_null (heap_of p (Blk i)) \<longleftrightarrow> i = 0)"

definition counts_ok :: "block_pool \<Rightarrow> nat list \<Rightarrow> bool" where
  "counts_ok p xs \<longleftrightarrow> (\<forall>i. i \<in> set xs \<longrightarrow> usable p i) \<and>
     (\<forall>i. usable p i \<longrightarrow> ref_of p i \<ge> 0 \<and> (i \<in> set xs \<longleftrightarrow> ref_of p i = 0))"

definition pool_rep :: "block_pool \<Rightarrow> nat list \<Rightarrow> bool" where
  "pool_rep p xs \<longleftrightarrow> queue_rep (bp_free_block_queue p) xs \<and> labels_ok p \<and> counts_ok p xs \<and> cache_ok p"

definition pool_inv :: "block_pool \<Rightarrow> bool" where
  "pool_inv p \<longleftrightarrow> (\<exists>xs. pool_rep p xs)"

definition same_config :: "block_pool \<Rightarrow> block_pool \<Rightarrow> bool" where
  "same_config p p' \<longleftrightarrow> bp_num_gpu_blocks p' = bp_num_gpu_blocks p \<and>
     bp_enable_caching p' = bp_enable_caching p \<and> bp_null_block p' = bp_null_block p \<and>
     bp_enable_kv_cache_events p' = bp_enable_kv_cache_events p"

lemma same_config_refl [simp]: "same_config p p"
  by (simp add: same_config_def)

lemma same_config_trans: "same_config p q \<Longrightarrow> same_config q r \<Longrightarrow> same_config p r"
  by (simp add: same_config_def)

lemma same_config_usable: "same_config p p' \<Longrightarrow> usable p' i = usable p i"
  by (simp add: same_config_def usable_def)

lemma payload_eqD:
  assumes "payload h' = payload h"
  shows "kb_block_id (h' r) = kb_block_id (h r)" "kb_ref_cnt (h' r) = kb_ref_cnt (h r)"
    "kb_block_hash (h' r) = kb_block_hash (h r)" "kb_is_null (h' r) = kb_is_null (h r)"
  using fun_cong [OF assms, of r] by (simp_all add: payload_def)

lemma cache_ok_cong:
  assumes "same_config p p'" and "bp_cached_block_hash_to_block p' = bp_cached_block_hash_to_block p"
    and "\<And>r. kb_block_id (heap_of p' r) = kb_block_id (heap_of p r)"
    and "\<And>r. kb_block_hash (heap_of p' r) = kb_block_hash (heap_of p r)"
  shows "cache_ok p' = cache_ok p"
  using assms(1,2) cache_wf_cong [of "heap_of p'" "heap_of p", OF assms(3)]
  unfolding cache_ok_def assms(4) same_config_usable [OF assms(1)] by (simp add: same_config_def)

lemma labels_ok_cong:
  assumes "same_config p p'"
    and "\<And>r. kb_block_id (heap_of p' r) = kb_block_id (heap_of p r)"
    and "\<And>r. kb_is_null (heap_of p' r) = kb_is_null (heap_of p r)"
  shows "labels_ok p' = labels_ok p"
  using assms by (simp add: labels_ok_def same_config_def)

lemma set_queue_ok:
  assumes "payload (fq_heap q) = payload (heap_of p)"
  shows "cache_ok (p\<lparr>bp_free_block_queue := q\<rparr>) = cache_ok p"
    and "labels_ok (p\<lparr>bp_free_block_queue := q\<rparr>) = labels_ok p"
    and "same_config p (p\<lparr>bp_free_block_queue := q\<rparr>)"
proof -
  let ?p = "p\<lparr>bp_free_block_queue := q\<rparr>"
  show sc: "same_config p ?p" by (simp add: same_config_def)
  show "cache_ok ?p = cache_ok p"
    by (rule cache_ok_cong [OF sc]) (simp_all add: payload_eqD [OF assms])
  show "labels_ok ?p = labels_ok p"
    by (rule labels_ok_cong [OF sc]) (simp_all add: payload_eqD [OF assms])
qed

lemma ref_change_ok:
  assumes "p' = map_heap (\<lambda>h. set_ref_cnt b v h) p"
  shows "cache_ok p' = cache_ok p" and "labels_ok p' = labels_ok p" and "same_config p p'"
proof -
  show sc: "same_config p p'" by (simp add: same_config_def assms)
  show "cache_ok p' = cache_ok p" by (rule cache_ok_cong [OF sc]) (simp_all add: assms)
  show "labels_ok p' = labels_ok p" by (rule labels_ok_cong [OF sc]) (simp_all add: assms)
qed

lemma incr_ref_ok:
  "cache_ok (incr_ref b p) = cache_ok p" "labels_ok (incr_ref b p) = labels_ok p"
  "same_config p (incr_ref b p)"
  using ref_change_ok [of "incr_ref b p" b "kb_ref_cnt (heap_of p b) + 1" p]
  by (simp_all add: incr_ref_def map_heap_def)

lemma decr_ref_ok:
  "cache_ok (decr_ref b p) = cache_ok p" "labels_ok (decr_ref b p) = labels_ok p"
  "same_config p (decr_ref b p)"
  using ref_change_ok [of "decr_ref b p" b "kb_ref_cnt (heap_of p b) - 1" p]
  by (simp_all add: decr_ref_def map_heap_def)

text \<open>Links that an operation on the payload leaves alone.\<close>

definition same_links :: "block_pool \<Rightarrow> block_pool \<Rightarrow> bool" where
  "same_links p p' \<longleftrightarrow> (\<forall>r. nxt (heap_of p') r = nxt (heap_of p) r \<and> prv (heap_of p') r = prv (heap_of p) r) \<and>
     fq_num_free_blocks (bp_free_block_queue p') = fq_num_free_blocks (bp_free_block_queue p)"

lemma same_links_refl [simp]: "same_links p p"
  by (simp add: same_links_def)

lemma same_links_trans: "same_links p q \<Longrightarrow> same_links q r \<Longrightarrow> same_links p r"
  by (simp add: same_links_def)

lemma same_links_ref [simp]: "same_links p (incr_ref b p)" "same_links p (decr_ref b p)"
  by (simp_all add: same_links_def incr_ref_def decr_ref_def)

lemma same_links_rep:
  "queue_rep (bp_free_block_queue p) xs \<Longrightarrow> same_links p p' \<Longrightarrow> queue_rep (bp_free_block_queue p') xs"
  by (erule queue_rep_cong) (simp_all add: same_links_def)

subsection \<open>Eviction\<close>

lemma cached_id_unique:
  assumes "cache_ok p" and "labels_ok p" and "r \<in> cached_at (bp_cached_block_hash_to_block p) k"
    and "kb_block_id (heap_of p r) = kb_block_id (heap_of p (Blk i))"
  shows "r = Blk i"
proof -
  from assms(1,3) obtain j where "r = Blk j" by (auto simp: cache_ok_def)
  with assms(2,4) show ?thesis by (simp add: labels_ok_def)
qed

lemma evict_spec:
  assumes "cache_ok p" and "labels_ok p" and "p' = snd (maybe_evict_cached_block u (Blk i) p)"
  shows "cache_ok p'" and "labels_ok p'" and "same_config p p'" and "same_links p p'"
    and "hash_of p' i = None" and "\<And>j. j \<noteq> i \<Longrightarrow> hash_of p' j = hash_of p j"
    and "\<And>r. kb_ref_cnt (heap_of p' r) = kb_ref_cnt (heap_of p r)"
proof -
  let ?c = "bp_cached_block_hash_to_block p"
  have "cache_ok p' \<and> labels_ok p' \<and> same_config p p' \<and> same_links p p' \<and> hash_of p' i = None \<and>
    (\<forall>j. j \<noteq> i \<longrightarrow> hash_of p' j = hash_of p j) \<and>
    (\<forall>r. kb_ref_cnt (heap_of p' r) = kb_ref_cnt (heap_of p r))"
  proof (cases "hash_of p i")
    case None
    with assms show ?thesis by (simp add: maybe_evict_cached_block_def)
  next
    case (Some key)
    from assms(1) have wf: "cache_wf (heap_of p) ?c"
      and iff: "\<And>k r. r \<in> cached_at ?c k \<longleftrightarrow> kb_block_hash (heap_of p r) = Some k"
      and dom: "\<And>r k. kb_block_hash (heap_of p r) = Some k \<Longrightarrow>
        bp_enable_caching p \<and> (\<exists>i. r = Blk i \<and> usable p i)"
      by (auto simp: cache_ok_def)
    from Some iff have hit: "Blk i \<in> cached_at ?c key" by simp
    have uniq: "\<And>b'. b' \<in> cached_at ?c key \<Longrightarrow>
        kb_block_id (heap_of p b') = kb_block_id (heap_of p (Blk i)) \<Longrightarrow> b' = Blk i"
      using cached_id_unique [OF assms(1,2)] by blast
    obtain c' where pop: "cache_pop (heap_of p) key (kb_block_id (heap_of p (Blk i))) ?c = (Some (Blk i), c')"
      and wf': "cache_wf (heap_of p) c'"
      and at: "\<And>k. cached_at c' k = (if k = key then cached_at ?c key - {Blk i} else cached_at ?c k)"
      using cache_pop_hit [OF wf hit uniq] by blast
    let ?q = "map_heap (reset_hash (Blk i)) (p\<lparr>bp_cached_block_hash_to_block := c'\<rparr>)"
    have p': "heap_of p' = put_hash (Blk i) None (heap_of p)" "bp_cached_block_hash_to_block p' = c'"
        "same_config p p'" "same_links p p'"
      using assms(3) Some pop
      by (auto simp: maybe_evict_cached_block_def Let_def reset_hash_def same_config_def same_links_def)
    have lab: "labels_ok p'" using labels_ok_cong [OF p'(3)] p'(1) assms(2) by simp
    have "r \<in> cached_at c' k \<longleftrightarrow> kb_block_hash (heap_of p' r) = Some k" for k r
      unfolding at p'(1) using iff Some by auto
    moreover have "cache_wf (heap_of p') c'" using wf' cache_wf_cong [of "heap_of p'" "heap_of p"] p'(1) by simp
    moreover have "bp_enable_caching p' \<and> (\<exists>i. r = Blk i \<and> usable p' i)"
      if "kb_block_hash (heap_of p' r) = Some k" for r k
      using that dom [of r k] p'(1,3) same_config_usable [OF p'(3)]
      by (simp add: same_config_def split: if_splits)
    ultimately have "cache_ok p'" unfolding cache_ok_def p'(2) by blast
    with lab p' show ?thesis by simp
  qed
  then show "cache_ok p'" and "labels_ok p'" and "same_config p p'" and "same_links p p'"
    and "hash_of p' i = None" and "\<And>j. j \<noteq> i \<Longrightarrow> hash_of p' j = hash_of p j"
    and "\<And>r. kb_ref_cnt (heap_of p' r) = kb_ref_cnt (heap_of p r)" by blast+
qed

subsection \<open>Allocation\<close>

lemma take_blocks_loop_spec:
  assumes "cache_ok p" and "labels_ok p" and "distinct js" and "\<And>j. j \<in> set js \<Longrightarrow> ref_of p j = 0"
  shows "\<exists>p'. take_blocks_loop u (map Blk js) p = Inr p' \<and> cache_ok p' \<and> labels_ok p' \<and>
    same_config p p' \<and> same_links p p' \<and>
    (\<forall>i. ref_of p' i = (if i \<in> set js then 1 else ref_of p i)) \<and>
    (\<forall>i. hash_of p' i = (if i \<in> set js then None else hash_of p i))"
  using assms
proof (induction js arbitrary: p)
  case Nil
  then show ?case by simp
next
  case (Cons j js)
  define p1 where "p1 = (if bp_enable_caching p then snd (maybe_evict_cached_block u (Blk j) p) else p)"
  have nohash: "hash_of p i = None" if "\<not> bp_enable_caching p" for i
    using Cons.prems(1) that by (cases "hash_of p i") (auto simp: cache_ok_def)
  have p1: "cache_ok p1" "labels_ok p1" "same_config p p1" "same_links p p1" "hash_of p1 j = None"
    "\<And>i. i \<noteq> j \<Longrightarrow> hash_of p1 i = hash_of p i" "\<And>r. kb_ref_cnt (heap_of p1 r) = kb_ref_cnt (heap_of p r)"
    using evict_spec [OF Cons.prems(1,2), of _ u j] Cons.prems(1,2) nohash by (auto simp: p1_def)
  let ?p2 = "incr_ref (Blk j) p1"
  have ref2: "ref_of ?p2 i = (if i = j then 1 else ref_of p i)" for i
    using Cons.prems(4) [of j] p1(7) by (simp add: incr_ref_def)
  have hash2: "hash_of ?p2 i = (if i = j then None else hash_of p i)" for i
    using p1(5,6) by (simp add: incr_ref_def)
  have "\<exists>p'. take_blocks_loop u (map Blk js) ?p2 = Inr p' \<and> cache_ok p' \<and> labels_ok p' \<and>
      same_config ?p2 p' \<and> same_links ?p2 p' \<and>
      (\<forall>i. ref_of p' i = (if i \<in> set js then 1 else ref_of ?p2 i)) \<and>
      (\<forall>i. hash_of p' i = (if i \<in> set js then None else hash_of ?p2 i))"
    by (rule Cons.IH) (use Cons.prems p1 ref2 in \<open>auto simp: incr_ref_ok\<close>)
  then obtain p' where p': "take_blocks_loop u (map Blk js) ?p2 = Inr p'" "cache_ok p'" "labels_ok p'"
      "same_config ?p2 p'" "same_links ?p2 p'"
      "\<forall>i. ref_of p' i = (if i \<in> set js then 1 else ref_of ?p2 i)"
      "\<forall>i. hash_of p' i = (if i \<in> set js then None else hash_of ?p2 i)" by blast
  have "take_blocks_loop u (map Blk (j # js)) p = Inr p'"
    using p'(1) p1(7) Cons.prems(4) [of j] by (simp add: p1_def [symmetric])
  moreover have "same_config p p'" "same_links p p'"
    using p1(3,4) p'(4,5) incr_ref_ok(3) same_config_trans same_links_trans same_links_ref(1) by blast+
  ultimately show ?case using p' ref2 hash2 by auto
qed

lemma get_new_blocks_spec:
  assumes "pool_rep p xs" and "n \<le> length xs"
  shows "\<exists>p'. get_new_blocks u (int n) p = Inr (map Blk (take n xs), p') \<and> pool_rep p' (drop n xs) \<and>
    same_config p p' \<and>
    (\<forall>i. ref_of p' i = (if i \<in> set (take n xs) then 1 else ref_of p i)) \<and>
    (\<forall>i. hash_of p' i = (if i \<in> set (take n xs) then None else hash_of p i))"
proof -
  from assms(1) have q: "queue_rep (bp_free_block_queue p) xs" and lab: "labels_ok p"
    and cnt: "counts_ok p xs" and cok: "cache_ok p" by (simp_all add: pool_rep_def)
  obtain q' where pop: "popleft_n (int n) (bp_free_block_queue p) = Inr (map Blk (take n xs), q')"
    and q': "queue_rep q' (drop n xs)" "payload (fq_heap q') = payload (heap_of p)"
    using fq.pop_n_ok [OF q assms(2)] by blast
  let ?p1 = "p\<lparr>bp_free_block_queue := q'\<rparr>"
  have dist: "distinct xs" using fq.rep_distinct [OF q] .
  have ref0: "ref_of ?p1 j = 0" if "j \<in> set (take n xs)" for j
    using that cnt payload_eqD(2) [OF q'(2)] in_set_takeD [OF that] by (auto simp: counts_ok_def)
  have "\<exists>p'. take_blocks_loop u (map Blk (take n xs)) ?p1 = Inr p' \<and> cache_ok p' \<and> labels_ok p' \<and>
    same_config ?p1 p' \<and> same_links ?p1 p' \<and>
    (\<forall>i. ref_of p' i = (if i \<in> set (take n xs) then 1 else ref_of ?p1 i)) \<and>
    (\<forall>i. hash_of p' i = (if i \<in> set (take n xs) then None else hash_of ?p1 i))"
    by (rule take_blocks_loop_spec)
      (use cok lab dist ref0 in \<open>simp_all add: set_queue_ok [OF q'(2)]\<close>)
  then obtain p' where p': "take_blocks_loop u (map Blk (take n xs)) ?p1 = Inr p'" "cache_ok p'" "labels_ok p'"
      "same_config ?p1 p'" "same_links ?p1 p'"
      and ref: "\<And>i. ref_of p' i = (if i \<in> set (take n xs) then 1 else ref_of p i)"
      and hash: "\<And>i. hash_of p' i = (if i \<in> set (take n xs) then None else hash_of p i)"
    using payload_eqD [OF q'(2)] by auto
  have sc: "same_config p p'" using p'(4) by (simp add: same_config_def)
  have "queue_rep (bp_free_block_queue p') (drop n xs)" using same_links_rep [OF _ p'(5)] q'(1) by simp
  moreover have mem: "i \<in> set (drop n xs) \<longleftrightarrow> i \<in> set xs \<and> i \<notin> set (take n xs)" for i
    using distinct_take_drop_disjoint [OF dist, of n] set_take_Un_drop [of n xs] by blast
  have "counts_ok p' (drop n xs)"
    using cnt unfolding counts_ok_def same_config_usable [OF sc] ref mem by simp
  ultimately have "pool_rep p' (drop n xs)" using p' by (simp add: pool_rep_def)
  moreover have "get_new_blocks u (int n) p = Inr (map Blk (take n xs), p')"
    using assms(2) fq.rep_size [OF q] pop p'(1) by (simp add: get_new_blocks_def get_num_free_blocks_def)
  ultimately show ?thesis using sc ref hash by blast
qed

subsection \<open>Touching and freeing\<close>

lemma counts_okD:
  assumes "counts_ok p xs"
  shows "i \<in> set xs \<Longrightarrow> usable p i" and "usable p i \<Longrightarrow> ref_of p i \<ge> 0"
    and "usable p i \<Longrightarrow> i \<in> set xs \<longleftrightarrow> ref_of p i = 0"
  using assms unfolding counts_ok_def by blast+

lemma pool_repD:
  assumes "pool_rep p xs"
  shows "queue_rep (bp_free_block_queue p) xs" "labels_ok p" "counts_ok p xs" "cache_ok p" "distinct xs"
  using assms fq.rep_distinct by (auto simp: pool_rep_def)

lemma incr_ref_simps [simp]:
  "ref_of (incr_ref (Blk j) p) i = (if i = j then ref_of p j + 1 else ref_of p i)"
  "kb_block_hash (heap_of (incr_ref b p) r) = kb_block_hash (heap_of p r)"
  by (simp_all add: incr_ref_def)

lemma touch_one:
  assumes "pool_rep p xs" and "usable p j"
  shows "\<exists>p'. touch_loop [Blk j] p = Inr p' \<and> pool_rep p' (filter (\<lambda>i. i \<noteq> j) xs) \<and> same_config p p' \<and>
    (\<forall>i. ref_of p' i = ref_of p i + (if i = j then 1 else 0)) \<and> (\<forall>i. hash_of p' i = hash_of p i)"
proof -
  note rep = pool_repD [OF assms(1)]
  have notnull: "\<not> kb_is_null (heap_of p (Blk j))" using rep(2) assms(2) by (simp add: labels_ok_def usable_def)
  have ge: "ref_of p j \<ge> 0" and mem: "j \<in> set xs \<longleftrightarrow> ref_of p j = 0"
    using rep(3) assms(2) by (auto simp: counts_ok_def)
  have "\<exists>p1. touch_loop [Blk j] p = Inr (incr_ref (Blk j) p1) \<and> cache_ok p1 \<and> labels_ok p1 \<and>
    same_config p p1 \<and> queue_rep (bp_free_block_queue p1) (filter (\<lambda>i. i \<noteq> j) xs) \<and>
    payload (heap_of p1) = payload (heap_of p)"
  proof (cases "j \<in> set xs")
    case True
    from fq.rem_mem [OF rep(1) True] obtain q where q: "fq_remove (Blk j) (bp_free_block_queue p) = Inr q"
      "queue_rep q (remove1 j xs)" "payload (fq_heap q) = payload (heap_of p)" by blast
    have "remove1 j xs = filter (\<lambda>i. i \<noteq> j) xs"
      using rep(5) by (simp add: distinct_remove1_removeAll removeAll_filter_not_eq conj_commute eq_commute)
    with q True mem notnull rep set_queue_ok [OF q(3)] show ?thesis
      by (intro exI [of _ "p\<lparr>bp_free_block_queue := q\<rparr>"]) simp
  next
    case False
    then have "filter (\<lambda>i. i \<noteq> j) xs = xs" by (auto simp: filter_id_conv)
    with False mem rep show ?thesis by (intro exI [of _ p]) simp
  qed
  then obtain p1 where p1: "touch_loop [Blk j] p = Inr (incr_ref (Blk j) p1)" "cache_ok p1" "labels_ok p1"
    "same_config p p1" "queue_rep (bp_free_block_queue p1) (filter (\<lambda>i. i \<noteq> j) xs)"
    "payload (heap_of p1) = payload (heap_of p)" by blast
  let ?p' = "incr_ref (Blk j) p1"
  note pay = payload_eqD [OF p1(6)]
  have sc: "same_config p ?p'" using p1(4) incr_ref_ok(3) same_config_trans by blast
  have "counts_ok ?p' (filter (\<lambda>i. i \<noteq> j) xs)"
    using rep(3) ge unfolding counts_ok_def same_config_usable [OF sc] by (auto simp: pay)
  moreover have "queue_rep (bp_free_block_queue ?p') (filter (\<lambda>i. i \<noteq> j) xs)"
    using p1(5) same_links_ref(1) by (rule same_links_rep)
  ultimately have "pool_rep ?p' (filter (\<lambda>i. i \<noteq> j) xs)"
    using p1 by (simp add: pool_rep_def incr_ref_ok)
  with p1(1) sc pay show ?thesis by (intro exI [of _ ?p']) simp
qed

lemma touch_loop_Cons_one: "touch_loop (b # bs) p = ebind (touch_loop [b] p) (touch_loop bs)"
  by (auto simp: ebind_def split: sum.splits)

declare touch_loop.simps(2) [simp del]

lemma touch_loop_spec:
  assumes "pool_rep p xs" and "\<And>j. j \<in> set js \<Longrightarrow> usable p j"
  shows "\<exists>p'. touch_loop (map Blk js) p = Inr p' \<and> pool_rep p' (filter (\<lambda>i. i \<notin> set js) xs) \<and>
    same_config p p' \<and> (\<forall>i. ref_of p' i = ref_of p i + int (count_list js i)) \<and>
    (\<forall>i. hash_of p' i = hash_of p i)"
  using assms
proof (induction js arbitrary: p xs)
  case Nil
  then show ?case by simp
next
  case (Cons j js)
  obtain p1 where p1: "touch_loop [Blk j] p = Inr p1" "pool_rep p1 (filter (\<lambda>i. i \<noteq> j) xs)"
    "same_config p p1" "\<forall>i. ref_of p1 i = ref_of p i + (if i = j then 1 else 0)"
    "\<forall>i. hash_of p1 i = hash_of p i"
    using touch_one [OF Cons.prems(1), of j] Cons.prems(2) by auto
  from Cons.IH [OF p1(2)] Cons.prems(2) same_config_usable [OF p1(3)]
  obtain p' where p': "touch_loop (map Blk js) p1 = Inr p'"
    "pool_rep p' (filter (\<lambda>i. i \<notin> set js) (filter (\<lambda>i. i \<noteq> j) xs))" "same_config p1 p'"
    "\<forall>i. ref_of p' i = ref_of p1 i + int (count_list js i)" "\<forall>i. hash_of p' i = hash_of p1 i" by auto
  have "touch_loop (map Blk (j # js)) p = Inr p'"
    using p1(1) p'(1) by (simp add: touch_loop_Cons_one [of _ "map Blk js"])
  moreover have "filter (\<lambda>i. i \<notin> set (j # js)) xs = filter (\<lambda>i. i \<notin> set js) (filter (\<lambda>i. i \<noteq> j) xs)"
    by (simp add: conj_commute)
  ultimately show ?case
    using p1(4,5) p'(2,4,5) same_config_trans [OF p1(3) p'(3)] by (intro exI [of _ p']) auto
qed

lemma fold_decr_ref:
  "ref_of (fold decr_ref (map Blk js) p) i = ref_of p i - int (count_list js i)"
  "kb_block_hash (heap_of (fold decr_ref bs p) r) = kb_block_hash (heap_of p r)"
  "kb_is_null (heap_of (fold decr_ref bs p) r) = kb_is_null (heap_of p r)"
  "cache_ok (fold decr_ref bs p) = cache_ok p" "labels_ok (fold decr_ref bs p) = labels_ok p"
  "same_config p (fold decr_ref bs p)" "same_links p (fold decr_ref bs p)"
proof -
  show "ref_of (fold decr_ref (map Blk js) p) i = ref_of p i - int (count_list js i)"
    by (induction js arbitrary: p) (auto simp: decr_ref_def)
  show "kb_block_hash (heap_of (fold decr_ref bs p) r) = kb_block_hash (heap_of p r)"
    "kb_is_null (heap_of (fold decr_ref bs p) r) = kb_is_null (heap_of p r)"
    by (induction bs arbitrary: p) (auto simp: decr_ref_def)
  show "cache_ok (fold decr_ref bs p) = cache_ok p" "labels_ok (fold decr_ref bs p) = labels_ok p"
    by (induction bs arbitrary: p) (auto simp: decr_ref_ok)
  show "same_config p (fold decr_ref bs p)"
    by (induction bs arbitrary: p) (auto intro: same_config_trans decr_ref_ok(3))
  show "same_links p (fold decr_ref bs p)"
    by (induction bs arbitrary: p) (auto intro: same_links_trans same_links_ref(2))
qed

lemma count_list_distinct: "distinct js \<Longrightarrow> count_list js i = (if i \<in> set js then 1 else 0)"
  by (induction js) auto

lemma free_blocks_spec:
  assumes "pool_rep p xs" and "distinct js" and "\<And>j. j \<in> set js \<Longrightarrow> usable p j \<and> ref_of p j \<ge> 1"
  shows "\<exists>p'. free_blocks (map Blk js) p = Inr p' \<and>
    pool_rep p' (xs @ filter (\<lambda>j. ref_of p j = 1) js) \<and> same_config p p' \<and>
    (\<forall>i. ref_of p' i = ref_of p i - (if i \<in> set js then 1 else 0)) \<and> (\<forall>i. hash_of p' i = hash_of p i)"
proof -
  note rep = pool_repD [OF assms(1)]
  let ?p1 = "fold decr_ref (map Blk js) p" and ?f = "filter (\<lambda>j. ref_of p j = 1) js"
  have ref1: "ref_of ?p1 i = ref_of p i - (if i \<in> set js then 1 else 0)" for i
    by (simp add: fold_decr_ref(1) count_list_distinct [OF assms(2)])
  have notnull: "\<not> kb_is_null (heap_of p (Blk j))" if "j \<in> set js" for j
    using rep(2) assms(3) [OF that] by (simp add: labels_ok_def usable_def)
  have flt: "filter (\<lambda>b. kb_ref_cnt (heap_of ?p1 b) = 0 \<and> \<not> kb_is_null (heap_of ?p1 b)) (map Blk js) = map Blk ?f"
  proof -
    have "filter (\<lambda>j. ref_of ?p1 j = 0 \<and> \<not> kb_is_null (heap_of ?p1 (Blk j))) js = ?f"
      by (rule filter_cong [OF refl]) (use notnull ref1 in \<open>simp add: fold_decr_ref(3)\<close>)
    then show ?thesis by (simp add: filter_map o_def)
  qed
  have q1: "queue_rep (bp_free_block_queue ?p1) xs" using rep(1) fold_decr_ref(7) by (rule same_links_rep)
  have disj: "set xs \<inter> set ?f = {}" using rep(3) assms(3) by (fastforce simp: counts_ok_def)
  obtain q' where q': "append_n (map Blk ?f) (bp_free_block_queue ?p1) = Inr q'" "queue_rep q' (xs @ ?f)"
    "payload (fq_heap q') = payload (heap_of ?p1)"
    using fq.app_n_ok [OF q1 _ disj] assms(2) by auto
  let ?p' = "?p1\<lparr>bp_free_block_queue := q'\<rparr>"
  note pay = payload_eqD [OF q'(3)]
  have sc: "same_config p ?p'"
    using set_queue_ok(3) [OF q'(3)] fold_decr_ref(6) same_config_trans by blast
  have ref': "ref_of ?p' i = ref_of p i - (if i \<in> set js then 1 else 0)" for i using pay ref1 by simp
  have "counts_ok ?p' (xs @ ?f)"
    using rep(3) assms(3) unfolding counts_ok_def same_config_usable [OF sc] ref' by fastforce
  then have "pool_rep ?p' (xs @ ?f)"
    using q'(2) rep set_queue_ok [OF q'(3)] by (simp add: pool_rep_def fold_decr_ref)
  moreover have "free_blocks (map Blk js) p = Inr ?p'"
    using q'(1) by (simp add: free_blocks_def Let_def flt)
  ultimately show ?thesis using sc ref' pay by (intro exI [of _ ?p']) (simp add: fold_decr_ref)
qed

subsection \<open>Start and reset\<close>

lemma init_block_pool_rep:
  assumes "0 < n"
  shows "\<exists>p. init_block_pool n caching events = Inr p \<and> pool_rep p [1..<n] \<and> bp_num_gpu_blocks p = n \<and>
    bp_enable_caching p = caching \<and> (\<forall>i. ref_of p i = 0)"
proof -
  let ?q0 = "init_free_queue [0..<n] initial_heap"
  have q0: "queue_rep ?q0 (0 # [1..<n])" "payload (fq_heap ?q0) = payload initial_heap"
    using rep_init [of "[0..<n]" initial_heap] assms
    by (auto simp: initial_heap_def new_block_def upt_conv_Cons split: blkref.splits)
  obtain q where q: "popleft ?q0 = Inr (Blk 0, q)" "queue_rep q [1..<n]"
    "payload (fq_heap q) = payload initial_heap"
    using rep_popleft_Cons [OF q0(1)] q0(2) by auto
  let ?p = "\<lparr>bp_num_gpu_blocks = n, bp_enable_caching = caching,
            bp_free_block_queue = q\<lparr>fq_heap := set_is_null (Blk 0) (fq_heap q)\<rparr>,
            bp_cached_block_hash_to_block = [], bp_null_block = Blk 0,
            bp_enable_kv_cache_events = events, bp_kv_event_queue = []\<rparr>"
  have heap: "kb_block_id (heap_of ?p (Blk i)) = int i" "kb_is_null (heap_of ?p (Blk i)) \<longleftrightarrow> i = 0"
    "ref_of ?p i = 0" "kb_block_hash (heap_of ?p r) = None" for i r
    using payload_eqD [OF q(3)]
    by (auto simp: set_is_null_def initial_heap_def new_block_def split: blkref.splits)
  have "queue_rep (bp_free_block_queue ?p) [1..<n]"
    using q(2) by (rule queue_rep_cong) (auto simp: set_is_null_def)
  moreover have "cache_ok ?p" unfolding cache_ok_def heap(4) by (simp add: cache_wf_def cached_at_def)
  moreover have "counts_ok ?p [1..<n]" unfolding counts_ok_def heap(3) by (auto simp: usable_def)
  moreover have "labels_ok ?p" unfolding labels_ok_def heap(1,2) using assms by simp
  ultimately have "pool_rep ?p [1..<n]" by (simp only: pool_rep_def)
  moreover have "init_block_pool n caching events = Inr ?p"
    using q(1) assms by (simp add: init_block_pool_def)
  ultimately show ?thesis using heap(3) by auto
qed

lemma fold_reset_hash:
  "nxt (fold reset_hash bs h) r = nxt h r" "prv (fold reset_hash bs h) r = prv h r"
  "kb_ref_cnt (fold reset_hash bs h r) = kb_ref_cnt (h r)"
  "kb_block_id (fold reset_hash bs h r) = kb_block_id (h r)"
  "kb_is_null (fold reset_hash bs h r) = kb_is_null (h r)"
  "kb_block_hash (fold reset_hash bs h r) = (if r \<in> set bs then None else kb_block_hash (h r))"
  by (induction bs arbitrary: h) (auto simp: reset_hash_def)

lemma free_count:
  assumes "pool_rep p xs"
  shows "get_num_free_blocks p = int (length xs)" and "length xs \<le> bp_num_gpu_blocks p - 1"
    and "length xs = bp_num_gpu_blocks p - 1 \<longleftrightarrow> (\<forall>i. usable p i \<longrightarrow> i \<in> set xs)"
proof -
  note rep = pool_repD [OF assms]
  show "get_num_free_blocks p = int (length xs)"
    using fq.rep_size [OF rep(1)] by (simp add: get_num_free_blocks_def)
  have sub: "set xs \<subseteq> {0<..<bp_num_gpu_blocks p}" using counts_okD(1) [OF rep(3)] unfolding usable_def by auto
  have card: "card (set xs) = length xs" using rep(5) by (rule distinct_card)
  show "length xs \<le> bp_num_gpu_blocks p - 1"
    using card_mono [OF _ sub] card by simp
  show "length xs = bp_num_gpu_blocks p - 1 \<longleftrightarrow> (\<forall>i. usable p i \<longrightarrow> i \<in> set xs)"
  proof
    assume "length xs = bp_num_gpu_blocks p - 1"
    then have "card (set xs) = card {0<..<bp_num_gpu_blocks p}" using card by simp
    with sub have "set xs = {0<..<bp_num_gpu_blocks p}" by (intro card_subset_eq) simp_all
    then show "\<forall>i. usable p i \<longrightarrow> i \<in> set xs" by (auto simp: usable_def)
  next
    assume "\<forall>i. usable p i \<longrightarrow> i \<in> set xs"
    with sub have "set xs = {0<..<bp_num_gpu_blocks p}" by (auto simp: usable_def)
    with card show "length xs = bp_num_gpu_blocks p - 1" by simp
  qed
qed

lemma reset_prefix_cache_rep:
  assumes "pool_rep p xs" and "reset_prefix_cache p = (ok, p')"
  shows "pool_rep p' xs" and "same_config p p'" and "ref_of p' i = ref_of p i"
    and "ok \<longleftrightarrow> (\<forall>i. usable p i \<longrightarrow> ref_of p i = 0)"
    and "ok \<Longrightarrow> hash_of p' i = None" and "\<not> ok \<Longrightarrow> p' = p"
proof -
  note rep = pool_repD [OF assms(1)]
  have pos: "0 < bp_num_gpu_blocks p" using rep(2) by (simp add: labels_ok_def)
  have ok: "ok \<longleftrightarrow> int (bp_num_gpu_blocks p) - get_num_free_blocks p = 1"
    using assms(2) by (auto simp: reset_prefix_cache_def Let_def split: if_splits)
  also have "\<dots> \<longleftrightarrow> length xs = bp_num_gpu_blocks p - 1"
    using free_count(1) [OF assms(1)] pos by auto
  finally have ok': "ok \<longleftrightarrow> length xs = bp_num_gpu_blocks p - 1" .
  then show "ok \<longleftrightarrow> (\<forall>i. usable p i \<longrightarrow> ref_of p i = 0)"
    using free_count(3) [OF assms(1)] rep(3) by (auto simp: counts_ok_def)
  show same: "\<not> ok \<Longrightarrow> p' = p" using ok assms(2) by (simp add: reset_prefix_cache_def split: if_splits)
  have *: "pool_rep p' xs \<and> same_config p p' \<and> ref_of p' i = ref_of p i \<and> hash_of p' i = None" if ok
  proof -
    from that ok assms(2) have p': "bp_cached_block_hash_to_block p' = []" "same_config p p'" "same_links p p'"
      "heap_of p' = fold reset_hash (map Blk [0..<bp_num_gpu_blocks p]) (heap_of p)"
      by (cases "bp_enable_kv_cache_events p"; auto simp: reset_prefix_cache_def Let_def same_config_def
          same_links_def fold_reset_hash)+
    have nohash: "kb_block_hash (heap_of p' r) = None" for r
    proof (cases "kb_block_hash (heap_of p r)")
      case (Some k)
      with rep(4) obtain j where "r = Blk j" "usable p j" by (auto simp: cache_ok_def)
      then show ?thesis unfolding p'(4) fold_reset_hash by (auto simp: usable_def)
    qed (simp add: p'(4) fold_reset_hash)
    then have "cache_ok p'" by (simp add: cache_ok_def p'(1) cache_wf_def cached_at_def)
    moreover have "labels_ok p'" using labels_ok_cong [OF p'(2)] rep(2) by (simp add: p'(4) fold_reset_hash)
    moreover have "counts_ok p' xs"
      using rep(3) unfolding counts_ok_def same_config_usable [OF p'(2)] by (simp add: p'(4) fold_reset_hash)
    ultimately show ?thesis
      using same_links_rep [OF rep(1) p'(3)] p'(2) nohash
      by (simp add: pool_rep_def p'(4) fold_reset_hash(3))
  qed
  show "pool_rep p' xs" "same_config p p'" "ref_of p' i = ref_of p i"
    using * same assms(1) by (cases ok; simp)+
  show "ok \<Longrightarrow> hash_of p' i = None" using * by blast
qed

subsection \<open>Caching full blocks\<close>

lemma cache_one:
  assumes "cache_ok p" and "labels_ok p" and "usable p j" and "bp_enable_caching p" and "hash_of p j = None"
    and "p' = map_heap (\<lambda>_. put_hash (Blk j) (Some key) (heap_of p)) p
           \<lparr>bp_cached_block_hash_to_block := cache_insert (put_hash (Blk j) (Some key) (heap_of p)) key (Blk j)
              (bp_cached_block_hash_to_block p)\<rparr>"
  shows "cache_ok p'" and "labels_ok p'" and "same_config p p'" and "same_links p p'"
    and "\<And>i. hash_of p' i = (if i = j then Some key else hash_of p i)"
    and "\<And>r. kb_ref_cnt (heap_of p' r) = kb_ref_cnt (heap_of p r)"
proof -
  let ?c = "bp_cached_block_hash_to_block p" and ?h = "put_hash (Blk j) (Some key) (heap_of p)"
  have heap: "heap_of p' = ?h" by (simp add: assms(6) map_heap_def)
  show sc: "same_config p p'" by (simp add: same_config_def assms(6))
  show "same_links p p'" by (simp add: same_links_def assms(6) map_heap_def)
  show "hash_of p' i = (if i = j then Some key else hash_of p i)" for i by (simp add: heap)
  show "kb_ref_cnt (heap_of p' r) = kb_ref_cnt (heap_of p r)" for r by (simp add: heap)
  show "labels_ok p'" using labels_ok_cong [OF sc] assms(2) by (simp add: heap)
  from assms(1) have wf: "cache_wf (heap_of p) ?c"
    and iff: "\<And>k r. r \<in> cached_at ?c k \<longleftrightarrow> kb_block_hash (heap_of p r) = Some k"
    and dom: "\<And>r k. kb_block_hash (heap_of p r) = Some k \<Longrightarrow>
      bp_enable_caching p \<and> (\<exists>i. r = Blk i \<and> usable p i)"
    by (auto simp: cache_ok_def)
  have wf': "cache_wf ?h ?c" using wf cache_wf_cong [of ?h "heap_of p"] by simp
  have new: "kb_block_id (?h b') \<noteq> kb_block_id (?h (Blk j))" if "b' \<in> cached_at ?c key" for b'
    using cached_id_unique [OF assms(1,2) that, of j] that iff assms(5) by auto
  have "r \<in> cached_at (cache_insert ?h key (Blk j) ?c) k \<longleftrightarrow> kb_block_hash (?h r) = Some k" for r k
  proof -
    have "cached_at (cache_insert ?h key (Blk j) ?c) k =
        (if k = key then insert (Blk j) (cached_at ?c key) else cached_at ?c k)"
      by (rule cached_at_insert [OF wf' new])
    then show ?thesis using iff assms(5) by auto
  qed
  moreover have "cache_wf ?h (cache_insert ?h key (Blk j) ?c)" using wf' by (rule cache_wf_insert)
  moreover have "bp_enable_caching p' \<and> (\<exists>i. r = Blk i \<and> usable p' i)" if "kb_block_hash (?h r) = Some k" for r k
    using that dom [of r k] assms(3,4) same_config_usable [OF sc]
    by (simp add: assms(6) split: if_splits)
  moreover have "bp_cached_block_hash_to_block p' = cache_insert ?h key (Blk j) ?c" by (simp add: assms(6))
  ultimately show "cache_ok p'" unfolding cache_ok_def heap by metis
qed

lemma cache_blocks_loop_spec:
  assumes "cache_ok p" and "labels_ok p" and "bp_enable_caching p" and "to_bytes_4 g = Inr gb"
    and "distinct js" and "\<And>j. j \<in> set js \<Longrightarrow> usable p j \<and> hash_of p j = None"
    and "length js \<le> length hs"
  shows "\<exists>nh' p'. cache_blocks_loop u g (map Blk js) hs nh p = Inr (nh', p') \<and> cache_ok p' \<and> labels_ok p' \<and>
    same_config p p' \<and> same_links p p' \<and>
    (\<forall>i. ref_of p' i = ref_of p i) \<and> (\<forall>i. i \<notin> set js \<longrightarrow> hash_of p' i = hash_of p i) \<and>
    map (hash_of p') js = map (\<lambda>h. Some (h @ gb)) (take (length js) hs)"
  using assms
proof (induction js arbitrary: p hs nh)
  case Nil
  then show ?case by simp
next
  case (Cons j js)
  from Cons.prems(7) obtain h hs' where hs: "hs = h # hs'" by (cases hs) auto
  define key where "key = h @ gb"
  have mk: "make_block_hash_with_group_id h g = Inr key"
    using Cons.prems(4) by (simp add: make_block_hash_with_group_id_def key_def)
  define p1 where "p1 = map_heap (\<lambda>_. put_hash (Blk j) (Some key) (heap_of p)) p
           \<lparr>bp_cached_block_hash_to_block := cache_insert (put_hash (Blk j) (Some key) (heap_of p)) key (Blk j)
              (bp_cached_block_hash_to_block p)\<rparr>"
  from Cons.prems(6) have j: "usable p j" "hash_of p j = None" by auto
  note p1 = cache_one [OF Cons.prems(1,2) j(1) Cons.prems(3) j(2) p1_def]
  let ?nh = "if bp_enable_kv_cache_events p then nh @ [maybe_convert_block_hash u h] else nh"
  have "\<exists>nh' p'. cache_blocks_loop u g (map Blk js) hs' ?nh p1 = Inr (nh', p') \<and> cache_ok p' \<and> labels_ok p' \<and>
    same_config p1 p' \<and> same_links p1 p' \<and>
    (\<forall>i. ref_of p' i = ref_of p1 i) \<and> (\<forall>i. i \<notin> set js \<longrightarrow> hash_of p' i = hash_of p1 i) \<and>
    map (hash_of p') js = map (\<lambda>h. Some (h @ gb)) (take (length js) hs')"
    by (rule Cons.IH) (use Cons.prems p1 hs same_config_usable [OF p1(3)] in \<open>auto simp: same_config_def\<close>)
  then obtain nh' p' where p': "cache_blocks_loop u g (map Blk js) hs' ?nh p1 = Inr (nh', p')" "cache_ok p'"
    "labels_ok p'" "same_config p1 p'" "same_links p1 p'" "\<forall>i. ref_of p' i = ref_of p1 i"
    "\<forall>i. i \<notin> set js \<longrightarrow> hash_of p' i = hash_of p1 i"
    "map (hash_of p') js = map (\<lambda>h. Some (h @ gb)) (take (length js) hs')" by blast
  have "cache_blocks_loop u g (map Blk (j # js)) hs nh p = Inr (nh', p')"
    using p'(1) j(2) mk by (simp add: hs set_block_hash_def p1_def)
  moreover have "hash_of p' j = Some key" using p'(7) p1(5) Cons.prems(5) by simp
  moreover have "same_config p p'" "same_links p p'"
    using p1(3,4) p'(4,5) same_config_trans same_links_trans by blast+
  ultimately show ?case using p' p1(5,6) hs key_def by (intro exI [of _ nh'] exI [of _ p']) simp
qed

lemma pool_rep_events: "pool_rep (p\<lparr>bp_kv_event_queue := evs\<rparr>) xs = pool_rep p xs"
  unfolding pool_rep_def labels_ok_def counts_ok_def cache_ok_def usable_def by simp

lemma cache_full_blocks_spec:
  assumes "pool_rep p xs" and "bp_enable_caching p" and "to_bytes_4 g = Inr gb"
    and "num_full \<le> length (rq_block_hashes r)" and "num_full \<le> length js"
    and "distinct (slice num_cached num_full js)"
    and "\<And>j. j \<in> set (slice num_cached num_full js) \<Longrightarrow> usable p j \<and> hash_of p j = None"
    and "0 < num_cached \<Longrightarrow> num_cached < num_full \<Longrightarrow> bp_enable_kv_cache_events p \<Longrightarrow>
      hash_of p (js ! (num_cached - 1)) \<noteq> None"
  shows "\<exists>p'. cache_full_blocks u r (map Blk js) num_cached num_full bs g p = Inr p' \<and> pool_rep p' xs \<and>
    same_config p p' \<and> (\<forall>i. ref_of p' i = ref_of p i) \<and>
    (\<forall>i. i \<notin> set (slice num_cached num_full js) \<longrightarrow> hash_of p' i = hash_of p i) \<and>
    (\<forall>k. num_cached \<le> k \<and> k < num_full \<longrightarrow> hash_of p' (js ! k) = Some (rq_block_hashes r ! k @ gb))"
proof (cases "num_cached \<ge> num_full")
  case True
  with assms(1) show ?thesis by (auto simp: cache_full_blocks_def slice_def)
next
  case False
  note rep = pool_repD [OF assms(1)]
  let ?js = "slice num_cached num_full js" and ?hs = "drop num_cached (rq_block_hashes r)"
  have len: "length ?js = num_full - num_cached" using assms(5) by (simp add: slice_def)
  have "length ?js \<le> length ?hs" using len assms(4) by simp
  from cache_blocks_loop_spec [OF rep(4,2) assms(2,3,6,7) this, of u "[]"]
  obtain nh' p1 where p1: "cache_blocks_loop u g (map Blk ?js) ?hs [] p = Inr (nh', p1)" "cache_ok p1"
    "labels_ok p1" "same_config p p1" "same_links p p1" "\<And>i. ref_of p1 i = ref_of p i"
    "\<And>i. i \<notin> set ?js \<Longrightarrow> hash_of p1 i = hash_of p i"
    and hashes: "map (hash_of p1) ?js = map (\<lambda>h. Some (h @ gb)) (take (length ?js) ?hs)" by blast
  have rep1: "pool_rep p1 xs"
    using p1 rep(3) same_links_rep [OF rep(1) p1(5)]
    by (simp add: pool_rep_def counts_ok_def same_config_usable [OF p1(4)])
  have at: "hash_of p1 (js ! k) = Some (rq_block_hashes r ! k @ gb)" if "num_cached \<le> k" "k < num_full" for k
  proof -
    have "?js ! (k - num_cached) = js ! k" and lt: "k - num_cached < length ?js"
      using that assms(5) len by (simp_all add: slice_def)
    with arg_cong [OF hashes, of "\<lambda>l. l ! (k - num_cached)"] that assms(4) len show ?thesis by simp
  qed
  have par: "hash_of p1 (js ! (num_cached - 1)) \<noteq> None" if "0 < num_cached" "bp_enable_kv_cache_events p"
  proof (cases "js ! (num_cached - 1) \<in> set ?js")
    case True
    then obtain k where "k < length ?js" "?js ! k = js ! (num_cached - 1)" by (meson in_set_conv_nth)
    then have "hash_of p1 (js ! (num_cached - 1)) = map (hash_of p1) ?js ! k" by simp
    then show ?thesis unfolding hashes using \<open>k < length ?js\<close> \<open>length ?js \<le> length ?hs\<close> by simp
  qed (use p1(7) assms(8) that False in simp)
  have ev: "bp_enable_kv_cache_events p1 = bp_enable_kv_cache_events p" using p1(4) by (simp add: same_config_def)
  have "\<exists>evs. cache_full_blocks u r (map Blk js) num_cached num_full bs g p =
      Inr (p1\<lparr>bp_kv_event_queue := evs\<rparr>)"
  proof (cases "bp_enable_kv_cache_events p")
    case True
    have "num_cached - 1 < length js" using False assms(5) by linarith
    with True False assms(4) p1(1) ev par show ?thesis
      by (cases "num_cached = 0") (auto simp: cache_full_blocks_def slice_map)
  next
    case no: False
    with False assms(4) p1(1) ev
    have "cache_full_blocks u r (map Blk js) num_cached num_full bs g p = Inr p1"
      by (simp add: cache_full_blocks_def slice_map)
    then show ?thesis by (intro exI [of _ "bp_kv_event_queue p1"]) simp
  qed
  then obtain evs where res: "cache_full_blocks u r (map Blk js) num_cached num_full bs g p =
      Inr (p1\<lparr>bp_kv_event_queue := evs\<rparr>)" by blast
  let ?p' = "p1\<lparr>bp_kv_event_queue := evs\<rparr>"
  have "pool_rep ?p' xs" using rep1 by (simp add: pool_rep_events)
  moreover have "same_config p ?p'" using p1(4) by (simp add: same_config_def)
  ultimately show ?thesis using res at p1(6,7) by (intro exI [of _ ?p']) simp
qed

subsection \<open>Properties of the pool\<close>

text \<open>A pool of three usable blocks, on which the properties are instantiated.\<close>

definition sample_pool :: block_pool where
  "sample_pool = (case init_block_pool 4 True False of Inr p \<Rightarrow> p | Inl _ \<Rightarrow> undefined)"

lemma sample_pool_rep: "pool_rep sample_pool [1, 2, 3]" and sample_pool_inv: "pool_inv sample_pool"
  and sample_pool_size: "bp_num_gpu_blocks sample_pool = 4"
proof -
  obtain p where p: "init_block_pool 4 True False = Inr p" "pool_rep p [1..<4]" "bp_num_gpu_blocks p = 4"
    using init_block_pool_rep [of 4 True False] by auto
  moreover have "[1..<4] = [1, 2, 3::nat]" by (simp add: upt_rec)
  ultimately show "pool_rep sample_pool [1, 2, 3]" "bp_num_gpu_blocks sample_pool = 4"
    by (simp_all add: sample_pool_def)
  then show "pool_inv sample_pool" by (auto simp: pool_inv_def)
qed

text \<open>Allocation. On a pool that satisfies the invariant, \<open>get_new_blocks\<close> raises \<open>ValueError\<close> exactly when
  more blocks are asked for than are free; otherwise it returns that many distinct, non-null
  blocks that nobody held, each with reference count one and without a hash, leaves all other
  blocks alone, and keeps the invariant.\<close>

lemma get_new_blocks_correct:
  assumes "pool_inv p"
  shows "case get_new_blocks u (int n) p of
      Inl e \<Rightarrow> e = ValueError \<and> get_num_free_blocks p < int n
    | Inr (bs, p') \<Rightarrow> pool_inv p' \<and> get_num_free_blocks p' = get_num_free_blocks p - int n \<and>
        (\<exists>js. bs = map Blk js \<and> length js = n \<and> distinct js \<and>
          (\<forall>j\<in>set js. usable p j \<and> ref_of p j = 0 \<and> ref_of p' j = 1 \<and> hash_of p' j = None) \<and>
          (\<forall>i. i \<notin> set js \<longrightarrow> ref_of p' i = ref_of p i \<and> hash_of p' i = hash_of p i))"
proof -
  from assms obtain xs where rep: "pool_rep p xs" by (auto simp: pool_inv_def)
  show ?thesis
  proof (cases "n \<le> length xs")
    case False
    with free_count(1) [OF rep] show ?thesis by (simp add: get_new_blocks_def)
  next
    case True
    obtain p' where p': "get_new_blocks u (int n) p = Inr (map Blk (take n xs), p')"
      "pool_rep p' (drop n xs)"
      "\<And>i. ref_of p' i = (if i \<in> set (take n xs) then 1 else ref_of p i)"
      "\<And>i. hash_of p' i = (if i \<in> set (take n xs) then None else hash_of p i)"
      using get_new_blocks_spec [OF rep True] by blast
    have "usable p j \<and> ref_of p j = 0" if "j \<in> set (take n xs)" for j
      using counts_okD [OF pool_repD(3) [OF rep]] in_set_takeD [OF that] by blast
    moreover have "get_num_free_blocks p' = get_num_free_blocks p - int n"
      using free_count(1) [OF rep] free_count(1) [OF p'(2)] True by simp
    moreover have "pool_inv p'" using p'(2) by (auto simp: pool_inv_def)
    ultimately show ?thesis
      using p' True pool_repD(5) [OF rep] by (auto intro!: exI [of _ "take n xs"])
  qed
qed

text \<open>Sharing. Touching the blocks of a cached prefix never fails on usable blocks, takes the free
  ones out of the free queue, adds one reference to each, and keeps the invariant; freeing the same
  blocks afterwards gives back the reference counts and the number of free blocks.\<close>

lemma touch_then_free:
  assumes "pool_inv p" and "distinct js" and "\<forall>j\<in>set js. usable p j"
  shows "\<exists>p1 p2. touch [map Blk js] p = Inr p1 \<and> pool_inv p1 \<and>
    (\<forall>i. ref_of p1 i = ref_of p i + (if i \<in> set js then 1 else 0)) \<and>
    free_blocks (rev (map Blk js)) p1 = Inr p2 \<and> pool_inv p2 \<and>
    (\<forall>i. ref_of p2 i = ref_of p i \<and> hash_of p2 i = hash_of p i) \<and>
    get_num_free_blocks p2 = get_num_free_blocks p"
proof -
  from assms(1) obtain xs where rep: "pool_rep p xs" by (auto simp: pool_inv_def)
  note cnt = counts_okD [OF pool_repD(3) [OF rep]]
  obtain p1 where p1: "touch_loop (map Blk js) p = Inr p1" "pool_rep p1 (filter (\<lambda>i. i \<notin> set js) xs)"
    "same_config p p1" "\<And>i. ref_of p1 i = ref_of p i + (if i \<in> set js then 1 else 0)"
    "\<And>i. hash_of p1 i = hash_of p i"
    using touch_loop_spec [OF rep, of js] assms(3) count_list_distinct [OF assms(2)] by auto
  have "usable p1 j \<and> ref_of p1 j \<ge> 1" if "j \<in> set (rev js)" for j
    using that assms(3) cnt(2) [of j] same_config_usable [OF p1(3)] p1(4) by simp
  from free_blocks_spec [OF p1(2), of "rev js"] this assms(2)
  obtain p2 where p2: "free_blocks (map Blk (rev js)) p1 = Inr p2"
    "pool_rep p2 (filter (\<lambda>i. i \<notin> set js) xs @ filter (\<lambda>j. ref_of p1 j = 1) (rev js))"
    "\<And>i. ref_of p2 i = ref_of p1 i - (if i \<in> set (rev js) then 1 else 0)"
    "\<And>i. hash_of p2 i = hash_of p1 i" by auto
  have "set (filter (\<lambda>j. ref_of p1 j = 1) (rev js)) = set (filter (\<lambda>i. i \<in> set js) xs)"
    using assms(3) cnt p1(4) by auto
  then have "length (filter (\<lambda>j. ref_of p1 j = 1) (rev js)) = length (filter (\<lambda>i. i \<in> set js) xs)"
    using assms(2) pool_repD(5) [OF rep] by (metis distinct_card distinct_filter distinct_rev)
  then have "get_num_free_blocks p2 = get_num_free_blocks p"
    using free_count(1) [OF rep] free_count(1) [OF p2(2)]
      sum_length_filter_compl [of "\<lambda>i. i \<in> set js" xs] by simp
  then show ?thesis
    using p1 p2 rep by (auto simp: pool_inv_def rev_map)
qed

end
