(* ===== verification/KV_Manager.thy ===== *)
theory KV_Manager
  imports Block_Pool
begin

text \<open>
  The KV-cache managers: \<open>SingleTypeKVCacheManager\<close> with \<open>FullAttentionManager\<close>
  (\<open>single_type_kv_cache_manager.py\<close>), the coordinators without prefix caching and for a single
  group (\<open>kv_cache_coordinator.py\<close>) and \<open>KVCacheManager\<close> (\<open>kv_cache_manager.py\<close>), under \<open>vllm/v1/core/\<close>.
  Sliding-window, chunked, Mamba and cross-attention managers, the hybrid coordinator and the hit-rate
  statistics are not modelled. The invariant says that the reference count of a block is the
  number of requests that hold it, and that cached blocks of a request carry the hashes of the
  request's prefix; allocation and release keep it.
\<close>

subsection \<open>One attention group\<close>

definition cdiv :: "int \<Rightarrow> int \<Rightarrow> int" where
  "cdiv a b = - (a div (- b))"

record st_manager =
  sm_block_size :: nat
  sm_req_to_blocks :: "(reqid, blkref list) dict"
  sm_num_cached_block :: "(reqid, nat) dict"
  sm_kv_cache_group_id :: int

definition new_st_manager :: "nat \<Rightarrow> int \<Rightarrow> nat \<Rightarrow> st_manager" where
  "new_st_manager block_size group_id dcp_world_size =
     \<lparr>sm_block_size = (if dcp_world_size > 1 then block_size * dcp_world_size else block_size),
      sm_req_to_blocks = [], sm_num_cached_block = [], sm_kv_cache_group_id = group_id\<rparr>"

text \<open>\<open>req_to_blocks\<close> is a \<open>defaultdict(list)\<close>: reading a missing key inserts an empty list.\<close>

definition req_blocks :: "reqid \<Rightarrow> st_manager \<Rightarrow> blkref list \<times> st_manager" where
  "req_blocks rid sm =
     (dget_or (sm_req_to_blocks sm) rid [],
      sm\<lparr>sm_req_to_blocks := dsetdefault (sm_req_to_blocks sm) rid []\<rparr>)"

definition set_req_blocks :: "reqid \<Rightarrow> blkref list \<Rightarrow> st_manager \<Rightarrow> st_manager" where
  "set_req_blocks rid bs sm = sm\<lparr>sm_req_to_blocks := AList.update rid bs (sm_req_to_blocks sm)\<rparr>"

definition sm_get_num_blocks_to_allocate ::
  "reqid \<Rightarrow> int \<Rightarrow> blkref list \<Rightarrow> block_pool \<Rightarrow> st_manager \<Rightarrow> int \<times> st_manager" where
  "sm_get_num_blocks_to_allocate rid ntoks new_computed p sm =
     (let num_required = cdiv ntoks (int (sm_block_size sm));
          (blocks, sm') = req_blocks rid sm;
          num_new = num_required - int (length new_computed) - int (length blocks);
          num_evictable = length (filter (\<lambda>b. kb_ref_cnt (heap_of p b) = 0 \<and> \<not> kb_is_null (heap_of p b)) new_computed)
      in (num_new + int num_evictable, sm'))"

definition sm_save_new_computed_blocks :: "reqid \<Rightarrow> blkref list \<Rightarrow> st_manager \<Rightarrow> st_manager result" where
  "sm_save_new_computed_blocks rid new_computed sm =
     (if map_of (sm_num_cached_block sm) rid = None then
        (case req_blocks rid sm of (blocks, sm') \<Rightarrow>
           ebind (assert_that (length blocks = 0)) (\<lambda>_.
             let sm'' = set_req_blocks rid (blocks @ new_computed) sm' in
             Inr (sm''\<lparr>sm_num_cached_block := AList.update rid (length new_computed) (sm_num_cached_block sm'')\<rparr>)))
      else ebind (assert_that (length new_computed = 0)) (\<lambda>_. Inr sm))"

definition sm_allocate_new_blocks ::
  "bool \<Rightarrow> reqid \<Rightarrow> int \<Rightarrow> block_pool \<Rightarrow> st_manager \<Rightarrow> (blkref list \<times> block_pool \<times> st_manager) result" where
  "sm_allocate_new_blocks use_int rid ntoks p sm =
     (case req_blocks rid sm of (blocks, sm') \<Rightarrow>
        let num_required = cdiv ntoks (int (sm_block_size sm));
            num_new = num_required - int (length blocks)
        in if num_new \<le> 0 then Inr ([], p, sm')
           else ebind (get_new_blocks use_int num_new p) (\<lambda>(new_blocks, p').
             Inr (new_blocks, p', set_req_blocks rid (blocks @ new_blocks) sm')))"

definition sm_cache_blocks ::
  "bool \<Rightarrow> request \<Rightarrow> int \<Rightarrow> block_pool \<Rightarrow> st_manager \<Rightarrow> (block_pool \<times> st_manager) result" where
  "sm_cache_blocks use_int r ntoks p sm =
     (let rid = rq_request_id r;
          num_cached = dget_or (sm_num_cached_block sm) rid 0;
          num_full = ntoks div int (sm_block_size sm)
      in if int num_cached \<ge> num_full then Inr (p, sm)
         else case req_blocks rid sm of (blocks, sm') \<Rightarrow>
           ebind (cache_full_blocks use_int r blocks num_cached (nat num_full) (sm_block_size sm)
                    (sm_kv_cache_group_id sm) p) (\<lambda>p'.
             Inr (p', sm'\<lparr>sm_num_cached_block :=
                        AList.update rid (nat num_full) (sm_num_cached_block sm')\<rparr>)))"

definition sm_free :: "reqid \<Rightarrow> block_pool \<Rightarrow> st_manager \<Rightarrow> (block_pool \<times> st_manager) result" where
  "sm_free rid p sm =
     (let blocks = dget_or (sm_req_to_blocks sm) rid [];
          sm' = sm\<lparr>sm_req_to_blocks := AList.delete rid (sm_req_to_blocks sm)\<rparr>
      in ebind (free_blocks (rev blocks) p) (\<lambda>p'.
           Inr (p', sm'\<lparr>sm_num_cached_block := AList.delete rid (sm_num_cached_block sm')\<rparr>)))"

text \<open>The walk of \<open>remove_skipped_blocks\<close> over the block indices \<open>num_skipped_blocks - 1, \<dots>, 0\<close>; the
  number of skipped tokens depends on the attention type and is an argument.\<close>

fun skip_loop :: "blkref \<Rightarrow> nat \<Rightarrow> blkref list \<Rightarrow> blkref list \<Rightarrow> (blkref list \<times> blkref list) result" where
  "skip_loop null_block 0 blocks removed = Inr (blocks, removed)"
| "skip_loop null_block (Suc i) blocks removed =
     (if i \<ge> length blocks then Inl IndexError
      else if blocks ! i = null_block then Inr (blocks, removed)
      else skip_loop null_block i (blocks[i := null_block]) (removed @ [blocks ! i]))"

definition sm_remove_skipped_blocks ::
  "(int \<Rightarrow> int) \<Rightarrow> reqid \<Rightarrow> int \<Rightarrow> block_pool \<Rightarrow> st_manager \<Rightarrow> (block_pool \<times> st_manager) result" where
  "sm_remove_skipped_blocks skipped rid num_computed p sm =
     (let num_skipped = skipped num_computed in
      if num_skipped \<le> 0 then Inr (p, sm)
      else case req_blocks rid sm of (blocks, sm') \<Rightarrow>
        ebind (skip_loop (bp_null_block p) (nat (num_skipped div int (sm_block_size sm))) blocks [])
          (\<lambda>(blocks', removed). ebind (free_blocks removed p) (\<lambda>p'. Inr (p', set_req_blocks rid blocks' sm'))))"

definition get_num_skipped_tokens :: "int \<Rightarrow> int" where
  "get_num_skipped_tokens num_computed_tokens = 0"

text \<open>\<open>FullAttentionManager.find_longest_cache_hit\<close>.\<close>

fun cache_hit_loop :: "block_pool \<Rightarrow> int list \<Rightarrow> bytes list \<Rightarrow> blkref list list \<Rightarrow> blkref list list result" where
  "cache_hit_loop p gids [] computed = Inr computed"
| "cache_hit_loop p gids (h # hs) computed =
     ebind (get_cached_block p h gids) (\<lambda>cached.
       case cached of
         None \<Rightarrow> Inr computed
       | Some bs \<Rightarrow> if bs = [] then Inr computed
           else cache_hit_loop p gids hs (map2 (\<lambda>c b. c @ [b]) computed bs))"

definition sm_find_longest_cache_hit ::
  "bytes list \<Rightarrow> int \<Rightarrow> int list \<Rightarrow> block_pool \<Rightarrow> nat \<Rightarrow> bool \<Rightarrow> blkref list list result" where
  "sm_find_longest_cache_hit hashes max_length gids p block_size use_eagle =
     (let max_num_blocks = max_length div int block_size in
      if max_num_blocks < 0 then Inl ValueError
      else ebind (cache_hit_loop p gids (take (nat max_num_blocks) hashes) (map (\<lambda>_. []) gids)) (\<lambda>computed.
        if use_eagle then
          (case computed of
             [] \<Rightarrow> Inl IndexError
           | c # _ \<Rightarrow> if c \<noteq> [] then
                 (if [] \<in> set computed then Inl IndexError else Inr (map butlast computed))
               else Inr computed)
        else Inr computed))"

fun common_prefix_loop :: "block_pool \<Rightarrow> nat \<Rightarrow> blkref list \<Rightarrow> nat \<Rightarrow> nat" where
  "common_prefix_loop p n [] acc = acc"
| "common_prefix_loop p n (b # bs) acc =
     (if kb_ref_cnt (heap_of p b) = int n then common_prefix_loop p n bs (acc + 1) else acc)"

definition sm_get_num_common_prefix_blocks :: "reqid \<Rightarrow> block_pool \<Rightarrow> st_manager \<Rightarrow> nat \<times> st_manager" where
  "sm_get_num_common_prefix_blocks rid p sm =
     (case req_blocks rid sm of (blocks, sm') \<Rightarrow>
        (common_prefix_loop p (length (sm_req_to_blocks sm')) blocks 0, sm'))"

subsection \<open>The coordinator\<close>

record kv_coordinator =
  kc_enable_caching :: bool
  kc_use_eagle :: bool
  kc_block_pool :: block_pool
  kc_managers :: "st_manager list"

text \<open>Coordination threads the shared pool through the managers, in order.\<close>

fun each_manager :: "(block_pool \<Rightarrow> st_manager \<Rightarrow> (block_pool \<times> st_manager) result) \<Rightarrow> block_pool \<Rightarrow>
    st_manager list \<Rightarrow> (block_pool \<times> st_manager list) result" where
  "each_manager f p [] = Inr (p, [])"
| "each_manager f p (m # ms) =
     ebind (f p m) (\<lambda>(p', m'). ebind (each_manager f p' ms) (\<lambda>(p'', ms'). Inr (p'', m' # ms')))"

definition on_managers ::
  "(block_pool \<Rightarrow> st_manager \<Rightarrow> (block_pool \<times> st_manager) result) \<Rightarrow> kv_coordinator \<Rightarrow> kv_coordinator result" where
  "on_managers f kc = ebind (each_manager f (kc_block_pool kc) (kc_managers kc))
     (\<lambda>(p, ms). Inr (kc\<lparr>kc_block_pool := p, kc_managers := ms\<rparr>))"

fun count_blocks_loop :: "reqid \<Rightarrow> int \<Rightarrow> blkref list list \<Rightarrow> block_pool \<Rightarrow> st_manager list \<Rightarrow>
    (int \<times> st_manager list) result" where
  "count_blocks_loop rid n new_computed p [] = Inr (0, [])"
| "count_blocks_loop rid n [] p (m # ms) = Inl IndexError"
| "count_blocks_loop rid n (c # cs) p (m # ms) =
     (case sm_get_num_blocks_to_allocate rid n c p m of (k, m') \<Rightarrow>
        ebind (count_blocks_loop rid n cs p ms) (\<lambda>(k', ms'). Inr (k + k', m' # ms')))"

definition kc_get_num_blocks_to_allocate ::
  "reqid \<Rightarrow> int \<Rightarrow> blkref list list \<Rightarrow> kv_coordinator \<Rightarrow> (int \<times> kv_coordinator) result" where
  "kc_get_num_blocks_to_allocate rid n new_computed kc =
     ebind (count_blocks_loop rid n new_computed (kc_block_pool kc) (kc_managers kc))
       (\<lambda>(k, ms). Inr (k, kc\<lparr>kc_managers := ms\<rparr>))"

fun save_loop :: "reqid \<Rightarrow> blkref list list \<Rightarrow> st_manager list \<Rightarrow> st_manager list result" where
  "save_loop rid new_computed [] = Inr []"
| "save_loop rid [] (m # ms) = Inl IndexError"
| "save_loop rid (c # cs) (m # ms) =
     ebind (sm_save_new_computed_blocks rid c m) (\<lambda>m'. ebind (save_loop rid cs ms) (\<lambda>ms'. Inr (m' # ms')))"

definition kc_save_new_computed_blocks ::
  "reqid \<Rightarrow> blkref list list \<Rightarrow> kv_coordinator \<Rightarrow> kv_coordinator result" where
  "kc_save_new_computed_blocks rid new_computed kc =
     ebind (save_loop rid new_computed (kc_managers kc)) (\<lambda>ms. Inr (kc\<lparr>kc_managers := ms\<rparr>))"

fun allocate_loop :: "bool \<Rightarrow> reqid \<Rightarrow> int \<Rightarrow> block_pool \<Rightarrow> st_manager list \<Rightarrow>
    (blkref list list \<times> block_pool \<times> st_manager list) result" where
  "allocate_loop u rid n p [] = Inr ([], p, [])"
| "allocate_loop u rid n p (m # ms) =
     ebind (sm_allocate_new_blocks u rid n p m) (\<lambda>(bs, p', m').
       ebind (allocate_loop u rid n p' ms) (\<lambda>(bss, p'', ms'). Inr (bs # bss, p'', m' # ms')))"

definition kc_allocate_new_blocks ::
  "bool \<Rightarrow> reqid \<Rightarrow> int \<Rightarrow> kv_coordinator \<Rightarrow> (blkref list list \<times> kv_coordinator) result" where
  "kc_allocate_new_blocks u rid n kc =
     ebind (allocate_loop u rid n (kc_block_pool kc) (kc_managers kc))
       (\<lambda>(bss, p, ms). Inr (bss, kc\<lparr>kc_block_pool := p, kc_managers := ms\<rparr>))"

definition kc_cache_blocks :: "bool \<Rightarrow> request \<Rightarrow> int \<Rightarrow> kv_coordinator \<Rightarrow> kv_coordinator result" where
  "kc_cache_blocks u r n kc = on_managers (sm_cache_blocks u r n) kc"

definition kc_free :: "reqid \<Rightarrow> kv_coordinator \<Rightarrow> kv_coordinator result" where
  "kc_free rid kc = on_managers (sm_free rid) kc"

definition kc_remove_skipped_blocks :: "reqid \<Rightarrow> int \<Rightarrow> kv_coordinator \<Rightarrow> kv_coordinator result" where
  "kc_remove_skipped_blocks rid n kc = on_managers (sm_remove_skipped_blocks get_num_skipped_tokens rid n) kc"

fun common_loop :: "reqid \<Rightarrow> block_pool \<Rightarrow> st_manager list \<Rightarrow> nat list \<times> st_manager list" where
  "common_loop rid p [] = ([], [])"
| "common_loop rid p (m # ms) =
     (case sm_get_num_common_prefix_blocks rid p m of (n, m') \<Rightarrow>
        (case common_loop rid p ms of (ns, ms') \<Rightarrow> (n # ns, m' # ms')))"

definition kc_get_num_common_prefix_blocks :: "reqid \<Rightarrow> kv_coordinator \<Rightarrow> nat list \<times> kv_coordinator" where
  "kc_get_num_common_prefix_blocks rid kc =
     (if \<not> kc_enable_caching kc then (replicate (length (kc_managers kc)) 0, kc)
      else case common_loop rid (kc_block_pool kc) (kc_managers kc) of
        (ns, ms) \<Rightarrow> (ns, kc\<lparr>kc_managers := ms\<rparr>))"

definition kc_get_blocks :: "reqid \<Rightarrow> kv_coordinator \<Rightarrow> blkref list list" where
  "kc_get_blocks rid kc = map (\<lambda>m. dget_or (sm_req_to_blocks m) rid []) (kc_managers kc)"

text \<open>Without prefix caching there is never a hit; with it, the single manager searches the cache.\<close>

definition kc_find_longest_cache_hit ::
  "bytes list \<Rightarrow> int \<Rightarrow> kv_coordinator \<Rightarrow> (blkref list list \<times> int) result" where
  "kc_find_longest_cache_hit hashes max_len kc =
     (if \<not> kc_enable_caching kc then Inr (map (\<lambda>_. []) (kc_managers kc), 0)
      else case kc_managers kc of
        [m] \<Rightarrow> ebind (sm_find_longest_cache_hit hashes max_len [0] (kc_block_pool kc) (sm_block_size m)
                      (kc_use_eagle kc))
               (\<lambda>hit. Inr (hit, int (length (hd hit)) * int (sm_block_size m)))
      | _ \<Rightarrow> Inl AssertionError)"

subsection \<open>KVCacheManager\<close>

record kv_manager =
  km_max_model_len :: int
  km_enable_caching :: bool
  km_coordinator :: kv_coordinator

definition empty_kv_cache_blocks :: "kv_manager \<Rightarrow> blkref list list" where
  "empty_kv_cache_blocks km = map (\<lambda>_. []) (kc_managers (km_coordinator km))"

definition any_block :: "blkref list list \<Rightarrow> bool" where
  "any_block blocks \<longleftrightarrow> (\<exists>g\<in>set blocks. g \<noteq> [])"

definition create_kv_cache_blocks :: "blkref list list \<Rightarrow> kv_manager \<Rightarrow> blkref list list" where
  "create_kv_cache_blocks blocks km = (if any_block blocks then blocks else empty_kv_cache_blocks km)"

definition init_kv_manager :: "int \<Rightarrow> bool \<Rightarrow> bool \<Rightarrow> bool \<Rightarrow> nat \<Rightarrow> nat \<Rightarrow> nat \<Rightarrow> kv_manager result" where
  "init_kv_manager max_model_len enable_caching use_eagle enable_events num_blocks block_size dcp =
     ebind (init_block_pool num_blocks enable_caching enable_events) (\<lambda>p.
       Inr \<lparr>km_max_model_len = max_model_len, km_enable_caching = enable_caching,
            km_coordinator = \<lparr>kc_enable_caching = enable_caching, kc_use_eagle = use_eagle,
              kc_block_pool = p, kc_managers = [new_st_manager block_size 0 dcp]\<rparr>\<rparr>)"

definition km_get_computed_blocks :: "request \<Rightarrow> kv_manager \<Rightarrow> (blkref list list \<times> int) result" where
  "km_get_computed_blocks r km =
     (if \<not> km_enable_caching km \<or>
         (case rq_sampling_params r of Some sp \<Rightarrow> sp_prompt_logprobs sp \<noteq> None | None \<Rightarrow> False)
      then Inr (empty_kv_cache_blocks km, 0)
      else ebind (kc_find_longest_cache_hit (rq_block_hashes r) (num_tokens r - 1) (km_coordinator km))
        (\<lambda>(computed, n). Inr (create_kv_cache_blocks computed km, n)))"

text \<open>The steps of \<open>allocate_slots\<close>: touching the computed blocks, saving them in the table of the request,
  caching the full blocks. It returns \<open>None\<close> when the pool has too few free blocks.\<close>

definition touch_computed :: "bool \<Rightarrow> blkref list list \<Rightarrow> kv_coordinator \<Rightarrow> kv_coordinator result" where
  "touch_computed caching computed kc =
     (if caching then ebind (touch computed (kc_block_pool kc)) (\<lambda>p. Inr (kc\<lparr>kc_block_pool := p\<rparr>))
      else if any_block computed then Inl AssertionError else Inr kc)"

definition save_computed :: "reqid \<Rightarrow> blkref list list \<Rightarrow> kv_coordinator \<Rightarrow> kv_coordinator result" where
  "save_computed rid computed kc =
     (if any_block computed then kc_save_new_computed_blocks rid computed kc else Inr kc)"

definition commit_blocks :: "bool \<Rightarrow> bool \<Rightarrow> bool \<Rightarrow> request \<Rightarrow> int \<Rightarrow> kv_coordinator \<Rightarrow> kv_coordinator result" where
  "commit_blocks u caching delay r num_tokens_to_cache kc =
     (if \<not> caching \<or> delay then Inr kc else kc_cache_blocks u r num_tokens_to_cache kc)"

definition km_allocate_slots ::
  "bool \<Rightarrow> request \<Rightarrow> int \<Rightarrow> int \<Rightarrow> blkref list list option \<Rightarrow> int \<Rightarrow> bool \<Rightarrow> kv_manager \<Rightarrow>
   (blkref list list option \<times> kv_manager) result" where
  "km_allocate_slots u r num_new_tokens num_new_computed new_computed_blocks num_lookahead delay km =
     (if num_new_tokens = 0 then Inl ValueError
      else
      let rid = rq_request_id r;
          computed = (case new_computed_blocks of Some bs \<Rightarrow> bs | None \<Rightarrow> empty_kv_cache_blocks km);
          num_computed = rq_num_computed_tokens r + num_new_computed;
          need_slot = min (num_computed + num_new_tokens + num_lookahead) (km_max_model_len km)
      in
      ebind (kc_remove_skipped_blocks rid (rq_num_computed_tokens r) (km_coordinator km)) (\<lambda>kc1.
      ebind (kc_get_num_blocks_to_allocate rid need_slot computed kc1) (\<lambda>(num_blocks, kc2).
        if num_blocks > get_num_free_blocks (kc_block_pool kc2) then
          Inr (None, km\<lparr>km_coordinator := kc2\<rparr>)
        else
        ebind (touch_computed (km_enable_caching km) computed kc2) (\<lambda>kc3.
        ebind (save_computed rid computed kc3) (\<lambda>kc4.
        ebind (kc_allocate_new_blocks u rid need_slot kc4) (\<lambda>(new_blocks, kc5).
        ebind (commit_blocks u (km_enable_caching km) delay r
                 (min (num_computed + num_new_tokens) (num_tokens r)) kc5) (\<lambda>kc6.
          let km6 = km\<lparr>km_coordinator := kc6\<rparr> in
          Inr (Some (create_kv_cache_blocks new_blocks km6), km6))))))))"

definition km_free :: "request \<Rightarrow> kv_manager \<Rightarrow> kv_manager result" where
  "km_free r km = ebind (kc_free (rq_request_id r) (km_coordinator km)) (\<lambda>kc. Inr (km\<lparr>km_coordinator := kc\<rparr>))"

definition km_reset_prefix_cache :: "kv_manager \<Rightarrow> bool \<times> kv_manager" where
  "km_reset_prefix_cache km =
     (case reset_prefix_cache (kc_block_pool (km_coordinator km)) of (ok, p) \<Rightarrow>
        (ok, km\<lparr>km_coordinator := (km_coordinator km)\<lparr>kc_block_pool := p\<rparr>\<rparr>))"

definition km_get_num_common_prefix_blocks :: "reqid \<Rightarrow> kv_manager \<Rightarrow> nat list \<times> kv_manager" where
  "km_get_num_common_prefix_blocks rid km =
     (case kc_get_num_common_prefix_blocks rid (km_coordinator km) of (ns, kc) \<Rightarrow>
        (ns, km\<lparr>km_coordinator := kc\<rparr>))"

definition km_take_events :: "kv_manager \<Rightarrow> kv_event list \<times> kv_manager" where
  "km_take_events km =
     (case take_events (kc_block_pool (km_coordinator km)) of (es, p) \<Rightarrow>
        (es, km\<lparr>km_coordinator := (km_coordinator km)\<lparr>kc_block_pool := p\<rparr>\<rparr>))"

definition km_get_blocks :: "reqid \<Rightarrow> kv_manager \<Rightarrow> blkref list list" where
  "km_get_blocks rid km = create_kv_cache_blocks (kc_get_blocks rid (km_coordinator km)) km"

definition block_ids :: "blkref list list \<Rightarrow> kv_manager \<Rightarrow> int list list" where
  "block_ids blocks km =
     map (map (\<lambda>b. kb_block_id (heap_of (kc_block_pool (km_coordinator km)) b))) blocks"

definition km_get_block_ids :: "reqid \<Rightarrow> kv_manager \<Rightarrow> int list list" where
  "km_get_block_ids rid km = block_ids (km_get_blocks rid km) km"

definition km_cache_blocks :: "bool \<Rightarrow> request \<Rightarrow> int \<Rightarrow> kv_manager \<Rightarrow> kv_manager result" where
  "km_cache_blocks u r n km =
     (if km_enable_caching km then
        ebind (kc_cache_blocks u r n (km_coordinator km)) (\<lambda>kc. Inr (km\<lparr>km_coordinator := kc\<rparr>))
      else Inr km)"

definition km_usage :: "kv_manager \<Rightarrow> rat" where
  "km_usage km = get_usage (kc_block_pool (km_coordinator km))"

subsection \<open>The invariant\<close>

text \<open>\<open>hs\<close> gives the block hashes of a request, \<open>gb\<close> are the encoded group id bytes.\<close>

definition blocks_ok :: "block_pool \<Rightarrow> blkref list \<Rightarrow> bool" where
  "blocks_ok p bs \<longleftrightarrow> (\<exists>js. bs = map Blk js \<and> distinct js \<and> (\<forall>j\<in>set js. usable p j))"

definition cached_prefix :: "block_pool \<Rightarrow> blkref list \<Rightarrow> nat \<Rightarrow> bytes list \<Rightarrow> bytes \<Rightarrow> bool" where
  "cached_prefix p bs n hs gb \<longleftrightarrow> n \<le> length bs \<and> n \<le> length hs \<and>
     (\<forall>k<n. kb_block_hash (heap_of p (bs ! k)) = Some (hs ! k @ gb)) \<and>
     (\<forall>k. n \<le> k \<and> k < length bs \<longrightarrow> kb_block_hash (heap_of p (bs ! k)) = None)"

type_synonym block_table = "(reqid, blkref list) dict"

definition holders :: "nat \<Rightarrow> block_table \<Rightarrow> nat" where
  "holders i T = dcount (\<lambda>bs. Blk i \<in> set bs) T"

definition kv_ok :: "(reqid \<Rightarrow> bytes list) \<Rightarrow> bytes \<Rightarrow> block_pool \<Rightarrow> block_table \<Rightarrow> (reqid, nat) dict \<Rightarrow> nat list \<Rightarrow> bool" where
  "kv_ok hs gb p T C xs \<longleftrightarrow> pool_rep p xs \<and> wf_dict T \<and> wf_dict C \<and>
     (\<forall>rid bs. map_of T rid = Some bs \<longrightarrow> blocks_ok p bs) \<and>
     (\<forall>i. usable p i \<longrightarrow> ref_of p i = int (holders i T)) \<and>
     (\<forall>i. usable p i \<longrightarrow> hash_of p i = None \<longrightarrow> ref_of p i \<le> 1) \<and>
     (\<forall>rid. cached_prefix p (dget_or T rid []) (dget_or C rid 0) (hs rid) gb)"

lemma kv_okD:
  assumes "kv_ok hs gb p T C xs"
  shows "pool_rep p xs" "wf_dict T" "wf_dict C" "map_of T rid = Some bs \<Longrightarrow> blocks_ok p bs"
    "usable p i \<Longrightarrow> ref_of p i = int (holders i T)"
    "usable p i \<Longrightarrow> hash_of p i = None \<Longrightarrow> ref_of p i \<le> 1"
    "cached_prefix p (dget_or T rid []) (dget_or C rid 0) (hs rid) gb"
  using assms unfolding kv_ok_def by blast+

lemma kv_ok_table: "kv_ok hs gb p T C xs \<Longrightarrow> blocks_ok p (dget_or T rid [])"
  using kv_okD(4) [of hs gb p T C xs rid]
  by (cases "map_of T rid") (auto simp: dget_or_def blocks_ok_def)

lemma blocks_okE:
  assumes "blocks_ok p bs"
  obtains js where "bs = map Blk js" "distinct js" "\<And>j. j \<in> set js \<Longrightarrow> usable p j"
  using assms unfolding blocks_ok_def by blast

lemma blocks_ok_config: "same_config p p' \<Longrightarrow> blocks_ok p bs \<Longrightarrow> blocks_ok p' bs"
  by (simp add: blocks_ok_def same_config_usable)

lemma holders_update:
  assumes "wf_dict T"
  shows "int (holders i (AList.update rid bs T)) =
    int (holders i T) + (if Blk i \<in> set bs then 1 else 0) - (if Blk i \<in> set (dget_or T rid []) then 1 else 0)"
  using dcount_update [OF assms, of "\<lambda>bs. Blk i \<in> set bs" rid bs]
  by (cases "map_of T rid") (auto simp: holders_def dget_or_def split: if_splits)

lemma holders_delete:
  assumes "wf_dict T"
  shows "int (holders i (AList.delete rid T)) = int (holders i T) - (if Blk i \<in> set (dget_or T rid []) then 1 else 0)"
  using dcount_delete [OF assms, of "\<lambda>bs. Blk i \<in> set bs" rid]
  by (cases "map_of T rid") (auto simp: holders_def dget_or_def split: if_splits)

lemma held_ref_pos:
  assumes "kv_ok hs gb p T C xs" and "Blk i \<in> set (dget_or T rid [])"
  shows "usable p i" and "ref_of p i \<ge> 1"
proof -
  from kv_ok_table [OF assms(1), of rid] assms(2) show u: "usable p i" by (auto simp: blocks_ok_def)
  from assms(2) obtain bs where "map_of T rid = Some bs" "Blk i \<in> set bs"
    by (cases "map_of T rid") (auto simp: dget_or_def)
  then have "0 < holders i T" unfolding holders_def dcount_pos_iff by (force dest: map_of_SomeD)
  with kv_okD(5) [OF assms(1) u] show "ref_of p i \<ge> 1" by simp
qed

lemma unhashed_one_holder:
  assumes "kv_ok hs gb p T C xs" and "hash_of p i = None" and "Blk i \<in> set (dget_or T rid [])"
    and "Blk i \<in> set (dget_or T rid' [])"
  shows "rid = rid'"
proof (rule ccontr)
  assume ne: "rid \<noteq> rid'"
  from assms(3) obtain bs where bs: "map_of T rid = Some bs" "Blk i \<in> set bs"
    by (cases "map_of T rid") (auto simp: dget_or_def)
  from assms(4) obtain bs' where bs': "map_of T rid' = Some bs'" "Blk i \<in> set bs'"
    by (cases "map_of T rid'") (auto simp: dget_or_def)
  have "holders i T \<ge> 2" unfolding holders_def by (rule dcount_two [OF bs(1) bs'(1) ne bs(2) bs'(2)])
  with kv_okD(5,6) [OF assms(1) held_ref_pos(1) [OF assms(1,3)]] assms(2) show False by simp
qed

lemma cached_prefix_cong:
  assumes "\<And>b. b \<in> set bs \<Longrightarrow> kb_block_hash (heap_of p' b) = kb_block_hash (heap_of p b)"
  shows "cached_prefix p' bs n hs gb = cached_prefix p bs n hs gb"
  using assms by (auto simp: cached_prefix_def)

subsection \<open>Steps that keep the invariant\<close>

lemma kv_ok_setdefault:
  assumes "kv_ok hs gb p T C xs"
  shows "kv_ok hs gb p (dsetdefault T rid []) C xs"
proof -
  have "dget_or (dsetdefault T rid []) rid' [] = dget_or T rid' []" for rid'
    by (simp add: dget_or_def dict_simps)
  moreover have "holders i (dsetdefault T rid []) = holders i T" for i
    by (auto simp: dsetdefault_def holders_def dcount_update_absent map_of_None_iff split: option.splits)
  moreover have "blocks_ok p bs" if "map_of (dsetdefault T rid []) rid' = Some bs" for rid' bs
    using that kv_okD(4) [OF assms] kv_ok_table [OF assms] by (auto simp: dict_simps split: if_splits)
  ultimately show ?thesis
    using kv_okD [OF assms] unfolding kv_ok_def by (intro conjI allI impI) simp_all
qed

lemma kv_ok_free:
  assumes "kv_ok hs gb p T C xs"
  shows "\<exists>p' xs'. free_blocks (rev (dget_or T rid [])) p = Inr p' \<and>
    kv_ok hs gb p' (AList.delete rid T) (AList.delete rid C) xs' \<and> same_config p p' \<and>
    (\<forall>i. hash_of p' i = hash_of p i) \<and>
    (\<forall>i. ref_of p' i = ref_of p i - (if Blk i \<in> set (dget_or T rid []) then 1 else 0))"
proof -
  note ok = kv_okD [OF assms]
  obtain js where js: "dget_or T rid [] = map Blk js" "distinct js"
    using kv_ok_table [OF assms, of rid] by (rule blocks_okE)
  have "usable p j \<and> ref_of p j \<ge> 1" if "j \<in> set (rev js)" for j
    using held_ref_pos [OF assms, of j rid] that js(1) by auto
  from free_blocks_spec [OF ok(1), of "rev js"] this js(2)
  obtain p' where p': "free_blocks (map Blk (rev js)) p = Inr p'"
    "pool_rep p' (xs @ filter (\<lambda>j. ref_of p j = 1) (rev js))" "same_config p p'"
    "\<And>i. ref_of p' i = ref_of p i - (if i \<in> set js then 1 else 0)" "\<And>i. hash_of p' i = hash_of p i" by auto
  have hold: "int (holders i (AList.delete rid T)) = int (holders i T) - (if i \<in> set js then 1 else 0)" for i
    using holders_delete [OF ok(2), of i rid] by (auto simp: js(1))
  have cp: "cached_prefix p' (dget_or (AList.delete rid T) r []) (dget_or (AList.delete rid C) r 0) (hs r) gb" for r
  proof (cases "r = rid")
    case False
    have "kb_block_hash (heap_of p' b) = kb_block_hash (heap_of p b)" if "b \<in> set (dget_or T r [])" for b
      using that kv_ok_table [OF assms, of r] p'(5) by (auto simp: blocks_ok_def)
    with False ok(7) [of r] cached_prefix_cong [of "dget_or T r []" p' p] show ?thesis
      by (simp add: dget_or_def dict_simps)
  qed (simp add: dget_or_def dict_simps cached_prefix_def)
  have "kv_ok hs gb p' (AList.delete rid T) (AList.delete rid C) (xs @ filter (\<lambda>j. ref_of p j = 1) (rev js))"
    unfolding kv_ok_def same_config_usable [OF p'(3)]
  proof (intro conjI allI impI)
    fix r bs assume "map_of (AList.delete rid T) r = Some bs"
    then have "map_of T r = Some bs" by (simp add: dict_simps split: if_splits)
    with ok(4) blocks_ok_config [OF p'(3)] show "blocks_ok p' bs" by blast
  next
    fix i assume "usable p i"
    with ok(5) hold p'(4) show "ref_of p' i = int (holders i (AList.delete rid T))" by simp
  next
    fix i assume "usable p i" "hash_of p' i = None"
    with ok(6) [of i] p'(4) [of i] p'(5) [of i] show "ref_of p' i \<le> 1" by (simp split: if_splits)
  qed (use p'(2) ok(2,3) cp in auto)
  with p' js(1) show ?thesis by (auto simp: rev_map)
qed

text \<open>A new request takes over cached blocks that carry the hashes of its prefix.\<close>

lemma kv_ok_touch_save:
  assumes "kv_ok hs gb p T C xs" and "dget_or T rid [] = []" and "bs = map Blk js" and "distinct js"
    and "\<And>j. j \<in> set js \<Longrightarrow> usable p j"
    and "length js \<le> length (hs rid)" and "\<And>k. k < length js \<Longrightarrow> hash_of p (js ! k) = Some (hs rid ! k @ gb)"
  shows "\<exists>p'. touch [bs] p = Inr p' \<and> same_config p p' \<and>
    kv_ok hs gb p' (AList.update rid bs T) (AList.update rid (length bs) C) (filter (\<lambda>i. i \<notin> set js) xs)"
proof -
  note ok = kv_okD [OF assms(1)]
  obtain p' where p': "touch_loop bs p = Inr p'" "pool_rep p' (filter (\<lambda>i. i \<notin> set js) xs)"
    "same_config p p'" "\<And>i. ref_of p' i = ref_of p i + (if i \<in> set js then 1 else 0)"
    "\<And>i. hash_of p' i = hash_of p i"
    using touch_loop_spec [OF ok(1), of js] assms(3,5) count_list_distinct [OF assms(4)] by auto
  have hold: "int (holders i (AList.update rid bs T)) = int (holders i T) + (if i \<in> set js then 1 else 0)" for i
    using holders_update [OF ok(2), of i rid bs] by (auto simp: assms(2,3))
  have hashed: "hash_of p i \<noteq> None" if "i \<in> set js" for i
    using that assms(7) by (metis in_set_conv_nth option.distinct(1))
  have cp: "cached_prefix p' (dget_or (AList.update rid bs T) r []) (dget_or (AList.update rid (length bs) C) r 0) (hs r) gb"
    for r
  proof (cases "r = rid")
    case True
    with assms(3,6,7) p'(5) show ?thesis by (auto simp: dict_simps cached_prefix_def)
  next
    case False
    have "kb_block_hash (heap_of p' b) = kb_block_hash (heap_of p b)" if "b \<in> set (dget_or T r [])" for b
      using that kv_ok_table [OF assms(1), of r] p'(5) by (auto simp: blocks_ok_def)
    with False ok(7) [of r] cached_prefix_cong [of "dget_or T r []" p' p] show ?thesis
      by (simp add: dict_simps)
  qed
  have "kv_ok hs gb p' (AList.update rid bs T) (AList.update rid (length bs) C) (filter (\<lambda>i. i \<notin> set js) xs)"
    unfolding kv_ok_def same_config_usable [OF p'(3)]
  proof (intro conjI allI impI)
    fix r cs assume "map_of (AList.update rid bs T) r = Some cs"
    then show "blocks_ok p' cs"
      using ok(4) [of r cs] blocks_ok_config [OF p'(3)] assms(3-5)
      by (cases "r = rid") (auto simp: dict_simps blocks_ok_def)
  next
    fix i assume "usable p i"
    with ok(5) hold p'(4) show "ref_of p' i = int (holders i (AList.update rid bs T))" by simp
  next
    fix i assume "usable p i" "hash_of p' i = None"
    with ok(6) [of i] p'(4,5) hashed [of i] show "ref_of p' i \<le> 1" by auto
  qed (use p'(2) ok(2,3) cp in auto)
  with p'(1,3) show ?thesis by auto
qed

lemma cached_prefix_append:
  assumes c: "cached_prefix p old n h gb" and same: "\<And>b. b \<in> set old \<Longrightarrow> kb_block_hash (heap_of p' b) = kb_block_hash (heap_of p b)"
    and new: "\<And>b. b \<in> set bs \<Longrightarrow> kb_block_hash (heap_of p' b) = None"
  shows "cached_prefix p' (old @ bs) n h gb"
proof -
  have "kb_block_hash (heap_of p' ((old @ bs) ! k)) = None" if "n \<le> k" "k < length (old @ bs)" for k
  proof (cases "k < length old")
    case True
    then have "kb_block_hash (heap_of p (old ! k)) = None" using c that(1) by (simp add: cached_prefix_def)
    with True same [OF nth_mem [OF True]] show ?thesis by (simp add: nth_append)
  next
    case False
    then have at: "(old @ bs) ! k = bs ! (k - length old)" and lt: "k - length old < length bs"
      using False that(2) unfolding length_append nth_append by (simp, linarith)
    from new [OF nth_mem [OF lt]] show ?thesis unfolding at .
  qed
  moreover have "kb_block_hash (heap_of p' ((old @ bs) ! k)) = Some (h ! k @ gb)" if "k < n" for k
  proof -
    have "k < length old" using c that by (simp add: cached_prefix_def)
    with c that same [OF nth_mem [OF this]] show ?thesis by (simp add: cached_prefix_def nth_append)
  qed
  ultimately show ?thesis using c by (auto simp: cached_prefix_def)
qed

text \<open>A request is extended with new blocks.\<close>

lemma kv_ok_extend:
  assumes "kv_ok hs gb p T C xs" and "n \<le> length xs"
  shows "\<exists>p' bs. get_new_blocks u (int n) p = Inr (bs, p') \<and> same_config p p' \<and> length bs = n \<and>
    kv_ok hs gb p' (AList.update rid (dget_or T rid [] @ bs) T) C (drop n xs)"
proof -
  note ok = kv_okD [OF assms(1)]
  let ?js = "take n xs" and ?old = "dget_or T rid []"
  let ?bs = "map Blk ?js" and ?T = "AList.update rid (dget_or T rid [] @ map Blk (take n xs)) T"
  obtain p' where p': "get_new_blocks u (int n) p = Inr (?bs, p')" "pool_rep p' (drop n xs)" "same_config p p'"
    "\<And>i. ref_of p' i = (if i \<in> set ?js then 1 else ref_of p i)"
    "\<And>i. hash_of p' i = (if i \<in> set ?js then None else hash_of p i)"
    using get_new_blocks_spec [OF ok(1) assms(2), of u] by blast
  have free: "usable p i \<and> ref_of p i = 0" if "i \<in> set ?js" for i
    using counts_okD [OF pool_repD(3) [OF ok(1)]] in_set_takeD [OF that] by blast
  have fresh: "Blk i \<notin> set (dget_or T r [])" if "i \<in> set ?js" for i r
    using free [OF that] held_ref_pos(2) [OF assms(1), of i r] by auto
  obtain os where os: "?old = map Blk os" "distinct os" "\<And>j. j \<in> set os \<Longrightarrow> usable p j"
    using kv_ok_table [OF assms(1), of rid] by (elim blocks_okE) blast
  have disj: "set os \<inter> set ?js = {}" using fresh [of _ rid] os(1) by auto
  have dist: "distinct ?js" using pool_repD(5) [OF ok(1)] by simp
  have hold: "int (holders i ?T) = int (holders i T) + (if i \<in> set ?js then 1 else 0)" for i
    using holders_update [OF ok(2), of i rid "?old @ ?bs"] fresh [of i rid] by auto
  have same: "kb_block_hash (heap_of p' b) = kb_block_hash (heap_of p b)" if b: "b \<in> set (dget_or T r [])" for b r
  proof -
    obtain j where j: "b = Blk j" using b kv_ok_table [OF assms(1), of r] by (auto simp: blocks_ok_def)
    with b fresh [of j r] p'(5) show ?thesis by auto
  qed
  have cp: "cached_prefix p' (dget_or ?T r []) (dget_or C r 0) (hs r) gb" for r
  proof (cases "r = rid")
    case True
    have "cached_prefix p' (?old @ ?bs) (dget_or C rid 0) (hs rid) gb"
      by (rule cached_prefix_append [OF ok(7) same]) (use p'(5) in auto)
    with True show ?thesis by (simp add: dict_simps)
  next
    case False
    with ok(7) [of r] cached_prefix_cong [OF same [of _ r]] show ?thesis by (simp add: dict_simps)
  qed
  have "kv_ok hs gb p' ?T C (drop n xs)"
    unfolding kv_ok_def same_config_usable [OF p'(3)]
  proof (intro conjI allI impI)
    fix r cs assume "map_of ?T r = Some cs"
    then show "blocks_ok p' cs"
      using ok(4) [of r cs] blocks_ok_config [OF p'(3)] os dist disj free same_config_usable [OF p'(3)]
      by (cases "r = rid") (auto simp: dict_simps blocks_ok_def intro!: exI [of _ "os @ ?js"])
  next
    fix i assume "usable p i"
    with ok(5) [of i] hold [of i] p'(4) [of i] free [of i] show "ref_of p' i = int (holders i ?T)"
      by (auto split: if_splits)
  next
    fix i assume "usable p i" "hash_of p' i = None"
    with ok(6) [of i] p'(4,5) show "ref_of p' i \<le> 1" by auto
  qed (use p'(2) ok(2,3) cp in auto)
  with p'(1,3) assms(2) show ?thesis by (intro exI [of _ p'] exI [of _ ?bs]) simp
qed

text \<open>Full blocks of a request are cached.\<close>

lemma slice_nth: "b \<le> length js \<Longrightarrow> slice a b js = map (\<lambda>k. js ! k) [a..<b]"
  by (rule nth_equalityI) (auto simp: slice_def)

lemma mem_sliceE:
  assumes "j \<in> set (slice a b js)" and "b \<le> length js"
  obtains k where "a \<le> k" "k < b" "j = js ! k"
  using assms by (auto simp: slice_nth)

lemma kv_ok_cache:
  assumes "kv_ok hs gb p T C xs" and "rid = rq_request_id r" and "hs rid = rq_block_hashes r"
    and "bp_enable_caching p" and "to_bytes_4 g = Inr gb" and "num_cached = dget_or C rid 0"
    and "num_full \<le> length (rq_block_hashes r)" and "num_full \<le> length (dget_or T rid [])"
    and "num_cached < num_full"
  shows "\<exists>p'. cache_full_blocks u r (dget_or T rid []) num_cached num_full bs g p = Inr p' \<and>
    same_config p p' \<and> kv_ok hs gb p' T (AList.update rid num_full C) xs"
proof -
  note ok = kv_okD [OF assms(1)]
  obtain js where js: "dget_or T rid [] = map Blk js" "distinct js" "\<And>j. j \<in> set js \<Longrightarrow> usable p j"
    using kv_ok_table [OF assms(1), of rid] by (elim blocks_okE) blast
  have c: "cached_prefix p (map Blk js) num_cached (rq_block_hashes r) gb"
    using ok(7) [of rid] assms(3,6) js(1) by simp
  let ?sl = "slice num_cached num_full js"
  have len: "num_full \<le> length js" using assms(8) js(1) by simp
  have unhashed: "usable p j \<and> hash_of p j = None" if "j \<in> set ?sl" for j
    using that len js(3) c by (auto simp: cached_prefix_def elim!: mem_sliceE)
  have dist: "distinct ?sl" using js(2) by (simp add: slice_def)
  have par: "hash_of p (js ! (num_cached - 1)) \<noteq> None"
    if "0 < num_cached" "num_cached < num_full" "bp_enable_kv_cache_events p"
    using c that len by (auto simp: cached_prefix_def)
  obtain p' where p': "cache_full_blocks u r (map Blk js) num_cached num_full bs g p = Inr p'"
    "pool_rep p' xs" "same_config p p'" "\<And>i. ref_of p' i = ref_of p i"
    "\<And>i. i \<notin> set ?sl \<Longrightarrow> hash_of p' i = hash_of p i"
    "\<And>k. num_cached \<le> k \<Longrightarrow> k < num_full \<Longrightarrow> hash_of p' (js ! k) = Some (rq_block_hashes r ! k @ gb)"
    using cache_full_blocks_spec [OF ok(1) assms(4,5,7) len dist unhashed par, of u bs] by blast
  have keep: "hash_of p' (js ! k) = hash_of p (js ! k)" if "k < length js" "k < num_cached \<or> num_full \<le> k" for k
  proof (rule p'(5), rule notI)
    assume "js ! k \<in> set ?sl"
    then obtain k' where "num_cached \<le> k'" "k' < num_full" "js ! k = js ! k'" using len by (rule mem_sliceE)
    with js(2) that len show False by (auto simp: nth_eq_iff_index_eq)
  qed
  have cp: "cached_prefix p' (dget_or T r' []) (dget_or (AList.update rid num_full C) r' 0) (hs r') gb" for r'
  proof (cases "r' = rid")
    case True
    have "hash_of p' (js ! k) = Some (rq_block_hashes r ! k @ gb)" if "k < num_full" for k
      using p'(6) [of k] keep [of k] c that len by (cases "num_cached \<le> k") (auto simp: cached_prefix_def)
    moreover have "hash_of p' (js ! k) = None" if "num_full \<le> k" "k < length js" for k
      using keep [of k] c that assms(9) by (simp add: cached_prefix_def)
    ultimately show ?thesis using True len assms(3,7) js(1) by (simp add: cached_prefix_def dict_simps)
  next
    case False
    have "kb_block_hash (heap_of p' b) = kb_block_hash (heap_of p b)" if b: "b \<in> set (dget_or T r' [])" for b
    proof -
      obtain j where j: "b = Blk j" using b kv_ok_table [OF assms(1), of r'] by (auto simp: blocks_ok_def)
      have "j \<notin> set ?sl"
      proof
        assume sl: "j \<in> set ?sl"
        then have "Blk j \<in> set (dget_or T rid [])" using js(1) by (auto simp: slice_def dest: in_set_dropD in_set_takeD)
        with unhashed_one_holder [OF assms(1)] unhashed [OF sl] b j False show False by blast
      qed
      with p'(5) j show ?thesis by simp
    qed
    with False ok(7) [of r'] cached_prefix_cong [of "dget_or T r' []" p' p] show ?thesis by (simp add: dict_simps)
  qed
  have "hash_of p i = None" if "hash_of p' i = None" for i
    using that p'(5) [of i] unhashed [of i] by (cases "i \<in> set ?sl") simp_all
  then have "kv_ok hs gb p' T (AList.update rid num_full C) xs"
    using p'(2) ok blocks_ok_config [OF p'(3)] cp
    unfolding kv_ok_def same_config_usable [OF p'(3)] p'(4) by (intro conjI allI impI) auto
  with p'(1,3) js(1) show ?thesis by auto
qed

subsection \<open>Looking up the longest cached prefix\<close>

lemma cached_block_single:
  assumes "pool_rep p xs" and "to_bytes_4 g = Inr gb"
  shows "(get_cached_block p h [g] = Inr None \<and> (\<forall>i. hash_of p i \<noteq> Some (h @ gb))) \<or>
    (\<exists>i. get_cached_block p h [g] = Inr (Some [Blk i]) \<and> usable p i \<and> hash_of p i = Some (h @ gb))"
proof -
  let ?c = "bp_cached_block_hash_to_block p"
  have mk: "make_block_hash_with_group_id h g = Inr (h @ gb)"
    using assms(2) by (simp add: make_block_hash_with_group_id_def)
  from pool_repD(4) [OF assms(1)] have wf: "cache_wf (heap_of p) ?c"
    and iff: "\<And>k r. r \<in> cached_at ?c k \<longleftrightarrow> kb_block_hash (heap_of p r) = Some k"
    and dom: "\<And>r k. kb_block_hash (heap_of p r) = Some k \<Longrightarrow> \<exists>i. r = Blk i \<and> usable p i"
    by (auto simp: cache_ok_def)
  from get_one_block_spec [OF wf, of "h @ gb"] obtain b where b: "get_one_block ?c (h @ gb) = Inr b"
    "b = None \<longleftrightarrow> cached_at ?c (h @ gb) = {}" "\<And>blk. b = Some blk \<Longrightarrow> blk \<in> cached_at ?c (h @ gb)" by blast
  show ?thesis
  proof (cases b)
    case None
    with b(1,2) mk iff show ?thesis by auto
  next
    case (Some blk)
    with b(3) iff have "kb_block_hash (heap_of p blk) = Some (h @ gb)" by blast
    with dom obtain i where "blk = Blk i" "usable p i" "hash_of p i = Some (h @ gb)" by blast
    with b(1) Some mk show ?thesis by auto
  qed
qed

lemma cache_hit_loop_spec:
  assumes "pool_rep p xs" and "to_bytes_4 g = Inr gb"
  shows "\<exists>js. cache_hit_loop p [g] hs [pre] = Inr [pre @ map Blk js] \<and> length js \<le> length hs \<and>
    (\<forall>k<length js. usable p (js ! k) \<and> hash_of p (js ! k) = Some (hs ! k @ gb)) \<and>
    (length js < length hs \<longrightarrow> (\<forall>i. hash_of p i \<noteq> Some (hs ! length js @ gb)))"
proof (induction hs arbitrary: pre)
  case Nil
  then show ?case by (auto intro: exI [of _ "[]"])
next
  case (Cons h hs)
  consider "get_cached_block p h [g] = Inr None" "\<forall>i. hash_of p i \<noteq> Some (h @ gb)"
    | i where "get_cached_block p h [g] = Inr (Some [Blk i])" "usable p i" "hash_of p i = Some (h @ gb)"
    using cached_block_single [OF assms] by blast
  then show ?case
  proof cases
    case 1
    then show ?thesis by (auto intro!: exI [of _ "[]"] simp del: get_cached_block.simps)
  next
    case (2 i)
    obtain js where js: "cache_hit_loop p [g] hs [pre @ [Blk i]] = Inr [(pre @ [Blk i]) @ map Blk js]"
      "length js \<le> length hs" "\<forall>k<length js. usable p (js ! k) \<and> hash_of p (js ! k) = Some (hs ! k @ gb)"
      "length js < length hs \<longrightarrow> (\<forall>i. hash_of p i \<noteq> Some (hs ! length js @ gb))"
      using Cons.IH [of "pre @ [Blk i]"] by blast
    then show ?thesis
      using 2 by (intro exI [of _ "i # js"]) (auto simp: nth_Cons split: nat.splits simp del: get_cached_block.simps)
  qed
qed

subsection \<open>The manager with one group\<close>

definition gid_bytes :: bytes where
  "gid_bytes = [0, 0, 0, 0]"

lemma gid_bytes: "to_bytes_4 0 = Inr gid_bytes"
  by (simp add: to_bytes_4_def gid_bytes_def)

abbreviation km_pool :: "kv_manager \<Rightarrow> block_pool" where
  "km_pool km \<equiv> kc_block_pool (km_coordinator km)"

abbreviation km_sm :: "kv_manager \<Rightarrow> st_manager" where
  "km_sm km \<equiv> hd (kc_managers (km_coordinator km))"

definition km_table :: "kv_manager \<Rightarrow> reqid \<Rightarrow> blkref list" where
  "km_table km rid = dget_or (sm_req_to_blocks (km_sm km)) rid []"

definition kv_inv :: "(reqid \<Rightarrow> bytes list) \<Rightarrow> kv_manager \<Rightarrow> bool" where
  "kv_inv hs km \<longleftrightarrow> length (kc_managers (km_coordinator km)) = 1 \<and> 0 < sm_block_size (km_sm km) \<and>
     sm_kv_cache_group_id (km_sm km) = 0 \<and> kc_enable_caching (km_coordinator km) = km_enable_caching km \<and>
     bp_enable_caching (km_pool km) = km_enable_caching km \<and>
     (\<exists>xs. kv_ok hs gid_bytes (km_pool km) (sm_req_to_blocks (km_sm km)) (sm_num_cached_block (km_sm km)) xs)"

lemma kv_invE:
  assumes "kv_inv hs km"
  obtains m xs where "kc_managers (km_coordinator km) = [m]" "0 < sm_block_size m" "sm_kv_cache_group_id m = 0"
    "kc_enable_caching (km_coordinator km) = km_enable_caching km"
    "bp_enable_caching (km_pool km) = km_enable_caching km"
    "kv_ok hs gid_bytes (km_pool km) (sm_req_to_blocks m) (sm_num_cached_block m) xs"
  using assms unfolding kv_inv_def by (cases "kc_managers (km_coordinator km)") auto

lemma kv_invI:
  assumes "kc_managers (km_coordinator km) = [m]" and "0 < sm_block_size m" and "sm_kv_cache_group_id m = 0"
    and "kc_enable_caching (km_coordinator km) = km_enable_caching km"
    and "bp_enable_caching (km_pool km) = km_enable_caching km"
    and "kv_ok hs gid_bytes (km_pool km) (sm_req_to_blocks m) (sm_num_cached_block m) xs"
  shows "kv_inv hs km"
  using assms by (auto simp: kv_inv_def)

text \<open>Block hashes only grow, which keeps the invariant.\<close>

lemma kv_inv_grow:
  assumes "kv_inv hs km" and "\<And>rid. prefix (hs rid) (hs' rid)"
  shows "kv_inv hs' km"
proof -
  have "cached_prefix p bs n (hs rid) gb \<Longrightarrow> cached_prefix p bs n (hs' rid) gb" for p bs n rid gb
    using assms(2) [of rid] by (auto simp: cached_prefix_def prefix_def nth_append)
  with assms(1) show ?thesis unfolding kv_inv_def kv_ok_def by blast
qed

lemma init_kv_inv:
  assumes "0 < num_blocks" and "0 < block_size"
  shows "\<exists>km. init_kv_manager mml caching eagle events num_blocks block_size dcp = Inr km \<and> kv_inv hs km \<and>
    (\<forall>rid. km_table km rid = []) \<and> get_num_free_blocks (km_pool km) = int num_blocks - 1"
proof -
  obtain p where p: "init_block_pool num_blocks caching events = Inr p" "pool_rep p [1..<num_blocks]"
    "bp_enable_caching p = caching" "\<And>i. ref_of p i = 0"
    using init_block_pool_rep [OF assms(1), of caching events] by blast
  have "kv_ok hs gid_bytes p [] [] [1..<num_blocks]"
    using p by (simp add: kv_ok_def holders_def cached_prefix_def dget_or_def)
  moreover have "get_num_free_blocks p = int num_blocks - 1"
    using free_count(1) [OF p(2)] assms(1) by (simp add: of_nat_diff)
  ultimately show ?thesis
    using p(1,3) assms(2)
    by (auto simp: init_kv_manager_def km_table_def dget_or_def new_st_manager_def intro!: kv_invI)
qed

lemma req_blocks_simps [simp]:
  "fst (req_blocks rid sm) = dget_or (sm_req_to_blocks sm) rid []"
  "sm_req_to_blocks (snd (req_blocks rid sm)) = dsetdefault (sm_req_to_blocks sm) rid []"
  "sm_num_cached_block (snd (req_blocks rid sm)) = sm_num_cached_block sm"
  "sm_block_size (snd (req_blocks rid sm)) = sm_block_size sm"
  "sm_kv_cache_group_id (snd (req_blocks rid sm)) = sm_kv_cache_group_id sm"
  by (simp_all add: req_blocks_def)

lemma dget_or_setdefault [simp]: "dget_or (dsetdefault d k v) k' v = dget_or d k' v"
  by (simp add: dget_or_def dict_simps)

lemma update_setdefault: "AList.update k v (dsetdefault d k w) = AList.update k v d"
  by (auto simp: dsetdefault_def split: option.splits)

lemma km_free_spec:
  assumes "kv_inv hs km"
  shows "\<exists>km'. km_free r km = Inr km' \<and> kv_inv hs km' \<and>
    (\<forall>rid. km_table km' rid = (if rid = rq_request_id r then [] else km_table km rid)) \<and>
    (\<forall>i. ref_of (km_pool km') i =
       ref_of (km_pool km) i - (if Blk i \<in> set (km_table km (rq_request_id r)) then 1 else 0)) \<and>
    (\<forall>i. hash_of (km_pool km') i = hash_of (km_pool km) i)"
proof -
  obtain m xs where m: "kc_managers (km_coordinator km) = [m]" "0 < sm_block_size m" "sm_kv_cache_group_id m = 0"
    "kc_enable_caching (km_coordinator km) = km_enable_caching km"
    "bp_enable_caching (km_pool km) = km_enable_caching km"
    and ok: "kv_ok hs gid_bytes (km_pool km) (sm_req_to_blocks m) (sm_num_cached_block m) xs"
    using assms by (rule kv_invE)
  let ?rid = "rq_request_id r"
  obtain p' xs' where p': "free_blocks (rev (dget_or (sm_req_to_blocks m) ?rid [])) (km_pool km) = Inr p'"
    "kv_ok hs gid_bytes p' (AList.delete ?rid (sm_req_to_blocks m)) (AList.delete ?rid (sm_num_cached_block m)) xs'"
    "same_config (km_pool km) p'" "\<And>i. hash_of p' i = hash_of (km_pool km) i"
    "\<And>i. ref_of p' i = ref_of (km_pool km) i - (if Blk i \<in> set (dget_or (sm_req_to_blocks m) ?rid []) then 1 else 0)"
    using kv_ok_free [OF ok, of ?rid] by blast
  let ?m = "m\<lparr>sm_req_to_blocks := AList.delete ?rid (sm_req_to_blocks m),
    sm_num_cached_block := AList.delete ?rid (sm_num_cached_block m)\<rparr>"
  let ?km = "km\<lparr>km_coordinator := (km_coordinator km)\<lparr>kc_block_pool := p', kc_managers := [?m]\<rparr>\<rparr>"
  have "km_free r km = Inr ?km"
    using m(1) p'(1) by (simp add: km_free_def kc_free_def on_managers_def sm_free_def Let_def)
  moreover have "kv_inv hs ?km"
    by (rule kv_invI [of _ ?m]) (use m p'(2,3) in \<open>simp_all add: same_config_def\<close>)
  ultimately show ?thesis
    using m(1) p'(4,5) by (intro exI [of _ ?km]) (simp add: km_table_def dget_or_def dict_simps)
qed

text \<open>Release. Freeing a request never fails on a manager that satisfies the invariant; afterwards the
  request holds no blocks, every other request holds what it held, each block loses exactly
  the reference of the freed request, cached hashes stay in place for reuse, and the invariant
  holds.\<close>

lemma km_free_correct:
  assumes "kv_inv hs km"
  shows "\<exists>km'. km_free r km = Inr km' \<and> kv_inv hs km' \<and>
    (\<forall>rid. km_table km' rid = (if rid = rq_request_id r then [] else km_table km rid)) \<and>
    (\<forall>i. ref_of (km_pool km') i =
       ref_of (km_pool km) i - (if Blk i \<in> set (km_table km (rq_request_id r)) then 1 else 0)) \<and>
    (\<forall>i. hash_of (km_pool km') i = hash_of (km_pool km) i)"
  using assms by (rule km_free_spec)

lemma get_computed_blocks_facts:
  assumes "kv_inv hs km" and "km_enable_caching km" and "\<not> kc_use_eagle (km_coordinator km)"
    and "\<forall>sp. rq_sampling_params r = Some sp \<longrightarrow> sp_prompt_logprobs sp = None" and "num_tokens r \<ge> 1"
  shows "\<exists>js. km_get_computed_blocks r km = Inr ([map Blk js], int (length js) * int (sm_block_size (km_sm km))) \<and>
    int (length js) * int (sm_block_size (km_sm km)) < num_tokens r \<and>
    length js \<le> length (rq_block_hashes r) \<and>
    (\<forall>k<length js. usable (km_pool km) (js ! k) \<and>
       hash_of (km_pool km) (js ! k) = Some (rq_block_hashes r ! k @ gid_bytes)) \<and>
    (length js < length (rq_block_hashes r) \<and> int (Suc (length js)) * int (sm_block_size (km_sm km)) < num_tokens r \<longrightarrow>
       (\<forall>i. hash_of (km_pool km) i \<noteq> Some (rq_block_hashes r ! length js @ gid_bytes)))"
proof -
  obtain m xs where m: "kc_managers (km_coordinator km) = [m]" "0 < sm_block_size m"
    "kc_enable_caching (km_coordinator km) = km_enable_caching km"
    and ok: "kv_ok hs gid_bytes (km_pool km) (sm_req_to_blocks m) (sm_num_cached_block m) xs"
    using assms(1) by (elim kv_invE) blast
  let ?b = "int (sm_block_size m)"
  define mx where "mx = (num_tokens r - 1) div ?b"
  have mx: "0 \<le> mx" using assms(5) m(2) by (simp add: mx_def pos_imp_zdiv_nonneg_iff)
  have lim: "int n \<le> mx \<longleftrightarrow> int n * ?b < num_tokens r" for n
    using m(2) le_int_div_iff [of ?b "int n" "num_tokens r - 1"] by (auto simp: mx_def)
  let ?hs = "take (nat mx) (rq_block_hashes r)"
  obtain js where js: "cache_hit_loop (km_pool km) [0] ?hs [[]] = Inr [map Blk js]" "length js \<le> length ?hs"
    "\<And>k. k < length js \<Longrightarrow> usable (km_pool km) (js ! k) \<and> hash_of (km_pool km) (js ! k) = Some (?hs ! k @ gid_bytes)"
    "length js < length ?hs \<Longrightarrow> \<forall>i. hash_of (km_pool km) i \<noteq> Some (?hs ! length js @ gid_bytes)"
    using cache_hit_loop_spec [OF kv_okD(1) [OF ok] gid_bytes, of ?hs "[]"] unfolding append_Nil by blast
  have "km_get_computed_blocks r km = Inr ([map Blk js], int (length js) * ?b)"
    using assms(2-4) m js(1) mx
    by (auto simp: km_get_computed_blocks_def kc_find_longest_cache_hit_def sm_find_longest_cache_hit_def
        mx_def [symmetric] Let_def create_kv_cache_blocks_def any_block_def empty_kv_cache_blocks_def split: option.splits)
  moreover have "int (length js) \<le> mx" using js(2) mx by (simp add: le_nat_iff)
  then have "int (length js) * ?b < num_tokens r" by (simp add: lim)
  moreover have "\<forall>i. hash_of (km_pool km) i \<noteq> Some (rq_block_hashes r ! length js @ gid_bytes)"
    if "length js < length (rq_block_hashes r)" "int (Suc (length js)) * ?b < num_tokens r"
  proof -
    have "int (Suc (length js)) \<le> mx" using that(2) by (simp only: lim)
    then have "length js < nat mx" by linarith
    with that(1) js(4) show ?thesis by simp
  qed
  ultimately show ?thesis using js(2,3) m(1) by (intro exI [of _ js]) auto
qed

text \<open>Prefix lookup. For a request with at least one token and an enabled cache, \<open>get_computed_blocks\<close>
  returns the longest run of leading blocks whose hashes are in the cache, up to one token short
  of the request (so that at least one token is left to compute): each returned block is usable and
  carries the hash of the request's block at that position, the number of tokens is the number of
  blocks times the block size, and the first block after the run, if the limit allows one, is
  not cached.\<close>

lemma get_computed_blocks_correct:
  assumes "kv_inv hs km" and "km_enable_caching km" and "\<not> kc_use_eagle (km_coordinator km)"
    and "\<forall>sp. rq_sampling_params r = Some sp \<longrightarrow> sp_prompt_logprobs sp = None" and "num_tokens r \<ge> 1"
  shows "\<exists>js. km_get_computed_blocks r km = Inr ([map Blk js], int (length js) * int (sm_block_size (km_sm km))) \<and>
    int (length js) * int (sm_block_size (km_sm km)) < num_tokens r \<and>
    length js \<le> length (rq_block_hashes r) \<and>
    (\<forall>k<length js. usable (km_pool km) (js ! k) \<and>
       hash_of (km_pool km) (js ! k) = Some (rq_block_hashes r ! k @ gid_bytes)) \<and>
    (length js < length (rq_block_hashes r) \<and> int (Suc (length js)) * int (sm_block_size (km_sm km)) < num_tokens r \<longrightarrow>
       (\<forall>i. hash_of (km_pool km) i \<noteq> Some (rq_block_hashes r ! length js @ gid_bytes)))"
  using assms by (rule get_computed_blocks_facts)

subsection \<open>Allocation of slots\<close>

lemma cdiv_le: "0 < b \<Longrightarrow> cdiv a b \<le> c \<longleftrightarrow> a \<le> c * b"
  using le_int_div_iff [of b "- c" "- a"] by (auto simp: cdiv_def div_minus_right)

text \<open>The arithmetic of the block counts: what is missing after the computed blocks were taken over.\<close>

lemma filter_mem_count:
  assumes "distinct js" and "distinct xs"
  shows "length (filter (\<lambda>j. j \<in> set xs) js) + length (filter (\<lambda>i. i \<notin> set js) xs) = length xs"
proof -
  have "set (filter (\<lambda>j. j \<in> set xs) js) = set (filter (\<lambda>i. i \<in> set js) xs)" by auto
  with assms have "length (filter (\<lambda>j. j \<in> set xs) js) = length (filter (\<lambda>i. i \<in> set js) xs)"
    by (metis distinct_card distinct_filter)
  with sum_length_filter_compl [of "\<lambda>i. i \<in> set js" xs] show ?thesis by simp
qed

lemma sm_allocate_new_blocks_spec:
  assumes "kv_ok hs gb p (sm_req_to_blocks m) (sm_num_cached_block m) xs" and "0 < sm_block_size m"
    and "cdiv n (int (sm_block_size m)) - int (length (dget_or (sm_req_to_blocks m) rid [])) \<le> int (length xs)"
  shows "\<exists>new p' m' xs'. sm_allocate_new_blocks u rid n p m = Inr (new, p', m') \<and> same_config p p' \<and>
    kv_ok hs gb p' (sm_req_to_blocks m') (sm_num_cached_block m') xs' \<and>
    sm_num_cached_block m' = sm_num_cached_block m \<and> sm_block_size m' = sm_block_size m \<and>
    sm_kv_cache_group_id m' = sm_kv_cache_group_id m \<and>
    (\<forall>r. dget_or (sm_req_to_blocks m') r [] = dget_or (sm_req_to_blocks m) r [] @ (if r = rid then new else [])) \<and>
    n \<le> int (length (dget_or (sm_req_to_blocks m') rid [])) * int (sm_block_size m)"
proof -
  let ?T = "sm_req_to_blocks m" and ?b = "int (sm_block_size m)"
  let ?old = "dget_or ?T rid []"
  let ?T0 = "dsetdefault ?T rid []"
  let ?m0 = "snd (req_blocks rid m)"
  define k where "k = cdiv n ?b - int (length ?old)"
  have ok0: "kv_ok hs gb p ?T0 (sm_num_cached_block m) xs" using assms(1) by (rule kv_ok_setdefault)
  have b: "0 < ?b" using assms(2) by simp
  show ?thesis
  proof (cases "k \<le> 0")
    case True
    then have "sm_allocate_new_blocks u rid n p m = Inr ([], p, ?m0)"
      by (simp add: sm_allocate_new_blocks_def case_prod_beta Let_def k_def)
    moreover have "n \<le> int (length ?old) * ?b" using True cdiv_le [OF b, of n "int (length ?old)"] by (simp add: k_def)
    ultimately show ?thesis using ok0 by (intro exI [of _ "[]"] exI [of _ p] exI [of _ ?m0] exI [of _ xs]) simp
  next
    case False
    then have kn: "int (nat k) = k" and le: "nat k \<le> length xs" using assms(3) by (auto simp: k_def)
    obtain p' bs where p': "get_new_blocks u (int (nat k)) p = Inr (bs, p')" "same_config p p'" "length bs = nat k"
      "kv_ok hs gb p' (AList.update rid (dget_or ?T0 rid [] @ bs) ?T0) (sm_num_cached_block m) (drop (nat k) xs)"
      using kv_ok_extend [OF ok0 le, of u rid] by blast
    let ?m1 = "set_req_blocks rid (?old @ bs) ?m0"
    have "sm_allocate_new_blocks u rid n p m = Inr (bs, p', ?m1)"
      using False p'(1) kn by (simp add: sm_allocate_new_blocks_def case_prod_beta Let_def k_def)
    moreover have "sm_req_to_blocks ?m1 = AList.update rid (dget_or ?T0 rid [] @ bs) ?T0"
      by (simp add: set_req_blocks_def)
    moreover have "n \<le> int (length (?old @ bs)) * ?b"
      using cdiv_le [OF b, of n "int (length (?old @ bs))"] p'(3) kn by (simp add: k_def)
    ultimately show ?thesis
      using p' by (intro exI [of _ bs] exI [of _ p'] exI [of _ ?m1] exI [of _ "drop (nat k) xs"])
        (simp add: set_req_blocks_def dict_simps)
  qed
qed

lemma sm_cache_blocks_spec:
  assumes "kv_ok hs gb p (sm_req_to_blocks m) (sm_num_cached_block m) xs" and "0 < sm_block_size m"
    and "hs (rq_request_id r) = rq_block_hashes r" and "bp_enable_caching p"
    and "to_bytes_4 (sm_kv_cache_group_id m) = Inr gb"
    and "n div int (sm_block_size m) \<le> int (length (rq_block_hashes r))"
    and "n div int (sm_block_size m) \<le> int (length (dget_or (sm_req_to_blocks m) (rq_request_id r) []))"
  shows "\<exists>p' m'. sm_cache_blocks u r n p m = Inr (p', m') \<and> same_config p p' \<and>
    kv_ok hs gb p' (sm_req_to_blocks m') (sm_num_cached_block m') xs \<and> sm_block_size m' = sm_block_size m \<and>
    sm_kv_cache_group_id m' = sm_kv_cache_group_id m \<and>
    (\<forall>r. dget_or (sm_req_to_blocks m') r [] = dget_or (sm_req_to_blocks m) r [])"
proof -
  let ?rid = "rq_request_id r"
  let ?c = "dget_or (sm_num_cached_block m) ?rid 0" and ?f = "n div int (sm_block_size m)"
  show ?thesis
  proof (cases "int ?c \<ge> ?f")
    case True
    with assms(1) show ?thesis by (simp add: sm_cache_blocks_def)
  next
    case False
    let ?m0 = "snd (req_blocks ?rid m)"
    have ok0: "kv_ok hs gb p (dsetdefault (sm_req_to_blocks m) ?rid []) (sm_num_cached_block m) xs"
      using assms(1) by (rule kv_ok_setdefault)
    have "nat ?f \<le> length (rq_block_hashes r)" "nat ?f \<le> length (dget_or (dsetdefault (sm_req_to_blocks m) ?rid []) ?rid [])"
      "?c < nat ?f" using assms(6,7) False by auto
    from kv_ok_cache [OF ok0 refl assms(3-5) refl this, of u "sm_block_size m"]
    obtain p' where p': "cache_full_blocks u r (dget_or (sm_req_to_blocks m) ?rid []) ?c (nat ?f) (sm_block_size m)
        (sm_kv_cache_group_id m) p = Inr p'" "same_config p p'"
      "kv_ok hs gb p' (dsetdefault (sm_req_to_blocks m) ?rid []) (AList.update ?rid (nat ?f) (sm_num_cached_block m)) xs"
      by auto
    let ?m1 = "?m0\<lparr>sm_num_cached_block := AList.update ?rid (nat ?f) (sm_num_cached_block ?m0)\<rparr>"
    have "sm_cache_blocks u r n p m = Inr (p', ?m1)"
      using False p'(1) by (simp add: sm_cache_blocks_def Let_def case_prod_beta)
    with p' show ?thesis by (intro exI [of _ p'] exI [of _ ?m1]) simp
  qed
qed

text \<open>Computed blocks that a request may take over.\<close>

definition may_take :: "kv_manager \<Rightarrow> request \<Rightarrow> nat list \<Rightarrow> bool" where
  "may_take km r js \<longleftrightarrow> js = [] \<or>
     (km_enable_caching km \<and> km_table km (rq_request_id r) = [] \<and>
      rq_request_id r \<notin> keyset (sm_num_cached_block (km_sm km)) \<and> distinct js \<and>
      length js \<le> length (rq_block_hashes r) \<and>
      (\<forall>k<length js. usable (km_pool km) (js ! k) \<and>
         hash_of (km_pool km) (js ! k) = Some (rq_block_hashes r ! k @ gid_bytes)))"

lemma touch_save_spec:
  assumes ok: "kv_ok hs gid_bytes (kc_block_pool kc) (sm_req_to_blocks m) (sm_num_cached_block m) xs"
    and m: "kc_managers kc = [m]" and hs: "hs rid = rh"
    and comp: "js = [] \<or> (caching \<and> dget_or (sm_req_to_blocks m) rid [] = [] \<and>
      rid \<notin> keyset (sm_num_cached_block m) \<and> distinct js \<and> length js \<le> length rh \<and>
      (\<forall>k<length js. usable (kc_block_pool kc) (js ! k) \<and> hash_of (kc_block_pool kc) (js ! k) = Some (rh ! k @ gid_bytes)))"
  shows "\<exists>p' m' xs'. ebind (touch_computed caching [map Blk js] kc) (save_computed rid [map Blk js]) =
      Inr (kc\<lparr>kc_block_pool := p', kc_managers := [m']\<rparr>) \<and>
    kv_ok hs gid_bytes p' (sm_req_to_blocks m') (sm_num_cached_block m') xs' \<and> same_config (kc_block_pool kc) p' \<and>
    sm_block_size m' = sm_block_size m \<and> sm_kv_cache_group_id m' = sm_kv_cache_group_id m \<and>
    (\<forall>r. dget_or (sm_req_to_blocks m') r [] = dget_or (sm_req_to_blocks m) r [] @ (if r = rid then map Blk js else [])) \<and>
    length xs = length xs' + length (filter (\<lambda>j. j \<in> set xs) js)"
proof (cases "js = []")
  case True
  have "ebind (touch_computed caching [map Blk js] kc) (save_computed rid [map Blk js]) =
      Inr (kc\<lparr>kc_block_pool := kc_block_pool kc, kc_managers := [m]\<rparr>)"
    using True m by (simp add: touch_computed_def save_computed_def any_block_def)
  with True ok show ?thesis by (intro exI [of _ "kc_block_pool kc"] exI [of _ m] exI [of _ xs]) simp
next
  case False
  let ?bs = "map Blk js" and ?T = "sm_req_to_blocks m" and ?C = "sm_num_cached_block m"
  from False comp have c: "caching" "dget_or ?T rid [] = []" "rid \<notin> keyset ?C" "distinct js" "length js \<le> length rh"
    "\<And>k. k < length js \<Longrightarrow> usable (kc_block_pool kc) (js ! k) \<and> hash_of (kc_block_pool kc) (js ! k) = Some (rh ! k @ gid_bytes)"
    by blast+
  have us: "usable (kc_block_pool kc) j" if "j \<in> set js" for j using that c(6) by (metis in_set_conv_nth)
  have ok0: "kv_ok hs gid_bytes (kc_block_pool kc) (dsetdefault ?T rid []) ?C xs" using ok by (rule kv_ok_setdefault)
  have "dget_or (dsetdefault ?T rid []) rid [] = []" using c(2) by simp
  from kv_ok_touch_save [OF ok0 this refl c(4) us]
  obtain p' where p': "touch [?bs] (kc_block_pool kc) = Inr p'" "same_config (kc_block_pool kc) p'"
    "kv_ok hs gid_bytes p' (AList.update rid ?bs (dsetdefault ?T rid [])) (AList.update rid (length ?bs) ?C)
       (filter (\<lambda>i. i \<notin> set js) xs)"
    using c(5,6) hs by blast
  let ?m = "(set_req_blocks rid ?bs (snd (req_blocks rid m)))\<lparr>sm_num_cached_block := AList.update rid (length ?bs) ?C\<rparr>"
  have "map_of ?C rid = None" using c(3) by (simp add: map_of_None_iff)
  then have "sm_save_new_computed_blocks rid ?bs m = Inr ?m"
    using c(2) by (simp add: sm_save_new_computed_blocks_def case_prod_beta Let_def set_req_blocks_def)
  then have "ebind (touch_computed caching [?bs] kc) (save_computed rid [?bs]) =
      Inr (kc\<lparr>kc_block_pool := p', kc_managers := [?m]\<rparr>)"
    using False c(1) p'(1) m
    by (simp add: touch_computed_def save_computed_def any_block_def kc_save_new_computed_blocks_def)
  moreover have "sm_req_to_blocks ?m = AList.update rid ?bs (dsetdefault ?T rid [])" by (simp add: set_req_blocks_def)
  moreover have "length xs = length (filter (\<lambda>i. i \<notin> set js) xs) + length (filter (\<lambda>j. j \<in> set xs) js)"
    using filter_mem_count [OF c(4) pool_repD(5) [OF kv_okD(1) [OF ok]]] by simp
  ultimately show ?thesis
    using p'(2,3) c(2) by (intro exI [of _ p'] exI [of _ ?m] exI [of _ "filter (\<lambda>i. i \<notin> set js) xs"])
      (simp add: set_req_blocks_def dict_simps)
qed

lemma evictable_count:
  assumes "pool_rep p xs" and "\<And>j. j \<in> set js \<Longrightarrow> usable p j"
  shows "filter (\<lambda>b. kb_ref_cnt (heap_of p b) = 0 \<and> \<not> kb_is_null (heap_of p b)) (map Blk js) =
    map Blk (filter (\<lambda>j. j \<in> set xs) js)"
  unfolding filter_map o_def
proof (rule arg_cong [of _ _ "map Blk"], rule filter_cong [OF refl])
  fix j assume "j \<in> set js"
  with assms(2) show "(ref_of p j = 0 \<and> \<not> kb_is_null (heap_of p (Blk j))) = (j \<in> set xs)"
    using counts_okD(3) [OF pool_repD(3) [OF assms(1)]] pool_repD(2) [OF assms(1)]
    by (auto simp: labels_ok_def usable_def)
qed

lemma commit_blocks_spec:
  assumes "kc_managers kc = [m]" and "kc_block_pool kc = p"
    and "kv_ok hs gid_bytes p (sm_req_to_blocks m) (sm_num_cached_block m) xs" and "0 < sm_block_size m"
    and "hs (rq_request_id r) = rq_block_hashes r" and "bp_enable_caching p = caching"
    and "sm_kv_cache_group_id m = 0"
    and "caching \<longrightarrow> num_tokens r div int (sm_block_size m) \<le> int (length (rq_block_hashes r))"
    and "min n (num_tokens r) \<le> int (length (dget_or (sm_req_to_blocks m) (rq_request_id r) [])) * int (sm_block_size m)"
  shows "\<exists>p' m'. commit_blocks u caching delay r (min n (num_tokens r)) kc =
      Inr (kc\<lparr>kc_block_pool := p', kc_managers := [m']\<rparr>) \<and> same_config p p' \<and>
    kv_ok hs gid_bytes p' (sm_req_to_blocks m') (sm_num_cached_block m') xs \<and> sm_block_size m' = sm_block_size m \<and>
    sm_kv_cache_group_id m' = 0 \<and> (\<forall>r. dget_or (sm_req_to_blocks m') r [] = dget_or (sm_req_to_blocks m) r [])"
proof (cases "\<not> caching \<or> delay")
  case True
  have "kc = kc\<lparr>kc_block_pool := p, kc_managers := [m]\<rparr>" using assms(1,2) by simp
  with True assms(3,7) show ?thesis by (intro exI [of _ p] exI [of _ m]) (simp add: commit_blocks_def)
next
  case False
  let ?b = "int (sm_block_size m)" and ?n = "min n (num_tokens r)"
  let ?len = "int (length (dget_or (sm_req_to_blocks m) (rq_request_id r) []))"
  have "?n div ?b \<le> num_tokens r div ?b" using assms(4) by (intro zdiv_mono1) auto
  then have "?n div ?b \<le> int (length (rq_block_hashes r))" using assms(8) False by simp
  moreover have "?n div ?b \<le> ?len * ?b div ?b" using assms(4,9) by (intro zdiv_mono1) auto
  then have "?n div ?b \<le> ?len" using assms(4) by simp
  ultimately obtain p' m' where "sm_cache_blocks u r ?n p m = Inr (p', m')" "same_config p p'"
    "kv_ok hs gid_bytes p' (sm_req_to_blocks m') (sm_num_cached_block m') xs" "sm_block_size m' = sm_block_size m"
    "sm_kv_cache_group_id m' = 0" "\<forall>r. dget_or (sm_req_to_blocks m') r [] = dget_or (sm_req_to_blocks m) r []"
    using sm_cache_blocks_spec [OF assms(3), of r ?n u] assms(4-7) gid_bytes False by auto
  with False assms(1,2) show ?thesis
    by (intro exI [of _ p'] exI [of _ m']) (simp add: commit_blocks_def kc_cache_blocks_def on_managers_def)
qed

lemma take_blocks_spec:
  assumes ok: "kv_ok hs gid_bytes (kc_block_pool kc) (sm_req_to_blocks m) (sm_num_cached_block m) xs"
    and m: "kc_managers kc = [m]" "0 < sm_block_size m" and hs: "hs rid = rh"
    and comp: "js = [] \<or> (caching \<and> dget_or (sm_req_to_blocks m) rid [] = [] \<and>
      rid \<notin> keyset (sm_num_cached_block m) \<and> distinct js \<and> length js \<le> length rh \<and>
      (\<forall>k<length js. usable (kc_block_pool kc) (js ! k) \<and> hash_of (kc_block_pool kc) (js ! k) = Some (rh ! k @ gid_bytes)))"
    and room: "cdiv need (int (sm_block_size m)) - int (length js) - int (length (dget_or (sm_req_to_blocks m) rid [])) +
      int (length (filter (\<lambda>j. j \<in> set xs) js)) \<le> int (length xs)"
  obtains kc3 kc4 new p m' xs' where "touch_computed caching [map Blk js] kc = Inr kc3" "save_computed rid [map Blk js] kc3 = Inr kc4"
    "kc_allocate_new_blocks u rid need kc4 = Inr ([new], kc\<lparr>kc_block_pool := p, kc_managers := [m']\<rparr>)"
    "same_config (kc_block_pool kc) p" "kv_ok hs gid_bytes p (sm_req_to_blocks m') (sm_num_cached_block m') xs'"
    "sm_block_size m' = sm_block_size m" "sm_kv_cache_group_id m' = sm_kv_cache_group_id m"
    "\<And>r. dget_or (sm_req_to_blocks m') r [] = dget_or (sm_req_to_blocks m) r [] @ (if r = rid then map Blk js @ new else [])"
    "need \<le> int (length (dget_or (sm_req_to_blocks m') rid [])) * int (sm_block_size m)"
proof -
  from touch_save_spec [OF ok m(1) hs comp]
  obtain p4 m4 xs4 where st4: "ebind (touch_computed caching [map Blk js] kc) (save_computed rid [map Blk js]) =
      Inr (kc\<lparr>kc_block_pool := p4, kc_managers := [m4]\<rparr>)"
    and ok4: "kv_ok hs gid_bytes p4 (sm_req_to_blocks m4) (sm_num_cached_block m4) xs4"
    and m4: "same_config (kc_block_pool kc) p4" "sm_block_size m4 = sm_block_size m" "sm_kv_cache_group_id m4 = sm_kv_cache_group_id m"
      "\<And>r. dget_or (sm_req_to_blocks m4) r [] = dget_or (sm_req_to_blocks m) r [] @ (if r = rid then map Blk js else [])"
      "length xs = length xs4 + length (filter (\<lambda>j. j \<in> set xs) js)"
    by auto
  let ?kc4 = "kc\<lparr>kc_block_pool := p4, kc_managers := [m4]\<rparr>"
  obtain kc3 where kc3: "touch_computed caching [map Blk js] kc = Inr kc3" "save_computed rid [map Blk js] kc3 = Inr ?kc4"
    using st4 by (auto simp: ebind_eq_Inr)
  have "cdiv need (int (sm_block_size m4)) - int (length (dget_or (sm_req_to_blocks m4) rid [])) \<le> int (length xs4)"
    using room m4(2,4,5) by simp
  from sm_allocate_new_blocks_spec [OF ok4 _ this, of u] m(2) m4(2)
  obtain new p5 m5 xs5 where st5: "sm_allocate_new_blocks u rid need p4 m4 = Inr (new, p5, m5)" "same_config p4 p5"
    "kv_ok hs gid_bytes p5 (sm_req_to_blocks m5) (sm_num_cached_block m5) xs5"
    "sm_block_size m5 = sm_block_size m" "sm_kv_cache_group_id m5 = sm_kv_cache_group_id m"
    "\<And>r. dget_or (sm_req_to_blocks m5) r [] = dget_or (sm_req_to_blocks m4) r [] @ (if r = rid then new else [])"
    "need \<le> int (length (dget_or (sm_req_to_blocks m5) rid [])) * int (sm_block_size m)"
    using m4(3) by auto
  have "kc_allocate_new_blocks u rid need ?kc4 = Inr ([new], kc\<lparr>kc_block_pool := p5, kc_managers := [m5]\<rparr>)"
    using st5(1) by (simp add: kc_allocate_new_blocks_def)
  with kc3 show thesis
    by (rule that [OF _ _ _ _ st5(3-5) _ st5(7)]) (use m4(1,4) st5(2,6) in \<open>simp_all add: same_config_def\<close>)
qed

lemma take_commit_spec:
  assumes ok: "kv_ok hs gid_bytes (kc_block_pool kc) (sm_req_to_blocks m) (sm_num_cached_block m) xs"
    and m: "kc_managers kc = [m]" "0 < sm_block_size m" "sm_kv_cache_group_id m = 0" "bp_enable_caching (kc_block_pool kc) = caching"
    and hs: "rid = rq_request_id r" "hs rid = rq_block_hashes r"
    and cover: "caching \<longrightarrow> num_tokens r div int (sm_block_size m) \<le> int (length (rq_block_hashes r))"
    and comp: "js = [] \<or> (caching \<and> dget_or (sm_req_to_blocks m) rid [] = [] \<and>
      rid \<notin> keyset (sm_num_cached_block m) \<and> distinct js \<and> length js \<le> length (rq_block_hashes r) \<and>
      (\<forall>k<length js. usable (kc_block_pool kc) (js ! k) \<and>
        hash_of (kc_block_pool kc) (js ! k) = Some (rq_block_hashes r ! k @ gid_bytes)))"
    and room: "cdiv need (int (sm_block_size m)) - int (length js) - int (length (dget_or (sm_req_to_blocks m) rid [])) +
      int (length (filter (\<lambda>j. j \<in> set xs) js)) \<le> int (length xs)" and n: "min n (num_tokens r) \<le> need"
  obtains kc3 kc4 kc5 new p m' xs' where "touch_computed caching [map Blk js] kc = Inr kc3" "save_computed rid [map Blk js] kc3 = Inr kc4"
    "kc_allocate_new_blocks u rid need kc4 = Inr ([new], kc5)"
    "commit_blocks u caching delay r (min n (num_tokens r)) kc5 = Inr (kc\<lparr>kc_block_pool := p, kc_managers := [m']\<rparr>)"
    "same_config (kc_block_pool kc) p" "kv_ok hs gid_bytes p (sm_req_to_blocks m') (sm_num_cached_block m') xs'"
    "sm_block_size m' = sm_block_size m" "sm_kv_cache_group_id m' = 0"
    "\<And>r. dget_or (sm_req_to_blocks m') r [] = dget_or (sm_req_to_blocks m) r [] @ (if r = rid then map Blk js @ new else [])"
    "need \<le> int (length (dget_or (sm_req_to_blocks m') rid [])) * int (sm_block_size m)"
proof -
  obtain kc3 kc4 new p5 m5 xs5 where take: "touch_computed caching [map Blk js] kc = Inr kc3" "save_computed rid [map Blk js] kc3 = Inr kc4"
      "kc_allocate_new_blocks u rid need kc4 = Inr ([new], kc\<lparr>kc_block_pool := p5, kc_managers := [m5]\<rparr>)"
    and st5: "same_config (kc_block_pool kc) p5" "kv_ok hs gid_bytes p5 (sm_req_to_blocks m5) (sm_num_cached_block m5) xs5"
      "sm_block_size m5 = sm_block_size m" "sm_kv_cache_group_id m5 = 0"
      "\<And>r. dget_or (sm_req_to_blocks m5) r [] = dget_or (sm_req_to_blocks m) r [] @ (if r = rid then map Blk js @ new else [])"
      "need \<le> int (length (dget_or (sm_req_to_blocks m5) rid [])) * int (sm_block_size m)"
    by (rule take_blocks_spec [OF ok m(1,2) hs(2) comp room, of u]) (use m(3) in auto)
  let ?kc5 = "kc\<lparr>kc_block_pool := p5, kc_managers := [m5]\<rparr>"
  have "\<exists>p' m'. commit_blocks u caching delay r (min n (num_tokens r)) ?kc5 =
      Inr (?kc5\<lparr>kc_block_pool := p', kc_managers := [m']\<rparr>) \<and> same_config p5 p' \<and>
    kv_ok hs gid_bytes p' (sm_req_to_blocks m') (sm_num_cached_block m') xs5 \<and> sm_block_size m' = sm_block_size m5 \<and>
    sm_kv_cache_group_id m' = 0 \<and> (\<forall>r. dget_or (sm_req_to_blocks m') r [] = dget_or (sm_req_to_blocks m5) r [])"
    by (rule commit_blocks_spec) (use st5 m hs cover n in \<open>simp_all add: same_config_def\<close>)
  then obtain p6 m6 where st6: "commit_blocks u caching delay r (min n (num_tokens r)) ?kc5 = Inr (kc\<lparr>kc_block_pool := p6, kc_managers := [m6]\<rparr>)"
    "same_config p5 p6" "kv_ok hs gid_bytes p6 (sm_req_to_blocks m6) (sm_num_cached_block m6) xs5" "sm_block_size m6 = sm_block_size m"
    "sm_kv_cache_group_id m6 = 0" "\<And>r. dget_or (sm_req_to_blocks m6) r [] = dget_or (sm_req_to_blocks m5) r []" using st5(3) by auto
  from take st6(1) show thesis
    by (rule that [OF _ _ _ _ _ st6(3-5)]) (use st5 st6(2,6) in \<open>simp_all add: same_config_def\<close>)
qed

lemma allocate_slots_spec:
  assumes inv: "kv_inv hs km" and hs: "hs (rq_request_id r) = rq_block_hashes r"
    and cover: "km_enable_caching km \<longrightarrow> num_tokens r div int (sm_block_size (km_sm km)) \<le> int (length (rq_block_hashes r))"
    and len: "num_tokens r \<le> km_max_model_len km" and new: "nnew \<noteq> 0" and la: "0 \<le> la"
    and comp: "may_take km r js"
  shows "\<exists>res km'. km_allocate_slots u r nnew ncomp (Some [map Blk js]) la delay km = Inr (res, km') \<and> kv_inv hs km' \<and>
    (case res of
       None \<Rightarrow> (\<forall>rid. km_table km' rid = km_table km rid)
     | Some nb \<Rightarrow> \<exists>new. nb = [new] \<and>
         (\<forall>rid. km_table km' rid = km_table km rid @ (if rid = rq_request_id r then map Blk js @ new else [])) \<and>
         min (rq_num_computed_tokens r + ncomp + nnew + la) (km_max_model_len km) \<le>
           int (length (km_table km' (rq_request_id r))) * int (sm_block_size (km_sm km)))"
proof -
  let ?rid = "rq_request_id r" and ?p = "km_pool km" and ?kc = "km_coordinator km"
  obtain m xs where m: "kc_managers ?kc = [m]" "0 < sm_block_size m" "sm_kv_cache_group_id m = 0"
    "kc_enable_caching ?kc = km_enable_caching km" "bp_enable_caching ?p = km_enable_caching km"
    and ok: "kv_ok hs gid_bytes ?p (sm_req_to_blocks m) (sm_num_cached_block m) xs"
    using inv by (rule kv_invE)
  let ?b = "int (sm_block_size m)" and ?T = "sm_req_to_blocks m"
  define need where "need = min (rq_num_computed_tokens r + ncomp + nnew + la) (km_max_model_len km)"
  have tab: "km_table km rid = dget_or ?T rid []" for rid using m(1) by (simp add: km_table_def)
  let ?m0 = "snd (req_blocks ?rid m)"
  have ok0: "kv_ok hs gid_bytes ?p (sm_req_to_blocks ?m0) (sm_num_cached_block ?m0) xs"
    using kv_ok_setdefault [OF ok] by simp
  note free = free_count(1) [OF kv_okD(1) [OF ok]]
  have skip: "kc_remove_skipped_blocks ?rid (rq_num_computed_tokens r) ?kc = Inr ?kc"
    using m(1) by (simp add: kc_remove_skipped_blocks_def on_managers_def sm_remove_skipped_blocks_def
        get_num_skipped_tokens_def)
  define k where "k = fst (sm_get_num_blocks_to_allocate ?rid need (map Blk js) ?p m)"
  have count: "kc_get_num_blocks_to_allocate ?rid need [map Blk js] ?kc = Inr (k, ?kc\<lparr>kc_managers := [?m0]\<rparr>)"
    using m(1) by (simp add: kc_get_num_blocks_to_allocate_def k_def sm_get_num_blocks_to_allocate_def
        case_prod_beta Let_def)
  show ?thesis
  proof (cases "k > int (length xs)")
    case True
    let ?km = "km\<lparr>km_coordinator := ?kc\<lparr>kc_managers := [?m0]\<rparr>\<rparr>"
    have "km_allocate_slots u r nnew ncomp (Some [map Blk js]) la delay km = Inr (None, ?km)"
      using True new free skip count
      by (simp add: km_allocate_slots_def Let_def need_def [symmetric])
    moreover have "kv_inv hs ?km" by (rule kv_invI [of _ ?m0]) (use m ok0 in simp_all)
    moreover have "km_table ?km rid = km_table km rid" for rid by (simp add: tab) (simp add: km_table_def)
    ultimately show ?thesis by (intro exI [of _ None] exI [of _ ?km]) simp
  next
    case False
    let ?kc2 = "?kc\<lparr>kc_managers := [?m0]\<rparr>"
    have ok2: "kv_ok hs gid_bytes (kc_block_pool ?kc2) (sm_req_to_blocks ?m0) (sm_num_cached_block ?m0) xs" using ok0 by simp
    have us: "usable ?p j" if "j \<in> set js" for j
      using that comp by (auto simp: may_take_def in_set_conv_nth)
    from evictable_count [OF kv_okD(1) [OF ok], of js] us
    have "k = cdiv need ?b - int (length js) - int (length (dget_or ?T ?rid [])) + int (length (filter (\<lambda>j. j \<in> set xs) js))"
      by (simp add: k_def sm_get_num_blocks_to_allocate_def case_prod_beta Let_def)
    then have room: "cdiv need (int (sm_block_size ?m0)) - int (length js) - int (length (dget_or (sm_req_to_blocks ?m0) ?rid [])) +
        int (length (filter (\<lambda>j. j \<in> set xs) js)) \<le> int (length xs)" using False by simp
    let ?n = "min (rq_num_computed_tokens r + ncomp + nnew) (num_tokens r)"
    have n: "?n \<le> need" using la len unfolding need_def by linarith
    obtain kc3 kc4 kc5 new p6 m6 xs6 where kc3: "touch_computed (km_enable_caching km) [map Blk js] ?kc2 = Inr kc3"
        "save_computed ?rid [map Blk js] kc3 = Inr kc4" "kc_allocate_new_blocks u ?rid need kc4 = Inr ([new], kc5)"
        "commit_blocks u (km_enable_caching km) delay r ?n kc5 = Inr (?kc2\<lparr>kc_block_pool := p6, kc_managers := [m6]\<rparr>)"
      and st6: "same_config ?p p6" "kv_ok hs gid_bytes p6 (sm_req_to_blocks m6) (sm_num_cached_block m6) xs6"
        "sm_block_size m6 = sm_block_size m" "sm_kv_cache_group_id m6 = 0"
        "\<And>r. dget_or (sm_req_to_blocks m6) r [] = dget_or ?T r [] @ (if r = ?rid then map Blk js @ new else [])"
        "need \<le> int (length (dget_or (sm_req_to_blocks m6) ?rid [])) * ?b"
      by (rule take_commit_spec [OF ok2 _ _ _ _ refl hs _ _ room n, where caching = "km_enable_caching km" and u = u and delay = delay])
        (use comp cover m in \<open>auto simp: may_take_def km_table_def\<close>)
    let ?km = "km\<lparr>km_coordinator := ?kc2\<lparr>kc_block_pool := p6, kc_managers := [m6]\<rparr>\<rparr>"
    have "km_allocate_slots u r nnew ncomp (Some [map Blk js]) la delay km =
        Inr (Some (create_kv_cache_blocks [new] ?km), ?km)"
      using False new free skip count kc3
      by (simp add: km_allocate_slots_def Let_def need_def [symmetric])
    moreover have "create_kv_cache_blocks [new] ?km = [new]"
      by (simp add: create_kv_cache_blocks_def any_block_def empty_kv_cache_blocks_def)
    moreover have "kv_inv hs ?km"
      by (rule kv_invI [of _ m6]) (use m st6 in \<open>simp_all add: same_config_def\<close>)
    moreover have "km_table ?km rid = km_table km rid @ (if rid = ?rid then map Blk js @ new else [])" for rid
      using st6(5) by (simp add: tab) (simp add: km_table_def)
    moreover have "need \<le> int (length (km_table ?km ?rid)) * int (sm_block_size (km_sm km))"
      using st6(6) m(1) by (simp add: km_table_def)
    ultimately show ?thesis
      unfolding need_def by (intro exI [of _ "Some [new]"] exI [of _ ?km]) simp
  qed
qed


lemma computed_may_take:
  assumes "\<And>k. k < length js \<Longrightarrow> usable (km_pool km) (js ! k) \<and>
      hash_of (km_pool km) (js ! k) = Some (rq_block_hashes r ! k @ gid_bytes)"
    and "length js \<le> length (rq_block_hashes r)" and "distinct (rq_block_hashes r)"
    and "km_enable_caching km" and "km_table km (rq_request_id r) = []"
    and "rq_request_id r \<notin> keyset (sm_num_cached_block (km_sm km))"
  shows "may_take km r js"
proof -
  have "js ! i \<noteq> js ! j" if "i < length js" "j < length js" "i \<noteq> j" for i j
  proof
    assume "js ! i = js ! j"
    with assms(1) [of i] assms(1) [of j] that have "rq_block_hashes r ! i = rq_block_hashes r ! j" by simp
    with assms(2,3) that show False by (simp add: nth_eq_iff_index_eq)
  qed
  then have "distinct js" by (simp add: distinct_conv_nth)
  with assms show ?thesis by (simp add: may_take_def)
qed

lemma shared_prefix_spec:
  assumes "kv_inv hs km" and "km_enable_caching km" and "\<not> kc_use_eagle (km_coordinator km)"
    and "\<forall>sp. rq_sampling_params r = Some sp \<longrightarrow> sp_prompt_logprobs sp = None" and "num_tokens r \<ge> 1"
    and "n = dget_or (sm_num_cached_block (km_sm km)) parent 0"
    and "take n (rq_block_hashes r) = take n (hs parent)"
    and "int n * int (sm_block_size (km_sm km)) < num_tokens r"
  shows "\<exists>js. km_get_computed_blocks r km = Inr ([map Blk js], int (length js) * int (sm_block_size (km_sm km))) \<and>
    n \<le> length js \<and> (\<forall>k<n. hash_of (km_pool km) (js ! k) = Some (hs parent ! k @ gid_bytes))"
proof -
  let ?b = "int (sm_block_size (km_sm km))"
  obtain js where js: "km_get_computed_blocks r km = Inr ([map Blk js], int (length js) * ?b)"
    "\<And>k. k < length js \<Longrightarrow> hash_of (km_pool km) (js ! k) = Some (rq_block_hashes r ! k @ gid_bytes)"
    and stop: "length js < length (rq_block_hashes r) \<Longrightarrow> int (Suc (length js)) * ?b < num_tokens r \<Longrightarrow>
       \<forall>i. hash_of (km_pool km) i \<noteq> Some (rq_block_hashes r ! length js @ gid_bytes)"
    using get_computed_blocks_facts [OF assms(1-5)] by blast
  obtain m xs where m: "kc_managers (km_coordinator km) = [m]" "0 < sm_block_size m"
    and ok: "kv_ok hs gid_bytes (km_pool km) (sm_req_to_blocks m) (sm_num_cached_block m) xs"
    using assms(1) by (elim kv_invE) blast
  let ?t = "dget_or (sm_req_to_blocks m) parent []"
  have cp: "cached_prefix (km_pool km) ?t n (hs parent) gid_bytes"
    using kv_okD(7) [OF ok, of parent] assms(6) m(1) by simp
  have len: "n \<le> length (rq_block_hashes r)"
    using arg_cong [OF assms(7), of length] cp by (simp add: cached_prefix_def)
  have eq: "rq_block_hashes r ! k = hs parent ! k" if "k < n" for k
    using arg_cong [OF assms(7), of "\<lambda>l. l ! k"] that by simp
  have "n \<le> length js"
  proof (rule ccontr)
    assume "\<not> n \<le> length js"
    then have lt: "length js < n" by simp
    then have "int (Suc (length js)) * ?b \<le> int n * ?b" by (intro mult_right_mono) auto
    with stop lt len assms(8) eq have none: "\<forall>i. hash_of (km_pool km) i \<noteq> Some (hs parent ! length js @ gid_bytes)" by auto
    have "kb_block_hash (heap_of (km_pool km) (?t ! length js)) = Some (hs parent ! length js @ gid_bytes)"
      "length js < length ?t" using cp lt by (auto simp: cached_prefix_def)
    moreover have "\<exists>i. ?t ! length js = Blk i"
      using nth_mem [OF \<open>length js < length ?t\<close>] kv_ok_table [OF ok, of parent] by (auto simp: blocks_ok_def)
    ultimately show False using none by auto
  qed
  with js eq show ?thesis by (intro exI [of _ js]) simp
qed


subsection \<open>Instances\<close>

definition sample_km :: kv_manager where
  "sample_km = (case init_kv_manager 100 True False False 4 2 1 of Inr km \<Rightarrow> km | Inl _ \<Rightarrow> undefined)"

lemma sample_km: "kv_inv hs sample_km" "km_enable_caching sample_km" "\<not> kc_use_eagle (km_coordinator sample_km)"
  "km_max_model_len sample_km = 100" "sm_block_size (km_sm sample_km) = 2"
  "sm_num_cached_block (km_sm sample_km) = []" "km_table sample_km rid = []"
proof -
  obtain km where km: "init_kv_manager 100 True False False 4 2 1 = Inr km" "kv_inv hs km" "km_table km rid = []"
    using init_kv_inv [of 4 2 100 True False False 1 hs] by auto
  then have eq: "sample_km = km" by (simp add: sample_km_def)
  show "kv_inv hs sample_km" "km_table sample_km rid = []" using km(2,3) eq by simp_all
  from km(1) show "km_enable_caching sample_km" "\<not> kc_use_eagle (km_coordinator sample_km)"
    "km_max_model_len sample_km = 100" "sm_block_size (km_sm sample_km) = 2" "sm_num_cached_block (km_sm sample_km) = []"
    unfolding eq by (auto simp: init_kv_manager_def new_st_manager_def ebind_eq_Inr)
qed

lemma hashed_sample_request:
  "num_tokens (hashed_sample rid toks) = int (length toks)" "rq_request_id (hashed_sample rid toks) = rid"
  "rq_sampling_params (hashed_sample rid toks) = Some sample_params" "sp_prompt_logprobs sample_params = None"
  by (simp_all add: hashed_sample_def num_tokens_def init_block_hashes_def sample_request_def sample_params_def)



end
