(* ===== verification/Request_Queue.thy ===== *)
theory Request_Queue
  imports Request "HOL-Library.Product_Lexorder"
begin

text \<open>
  \<open>vllm/v1/core/sched/request_queue.py\<close>: the queues of waiting requests. A queue holds references to
  requests, which are request ids here; \<open>attr\<close> gives the priority and the arrival time of a request.
  The first-come-first-served queue is a double-ended queue; the priority queue is an array heap
  driven by the algorithms of \<open>heapq\<close>, which compare tuples \<open>(priority, arrival_time, request)\<close>: when
  both numbers tie, Python compares two \<open>Request\<close> objects, which have no order, and raises
  \<open>TypeError\<close>. What the scheduler needs of a queue is the locale \<open>waiting_queue\<close>.
\<close>

datatype scheduling_policy = FCFS | PRIORITY | GAMBIT

type_synonym heap_entry = "int \<times> rat \<times> reqid"

subsection \<open>The algorithms of heapq\<close>

definition entry_lt :: "heap_entry \<Rightarrow> heap_entry \<Rightarrow> bool result" where
  "entry_lt a b = (case a of (p, t, r) \<Rightarrow> case b of (p', t', r') \<Rightarrow>
     if p \<noteq> p' then Inr (p < p') else if t \<noteq> t' then Inr (t < t')
     else if r = r' then Inr False else Inl TypeError)"

definition parent :: "nat \<Rightarrow> nat" where
  "parent pos = (pos - 1) div 2"

lemma parent_less: "0 < i \<Longrightarrow> parent i < i"
  by (auto simp: parent_def)

lemma parent_iff: "0 < c \<Longrightarrow> parent c = p \<longleftrightarrow> c = 2 * p + 1 \<or> c = 2 * p + 1 + 1"
  by (auto simp: parent_def)

text \<open>Moves the item at \<open>pos\<close> towards the root while it is smaller than its parent.\<close>

function sift_down :: "heap_entry \<Rightarrow> nat \<Rightarrow> nat \<Rightarrow> heap_entry list \<Rightarrow> heap_entry list result" where
  "sift_down newitem startpos pos heap =
     (if pos > startpos then
        let parentpos = parent pos in
        ebind (entry_lt newitem (heap ! parentpos)) (\<lambda>lt.
          if lt then sift_down newitem startpos parentpos (heap[pos := heap ! parentpos])
          else Inr (heap[pos := newitem]))
      else Inr (heap[pos := newitem]))"
  by pat_completeness auto
termination by (relation "measure (\<lambda>(_, _, pos, _). pos)") (auto simp: parent_less)

declare sift_down.simps [simp del]

text \<open>Moves the smaller child up until a leaf is reached, then sifts the item down from there.\<close>

function sift_up_loop :: "heap_entry \<Rightarrow> nat \<Rightarrow> nat \<Rightarrow> heap_entry list \<Rightarrow> heap_entry list result" where
  "sift_up_loop newitem startpos pos heap =
     (let childpos = 2 * pos + 1 in
      if childpos < length heap then
        ebind (if childpos + 1 < length heap then
                 ebind (entry_lt (heap ! childpos) (heap ! (childpos + 1))) (\<lambda>lt.
                   Inr (if \<not> lt then childpos + 1 else childpos))
               else Inr childpos)
          (\<lambda>c. sift_up_loop newitem startpos c (heap[pos := heap ! c]))
      else sift_down newitem startpos pos (heap[pos := newitem]))"
  by pat_completeness auto
termination
  by (relation "measure (\<lambda>(_, _, pos, heap). length heap - pos)") (auto simp: ebind_eq_Inr split: if_splits)

declare sift_up_loop.simps [simp del]

definition sift_up :: "nat \<Rightarrow> heap_entry list \<Rightarrow> heap_entry list result" where
  "sift_up pos heap = sift_up_loop (heap ! pos) pos pos heap"

definition heappush :: "heap_entry \<Rightarrow> heap_entry list \<Rightarrow> heap_entry list result" where
  "heappush item heap = sift_down item 0 (length heap) (heap @ [item])"

definition heappop :: "heap_entry list \<Rightarrow> (heap_entry \<times> heap_entry list) result" where
  "heappop heap =
     (if heap = [] then Inl IndexError
      else let lastelt = last heap; rest = butlast heap in
        if rest = [] then Inr (lastelt, [])
        else ebind (sift_up 0 (rest[0 := lastelt])) (\<lambda>h. Inr (rest ! 0, h)))"

fun heapify_loop :: "nat list \<Rightarrow> heap_entry list \<Rightarrow> heap_entry list result" where
  "heapify_loop [] heap = Inr heap"
| "heapify_loop (i # is) heap = ebind (sift_up i heap) (heapify_loop is)"

definition heapify :: "heap_entry list \<Rightarrow> heap_entry list result" where
  "heapify heap = heapify_loop (rev [0..<length heap div 2]) heap"

fun heap_drain :: "nat \<Rightarrow> heap_entry list \<Rightarrow> reqid list result" where
  "heap_drain 0 heap = Inr []"
| "heap_drain (Suc n) heap =
     (if heap = [] then Inr []
      else ebind (heappop heap) (\<lambda>((_, _, r), heap'). ebind (heap_drain n heap') (\<lambda>rs. Inr (r # rs))))"

subsection \<open>The queues\<close>

datatype request_queue = FCFSQueue "reqid list" | PriorityQueue "heap_entry list"

definition create_request_queue :: "scheduling_policy \<Rightarrow> request_queue" where
  "create_request_queue policy = (if policy = PRIORITY then PriorityQueue [] else FCFSQueue [])"

fun queue_add :: "(reqid \<Rightarrow> int \<times> rat) \<Rightarrow> reqid \<Rightarrow> request_queue \<Rightarrow> request_queue result" where
  "queue_add attr r (FCFSQueue xs) = Inr (FCFSQueue (xs @ [r]))"
| "queue_add attr r (PriorityQueue h) =
     (case attr r of (p, t) \<Rightarrow> ebind (heappush (p, t, r) h) (\<lambda>h'. Inr (PriorityQueue h')))"

fun queue_pop :: "request_queue \<Rightarrow> (reqid \<times> request_queue) result" where
  "queue_pop (FCFSQueue xs) = (case xs of [] \<Rightarrow> Inl IndexError | x # xs' \<Rightarrow> Inr (x, FCFSQueue xs'))"
| "queue_pop (PriorityQueue h) =
     (if h = [] then Inl IndexError
      else ebind (heappop h) (\<lambda>((_, _, r), h'). Inr (r, PriorityQueue h')))"

fun queue_peek :: "request_queue \<Rightarrow> reqid result" where
  "queue_peek (FCFSQueue xs) = (case xs of [] \<Rightarrow> Inl IndexError | x # _ \<Rightarrow> Inr x)"
| "queue_peek (PriorityQueue h) = (case h of [] \<Rightarrow> Inl IndexError | (_, _, r) # _ \<Rightarrow> Inr r)"

fun queue_prepend :: "(reqid \<Rightarrow> int \<times> rat) \<Rightarrow> reqid \<Rightarrow> request_queue \<Rightarrow> request_queue result" where
  "queue_prepend attr r (FCFSQueue xs) = Inr (FCFSQueue (r # xs))"
| "queue_prepend attr r (PriorityQueue h) = queue_add attr r (PriorityQueue h)"

fun queue_iter :: "request_queue \<Rightarrow> reqid list result" where
  "queue_iter (FCFSQueue xs) = Inr xs"
| "queue_iter (PriorityQueue h) = heap_drain (length h) h"

definition queue_reversed :: "request_queue \<Rightarrow> reqid list result" where
  "queue_reversed q = ebind (queue_iter q) (\<lambda>rs. Inr (rev rs))"

fun queue_add_all :: "(reqid \<Rightarrow> int \<times> rat) \<Rightarrow> reqid list \<Rightarrow> request_queue \<Rightarrow> request_queue result" where
  "queue_add_all attr [] q = Inr q"
| "queue_add_all attr (r # rs) q = ebind (queue_add attr r q) (queue_add_all attr rs)"

fun queue_prepend_requests ::
  "(reqid \<Rightarrow> int \<times> rat) \<Rightarrow> request_queue \<Rightarrow> request_queue \<Rightarrow> request_queue result" where
  "queue_prepend_requests attr other (FCFSQueue xs) =
     ebind (queue_reversed other) (\<lambda>rs. Inr (FCFSQueue (foldl (\<lambda>q r. r # q) xs rs)))"
| "queue_prepend_requests attr other (PriorityQueue h) =
     ebind (queue_iter other) (\<lambda>rs. queue_add_all attr rs (PriorityQueue h))"

fun queue_remove :: "reqid \<Rightarrow> request_queue \<Rightarrow> request_queue result" where
  "queue_remove r (FCFSQueue xs) = (if r \<in> set xs then Inr (FCFSQueue (remove1 r xs)) else Inl ValueError)"
| "queue_remove r (PriorityQueue h) =
     ebind (heapify (filter (\<lambda>(_, _, r'). r' \<noteq> r) h)) (\<lambda>h'. Inr (PriorityQueue h'))"

fun queue_remove_requests :: "reqid list \<Rightarrow> request_queue \<Rightarrow> request_queue result" where
  "queue_remove_requests rs (FCFSQueue xs) = Inr (FCFSQueue (filter (\<lambda>r. r \<notin> set rs) xs))"
| "queue_remove_requests rs (PriorityQueue h) =
     ebind (heapify (filter (\<lambda>(_, _, r). r \<notin> set rs) h)) (\<lambda>h'. Inr (PriorityQueue h'))"

fun queue_len :: "request_queue \<Rightarrow> nat" where
  "queue_len (FCFSQueue xs) = length xs"
| "queue_len (PriorityQueue h) = length h"

definition queue_bool :: "request_queue \<Rightarrow> bool" where
  "queue_bool q \<longleftrightarrow> queue_len q > 0"

subsection \<open>Heap order\<close>

definition hkey :: "heap_entry \<Rightarrow> int \<times> rat" where
  "hkey e = (case e of (p, t, _) \<Rightarrow> (p, t))"

definition tie_free :: "heap_entry list \<Rightarrow> bool" where
  "tie_free h \<longleftrightarrow> distinct (map hkey h)"

definition heap_from :: "nat \<Rightarrow> heap_entry list \<Rightarrow> bool" where
  "heap_from s h \<longleftrightarrow> (\<forall>i. 0 < i \<and> i < length h \<and> s \<le> parent i \<longrightarrow> hkey (h ! parent i) \<le> hkey (h ! i))"

text \<open>Positions below \<open>s\<close> in the tree.\<close>

inductive below :: "nat \<Rightarrow> nat \<Rightarrow> bool" for s where
  below_self: "below s s"
| below_child: "below s i \<Longrightarrow> 0 < c \<Longrightarrow> parent c = i \<Longrightarrow> below s c"

lemma below_ge: "below s i \<Longrightarrow> s \<le> i"
  by (induction rule: below.induct) (auto dest: parent_less)

lemma below_parent: "below s i \<Longrightarrow> s < i \<Longrightarrow> below s (parent i)"
  by (cases rule: below.cases) auto

lemma entry_lt_key: "hkey a \<noteq> hkey b \<Longrightarrow> entry_lt a b = Inr (hkey a < hkey b)"
  by (cases a; cases b) (auto simp: entry_lt_def hkey_def)

lemma entry_lt_tie: "hkey a = hkey b \<Longrightarrow> a \<noteq> b \<Longrightarrow> entry_lt a b = Inl TypeError"
  by (cases a; cases b) (auto simp: entry_lt_def hkey_def)

lemma tie_freeD:
  "tie_free h \<Longrightarrow> i < length h \<Longrightarrow> j < length h \<Longrightarrow> i \<noteq> j \<Longrightarrow> hkey (h ! i) \<noteq> hkey (h ! j)"
  unfolding tie_free_def by (metis length_map nth_eq_iff_index_eq nth_map)

lemma tie_free_cong: "mset h = mset h' \<Longrightarrow> tie_free h = tie_free h'"
  unfolding tie_free_def by (metis mset_eq_imp_distinct_iff mset_map)

lemma mset_move:
  assumes "i < length h" and "j < length h" and "i \<noteq> j"
  shows "mset (h[i := h ! j, j := x]) = mset (h[i := x])"
proof -
  have "mset (h[i := x]) = mset ((h[i := x])[i := h[i := x] ! j, j := h[i := x] ! i])"
    by (rule mset_swap [symmetric]) (use assms in simp_all)
  with assms show ?thesis by simp
qed

text \<open>A heap except at \<open>pos\<close>, where \<open>x\<close> is to be placed.\<close>

definition almost_heap :: "nat \<Rightarrow> nat \<Rightarrow> heap_entry list \<Rightarrow> bool" where
  "almost_heap s pos h \<longleftrightarrow> pos < length h \<and> below s pos \<and>
     (\<forall>i. 0 < i \<and> i < length h \<and> s \<le> parent i \<and> i \<noteq> pos \<and> parent i \<noteq> pos \<longrightarrow>
        hkey (h ! parent i) \<le> hkey (h ! i)) \<and>
     (\<forall>c. 0 < c \<and> c < length h \<and> parent c = pos \<and> s < pos \<longrightarrow> hkey (h ! parent pos) \<le> hkey (h ! c))"

lemma almost_heapD:
  assumes "almost_heap s pos h"
  shows "pos < length h" "below s pos"
    "0 < i \<Longrightarrow> i < length h \<Longrightarrow> s \<le> parent i \<Longrightarrow> i \<noteq> pos \<Longrightarrow> parent i \<noteq> pos \<Longrightarrow>
       hkey (h ! parent i) \<le> hkey (h ! i)"
    "0 < i \<Longrightarrow> i < length h \<Longrightarrow> parent i = pos \<Longrightarrow> s < pos \<Longrightarrow> hkey (h ! parent pos) \<le> hkey (h ! i)"
  using assms unfolding almost_heap_def by blast+

lemma sift_down_spec:
  assumes "almost_heap s pos h" and "tie_free (h[pos := x])"
    and "\<And>c. 0 < c \<Longrightarrow> c < length h \<Longrightarrow> parent c = pos \<Longrightarrow> hkey x \<le> hkey (h ! c)"
  shows "\<exists>h'. sift_down x s pos h = Inr h' \<and> mset h' = mset (h[pos := x]) \<and> heap_from s h'"
  using assms
proof (induction pos arbitrary: h rule: less_induct)
  case (less pos)
  note ah = almost_heapD [OF less.prems(1)]
  show ?case
  proof (cases "s < pos")
    case False
    with below_ge [OF ah(2)] have "pos = s" by simp
    have "heap_from s (h[pos := x])"
      unfolding heap_from_def using ah(1,3) less.prems(3) \<open>pos = s\<close> parent_less [of s]
      by (auto simp: nth_list_update)
    with False show ?thesis by (subst sift_down.simps) simp
  next
    case True
    let ?p = "parent pos"
    from True have p: "?p < pos" "0 < pos" using parent_less [of pos] by auto
    have sp: "s \<le> ?p" "below s ?p" using below_ge below_parent [OF ah(2) True] by auto
    have "hkey x \<noteq> hkey (h ! ?p)"
      using tie_freeD [OF less.prems(2), of pos ?p] ah(1) p by simp
    then have lt: "entry_lt x (h ! ?p) = Inr (hkey x < hkey (h ! ?p))" by (rule entry_lt_key)
    show ?thesis
    proof (cases "hkey x < hkey (h ! ?p)")
      case False
      have "heap_from s (h[pos := x])"
        unfolding heap_from_def using ah(1,3) less.prems(3) False p
        by (auto simp: nth_list_update)
      with True lt False show ?thesis by (subst sift_down.simps) (simp add: Let_def)
    next
      case up: True
      let ?h = "h[pos := h ! ?p]"
      have "almost_heap s ?p ?h"
        unfolding almost_heap_def
      proof (intro conjI allI impI)
        fix i assume i: "0 < i \<and> i < length ?h \<and> s \<le> parent i \<and> i \<noteq> ?p \<and> parent i \<noteq> ?p"
        then have "i \<noteq> pos" by auto
        with i ah(1) ah(3) [of i] ah(4) [of i] True p show "hkey (?h ! parent i) \<le> hkey (?h ! i)"
          by (cases "parent i = pos") (auto simp: nth_list_update)
      next
        fix c assume c: "0 < c \<and> c < length ?h \<and> parent c = ?p \<and> s < ?p"
        have "hkey (h ! parent ?p) \<le> hkey (h ! ?p)"
          by (rule ah(3)) (use c p ah(1) sp(2) parent_less [of ?p] below_ge [OF below_parent [OF sp(2)]] in auto)
        moreover have "hkey (h ! ?p) \<le> hkey (h ! c)" if "c \<noteq> pos" using ah(3) [of c] c that p sp by auto
        moreover have "?h ! parent ?p = h ! parent ?p" using parent_less [of ?p] c p by simp
        ultimately show "hkey (?h ! parent ?p) \<le> hkey (?h ! c)"
          using ah(1) by (cases "c = pos") simp_all
      qed (use sp ah(1) p in auto)
      moreover have move: "mset (?h[?p := x]) = mset (h[pos := x])"
        using mset_move [of pos h ?p x] ah(1) p by simp
      moreover have "hkey x \<le> hkey (?h ! c)" if "0 < c" "c < length ?h" "parent c = ?p" for c
      proof (cases "c = pos")
        case True
        with up ah(1) show ?thesis by simp
      next
        case False
        with ah(3) [of c] that sp p up show ?thesis by (auto simp: nth_list_update)
      qed
      ultimately obtain h' where "sift_down x s ?p ?h = Inr h'" "mset h' = mset (h[pos := x])" "heap_from s h'"
        using less.IH [OF p(1), of ?h] less.prems(2) tie_free_cong by metis
      with True lt up show ?thesis by (subst sift_down.simps) (simp add: Let_def)
    qed
  qed
qed

text \<open>Moving the smaller child into the hole moves the hole to that child.\<close>

lemma almost_heap_move:
  assumes "almost_heap s pos h" and c: "pos < c" "c < length h" "parent c = pos" "0 < c"
    and min: "\<And>d. 0 < d \<Longrightarrow> d < length h \<Longrightarrow> parent d = pos \<Longrightarrow> hkey (h ! c) \<le> hkey (h ! d)"
  shows "almost_heap s c (h[pos := h ! c])"
proof -
  let ?h = "h[pos := h ! c]"
  note ah = almost_heapD [OF assms(1)]
  show ?thesis
    unfolding almost_heap_def
  proof (intro conjI allI impI)
    fix i assume i: "0 < i \<and> i < length ?h \<and> s \<le> parent i \<and> i \<noteq> c \<and> parent i \<noteq> c"
    consider "i = pos" | "parent i = pos" "i \<noteq> pos" | "i \<noteq> pos" "parent i \<noteq> pos" by blast
    then show "hkey (?h ! parent i) \<le> hkey (?h ! i)"
    proof cases
      case 1
      with i have "s < pos" "parent pos < pos" using below_ge [OF ah(2)] parent_less [of pos] by auto
      with 1 ah(1) ah(4) [of c] c show ?thesis by (auto simp: nth_list_update)
    next
      case 2
      with i min [of i] ah(1) show ?thesis by auto
    next
      case 3
      with i ah(3) [of i] show ?thesis by auto
    qed
  next
    fix d assume d: "0 < d \<and> d < length ?h \<and> parent d = c \<and> s < c"
    then have "c < d" using parent_less [of d] by auto
    with d c ah(1) ah(3) [of d] below_ge [OF ah(2)] show "hkey (?h ! parent c) \<le> hkey (?h ! d)"
      by (auto simp: nth_list_update)
  qed (use c ah(2) below_child in auto)
qed

lemma sift_up_loop_spec:
  assumes "almost_heap s pos h" and "tie_free (h[pos := x])"
  shows "\<exists>h'. sift_up_loop x s pos h = Inr h' \<and> mset h' = mset (h[pos := x]) \<and> heap_from s h'"
  using assms
proof (induction "length h - pos" arbitrary: pos h rule: less_induct)
  case less
  note ah = almost_heapD [OF less.prems(1)]
  let ?l = "2 * pos + 1" and ?r = "2 * pos + 1 + 1"
  show ?case
  proof (cases "?l < length h")
    case False
    have "sift_up_loop x s pos h = sift_down x s pos (h[pos := x])"
      using False by (subst sift_up_loop.simps) (simp add: Let_def)
    moreover have leaf: "parent c \<noteq> pos" if "0 < c" "c < length (h[pos := x])" for c
      using False that by (auto simp: parent_iff)
    moreover have "almost_heap s pos (h[pos := x])"
      unfolding almost_heap_def
    proof (intro conjI allI impI)
      fix i assume i: "0 < i \<and> i < length (h[pos := x]) \<and> s \<le> parent i \<and> i \<noteq> pos \<and> parent i \<noteq> pos"
      with ah(3) [of i] show "hkey (h[pos := x] ! parent i) \<le> hkey (h[pos := x] ! i)" by simp
    qed (use ah(1,2) leaf in auto)
    ultimately show ?thesis using sift_down_spec [of s pos "h[pos := x]" x] less.prems(2) by auto
  next
    case True
    have key: "hkey (h ! i) \<noteq> hkey (h ! j)" if "i < length h" "j < length h" "i \<noteq> j" "i \<noteq> pos" "j \<noteq> pos" for i j
      using tie_freeD [OF less.prems(2), of i j] that by simp
    define c where "c = (if ?r < length h \<and> \<not> hkey (h ! ?l) < hkey (h ! ?r) then ?r else ?l)"
    have c: "pos < c" "c < length h" "parent c = pos" "0 < c" using True by (auto simp: c_def parent_iff)
    have "hkey (h ! ?l) \<noteq> hkey (h ! ?r)" if "?r < length h" using key [of ?l ?r] that by simp
    then have choose: "(if ?r < length h then ebind (entry_lt (h ! ?l) (h ! ?r)) (\<lambda>lt. Inr (if \<not> lt then ?r else ?l))
        else Inr ?l) = Inr c"
      by (auto simp: c_def entry_lt_key)
    have min: "hkey (h ! c) \<le> hkey (h ! d)" if "0 < d" "d < length h" "parent d = pos" for d
    proof -
      from that have "d = ?l \<or> d = ?r" by (simp add: parent_iff)
      with that show ?thesis by (auto simp: c_def)
    qed
    let ?h = "h[pos := h ! c]"
    have "almost_heap s c ?h" by (rule almost_heap_move [OF less.prems(1) c min])
    moreover have "mset (?h[c := x]) = mset (h[pos := x])"
      using mset_move [of pos h c x] ah(1) c by simp
    moreover have "length ?h - c < length h - pos" using c by simp
    ultimately obtain h' where "sift_up_loop x s c ?h = Inr h'" "mset h' = mset (h[pos := x])" "heap_from s h'"
      using less.hyps [of ?h c] less.prems(2) tie_free_cong by metis
    moreover have "sift_up_loop x s pos h = sift_up_loop x s c ?h"
      using True by (subst sift_up_loop.simps) (simp only: Let_def if_True choose ebind_Inr)
    ultimately show ?thesis by metis
  qed
qed

lemma sift_up_spec:
  assumes "heap_from (Suc i) h" and "i < length h" and "tie_free h"
  shows "\<exists>h'. sift_up i h = Inr h' \<and> mset h' = mset h \<and> heap_from i h'"
proof -
  have "almost_heap i i h"
    unfolding almost_heap_def
  proof (intro conjI allI impI)
    fix j assume "0 < j \<and> j < length h \<and> i \<le> parent j \<and> j \<noteq> i \<and> parent j \<noteq> i"
    then show "hkey (h ! parent j) \<le> hkey (h ! j)" using assms(1) by (simp add: heap_from_def)
  qed (use assms(2) below_self in auto)
  from sift_up_loop_spec [OF this, of "h ! i"] assms(3) show ?thesis by (simp add: sift_up_def)
qed

lemma heapify_loop_spec:
  assumes "heap_from n h" and "n \<le> length h" and "tie_free h"
  shows "\<exists>h'. heapify_loop (rev [0..<n]) h = Inr h' \<and> mset h' = mset h \<and> heap_from 0 h'"
  using assms
proof (induction n arbitrary: h)
  case (Suc n)
  then obtain h1 where h1: "sift_up n h = Inr h1" "mset h1 = mset h" "heap_from n h1"
    using sift_up_spec [of n h] by auto
  then have "n \<le> length h1" "tie_free h1"
    using Suc.prems(2,3) mset_eq_length [OF h1(2)] tie_free_cong [OF h1(2)] by auto
  from Suc.IH [OF h1(3) this] h1 show ?case by auto
qed auto

lemma heapify_spec:
  assumes "tie_free h"
  shows "\<exists>h'. heapify h = Inr h' \<and> mset h' = mset h \<and> heap_from 0 h'"
proof -
  have "parent i < length h div 2" if "0 < i" "i < length h" for i
  proof -
    from parent_iff [OF that(1), of "parent i"] have "2 * parent i + 1 \<le> i" by auto
    with that(2) show ?thesis by linarith
  qed
  then have "heap_from (length h div 2) h" unfolding heap_from_def by (meson linorder_not_le)
  with heapify_loop_spec [of "length h div 2" h] assms show ?thesis by (simp add: heapify_def)
qed

lemma heappush_spec:
  assumes "heap_from 0 h" and "tie_free (x # h)"
  shows "\<exists>h'. heappush x h = Inr h' \<and> mset h' = add_mset x (mset h) \<and> heap_from 0 h'"
proof -
  have b: "below 0 n" for n
  proof (induction n rule: less_induct)
    case (less n)
    show ?case
    proof (cases "n = 0")
      case False
      then have "0 < n" by simp
      from below_child [OF less [OF parent_less [OF this]] this refl] show ?thesis .
    qed (simp add: below_self)
  qed
  have "almost_heap 0 (length h) (h @ [x])"
    unfolding almost_heap_def
  proof (intro conjI allI impI)
    fix i assume i: "0 < i \<and> i < length (h @ [x]) \<and> 0 \<le> parent i \<and> i \<noteq> length h \<and> parent i \<noteq> length h"
    then have "i < length h" "parent i < length h" using parent_less [of i] by auto
    with i assms(1) show "hkey ((h @ [x]) ! parent i) \<le> hkey ((h @ [x]) ! i)"
      by (simp add: heap_from_def nth_append)
  next
    fix c assume c: "0 < c \<and> c < length (h @ [x]) \<and> parent c = length h \<and> 0 < length h"
    with parent_less [of c] show "hkey ((h @ [x]) ! parent (length h)) \<le> hkey ((h @ [x]) ! c)" by simp
  qed (use b in auto)
  moreover have "tie_free ((h @ [x])[length h := x])"
    using assms(2) by (subst tie_free_cong [of _ "x # h"]) simp_all
  moreover have "parent c \<noteq> length h" if "0 < c" "c < length (h @ [x])" for c
    using parent_less [OF that(1)] that(2) by simp
  ultimately show ?thesis
    using sift_down_spec [of 0 "length h" "h @ [x]" x] by (auto simp: heappush_def)
qed

lemma heap_root_min:
  assumes "heap_from 0 h" and "i < length h"
  shows "hkey (h ! 0) \<le> hkey (h ! i)"
  using assms(2)
proof (induction i rule: less_induct)
  case (less i)
  show ?case
  proof (cases "i = 0")
    case False
    then have "parent i < i" by (simp add: parent_less)
    with less False assms(1) show ?thesis
      unfolding heap_from_def by (meson gr0I le0 less_trans order_trans)
  qed simp
qed

lemma heappop_spec:
  assumes "heap_from 0 h" and "h \<noteq> []" and "tie_free h"
  shows "\<exists>h'. heappop h = Inr (h ! 0, h') \<and> mset h = add_mset (h ! 0) (mset h') \<and> heap_from 0 h'"
proof (cases "butlast h = []")
  case True
  with assms(2) obtain x where "h = [x]" by (metis append_butlast_last_id append_Nil)
  then show ?thesis by (simp add: heappop_def heap_from_def)
next
  case False
  let ?b = "(butlast h)[0 := last h]"
  from False obtain y ys where y: "butlast h = y # ys" by (cases "butlast h") auto
  with assms(2) have h: "h = y # ys @ [last h]" by (metis append_Cons append_butlast_last_id)
  have b: "?b = last h # ys" using y by simp
  have "mset h = add_mset y (mset ?b)" by (subst h) (simp add: y)
  moreover have "tie_free ?b" using assms(3) unfolding b by (subst (asm) h) (auto simp: tie_free_def)
  moreover have "heap_from (Suc 0) ?b"
    using assms(1) unfolding heap_from_def b
  proof (intro allI impI)
    fix i assume hp: "\<forall>i. 0 < i \<and> i < length h \<and> 0 \<le> parent i \<longrightarrow> hkey (h ! parent i) \<le> hkey (h ! i)"
      and i: "0 < i \<and> i < length (last h # ys) \<and> Suc 0 \<le> parent i"
    have at: "(last h # ys) ! k = h ! k" if "0 < k" "k < length (last h # ys)" for k
      using that by (subst (2) h) (auto simp: nth_Cons nth_append split: nat.splits)
    have "i < length h" using i by (subst h) simp
    with hp i at [of i] at [of "parent i"] parent_less [of i] show "hkey ((last h # ys) ! parent i) \<le> hkey ((last h # ys) ! i)"
      by auto
  qed
  ultimately obtain h' where "sift_up 0 ?b = Inr h'" "mset h' = mset ?b" "heap_from 0 h'"
    using sift_up_spec [of 0 ?b] b by auto
  moreover have "h ! 0 = y" "butlast h ! 0 = y" by (subst h, simp) (simp add: y)
  ultimately show ?thesis
    using assms(2) False \<open>mset h = add_mset y (mset ?b)\<close> by (simp add: heappop_def Let_def)
qed

text \<open>Draining a heap yields its requests in the order of their keys.\<close>

definition entry_id :: "heap_entry \<Rightarrow> reqid" where
  "entry_id e = snd (snd e)"

lemma heap_drain_spec:
  assumes "heap_from 0 h" and "tie_free h" and "length h \<le> n"
  shows "heap_drain n h = Inr (map entry_id (sort_key hkey h))"
  using assms
proof (induction n arbitrary: h)
  case (Suc n)
  show ?case
  proof (cases "h = []")
    case False
    obtain h' where h': "heappop h = Inr (h ! 0, h')" "mset h = add_mset (h ! 0) (mset h')" "heap_from 0 h'"
      using heappop_spec [OF Suc.prems(1) False Suc.prems(2)] by blast
    have perm: "mset h = mset (h ! 0 # h')" using h'(2) by simp
    have tf: "tie_free (h ! 0 # h')" using tie_free_cong [OF perm] Suc.prems(2) by simp
    have "length h = Suc (length h')" using mset_eq_length [OF perm] by simp
    then have ih: "heap_drain n h' = Inr (map entry_id (sort_key hkey h'))"
      using Suc.IH [OF h'(3)] tf Suc.prems(3) by (simp add: tie_free_def)
    have "hkey (h ! 0) \<le> hkey e" if "e \<in> set h'" for e
    proof -
      from that have "e \<in> set h" using mset_eq_setD [OF perm] by simp
      then show ?thesis using heap_root_min [OF Suc.prems(1)] by (metis in_set_conv_nth)
    qed
    then have "sort_key hkey h = h ! 0 # sort_key hkey h'"
      using Suc.prems(2) perm
      by (intro sort_key_inj_key_eq) (auto simp: tie_free_def distinct_map)
    with h'(1) ih False show ?thesis by (simp add: entry_id_def split: prod.splits)
  qed simp
qed simp

lemma sift_down_length: "sift_down x s pos h = Inr h' \<Longrightarrow> length h' = length h"
proof (induction x s pos h arbitrary: h' rule: sift_down.induct)
  case (1 x s pos h)
  from "1.prems" show ?case
    by (subst (asm) sift_down.simps) (auto simp: Let_def ebind_eq_Inr split: if_splits dest!: "1.IH")
qed

lemma sift_up_loop_length: "sift_up_loop x s pos h = Inr h' \<Longrightarrow> length h' = length h"
proof (induction x s pos h arbitrary: h' rule: sift_up_loop.induct)
  case (1 x s pos h)
  show ?case
  proof (cases "2 * pos + 1 < length h")
    case True
    have "ebind (if 2 * pos + 1 + 1 < length h then
                 ebind (entry_lt (h ! (2 * pos + 1)) (h ! (2 * pos + 1 + 1))) (\<lambda>lt.
                   Inr (if \<not> lt then 2 * pos + 1 + 1 else 2 * pos + 1))
               else Inr (2 * pos + 1)) (\<lambda>c. sift_up_loop x s c (h[pos := h ! c])) = Inr h'"
      using "1.prems" unfolding sift_up_loop.simps [of x s pos h] Let_def if_P [OF True] .
    then obtain c where "(if 2 * pos + 1 + 1 < length h then
                 ebind (entry_lt (h ! (2 * pos + 1)) (h ! (2 * pos + 1 + 1))) (\<lambda>lt.
                   Inr (if \<not> lt then 2 * pos + 1 + 1 else 2 * pos + 1))
               else Inr (2 * pos + 1)) = Inr c" "sift_up_loop x s c (h[pos := h ! c]) = Inr h'"
      by (rule ebind_Inr_E)
    from "1.IH" [OF refl True this] show ?thesis by simp
  next
    case False
    with "1.prems" show ?thesis
      by (subst (asm) sift_up_loop.simps) (simp add: Let_def sift_down_length)
  qed
qed

lemma heappop_length:
  assumes "heappop h = Inr (e, h')"
  shows "length h = Suc (length h')"
proof -
  from assms have ne: "h \<noteq> []" by (auto simp: heappop_def)
  then have len: "length h = Suc (length (butlast h))" by simp
  show ?thesis
  proof (cases "butlast h = []")
    case True
    with assms ne len show ?thesis by (simp add: heappop_def Let_def)
  next
    case False
    with assms ne have "sift_up 0 ((butlast h)[0 := last h]) = Inr h'"
      by (simp add: heappop_def Let_def ebind_eq_Inr)
    then have "length h' = length (butlast h)" by (auto simp: sift_up_def dest!: sift_up_loop_length)
    with len show ?thesis by simp
  qed
qed

lemma queue_pop_len: "queue_pop q = Inr (x, q') \<Longrightarrow> queue_len q = Suc (queue_len q')"
proof (cases q)
  case (PriorityQueue h)
  assume "queue_pop q = Inr (x, q')"
  with PriorityQueue obtain e h' where pop: "heappop h = Inr (e, h')" and q': "q' = PriorityQueue h'"
    by (auto simp: ebind_eq_Inr split: if_splits)
  from heappop_length [OF pop] PriorityQueue q' show ?thesis by simp
qed (auto split: list.splits)

subsection \<open>The contract of a waiting queue\<close>

text \<open>What the scheduler relies on: a queue stands for the list of its requests in service order;
  adding one (when the policy admits it) loses and duplicates nothing; popping serves
  the front; removal of a set of requests keeps the order of the others.\<close>

fun drain_with :: "('q \<Rightarrow> ('a \<times> 'q) result) \<Rightarrow> nat \<Rightarrow> 'q \<Rightarrow> 'a list result" where
  "drain_with pop 0 q = Inr []"
| "drain_with pop (Suc n) q = ebind (pop q) (\<lambda>(x, q'). ebind (drain_with pop n q') (\<lambda>xs. Inr (x # xs)))"

locale waiting_queue =
  fixes rep :: "'q \<Rightarrow> reqid list \<Rightarrow> bool"
    and adm :: "reqid list \<Rightarrow> bool"
    and add :: "reqid \<Rightarrow> 'q \<Rightarrow> 'q result"
    and pop :: "'q \<Rightarrow> (reqid \<times> 'q) result"
    and peek :: "'q \<Rightarrow> reqid result"
    and iter :: "'q \<Rightarrow> reqid list result"
    and remove_all_of :: "reqid list \<Rightarrow> 'q \<Rightarrow> 'q result"
    and len :: "'q \<Rightarrow> nat"
  assumes len_rep: "rep q xs \<Longrightarrow> len q = length xs"
    and iter_rep: "rep q xs \<Longrightarrow> iter q = Inr xs"
    and pop_empty: "rep q [] \<Longrightarrow> pop q = Inl IndexError"
    and pop_front: "rep q (x # xs) \<Longrightarrow> \<exists>q'. pop q = Inr (x, q') \<and> rep q' xs"
    and peek_front: "rep q (x # xs) \<Longrightarrow> peek q = Inr x"
    and add_ok: "rep q xs \<Longrightarrow> adm (r # xs) \<Longrightarrow>
      \<exists>q' xs'. add r q = Inr q' \<and> rep q' xs' \<and> mset xs' = add_mset r (mset xs)"
    and remove_ok: "rep q xs \<Longrightarrow>
      \<exists>q'. remove_all_of rs q = Inr q' \<and> rep q' (filter (\<lambda>r. r \<notin> set rs) xs)"
begin

lemma drain_all: "rep q xs \<Longrightarrow> drain_with pop (length xs) q = Inr xs"
proof (induction xs arbitrary: q)
  case (Cons x xs)
  with pop_front [OF Cons.prems] show ?case by auto
qed simp

lemma peek_pop:
  assumes "rep q xs" and "peek q = Inr x" and "xs \<noteq> []"
  shows "\<exists>q'. pop q = Inr (x, q') \<and> len q' = len q - 1"
proof -
  from assms(3) obtain y ys where xs: "xs = y # ys" by (cases xs) auto
  with assms(1,2) peek_front have "x = y" by fastforce
  with pop_front [of q y ys] assms(1) xs len_rep show ?thesis by fastforce
qed

lemma add_then_drain:
  assumes "rep q xs" and "adm (r # xs)"
  shows "\<exists>q' ys. add r q = Inr q' \<and> drain_with pop (len q') q' = Inr ys \<and> mset ys = add_mset r (mset xs)"
  using add_ok [OF assms] drain_all len_rep by metis

lemma add_then_remove:
  assumes "rep q xs" and "adm (r # xs)" and "r \<notin> set xs"
  shows "\<exists>q' q'' ys. add r q = Inr q' \<and> remove_all_of [r] q' = Inr q'' \<and> rep q'' ys \<and> mset ys = mset xs"
proof -
  obtain q' xs' where q': "add r q = Inr q'" "rep q' xs'" "mset xs' = add_mset r (mset xs)"
    using add_ok [OF assms(1,2)] by blast
  obtain q'' where q'': "remove_all_of [r] q' = Inr q''" "rep q'' (filter (\<lambda>x. x \<notin> set [r]) xs')"
    using remove_ok [OF q'(2)] by blast
  have "mset (filter (\<lambda>x. x \<notin> set [r]) xs') = filter_mset (\<lambda>x. x \<noteq> r) (mset xs)"
    using q'(3) by (simp add: mset_filter)
  also have "\<dots> = mset xs" using assms(3) by (auto simp: filter_mset_eq_conv)
  finally show ?thesis using q' q'' by blast
qed

end

subsection \<open>First come, first served\<close>

definition fcfs_rep :: "request_queue \<Rightarrow> reqid list \<Rightarrow> bool" where
  "fcfs_rep q xs \<longleftrightarrow> q = FCFSQueue xs"

interpretation fcfs: waiting_queue fcfs_rep "\<lambda>_. True" "queue_add attr" queue_pop queue_peek queue_iter
  queue_remove_requests queue_len
  by unfold_locales (auto simp: fcfs_rep_def)

lemma fcfs_add_rep: "fcfs_rep q xs \<Longrightarrow> queue_add attr r q = Inr q' \<Longrightarrow> fcfs_rep q' (xs @ [r])"
  by (auto simp: fcfs_rep_def)

lemma foldl_push: "foldl (\<lambda>q r. r # q) xs rs = rev rs @ xs"
  by (induction rs arbitrary: xs) auto

lemma fcfs_prepend_requests:
  "queue_prepend_requests attr (FCFSQueue ys) (FCFSQueue xs) = Inr (FCFSQueue (ys @ xs))"
  by (simp add: queue_reversed_def foldl_push)

subsection \<open>Priorities\<close>

definition prio_rep :: "(reqid \<Rightarrow> int \<times> rat) \<Rightarrow> request_queue \<Rightarrow> reqid list \<Rightarrow> bool" where
  "prio_rep attr q xs \<longleftrightarrow> (\<exists>h. q = PriorityQueue h \<and> heap_from 0 h \<and> tie_free h \<and>
     (\<forall>e\<in>set h. hkey e = attr (entry_id e)) \<and> xs = map entry_id (sort_key hkey h))"

definition prio_adm :: "(reqid \<Rightarrow> int \<times> rat) \<Rightarrow> reqid list \<Rightarrow> bool" where
  "prio_adm attr xs \<longleftrightarrow> distinct (map attr xs)"

lemma prio_repI:
  assumes "heap_from 0 h" and "tie_free h" and "\<And>e. e \<in> set h \<Longrightarrow> hkey e = attr (entry_id e)"
  shows "prio_rep attr (PriorityQueue h) (map entry_id (sort_key hkey h))"
  using assms by (auto simp: prio_rep_def)

lemma sort_key_unique:
  assumes "mset h = mset h'" and "tie_free h" and "sorted (map hkey h')"
  shows "sort_key hkey h = h'"
  using assms by (intro sort_key_inj_key_eq) (auto simp: tie_free_def distinct_map)

lemma sort_key_perm: "mset h = mset h' \<Longrightarrow> tie_free h \<Longrightarrow> sort_key hkey h = sort_key hkey h'"
  by (rule sort_key_unique) auto

lemma prio_pop:
  assumes "prio_rep attr q (x # xs)"
  shows "\<exists>q'. queue_pop q = Inr (x, q') \<and> prio_rep attr q' xs" and "queue_peek q = Inr x"
proof -
  from assms obtain h where h: "q = PriorityQueue h" "heap_from 0 h" "tie_free h"
    "\<And>e. e \<in> set h \<Longrightarrow> hkey e = attr (entry_id e)" and srt: "x # xs = map entry_id (sort_key hkey h)"
    by (auto simp: prio_rep_def)
  have ne: "h \<noteq> []" using srt by auto
  obtain h' where h': "heappop h = Inr (h ! 0, h')" "mset h = add_mset (h ! 0) (mset h')" "heap_from 0 h'"
    using heappop_spec [OF h(2) ne h(3)] by blast
  have perm: "mset h = mset (h ! 0 # h')" using h'(2) by simp
  have "hkey (h ! 0) \<le> hkey e" if "e \<in> set h'" for e
    using that heap_root_min [OF h(2)] mset_eq_setD [OF perm] by (metis in_set_conv_nth list.set_intros(2))
  then have "sort_key hkey h = h ! 0 # sort_key hkey h'"
    using perm by (intro sort_key_unique [OF _ h(3)]) auto
  with srt have x: "x = entry_id (h ! 0)" "xs = map entry_id (sort_key hkey h')" by auto
  have "tie_free h'" using tie_free_cong [OF perm] h(3) by (simp add: tie_free_def)
  moreover have "hkey e = attr (entry_id e)" if "e \<in> set h'" for e
    using h(4) mset_eq_setD [OF perm] that by simp
  ultimately have "prio_rep attr (PriorityQueue h') xs" unfolding x(2) by (intro prio_repI h'(3))
  then show "\<exists>q'. queue_pop q = Inr (x, q') \<and> prio_rep attr q' xs"
    using h(1) ne h'(1) x(1) by (auto simp: entry_id_def split: prod.splits)
  show "queue_peek q = Inr x" using h(1) ne x(1) by (cases h) (auto simp: entry_id_def)
qed

lemma prio_add:
  assumes "prio_rep attr q xs" and "prio_adm attr (r # xs)"
  shows "\<exists>q' xs'. queue_add attr r q = Inr q' \<and> prio_rep attr q' xs' \<and> mset xs' = add_mset r (mset xs)"
proof -
  from assms(1) obtain h where h: "q = PriorityQueue h" "heap_from 0 h" "tie_free h"
    "\<And>e. e \<in> set h \<Longrightarrow> hkey e = attr (entry_id e)" and srt: "xs = map entry_id (sort_key hkey h)"
    by (auto simp: prio_rep_def)
  let ?e = "(fst (attr r), snd (attr r), r)"
  have key: "hkey ?e = attr r" "entry_id ?e = r" by (simp_all add: hkey_def entry_id_def)
  have "attr r \<notin> hkey ` set h"
    using assms(2) h(4) by (auto simp: prio_adm_def srt image_image dest!: h(4))
  with h(3) key have tf: "tie_free (?e # h)" by (simp add: tie_free_def)
  obtain h' where h': "heappush ?e h = Inr h'" "mset h' = add_mset ?e (mset h)" "heap_from 0 h'"
    using heappush_spec [OF h(2) tf] by blast
  have perm: "mset h' = mset (?e # h)" using h'(2) by simp
  have "hkey e = attr (entry_id e)" if "e \<in> set h'" for e
    using that mset_eq_setD [OF perm] h(4) [of e] key by (cases "e = ?e") simp_all
  with h'(3) tf tie_free_cong [OF perm]
  have "prio_rep attr (PriorityQueue h') (map entry_id (sort_key hkey h'))" by (intro prio_repI) auto
  moreover have "mset (map entry_id (sort_key hkey h')) = add_mset r (mset xs)"
    using h'(2) key(2) by (simp add: srt)
  moreover have "queue_add attr r q = Inr (PriorityQueue h')"
    using h(1) h'(1) by (cases "attr r") simp
  ultimately show ?thesis by blast
qed

lemma prio_remove:
  assumes "prio_rep attr q xs"
  shows "\<exists>q'. queue_remove_requests rs q = Inr q' \<and> prio_rep attr q' (filter (\<lambda>r. r \<notin> set rs) xs)"
proof -
  from assms obtain h where h: "q = PriorityQueue h" "heap_from 0 h" "tie_free h"
    "\<And>e. e \<in> set h \<Longrightarrow> hkey e = attr (entry_id e)" and srt: "xs = map entry_id (sort_key hkey h)"
    by (auto simp: prio_rep_def)
  let ?P = "\<lambda>e. entry_id e \<notin> set rs"
  have flt: "filter (\<lambda>(_, _, r). r \<notin> set rs) h = filter ?P h"
    by (rule filter_cong) (auto simp: entry_id_def)
  have tf: "tie_free (filter ?P h)" using h(3) by (simp add: tie_free_def distinct_map_filter)
  obtain h' where h': "heapify (filter ?P h) = Inr h'" "mset h' = mset (filter ?P h)" "heap_from 0 h'"
    using heapify_spec [OF tf] by blast
  have tf': "tie_free h'" using tie_free_cong [OF h'(2)] tf by simp
  have "sort_key hkey h' = filter ?P (sort_key hkey h)"
    by (rule sort_key_unique [OF _ tf'])
      (use h'(2) in \<open>simp_all add: mset_filter sorted_filter\<close>)
  then have "filter (\<lambda>r. r \<notin> set rs) xs = map entry_id (sort_key hkey h')"
    by (simp add: srt filter_map o_def)
  moreover have "hkey e = attr (entry_id e)" if "e \<in> set h'" for e
    using that mset_eq_setD [OF h'(2)] h(4) by auto
  ultimately have "prio_rep attr (PriorityQueue h') (filter (\<lambda>r. r \<notin> set rs) xs)"
    using prio_repI [OF h'(3) tf'] by simp
  with h(1) h'(1) flt show ?thesis by simp
qed

interpretation prio: waiting_queue "prio_rep attr" "prio_adm attr" "queue_add attr" queue_pop queue_peek
  queue_iter queue_remove_requests queue_len
proof unfold_locales
  fix q xs assume "prio_rep attr q xs"
  then show "queue_len q = length xs" by (auto simp: prio_rep_def)
next
  fix q xs assume "prio_rep attr q xs"
  then show "queue_iter q = Inr xs" by (auto simp: prio_rep_def heap_drain_spec)
next
  fix q assume "prio_rep attr q []"
  then obtain h where "q = PriorityQueue h" "sort_key hkey h = []" by (auto simp: prio_rep_def)
  then show "queue_pop q = Inl IndexError" by (metis length_0_conv length_sort queue_pop.simps(2))
qed (use prio_pop prio_add prio_remove in blast)+

lemma prio_rep_sorted: "prio_rep attr q xs \<Longrightarrow> sorted (map attr xs)"
proof -
  assume "prio_rep attr q xs"
  then obtain h where "\<And>e. e \<in> set h \<Longrightarrow> hkey e = attr (entry_id e)" and xs: "xs = map entry_id (sort_key hkey h)"
    by (auto simp: prio_rep_def)
  then have "map attr xs = map hkey (sort_key hkey h)" by simp
  then show ?thesis by simp
qed

lemma prio_add_all:
  assumes "prio_rep attr q xs" and "distinct (map attr (xs @ rs))"
  shows "\<exists>q' xs'. queue_add_all attr rs q = Inr q' \<and> prio_rep attr q' xs' \<and> mset xs' = mset xs + mset rs"
  using assms
proof (induction rs arbitrary: q xs)
  case (Cons r rs)
  have "prio_adm attr (r # xs)" using Cons.prems(2) by (auto simp: prio_adm_def)
  from prio_add [OF Cons.prems(1) this] obtain q1 xs1 where q1: "queue_add attr r q = Inr q1"
    "prio_rep attr q1 xs1" "mset xs1 = add_mset r (mset xs)" by blast
  have "mset (map attr (xs1 @ rs)) = mset (map attr (xs @ r # rs))" using q1(3) by simp
  then have "distinct (map attr (xs1 @ rs))" using Cons.prems(2) mset_eq_imp_distinct_iff by blast
  from Cons.IH [OF q1(2) this] q1 show ?case by auto
qed auto

lemma fcfs_add_all: "queue_add_all attr rs (FCFSQueue xs) = Inr (FCFSQueue (xs @ rs))"
  by (induction rs arbitrary: xs) auto

text \<open>C29: the priority queue serves requests in increasing order of \<open>(priority, arrival_time)\<close>: adding any
  requests whose pairs are pairwise different to a new queue and popping until it is empty
  returns them sorted by that pair, and no heap operation raises.\<close>

theorem priority_queue_sorts:
  assumes "distinct (map attr rs)"
  shows "\<exists>q. queue_add_all attr rs (create_request_queue PRIORITY) = Inr q \<and> queue_len q = length rs \<and>
    queue_iter q = Inr (sort_key attr rs) \<and> drain_with queue_pop (queue_len q) q = Inr (sort_key attr rs)"
proof -
  have "prio_rep attr (create_request_queue PRIORITY) []"
    by (simp add: prio_rep_def create_request_queue_def heap_from_def tie_free_def)
  from prio_add_all [OF this, of rs] assms
  obtain q xs where q: "queue_add_all attr rs (create_request_queue PRIORITY) = Inr q" "prio_rep attr q xs"
    "mset xs = mset rs" by auto
  have "sort_key attr rs = xs"
    using assms prio_rep_sorted [OF q(2)] q(3)
    by (intro sort_key_inj_key_eq) (auto simp: distinct_map)
  with q prio.drain_all [OF q(2)] prio.len_rep [OF q(2)] prio.iter_rep [OF q(2)] mset_eq_length [OF q(3)]
  show ?thesis by auto
qed

theorem priority_queue_sorts_witness:
  "\<exists>q. queue_add_all (\<lambda>r. (int (length r), 0)) [''abc'', ''a'', ''ab''] (create_request_queue PRIORITY) = Inr q \<and>
     queue_iter q = Inr [''a'', ''ab'', ''abc'']"
  using priority_queue_sorts [of "\<lambda>r. (int (length r), 0)" "[''abc'', ''a'', ''ab'']"]
  by (auto simp: sort_key_def insort_key_def)



text \<open>Under the first-come-first-served and the GAMBIT policy, requests leave the waiting queue in
  the order they were added, and requests put back by \<open>prepend_requests\<close> go in front in their order.\<close>

lemma fcfs_queue_order:
  assumes "policy \<in> {FCFS, GAMBIT}"
  shows "\<exists>q q'. queue_add_all attr rs (create_request_queue policy) = Inr q \<and>
    queue_prepend_requests attr (FCFSQueue skipped) q = Inr q' \<and>
    drain_with queue_pop (queue_len q') q' = Inr (skipped @ rs)"
proof -
  have "queue_add_all attr rs (create_request_queue policy) = Inr (FCFSQueue rs)"
    using assms fcfs_add_all [of attr rs "[]"] by (auto simp: create_request_queue_def)
  moreover have "drain_with queue_pop (queue_len (FCFSQueue (skipped @ rs))) (FCFSQueue (skipped @ rs)) =
      Inr (skipped @ rs)"
    using fcfs.drain_all [of "FCFSQueue (skipped @ rs)" "skipped @ rs"] by (simp add: fcfs_rep_def)
  ultimately show ?thesis using fcfs_prepend_requests by fastforce
qed

end
