(* ===== verification/Gambit_Config.thy ===== *)
theory Gambit_Config
  imports Prelude
begin

text \<open>
  \<open>GambitConfig\<close> of \<open>vllm/config/gambit.py\<close> (prefix \<open>gc_\<close>) with its defaults, and
  \<open>set_gambit_token_ids\<close>, which scans the vocabulary for the tokens that end a thought. The
  tokenizer is a package outside the repository: its \<open>vocab_size\<close>, \<open>decode\<close> and
  \<open>added_tokens_encoder\<close> are arguments. \<open>compute_hash\<close>, a cache key, is not modelled.
\<close>

record gambit_config =
  gc_enable :: bool
  gc_step_scorer_path :: "string option"
  gc_stop_thinking_tokenID :: "int option"
  gc_double_new_line_tokenID :: "int list option"
  gc_scoring_stride :: int
  gc_record_score_history :: bool
  gc_collect_hidden_states_for_mining :: bool
  gc_enable_branching :: bool
  gc_tournament_mode :: bool
  gc_tournament_capacity :: int
  gc_tournament_swap_k :: int
  gc_tournament_check_interval :: int
  gc_tournament_warmup_tokens :: int
  gc_tournament_hard_floor :: score
  gc_tournament_branch_random :: bool
  gc_stop_after_completed_traces :: int
  gc_theta_branch :: score
  gc_theta_prune :: score
  gc_max_branches_per_trace :: int
  gc_max_total_traces :: int
  gc_branch_cooldown_steps :: int
  gc_branch_temperature_boost :: rat
  gc_min_tokens_before_branch :: int
  gc_min_tokens_before_prune :: int

definition default_gambit_config :: gambit_config where
  "default_gambit_config = \<lparr>
     gc_enable = False, gc_step_scorer_path = None, gc_stop_thinking_tokenID = None,
     gc_double_new_line_tokenID = None, gc_scoring_stride = 0, gc_record_score_history = True,
     gc_collect_hidden_states_for_mining = False, gc_enable_branching = False,
     gc_tournament_mode = True, gc_tournament_capacity = 256, gc_tournament_swap_k = 16,
     gc_tournament_check_interval = 200, gc_tournament_warmup_tokens = 12000,
     gc_tournament_hard_floor = 1 / 10, gc_tournament_branch_random = False,
     gc_stop_after_completed_traces = 0, gc_theta_branch = 3 / 4, gc_theta_prune = 15 / 100,
     gc_max_branches_per_trace = 2, gc_max_total_traces = 64, gc_branch_cooldown_steps = 200,
     gc_branch_temperature_boost = 1, gc_min_tokens_before_branch = 4000,
     gc_min_tokens_before_prune = 4000\<rparr>"

definition double_newline :: string where
  "double_newline = [CHR 0x0A, CHR 0x0A]"

text \<open>The loop over \<open>range(vocab_size)\<close>, which keeps the pairs whose text contains the target, and
  the projection to the token ids.\<close>

definition matching_tokens :: "nat \<Rightarrow> (int \<Rightarrow> string) \<Rightarrow> (int \<times> string) list" where
  "matching_tokens vocab_size decode =
     filter (\<lambda>(tok, text). sublist double_newline text)
       (map (\<lambda>i. (int i, decode (int i))) [0..<vocab_size])"

definition set_gambit_token_ids ::
  "nat \<Rightarrow> (int \<Rightarrow> string) \<Rightarrow> (string, int) dict \<Rightarrow> gambit_config \<Rightarrow> gambit_config" where
  "set_gambit_token_ids vocab_size decode added_tokens_encoder cfg = cfg\<lparr>
     gc_double_new_line_tokenID := Some (map fst (matching_tokens vocab_size decode)),
     gc_stop_thinking_tokenID := map_of added_tokens_encoder ''</think>''\<rparr>"

text \<open>The budget of active traces that both the constructor of the engine core and its reset use.\<close>

definition trace_capacity :: "gambit_config \<Rightarrow> int" where
  "trace_capacity cfg =
     (if gc_tournament_mode cfg then gc_tournament_capacity cfg else gc_max_total_traces cfg)"

text \<open>\<open>EngineCore._trace_tree_branch_gates\<close>: the cooldown and the minimum of tokens.\<close>

definition trace_tree_branch_gates :: "gambit_config \<Rightarrow> int \<times> int" where
  "trace_tree_branch_gates cfg =
     (if gc_tournament_mode cfg then (0, 0)
      else (gc_branch_cooldown_steps cfg, gc_min_tokens_before_branch cfg))"

lemma boundary_tokens_iff:
  "tok \<in> set (map fst (matching_tokens vocab_size decode)) \<longleftrightarrow>
     0 \<le> tok \<and> tok < int vocab_size \<and> sublist double_newline (decode tok)"
proof -
  have "tok \<in> int ` {0..<vocab_size} \<longleftrightarrow> 0 \<le> tok \<and> tok < int vocab_size"
    by (auto simp: image_iff intro!: bexI [of _ "nat tok"])
  then show ?thesis by (auto simp: matching_tokens_def image_iff)
qed

end
