(* ===== verification/Scheduler.thy ===== *)
theory Scheduler
  imports KV_Manager Request_Queue Gambit_Config
begin

text \<open>
  \<open>Scheduler\<close> of \<open>vllm/v1/core/sched/scheduler.py\<close>: admission and preemption of requests, the GAMBIT order
  by score, the processing of sampled tokens, and the end of requests. Requests live in the table
  \<open>sc_requests\<close>; the queues hold their ids, which identify the objects of the source. The model covers
  text-only requests without a KV or encoder connector and without LoRA limits: the encoder budget, the
  connector calls and the statistics are left out. The flag \<open>u\<close> is the integer-hash flag of the
  events, \<open>fsm\<close> says for which requests the grammar is compiled, \<open>hasher\<close> is the block hasher.
\<close>

subsection \<open>State\<close>

record engine_core_output =
  eo_request_id :: reqid
  eo_new_token_ids :: "token list"
  eo_finish_reason :: "finish_reason option"
  eo_stop_reason :: "stop_reason option"
  eo_final_score :: "score option"
  eo_score_history :: "score list option"
  eo_num_cached_tokens :: int

record scheduler =
  sc_requests :: "(reqid, request) dict"
  sc_policy :: scheduling_policy
  sc_waiting :: request_queue
  sc_running :: "reqid list"
  sc_finished_req_ids :: "reqid set"
  sc_finished_req_ids_dict :: "(int, reqid set) dict option"
  sc_prev_step_scheduled_req_ids :: "reqid set"
  sc_max_num_running_reqs :: nat
  sc_max_num_scheduled_tokens :: int
  sc_max_model_len :: int
  sc_long_prefill_token_threshold :: int
  sc_chunked_prefill_enabled :: bool
  sc_num_lookahead_tokens :: int
  sc_use_pp :: bool
  sc_kv_cache_manager :: kv_manager
  sc_trace_scores :: "(reqid, score) dict"
  sc_pending_pruned_outputs :: "(int, engine_core_output list) dict"

definition req_of :: "scheduler \<Rightarrow> reqid \<Rightarrow> request" where
  "req_of s rid = the (map_of (sc_requests s) rid)"

definition upd_req :: "reqid \<Rightarrow> (request \<Rightarrow> request) \<Rightarrow> scheduler \<Rightarrow> scheduler" where
  "upd_req rid f s = s\<lparr>sc_requests := dmodify rid f (sc_requests s)\<rparr>"

definition req_attr :: "scheduler \<Rightarrow> reqid \<Rightarrow> int \<times> rat" where
  "req_attr s rid = (rq_priority (req_of s rid), rq_arrival_time (req_of s rid))"

text \<open>The policy: GAMBIT overrides the configured one; an unknown name raises \<open>ValueError\<close>.\<close>

definition choose_policy :: "gambit_config option \<Rightarrow> string \<Rightarrow> scheduling_policy result" where
  "choose_policy gc configured =
     (let requested = (case gc of Some c \<Rightarrow> if gc_enable c then ''gambit'' else configured | None \<Rightarrow> configured)
      in if requested = ''fcfs'' then Inr FCFS else if requested = ''priority'' then Inr PRIORITY
         else if requested = ''gambit'' then Inr GAMBIT else Inl ValueError)"

text \<open>The settings that the constructor reads; \<open>cf_speculative\<close> holds the number of speculative tokens and whether EAGLE is used.\<close>

record scheduler_config =
  cf_policy :: string
  cf_gambit :: "gambit_config option"
  cf_max_num_seqs :: nat
  cf_max_num_batched_tokens :: int
  cf_max_model_len :: int
  cf_long_prefill_token_threshold :: int
  cf_chunked_prefill_enabled :: bool
  cf_speculative :: "(int \<times> bool) option"
  cf_num_gpu_blocks :: "int option"
  cf_num_blocks :: nat
  cf_block_size :: nat
  cf_dcp_world_size :: nat
  cf_enable_prefix_caching :: bool
  cf_enable_kv_cache_events :: bool
  cf_pipeline_parallel_size :: int
  cf_include_finished_set :: bool

definition init_scheduler :: "scheduler_config \<Rightarrow> scheduler result" where
  "init_scheduler cf =
     ebind (assert_that (case cf_num_gpu_blocks cf of Some n \<Rightarrow> n > 0 | None \<Rightarrow> False)) (\<lambda>_.
     ebind (choose_policy (cf_gambit cf) (cf_policy cf)) (\<lambda>policy.
       let use_eagle = (case cf_speculative cf of Some (_, e) \<Rightarrow> e | None \<Rightarrow> False);
           lookahead = (case cf_speculative cf of Some (k, e) \<Rightarrow> if e then k else 0 | None \<Rightarrow> 0)
       in ebind (init_kv_manager (cf_max_model_len cf) (cf_enable_prefix_caching cf) use_eagle (cf_enable_kv_cache_events cf)
                   (cf_num_blocks cf) (cf_block_size cf) (cf_dcp_world_size cf)) (\<lambda>km.
            Inr \<lparr>sc_requests = [], sc_policy = policy, sc_waiting = create_request_queue policy, sc_running = [],
                 sc_finished_req_ids = {}, sc_finished_req_ids_dict = (if cf_include_finished_set cf then Some [] else None),
                 sc_prev_step_scheduled_req_ids = {}, sc_max_num_running_reqs = cf_max_num_seqs cf,
                 sc_max_num_scheduled_tokens = cf_max_num_batched_tokens cf, sc_max_model_len = cf_max_model_len cf,
                 sc_long_prefill_token_threshold = cf_long_prefill_token_threshold cf,
                 sc_chunked_prefill_enabled = cf_chunked_prefill_enabled cf, sc_num_lookahead_tokens = lookahead,
                 sc_use_pp = (cf_pipeline_parallel_size cf > 1), sc_kv_cache_manager = km, sc_trace_scores = [],
                 sc_pending_pruned_outputs = []\<rparr>)))"

definition update_trace_scores :: "(reqid, score) dict \<Rightarrow> scheduler \<Rightarrow> scheduler" where
  "update_trace_scores scores s =
     foldl (\<lambda>s (rid, score).
        let s1 = s\<lparr>sc_trace_scores := AList.update rid score (sc_trace_scores s)\<rparr>
        in upd_req rid (\<lambda>r. r\<lparr>rq_trace_avg_score := Some score\<rparr>) s1) s scores"

subsection \<open>Ending requests\<close>

definition free_blocks_of :: "reqid \<Rightarrow> scheduler \<Rightarrow> scheduler result" where
  "free_blocks_of rid s =
     ebind (assert_that (is_finished (req_of s rid))) (\<lambda>_.
     ebind (km_free (req_of s rid) (sc_kv_cache_manager s)) (\<lambda>km.
       Inr (s\<lparr>sc_kv_cache_manager := km, sc_requests := AList.delete rid (sc_requests s)\<rparr>)))"

definition free_request :: "reqid \<Rightarrow> scheduler \<Rightarrow> scheduler result" where
  "free_request rid s =
     ebind (assert_that (is_finished (req_of s rid))) (\<lambda>_.
       let ci = rq_client_index (req_of s rid);
           s1 = s\<lparr>sc_finished_req_ids := insert rid (sc_finished_req_ids s),
                  sc_finished_req_ids_dict := map_option
                    (\<lambda>d. AList.update ci (insert rid (dget_or d ci {})) d) (sc_finished_req_ids_dict s)\<rparr>
       in free_blocks_of rid s1)"

definition get_request_score :: "scheduler \<Rightarrow> request \<Rightarrow> score" where
  "get_request_score s r =
     (case (case rq_trace_avg_score r of Some x \<Rightarrow> Some x | None \<Rightarrow> map_of (sc_trace_scores s) (rq_request_id r))
      of Some x \<Rightarrow> x | None \<Rightarrow> 0)"

definition score_key :: "scheduler \<Rightarrow> reqid \<Rightarrow> score \<times> rat" where
  "score_key s rid = (- get_request_score s (req_of s rid), rq_arrival_time (req_of s rid))"

definition order_running_by_score :: "scheduler \<Rightarrow> scheduler" where
  "order_running_by_score s = s\<lparr>sc_running := sort_key (score_key s) (sc_running s)\<rparr>"

definition pruned_output :: "scheduler \<Rightarrow> request \<Rightarrow> engine_core_output" where
  "pruned_output s r = \<lparr>eo_request_id = rq_request_id r, eo_new_token_ids = [],
     eo_finish_reason = finished_reason_map (rq_status r), eo_stop_reason = rq_stop_reason r,
     eo_final_score = (case rq_trace_avg_score r of Some x \<Rightarrow> Some x
                       | None \<Rightarrow> map_of (sc_trace_scores s) (rq_request_id r)),
     eo_score_history = None, eo_num_cached_tokens = rq_num_cached_tokens r\<rparr>"

definition stop_lowest_running :: "scheduler \<Rightarrow> (reqid option \<times> scheduler) result" where
  "stop_lowest_running s =
     (if sc_running s = [] then Inr (None, s)
      else
      let victim = last (sc_running s);
          s1 = upd_req victim (\<lambda>r. r\<lparr>rq_stop_reason := Some (StopText ''pruned''),
                                     rq_status := FINISHED_ABORTED\<rparr>)
                 (s\<lparr>sc_running := butlast (sc_running s)\<rparr>);
          ci = rq_client_index (req_of s1 victim);
          s2 = s1\<lparr>sc_pending_pruned_outputs := AList.update ci
                   (dget_or (sc_pending_pruned_outputs s1) ci [] @ [pruned_output s1 (req_of s1 victim)])
                   (sc_pending_pruned_outputs s1)\<rparr>
      in ebind (free_request victim s2) (\<lambda>s3. Inr (Some victim, s3)))"

definition add_request :: "request \<Rightarrow> scheduler \<Rightarrow> scheduler result" where
  "add_request r s =
     (let s1 = s\<lparr>sc_requests := AList.update (rq_request_id r) r (sc_requests s)\<rparr> in
      ebind (queue_add (req_attr s1) (rq_request_id r) (sc_waiting s)) (\<lambda>q. Inr (s1\<lparr>sc_waiting := q\<rparr>)))"

fun finish_loop :: "request_status \<Rightarrow> reqid list \<Rightarrow> scheduler \<Rightarrow> scheduler result" where
  "finish_loop st [] s = Inr s"
| "finish_loop st (rid # rids) s =
     ebind (free_request rid (upd_req rid (\<lambda>r. r\<lparr>rq_status := st\<rparr>) s)) (finish_loop st rids)"

text \<open>\<open>request_ids\<close> is made a set first, so duplicates are dropped; the order of that set, unspecified
  in the source, is the order of the list here.\<close>

definition finish_requests :: "reqid list \<Rightarrow> request_status \<Rightarrow> scheduler \<Rightarrow> scheduler result" where
  "finish_requests request_ids finished_status s =
     ebind (assert_that (status_is_finished finished_status)) (\<lambda>_.
       let valid = filter (\<lambda>rid. case map_of (sc_requests s) rid of
                                   None \<Rightarrow> False | Some r \<Rightarrow> \<not> is_finished r) (remdups request_ids);
           running_rm = filter (\<lambda>rid. rq_status (req_of s rid) = RUNNING) valid;
           waiting_rm = filter (\<lambda>rid. rq_status (req_of s rid) \<noteq> RUNNING) valid;
           s1 = (if running_rm \<noteq> [] then s\<lparr>sc_running := remove_all (sc_running s) (set running_rm)\<rparr> else s)
       in ebind (if waiting_rm \<noteq> [] then
                   ebind (queue_remove_requests waiting_rm (sc_waiting s1)) (\<lambda>q. Inr (s1\<lparr>sc_waiting := q\<rparr>))
                 else Inr s1)
            (finish_loop finished_status valid))"

definition mark_stop_reason :: "reqid list \<Rightarrow> string \<Rightarrow> scheduler \<Rightarrow> scheduler" where
  "mark_stop_reason request_ids reason s =
     fold (\<lambda>rid. upd_req rid (\<lambda>r. if is_finished r then r else r\<lparr>rq_stop_reason := Some (StopText reason)\<rparr>))
       request_ids s"

definition get_request_counts :: "scheduler \<Rightarrow> nat \<times> nat" where
  "get_request_counts s = (length (sc_running s), queue_len (sc_waiting s))"

definition get_num_unfinished_requests :: "scheduler \<Rightarrow> nat" where
  "get_num_unfinished_requests s = queue_len (sc_waiting s) + length (sc_running s)"

definition has_finished_requests :: "scheduler \<Rightarrow> bool" where
  "has_finished_requests s \<longleftrightarrow> sc_finished_req_ids s \<noteq> {}"

definition sched_reset_prefix_cache :: "scheduler \<Rightarrow> bool \<times> scheduler" where
  "sched_reset_prefix_cache s =
     (case km_reset_prefix_cache (sc_kv_cache_manager s) of (ok, km) \<Rightarrow> (ok, s\<lparr>sc_kv_cache_manager := km\<rparr>))"

fun update_draft_token_ids :: "(reqid \<times> token list) list \<Rightarrow> scheduler \<Rightarrow> scheduler" where
  "update_draft_token_ids [] s = s"
| "update_draft_token_ids ((rid, toks) # ds) s =
     update_draft_token_ids ds
       (upd_req rid (\<lambda>r. if is_finished r then r else r\<lparr>rq_spec_token_ids := toks\<rparr>) s)"

end
