(* ===== verification/Schedule_Step.thy ===== *)
theory Schedule_Step
  imports Scheduler
begin

text \<open>
  The two halves of a scheduler step in \<open>vllm/v1/core/sched/scheduler.py\<close>: \<open>schedule\<close>, which admits
  running and waiting requests under the token budget, and \<open>update_from_output\<close>, which processes the
  sampled tokens. The local variables of \<open>schedule\<close> are the record \<open>sched_ctx\<close>. The loops are
  recursive functions with termination proofs: the loop over running requests either
  advances or removes a request, the loop over waiting requests takes one request from the queue each
  time.
\<close>

subsection \<open>The local state of schedule\<close>

record sched_ctx =
  cx_sched :: scheduler
  cx_new :: "reqid list"
  cx_resumed :: "reqid list"
  cx_running :: "reqid list"
  cx_preempted :: "reqid list"
  cx_new_blocks :: "(reqid, blkref list list) dict"
  cx_num_scheduled_tokens :: "(reqid, int) dict"
  cx_token_budget :: int
  cx_spec_tokens :: "(reqid, token list) dict"
  cx_req_index :: nat

abbreviation running_of :: "sched_ctx \<Rightarrow> reqid list" where
  "running_of cx \<equiv> sc_running (cx_sched cx)"

definition init_ctx :: "scheduler \<Rightarrow> sched_ctx" where
  "init_ctx s = \<lparr>cx_sched = s, cx_new = [], cx_resumed = [], cx_running = [], cx_preempted = [],
     cx_new_blocks = [], cx_num_scheduled_tokens = [], cx_token_budget = sc_max_num_scheduled_tokens s,
     cx_spec_tokens = [], cx_req_index = 0\<rparr>"

subsection \<open>Running requests\<close>

definition running_num_new_tokens :: "scheduler \<Rightarrow> int \<Rightarrow> request \<Rightarrow> int" where
  "running_num_new_tokens s budget r =
     (let n0 = num_tokens_with_spec r + rq_num_output_placeholders r - rq_num_computed_tokens r;
          t = sc_long_prefill_token_threshold s;
          n1 = (if 0 < t \<and> t < n0 then t else n0);
          n2 = min n1 budget;
          max_total_tokens = min (rq_num_prompt_tokens r + rq_max_tokens r) (sc_max_model_len s)
      in min n2 (max_total_tokens - 1 - rq_num_computed_tokens r))"

text \<open>\<open>max(xs, key=f)\<close> returns the first maximal element.\<close>

fun max_by :: "('a \<Rightarrow> 'k :: linorder) \<Rightarrow> 'a list \<Rightarrow> 'a result" where
  "max_by f [] = Inl ValueError"
| "max_by f (x # xs) = Inr (foldl (\<lambda>b y. if f b < f y then y else b) x xs)"

text \<open>The bookkeeping that is undone when a request scheduled earlier in this step is preempted.\<close>

definition unschedule :: "reqid \<Rightarrow> sched_ctx \<Rightarrow> sched_ctx" where
  "unschedule v cx =
     (if v \<in> set (cx_running cx) then
        cx\<lparr>cx_running := remove1 v (cx_running cx),
           cx_token_budget := cx_token_budget cx + dget_or (cx_num_scheduled_tokens cx) v 0,
           cx_new_blocks := AList.delete v (cx_new_blocks cx),
           cx_num_scheduled_tokens := AList.delete v (cx_num_scheduled_tokens cx),
           cx_spec_tokens := AList.delete v (cx_spec_tokens cx),
           cx_req_index := cx_req_index cx - 1\<rparr>
      else cx)"

definition preempt_request :: "reqid \<Rightarrow> sched_ctx \<Rightarrow> sched_ctx result" where
  "preempt_request v cx =
     (let s = cx_sched cx in
      ebind (km_free (req_of s v) (sc_kv_cache_manager s)) (\<lambda>km.
        let s1 = upd_req v (\<lambda>r. r\<lparr>rq_status := PREEMPTED, rq_num_computed_tokens := 0,
                                  rq_num_preemptions := rq_num_preemptions r + 1\<rparr>)
                   (s\<lparr>sc_kv_cache_manager := km\<rparr>)
        in ebind (queue_prepend (req_attr s1) v (sc_waiting s1)) (\<lambda>q.
             Inr (cx\<lparr>cx_sched := s1\<lparr>sc_waiting := q\<rparr>, cx_preempted := cx_preempted cx @ [v]\<rparr>))))"

definition preempt_one :: "sched_ctx \<Rightarrow> (reqid \<times> sched_ctx) result" where
  "preempt_one cx =
     (let s = cx_sched cx in
      if sc_policy s = PRIORITY then
        ebind (max_by (req_attr s) (sc_running s)) (\<lambda>v.
          let cx1 = unschedule v (cx\<lparr>cx_sched := s\<lparr>sc_running := remove1 v (sc_running s)\<rparr>\<rparr>)
          in ebind (preempt_request v cx1) (\<lambda>cx2. Inr (v, cx2)))
      else if sc_running s = [] then Inl IndexError
      else let v = last (sc_running s);
               cx1 = cx\<lparr>cx_sched := s\<lparr>sc_running := butlast (sc_running s)\<rparr>\<rparr>
           in ebind (preempt_request v cx1) (\<lambda>cx2. Inr (v, cx2)))"

lemma max_by_mem: "max_by f xs = Inr v \<Longrightarrow> v \<in> set xs"
proof -
  have "foldl (\<lambda>b y. if f b < f y then y else b) x ys \<in> set (x # ys)" for x ys
  proof (induction ys arbitrary: x)
    case (Cons y ys)
    from Cons.IH [of x] Cons.IH [of y] show ?case by auto
  qed simp
  then show "max_by f xs = Inr v \<Longrightarrow> v \<in> set xs" by (cases xs) auto
qed

lemma preempt_request_running:
  "preempt_request v cx = Inr cx' \<Longrightarrow> running_of cx' = running_of cx \<and> cx_req_index cx' = cx_req_index cx"
  by (auto simp: preempt_request_def Let_def ebind_eq_Inr upd_req_def)

lemma preempt_one_shrinks:
  assumes "preempt_one cx = Inr (v, cx')"
  shows "length (running_of cx') < length (running_of cx)"
    and "length (running_of cx') - cx_req_index cx' \<le> length (running_of cx) - cx_req_index cx"
proof -
  note mem = max_by_mem
  have un: "running_of (unschedule w c) = running_of c" "cx_req_index (unschedule w c) \<ge> cx_req_index c - 1" for w c
    by (auto simp: unschedule_def)
  show "length (running_of cx') < length (running_of cx)"
    using assms by (auto simp: preempt_one_def Let_def ebind_eq_Inr length_remove1 un
        dest!: preempt_request_running mem split: if_splits) (metis diff_less length_pos_if_in_set zero_less_one One_nat_def)
  show "length (running_of cx') - cx_req_index cx' \<le> length (running_of cx) - cx_req_index cx"
  proof (cases "sc_policy (cx_sched cx) = PRIORITY")
    case True
    with assms obtain w cx2 where w: "max_by (req_attr (cx_sched cx)) (running_of cx) = Inr w"
      "preempt_request w (unschedule w (cx\<lparr>cx_sched := (cx_sched cx)\<lparr>sc_running := remove1 w (running_of cx)\<rparr>\<rparr>)) = Inr cx'"
      by (auto simp: preempt_one_def Let_def ebind_eq_Inr)
    from preempt_request_running [OF w(2)] have "running_of cx' = remove1 w (running_of cx)"
      "cx_req_index cx' \<ge> cx_req_index cx - 1" using un(1)
      un(2) [of "cx\<lparr>cx_sched := (cx_sched cx)\<lparr>sc_running := remove1 w (running_of cx)\<rparr>\<rparr>" w] by simp_all
    with mem [OF w(1)] show ?thesis by (simp add: length_remove1)
  next
    case False
    with assms show ?thesis
      by (auto simp: preempt_one_def Let_def ebind_eq_Inr split: if_splits dest!: preempt_request_running)
  qed
qed

lemma free_request_frame:
  "free_request rid s = Inr s' \<Longrightarrow> sc_running s' = sc_running s \<and> sc_waiting s' = sc_waiting s \<and>
     sc_requests s' = AList.delete rid (sc_requests s) \<and> sc_policy s' = sc_policy s \<and>
     sc_trace_scores s' = sc_trace_scores s"
  by (auto simp: free_request_def free_blocks_of_def Let_def ebind_eq_Inr)

lemma stop_lowest_running_shrinks:
  assumes "stop_lowest_running s = Inr (v, s')"
  shows "v = None \<longleftrightarrow> sc_running s = []" and "v = Some w \<Longrightarrow> w = last (sc_running s) \<and> sc_running s' = butlast (sc_running s)"
  using assms
  by (auto simp: stop_lowest_running_def Let_def ebind_eq_Inr upd_req_def split: if_splits dest!: free_request_frame)

text \<open>The allocation loop: until the request fits, GAMBIT stops the lowest-scored running request, the
  other policies preempt one; it gives up when the request itself was the victim. One round:\<close>

datatype alloc_outcome = Alloc_Done "blkref list list option" sched_ctx | Alloc_Retry sched_ctx

definition make_room :: "reqid \<Rightarrow> sched_ctx \<Rightarrow> alloc_outcome result" where
  "make_room rid cx =
     (if sc_policy (cx_sched cx) = GAMBIT then
        ebind (stop_lowest_running (cx_sched cx)) (\<lambda>(v, s).
          let cx1 = cx\<lparr>cx_sched := s\<rparr> in
          Inr (if v = None \<or> v = Some rid then Alloc_Done None cx1 else Alloc_Retry cx1))
      else
        ebind (preempt_one cx) (\<lambda>(v, cx1).
          Inr (if v = rid then Alloc_Done None cx1 else Alloc_Retry cx1)))"

definition alloc_round :: "bool \<Rightarrow> reqid \<Rightarrow> int \<Rightarrow> sched_ctx \<Rightarrow> alloc_outcome result" where
  "alloc_round u rid n cx =
     (let s = cx_sched cx in
      ebind (km_allocate_slots u (req_of s rid) n 0 None (sc_num_lookahead_tokens s) False (sc_kv_cache_manager s))
        (\<lambda>(nb, km).
          let cx1 = cx\<lparr>cx_sched := s\<lparr>sc_kv_cache_manager := km\<rparr>\<rparr> in
          case nb of Some b \<Rightarrow> Inr (Alloc_Done (Some b) cx1) | None \<Rightarrow> make_room rid cx1))"

lemma make_room_shrinks:
  assumes "make_room rid cx = Inr out"
  shows "out = Alloc_Retry cx' \<Longrightarrow> length (running_of cx') < length (running_of cx)"
    and "out = Alloc_Retry cx' \<or> out = Alloc_Done nb cx' \<Longrightarrow>
      length (running_of cx') - cx_req_index cx' \<le> length (running_of cx) - cx_req_index cx"
proof -
  have stop: "length (sc_running s') \<le> length (sc_running s) \<and> (v \<noteq> None \<longrightarrow> length (sc_running s') < length (sc_running s))"
    if "stop_lowest_running s = Inr (v, s')" for s v s'
  proof (cases v)
    case None
    with that show ?thesis by (auto simp: stop_lowest_running_def Let_def ebind_eq_Inr split: if_splits)
  next
    case (Some w)
    with stop_lowest_running_shrinks [OF that] show ?thesis by auto
  qed
  show "out = Alloc_Retry cx' \<Longrightarrow> length (running_of cx') < length (running_of cx)"
    using assms stop preempt_one_shrinks(1)
    by (fastforce simp: make_room_def Let_def ebind_eq_Inr split: if_splits)
  show "out = Alloc_Retry cx' \<or> out = Alloc_Done nb cx' \<Longrightarrow>
      length (running_of cx') - cx_req_index cx' \<le> length (running_of cx) - cx_req_index cx"
    using assms stop preempt_one_shrinks(2)
    by (fastforce simp: make_room_def Let_def ebind_eq_Inr split: if_splits)
qed

lemma alloc_round_shrinks:
  assumes "alloc_round u rid n cx = Inr out"
  shows "out = Alloc_Retry cx' \<Longrightarrow> length (running_of cx') < length (running_of cx)"
    and "out = Alloc_Retry cx' \<or> out = Alloc_Done nb cx' \<Longrightarrow>
      length (running_of cx') - cx_req_index cx' \<le> length (running_of cx) - cx_req_index cx"
proof -
  obtain nb0 km where cases: "(\<exists>b. nb0 = Some b \<and> out = Alloc_Done (Some b) (cx\<lparr>cx_sched := (cx_sched cx)\<lparr>sc_kv_cache_manager := km\<rparr>\<rparr>)) \<or>
      make_room rid (cx\<lparr>cx_sched := (cx_sched cx)\<lparr>sc_kv_cache_manager := km\<rparr>\<rparr>) = Inr out"
    using assms by (auto simp: alloc_round_def Let_def ebind_eq_Inr split: option.splits)
  show "out = Alloc_Retry cx' \<Longrightarrow> length (running_of cx') < length (running_of cx)"
    using cases make_room_shrinks(1) by fastforce
  show "out = Alloc_Retry cx' \<or> out = Alloc_Done nb cx' \<Longrightarrow>
      length (running_of cx') - cx_req_index cx' \<le> length (running_of cx) - cx_req_index cx"
    using cases make_room_shrinks(2) by fastforce
qed

function alloc_running :: "bool \<Rightarrow> reqid \<Rightarrow> int \<Rightarrow> sched_ctx \<Rightarrow> (blkref list list option \<times> sched_ctx) result" where
  "alloc_running u rid n cx =
     ebind (alloc_round u rid n cx) (\<lambda>out.
       case out of
         Alloc_Done nb cx1 \<Rightarrow> Inr (nb, cx1)
       | Alloc_Retry cx1 \<Rightarrow> alloc_running u rid n cx1)"
  by pat_completeness auto
termination
  by (relation "measure (\<lambda>(_, _, _, cx). length (running_of cx))") (auto dest: alloc_round_shrinks(1))

declare alloc_running.simps [simp del]

lemma alloc_running_shrinks:
  assumes "alloc_running u rid n cx = Inr (nb, cx')"
  shows "length (running_of cx') - cx_req_index cx' \<le> length (running_of cx) - cx_req_index cx"
  using assms
proof (induction u rid n cx rule: alloc_running.induct)
  case (1 u rid n cx)
  from "1.prems" obtain out where out: "alloc_round u rid n cx = Inr out"
    and rest: "(case out of Alloc_Done nb cx1 \<Rightarrow> Inr (nb, cx1) | Alloc_Retry cx1 \<Rightarrow> alloc_running u rid n cx1) = Inr (nb, cx')"
    unfolding alloc_running.simps [of u rid n cx] by (rule ebind_Inr_E)
  show ?case
  proof (cases out)
    case (Alloc_Done nb1 cx1)
    with rest alloc_round_shrinks(2) [OF out] show ?thesis by simp
  next
    case (Alloc_Retry cx1)
    with rest have "alloc_running u rid n cx1 = Inr (nb, cx')" by simp
    from "1.IH" [OF out Alloc_Retry this] alloc_round_shrinks(2) [OF out, of cx1] Alloc_Retry show ?thesis by simp
  qed
qed

definition schedule_running :: "reqid \<Rightarrow> int \<Rightarrow> blkref list list \<Rightarrow> sched_ctx \<Rightarrow> sched_ctx" where
  "schedule_running rid n new_blocks cx =
     (let cx1 = cx\<lparr>cx_running := cx_running cx @ [rid],
                   cx_new_blocks := AList.update rid new_blocks (cx_new_blocks cx),
                   cx_num_scheduled_tokens := AList.update rid n (cx_num_scheduled_tokens cx),
                   cx_token_budget := cx_token_budget cx - n,
                   cx_req_index := cx_req_index cx + 1\<rparr>;
          r = req_of (cx_sched cx) rid;
          k = n + rq_num_computed_tokens r - num_tokens r
      in if rq_spec_token_ids r \<noteq> [] then
           cx1\<lparr>cx_spec_tokens := (if k > 0 then AList.update rid (take (nat k) (rq_spec_token_ids r)) (cx_spec_tokens cx)
                                  else cx_spec_tokens cx),
               cx_sched := upd_req rid (\<lambda>r. r\<lparr>rq_spec_token_ids := []\<rparr>) (cx_sched cx)\<rparr>
         else cx1)"

lemma schedule_running_measure:
  "running_of (schedule_running rid n nb cx) = running_of cx"
  "cx_req_index (schedule_running rid n nb cx) = cx_req_index cx + 1"
  by (simp_all add: schedule_running_def Let_def upd_req_def)

function running_loop :: "bool \<Rightarrow> sched_ctx \<Rightarrow> sched_ctx result" where
  "running_loop u cx =
     (if cx_req_index cx < length (running_of cx) \<and> cx_token_budget cx > 0 then
        let rid = running_of cx ! cx_req_index cx;
            n = running_num_new_tokens (cx_sched cx) (cx_token_budget cx) (req_of (cx_sched cx) rid)
        in if n = 0 then running_loop u (cx\<lparr>cx_req_index := cx_req_index cx + 1\<rparr>)
           else ebind (alloc_running u rid n cx) (\<lambda>(nb, cx1).
             case nb of None \<Rightarrow> Inr cx1 | Some b \<Rightarrow> running_loop u (schedule_running rid n b cx1))
      else Inr cx)"
  by pat_completeness auto
termination
proof (relation "measure (\<lambda>(_, cx). length (running_of cx) + 1 - cx_req_index cx)", goal_cases)
  case (3 u cx rid n p nb cx1 b)
  then have "alloc_running u rid n cx = Inr (Some b, cx1)" by simp
  from alloc_running_shrinks [OF this] 3(1) show ?case by (simp add: schedule_running_measure) linarith
qed auto

declare running_loop.simps [simp del]

subsection \<open>Waiting requests\<close>

text \<open>A request that is skipped is popped and put aside.\<close>

definition skip_waiting :: "reqid \<Rightarrow> sched_ctx \<Rightarrow> request_queue \<Rightarrow> (sched_ctx \<times> request_queue) result" where
  "skip_waiting rid cx skipped =
     (let s = cx_sched cx in
      ebind (queue_pop (sc_waiting s)) (\<lambda>(_, q).
      ebind (queue_prepend (req_attr s) rid skipped) (\<lambda>sk.
        Inr (cx\<lparr>cx_sched := s\<lparr>sc_waiting := q\<rparr>\<rparr>, sk))))"

text \<open>The tokens a waiting request already has, and how many to compute next; \<open>None\<close> means that it must
  be skipped because chunked prefill is off.\<close>

definition waiting_computed :: "request \<Rightarrow> kv_manager \<Rightarrow> (blkref list list \<times> int \<times> int) result" where
  "waiting_computed r km =
     (if rq_num_computed_tokens r = 0 then
        ebind (km_get_computed_blocks r km) (\<lambda>(blocks, n). Inr (blocks, n, n))
      else Inr (empty_kv_cache_blocks km, 0, rq_num_computed_tokens r))"

definition waiting_num_new_tokens :: "scheduler \<Rightarrow> int \<Rightarrow> request \<Rightarrow> int \<Rightarrow> int option" where
  "waiting_num_new_tokens s budget r num_computed =
     (let n0 = num_tokens r - num_computed;
          t = sc_long_prefill_token_threshold s;
          n1 = (if 0 < t \<and> t < n0 then t else n0)
      in if \<not> sc_chunked_prefill_enabled s \<and> n1 > budget then None else Some (min n1 budget))"

text \<open>A request with allocated slots enters the running list.\<close>

definition admit :: "reqid \<Rightarrow> int \<Rightarrow> int \<Rightarrow> sched_ctx \<Rightarrow> sched_ctx result" where
  "admit rid n num_computed cx =
     (let s = cx_sched cx in
      ebind (queue_pop (sc_waiting s)) (\<lambda>(_, q).
        let s1 = s\<lparr>sc_waiting := q, sc_running := sc_running s @ [rid]\<rparr>;
            cx1 = cx\<lparr>cx_sched := s1, cx_req_index := cx_req_index cx + 1\<rparr>;
            st = rq_status (req_of s1 rid)
        in ebind (if st = WAITING then Inr (cx1\<lparr>cx_new := cx_new cx1 @ [rid]\<rparr>)
                  else if st = PREEMPTED then Inr (cx1\<lparr>cx_resumed := cx_resumed cx1 @ [rid]\<rparr>)
                  else Inl RuntimeError) (\<lambda>cx2.
             Inr (cx2\<lparr>cx_new_blocks := AList.update rid (km_get_blocks rid (sc_kv_cache_manager s1)) (cx_new_blocks cx2),
                      cx_num_scheduled_tokens := AList.update rid n (cx_num_scheduled_tokens cx2),
                      cx_token_budget := cx_token_budget cx2 - n,
                      cx_sched := upd_req rid (\<lambda>r. r\<lparr>rq_status := RUNNING, rq_num_computed_tokens := num_computed,
                          rq_num_cached_tokens := (if rq_num_cached_tokens r < 0 then num_computed
                                                   else rq_num_cached_tokens r)\<rparr>) (cx_sched cx2)\<rparr>))))"

datatype wait_outcome = Skip | Stop_Loop | Admit int int

text \<open>What happens to the request at the head of the queue, before it is popped.\<close>

definition try_waiting :: "bool \<Rightarrow> reqid \<Rightarrow> sched_ctx \<Rightarrow> (wait_outcome \<times> sched_ctx) result" where
  "try_waiting u rid cx =
     (let s = cx_sched cx; r = req_of s rid in
      ebind (waiting_computed r (sc_kv_cache_manager s)) (\<lambda>(blocks, num_local, num_computed).
        case waiting_num_new_tokens s (cx_token_budget cx) r num_computed of
          None \<Rightarrow> Inr (Skip, cx)
        | Some n \<Rightarrow>
            ebind (assert_that (n > 0)) (\<lambda>_.
            ebind (km_allocate_slots u r n num_local (Some blocks)
                     (if rq_num_computed_tokens r = 0 then 0 else sc_num_lookahead_tokens s) False
                     (sc_kv_cache_manager s)) (\<lambda>(nb, km).
              let cx1 = cx\<lparr>cx_sched := s\<lparr>sc_kv_cache_manager := km\<rparr>\<rparr> in
              Inr (if nb = None then Stop_Loop else Admit n num_computed, cx1)))))"

lemma try_waiting_queue: "try_waiting u rid cx = Inr (o', cx') \<Longrightarrow> sc_waiting (cx_sched cx') = sc_waiting (cx_sched cx)"
  by (auto simp: try_waiting_def Let_def ebind_eq_Inr split: option.splits)

lemma skip_waiting_len:
  "skip_waiting rid cx sk = Inr (cx', sk') \<Longrightarrow> queue_len (sc_waiting (cx_sched cx)) = Suc (queue_len (sc_waiting (cx_sched cx')))"
  by (auto simp: skip_waiting_def Let_def ebind_eq_Inr dest!: queue_pop_len)

lemma admit_len:
  "admit rid n k cx = Inr cx' \<Longrightarrow> queue_len (sc_waiting (cx_sched cx)) = Suc (queue_len (sc_waiting (cx_sched cx')))"
  by (auto simp: admit_def Let_def ebind_eq_Inr upd_req_def dest!: queue_pop_len split: if_splits)

definition resume_fsm :: "(reqid \<Rightarrow> bool) \<Rightarrow> reqid \<Rightarrow> sched_ctx \<Rightarrow> sched_ctx option" where
  "resume_fsm fsm rid cx =
     (if rq_status (req_of (cx_sched cx) rid) = WAITING_FOR_FSM then
        (if fsm rid then Some (cx\<lparr>cx_sched := upd_req rid (\<lambda>r. r\<lparr>rq_status := WAITING\<rparr>) (cx_sched cx)\<rparr>)
         else None)
      else Some cx)"

lemma resume_fsm_queue: "resume_fsm fsm rid cx = Some cx' \<Longrightarrow> sc_waiting (cx_sched cx') = sc_waiting (cx_sched cx)"
  by (auto simp: resume_fsm_def upd_req_def split: if_splits)

function waiting_loop :: "bool \<Rightarrow> (reqid \<Rightarrow> bool) \<Rightarrow> sched_ctx \<Rightarrow> request_queue \<Rightarrow> (sched_ctx \<times> request_queue) result" where
  "waiting_loop u fsm cx skipped =
     (if \<not> (queue_bool (sc_waiting (cx_sched cx)) \<and> cx_token_budget cx > 0) then Inr (cx, skipped)
      else if length (running_of cx) = sc_max_num_running_reqs (cx_sched cx) then Inr (cx, skipped)
      else
      ebind (queue_peek (sc_waiting (cx_sched cx))) (\<lambda>rid.
        if rq_status (req_of (cx_sched cx) rid) = WAITING_FOR_REMOTE_KVS then Inl AssertionError
        else case resume_fsm fsm rid cx of
          None \<Rightarrow> ebind (skip_waiting rid cx skipped) (\<lambda>(cx1, sk). waiting_loop u fsm cx1 sk)
        | Some cx1 \<Rightarrow>
            ebind (try_waiting u rid cx1) (\<lambda>(outcome, cx2).
              case outcome of
                Skip \<Rightarrow> ebind (skip_waiting rid cx2 skipped) (\<lambda>(cx3, sk). waiting_loop u fsm cx3 sk)
              | Stop_Loop \<Rightarrow> Inr (cx2, skipped)
              | Admit n num_computed \<Rightarrow> ebind (admit rid n num_computed cx2) (\<lambda>cx3. waiting_loop u fsm cx3 skipped))))"
  by pat_completeness auto
termination
  by (relation "measure (\<lambda>(_, _, cx, _). queue_len (sc_waiting (cx_sched cx)))")
    (auto dest!: skip_waiting_len admit_len try_waiting_queue resume_fsm_queue)

declare waiting_loop.simps [simp del]

subsection \<open>The output of schedule\<close>

record new_request_data =
  nr_req_id :: reqid
  nr_prompt_token_ids :: "token list option"
  nr_sampling_params :: "sampling_params option"
  nr_block_ids :: "int list list"
  nr_num_computed_tokens :: int

record cached_request_data =
  cr_req_ids :: "reqid list"
  cr_resumed_req_ids :: "reqid set"
  cr_new_token_ids :: "token list list"
  cr_all_token_ids :: "(reqid, token list) dict"
  cr_new_block_ids :: "int list list option list"
  cr_num_computed_tokens :: "int list"
  cr_num_output_tokens :: "int list"

record scheduler_output =
  so_new_reqs :: "new_request_data list"
  so_cached_reqs :: cached_request_data
  so_num_scheduled_tokens :: "(reqid, int) dict"
  so_total_num_scheduled_tokens :: int
  so_spec_tokens :: "(reqid, token list) dict"
  so_num_common_prefix_blocks :: "nat list"
  so_finished_req_ids :: "reqid set"

definition new_request_data_of :: "request \<Rightarrow> int list list \<Rightarrow> new_request_data" where
  "new_request_data_of r ids = \<lparr>nr_req_id = rq_request_id r, nr_prompt_token_ids = rq_prompt_token_ids r,
     nr_sampling_params = rq_sampling_params r, nr_block_ids = ids, nr_num_computed_tokens = rq_num_computed_tokens r\<rparr>"

text \<open>One row of \<open>_make_cached_request_data\<close>; \<open>resumed\<close> says that the request comes after the running ones.\<close>

definition cached_row :: "scheduler \<Rightarrow> (reqid, int) dict \<Rightarrow> (reqid, token list) dict \<Rightarrow>
    (reqid, blkref list list) dict \<Rightarrow> bool \<Rightarrow> reqid \<Rightarrow> cached_request_data \<Rightarrow> cached_request_data result" where
  "cached_row s num_sched spec new_blocks resumed rid cr =
     (case (map_of num_sched rid, map_of new_blocks rid) of
        (Some n, Some blocks) \<Rightarrow>
          let r = req_of s rid;
              k = n - int (length (dget_or spec rid []));
              c = nat (rq_num_computed_tokens r);
              upto = nat (rq_num_computed_tokens r + k);
              prev = rid \<in> sc_prev_step_scheduled_req_ids s
          in if resumed \<and> prev then Inl AssertionError
             else Inr (cr\<lparr>cr_req_ids := cr_req_ids cr @ [rid],
               cr_resumed_req_ids := (if resumed then insert rid (cr_resumed_req_ids cr) else cr_resumed_req_ids cr),
               cr_new_token_ids := cr_new_token_ids cr @ (if sc_use_pp s then [slice c upto (rq_all_token_ids r)] else []),
               cr_all_token_ids := (if prev then cr_all_token_ids cr
                  else AList.update rid (take upto (rq_all_token_ids r)) (cr_all_token_ids cr)),
               cr_new_block_ids := cr_new_block_ids cr @
                  [if any_block blocks then Some (block_ids blocks (sc_kv_cache_manager s)) else None],
               cr_num_computed_tokens := cr_num_computed_tokens cr @ [rq_num_computed_tokens r],
               cr_num_output_tokens := cr_num_output_tokens cr @ [num_output_tokens r + rq_num_output_placeholders r]\<rparr>)
      | _ \<Rightarrow> Inl KeyError)"

fun cached_rows :: "scheduler \<Rightarrow> (reqid, int) dict \<Rightarrow> (reqid, token list) dict \<Rightarrow>
    (reqid, blkref list list) dict \<Rightarrow> bool \<Rightarrow> reqid list \<Rightarrow> cached_request_data \<Rightarrow> cached_request_data result" where
  "cached_rows s ns spec nb resumed [] cr = Inr cr"
| "cached_rows s ns spec nb resumed (r # rs) cr =
     ebind (cached_row s ns spec nb resumed r cr) (cached_rows s ns spec nb resumed rs)"

definition make_cached_request_data :: "sched_ctx \<Rightarrow> cached_request_data result" where
  "make_cached_request_data cx =
     (let empty = \<lparr>cr_req_ids = [], cr_resumed_req_ids = {}, cr_new_token_ids = [], cr_all_token_ids = [],
            cr_new_block_ids = [], cr_num_computed_tokens = [], cr_num_output_tokens = []\<rparr>;
          rows = cached_rows (cx_sched cx) (cx_num_scheduled_tokens cx) (cx_spec_tokens cx) (cx_new_blocks cx)
      in ebind (rows False (cx_running cx) empty) (rows True (cx_resumed cx)))"

fun advance_loop :: "(reqid \<times> int) list \<Rightarrow> scheduler \<Rightarrow> scheduler result" where
  "advance_loop [] s = Inr s"
| "advance_loop ((rid, n) # xs) s =
     (if map_of (sc_requests s) rid = None then Inl KeyError
      else advance_loop xs (upd_req rid (\<lambda>r. r\<lparr>rq_num_computed_tokens := rq_num_computed_tokens r + n\<rparr>) s))"

definition update_after_schedule :: "scheduler_output \<Rightarrow> scheduler \<Rightarrow> scheduler result" where
  "update_after_schedule so s =
     ebind (advance_loop (so_num_scheduled_tokens so) s) (\<lambda>s'. Inr (s'\<lparr>sc_finished_req_ids := {}\<rparr>))"

text \<open>The two loops, then the assertions of the source on budget and queue sizes.\<close>

definition schedule_loops :: "bool \<Rightarrow> (reqid \<Rightarrow> bool) \<Rightarrow> scheduler \<Rightarrow> sched_ctx result" where
  "schedule_loops u fsm s0 =
     (let s = (if sc_policy s0 = GAMBIT then order_running_by_score s0 else s0) in
      ebind (running_loop u (init_ctx s)) (\<lambda>cx1.
      ebind (if cx_preempted cx1 = [] then waiting_loop u fsm cx1 (create_request_queue (sc_policy s))
             else Inr (cx1, create_request_queue (sc_policy s))) (\<lambda>(cx2, skipped).
        if queue_bool skipped then
          ebind (queue_prepend_requests (req_attr (cx_sched cx2)) skipped (sc_waiting (cx_sched cx2))) (\<lambda>q.
            Inr (cx2\<lparr>cx_sched := (cx_sched cx2)\<lparr>sc_waiting := q\<rparr>\<rparr>))
        else Inr cx2)))"

definition check_constraints :: "sched_ctx \<Rightarrow> unit result" where
  "check_constraints cx =
     (let s = cx_sched cx; total = sum_list (dvals (cx_num_scheduled_tokens cx)) in
      ebind (assert_that (total \<le> sc_max_num_scheduled_tokens s)) (\<lambda>_.
      ebind (assert_that (cx_token_budget cx \<ge> 0)) (\<lambda>_.
      ebind (assert_that (length (sc_running s) \<le> sc_max_num_running_reqs s)) (\<lambda>_.
      assert_that (length (cx_new cx) + length (cx_resumed cx) + length (cx_running cx) \<le> length (sc_running s))))))"

fun new_data_rows :: "sched_ctx \<Rightarrow> reqid list \<Rightarrow> new_request_data list result" where
  "new_data_rows cx [] = Inr []"
| "new_data_rows cx (rid # rids) =
     (case map_of (cx_new_blocks cx) rid of
        None \<Rightarrow> Inl KeyError
      | Some blocks \<Rightarrow> ebind (new_data_rows cx rids) (\<lambda>rest.
          Inr (new_request_data_of (req_of (cx_sched cx) rid)
                 (block_ids blocks (sc_kv_cache_manager (cx_sched cx))) # rest)))"

definition schedule :: "bool \<Rightarrow> (reqid \<Rightarrow> bool) \<Rightarrow> scheduler \<Rightarrow> (scheduler_output \<times> scheduler) result" where
  "schedule u fsm s0 =
     ebind (schedule_loops u fsm s0) (\<lambda>cx.
     ebind (check_constraints cx) (\<lambda>_.
       let s = cx_sched cx;
           (common, km) = (case sc_running s of
               [] \<Rightarrow> (replicate (length (kc_managers (km_coordinator (sc_kv_cache_manager s)))) 0, sc_kv_cache_manager s)
             | rid # _ \<Rightarrow> km_get_num_common_prefix_blocks rid (sc_kv_cache_manager s));
           cx1 = cx\<lparr>cx_sched := s\<lparr>sc_kv_cache_manager := km\<rparr>\<rparr>
       in
       ebind (new_data_rows cx1 (cx_new cx1)) (\<lambda>new_reqs.
       ebind (make_cached_request_data cx1) (\<lambda>cached.
         let s1 = (cx_sched cx1)\<lparr>sc_prev_step_scheduled_req_ids := keyset (cx_num_scheduled_tokens cx1)\<rparr>;
             so = \<lparr>so_new_reqs = new_reqs, so_cached_reqs = cached,
                   so_num_scheduled_tokens = cx_num_scheduled_tokens cx1,
                   so_total_num_scheduled_tokens = sum_list (dvals (cx_num_scheduled_tokens cx1)),
                   so_spec_tokens = cx_spec_tokens cx1, so_num_common_prefix_blocks = common,
                   so_finished_req_ids = sc_finished_req_ids s1\<rparr>
         in ebind (update_after_schedule so s1) (\<lambda>s2. Inr (so, s2))))))"

subsection \<open>Processing the sampled tokens\<close>

record model_runner_output =
  mo_req_id_to_index :: "(reqid, nat) dict"
  mo_sampled_token_ids :: "token list list"

record engine_core_outputs =
  eos_outputs :: "engine_core_output list"
  eos_finished_requests :: "reqid set option"

record update_ctx =
  ux_sched :: scheduler
  ux_outputs :: "(int, engine_core_output list) dict"
  ux_stopped_running :: "reqid set"
  ux_stopped_preempted :: "reqid list"

definition sampled_for :: "model_runner_output \<Rightarrow> reqid \<Rightarrow> token list result" where
  "sampled_for mo rid =
     (case map_of (mo_req_id_to_index mo) rid of
        None \<Rightarrow> Inl KeyError
      | Some i \<Rightarrow> if mo_sampled_token_ids mo = [] then Inr []
                  else if i < length (mo_sampled_token_ids mo) then Inr (mo_sampled_token_ids mo ! i)
                  else Inl IndexError)"

text \<open>One request of the batch: speculative rejections, new tokens, stop, output.\<close>

definition update_one :: "(request \<Rightarrow> bytes list) option \<Rightarrow> scheduler_output \<Rightarrow> model_runner_output \<Rightarrow>
    (reqid, score option) dict option \<Rightarrow> (reqid, score list) dict option \<Rightarrow> reqid \<Rightarrow> int \<Rightarrow> update_ctx \<Rightarrow> update_ctx result" where
  "update_one hasher so mo finals hists rid n ux =
     ebind (assert_that (n > 0)) (\<lambda>_.
     let s = ux_sched ux in
     case map_of (sc_requests s) rid of
       None \<Rightarrow> Inr ux
     | Some r0 \<Rightarrow>
         ebind (sampled_for mo rid) (\<lambda>generated.
           let draft = dget_or (so_spec_tokens so) rid [];
               rejected = int (length draft) - (int (length generated) - 1);
               r1 = (if draft \<noteq> [] then r0\<lparr>rq_num_computed_tokens := rq_num_computed_tokens r0 - rejected\<rparr> else r0)
           in
           ebind (update_request_with_output hasher (sc_max_model_len s) r1 generated) (\<lambda>(new_toks, stopped, r2).
             let s1 = upd_req rid (\<lambda>_. r2) s in
             ebind (if stopped then free_request rid s1 else Inr s1) (\<lambda>s2.
               let reason = get_finished_reason r2;
                   out = \<lparr>eo_request_id = rid, eo_new_token_ids = new_toks, eo_finish_reason = reason,
                          eo_stop_reason = rq_stop_reason r2,
                          eo_final_score = (case finals of Some d \<Rightarrow>
                              if reason \<noteq> None then dget_or d rid None else None | None \<Rightarrow> None),
                          eo_score_history = (case hists of Some d \<Rightarrow>
                              if reason \<noteq> None then map_of d rid else None | None \<Rightarrow> None),
                          eo_num_cached_tokens = rq_num_cached_tokens r2\<rparr>;
                   ci = rq_client_index r2
               in Inr (ux\<lparr>ux_sched := s2,
                    ux_stopped_running := (if stopped \<and> rq_status r0 = RUNNING
                       then insert rid (ux_stopped_running ux) else ux_stopped_running ux),
                    ux_stopped_preempted := (if stopped \<and> rq_status r0 \<noteq> RUNNING
                       then rid # ux_stopped_preempted ux else ux_stopped_preempted ux),
                    ux_outputs := (if new_toks \<noteq> []
                       then AList.update ci (dget_or (ux_outputs ux) ci [] @ [out]) (ux_outputs ux)
                       else ux_outputs ux)\<rparr>)))))"

fun update_loop :: "(request \<Rightarrow> bytes list) option \<Rightarrow> scheduler_output \<Rightarrow> model_runner_output \<Rightarrow>
    (reqid, score option) dict option \<Rightarrow> (reqid, score list) dict option \<Rightarrow> (reqid \<times> int) list \<Rightarrow> update_ctx \<Rightarrow> update_ctx result" where
  "update_loop hasher so mo finals hists [] ux = Inr ux"
| "update_loop hasher so mo finals hists ((rid, n) # xs) ux =
     ebind (update_one hasher so mo finals hists rid n ux) (update_loop hasher so mo finals hists xs)"

text \<open>Outputs of requests that the scheduler stopped itself are merged in, then the finished ids.\<close>

definition merge_pruned :: "(int, engine_core_output list) dict \<Rightarrow> (int, engine_core_outputs) dict \<Rightarrow>
    (int, engine_core_outputs) dict" where
  "merge_pruned pending outs =
     foldl (\<lambda>outs (ci, pruned). if pruned = [] then outs
        else let eco = dget_or outs ci \<lparr>eos_outputs = [], eos_finished_requests = None\<rparr>
             in AList.update ci (eco\<lparr>eos_outputs := eos_outputs eco @ pruned\<rparr>) outs) outs pending"

definition merge_finished :: "(int, reqid set) dict \<Rightarrow> (int, engine_core_outputs) dict \<Rightarrow> (int, engine_core_outputs) dict" where
  "merge_finished fin outs =
     foldl (\<lambda>outs (ci, ids).
        AList.update ci ((dget_or outs ci \<lparr>eos_outputs = [], eos_finished_requests = None\<rparr>)\<lparr>eos_finished_requests := Some ids\<rparr>) outs)
       outs fin"

definition remove_stopped :: "update_ctx \<Rightarrow> scheduler result" where
  "remove_stopped ux =
     (let s = ux_sched ux;
          s1 = (if ux_stopped_running ux \<noteq> {} then s\<lparr>sc_running := remove_all (sc_running s) (ux_stopped_running ux)\<rparr> else s)
      in if ux_stopped_preempted ux \<noteq> [] then
           ebind (queue_remove_requests (ux_stopped_preempted ux) (sc_waiting s1)) (\<lambda>q. Inr (s1\<lparr>sc_waiting := q\<rparr>))
         else Inr s1)"

definition update_from_output :: "(request \<Rightarrow> bytes list) option \<Rightarrow> scheduler_output \<Rightarrow> model_runner_output \<Rightarrow>
    (reqid, score option) dict option \<Rightarrow> (reqid, score list) dict option \<Rightarrow> scheduler \<Rightarrow>
    ((int, engine_core_outputs) dict \<times> scheduler) result" where
  "update_from_output hasher so mo finals hists s =
     ebind (update_loop hasher so mo finals hists (so_num_scheduled_tokens so)
              \<lparr>ux_sched = s, ux_outputs = [], ux_stopped_running = {}, ux_stopped_preempted = []\<rparr>) (\<lambda>ux.
     ebind (remove_stopped ux) (\<lambda>s1.
       let km = snd (km_take_events (sc_kv_cache_manager s1));
           outs = map (\<lambda>(ci, os). (ci, \<lparr>eos_outputs = os, eos_finished_requests = None\<rparr>)) (ux_outputs ux);
           outs1 = merge_pruned (sc_pending_pruned_outputs s1) outs;
           s2 = s1\<lparr>sc_kv_cache_manager := km, sc_pending_pruned_outputs := []\<rparr>
       in Inr (case sc_finished_req_ids_dict s2 of
            None \<Rightarrow> (outs1, s2)
          | Some d \<Rightarrow> (merge_finished d outs1, s2\<lparr>sc_finished_req_ids_dict := Some []\<rparr>))))"

end
