(* ===== verification/Engine_State.thy ===== *)
theory Engine_State
  imports Trace_Tree Schedule_Step "HOL-Library.List_Lexorder" "HOL-Library.Char_ord"
begin

text \<open>
  The state of \<open>EngineCore\<close> (\<open>vllm/v1/engine/core.py\<close>) that the scoring, pruning and branching of
  Gambit work on, and the values that come from code outside the repository's Python core: the model
  executor, the step scorer, the random number generator, the order in which a Python set is iterated.
  They are the fields of the record \<open>env\<close>, a parameter of the operations. \<open>gambit_config\<close> always
  exists in the engine, so the guards \<open>gambit_config is None\<close> have no branch here; the tree is optional
  as in the source. Timers and log calls are left out.
\<close>

text \<open>What a scorer worker returns for one request: a score, a list of scores, or a dictionary with
  scores and a hidden state.\<close>

datatype payload = P_Score score | P_Scores "score list" | P_Hidden "score list" "score list option"

type_synonym worker_payloads = "(reqid \<times> payload) list list"

record env =
  ev_forward :: "scheduler_output \<Rightarrow> model_runner_output"
  ev_scorer :: "(reqid, int) dict \<Rightarrow> worker_payloads"
  ev_randint :: "int \<Rightarrow> int"
  ev_sample :: "int \<Rightarrow> (score \<times> reqid) list \<Rightarrow> nat \<Rightarrow> (score \<times> reqid) list"
  ev_hasher :: "(request \<Rightarrow> bytes list) option"
  ev_int_hashes :: bool
  ev_fsm :: "reqid \<Rightarrow> bool"
  ev_pooling_tasks :: "string list"
  ev_set_order :: "reqid set \<Rightarrow> reqid list"

text \<open>\<open>random.randint\<close> is drawn once per branch and \<open>random.sample\<close> at most once per tournament round, so
  the draws are indexed by the branch counter and by the round counter. The documented contracts:\<close>

definition sample_ok :: "env \<Rightarrow> bool" where
  "sample_ok ev \<longleftrightarrow> (\<forall>i xs n. n \<le> length xs \<longrightarrow>
     length (ev_sample ev i xs n) = n \<and> mset (ev_sample ev i xs n) \<subseteq># mset xs)"

definition set_order_ok :: "env \<Rightarrow> bool" where
  "set_order_ok ev \<longleftrightarrow> (\<forall>A. finite A \<longrightarrow> set (ev_set_order ev A) = A \<and> distinct (ev_set_order ev A))"

record engine =
  en_scheduler :: scheduler
  en_config :: gambit_config
  en_gambit_enabled :: bool
  en_trace_tree :: "trace_tree option"
  en_trace_scores :: "(reqid, score list) dict"
  en_trace_score_sums :: "(reqid, score) dict"
  en_trace_score_counts :: "(reqid, int) dict"
  en_final_trace_scores :: "(reqid, score option) dict"
  en_pending_low_score_stops :: "reqid set"
  en_pending_force_stops :: "reqid set"
  en_trace_token_counts :: "(reqid, int) dict"
  en_stride_last_trigger :: "(reqid, int) dict"
  en_pending_hs_classification :: "reqid set"
  en_trace_hidden_state_last :: "(reqid, score list) dict"
  en_output_token_ids :: "(reqid, token list) dict"
  en_tournament_step_counter :: int
  en_tournament_last_round_step :: int
  en_seq_hs_to_clear :: "reqid list"
  en_seq_hs_to_copy :: "(reqid \<times> reqid) list"
  en_async_scorer_enabled :: bool
  en_async_scorer_future :: "worker_payloads option"
  en_async_scorer_meta :: "bool \<times> reqid set"

text \<open>The part of the constructor that sets up this state.\<close>

definition init_trace_tree :: "gambit_config \<Rightarrow> trace_tree" where
  "init_trace_tree cfg =
     (case trace_tree_branch_gates cfg of (cooldown, min_tokens) \<Rightarrow> new_tree (trace_capacity cfg) cooldown min_tokens)"

definition init_engine :: "gambit_config \<Rightarrow> bool \<Rightarrow> scheduler \<Rightarrow> engine" where
  "init_engine cfg async_scorer s = \<lparr>
     en_scheduler = s, en_config = cfg, en_gambit_enabled = gc_enable_branching cfg,
     en_trace_tree = (if gc_enable_branching cfg then Some (init_trace_tree cfg) else None),
     en_trace_scores = [], en_trace_score_sums = [], en_trace_score_counts = [],
     en_final_trace_scores = [], en_pending_low_score_stops = {}, en_pending_force_stops = {},
     en_trace_token_counts = [], en_stride_last_trigger = [], en_pending_hs_classification = {},
     en_trace_hidden_state_last = [], en_output_token_ids = [], en_tournament_step_counter = 0,
     en_tournament_last_round_step = -1, en_seq_hs_to_clear = [], en_seq_hs_to_copy = [],
     en_async_scorer_enabled = async_scorer, en_async_scorer_future = None,
     en_async_scorer_meta = (False, {})\<rparr>"

abbreviation tokens_since_branch :: "engine \<Rightarrow> reqid \<Rightarrow> int" where
  "tokens_since_branch e rid \<equiv> dget_or (en_trace_token_counts e) rid 0"

text \<open>The number of active traces, 0 when there is no tree.\<close>

definition active_traces_of :: "engine \<Rightarrow> int" where
  "active_traces_of e = (case en_trace_tree e of None \<Rightarrow> 0 | Some t \<Rightarrow> get_active_count t)"

subsection \<open>Sample values\<close>

text \<open>A small engine: capacity 2, one trace swapped per round, no warmup, and one waiting request per trace.\<close>

definition sample_config :: gambit_config where
  "sample_config = default_gambit_config\<lparr>gc_enable := True, gc_enable_branching := True, gc_tournament_capacity := 2,
     gc_tournament_swap_k := 1, gc_tournament_check_interval := 1, gc_tournament_warmup_tokens := 0\<rparr>"

definition sample_scheduler :: "reqid list \<Rightarrow> scheduler" where
  "sample_scheduler ids = \<lparr>sc_requests = map (\<lambda>r. (r, sample_request r [1, 2])) ids, sc_policy = GAMBIT,
     sc_waiting = FCFSQueue ids, sc_running = [], sc_finished_req_ids = {}, sc_finished_req_ids_dict = None,
     sc_prev_step_scheduled_req_ids = {}, sc_max_num_running_reqs = 8, sc_max_num_scheduled_tokens = 16,
     sc_max_model_len = 100, sc_long_prefill_token_threshold = 0, sc_chunked_prefill_enabled = True,
     sc_num_lookahead_tokens = 0, sc_use_pp = False, sc_kv_cache_manager = sample_km, sc_trace_scores = [],
     sc_pending_pruned_outputs = []\<rparr>"

definition sample_env :: env where
  "sample_env = \<lparr>ev_forward = (\<lambda>_. \<lparr>mo_req_id_to_index = [], mo_sampled_token_ids = []\<rparr>),
     ev_scorer = (\<lambda>_. []), ev_randint = (\<lambda>n. n), ev_sample = (\<lambda>_ xs n. take n xs), ev_hasher = None,
     ev_int_hashes = False, ev_fsm = (\<lambda>_. True), ev_pooling_tasks = [], ev_set_order = sorted_list_of_set\<rparr>"

definition sample_tree :: "reqid list \<Rightarrow> trace_tree" where
  "sample_tree ids = fold add_root ids (init_trace_tree sample_config)"

definition sample_engine :: "reqid list \<Rightarrow> engine" where
  "sample_engine ids = (init_engine sample_config False (sample_scheduler ids))\<lparr>en_trace_tree := Some (sample_tree ids)\<rparr>"

lemma sample_env_ok: "sample_ok sample_env" "set_order_ok sample_env"
proof -
  have "mset (take n xs) \<subseteq># mset xs" for n and xs :: "(score \<times> reqid) list"
    by (metis append_take_drop_id mset_append mset_subset_eq_add_left)
  then show "sample_ok sample_env" by (simp add: sample_ok_def sample_env_def)
  show "set_order_ok sample_env" by (simp add: set_order_ok_def sample_env_def)
qed

lemma sample_engine_tree [simp]: "en_trace_tree (sample_engine ids) = Some (sample_tree ids)"
  by (simp add: sample_engine_def)

lemma tree_inv_fold_add_root:
  "tree_inv t \<Longrightarrow> distinct ids \<Longrightarrow> \<forall>r \<in> set ids. external_id r \<and> \<not> tree_contains t r \<Longrightarrow> tree_inv (fold add_root ids t)"
proof (induction ids arbitrary: t)
  case (Cons r ids)
  have "tree_inv (add_root r t)" by (rule tree_inv_add_root) (use Cons.prems in auto)
  moreover have "\<not> tree_contains (add_root r t) r'" if "r' \<in> set ids" for r'
    using Cons.prems that by (auto simp: tree_contains_def add_root_def invalidate_lineage_cache_def)
  ultimately show ?case using Cons by simp
qed simp

lemma sample_tree_inv:
  "distinct ids \<Longrightarrow> \<forall>r \<in> set ids. external_id r \<Longrightarrow> tree_inv (sample_tree ids)"
  unfolding sample_tree_def
  by (rule tree_inv_fold_add_root)
    (simp_all add: init_trace_tree_def tree_contains_def new_tree_def trace_tree_branch_gates_def tree_inv_new [unfolded new_tree_def])

lemma Inr_projr: "\<not> isl r \<Longrightarrow> r = Inr (projr r)"
  by (cases r) simp_all

end
