(* ===== verification/Gambit_Decision.thy ===== *)
theory Gambit_Decision
  imports Engine_State
begin

text \<open>
  The decisions of Gambit in \<open>vllm/v1/engine/core.py\<close>: pruning a trace, branching a trace into a child
  request, the tournament round, the threshold mode, the limit on completed traces, and
  \<open>_gambit_decision_step\<close>, which runs them after each scoring round.
\<close>

subsection \<open>Pruning and the completion limit\<close>

definition gambit_prune_trace :: "reqid \<Rightarrow> engine \<Rightarrow> engine" where
  "gambit_prune_trace rid e =
     (case en_trace_tree e of
        None \<Rightarrow> e
      | Some t \<Rightarrow> e\<lparr>en_pending_low_score_stops := insert rid (en_pending_low_score_stops e),
                    en_trace_tree := Some (mark_pruned rid t),
                    en_seq_hs_to_clear := en_seq_hs_to_clear e @ [rid]\<rparr>)"

definition gambit_should_stop_after_completed :: "engine \<Rightarrow> bool" where
  "gambit_should_stop_after_completed e =
     (case en_trace_tree e of
        None \<Rightarrow> False
      | Some t \<Rightarrow> let limit = gc_stop_after_completed_traces (en_config e)
                  in if limit \<le> 0 then False else get_completed_count t \<ge> limit)"

definition gambit_force_stop_all_active_traces :: "engine \<Rightarrow> engine" where
  "gambit_force_stop_all_active_traces e =
     (case en_trace_tree e of
        None \<Rightarrow> e
      | Some t \<Rightarrow>
          let active_ids = map fst (filter (\<lambda>(rid, n). nd_is_active n \<and> rid \<notin> en_pending_force_stops e) (tt_nodes t))
          in e\<lparr>en_trace_tree := Some (fold mark_pruned active_ids t),
               en_pending_force_stops := en_pending_force_stops e \<union> set active_ids\<rparr>)"

subsection \<open>Branching\<close>

text \<open>Sampling parameters of a child: boosted temperature, another seed. \<open>if self.trace_tree\<close> tests the
  length of the tree.\<close>

definition child_sampling_params :: "env \<Rightarrow> gambit_config \<Rightarrow> trace_tree \<Rightarrow> sampling_params \<Rightarrow> sampling_params" where
  "child_sampling_params ev cfg t sp = sp\<lparr>
     sp_temperature := map_option (\<lambda>x. x * gc_branch_temperature_boost cfg) (sp_temperature sp),
     sp_seed := Some (case sp_seed sp of
         Some seed \<Rightarrow> if tree_len t > 0 then seed + tt_branch_counter t else seed + 1
       | None \<Rightarrow> ev_randint ev (tt_branch_counter t))\<rparr>"

text \<open>The child request: the parent's tokens are its prompt. An exception of the constructor is caught and
  becomes \<open>None\<close>.\<close>

definition gambit_create_child_request :: "env \<Rightarrow> gambit_config \<Rightarrow> trace_tree \<Rightarrow> request \<Rightarrow> reqid \<Rightarrow> request option" where
  "gambit_create_child_request ev cfg t par child_id =
     (case new_request (ev_hasher ev) child_id (Some (rq_all_token_ids par))
             (map_option (child_sampling_params ev cfg t) (rq_sampling_params par))
             (rq_pooling_params par) (rq_eos_token_id par) (rq_client_index par)
             (rq_arrival_time par) None [] (rq_lora_request par) (rq_cache_salt par)
             (rq_priority par) of
        Inl _ \<Rightarrow> None
      | Inr r \<Rightarrow> Some r)"

definition copy_score_state :: "reqid \<Rightarrow> reqid \<Rightarrow> engine \<Rightarrow> engine" where
  "copy_score_state par child e =
     (if gc_enable (en_config e) \<and> \<not> gc_record_score_history (en_config e) then
        (if par \<in> keyset (en_trace_score_counts e) then
           e\<lparr>en_trace_score_counts := AList.update child (dget_or (en_trace_score_counts e) par 0) (en_trace_score_counts e),
             en_trace_score_sums := AList.update child (dget_or (en_trace_score_sums e) par 0) (en_trace_score_sums e)\<rparr>
         else e)
      else let parent_scores = dget_or (en_trace_scores e) par []
           in if parent_scores \<noteq> [] then e\<lparr>en_trace_scores := AList.update child parent_scores (en_trace_scores e)\<rparr>
              else e)"

definition init_child_counters :: "reqid \<Rightarrow> reqid \<Rightarrow> engine \<Rightarrow> engine" where
  "init_child_counters par child e = e\<lparr>
     en_trace_token_counts := AList.update child 0 (en_trace_token_counts e),
     en_stride_last_trigger := AList.update child 0 (en_stride_last_trigger e),
     en_output_token_ids := AList.update child (dget_or (en_output_token_ids e) par []) (en_output_token_ids e)\<rparr>"

definition gambit_create_branch :: "env \<Rightarrow> reqid \<Rightarrow> engine \<Rightarrow> (bool \<times> engine) result" where
  "gambit_create_branch ev parent_id e =
     (case en_trace_tree e of
        None \<Rightarrow> Inr (False, e)
      | Some t \<Rightarrow>
          if gambit_should_stop_after_completed e then Inr (False, e)
          else if \<not> can_trace_branch parent_id (tokens_since_branch e parent_id) t then Inr (False, e)
          else case map_of (sc_requests (en_scheduler e)) parent_id of
            None \<Rightarrow> Inr (False, e)
          | Some par \<Rightarrow>
              let child_id = generate_branch_id parent_id t;
                  plen = int (length (dget_or (en_output_token_ids e) parent_id []))
              in case add_branch parent_id child_id plen t of
                   (None, t1) \<Rightarrow> Inr (False, e\<lparr>en_trace_tree := Some t1\<rparr>)
                 | (Some node, t1) \<Rightarrow>
                     (case gambit_create_child_request ev (en_config e) t1 par child_id of
                        None \<Rightarrow> Inr (False, e\<lparr>en_trace_tree := Some (remove_trace child_id t1)\<rparr>)
                      | Some child \<Rightarrow>
                          ebind (add_request child (en_scheduler e)) (\<lambda>s.
                            Inr (True, init_child_counters parent_id child_id
                                   (copy_score_state parent_id child_id
                                     (e\<lparr>en_trace_tree := Some t1, en_scheduler := s,
                                        en_seq_hs_to_copy := en_seq_hs_to_copy e @ [(parent_id, child_id)]\<rparr>))))))"

text \<open>The loop over the selected parents: the capacity is checked again before each branch.\<close>

fun branch_loop :: "env \<Rightarrow> int \<Rightarrow> (score \<times> reqid) list \<Rightarrow> engine \<Rightarrow> engine result" where
  "branch_loop ev capacity [] e = Inr e"
| "branch_loop ev capacity ((_, rid) # xs) e =
     (if active_traces_of e \<ge> capacity then Inr e
      else ebind (gambit_create_branch ev rid e) (\<lambda>(_, e1). branch_loop ev capacity xs e1))"

subsection \<open>The tournament\<close>

definition hard_floor_victims :: "(reqid, score) dict \<Rightarrow> engine \<Rightarrow> reqid list" where
  "hard_floor_victims avg e =
     map fst (filter (\<lambda>(rid, s). rid \<notin> en_pending_low_score_stops e \<and>
        tokens_since_branch e rid \<ge> gc_tournament_warmup_tokens (en_config e) \<and>
        s < gc_tournament_hard_floor (en_config e)) avg)"

definition hard_floor_prune :: "(reqid, score) dict \<Rightarrow> engine \<Rightarrow> engine" where
  "hard_floor_prune avg e = fold gambit_prune_trace (hard_floor_victims avg e) e"

definition round_due :: "(reqid, score) dict \<Rightarrow> engine \<Rightarrow> bool" where
  "round_due avg e =
     (if en_tournament_last_round_step e < 0
      then (\<exists>rid \<in> set (dkeys avg). tokens_since_branch e rid \<ge> gc_tournament_warmup_tokens (en_config e))
      else en_tournament_step_counter e - en_tournament_last_round_step e \<ge> gc_tournament_check_interval (en_config e))"

text \<open>The scored active traces, best first; \<open>list.sort\<close> is stable.\<close>

definition scored_active :: "(reqid, score) dict \<Rightarrow> engine \<Rightarrow> (score \<times> reqid) list" where
  "scored_active avg e =
     map (\<lambda>(rid, s). (s, rid)) (filter (\<lambda>(rid, s). rid \<notin> en_pending_low_score_stops e \<and>
        (case en_trace_tree e of None \<Rightarrow> False | Some t \<Rightarrow>
           (case get_node rid t of None \<Rightarrow> False | Some n \<Rightarrow> nd_is_active n))) avg)"

definition rank_traces :: "(score \<times> reqid) list \<Rightarrow> (score \<times> reqid) list" where
  "rank_traces xs = sort_key (\<lambda>x. - fst x) xs"

definition branch_candidates :: "engine \<Rightarrow> (score \<times> reqid) list \<Rightarrow> (score \<times> reqid) list" where
  "branch_candidates e xs =
     filter (\<lambda>(_, rid). tokens_since_branch e rid \<ge> gc_tournament_warmup_tokens (en_config e)) xs"

definition select_parents :: "env \<Rightarrow> engine \<Rightarrow> nat \<Rightarrow> (score \<times> reqid) list \<Rightarrow> (score \<times> reqid) list" where
  "select_parents ev e k cands =
     (if gc_tournament_branch_random (en_config e) \<and> cands \<noteq> []
      then ev_sample ev (en_tournament_step_counter e) cands (min k (length cands))
      else take k cands)"

definition prune_all :: "(score \<times> reqid) list \<Rightarrow> engine \<Rightarrow> engine" where
  "prune_all xs e = fold (gambit_prune_trace \<circ> snd) xs e"

definition fill_slots :: "env \<Rightarrow> (score \<times> reqid) list \<Rightarrow> engine \<Rightarrow> engine result" where
  "fill_slots ev ranked e =
     (let capacity = gc_tournament_capacity (en_config e) in
      branch_loop ev capacity
        (select_parents ev e (nat (capacity - active_traces_of e)) (branch_candidates e ranked)) e)"

text \<open>At or over capacity: the excess traces of lowest rank are pruned, then the bottom \<open>K\<close> of the rest
  are replaced by children of the best eligible traces that are not in the bottom \<open>K\<close>.\<close>

definition swap_traces :: "env \<Rightarrow> (score \<times> reqid) list \<Rightarrow> engine \<Rightarrow> engine result" where
  "swap_traces ev ranked e =
     (let capacity = gc_tournament_capacity (en_config e);
          candidates = branch_candidates e ranked;
          excess = nat (min (active_traces_of e - capacity) (int (length ranked)));
          keep = length ranked - excess;
          e1 = prune_all (drop keep ranked) e;
          rest = take keep ranked;
          actual_k = min (gc_tournament_swap_k (en_config e)) (int (length rest) div 2)
      in if actual_k > 0 then
           let k = nat actual_k;
               bottom_k = drop (length rest - k) rest;
               eligible = filter (\<lambda>(_, rid). rid \<notin> snd ` set bottom_k) candidates;
               top_k = select_parents ev e1 k eligible
           in branch_loop ev capacity top_k (prune_all bottom_k e1)
         else Inr e1)"

definition gambit_tournament_step :: "env \<Rightarrow> (reqid, score) dict \<Rightarrow> engine \<Rightarrow> engine result" where
  "gambit_tournament_step ev avg e =
     (if en_trace_tree e = None then Inr e
      else
      let e1 = hard_floor_prune avg e in
      if \<not> round_due avg e1 then Inr e1
      else
      let e2 = e1\<lparr>en_tournament_last_round_step := en_tournament_step_counter e1\<rparr>;
          active = scored_active avg e2
      in if active = [] then Inr e2
         else if active_traces_of e2 < gc_tournament_capacity (en_config e2)
         then fill_slots ev (rank_traces active) e2
         else swap_traces ev (rank_traces active) e2)"

subsection \<open>Threshold mode\<close>

definition gambit_should_prune_threshold :: "reqid \<Rightarrow> score \<Rightarrow> int \<Rightarrow> engine \<Rightarrow> bool" where
  "gambit_should_prune_threshold rid s n e =
     (if n < gc_min_tokens_before_prune (en_config e) then False
      else if rid \<in> en_pending_low_score_stops e then False
      else s < gc_theta_prune (en_config e))"

definition gambit_should_branch_threshold :: "reqid \<Rightarrow> score \<Rightarrow> int \<Rightarrow> engine \<Rightarrow> bool" where
  "gambit_should_branch_threshold rid s n e =
     (case en_trace_tree e of
        None \<Rightarrow> False
      | Some t \<Rightarrow>
          if s \<le> gc_theta_branch (en_config e) then False
          else if n < gc_min_tokens_before_branch (en_config e) then False
          else case get_node rid t of
            None \<Rightarrow> False
          | Some node \<Rightarrow>
              if \<not> nd_is_active node then False
              else if nd_last_branch_step node \<ge> 0 \<and>
                      tt_current_step t - nd_last_branch_step node < gc_branch_cooldown_steps (en_config e) then False
              else True)"

definition threshold_prunes :: "(reqid, score) dict \<Rightarrow> engine \<Rightarrow> reqid list" where
  "threshold_prunes avg e =
     map fst (filter (\<lambda>(rid, s). gambit_should_prune_threshold rid s (tokens_since_branch e rid) e) avg)"

definition threshold_branches :: "(reqid, score) dict \<Rightarrow> engine \<Rightarrow> (score \<times> reqid) list" where
  "threshold_branches avg e =
     rank_traces (map (\<lambda>(rid, s). (dget_or avg rid 0, rid))
       (filter (\<lambda>(rid, s). \<not> gambit_should_prune_threshold rid s (tokens_since_branch e rid) e \<and>
                           gambit_should_branch_threshold rid s (tokens_since_branch e rid) e) avg))"

definition gambit_threshold_step :: "env \<Rightarrow> (reqid, score) dict \<Rightarrow> engine \<Rightarrow> engine result" where
  "gambit_threshold_step ev avg e =
     (case en_trace_tree e of
        None \<Rightarrow> Inr e
      | Some t \<Rightarrow>
          branch_loop ev (tt_max_traces t) (threshold_branches avg e)
            (fold gambit_prune_trace (threshold_prunes avg e) e))"

subsection \<open>The decision step\<close>

definition observe_score :: "bool \<Rightarrow> reqid \<times> score \<Rightarrow> trace_tree \<Rightarrow> trace_tree" where
  "observe_score history = (\<lambda>(rid, s) t.
     let t1 = (if tree_contains t rid then t else add_root rid t)
     in if history then record_score rid s t1 else t1)"

definition flush_sequence_histories :: "engine \<Rightarrow> engine" where
  "flush_sequence_histories e =
     (if en_seq_hs_to_clear e \<noteq> [] \<or> en_seq_hs_to_copy e \<noteq> []
      then e\<lparr>en_seq_hs_to_clear := [], en_seq_hs_to_copy := []\<rparr> else e)"

definition gambit_decision_step :: "env \<Rightarrow> (reqid, score) dict \<Rightarrow> engine \<Rightarrow> engine result" where
  "gambit_decision_step ev avg e =
     (case en_trace_tree e of
        None \<Rightarrow> Inr e
      | Some t \<Rightarrow>
          if \<not> en_gambit_enabled e then Inr e
          else
          let t1 = fold (observe_score (gc_record_score_history (en_config e))) avg (increment_step t);
              e1 = e\<lparr>en_trace_tree := Some t1, en_tournament_step_counter := en_tournament_step_counter e + 1\<rparr>
          in if gambit_should_stop_after_completed e1 then Inr (gambit_force_stop_all_active_traces e1)
             else ebind (if gc_tournament_mode (en_config e1) then gambit_tournament_step ev avg e1
                         else gambit_threshold_step ev avg e1)
                    (\<lambda>e2. Inr (flush_sequence_histories e2)))"

subsection \<open>Pruning\<close>

lemma prune_frame [simp]:
  "en_config (gambit_prune_trace rid e) = en_config e"
  "en_scheduler (gambit_prune_trace rid e) = en_scheduler e"
  "en_gambit_enabled (gambit_prune_trace rid e) = en_gambit_enabled e"
  "en_trace_token_counts (gambit_prune_trace rid e) = en_trace_token_counts e"
  "en_seq_hs_to_copy (gambit_prune_trace rid e) = en_seq_hs_to_copy e"
  "en_tournament_step_counter (gambit_prune_trace rid e) = en_tournament_step_counter e"
  "en_tournament_last_round_step (gambit_prune_trace rid e) = en_tournament_last_round_step e"
  "en_trace_scores (gambit_prune_trace rid e) = en_trace_scores e"
  "en_output_token_ids (gambit_prune_trace rid e) = en_output_token_ids e"
  by (simp_all add: gambit_prune_trace_def split: option.splits)

lemma fold_prune_frame [simp]:
  "en_config (fold gambit_prune_trace rids e) = en_config e"
  "en_scheduler (fold gambit_prune_trace rids e) = en_scheduler e"
  "en_gambit_enabled (fold gambit_prune_trace rids e) = en_gambit_enabled e"
  "en_trace_token_counts (fold gambit_prune_trace rids e) = en_trace_token_counts e"
  "en_seq_hs_to_copy (fold gambit_prune_trace rids e) = en_seq_hs_to_copy e"
  "en_tournament_step_counter (fold gambit_prune_trace rids e) = en_tournament_step_counter e"
  "en_tournament_last_round_step (fold gambit_prune_trace rids e) = en_tournament_last_round_step e"
  by (induction rids arbitrary: e) simp_all

lemma fold_prune_tree:
  "en_trace_tree e = Some t \<Longrightarrow> en_trace_tree (fold gambit_prune_trace rids e) = Some (fold mark_pruned rids t) \<and>
     en_pending_low_score_stops (fold gambit_prune_trace rids e) = en_pending_low_score_stops e \<union> set rids"
  by (induction rids arbitrary: e t) (auto simp: gambit_prune_trace_def)

lemma prune_all_fold: "prune_all xs = fold gambit_prune_trace (map snd xs)"
  by (induction xs) (simp_all add: prune_all_def fun_eq_iff)

lemma map_of_mark_pruned [dict_simps]:
  "map_of (tt_nodes (mark_pruned rid t)) k =
     (if k = rid then map_option (\<lambda>n. n\<lparr>nd_is_active := False, nd_is_pruned := True\<rparr>) (map_of (tt_nodes t) k)
      else map_of (tt_nodes t) k)"
  by (simp add: mark_pruned_def dict_simps)

lemma map_of_fold_mark_pruned:
  "map_of (tt_nodes (fold mark_pruned rids t)) k =
     (if k \<in> set rids then map_option (\<lambda>n. n\<lparr>nd_is_active := False, nd_is_pruned := True\<rparr>) (map_of (tt_nodes t) k)
      else map_of (tt_nodes t) k)"
  by (induction rids arbitrary: t) (auto simp: dict_simps option.map_comp comp_def)

lemma mark_pruned_frame [simp]:
  "tt_max_traces (mark_pruned rid t) = tt_max_traces t"
  "tt_branch_counter (mark_pruned rid t) = tt_branch_counter t"
  "wf_dict (tt_nodes (mark_pruned rid t)) = wf_dict (tt_nodes t)"
  by (simp_all add: mark_pruned_def)

lemma fold_mark_pruned_frame [simp]:
  "tt_max_traces (fold mark_pruned rids t) = tt_max_traces t"
  "tt_branch_counter (fold mark_pruned rids t) = tt_branch_counter t"
  "wf_dict (tt_nodes (fold mark_pruned rids t)) = wf_dict (tt_nodes t)"
  by (induction rids arbitrary: t) simp_all

lemma tree_inv_fold_mark_pruned:
  assumes "tree_inv t" and "\<And>rid n. rid \<in> set rids \<Longrightarrow> map_of (tt_nodes t) rid = Some n \<Longrightarrow> \<not> nd_is_completed n"
  shows "tree_inv (fold mark_pruned rids t)"
  using assms
proof (induction rids arbitrary: t)
  case (Cons rid rids)
  have "tree_inv (mark_pruned rid t)" by (rule tree_inv_mark_pruned) (use Cons.prems in auto)
  moreover have "\<not> nd_is_completed n" if "r \<in> set rids" "map_of (tt_nodes (mark_pruned rid t)) r = Some n" for r n
    using that Cons.prems(2) [of r] by (auto simp: dict_simps split: if_splits)
  ultimately show ?case using Cons.IH by simp
qed simp

lemma active_count_fold_mark_pruned_le:
  "wf_dict (tt_nodes t) \<Longrightarrow> get_active_count (fold mark_pruned rids t) \<le> get_active_count t"
proof (induction rids arbitrary: t)
  case (Cons rid rids)
  from Cons.IH [of "mark_pruned rid t"] Cons.prems active_count_mark_pruned_le [OF Cons.prems, of rid]
  show ?case by simp
qed simp

lemma active_count_fold_mark_pruned:
  assumes "wf_dict (tt_nodes t)" and "distinct rids"
    and "\<And>rid. rid \<in> set rids \<Longrightarrow> \<exists>n. map_of (tt_nodes t) rid = Some n \<and> nd_is_active n"
  shows "get_active_count (fold mark_pruned rids t) = get_active_count t - int (length rids)"
  using assms
proof (induction rids arbitrary: t)
  case (Cons rid rids)
  have "get_active_count (mark_pruned rid t) = get_active_count t - 1"
    using Cons.prems(3) [of rid] by (auto simp: active_count_mark_pruned [OF Cons.prems(1)])
  moreover have "get_active_count (fold mark_pruned rids (mark_pruned rid t)) =
      get_active_count (mark_pruned rid t) - int (length rids)"
    by (rule Cons.IH) (use Cons.prems in \<open>auto simp: dict_simps\<close>)
  ultimately show ?case by simp
qed simp

subsection \<open>Branching\<close>

lemma add_request_Inr:
  assumes "add_request r s = Inr s'"
  shows "map_of (sc_requests s') k = (if k = rq_request_id r then Some r else map_of (sc_requests s) k)"
    and "sc_running s' = sc_running s" and "sc_policy s' = sc_policy s"
    and "sc_kv_cache_manager s' = sc_kv_cache_manager s"
  using assms by (auto simp: add_request_def Let_def ebind_eq_Inr dict_simps)

lemma add_request_fcfs:
  "sc_waiting s = FCFSQueue q \<Longrightarrow> add_request r s =
     Inr (s\<lparr>sc_requests := AList.update (rq_request_id r) r (sc_requests s), sc_waiting := FCFSQueue (q @ [rq_request_id r])\<rparr>)"
  by (simp add: add_request_def Let_def)

lemma child_request_shape:
  assumes "gambit_create_child_request ev cfg t par c = Some r"
  shows "rq_request_id r = c" and "rq_all_token_ids r = rq_all_token_ids par"
    and "rq_num_computed_tokens r = 0" and "rq_output_token_ids r = []" and "\<not> is_finished r"
proof -
  from assms obtain sp pool eos ci arr lora salt prio where
    "new_request (ev_hasher ev) c (Some (rq_all_token_ids par)) sp pool eos ci arr None [] lora salt prio = Inr r"
    unfolding gambit_create_child_request_def by (auto split: sum.splits)
  then obtain r0 where "r = init_block_hashes (ev_hasher ev) r0" "rq_request_id r0 = c" "rq_output_token_ids r0 = []"
    "rq_num_computed_tokens r0 = 0" "rq_all_token_ids r0 = rq_all_token_ids par" "\<not> status_is_finished (rq_status r0)"
    by (rule new_request_shape) blast
  then show "rq_request_id r = c" "rq_all_token_ids r = rq_all_token_ids par"
    "rq_num_computed_tokens r = 0" "rq_output_token_ids r = []" "\<not> is_finished r"
    by (simp_all add: is_finished_def)
qed

lemma copy_score_state_frame [simp]:
  "en_trace_tree (copy_score_state p c e) = en_trace_tree e"
  "en_scheduler (copy_score_state p c e) = en_scheduler e"
  "en_config (copy_score_state p c e) = en_config e"
  "en_gambit_enabled (copy_score_state p c e) = en_gambit_enabled e"
  "en_trace_token_counts (copy_score_state p c e) = en_trace_token_counts e"
  "en_output_token_ids (copy_score_state p c e) = en_output_token_ids e"
  "en_seq_hs_to_copy (copy_score_state p c e) = en_seq_hs_to_copy e"
  "en_tournament_step_counter (copy_score_state p c e) = en_tournament_step_counter e"
  "en_pending_low_score_stops (copy_score_state p c e) = en_pending_low_score_stops e"
  by (simp_all add: copy_score_state_def Let_def)

text \<open>A branch that is not created leaves everything but the tree as it was, and the tree with the same
  active traces; it happens when a gate is closed or the child's constructor fails.\<close>

lemma create_branch_cases:
  assumes tree: "en_trace_tree e = Some t" and inv: "tree_inv t"
    and run: "gambit_create_branch ev p e = Inr (b, e')"
  obtains (unchanged) "\<not> b" "e' = e"
  | (failed) par t1 where "\<not> b" "map_of (tt_nodes t) p = Some par"
      "t1 = snd (add_branch p (generate_branch_id p t) (int (length (dget_or (en_output_token_ids e) p []))) t)"
      "e' = e\<lparr>en_trace_tree := Some (remove_trace (generate_branch_id p t) t1)\<rparr>"
  | (created) par r child s t1 where "b" "map_of (tt_nodes t) p = Some par"
      "can_trace_branch p (tokens_since_branch e p) t" "\<not> gambit_should_stop_after_completed e"
      "map_of (sc_requests (en_scheduler e)) p = Some r"
      "t1 = snd (add_branch p (generate_branch_id p t) (int (length (dget_or (en_output_token_ids e) p []))) t)"
      "gambit_create_child_request ev (en_config e) t1 r (generate_branch_id p t) = Some child"
      "add_request child (en_scheduler e) = Inr s"
      "e' = init_child_counters p (generate_branch_id p t) (copy_score_state p (generate_branch_id p t)
              (e\<lparr>en_trace_tree := Some t1, en_scheduler := s,
                 en_seq_hs_to_copy := en_seq_hs_to_copy e @ [(p, generate_branch_id p t)]\<rparr>))"
proof (cases "gambit_should_stop_after_completed e \<or> \<not> can_trace_branch p (tokens_since_branch e p) t \<or>
    map_of (sc_requests (en_scheduler e)) p = None")
  case True
  with run tree have "\<not> b" "e' = e"
    by (auto simp: gambit_create_branch_def split: if_splits option.splits)
  then show thesis by (rule unchanged)
next
  case False
  then obtain r where gates: "\<not> gambit_should_stop_after_completed e" "can_trace_branch p (tokens_since_branch e p) t"
    "map_of (sc_requests (en_scheduler e)) p = Some r" by auto
  then obtain par where par: "map_of (tt_nodes t) p = Some par"
    by (auto simp: can_trace_branch_def split: option.splits)
  let ?c = "generate_branch_id p t" let ?l = "int (length (dget_or (en_output_token_ids e) p []))"
  obtain node t1 where add: "add_branch p ?c ?l t = (Some node, t1)"
    using add_branch_Some(1) [OF par, of ?c ?l] by (metis fst_conv surj_pair)
  then have t1: "t1 = snd (add_branch p ?c ?l t)" by simp
  show thesis
  proof (cases "gambit_create_child_request ev (en_config e) t1 r ?c")
    case None
    with run tree gates add have "\<not> b" "e' = e\<lparr>en_trace_tree := Some (remove_trace ?c t1)\<rparr>"
      by (auto simp: gambit_create_branch_def Let_def)
    with failed par t1 show thesis by blast
  next
    case (Some child)
    with run tree gates add obtain s where "b" "add_request child (en_scheduler e) = Inr s"
      "e' = init_child_counters p ?c (copy_score_state p ?c (e\<lparr>en_trace_tree := Some t1, en_scheduler := s,
                 en_seq_hs_to_copy := en_seq_hs_to_copy e @ [(p, ?c)]\<rparr>))"
      by (auto simp: gambit_create_branch_def Let_def ebind_eq_Inr)
    with created par gates t1 Some show thesis by blast
  qed
qed

text \<open>The effect of a branch attempt on the tree.\<close>

lemma create_branch_tree:
  assumes tree: "en_trace_tree e = Some t" and inv: "tree_inv t"
    and run: "gambit_create_branch ev p e = Inr (b, e')"
  obtains t' where "en_trace_tree e' = Some t'" "tree_inv t'" "tt_max_traces t' = tt_max_traces t"
    "get_active_count t' = get_active_count t + (if b then 1 else 0)"
    "\<And>k n. map_of (tt_nodes t) k = Some n \<Longrightarrow> \<exists>n'. map_of (tt_nodes t') k = Some n' \<and>
        nd_is_active n' = nd_is_active n \<and> nd_is_completed n' = nd_is_completed n \<and> nd_is_pruned n' = nd_is_pruned n"
proof -
  let ?c = "generate_branch_id p t" let ?l = "int (length (dget_or (en_output_token_ids e) p []))"
  let ?t1 = "snd (add_branch p ?c ?l t)"
  have fresh: "\<not> tree_contains t ?c" by (rule fresh_branch_id [OF inv])
  then have nc: "map_of (tt_nodes t) ?c = None" by (simp add: tree_contains_def map_of_None_iff)
  from tree inv run show thesis
  proof (cases rule: create_branch_cases)
    case unchanged
    with tree inv that show thesis by auto
  next
    case (failed par t1)
    note add = add_branch_Some [OF failed(2), of ?c ?l]
    have inv1: "tree_inv ?t1" by (rule tree_inv_add_branch [OF inv failed(2)])
    have cont: "tree_contains ?t1 ?c" using add by (simp add: tree_contains_def)
    have leaf: "nd_parent_id n \<noteq> Some ?c" if "map_of (tt_nodes ?t1) k = Some n" for k n
    proof
      assume n: "nd_parent_id n = Some ?c"
      have pc: "p \<noteq> ?c" using failed(2) nc by auto
      with that n add obtain m where "map_of (tt_nodes t) k = Some m" "nd_parent_id m = Some ?c"
        by (auto simp: dict_simps new_node_def split: if_splits)
      with tree_invD(3) [OF inv] nc show False by (fastforce simp: link_ok_iff)
    qed
    show thesis
    proof (rule that [of "remove_trace ?c ?t1"])
      show "en_trace_tree e' = Some (remove_trace ?c ?t1)" using failed by simp
      show "tree_inv (remove_trace ?c ?t1)" by (rule tree_inv_remove_trace [OF inv1 leaf])
      show "tt_max_traces (remove_trace ?c ?t1) = tt_max_traces t"
        using add by (simp add: remove_trace_def invalidate_lineage_cache_def)
      have "get_active_count (remove_trace ?c ?t1) + 1 = get_active_count ?t1"
        using dcount_delete [OF tree_invD(1) [OF inv1], of nd_is_active ?c] cont add
        by (simp add: get_active_count_def remove_trace_def invalidate_lineage_cache_def dict_simps new_node_def)
      with active_count_add_branch [OF inv failed(2) fresh, of ?l] failed(1)
      show "get_active_count (remove_trace ?c ?t1) = get_active_count t + (if b then 1 else 0)" by simp
      fix k n assume k: "map_of (tt_nodes t) k = Some n"
      with nc have "k \<noteq> ?c" by auto
      with k add cont show "\<exists>n'. map_of (tt_nodes (remove_trace ?c ?t1)) k = Some n' \<and>
        nd_is_active n' = nd_is_active n \<and> nd_is_completed n' = nd_is_completed n \<and> nd_is_pruned n' = nd_is_pruned n"
        by (auto simp: remove_trace_def invalidate_lineage_cache_def dict_simps)
    qed
  next
    case (created par r child s t1)
    note add = add_branch_Some [OF created(2), of ?c ?l]
    show thesis
    proof (rule that [of ?t1])
      show "en_trace_tree e' = Some ?t1" using created(6,9) by (simp add: init_child_counters_def)
      show "tree_inv ?t1" by (rule tree_inv_add_branch [OF inv created(2)])
      show "tt_max_traces ?t1 = tt_max_traces t" using add by simp
      show "get_active_count ?t1 = get_active_count t + (if b then 1 else 0)"
        using active_count_add_branch [OF inv created(2) fresh, of ?l] created(1) by simp
      fix k n assume k: "map_of (tt_nodes t) k = Some n"
      with nc have "k \<noteq> ?c" by auto
      with k add show "\<exists>n'. map_of (tt_nodes ?t1) k = Some n' \<and>
        nd_is_active n' = nd_is_active n \<and> nd_is_completed n' = nd_is_completed n \<and> nd_is_pruned n' = nd_is_pruned n"
        by (auto simp: dict_simps)
    qed
  qed
qed

subsection \<open>Bounded pools\<close>

text \<open>The contract that keeps a pool within its capacity: a spawn adds at most one member, a removal adds
  none. A loop that checks the capacity before each spawn then never exceeds it.\<close>

locale bounded_pool =
  fixes members :: "'s \<Rightarrow> int"
    and good :: "'s \<Rightarrow> bool"
    and spawn :: "'k \<Rightarrow> 's \<Rightarrow> (bool \<times> 's) result"
    and removable :: "'k \<Rightarrow> 's \<Rightarrow> bool"
    and remove :: "'k \<Rightarrow> 's \<Rightarrow> 's"
  assumes spawn_good: "good s \<Longrightarrow> spawn k s = Inr (b, s') \<Longrightarrow> good s'"
    and spawn_members: "good s \<Longrightarrow> spawn k s = Inr (b, s') \<Longrightarrow> members s' \<le> members s + 1"
    and remove_good: "good s \<Longrightarrow> removable k s \<Longrightarrow> good (remove k s)"
    and remove_removable: "removable k s \<Longrightarrow> removable k (remove j s)"
    and remove_members: "good s \<Longrightarrow> members (remove k s) \<le> members s"
begin

fun guarded_spawns :: "int \<Rightarrow> 'k list \<Rightarrow> 's \<Rightarrow> 's result" where
  "guarded_spawns cap [] s = Inr s"
| "guarded_spawns cap (k # ks) s =
     (if members s \<ge> cap then Inr s else ebind (spawn k s) (\<lambda>(_, s'). guarded_spawns cap ks s'))"

lemma guarded_spawns_good:
  "good s \<Longrightarrow> guarded_spawns cap ks s = Inr s' \<Longrightarrow> good s'"
proof (induction ks arbitrary: s)
  case (Cons k ks)
  then show ?case by (auto simp: ebind_eq_Inr split: if_splits dest: spawn_good)
qed simp

lemma guarded_spawns_bounded:
  "good s \<Longrightarrow> guarded_spawns cap ks s = Inr s' \<Longrightarrow> members s' \<le> max cap (members s)"
proof (induction ks arbitrary: s)
  case (Cons k ks)
  show ?case
  proof (cases "members s \<ge> cap")
    case True
    with Cons.prems(2) show ?thesis by simp
  next
    case False
    with Cons.prems(2) obtain b s1 where s1: "spawn k s = Inr (b, s1)" "guarded_spawns cap ks s1 = Inr s'"
      by (auto simp: ebind_eq_Inr)
    from Cons.IH [OF spawn_good [OF Cons.prems(1) s1(1)] s1(2)] spawn_members [OF Cons.prems(1) s1(1)] False
    show ?thesis by linarith
  qed
qed simp

lemma removes_good:
  "good s \<Longrightarrow> (\<And>k. k \<in> set ks \<Longrightarrow> removable k s) \<Longrightarrow> good (fold remove ks s) \<and> members (fold remove ks s) \<le> members s"
proof (induction ks arbitrary: s)
  case (Cons k ks)
  then have "good (remove k s)" "\<And>j. j \<in> set ks \<Longrightarrow> removable j (remove k s)"
    by (auto intro: remove_good remove_removable)
  from Cons.IH [OF this] remove_members [OF Cons.prems(1), of k] show ?case by simp
qed simp

lemma replace_bounded:
  assumes "good s" and "\<And>k. k \<in> set out \<Longrightarrow> removable k s" and "guarded_spawns cap ks (fold remove out s) = Inr s'"
  shows "good s' \<and> members s' \<le> max cap (members s)"
  using guarded_spawns_good [OF _ assms(3)] guarded_spawns_bounded [OF _ assms(3)] removes_good [OF assms(1,2)]
  by fastforce

end

definition tree_good :: "engine \<Rightarrow> bool" where
  "tree_good e \<longleftrightarrow> (\<exists>t. en_trace_tree e = Some t \<and> tree_inv t)"

definition prunable :: "reqid \<Rightarrow> engine \<Rightarrow> bool" where
  "prunable rid e \<longleftrightarrow> (case en_trace_tree e of None \<Rightarrow> True | Some t \<Rightarrow>
     (case map_of (tt_nodes t) rid of None \<Rightarrow> True | Some n \<Rightarrow> \<not> nd_is_completed n))"

lemma prunable_iff:
  "prunable rid e \<longleftrightarrow> (\<forall>t n. en_trace_tree e = Some t \<and> map_of (tt_nodes t) rid = Some n \<longrightarrow> \<not> nd_is_completed n)"
  by (simp add: prunable_def split: option.splits)

lemma active_traces_of_Some: "en_trace_tree e = Some t \<Longrightarrow> active_traces_of e = get_active_count t"
  by (simp add: active_traces_of_def)

interpretation traces: bounded_pool active_traces_of tree_good "gambit_create_branch ev" prunable gambit_prune_trace for ev
proof
  fix e e' :: engine and p b
  assume good: "tree_good e" and run: "gambit_create_branch ev p e = Inr (b, e')"
  from good obtain t where t: "en_trace_tree e = Some t" "tree_inv t" by (auto simp: tree_good_def)
  obtain t' where t': "en_trace_tree e' = Some t'" "tree_inv t'" "tt_max_traces t' = tt_max_traces t"
    "get_active_count t' = get_active_count t + (if b then 1 else 0)"
    by (rule create_branch_tree [OF t run])
  then show "tree_good e'" by (auto simp: tree_good_def)
  show "active_traces_of e' \<le> active_traces_of e + 1"
    using t'(4) by (simp add: active_traces_of_Some [OF t(1)] active_traces_of_Some [OF t'(1)])
next
  fix e :: engine and p
  assume "tree_good e"
  then obtain t where t: "en_trace_tree e = Some t" "tree_inv t" by (auto simp: tree_good_def)
  then show "active_traces_of (gambit_prune_trace p e) \<le> active_traces_of e"
    using active_count_mark_pruned_le [OF tree_invD(1) [OF t(2)]]
    by (simp add: active_traces_of_def gambit_prune_trace_def)
  show "tree_good (gambit_prune_trace p e)" if "prunable p e"
    using t that tree_inv_mark_pruned [OF t(2), of p] by (auto simp: tree_good_def gambit_prune_trace_def prunable_iff)
next
  fix e :: engine and p q
  assume "prunable p e"
  then show "prunable p (gambit_prune_trace q e)"
    by (auto simp: prunable_iff gambit_prune_trace_def dict_simps split: option.splits if_splits)
qed

lemma branch_loop_guarded: "branch_loop ev cap xs e = traces.guarded_spawns ev cap (map snd xs) e"
proof (induction xs arbitrary: e)
  case (Cons x xs)
  have "(\<lambda>(_, e1). branch_loop ev cap xs e1) = (\<lambda>(_ :: bool, e1). traces.guarded_spawns ev cap (map snd xs) e1)"
    using Cons.IH by (simp add: fun_eq_iff)
  then show ?case by (cases x) (simp del: traces.guarded_spawns.simps(1))
qed simp

lemma branch_loop_bounded:
  "tree_good e \<Longrightarrow> branch_loop ev cap xs e = Inr e' \<Longrightarrow> active_traces_of e' \<le> max cap (active_traces_of e)"
  unfolding branch_loop_guarded by (rule traces.guarded_spawns_bounded)

lemma branch_loop_good:
  "tree_good e \<Longrightarrow> branch_loop ev cap xs e = Inr e' \<Longrightarrow> tree_good e'"
  unfolding branch_loop_guarded by (rule traces.guarded_spawns_good)

subsection \<open>The branching loop\<close>

lemma create_branch_frame:
  assumes "en_trace_tree e = Some t" and "tree_inv t" and "gambit_create_branch ev p e = Inr (b, e')"
  shows "en_config e' = en_config e" and "en_pending_low_score_stops e' = en_pending_low_score_stops e"
    and "en_tournament_step_counter e' = en_tournament_step_counter e"
    and "en_gambit_enabled e' = en_gambit_enabled e"
    and "en_seq_hs_to_copy e' = en_seq_hs_to_copy e @ (if b then [(p, generate_branch_id p t)] else [])"
  using assms by (cases rule: create_branch_cases; simp add: init_child_counters_def)+

lemma create_branch_gates:
  assumes "en_trace_tree e = Some t" and "tree_inv t" and "gambit_create_branch ev p e = Inr (b, e')" and b
  shows "can_trace_branch p (tokens_since_branch e p) t"
  using assms(1-3) by (cases rule: create_branch_cases) (use assms(4) in auto)

text \<open>A frame of nodes that a run of branches keeps: no existing trace changes its state.\<close>

definition flags_kept :: "trace_tree \<Rightarrow> trace_tree \<Rightarrow> bool" where
  "flags_kept t t' \<longleftrightarrow> (\<forall>k n. map_of (tt_nodes t) k = Some n \<longrightarrow> (\<exists>n'. map_of (tt_nodes t') k = Some n' \<and>
     nd_is_active n' = nd_is_active n \<and> nd_is_completed n' = nd_is_completed n \<and> nd_is_pruned n' = nd_is_pruned n))"

lemma flags_keptD:
  "flags_kept t t' \<Longrightarrow> map_of (tt_nodes t) k = Some n \<Longrightarrow> \<exists>n'. map_of (tt_nodes t') k = Some n' \<and>
     nd_is_active n' = nd_is_active n \<and> nd_is_completed n' = nd_is_completed n \<and> nd_is_pruned n' = nd_is_pruned n"
  unfolding flags_kept_def by blast

lemma flags_kept_trans: "flags_kept t u \<Longrightarrow> flags_kept u v \<Longrightarrow> flags_kept t v"
  unfolding flags_kept_def by metis

lemma flags_kept_refl [simp]: "flags_kept t t"
  by (simp add: flags_kept_def)

lemma flags_kept_contains: "flags_kept t t' \<Longrightarrow> tree_contains t k \<Longrightarrow> tree_contains t' k"
  unfolding flags_kept_def tree_contains_def by (metis in_keys_map_of map_of_in_keys)

lemma branch_loop_run:
  assumes "en_trace_tree e = Some t" and "tree_inv t" and "branch_loop ev cap xs e = Inr e'"
  obtains t' ps where "en_trace_tree e' = Some t'" "tree_inv t'" "tt_max_traces t' = tt_max_traces t" "flags_kept t t'"
    "en_config e' = en_config e" "en_pending_low_score_stops e' = en_pending_low_score_stops e"
    "en_seq_hs_to_copy e' = en_seq_hs_to_copy e @ ps" "subseq (map fst ps) (map snd xs)"
    "distinct (map snd ps)" "\<And>p c. (p, c) \<in> set ps \<Longrightarrow> \<not> tree_contains t c \<and> tree_contains t' c"
    "get_active_count t' = get_active_count t + int (length ps)"
    "\<And>p c n. (p, c) \<in> set ps \<Longrightarrow> map_of (tt_nodes t) p = Some n \<Longrightarrow> nd_is_active n"
  using assms
proof (induction xs arbitrary: e t thesis)
  case Nil
  show ?case by (rule Nil(1) [of t "[]"]) (use Nil(2-) in auto)
next
  case (Cons x xs)
  obtain sc p where x: "x = (sc, p)" by (cases x)
  show ?case
  proof (cases "active_traces_of e \<ge> cap")
    case True
    with Cons.prems(4) x have "e' = e" by simp
    then show ?thesis by (intro Cons.prems(1) [of t "[]"]) (use Cons.prems(2,3) in auto)
  next
    case False
    with Cons.prems(4) x obtain b e1 where e1: "gambit_create_branch ev p e = Inr (b, e1)"
      and rest: "branch_loop ev cap xs e1 = Inr e'" by (auto simp: ebind_eq_Inr)
    obtain t1 where t1: "en_trace_tree e1 = Some t1" "tree_inv t1" "tt_max_traces t1 = tt_max_traces t"
      "get_active_count t1 = get_active_count t + (if b then 1 else 0)" and flags: "flags_kept t t1"
      using create_branch_tree [OF Cons.prems(2,3) e1] unfolding flags_kept_def by metis
    note fr = create_branch_frame [OF Cons.prems(2,3) e1]
    have child: "tree_contains t1 (generate_branch_id p t)" if b
      using Cons.prems(2,3) e1
    proof (cases rule: create_branch_cases)
      case (created par r child s t2)
      with t1(1) have "t2 = t1" by (simp add: init_child_counters_def)
      with created(6) add_branch_Some(2) [OF created(2)] show ?thesis by (simp add: tree_contains_def)
    qed (use that in auto)
    show ?thesis
    proof (rule Cons.IH [OF _ t1(1,2) rest], rule Cons.prems(1))
      fix t' ps
      assume t': "en_trace_tree e' = Some t'" "tree_inv t'" "tt_max_traces t' = tt_max_traces t1" "flags_kept t1 t'"
        "en_config e' = en_config e1" "en_pending_low_score_stops e' = en_pending_low_score_stops e1"
        "en_seq_hs_to_copy e' = en_seq_hs_to_copy e1 @ ps" "subseq (map fst ps) (map snd xs)" "distinct (map snd ps)"
        "\<And>p c. (p, c) \<in> set ps \<Longrightarrow> \<not> tree_contains t1 c \<and> tree_contains t' c"
        "get_active_count t' = get_active_count t1 + int (length ps)"
        "\<And>p c n. (p, c) \<in> set ps \<Longrightarrow> map_of (tt_nodes t1) p = Some n \<Longrightarrow> nd_is_active n"
      let ?ps = "(if b then [(p, generate_branch_id p t)] else []) @ ps"
      show "en_trace_tree e' = Some t'" "tree_inv t'" by fact+
      show "tt_max_traces t' = tt_max_traces t" using t'(3) t1(3) by simp
      show "flags_kept t t'" by (rule flags_kept_trans [OF flags t'(4)])
      show "en_config e' = en_config e" "en_pending_low_score_stops e' = en_pending_low_score_stops e"
        using t'(5,6) fr by simp_all
      show "en_seq_hs_to_copy e' = en_seq_hs_to_copy e @ ?ps" using t'(7) fr(5) by simp
      show "subseq (map fst ?ps) (map snd (x # xs))" using t'(8) x by auto
      have "generate_branch_id p t \<notin> snd ` set ps" if b using child [OF that] t'(10) by auto
      with t'(9) show "distinct (map snd ?ps)" by simp
      show "get_active_count t' = get_active_count t + int (length ?ps)" using t'(11) t1(4) by simp
      fix q c assume "(q, c) \<in> set ?ps"
      then consider "(q, c) \<in> set ps" | "b" "c = generate_branch_id p t" by (auto split: if_splits)
      then show "\<not> tree_contains t c \<and> tree_contains t' c"
        using t'(10) flags_kept_contains [OF flags] flags_kept_contains [OF t'(4)] child
          fresh_branch_id [OF Cons.prems(3)] by cases auto
    next
      fix t' ps q c n
      assume ih: "\<And>p c n. (p, c) \<in> set ps \<Longrightarrow> map_of (tt_nodes t1) p = Some n \<Longrightarrow> nd_is_active n"
        and qc: "(q, c) \<in> set ((if b then [(p, generate_branch_id p t)] else []) @ ps)"
        and n: "map_of (tt_nodes t) q = Some n"
      from qc consider "(q, c) \<in> set ps" | "b" "q = p" by (auto split: if_splits)
      then show "nd_is_active n"
      proof cases
        case 1
        from flags_keptD [OF flags n] ih [OF 1] show ?thesis by auto
      next
        case 2
        with create_branch_gates [OF Cons.prems(2,3) e1] n show ?thesis
          by (simp add: can_trace_branch_def split: if_splits)
      qed
    qed
  qed
qed

subsection \<open>Tournament rounds\<close>

lemma scored_active_mem:
  "(s, rid) \<in> set (scored_active avg e) \<longleftrightarrow> (rid, s) \<in> set avg \<and> rid \<notin> en_pending_low_score_stops e \<and>
     (\<exists>t n. en_trace_tree e = Some t \<and> map_of (tt_nodes t) rid = Some n \<and> nd_is_active n)"
  by (auto simp: scored_active_def get_node_def image_iff split: option.splits)

lemma rank_traces_set [simp]: "set (rank_traces xs) = set xs" "length (rank_traces xs) = length xs"
  by (simp_all add: rank_traces_def)

lemma rank_traces_ordered:
  "x \<in> set (take n (rank_traces xs)) \<Longrightarrow> y \<in> set (drop n (rank_traces xs)) \<Longrightarrow> fst y \<le> fst x"
  using sorted_take_drop_le [of "\<lambda>x. - fst x" "rank_traces xs" x n y] by (simp add: rank_traces_def)

lemma distinct_scored:
  assumes "wf_dict avg"
  shows "distinct (map snd (rank_traces (scored_active avg e)))"
proof -
  have "distinct (map snd (scored_active avg e))"
    unfolding scored_active_def map_map comp_def case_prod_beta snd_conv
    by (rule distinct_map_filter) (use assms in \<open>simp add: wf_dict_def\<close>)
  then have "distinct (map snd (scored_active avg e)) \<and> mset (map snd (rank_traces (scored_active avg e))) = mset (map snd (scored_active avg e))"
    by (simp add: rank_traces_def)
  then show ?thesis by (metis mset_eq_imp_distinct_iff)
qed

lemma ranked_active:
  assumes "en_trace_tree e = Some t" and "x \<in> set (rank_traces (scored_active avg e))"
  shows "\<exists>n. map_of (tt_nodes t) (snd x) = Some n \<and> nd_is_active n"
  using assms scored_active_mem [of "fst x" "snd x" avg e] by auto

lemma active_not_completed:
  "tree_inv t \<Longrightarrow> map_of (tt_nodes t) k = Some n \<Longrightarrow> nd_is_active n \<Longrightarrow> \<not> nd_is_completed n"
  using tree_invD(2) [of t k n] by (simp add: node_ok_def)

lemma ranked_prunable:
  assumes "tree_good e" and "x \<in> set (rank_traces (scored_active avg e))"
  shows "prunable (snd x) e"
  using assms ranked_active [OF _ assms(2)] active_not_completed
  unfolding tree_good_def prunable_iff by fastforce

lemma prune_all_run:
  assumes "en_trace_tree e = Some t" and "tree_inv t"
    and "\<forall>x \<in> set xs. \<exists>n. map_of (tt_nodes t) (snd x) = Some n \<and> nd_is_active n" and "distinct (map snd xs)"
  shows "en_trace_tree (prune_all xs e) = Some (fold mark_pruned (map snd xs) t)"
    and "en_pending_low_score_stops (prune_all xs e) = en_pending_low_score_stops e \<union> snd ` set xs"
    and "tree_inv (fold mark_pruned (map snd xs) t)"
    and "get_active_count (fold mark_pruned (map snd xs) t) = get_active_count t - int (length xs)"
proof -
  from fold_prune_tree [OF assms(1)] show "en_trace_tree (prune_all xs e) = Some (fold mark_pruned (map snd xs) t)"
    "en_pending_low_score_stops (prune_all xs e) = en_pending_low_score_stops e \<union> snd ` set xs"
    by (simp_all add: prune_all_fold)
  show "tree_inv (fold mark_pruned (map snd xs) t)"
    by (rule tree_inv_fold_mark_pruned [OF assms(2)]) (use assms(2,3) active_not_completed in fastforce)
  show "get_active_count (fold mark_pruned (map snd xs) t) = get_active_count t - int (length xs)"
    using active_count_fold_mark_pruned [OF tree_invD(1) [OF assms(2)] assms(4)] assms(3) by fastforce
qed

lemma prune_all_frame [simp]:
  "en_config (prune_all xs e) = en_config e" "en_trace_token_counts (prune_all xs e) = en_trace_token_counts e"
  "en_seq_hs_to_copy (prune_all xs e) = en_seq_hs_to_copy e"
  "en_tournament_step_counter (prune_all xs e) = en_tournament_step_counter e"
  by (simp_all add: prune_all_fold)

lemma select_parents_subset:
  assumes "sample_ok ev"
  shows "set (select_parents ev e k cands) \<subseteq> set cands"
proof -
  have "mset (ev_sample ev i cands n) \<subseteq># mset cands" if "n \<le> length cands" for i n
    using assms that by (simp add: sample_ok_def)
  then have "set (ev_sample ev i cands (min k (length cands))) \<subseteq> set cands" for i
    by (metis min.cobounded2 set_mset_mono set_mset_mset)
  then show ?thesis by (auto simp: select_parents_def dest: in_set_takeD)
qed

text \<open>A round at capacity prunes one suffix of the ranking, in two parts: the excess and the bottom \<open>K\<close> of
  the rest; then it runs the guarded loop over parents outside the bottom \<open>K\<close>.\<close>

definition kept_after_excess :: "engine \<Rightarrow> nat \<Rightarrow> nat" where
  "kept_after_excess e len = len - nat (min (active_traces_of e - gc_tournament_capacity (en_config e)) (int len))"

definition kept_after_swap :: "engine \<Rightarrow> nat \<Rightarrow> nat" where
  "kept_after_swap e len = (let m = kept_after_excess e len
     in m - nat (min (gc_tournament_swap_k (en_config e)) (int m div 2)))"

lemma swap_traces_split:
  assumes "swap_traces ev ranked e = Inr e'"
  defines "m \<equiv> kept_after_excess e (length ranked)" and "n \<equiv> kept_after_swap e (length ranked)"
  obtains top where "n \<le> m" "m \<le> length ranked"
    "branch_loop ev (gc_tournament_capacity (en_config e)) top
       (prune_all (drop m ranked @ drop n (take m ranked)) e) = Inr e'"
    "sample_ok ev \<Longrightarrow> set top \<subseteq> {x \<in> set (branch_candidates e ranked). snd x \<notin> snd ` set (drop n (take m ranked))}"
proof -
  let ?cap = "gc_tournament_capacity (en_config e)"
  let ?k = "min (gc_tournament_swap_k (en_config e)) (int m div 2)"
  have m: "m \<le> length ranked" and n: "n = m - nat ?k"
    by (simp_all add: m_def n_def kept_after_excess_def kept_after_swap_def Let_def)
  have keep: "length ranked - nat (min (active_traces_of e - ?cap) (int (length ranked))) = m"
    by (simp add: m_def kept_after_excess_def)
  have len: "length (take m ranked) = m" using m by simp
  have two: "prune_all xs (prune_all ys e) = prune_all (ys @ xs) e" for xs ys by (simp add: prune_all_def)
  show thesis
  proof (cases "?k > 0")
    case True
    let ?bottom = "drop n (take m ranked)"
    let ?el = "filter (\<lambda>(_, rid). rid \<notin> snd ` set ?bottom) (branch_candidates e ranked)"
    let ?top = "select_parents ev (prune_all (drop m ranked) e) (nat ?k) ?el"
    have run: "branch_loop ev ?cap ?top (prune_all (drop m ranked @ ?bottom) e) = Inr e'"
      using assms(1) True unfolding swap_traces_def Let_def keep len two [symmetric] by (simp add: n)
    have top: "set ?top \<subseteq> {x \<in> set (branch_candidates e ranked). snd x \<notin> snd ` set ?bottom}" if ok: "sample_ok ev"
    proof -
      have "set ?top \<subseteq> set ?el" by (rule select_parents_subset [OF ok])
      also have "\<dots> = {x \<in> set (branch_candidates e ranked). snd x \<notin> snd ` set ?bottom}"
        by (simp only: set_filter case_prod_beta)
      finally show ?thesis .
    qed
    have nm: "n \<le> m" unfolding n by (rule diff_le_self)
    show thesis by (rule that [OF nm m run top])
  next
    case False
    with assms(1) have "e' = prune_all (drop m ranked) e"
      unfolding swap_traces_def Let_def keep len by (simp only: if_False sum.inject(2))
    moreover have "nat ?k = 0" using False unfolding not_less by (rule nat_le_0)
    then have "n = m" using n by (simp only: diff_zero)
    ultimately have run: "branch_loop ev ?cap [] (prune_all (drop m ranked @ drop n (take m ranked)) e) = Inr e'"
      by simp
    have nm: "n \<le> m" unfolding n by (rule diff_le_self)
    show thesis by (rule that [OF nm m run]) simp
  qed
qed

lemma suffix_parts:
  assumes "n \<le> m" and "m \<le> length xs"
  shows "set (drop m xs @ drop n (take m xs)) = set (drop n xs)"
    and "length (drop m xs @ drop n (take m xs)) = length xs - n"
    and "distinct (map f xs) \<Longrightarrow> distinct (map f (drop m xs @ drop n (take m xs)))"
proof -
  have split: "drop n xs = drop n (take m xs) @ drop m xs"
  proof -
    have "drop n (take m xs @ drop m xs) = drop n (take m xs) @ drop m xs"
      using assms by (simp only: drop_append) simp
    then show ?thesis by simp
  qed
  then show "set (drop m xs @ drop n (take m xs)) = set (drop n xs)" by auto
  show "length (drop m xs @ drop n (take m xs)) = length xs - n" using assms by simp
  assume "distinct (map f xs)"
  then have "distinct (map f (drop n xs))" by (simp add: drop_map [symmetric] distinct_drop)
  with split show "distinct (map f (drop m xs @ drop n (take m xs)))" by auto
qed

text \<open>A round at or over capacity, on the ranking of the scored active traces.\<close>

lemma swap_round:
  assumes tree: "en_trace_tree e = Some t" and inv: "tree_inv t" and wf: "wf_dict avg"
    and run: "swap_traces ev (rank_traces (scored_active avg e)) e = Inr e'"
  defines "ranked \<equiv> rank_traces (scored_active avg e)"
  defines "m \<equiv> kept_after_excess e (length ranked)" and "n \<equiv> kept_after_swap e (length ranked)"
  obtains t' ps top where "en_trace_tree e' = Some t'" "tree_inv t'" "n \<le> m" "m \<le> length ranked"
    "en_pending_low_score_stops e' = en_pending_low_score_stops e \<union> snd ` set (drop n ranked)"
    "flags_kept (fold mark_pruned (map snd (drop m ranked @ drop n (take m ranked))) t) t'"
    "en_seq_hs_to_copy e' = en_seq_hs_to_copy e @ ps" "subseq (map fst ps) (map snd top)" "distinct (map snd ps)"
    "\<And>p c. (p, c) \<in> set ps \<Longrightarrow> \<not> tree_contains t c \<and> tree_contains t' c"
    "sample_ok ev \<Longrightarrow> set top \<subseteq> {x \<in> set (branch_candidates e ranked). snd x \<notin> snd ` set (drop n (take m ranked))}"
    "get_active_count t' = get_active_count t - int (length ranked - n) + int (length ps)"
    "get_active_count t' \<le> max (gc_tournament_capacity (en_config e)) (get_active_count t - int (length ranked - n))"
    "\<And>p c. (p, c) \<in> set ps \<Longrightarrow> p \<notin> snd ` set (drop n ranked)" "en_config e' = en_config e"
proof -
  let ?out = "drop m ranked @ drop n (take m ranked)"
  let ?e1 = "prune_all ?out e" let ?t1 = "fold mark_pruned (map snd ?out) t"
  obtain top where nm: "n \<le> m" "m \<le> length ranked"
    and loop: "branch_loop ev (gc_tournament_capacity (en_config e)) top ?e1 = Inr e'"
    and top: "sample_ok ev \<Longrightarrow> set top \<subseteq> {x \<in> set (branch_candidates e ranked). snd x \<notin> snd ` set (drop n (take m ranked))}"
    using swap_traces_split [OF run] unfolding ranked_def m_def n_def by blast
  note out = suffix_parts [OF nm]
  have act: "\<forall>x \<in> set ?out. \<exists>n. map_of (tt_nodes t) (snd x) = Some n \<and> nd_is_active n"
    using out(1) ranked_active [OF tree, of _ avg] unfolding ranked_def by (metis in_set_dropD)
  have dist: "distinct (map snd ?out)" using out(3) distinct_scored [OF wf] unfolding ranked_def by blast
  note pr = prune_all_run [OF tree inv act dist]
  obtain t' ps where res: "en_trace_tree e' = Some t'" "tree_inv t'" "tt_max_traces t' = tt_max_traces ?t1" "flags_kept ?t1 t'"
    "en_config e' = en_config ?e1" "en_pending_low_score_stops e' = en_pending_low_score_stops ?e1"
    "en_seq_hs_to_copy e' = en_seq_hs_to_copy ?e1 @ ps" "subseq (map fst ps) (map snd top)" "distinct (map snd ps)"
    "\<And>p c. (p, c) \<in> set ps \<Longrightarrow> \<not> tree_contains ?t1 c \<and> tree_contains t' c"
    "get_active_count t' = get_active_count ?t1 + int (length ps)"
    "\<And>p c n. (p, c) \<in> set ps \<Longrightarrow> map_of (tt_nodes ?t1) p = Some n \<Longrightarrow> nd_is_active n"
    by (rule branch_loop_run [OF pr(1) pr(3) loop]) (rule that; assumption)
  have contains: "tree_contains ?t1 c = tree_contains t c" for c
    using map_of_fold_mark_pruned [of "map snd ?out" t c] unfolding tree_contains_def
    by (metis (no_types, lifting) map_of_None_iff option.map_disc_iff)
  have good: "tree_good ?e1" using pr(1,3) by (auto simp: tree_good_def)
  have count: "get_active_count ?t1 = get_active_count t - int (length ranked - n)" using pr(4) out(2) by simp
  have bound: "get_active_count t' \<le> max (gc_tournament_capacity (en_config e)) (get_active_count ?t1)"
    using branch_loop_bounded [OF good loop]
    by (simp only: active_traces_of_Some [OF res(1)] active_traces_of_Some [OF pr(1)])
  show thesis
  proof (rule that)
    show "en_pending_low_score_stops e' = en_pending_low_score_stops e \<union> snd ` set (drop n ranked)"
      using res(6) pr(2) out(1) by simp
    show "en_seq_hs_to_copy e' = en_seq_hs_to_copy e @ ps" using res(7) by simp
    show "get_active_count t' = get_active_count t - int (length ranked - n) + int (length ps)" using res(11) count by simp
    show "get_active_count t' \<le> max (gc_tournament_capacity (en_config e)) (get_active_count t - int (length ranked - n))"
      using bound count by simp
    show "\<not> tree_contains t c \<and> tree_contains t' c" if "(p, c) \<in> set ps" for p c using res(10) [OF that] contains by simp
    show "en_config e' = en_config e" using res(5) by simp
    show "p \<notin> snd ` set (drop n ranked)" if pc: "(p, c) \<in> set ps" for p c
    proof
      assume "p \<in> snd ` set (drop n ranked)"
      then have mem: "p \<in> set (map snd ?out)" using out(1) by (simp only: set_map)
      then obtain x where "x \<in> set ?out" "p = snd x" by (auto simp only: set_map)
      with act obtain nd where "map_of (tt_nodes t) p = Some nd" by blast
      then have "map_of (tt_nodes ?t1) p = Some (nd\<lparr>nd_is_active := False, nd_is_pruned := True\<rparr>)"
        unfolding map_of_fold_mark_pruned using mem by simp
      from res(12) [OF pc this] show False by simp
    qed
  qed (fact res nm top)+
qed

text \<open>C10: selection pressure. A tournament round at or over capacity prunes a suffix of the ranking and
  nothing else: the excess over the capacity and the bottom \<open>K\<close> (at most half of the rest). Every scored
  trace that stays has a score at least as high as every pruned one, the pruned ones are pending for a forced stop
  and inactive in the tree, the others stay active.\<close>

theorem swap_prunes_lowest:
  assumes tree: "en_trace_tree e = Some t" and inv: "tree_inv t" and wf: "wf_dict avg"
    and ranked: "ranked = rank_traces (scored_active avg e)"
    and run: "swap_traces ev ranked e = Inr e'"
    and n: "n = kept_after_swap e (length ranked)"
  shows "en_pending_low_score_stops e' = en_pending_low_score_stops e \<union> snd ` set (drop n ranked) \<and>
    (\<forall>x \<in> set (take n ranked). \<forall>y \<in> set (drop n ranked). fst y \<le> fst x) \<and>
    (\<exists>t'. en_trace_tree e' = Some t' \<and>
      (\<forall>x \<in> set (take n ranked). \<exists>nd. map_of (tt_nodes t') (snd x) = Some nd \<and> nd_is_active nd) \<and>
      (\<forall>x \<in> set (drop n ranked). \<exists>nd. map_of (tt_nodes t') (snd x) = Some nd \<and> nd_is_pruned nd \<and> \<not> nd_is_active nd))"
proof -
  let ?m = "kept_after_excess e (length ranked)"
  let ?out = "drop ?m ranked @ drop n (take ?m ranked)"
  obtain t' where t': "en_trace_tree e' = Some t'" and nm: "n \<le> ?m" "?m \<le> length ranked"
    and pend: "en_pending_low_score_stops e' = en_pending_low_score_stops e \<union> snd ` set (drop n ranked)"
    and flags: "flags_kept (fold mark_pruned (map snd ?out) t) t'"
    by (rule swap_round [OF tree inv wf run [unfolded ranked], folded ranked, folded n]) (rule that; assumption)
  have out: "set (map snd ?out) = snd ` set (drop n ranked)" using suffix_parts(1) [OF nm] by (simp only: set_map)
  have dist: "distinct (map snd ranked)" unfolding ranked by (rule distinct_scored [OF wf])
  have apart: "snd x \<notin> snd ` set (drop n ranked)" if "x \<in> set (take n ranked)" for x
    using that distinct_take_drop_disjoint [OF dist, of n] by (auto simp: take_map drop_map)
  have act: "\<exists>nd. map_of (tt_nodes t) (snd x) = Some nd \<and> nd_is_active nd" if "x \<in> set ranked" for x
    using ranked_active [OF tree] that unfolding ranked by blast
  have stay: "\<exists>nd. map_of (tt_nodes t') (snd x) = Some nd \<and> nd_is_active nd" if x: "x \<in> set (take n ranked)" for x
  proof -
    from act [OF in_set_takeD [OF x]] obtain nd where nd: "map_of (tt_nodes t) (snd x) = Some nd" "nd_is_active nd" by blast
    then have "map_of (tt_nodes (fold mark_pruned (map snd ?out) t)) (snd x) = Some nd"
      unfolding map_of_fold_mark_pruned out using apart [OF x] by simp
    from flags_keptD [OF flags this] nd(2) show ?thesis by auto
  qed
  have gone: "\<exists>nd. map_of (tt_nodes t') (snd x) = Some nd \<and> nd_is_pruned nd \<and> \<not> nd_is_active nd"
    if x: "x \<in> set (drop n ranked)" for x
  proof -
    have mem: "snd x \<in> snd ` set (drop n ranked)" using x by blast
    from act [OF in_set_dropD [OF x]] obtain nd where nd: "map_of (tt_nodes t) (snd x) = Some nd" by blast
    then have "map_of (tt_nodes (fold mark_pruned (map snd ?out) t)) (snd x) = Some (nd\<lparr>nd_is_active := False, nd_is_pruned := True\<rparr>)"
      unfolding map_of_fold_mark_pruned out using mem by simp
    from flags_keptD [OF flags this] show ?thesis by auto
  qed
  show ?thesis using pend t' stay gone rank_traces_ordered unfolding ranked by blast
qed

lemma swap_capacity:
  assumes tree: "en_trace_tree e = Some t" and inv: "tree_inv t" and wf: "wf_dict avg"
    and over: "gc_tournament_capacity (en_config e) \<le> active_traces_of e"
    and ranked: "ranked = rank_traces (scored_active avg e)"
    and run: "swap_traces ev ranked e = Inr e'"
  shows "active_traces_of e' \<le> max (gc_tournament_capacity (en_config e)) (active_traces_of e - int (length ranked))"
proof -
  let ?m = "kept_after_excess e (length ranked)" let ?n = "kept_after_swap e (length ranked)"
  let ?cap = "gc_tournament_capacity (en_config e)"
  obtain t' where t': "en_trace_tree e' = Some t'" and nm: "?n \<le> ?m" "?m \<le> length ranked"
    and bound: "get_active_count t' \<le> max ?cap (get_active_count t - int (length ranked - ?n))"
    by (rule swap_round [OF tree inv wf run [unfolded ranked], folded ranked]) (rule that; assumption)
  have "int (length ranked - ?m) = min (active_traces_of e - ?cap) (int (length ranked))"
    using over by (simp add: kept_after_excess_def)
  with nm bound show ?thesis
    by (simp add: active_traces_of_Some [OF tree] active_traces_of_Some [OF t'])
qed

text \<open>Capacity after a round. A round at or over capacity ends with at most the configured capacity of
  active traces, or, when the traces without a score alone exceed it, with at most those that the round
  could not rank.\<close>

lemma swap_restores_capacity:
  assumes "en_trace_tree e = Some t" and "tree_inv t" and "wf_dict avg"
    and "gc_tournament_capacity (en_config e) \<le> active_traces_of e"
    and "ranked = rank_traces (scored_active avg e)"
    and "swap_traces ev ranked e = Inr e'"
  shows "active_traces_of e' \<le> max (gc_tournament_capacity (en_config e)) (active_traces_of e - int (length ranked))"
  by (rule swap_capacity [OF assms])

text \<open>The scores and traces on which the properties are instantiated: three traces over a capacity of two.\<close>

definition sample_avg :: "(reqid, score) dict" where
  "sample_avg = [(''a_1'', 1 / 2), (''b_1'', 1 / 4), (''c_1'', 3 / 4)]"

definition sample_three :: engine where
  "sample_three = sample_engine [''a_1'', ''b_1'', ''c_1'']"

lemma sample_three:
  "en_trace_tree sample_three = Some (sample_tree [''a_1'', ''b_1'', ''c_1''])"
  "tree_inv (sample_tree [''a_1'', ''b_1'', ''c_1''])" "wf_dict sample_avg"
  by (simp_all add: sample_three_def sample_tree_inv external_id_def sample_avg_def)

theorem swap_prunes_lowest_witness:
  "en_pending_low_score_stops (projr (swap_traces sample_env (rank_traces (scored_active sample_avg sample_three)) sample_three)) = {''a_1'', ''b_1''}"
proof -
  let ?ranked = "rank_traces (scored_active sample_avg sample_three)"
  have run: "swap_traces sample_env ?ranked sample_three = Inr (projr (swap_traces sample_env ?ranked sample_three))"
    by (rule Inr_projr) code_simp
  have "en_pending_low_score_stops sample_three \<union> snd ` set (drop (kept_after_swap sample_three (length ?ranked)) ?ranked) = {''a_1'', ''b_1''}"
    by code_simp
  with swap_prunes_lowest [OF sample_three refl run refl] show ?thesis by simp
qed

end
