(* ===== verification/Gambit_Tournament.thy ===== *)
theory Gambit_Tournament
  imports Gambit_Decision
begin

text \<open>
  Properties of whole decision steps of Gambit: who may be a parent in a tournament round, the capacity of
  the tournament and of the threshold mode, the hard floor, the contents of a new branch, and the limit on
  completed traces.
\<close>

subsection \<open>The hard floor\<close>

lemma hard_floor_tree:
  assumes "en_trace_tree e = Some t"
  shows "en_trace_tree (hard_floor_prune avg e) = Some (fold mark_pruned (hard_floor_victims avg e) t)"
    and "en_pending_low_score_stops (hard_floor_prune avg e) = en_pending_low_score_stops e \<union> set (hard_floor_victims avg e)"
  using fold_prune_tree [OF assms, of "hard_floor_victims avg e"] by (simp_all add: hard_floor_prune_def)

lemma hard_floor_frame [simp]:
  "en_config (hard_floor_prune avg e) = en_config e"
  "en_trace_token_counts (hard_floor_prune avg e) = en_trace_token_counts e"
  "en_seq_hs_to_copy (hard_floor_prune avg e) = en_seq_hs_to_copy e"
  by (simp_all add: hard_floor_prune_def)

lemma hard_floor_victims_keys: "set (hard_floor_victims avg e) \<subseteq> keyset avg"
  by (auto simp: hard_floor_victims_def)

lemma hard_floor_inv:
  assumes "en_trace_tree e = Some t" and "tree_inv t" and "\<forall>rid \<in> keyset avg. prunable rid e"
  shows "tree_inv (fold mark_pruned (hard_floor_victims avg e) t)"
proof (rule tree_inv_fold_mark_pruned [OF assms(2)])
  fix rid n assume "rid \<in> set (hard_floor_victims avg e)" and n: "map_of (tt_nodes t) rid = Some n"
  then have "prunable rid e" using assms(3) hard_floor_victims_keys [of avg e] by blast
  with n assms(1) show "\<not> nd_is_completed n" by (simp add: prunable_iff)
qed

subsection \<open>Runs of a tournament step\<close>

text \<open>The three ways a tournament step can go: no round, filling free slots, swapping.\<close>

lemma tournament_step_eq:
  assumes "en_trace_tree e = Some t" and "e1 = hard_floor_prune avg e"
    and "e2 = e1\<lparr>en_tournament_last_round_step := en_tournament_step_counter e1\<rparr>"
  shows "gambit_tournament_step ev avg e =
    (if \<not> round_due avg e1 then Inr e1
     else if scored_active avg e2 = [] then Inr e2
     else if active_traces_of e2 < gc_tournament_capacity (en_config e2)
     then fill_slots ev (rank_traces (scored_active avg e2)) e2
     else swap_traces ev (rank_traces (scored_active avg e2)) e2)"
  unfolding gambit_tournament_step_def Let_def assms(2,3) using assms(1) by simp

lemma tournament_cases:
  assumes tree: "en_trace_tree e = Some t" and run: "gambit_tournament_step ev avg e = Inr e'"
    and e1: "e1 = hard_floor_prune avg e"
    and e2: "e2 = e1\<lparr>en_tournament_last_round_step := en_tournament_step_counter e1\<rparr>"
  obtains (idle) "e' = e1 \<or> e' = e2"
  | (fill) "active_traces_of e2 < gc_tournament_capacity (en_config e)"
      "fill_slots ev (rank_traces (scored_active avg e2)) e2 = Inr e'"
  | (swap) "gc_tournament_capacity (en_config e) \<le> active_traces_of e2"
      "swap_traces ev (rank_traces (scored_active avg e2)) e2 = Inr e'"
proof -
  have cfg: "en_config e2 = en_config e" unfolding e1 e2 by simp
  note run [unfolded tournament_step_eq [OF tree e1 e2] cfg]
  then consider "e' = e1 \<or> e' = e2"
    | "active_traces_of e2 < gc_tournament_capacity (en_config e)" "fill_slots ev (rank_traces (scored_active avg e2)) e2 = Inr e'"
    | "gc_tournament_capacity (en_config e) \<le> active_traces_of e2" "swap_traces ev (rank_traces (scored_active avg e2)) e2 = Inr e'"
    unfolding not_less [symmetric] by (metis sum.inject(2))
  then show thesis using idle fill swap by cases
qed

lemma fill_slots_run:
  assumes tree: "en_trace_tree e = Some t" and inv: "tree_inv t"
    and run: "fill_slots ev (rank_traces (scored_active avg e)) e = Inr e'"
  defines "ranked \<equiv> rank_traces (scored_active avg e)"
  obtains t' ps top where "en_trace_tree e' = Some t'" "tree_inv t'"
    "en_pending_low_score_stops e' = en_pending_low_score_stops e" "flags_kept t t'"
    "en_seq_hs_to_copy e' = en_seq_hs_to_copy e @ ps" "subseq (map fst ps) (map snd top)" "distinct (map snd ps)"
    "\<And>p c. (p, c) \<in> set ps \<Longrightarrow> \<not> tree_contains t c \<and> tree_contains t' c"
    "sample_ok ev \<Longrightarrow> set top \<subseteq> set (branch_candidates e ranked)"
    "get_active_count t' \<le> max (gc_tournament_capacity (en_config e)) (get_active_count t)" "en_config e' = en_config e"
proof -
  let ?cap = "gc_tournament_capacity (en_config e)"
  let ?top = "select_parents ev e (nat (?cap - active_traces_of e)) (branch_candidates e ranked)"
  have loop: "branch_loop ev ?cap ?top e = Inr e'" using run by (simp add: fill_slots_def Let_def ranked_def)
  obtain t' ps where res: "en_trace_tree e' = Some t'" "tree_inv t'" "tt_max_traces t' = tt_max_traces t" "flags_kept t t'"
    "en_config e' = en_config e" "en_pending_low_score_stops e' = en_pending_low_score_stops e"
    "en_seq_hs_to_copy e' = en_seq_hs_to_copy e @ ps" "subseq (map fst ps) (map snd ?top)" "distinct (map snd ps)"
    "\<And>p c. (p, c) \<in> set ps \<Longrightarrow> \<not> tree_contains t c \<and> tree_contains t' c"
    by (rule branch_loop_run [OF tree inv loop]) (rule that; assumption)
  have "tree_good e" using tree inv by (auto simp: tree_good_def)
  from branch_loop_bounded [OF this loop] have bound: "get_active_count t' \<le> max ?cap (get_active_count t)"
    by (simp only: active_traces_of_Some [OF tree] active_traces_of_Some [OF res(1)])
  show thesis
    by (rule that [OF res(1,2,6,4,7,8,9,10) select_parents_subset bound res(5)])
qed

lemma branch_parent_eligible:
  assumes tree: "en_trace_tree e = Some t"
    and e2: "e2 = (hard_floor_prune avg e)\<lparr>en_tournament_last_round_step := n\<rparr>"
    and pc: "(p, c) \<in> set ps" and sub: "subseq (map fst ps) (map snd qs)"
    and top: "set qs \<subseteq> set (branch_candidates e2 (rank_traces (scored_active avg e2)))"
  shows "p \<in> keyset avg \<and> tokens_since_branch e p \<ge> gc_tournament_warmup_tokens (en_config e) \<and>
    (\<exists>n. map_of (tt_nodes t) p = Some n \<and> nd_is_active n) \<and> p \<notin> en_pending_low_score_stops e2"
proof -
  let ?t1 = "fold mark_pruned (hard_floor_victims avg e) t"
  have tree2: "en_trace_tree e2 = Some ?t1" using hard_floor_tree(1) [OF tree] by (simp add: e2)
  have "p \<in> set (map fst ps)" using pc by force
  from list_emb_set [OF sub this] obtain q where "q \<in> set (map snd qs)" "p = q" by blast
  then obtain x where "x \<in> set qs" "p = snd x" by (auto simp only: set_map)
  with top obtain s where x: "(s, p) \<in> set (branch_candidates e2 (rank_traces (scored_active avg e2)))" by (cases x) auto
  then have warm: "tokens_since_branch e p \<ge> gc_tournament_warmup_tokens (en_config e)"
    and mem: "(s, p) \<in> set (scored_active avg e2)" by (auto simp: branch_candidates_def e2)
  from mem tree2 have sc: "(p, s) \<in> set avg" "p \<notin> en_pending_low_score_stops e2"
    "\<exists>n. map_of (tt_nodes ?t1) p = Some n \<and> nd_is_active n" unfolding scored_active_mem by auto
  from sc(3) have "\<exists>n. map_of (tt_nodes t) p = Some n \<and> nd_is_active n"
    unfolding map_of_fold_mark_pruned by (auto split: if_splits)
  with sc(1,2) warm show ?thesis by force
qed

text \<open>C11: who may branch. In a tournament step, every new branch has a fresh id and comes from a trace that has a
  score in this step, has generated at least the warmup number of tokens since its own creation,
  was active, and is not pruned or pending for a stop after the step; no two branches share an id.\<close>

theorem tournament_parents_eligible:
  assumes tree: "en_trace_tree e = Some t" and inv: "tree_inv t" and wf: "wf_dict avg"
    and prun: "\<forall>rid \<in> keyset avg. prunable rid e" and ok: "sample_ok ev"
    and run: "gambit_tournament_step ev avg e = Inr e'"
  shows "\<exists>ps. en_seq_hs_to_copy e' = en_seq_hs_to_copy e @ ps \<and> distinct (map snd ps) \<and>
    (\<forall>(p, c) \<in> set ps. \<not> tree_contains t c \<and> p \<in> keyset avg \<and>
       tokens_since_branch e p \<ge> gc_tournament_warmup_tokens (en_config e) \<and>
       (\<exists>n. map_of (tt_nodes t) p = Some n \<and> nd_is_active n) \<and> p \<notin> en_pending_low_score_stops e')"
proof -
  let ?t1 = "fold mark_pruned (hard_floor_victims avg e) t"
  have inv1: "tree_inv ?t1" by (rule hard_floor_inv [OF tree inv prun])
  have cont: "tree_contains ?t1 c = tree_contains t c" for c
    using map_of_fold_mark_pruned [of "hard_floor_victims avg e" t c] unfolding tree_contains_def
    by (metis (no_types, lifting) map_of_None_iff option.map_disc_iff)
  define e1 where "e1 = hard_floor_prune avg e"
  define e2 where "e2 = e1\<lparr>en_tournament_last_round_step := en_tournament_step_counter e1\<rparr>"
  let ?ranked = "rank_traces (scored_active avg e2)"
  have tree2: "en_trace_tree e2 = Some ?t1" using hard_floor_tree(1) [OF tree] by (simp add: e1_def e2_def)
  have copy2: "en_seq_hs_to_copy e2 = en_seq_hs_to_copy e" by (simp add: e1_def e2_def)
  note cand = branch_parent_eligible [OF tree e2_def [unfolded e1_def]]
  from tree run e1_def e2_def show ?thesis
  proof (cases rule: tournament_cases)
    case idle
    then have "en_seq_hs_to_copy e' = en_seq_hs_to_copy e" by (auto simp: e1_def e2_def)
    then show ?thesis by (intro exI [of _ "[]"]) simp
  next
    case fill
    obtain t' ps top where res: "en_pending_low_score_stops e' = en_pending_low_score_stops e2"
      "en_seq_hs_to_copy e' = en_seq_hs_to_copy e2 @ ps" "subseq (map fst ps) (map snd top)" "distinct (map snd ps)"
      "\<And>p c. (p, c) \<in> set ps \<Longrightarrow> \<not> tree_contains ?t1 c \<and> tree_contains t' c"
      "sample_ok ev \<Longrightarrow> set top \<subseteq> set (branch_candidates e2 ?ranked)"
      by (rule fill_slots_run [OF tree2 inv1 fill(2)]) (rule that; assumption)
    note good = cand [OF _ res(3) res(6) [OF ok]] res(5) [unfolded cont]
    show ?thesis
      by (rule exI [of _ ps], unfold res(1,2) copy2, intro conjI ballI refl res(4), unfold case_prod_beta)
        (use good in \<open>simp add: prod_eq_iff, metis prod.collapse\<close>)
  next
    case swap
    let ?m = "kept_after_excess e2 (length ?ranked)" let ?n = "kept_after_swap e2 (length ?ranked)"
    obtain t' ps top where res: "en_pending_low_score_stops e' = en_pending_low_score_stops e2 \<union> snd ` set (drop ?n ?ranked)"
      "en_seq_hs_to_copy e' = en_seq_hs_to_copy e2 @ ps" "subseq (map fst ps) (map snd top)" "distinct (map snd ps)"
      "\<And>p c. (p, c) \<in> set ps \<Longrightarrow> \<not> tree_contains ?t1 c \<and> tree_contains t' c"
      "sample_ok ev \<Longrightarrow> set top \<subseteq> {x \<in> set (branch_candidates e2 ?ranked). snd x \<notin> snd ` set (drop ?n (take ?m ?ranked))}"
      "\<And>p c. (p, c) \<in> set ps \<Longrightarrow> p \<notin> snd ` set (drop ?n ?ranked)"
      by (rule swap_round [OF tree2 inv1 wf swap(2)]) (rule that; assumption)
    have top: "set top \<subseteq> set (branch_candidates e2 ?ranked)" using res(6) [OF ok] by blast
    note good = cand [OF _ res(3) top] res(5) [unfolded cont] res(7)
    show ?thesis
      by (rule exI [of _ ps], unfold res(1,2) copy2, intro conjI ballI refl res(4), unfold case_prod_beta)
        (use good in \<open>simp add: prod_eq_iff, metis prod.collapse\<close>)
  qed
qed

theorem tournament_parents_eligible_witness:
  "\<exists>ps. en_seq_hs_to_copy (projr (gambit_tournament_step sample_env sample_avg sample_three)) = ps \<and> ps \<noteq> [] \<and>
     (\<forall>(p, c) \<in> set ps. p = ''c_1'')"
proof -
  let ?r = "gambit_tournament_step sample_env sample_avg sample_three"
  have run: "?r = Inr (projr ?r)" by (rule Inr_projr) code_simp
  have prun: "\<forall>rid \<in> keyset sample_avg. prunable rid sample_three"
    by code_simp
  have pend: "en_seq_hs_to_copy (projr ?r) \<noteq> []" "en_pending_low_score_stops (projr ?r) = {''a_1'', ''b_1''}"
    "keyset sample_avg = {''a_1'', ''b_1'', ''c_1''}" "en_seq_hs_to_copy sample_three = []" by code_simp+
  from tournament_parents_eligible [OF sample_three prun sample_env_ok(1) run] pend show ?thesis by fastforce
qed

subsection \<open>Capacity of a decision step\<close>

lemma prune_all_good:
  assumes "tree_good e" and "\<forall>rid \<in> set rids. prunable rid e"
  shows "tree_good (fold gambit_prune_trace rids e)" and "active_traces_of (fold gambit_prune_trace rids e) \<le> active_traces_of e"
  using traces.removes_good [OF assms(1), of rids] assms(2) by blast+

lemma tournament_bounded:
  assumes good: "tree_good e" and wf: "wf_dict avg" and prun: "\<forall>rid \<in> keyset avg. prunable rid e"
    and run: "gambit_tournament_step ev avg e = Inr e'"
  shows "tree_good e' \<and> active_traces_of e' \<le> max (gc_tournament_capacity (en_config e)) (active_traces_of e)"
proof -
  from good obtain t where tree: "en_trace_tree e = Some t" and inv: "tree_inv t" by (auto simp: tree_good_def)
  define e1 where "e1 = hard_floor_prune avg e"
  define e2 where "e2 = e1\<lparr>en_tournament_last_round_step := en_tournament_step_counter e1\<rparr>"
  have "\<forall>rid \<in> set (hard_floor_victims avg e). prunable rid e" using prun hard_floor_victims_keys [of avg e] by blast
  note e1 = prune_all_good [OF good this, folded hard_floor_prune_def, folded e1_def]
  have e2: "tree_good e2" "active_traces_of e2 \<le> active_traces_of e" "en_config e2 = en_config e"
    using e1 by (simp_all add: e2_def e1_def tree_good_def active_traces_of_def)
  then obtain t2 where t2: "en_trace_tree e2 = Some t2" "tree_inv t2" by (auto simp: tree_good_def)
  from tree run e1_def e2_def show ?thesis
  proof (cases rule: tournament_cases)
    case idle
    with e1 e2 show ?thesis by auto
  next
    case fill
    obtain t' where t': "en_trace_tree e' = Some t'" "tree_inv t'"
      "get_active_count t' \<le> max (gc_tournament_capacity (en_config e2)) (get_active_count t2)"
      by (rule fill_slots_run [OF t2 fill(2)]) (rule that; assumption)
    with e2(2,3) show ?thesis
      by (simp add: tree_good_def active_traces_of_Some [OF t'(1)] active_traces_of_Some [OF t2(1)])
  next
    case swap
    obtain t' where t': "en_trace_tree e' = Some t'" "tree_inv t'"
      by (rule swap_round [OF t2 wf swap(2)]) (rule that; assumption)
    have "active_traces_of e' \<le> max (gc_tournament_capacity (en_config e2)) (active_traces_of e2 - int (length (rank_traces (scored_active avg e2))))"
      by (rule swap_capacity [OF t2 wf _ refl swap(2)]) (use swap(1) e2(3) in simp)
    with t' e2(2,3) show ?thesis by (auto simp: tree_good_def)
  qed
qed

lemma threshold_bounded:
  assumes good: "tree_good e" and prun: "\<forall>rid \<in> keyset avg. prunable rid e"
    and run: "gambit_threshold_step ev avg e = Inr e'" and tree: "en_trace_tree e = Some t"
  shows "tree_good e' \<and> active_traces_of e' \<le> max (tt_max_traces t) (active_traces_of e)"
proof -
  have "\<forall>rid \<in> set (threshold_prunes avg e). prunable rid e" using prun by (auto simp: threshold_prunes_def)
  then have rem: "\<And>rid. rid \<in> set (threshold_prunes avg e) \<Longrightarrow> prunable rid e" by blast
  have loop: "traces.guarded_spawns ev (tt_max_traces t) (map snd (threshold_branches avg e))
      (fold gambit_prune_trace (threshold_prunes avg e) e) = Inr e'"
    using run tree unfolding gambit_threshold_step_def branch_loop_guarded by simp
  from traces.replace_bounded [OF good rem loop] show ?thesis .
qed

text \<open>Observing scores of traces that the tree knows changes score histories only.\<close>

lemma observe_known:
  assumes "tree_inv t" and "\<forall>(rid, s) \<in> set avg. tree_contains t rid"
  shows "tree_inv (fold (observe_score h) avg t) \<and> get_active_count (fold (observe_score h) avg t) = get_active_count t \<and>
    tt_max_traces (fold (observe_score h) avg t) = tt_max_traces t \<and> flags_kept t (fold (observe_score h) avg t) \<and>
    keyset (tt_nodes (fold (observe_score h) avg t)) = keyset (tt_nodes t)"
  using assms
proof (induction avg arbitrary: t)
  case (Cons x avg)
  obtain rid s where x: "x = (rid, s)" by (cases x)
  with Cons.prems have cont: "tree_contains t rid" by simp
  let ?t1 = "observe_score h x t"
  have t1: "?t1 = (if h then record_score rid s t else t)" using cont x by (simp add: observe_score_def)
  have frame: "tt_max_traces (record_score rid s t) = tt_max_traces t" "keyset (tt_nodes (record_score rid s t)) = keyset (tt_nodes t)"
    by (simp_all add: record_score_def)
  have inv1: "tree_inv ?t1" "get_active_count ?t1 = get_active_count t" "tt_max_traces ?t1 = tt_max_traces t"
    "keyset (tt_nodes ?t1) = keyset (tt_nodes t)"
    using t1 Cons.prems(1) tree_invD(1) [OF Cons.prems(1)] frame by auto
  have "flags_kept t (record_score rid s t)"
    by (auto simp: flags_kept_def record_score_def node_record_score_def dict_simps)
  with t1 have fl: "flags_kept t ?t1" by simp
  have "\<forall>(rid, s) \<in> set avg. tree_contains ?t1 rid" using Cons.prems(2) inv1(4) by (auto simp: tree_contains_def)
  from Cons.IH [OF inv1(1) this] inv1 fl show ?case by (auto intro: flags_kept_trans)
qed simp

lemma flags_kept_prunable:
  assumes "en_trace_tree e = Some t" and "en_trace_tree e' = Some t'" and "flags_kept t t'" and "tree_contains t rid"
    and "prunable rid e"
  shows "prunable rid e'"
proof -
  obtain n where n: "map_of (tt_nodes t) rid = Some n" using assms(4) unfolding tree_contains_def by (metis in_keys_map_of)
  with assms(1,5) have "\<not> nd_is_completed n" by (simp add: prunable_iff)
  with flags_keptD [OF assms(3) n] assms(2) show ?thesis by (auto simp: prunable_iff)
qed

lemma force_stop_tree:
  assumes "en_trace_tree e = Some t"
  defines "ids \<equiv> map fst (filter (\<lambda>(rid, n). nd_is_active n \<and> rid \<notin> en_pending_force_stops e) (tt_nodes t))"
  shows "en_trace_tree (gambit_force_stop_all_active_traces e) = Some (fold mark_pruned ids t)"
    and "en_pending_force_stops (gambit_force_stop_all_active_traces e) = en_pending_force_stops e \<union> set ids"
    and "en_config (gambit_force_stop_all_active_traces e) = en_config e"
    and "tree_inv t \<Longrightarrow> rid \<in> set ids \<longleftrightarrow> rid \<notin> en_pending_force_stops e \<and> (\<exists>n. map_of (tt_nodes t) rid = Some n \<and> nd_is_active n)"
    and "tree_inv t \<Longrightarrow> tree_inv (fold mark_pruned ids t)"
proof -
  show "en_trace_tree (gambit_force_stop_all_active_traces e) = Some (fold mark_pruned ids t)"
    "en_pending_force_stops (gambit_force_stop_all_active_traces e) = en_pending_force_stops e \<union> set ids"
    "en_config (gambit_force_stop_all_active_traces e) = en_config e"
    using assms(1) unfolding gambit_force_stop_all_active_traces_def ids_def Let_def by simp_all
  show mem: "rid \<in> set ids \<longleftrightarrow> rid \<notin> en_pending_force_stops e \<and> (\<exists>n. map_of (tt_nodes t) rid = Some n \<and> nd_is_active n)"
    if "tree_inv t" for rid
    using in_set_wf_dict [OF tree_invD(1) [OF that], of rid] unfolding ids_def by force
  show "tree_inv (fold mark_pruned ids t)" if inv: "tree_inv t"
    by (rule tree_inv_fold_mark_pruned [OF inv]) (use mem [OF inv] active_not_completed [OF inv] in fastforce)
qed

lemma observed_engine:
  assumes tree: "en_trace_tree e = Some t" and inv: "tree_inv t" and t1: "t1 = fold (observe_score h) avg (increment_step t)"
    and known: "\<forall>rid \<in> keyset avg. tree_contains t rid \<and> prunable rid e"
    and e1: "e1 = e\<lparr>en_trace_tree := Some t1, en_tournament_step_counter := en_tournament_step_counter e + 1\<rparr>"
  shows "tree_inv t1" and "tt_max_traces t1 = tt_max_traces t" and "active_traces_of e1 = active_traces_of e"
    and "\<forall>rid \<in> keyset avg. prunable rid e1"
proof -
  have known1: "\<forall>(rid, s) \<in> set avg. tree_contains (increment_step t) rid"
  proof (intro ballI, clarify)
    fix rid s assume "(rid, s) \<in> set avg"
    then have "rid \<in> keyset avg" by force
    with known show "tree_contains (increment_step t) rid" by (auto simp: tree_contains_def increment_step_def)
  qed
  note obs = observe_known [OF tree_inv_increment_step [OF inv] known1, of h, folded t1]
  show "tree_inv t1" "tt_max_traces t1 = tt_max_traces t" using obs by (simp_all add: increment_step_def)
  have kept: "flags_kept t t1" "get_active_count t1 = get_active_count t"
    using obs by (auto simp: increment_step_def flags_kept_def get_active_count_def)
  then show "active_traces_of e1 = active_traces_of e" using tree by (simp add: active_traces_of_def e1)
  show "\<forall>rid \<in> keyset avg. prunable rid e1"
    using known flags_kept_prunable [OF tree _ kept(1)] by (auto simp: e1 simp del: set_map)
qed

text \<open>C9: the budget of traces. A decision step over known, unfinished traces keeps the trace tree well formed and
  never raises the number of active traces above the configured capacity (\<open>tournament_capacity\<close> or
  \<open>max_total_traces\<close>, by mode), nor above what it was if it was already higher.\<close>

theorem decision_step_within_capacity:
  assumes tree: "en_trace_tree e = Some t" and inv: "tree_inv t" and cap: "tt_max_traces t = trace_capacity (en_config e)"
    and wf: "wf_dict avg" and known: "\<forall>rid \<in> keyset avg. tree_contains t rid \<and> prunable rid e"
    and run: "gambit_decision_step ev avg e = Inr e'"
  shows "tree_good e' \<and> active_traces_of e' \<le> max (trace_capacity (en_config e)) (active_traces_of e)"
proof (cases "en_gambit_enabled e")
  case False
  with run tree inv show ?thesis by (auto simp: gambit_decision_step_def tree_good_def)
next
  case True
  let ?t1 = "fold (observe_score (gc_record_score_history (en_config e))) avg (increment_step t)"
  let ?e1 = "e\<lparr>en_trace_tree := Some ?t1, en_tournament_step_counter := en_tournament_step_counter e + 1\<rparr>"
  note obs = observed_engine [OF tree inv refl known refl, of "gc_record_score_history (en_config e)"]
  have good: "tree_good ?e1" using obs(1) by (simp add: tree_good_def)
  show ?thesis
  proof (cases "gambit_should_stop_after_completed ?e1")
    case stop: True
    with run tree True have e': "e' = gambit_force_stop_all_active_traces ?e1"
      by (simp add: gambit_decision_step_def Let_def)
    note fs = force_stop_tree [of ?e1 ?t1]
    from fs(1,5) obs(1) have "tree_good e'" unfolding e' tree_good_def by auto
    moreover have "active_traces_of e' \<le> active_traces_of ?e1"
      using fs(1) active_count_fold_mark_pruned_le [OF tree_invD(1) [OF obs(1)]]
      unfolding e' by (simp add: active_traces_of_def)
    ultimately show ?thesis using obs(3) by linarith
  next
    case False
    with run tree True obtain e2 where e2: "(if gc_tournament_mode (en_config e) then gambit_tournament_step ev avg ?e1
        else gambit_threshold_step ev avg ?e1) = Inr e2" "e' = flush_sequence_histories e2"
      by (auto simp: gambit_decision_step_def Let_def ebind_eq_Inr)
    have fl: "tree_good e' = tree_good e2" "active_traces_of e' = active_traces_of e2"
      unfolding e2(2) flush_sequence_histories_def by (simp_all add: tree_good_def active_traces_of_def)
    show ?thesis
    proof (cases "gc_tournament_mode (en_config e)")
      case True
      with e2 tournament_bounded [OF good wf obs(4)] obs(3) fl show ?thesis by (simp add: trace_capacity_def)
    next
      case False
      with e2 have "gambit_threshold_step ev avg ?e1 = Inr e2" by simp
      from threshold_bounded [OF good obs(4) this, of ?t1] obs(2,3) cap fl show ?thesis by simp
    qed
  qed
qed

theorem decision_step_within_capacity_witness:
  "\<not> isl (gambit_decision_step sample_env sample_avg sample_three) \<and>
   active_traces_of (projr (gambit_decision_step sample_env sample_avg sample_three)) \<le> 3"
proof -
  let ?r = "gambit_decision_step sample_env sample_avg sample_three"
  have ok: "\<not> isl ?r" by code_simp
  note run = Inr_projr [OF ok]
  have cap: "tt_max_traces (sample_tree [''a_1'', ''b_1'', ''c_1'']) = trace_capacity (en_config sample_three)" by code_simp
  have known: "\<forall>rid \<in> keyset sample_avg. tree_contains (sample_tree [''a_1'', ''b_1'', ''c_1'']) rid \<and> prunable rid sample_three"
    by code_simp
  have "max (trace_capacity (en_config sample_three)) (active_traces_of sample_three) = 3" by code_simp
  with decision_step_within_capacity [OF sample_three(1,2) cap sample_three(3) known run] ok show ?thesis by simp
qed

subsection \<open>The limit on completed traces\<close>

lemma completed_count_fold_mark_pruned:
  "wf_dict (tt_nodes t) \<Longrightarrow> get_completed_count (fold mark_pruned rids t) = get_completed_count t"
proof (induction rids arbitrary: t)
  case (Cons rid rids)
  have "get_completed_count (mark_pruned rid t) = get_completed_count t"
    unfolding get_completed_count_def mark_pruned_def by (simp, rule dcount_dmodify_same) (use Cons.prems in auto)
  with Cons show ?case by simp
qed simp

lemma no_active_count:
  assumes "wf_dict (tt_nodes t)" and "\<And>k n. map_of (tt_nodes t) k = Some n \<Longrightarrow> \<not> nd_is_active n"
  shows "get_active_count t = 0"
proof -
  have "\<not> nd_is_active n" if "(k, n) \<in> set (tt_nodes t)" for k n
    using that assms(2) [of k n] by (simp add: in_set_wf_dict [OF assms(1)])
  then have "\<not> 0 < dcount nd_is_active (tt_nodes t)" unfolding dcount_pos_iff by force
  then show ?thesis by (simp add: get_active_count_def)
qed


definition sample_done :: engine where
  "sample_done = sample_three\<lparr>en_config := sample_config\<lparr>gc_stop_after_completed_traces := 1\<rparr>,
     en_trace_tree := Some (mark_completed ''b_1'' None None None None None (sample_tree [''a_1'', ''b_1'', ''c_1'']))\<rparr>"


subsection \<open>The contents of a branch\<close>

text \<open>C12: branching. When a branch is created, the parent was an active trace of the tree with a request in the scheduler and
  there was room under the capacity. The child has a fresh id, is an active child of its parent one level deeper with the
  parent's score history, and adds exactly one active trace to a well-formed tree. Its request holds exactly the parent's
  tokens as prompt and nothing computed, its token counter starts at zero, and its output buffer continues the parent's.\<close>

theorem create_branch_correct:
  assumes tree: "en_trace_tree e = Some t" and inv: "tree_inv t"
    and run: "gambit_create_branch ev p e = Inr (True, e')" and c: "c = generate_branch_id p t"
  shows "\<exists>par r t' node child.
    map_of (tt_nodes t) p = Some par \<and> nd_is_active par \<and> get_active_count t < tt_max_traces t \<and>
    map_of (sc_requests (en_scheduler e)) p = Some r \<and> \<not> tree_contains t c \<and>
    en_trace_tree e' = Some t' \<and> tree_inv t' \<and> get_active_count t' = get_active_count t + 1 \<and>
    map_of (tt_nodes t') c = Some node \<and> nd_parent_id node = Some p \<and> nd_is_active node \<and>
    nd_branch_depth node = nd_branch_depth par + 1 \<and> nd_score_history node = nd_score_history par \<and>
    map_of (sc_requests (en_scheduler e')) c = Some child \<and> rq_all_token_ids child = rq_all_token_ids r \<and>
    rq_num_computed_tokens child = 0 \<and> rq_output_token_ids child = [] \<and> \<not> is_finished child \<and>
    tokens_since_branch e' c = 0 \<and> dget_or (en_output_token_ids e') c [] = dget_or (en_output_token_ids e) p []"
  using tree inv run
proof (cases rule: create_branch_cases)
  case (created par r child s t1)
  let ?l = "int (length (dget_or (en_output_token_ids e) p []))"
  note add = add_branch_Some [OF created(2), of c ?l]
  have t1: "t1 = snd (add_branch p c ?l t)" using created(6) c by simp
  have gates: "nd_is_active par" "get_active_count t < tt_max_traces t"
    using created(2,3) by (auto simp: can_trace_branch_def can_branch_def split: if_splits)
  have fresh: "\<not> tree_contains t c" unfolding c by (rule fresh_branch_id [OF inv])
  have inv1: "tree_inv t1" unfolding t1 c by (rule tree_inv_add_branch [OF inv created(2)])
  have cnt: "get_active_count t1 = get_active_count t + 1" unfolding t1 by (rule active_count_add_branch [OF inv created(2) fresh])
  have node: "map_of (tt_nodes t1) c = Some (new_node c (Some p) (nd_branch_depth par + 1) (tt_current_step t) ?l (nd_score_history par))"
    using add(2) t1 by (simp add: dict_simps)
  note child = child_request_shape [OF created(7), folded c]
  have req: "map_of (sc_requests s) c = Some child" using add_request_Inr(1) [OF created(8), of c] child(1) by simp
  have e': "en_trace_tree e' = Some t1" "en_scheduler e' = s" "tokens_since_branch e' c = 0"
    "dget_or (en_output_token_ids e') c [] = dget_or (en_output_token_ids e) p []"
    using created(9) by (simp_all add: init_child_counters_def c dict_simps)
  show ?thesis
    by (rule exI [of _ par], rule exI [of _ r], rule exI [of _ t1], rule exI [of _ "new_node c (Some p) (nd_branch_depth par + 1) (tt_current_step t) ?l (nd_score_history par)"],
        rule exI [of _ child], unfold e', intro conjI)
      (use created(2,5) gates fresh inv1 cnt node req child in \<open>simp_all add: new_node_def\<close>)
qed simp_all

theorem create_branch_correct_witness:
  "\<exists>child. map_of (sc_requests (en_scheduler (snd (projr (gambit_create_branch sample_env ''a_1'' (sample_engine [''a_1''])))))) ''gambit_0_a_1'' = Some child
     \<and> rq_all_token_ids child = [1, 2]"
proof -
  let ?e = "sample_engine [''a_1'']" let ?r = "gambit_create_branch sample_env ''a_1'' ?e"
  have "?r = Inr (projr ?r)" by (rule Inr_projr) code_simp
  moreover have "fst (projr ?r)" by code_simp
  ultimately have run: "?r = Inr (True, snd (projr ?r))" by (metis (full_types) prod.collapse)
  have inv: "tree_inv (sample_tree [''a_1''])" by (simp add: sample_tree_inv external_id_def)
  have id: "''gambit_0_a_1'' = generate_branch_id ''a_1'' (sample_tree [''a_1''])" by code_simp
  have req: "map_of (sc_requests (en_scheduler ?e)) ''a_1'' = Some (sample_request ''a_1'' [1, 2])"
    by (simp add: sample_engine_def init_engine_def sample_scheduler_def)
  from create_branch_correct [OF sample_engine_tree inv run id] req show ?thesis by auto
qed

end
