(* ===== verification/Engine_Step.thy ===== *)
theory Engine_Step
  imports Gambit_Tournament
begin

text \<open>
  \<open>EngineCore.step\<close> of \<open>vllm/v1/engine/core.py\<close> and the operations around it: adding and aborting
  requests, scoring, the trigger that marks a trace for scoring, the forced end of pruned traces, the
  final scores, the export and the reset between questions.
\<close>

subsection \<open>Requests\<close>

definition engine_add_request :: "env \<Rightarrow> request \<Rightarrow> engine \<Rightarrow> engine result" where
  "engine_add_request ev r e =
     ebind (case rq_pooling_params r of
              Some task \<Rightarrow> if task \<in> set (ev_pooling_tasks ev) then Inr () else Inl ValueError
            | None \<Rightarrow> Inr ()) (\<lambda>_.
     ebind (add_request r (en_scheduler e)) (\<lambda>s.
       let e1 = e\<lparr>en_scheduler := s\<rparr>; rid = rq_request_id r in
       case en_trace_tree e1 of
         None \<Rightarrow> Inr e1
       | Some t \<Rightarrow>
           if \<not> en_gambit_enabled e1 then Inr e1
           else
           let e2 = e1\<lparr>en_output_token_ids := dsetdefault (en_output_token_ids e1) rid []\<rparr>
           in Inr (if \<not> tree_contains t rid \<and> CHR ''_'' \<in> set rid \<and> \<not> prefix ''gambit_'' rid
                   then e2\<lparr>en_trace_tree := Some (add_root rid t)\<rparr> else e2)))"

definition abort_requests :: "reqid list \<Rightarrow> engine \<Rightarrow> engine result" where
  "abort_requests ids e =
     ebind (finish_requests ids FINISHED_ABORTED (en_scheduler e)) (\<lambda>s. Inr (e\<lparr>en_scheduler := s\<rparr>))"

subsection \<open>Scores\<close>

text \<open>The payloads of all workers are read into one dictionary of new scores per request. A dictionary
  payload that was not asked for ends in \<open>TypeError\<close> when the scores are summed.\<close>

datatype new_scores = Scalar score | Batch "score list"

fun collect_scores :: "bool \<Rightarrow> (reqid \<times> payload) list \<Rightarrow> (reqid, new_scores) dict \<Rightarrow> engine \<Rightarrow>
    ((reqid, new_scores) dict \<times> engine) result" where
  "collect_scores hidden [] scores e = Inr (scores, e)"
| "collect_scores hidden ((rid, p) # ps) scores e =
     (case p of
        P_Score x \<Rightarrow> collect_scores hidden ps (AList.update rid (Scalar x) scores) e
      | P_Scores xs \<Rightarrow> collect_scores hidden ps (AList.update rid (Batch xs) scores) e
      | P_Hidden xs hs \<Rightarrow>
          if hidden then collect_scores hidden ps (AList.update rid (Batch xs) scores)
            (case hs of None \<Rightarrow> e
             | Some h \<Rightarrow> e\<lparr>en_trace_hidden_state_last := AList.update rid h (en_trace_hidden_state_last e)\<rparr>)
          else Inl TypeError)"

fun score_values :: "new_scores \<Rightarrow> score list" where
  "score_values (Scalar x) = [x]"
| "score_values (Batch xs) = xs"

definition record_new_scores :: "reqid \<times> new_scores \<Rightarrow> engine \<Rightarrow> engine" where
  "record_new_scores = (\<lambda>(rid, sc) e.
     let xs = score_values sc in
     if gc_record_score_history (en_config e) then
       e\<lparr>en_trace_scores := AList.update rid (dget_or (en_trace_scores e) rid [] @ xs) (en_trace_scores e)\<rparr>
     else if xs \<noteq> [] then
       e\<lparr>en_trace_score_sums := AList.update rid (dget_or (en_trace_score_sums e) rid 0 + sum_list xs) (en_trace_score_sums e),
         en_trace_score_counts := AList.update rid (dget_or (en_trace_score_counts e) rid 0 + int (length xs)) (en_trace_score_counts e)\<rparr>
     else e)"

text \<open>The average per trace: the mean of the history, or the running sum over the running count.\<close>

definition aggregate_scores :: "engine \<Rightarrow> (reqid, score) dict" where
  "aggregate_scores e =
     (if gc_record_score_history (en_config e)
      then map (\<lambda>(rid, buf). (rid, mean buf)) (filter (\<lambda>(_, buf). buf \<noteq> []) (en_trace_scores e))
      else map (\<lambda>(rid, c). (rid, dget_or (en_trace_score_sums e) rid 0 / of_int c))
             (filter (\<lambda>(_, c). c > 0) (en_trace_score_counts e)))"

text \<open>Consuming the result of a scorer call; \<open>classified\<close> are the requests that no longer wait for one,
  dropped when there is any score.\<close>

definition apply_scores :: "env \<Rightarrow> bool \<Rightarrow> worker_payloads \<Rightarrow> ((reqid, new_scores) dict \<Rightarrow> reqid set) \<Rightarrow> engine \<Rightarrow> engine result" where
  "apply_scores ev hidden workers classified e =
     ebind (collect_scores hidden (concat workers) [] e) (\<lambda>(scores, e1).
       let e2 = fold record_new_scores scores e1;
           e3 = (if scores \<noteq> [] then
                   e2\<lparr>en_pending_hs_classification := en_pending_hs_classification e2 - classified scores\<rparr> else e2);
           avg = aggregate_scores e3;
           e4 = (if avg \<noteq> [] then e3\<lparr>en_scheduler := update_trace_scores avg (en_scheduler e3)\<rparr> else e3)
       in if en_gambit_enabled e4 \<and> avg \<noteq> [] then gambit_decision_step ev avg e4 else Inr e4)"

definition consume_async :: "env \<Rightarrow> engine \<Rightarrow> engine result" where
  "consume_async ev e =
     (case en_async_scorer_future e of
        None \<Rightarrow> Inr e
      | Some workers \<Rightarrow>
          if en_async_scorer_enabled e then
            apply_scores ev (fst (en_async_scorer_meta e)) workers (\<lambda>_. snd (en_async_scorer_meta e))
              (e\<lparr>en_async_scorer_future := None\<rparr>)
          else Inr e)"

definition score_pending :: "env \<Rightarrow> (reqid, int) dict \<Rightarrow> engine \<Rightarrow> engine result" where
  "score_pending ev num_scheduled e =
     (let ns = filter (\<lambda>(rid, _). rid \<in> en_pending_hs_classification e) num_scheduled;
          hidden = gc_collect_hidden_states_for_mining (en_config e)
      in if ns = [] then Inr e
         else if en_async_scorer_enabled e then
           Inr (e\<lparr>en_async_scorer_future := Some (ev_scorer ev ns),
                  en_async_scorer_meta := (hidden, keyset ns)\<rparr>)
         else apply_scores ev hidden (ev_scorer ev ns) keyset e)"

subsection \<open>The scoring trigger\<close>

definition sampled_at :: "model_runner_output \<Rightarrow> nat \<Rightarrow> token list result" where
  "sampled_at mo i = (if i < length (mo_sampled_token_ids mo) then Inr (mo_sampled_token_ids mo ! i) else Inl IndexError)"

definition trigger_one :: "reqid \<Rightarrow> token list \<Rightarrow> engine \<Rightarrow> bool \<times> engine" where
  "trigger_one rid sampled e =
     (let total = tokens_since_branch e rid + int (length sampled);
          e1 = e\<lparr>en_trace_token_counts := AList.update rid total (en_trace_token_counts e)\<rparr>;
          stride = gc_scoring_stride (en_config e)
      in if stride > 0 then
           (if total - dget_or (en_stride_last_trigger e) rid 0 \<ge> stride
            then (True, e1\<lparr>en_stride_last_trigger := AList.update rid total (en_stride_last_trigger e)\<rparr>)
            else (False, e1))
         else (case gc_double_new_line_tokenID (en_config e) of
                 None \<Rightarrow> False | Some ids \<Rightarrow> (\<exists>tok \<in> set sampled. tok \<in> set ids), e1))"

fun trigger_loop :: "model_runner_output \<Rightarrow> (reqid \<times> nat) list \<Rightarrow> reqid list \<Rightarrow> engine \<Rightarrow> (reqid list \<times> engine) result" where
  "trigger_loop mo [] acc e = Inr (acc, e)"
| "trigger_loop mo ((rid, i) # xs) acc e =
     ebind (sampled_at mo i) (\<lambda>sampled.
       case trigger_one rid sampled e of (hit, e1) \<Rightarrow> trigger_loop mo xs (if hit then acc @ [rid] else acc) e1)"

definition detect_triggers :: "model_runner_output \<Rightarrow> engine \<Rightarrow> engine result" where
  "detect_triggers mo e =
     ebind (trigger_loop mo (mo_req_id_to_index mo) [] e) (\<lambda>(ids, e1).
       Inr (e1\<lparr>en_pending_hs_classification := en_pending_hs_classification e1 \<union> set ids\<rparr>))"

subsection \<open>The forced end of pruned traces\<close>

fun eos_loop :: "scheduler \<Rightarrow> reqid list \<Rightarrow> model_runner_output \<Rightarrow> model_runner_output result" where
  "eos_loop s [] mo = Inr mo"
| "eos_loop s (rid # rids) mo =
     (case map_of (mo_req_id_to_index mo) rid of
        None \<Rightarrow> eos_loop s rids mo
      | Some i \<Rightarrow>
          (case map_of (sc_requests s) rid of
             None \<Rightarrow> eos_loop s rids mo
           | Some r \<Rightarrow>
               (case rq_eos_token_id r of
                  None \<Rightarrow> eos_loop s rids mo
                | Some eos \<Rightarrow>
                    if i < length (mo_sampled_token_ids mo)
                    then eos_loop s rids (mo\<lparr>mo_sampled_token_ids := (mo_sampled_token_ids mo)[i := [eos]]\<rparr>)
                    else Inl IndexError)))"

definition insert_eos :: "reqid list \<Rightarrow> string \<Rightarrow> model_runner_output \<Rightarrow> scheduler \<Rightarrow> (model_runner_output \<times> scheduler) result" where
  "insert_eos ids reason mo s =
     (let s1 = (if reason \<noteq> [] then mark_stop_reason ids reason s else s)
      in ebind (eos_loop s1 ids mo) (\<lambda>mo1. Inr (mo1, s1)))"

text \<open>The order in which the pending set is iterated does not matter, since each id has its own slot; the
  model takes the order of the batch.\<close>

definition inject_eos :: "model_runner_output \<Rightarrow> engine \<Rightarrow> (model_runner_output \<times> engine) result" where
  "inject_eos mo e =
     (let prune_ids = filter (\<lambda>rid. rid \<in> en_pending_low_score_stops e) (dkeys (mo_req_id_to_index mo)) in
      ebind (if prune_ids = [] then Inr (mo, en_scheduler e)
             else insert_eos prune_ids ''gambit_pruned'' mo (en_scheduler e)) (\<lambda>(mo1, s1).
        let e1 = e\<lparr>en_scheduler := s1, en_pending_low_score_stops := en_pending_low_score_stops e - set prune_ids\<rparr>;
            force_ids = filter (\<lambda>rid. rid \<in> en_pending_force_stops e) (dkeys (mo_req_id_to_index mo))
        in ebind (if force_ids = [] then Inr (mo1, s1)
                  else insert_eos force_ids ''gambit_stop_after_completed'' mo1 s1) (\<lambda>(mo2, s2).
             Inr (mo2, e1\<lparr>en_scheduler := s2, en_pending_force_stops := en_pending_force_stops e - set force_ids\<rparr>))))"

fun capture_tokens :: "model_runner_output \<Rightarrow> (reqid \<times> nat) list \<Rightarrow> engine \<Rightarrow> engine result" where
  "capture_tokens mo [] e = Inr e"
| "capture_tokens mo ((rid, i) # xs) e =
     ebind (sampled_at mo i) (\<lambda>sampled.
       capture_tokens mo xs (if sampled = [] then e
         else e\<lparr>en_output_token_ids := AList.update rid (dget_or (en_output_token_ids e) rid [] @ sampled) (en_output_token_ids e)\<rparr>))"

subsection \<open>Finished requests\<close>

definition gambit_on_request_finished :: "reqid \<Rightarrow> score option \<Rightarrow> token list option \<Rightarrow> engine \<Rightarrow> engine" where
  "gambit_on_request_finished rid final_score out_ids e =
     (case en_trace_tree e of
        None \<Rightarrow> e
      | Some t0 \<Rightarrow>
          let t = (if tree_contains t0 rid then t0 else add_root rid t0) in
          case get_node rid t of
            None \<Rightarrow> e
          | Some node \<Rightarrow>
              let (ids, fin, stop) =
                    (case map_of (sc_requests (en_scheduler e)) rid of
                       None \<Rightarrow> (out_ids, None, None)
                     | Some r \<Rightarrow> (Some (rq_output_token_ids r), Some (status_name (rq_status r)), rq_stop_reason r))
              in e\<lparr>en_trace_tree := Some (
                   if nd_is_pruned node
                   then t\<lparr>tt_nodes := dmodify rid (set_output None ids fin stop final_score) (tt_nodes t)\<rparr>
                   else mark_completed rid None ids fin stop final_score t)\<rparr>)"

definition final_average :: "reqid \<Rightarrow> engine \<Rightarrow> score option" where
  "final_average rid e =
     (if gc_enable (en_config e) \<and> \<not> gc_record_score_history (en_config e) then
        let c = dget_or (en_trace_score_counts e) rid 0; s = dget_or (en_trace_score_sums e) rid 0
        in if c > 0 then Some (s / of_int c) else None
      else let scores = dget_or (en_trace_scores e) rid []
           in if scores \<noteq> [] then Some (mean scores) else None)"

definition finalize_one :: "reqid \<Rightarrow> engine \<Rightarrow> engine" where
  "finalize_one rid e =
     (let final_avg = final_average rid e;
          e1 = e\<lparr>en_final_trace_scores := AList.update rid final_avg (en_final_trace_scores e),
                 en_trace_scores := AList.delete rid (en_trace_scores e),
                 en_trace_score_sums := AList.delete rid (en_trace_score_sums e),
                 en_trace_score_counts := AList.delete rid (en_trace_score_counts e),
                 en_pending_low_score_stops := en_pending_low_score_stops e - {rid},
                 en_pending_force_stops := en_pending_force_stops e - {rid},
                 en_trace_token_counts := AList.delete rid (en_trace_token_counts e),
                 en_stride_last_trigger := AList.delete rid (en_stride_last_trigger e)\<rparr>
      in if en_gambit_enabled e1 then
           gambit_on_request_finished rid final_avg (map_of (en_output_token_ids e1) rid)
             (e1\<lparr>en_output_token_ids := AList.delete rid (en_output_token_ids e1)\<rparr>)
         else e1)"

definition finalize_scores :: "reqid list \<Rightarrow> engine \<Rightarrow> engine" where
  "finalize_scores = fold finalize_one"

definition attach_final_scores :: "(reqid, score option) dict \<Rightarrow> (int, engine_core_outputs) dict \<Rightarrow> (int, engine_core_outputs) dict" where
  "attach_final_scores finals outs =
     map (\<lambda>(ci, eco). (ci, eco\<lparr>eos_outputs := map (\<lambda>out.
        if eo_finish_reason out \<noteq> None \<and> eo_final_score out = None
        then out\<lparr>eo_final_score := dget_or finals (eo_request_id out) None\<rparr> else out) (eos_outputs eco)\<rparr>)) outs"

subsection \<open>Export and reset\<close>

record gambit_export =
  gx_tree :: tree_export
  gx_hidden_states :: "(reqid, score list) dict"
  gx_scheduler_active_count :: nat

definition get_gambit_tree_export :: "engine \<Rightarrow> gambit_export option" where
  "get_gambit_tree_export e =
     (case en_trace_tree e of
        None \<Rightarrow> None
      | Some t \<Rightarrow>
          if \<not> en_gambit_enabled e then None
          else Some \<lparr>gx_tree = export_tree t,
            gx_hidden_states = (if gc_collect_hidden_states_for_mining (en_config e)
              then filter (\<lambda>(rid, _). tree_contains t rid) (en_trace_hidden_state_last e) else []),
            gx_scheduler_active_count = queue_len (sc_waiting (en_scheduler e)) + length (sc_running (en_scheduler e))\<rparr>)"

definition reset_gambit_state :: "engine \<Rightarrow> engine" where
  "reset_gambit_state e =
     (if \<not> en_gambit_enabled e then e
      else if queue_len (sc_waiting (en_scheduler e)) + length (sc_running (en_scheduler e)) > 0 then e
      else e\<lparr>en_trace_tree := Some (init_trace_tree (en_config e)),
             en_output_token_ids := [], en_seq_hs_to_clear := [], en_seq_hs_to_copy := [],
             en_trace_scores := [], en_trace_score_sums := [], en_trace_score_counts := [],
             en_final_trace_scores := [], en_pending_low_score_stops := {}, en_pending_force_stops := {},
             en_trace_token_counts := [], en_stride_last_trigger := [], en_pending_hs_classification := {},
             en_trace_hidden_state_last := [], en_tournament_step_counter := 0,
             en_tournament_last_round_step := -1\<rparr>)"

subsection \<open>One step\<close>

record step_output =
  stp_outputs :: "(int, engine_core_outputs) dict"
  stp_export :: "gambit_export option"
  stp_executed :: bool

text \<open>With no request left in the scheduler, active traces that remain in the tree are marked pruned.\<close>

definition has_requests :: "scheduler \<Rightarrow> bool" where
  "has_requests s \<longleftrightarrow> get_num_unfinished_requests s > 0 \<or> has_finished_requests s"

definition drain_leftovers :: "engine \<Rightarrow> engine" where
  "drain_leftovers e =
     (case en_trace_tree e of
        None \<Rightarrow> e
      | Some t \<Rightarrow>
          if \<not> en_gambit_enabled e then e
          else
          let active_left = map fst (filter (\<lambda>(_, n). nd_is_active n) (tt_nodes t))
          in e\<lparr>en_trace_tree := Some (fold mark_pruned active_left t),
               en_pending_force_stops := en_pending_force_stops e - set active_left,
               en_pending_low_score_stops := en_pending_low_score_stops e - set active_left\<rparr>)"

text \<open>The scoring half of a step, after the forward pass.\<close>

definition gambit_after_forward :: "env \<Rightarrow> scheduler_output \<Rightarrow> model_runner_output \<Rightarrow> engine \<Rightarrow> (model_runner_output \<times> engine) result" where
  "gambit_after_forward ev so mo e =
     (if \<not> gc_enable (en_config e) then Inr (mo, e)
      else
      ebind (consume_async ev e) (\<lambda>e1.
      ebind (score_pending ev (so_num_scheduled_tokens so) e1) (\<lambda>e2.
        let e3 = e2\<lparr>en_pending_hs_classification :=
                      en_pending_hs_classification e2 - sc_finished_req_ids (en_scheduler e2)\<rparr>
        in ebind (detect_triggers mo e3) (\<lambda>e4.
             if en_gambit_enabled e4 then inject_eos mo e4 else Inr (mo, e4)))))"

definition finish_step :: "env \<Rightarrow> scheduler_output \<Rightarrow> model_runner_output \<Rightarrow> engine \<Rightarrow> (step_output \<times> engine) result" where
  "finish_step ev so mo e =
     (let hists = (if gc_enable (en_config e) \<and> gc_record_score_history (en_config e) then Some (en_trace_scores e) else None)
      in ebind (update_from_output (ev_hasher ev) so mo (Some (en_final_trace_scores e)) hists (en_scheduler e)) (\<lambda>(outs, s).
           let finished = sc_finished_req_ids s;
               e0 = e\<lparr>en_scheduler := s\<rparr>;
               e1 = (if finished \<noteq> {} then finalize_scores (ev_set_order ev finished) e0 else e0);
               outs1 = (if en_final_trace_scores e1 \<noteq> [] then attach_final_scores (en_final_trace_scores e1) outs else outs);
               export = (if en_gambit_enabled e1 \<and> finished \<noteq> {} then get_gambit_tree_export e1 else None)
           in Inr (\<lparr>stp_outputs = outs1, stp_export = export, stp_executed = (so_total_num_scheduled_tokens so > 0)\<rparr>, e1)))"

definition engine_step :: "env \<Rightarrow> engine \<Rightarrow> (step_output \<times> engine) result" where
  "engine_step ev e =
     (if \<not> has_requests (en_scheduler e) then
        Inr (\<lparr>stp_outputs = [], stp_export = None, stp_executed = False\<rparr>, drain_leftovers e)
      else
      ebind (schedule (ev_int_hashes ev) (ev_fsm ev) (en_scheduler e)) (\<lambda>(so, s).
        let mo = ev_forward ev so; e1 = e\<lparr>en_scheduler := s\<rparr> in
        ebind (gambit_after_forward ev so mo e1) (\<lambda>(mo1, e2).
        ebind (if en_gambit_enabled e2 then capture_tokens mo1 (mo_req_id_to_index mo1) e2 else Inr e2)
          (finish_step ev so mo1))))"

text \<open>\<open>post_step\<close> with the draft tokens that the executor returns.\<close>

definition post_step :: "bool \<Rightarrow> (reqid \<times> token list) list option \<Rightarrow> bool \<Rightarrow> engine \<Rightarrow> engine" where
  "post_step use_spec_decode drafts model_executed e =
     (if use_spec_decode \<and> model_executed then
        (case drafts of None \<Rightarrow> e | Some ds \<Rightarrow> e\<lparr>en_scheduler := update_draft_token_ids ds (en_scheduler e)\<rparr>)
      else e)"

end
