(* ===== verification/Engine_Props.thy ===== *)
theory Engine_Props
  imports Engine_Step
begin

text \<open>
  Properties of the engine core: the two representations of trace scores agree, scoring is rate-limited by the
  stride, a pruned trace is stopped by the injected end-of-sequence token and never counts as completed, the
  bookkeeping of a finished request is dropped, an idle engine has no active traces, and the reset
  between questions restores the initial state up to the asynchronous scorer.
\<close>

subsection \<open>Score aggregation\<close>

text \<open>The engine either keeps all scores of a trace or a running sum and count. \<open>scores_match h s\<close>: the
  second representation summarises the first.\<close>

definition scores_match :: "engine \<Rightarrow> engine \<Rightarrow> bool" where
  "scores_match h s \<longleftrightarrow>
     wf_dict (en_trace_scores h) \<and> wf_dict (en_trace_score_counts s) \<and>
     (\<forall>rid. dget_or (en_trace_score_sums s) rid 0 = sum_list (dget_or (en_trace_scores h) rid []) \<and>
            dget_or (en_trace_score_counts s) rid 0 = int (length (dget_or (en_trace_scores h) rid [])))"

lemma record_new_scores_frame [simp]: "en_config (record_new_scores x e) = en_config e"
  by (simp add: record_new_scores_def Let_def case_prod_beta)

lemma fold_record_frame [simp]: "en_config (fold record_new_scores xs e) = en_config e"
  by (induction xs arbitrary: e) simp_all

lemma record_keeps_match:
  assumes "gc_record_score_history (en_config h)" and "\<not> gc_record_score_history (en_config s)" and "scores_match h s"
  shows "scores_match (record_new_scores x h) (record_new_scores x s)"
proof -
  obtain rid sc where x: "x = (rid, sc)" by (cases x)
  show ?thesis
  proof (cases "score_values sc = []")
    case True
    have "dget_or (AList.update rid (dget_or d rid []) d) k [] = dget_or d k []" for d :: "(reqid, score list) dict" and k
      by (simp add: dict_simps)
    with assms True x show ?thesis by (simp add: scores_match_def record_new_scores_def)
  next
    case False
    with assms x show ?thesis by (simp add: scores_match_def record_new_scores_def Let_def dict_simps)
  qed
qed

lemma fold_record_keeps_match:
  "gc_record_score_history (en_config h) \<Longrightarrow> \<not> gc_record_score_history (en_config s) \<Longrightarrow> scores_match h s \<Longrightarrow>
     scores_match (fold record_new_scores xs h) (fold record_new_scores xs s)"
  by (induction xs arbitrary: h s) (simp_all add: record_keeps_match)

lemma map_of_map_filter:
  "wf_dict d \<Longrightarrow> map_of (map (\<lambda>(k, v). (k, f k v)) (filter (\<lambda>(k, v). P v) d)) k =
     (case map_of d k of None \<Rightarrow> None | Some v \<Rightarrow> if P v then Some (f k v) else None)"
proof (induction d)
  case (Cons x d)
  obtain j v where x: "x = (j, v)" by (cases x)
  with Cons.prems have "j \<notin> keyset d" by simp
  then have "map_of d j = None" by (simp add: map_of_None_iff)
  with Cons x show ?case by (cases "k = j") (simp_all split: option.splits)
qed simp

lemma aggregate_lookup:
  assumes "gc_record_score_history (en_config h)" and "\<not> gc_record_score_history (en_config s)" and "scores_match h s"
  shows "map_of (aggregate_scores h) rid = map_of (aggregate_scores s) rid"
proof -
  let ?buf = "dget_or (en_trace_scores h) rid []" let ?c = "dget_or (en_trace_score_counts s) rid 0"
  have wf: "wf_dict (en_trace_scores h)" "wf_dict (en_trace_score_counts s)" using assms(3) by (simp_all add: scores_match_def)
  have h: "map_of (aggregate_scores h) rid = (if ?buf \<noteq> [] then Some (mean ?buf) else None)"
    using map_of_map_filter [OF wf(1), of "\<lambda>_. mean" "\<lambda>buf. buf \<noteq> []" rid] assms(1)
    by (simp add: aggregate_scores_def dget_or_def split: option.splits)
  have "map_of (aggregate_scores s) rid = (case map_of (en_trace_score_counts s) rid of None \<Rightarrow> None
      | Some c \<Rightarrow> if c > 0 then Some (dget_or (en_trace_score_sums s) rid 0 / of_int c) else None)"
    using map_of_map_filter [OF wf(2), of "\<lambda>rid c. dget_or (en_trace_score_sums s) rid 0 / of_int c" "\<lambda>c. c > 0" rid] assms(2)
    by (simp add: aggregate_scores_def)
  then have s: "map_of (aggregate_scores s) rid = (if ?c > 0 then Some (dget_or (en_trace_score_sums s) rid 0 / of_int ?c) else None)"
    by (simp add: dget_or_def [of "en_trace_score_counts s"] split: option.splits)
  show ?thesis unfolding h s using assms(3) by (simp add: scores_match_def mean_def)
qed



subsection \<open>The rate of scoring\<close>

text \<open>The trigger of one trace over a sequence of steps, with the tokens that each step samples.\<close>

fun trigger_run :: "reqid \<Rightarrow> token list list \<Rightarrow> engine \<Rightarrow> nat \<times> engine" where
  "trigger_run rid [] e = (0, e)"
| "trigger_run rid (b # bs) e =
     (case trigger_one rid b e of (hit, e1) \<Rightarrow>
        (case trigger_run rid bs e1 of (n, e2) \<Rightarrow> ((if hit then 1 else 0) + n, e2)))"

lemma trigger_one_stride:
  assumes "gc_scoring_stride (en_config e) = stride" and "stride > 0" and "trigger_one rid b e = (hit, e')"
  shows "gc_scoring_stride (en_config e') = stride"
    and "tokens_since_branch e' rid = tokens_since_branch e rid + int (length b)"
    and "dget_or (en_stride_last_trigger e') rid 0 =
      (if hit then tokens_since_branch e' rid else dget_or (en_stride_last_trigger e) rid 0)"
    and "hit \<longleftrightarrow> tokens_since_branch e' rid - dget_or (en_stride_last_trigger e) rid 0 \<ge> stride"
  using assms by (auto simp: trigger_one_def Let_def dict_simps split: if_splits)

text \<open>Rate of scoring. With a scoring stride, however the sampled tokens are cut into steps, a trace is marked for scoring at
  most once per stride of new tokens, and the tokens generated since the last mark stay below one stride.\<close>

lemma scoring_rate_bounded:
  assumes "gc_scoring_stride (en_config e) = stride" and "stride > 0" and "trigger_run rid bs e = (n, e')"
    and "pending = tokens_since_branch e rid - dget_or (en_stride_last_trigger e) rid 0" and "0 \<le> pending" and "pending < stride"
  shows "stride * int n \<le> pending + int (length (concat bs)) \<and>
    tokens_since_branch e' rid - dget_or (en_stride_last_trigger e') rid 0 < stride"
  using assms
proof (induction bs arbitrary: e n pending)
  case (Cons b bs)
  obtain hit e1 m where e1: "trigger_one rid b e = (hit, e1)" and rest: "trigger_run rid bs e1 = (m, e')"
    and n: "n = (if hit then 1 else 0) + m"
    using Cons.prems(3) by (auto split: prod.splits)
  note one = trigger_one_stride [OF Cons.prems(1,2) e1]
  let ?pending = "tokens_since_branch e1 rid - dget_or (en_stride_last_trigger e1) rid 0"
  have p: "?pending = (if hit then 0 else pending + int (length b))" using one(2,3) Cons.prems(4) by simp
  have "0 \<le> ?pending" "?pending < stride" using p one Cons.prems(2,4,5) by (auto split: if_splits)
  from Cons.IH [OF one(1) Cons.prems(2) rest refl this]
  have ih: "stride * int m \<le> ?pending + int (length (concat bs))"
    "tokens_since_branch e' rid - dget_or (en_stride_last_trigger e') rid 0 < stride" by simp_all
  show ?case
  proof (cases hit)
    case True
    with one Cons.prems(4) have "stride \<le> pending + int (length b)" by simp
    with ih p True n show ?thesis by (simp add: algebra_simps)
  next
    case False
    with ih p n show ?thesis by simp
  qed
qed simp

subsection \<open>Forced stops\<close>

lemma mark_stop_reason_lookup:
  "map_of (sc_requests (mark_stop_reason ids reason s)) rid =
     map_option (\<lambda>r. if rid \<in> set ids \<and> \<not> is_finished r then r\<lparr>rq_stop_reason := Some (StopText reason)\<rparr> else r)
       (map_of (sc_requests s) rid)"
proof (induction ids arbitrary: s)
  case Nil
  show ?case by (simp add: mark_stop_reason_def option.map_ident)
next
  case (Cons i ids)
  let ?s1 = "upd_req i (\<lambda>r. if is_finished r then r else r\<lparr>rq_stop_reason := Some (StopText reason)\<rparr>) s"
  have "mark_stop_reason (i # ids) reason s = mark_stop_reason ids reason ?s1" by (simp add: mark_stop_reason_def)
  moreover have "map_of (sc_requests ?s1) rid = (if rid = i
      then map_option (\<lambda>r. if is_finished r then r else r\<lparr>rq_stop_reason := Some (StopText reason)\<rparr>) (map_of (sc_requests s) rid)
      else map_of (sc_requests s) rid)" by (simp add: upd_req_def dict_simps)
  ultimately show ?case
    by (cases "map_of (sc_requests s) rid") (auto simp: Cons.IH is_finished_def)
qed

lemma mark_stop_reason_frame [simp]:
  "sc_running (mark_stop_reason ids reason s) = sc_running s" "sc_max_model_len (mark_stop_reason ids reason s) = sc_max_model_len s"
  unfolding mark_stop_reason_def by (induction ids arbitrary: s) (simp_all add: upd_req_def)

text \<open>Each request of a batch has its own slot.\<close>

definition batch_ok :: "model_runner_output \<Rightarrow> bool" where
  "batch_ok mo \<longleftrightarrow> (\<forall>a b i. map_of (mo_req_id_to_index mo) a = Some i \<and> map_of (mo_req_id_to_index mo) b = Some i \<longrightarrow> a = b)"

text \<open>The slots that the loop writes: the end-of-sequence token of each request in the list.\<close>

definition eos_of :: "scheduler \<Rightarrow> reqid \<Rightarrow> token option" where
  "eos_of s rid = (case map_of (sc_requests s) rid of None \<Rightarrow> None | Some r \<Rightarrow> rq_eos_token_id r)"

lemma eos_loop_result:
  assumes "eos_loop s rids mo = Inr mo'"
  shows "mo_req_id_to_index mo' = mo_req_id_to_index mo"
    and "length (mo_sampled_token_ids mo') = length (mo_sampled_token_ids mo)"
    and "batch_ok mo \<Longrightarrow>
      map_of (mo_req_id_to_index mo) rid = Some i \<Longrightarrow> i < length (mo_sampled_token_ids mo) \<Longrightarrow>
      mo_sampled_token_ids mo' ! i =
        (case eos_of s rid of Some eos \<Rightarrow> if rid \<in> set rids then [eos] else mo_sampled_token_ids mo ! i
         | None \<Rightarrow> mo_sampled_token_ids mo ! i)"
proof -
  let ?P = "\<lambda>mo rids mo'. mo_req_id_to_index mo' = mo_req_id_to_index mo \<and>
    length (mo_sampled_token_ids mo') = length (mo_sampled_token_ids mo) \<and>
    (batch_ok mo \<longrightarrow>
      map_of (mo_req_id_to_index mo) rid = Some i \<longrightarrow> i < length (mo_sampled_token_ids mo) \<longrightarrow>
      mo_sampled_token_ids mo' ! i =
        (case eos_of s rid of Some eos \<Rightarrow> if rid \<in> set rids then [eos] else mo_sampled_token_ids mo ! i
         | None \<Rightarrow> mo_sampled_token_ids mo ! i))"
  have "?P mo rids mo'" using assms
  proof (induction rids arbitrary: mo)
    case Nil
    then show ?case by (auto split: option.splits)
  next
    case (Cons r rids)
    show ?case
    proof (cases "\<exists>j eos. map_of (mo_req_id_to_index mo) r = Some j \<and> eos_of s r = Some eos")
      case False
      then have "eos_loop s rids mo = Inr mo'" using Cons.prems by (auto simp: eos_of_def split: option.splits)
      from Cons.IH [OF this] False show ?thesis by (auto split: option.splits)
    next
      case True
      then obtain j eos where j: "map_of (mo_req_id_to_index mo) r = Some j" "eos_of s r = Some eos" by blast
      let ?mo1 = "mo\<lparr>mo_sampled_token_ids := (mo_sampled_token_ids mo)[j := [eos]]\<rparr>"
      from Cons.prems j have "j < length (mo_sampled_token_ids mo)" "eos_loop s rids ?mo1 = Inr mo'"
        by (auto simp: eos_of_def split: option.splits if_splits)
      moreover have "j = i \<Longrightarrow> r = rid" if "batch_ok mo" "map_of (mo_req_id_to_index mo) rid = Some i"
        using that j(1) unfolding batch_ok_def by blast
      moreover have "batch_ok ?mo1 = batch_ok mo" by (simp add: batch_ok_def)
      ultimately show ?thesis using Cons.IH [of ?mo1] j
        by (cases "j = i") (auto simp: nth_list_update split: option.splits)
    qed
  qed
  then show "mo_req_id_to_index mo' = mo_req_id_to_index mo" "length (mo_sampled_token_ids mo') = length (mo_sampled_token_ids mo)"
    "batch_ok mo \<Longrightarrow>
      map_of (mo_req_id_to_index mo) rid = Some i \<Longrightarrow> i < length (mo_sampled_token_ids mo) \<Longrightarrow>
      mo_sampled_token_ids mo' ! i =
        (case eos_of s rid of Some eos \<Rightarrow> if rid \<in> set rids then [eos] else mo_sampled_token_ids mo ! i
         | None \<Rightarrow> mo_sampled_token_ids mo ! i)" by blast+
qed

lemma forced_eos_stops:
  assumes "rq_pooling_params r = None" and "rq_sampling_params r = Some sp" and "\<not> sp_ignore_eos sp"
    and "sp_min_tokens sp \<le> num_output_tokens r + 1" and "rq_eos_token_id r = Some eos"
  shows "update_request_with_output hasher mml r [eos] =
    Inr ([eos], True, (append_output_token_ids hasher [eos] r)\<lparr>rq_status := FINISHED_STOPPED\<rparr>)"
proof -
  let ?r = "append_output_token_ids hasher [eos] r"
  have fr: "rq_pooling_params ?r = None" "rq_sampling_params ?r = Some sp" "rq_output_token_ids ?r = rq_output_token_ids r @ [eos]"
    "rq_eos_token_id ?r = Some eos"
    using assms by (simp_all add: append_output_token_ids_def Let_def split: option.splits)
  have "\<not> num_output_tokens ?r < sp_min_tokens sp" using assms(4) fr(3) by (simp add: num_output_tokens_def)
  with fr assms(3) have "check_stop ?r mml False = Inr (True, ?r\<lparr>rq_status := FINISHED_STOPPED\<rparr>)" by (simp add: check_stop_def)
  then show ?thesis by simp
qed

lemma append_output_record [simp]:
  "rq_stop_reason (append_output_token_ids hasher toks r) = rq_stop_reason r"
  "rq_client_index (append_output_token_ids hasher toks r) = rq_client_index r"
  by (simp_all add: append_output_token_ids_def Let_def split: option.splits)

lemma eos_of_mark [simp]: "eos_of (mark_stop_reason ids reason s) rid = eos_of s rid"
  by (simp add: eos_of_def mark_stop_reason_lookup split: option.splits)

lemma insert_eos_result:
  assumes "insert_eos ids reason mo s = Inr (mo', s')" and "reason \<noteq> []" and "batch_ok mo"
    and "map_of (mo_req_id_to_index mo) rid = Some i" and "i < length (mo_sampled_token_ids mo)"
  shows "s' = mark_stop_reason ids reason s" and "mo_req_id_to_index mo' = mo_req_id_to_index mo"
    and "length (mo_sampled_token_ids mo') = length (mo_sampled_token_ids mo)" and "batch_ok mo'"
    and "mo_sampled_token_ids mo' ! i = (case eos_of s rid of Some eos \<Rightarrow> if rid \<in> set ids then [eos] else mo_sampled_token_ids mo ! i
         | None \<Rightarrow> mo_sampled_token_ids mo ! i)"
proof -
  from assms(1,2) have loop: "eos_loop (mark_stop_reason ids reason s) ids mo = Inr mo'" and s': "s' = mark_stop_reason ids reason s"
    by (auto simp: insert_eos_def Let_def ebind_eq_Inr)
  from eos_loop_result(1,2) [OF loop] eos_loop_result(3) [OF loop assms(3-5)] assms(3) s'
  show "s' = mark_stop_reason ids reason s" "mo_req_id_to_index mo' = mo_req_id_to_index mo"
    "length (mo_sampled_token_ids mo') = length (mo_sampled_token_ids mo)" "batch_ok mo'"
    "mo_sampled_token_ids mo' ! i = (case eos_of s rid of Some eos \<Rightarrow> if rid \<in> set ids then [eos] else mo_sampled_token_ids mo ! i
         | None \<Rightarrow> mo_sampled_token_ids mo ! i)"
    by (simp_all add: batch_ok_def)
qed

text \<open>What the injection leaves for a request that is pending for pruning.\<close>

lemma inject_eos_pruned:
  assumes run: "inject_eos mo e = Inr (mo', e')" and ok: "batch_ok mo"
    and pend: "rid \<in> en_pending_low_score_stops e" "rid \<notin> en_pending_force_stops e"
    and i: "map_of (mo_req_id_to_index mo) rid = Some i" "i < length (mo_sampled_token_ids mo)"
    and r: "map_of (sc_requests (en_scheduler e)) rid = Some r" "\<not> is_finished r" "rq_eos_token_id r = Some eos"
  shows "sampled_for mo' rid = Inr [eos]" and "rid \<notin> en_pending_low_score_stops e'"
    and "map_of (sc_requests (en_scheduler e')) rid = Some (r\<lparr>rq_stop_reason := Some (StopText ''gambit_pruned'')\<rparr>)"
proof -
  let ?ids = "filter (\<lambda>rid. rid \<in> en_pending_low_score_stops e) (dkeys (mo_req_id_to_index mo))"
  have mem: "rid \<in> set ?ids" using pend(1) i(1) by (auto dest: map_of_in_keys)
  then have ne: "?ids \<noteq> []" by (metis empty_iff empty_set)
  from run ne obtain mo1 s1 where ins: "insert_eos ?ids ''gambit_pruned'' mo (en_scheduler e) = Inr (mo1, s1)"
    by (auto simp: inject_eos_def Let_def ebind_eq_Inr)
  let ?e1 = "e\<lparr>en_scheduler := s1, en_pending_low_score_stops := en_pending_low_score_stops e - set ?ids\<rparr>"
  let ?force = "filter (\<lambda>rid. rid \<in> en_pending_force_stops e) (dkeys (mo_req_id_to_index mo))"
  have "ebind (if ?force = [] then Inr (mo1, s1) else insert_eos ?force ''gambit_stop_after_completed'' mo1 s1)
      (\<lambda>(mo2, s2). Inr (mo2, ?e1\<lparr>en_scheduler := s2, en_pending_force_stops := en_pending_force_stops e - set ?force\<rparr>)) = Inr (mo', e')"
    using run ne ins unfolding inject_eos_def Let_def by simp
  then obtain x where x: "(if ?force = [] then Inr (mo1, s1) else insert_eos ?force ''gambit_stop_after_completed'' mo1 s1) = Inr x"
    "(case x of (mo2, s2) \<Rightarrow> Inr (mo2, ?e1\<lparr>en_scheduler := s2, en_pending_force_stops := en_pending_force_stops e - set ?force\<rparr>)) =
      (Inr (mo', e') :: (model_runner_output \<times> engine) result)" by (rule ebind_Inr_E)
  obtain mo2 s2 where "x = (mo2, s2)" by (cases x)
  with x have rest: "(if ?force = [] then Inr (mo1, s1) else insert_eos ?force ''gambit_stop_after_completed'' mo1 s1) = Inr (mo', s2)"
    and e': "e' = ?e1\<lparr>en_scheduler := s2, en_pending_force_stops := en_pending_force_stops e - set ?force\<rparr>" by simp_all
  have nonempty: "''gambit_pruned'' \<noteq> []" "''gambit_stop_after_completed'' \<noteq> []" by simp_all
  note r1 = insert_eos_result [OF ins nonempty(1) ok i]
  have eos: "eos_of (en_scheduler e) rid = Some eos" using r by (simp add: eos_of_def)
  have slot1: "mo_sampled_token_ids mo1 ! i = [eos]" using r1(5) eos mem by simp
  have req1: "map_of (sc_requests s1) rid = Some (r\<lparr>rq_stop_reason := Some (StopText ''gambit_pruned'')\<rparr>)"
    using r1(1) mem r(1,2) by (simp add: mark_stop_reason_lookup)
  have nf: "rid \<notin> set ?force" using pend(2) by simp
  have fin: "mo_sampled_token_ids mo' ! i = [eos] \<and> mo_req_id_to_index mo' = mo_req_id_to_index mo \<and>
      length (mo_sampled_token_ids mo') = length (mo_sampled_token_ids mo) \<and>
      map_of (sc_requests s2) rid = Some (r\<lparr>rq_stop_reason := Some (StopText ''gambit_pruned'')\<rparr>)"
  proof (cases "?force = []")
    case True
    with rest slot1 req1 r1(2,3) show ?thesis by simp
  next
    case False
    with rest have ins2: "insert_eos ?force ''gambit_stop_after_completed'' mo1 s1 = Inr (mo', s2)" by simp
    have "map_of (mo_req_id_to_index mo1) rid = Some i" "i < length (mo_sampled_token_ids mo1)" using r1(2,3) i by simp_all
    note r2 = insert_eos_result [OF ins2 nonempty(2) r1(4) this]
    have s2: "s2 = mark_stop_reason ?force ''gambit_stop_after_completed'' s1" by (rule r2(1))
    have slot: "mo_sampled_token_ids mo' ! i = [eos]" using r2(5) slot1 pend(2) by (cases "eos_of s1 rid") simp_all
    have req: "map_of (sc_requests s2) rid = map_of (sc_requests s1) rid"
      unfolding s2 mark_stop_reason_lookup req1 using nf by (simp only: option.map if_False simp_thms)
    from r2(2,3) r1(2,3) show ?thesis by (simp add: slot req req1)
  qed
  then show "sampled_for mo' rid = Inr [eos]" using i by (auto simp: sampled_for_def)
  show "rid \<notin> en_pending_low_score_stops e'" using e' mem by simp
  show "map_of (sc_requests (en_scheduler e')) rid = Some (r\<lparr>rq_stop_reason := Some (StopText ''gambit_pruned'')\<rparr>)"
    using fin e' by simp
qed

text \<open>C14: a pruned trace stops. If a trace that Gambit marked for pruning is in the batch of this step, its request respects the
  end-of-sequence token and has reached its minimum of tokens, then the injected token ends it: processing the step's output frees
  the request, reports it as stopped with reason \<open>gambit_pruned\<close> and that single token, and the mark is cleared.\<close>

theorem pruned_trace_is_stopped:
  assumes run: "inject_eos mo e = Inr (mo', e')" and ok: "batch_ok mo"
    and pend: "rid \<in> en_pending_low_score_stops e" "rid \<notin> en_pending_force_stops e"
    and i: "map_of (mo_req_id_to_index mo) rid = Some i" "i < length (mo_sampled_token_ids mo)"
    and r: "map_of (sc_requests (en_scheduler e)) rid = Some r" "\<not> is_finished r" "rq_eos_token_id r = Some eos"
    and sp: "rq_pooling_params r = None" "rq_sampling_params r = Some sp" "\<not> sp_ignore_eos sp" "sp_min_tokens sp \<le> num_output_tokens r + 1"
    and ux: "ux_sched ux = en_scheduler e'" and upd: "update_one hasher so mo' finals hists rid n ux = Inr ux'"
  shows "rid \<notin> en_pending_low_score_stops e' \<and> rid \<notin> keyset (sc_requests (ux_sched ux')) \<and>
    rid \<in> sc_finished_req_ids (ux_sched ux') \<and>
    (\<exists>out \<in> set (dget_or (ux_outputs ux') (rq_client_index r) []). eo_request_id out = rid \<and> eo_new_token_ids out = [eos] \<and>
       eo_finish_reason out = Some STOP \<and> eo_stop_reason out = Some (StopText ''gambit_pruned''))"
proof -
  note inj = inject_eos_pruned [OF run ok pend i r]
  let ?r0 = "r\<lparr>rq_stop_reason := Some (StopText ''gambit_pruned'')\<rparr>"
  have r0: "map_of (sc_requests (ux_sched ux)) rid = Some ?r0" using inj(3) ux by simp
  define r1 where "r1 = (if dget_or (so_spec_tokens so) rid [] \<noteq> []
    then ?r0\<lparr>rq_num_computed_tokens := rq_num_computed_tokens ?r0 - (int (length (dget_or (so_spec_tokens so) rid [])) - (int (length [eos]) - 1))\<rparr>
    else ?r0)"
  have r1: "rq_pooling_params r1 = None" "rq_sampling_params r1 = Some sp" "sp_min_tokens sp \<le> num_output_tokens r1 + 1"
    "rq_eos_token_id r1 = Some eos" "rq_client_index r1 = rq_client_index r" "rq_stop_reason r1 = Some (StopText ''gambit_pruned'')"
    using sp r(3) by (simp_all add: r1_def num_output_tokens_def)
  define r2 where "r2 = (append_output_token_ids hasher [eos] r1)\<lparr>rq_status := FINISHED_STOPPED\<rparr>"
  have stop: "update_request_with_output hasher (sc_max_model_len (ux_sched ux)) r1 [eos] = Inr ([eos], True, r2)"
    unfolding r2_def by (rule forced_eos_stops [OF r1(1,2) sp(3) r1(3,4)])
  have r2: "rq_client_index r2 = rq_client_index r" "rq_stop_reason r2 = Some (StopText ''gambit_pruned'')" "get_finished_reason r2 = Some STOP"
    using r1(5,6) by (simp_all add: r2_def get_finished_reason_def)
  from upd r0 inj(1) stop obtain s2 out where free: "free_request rid (upd_req rid (\<lambda>_. r2) (ux_sched ux)) = Inr s2"
    and ux': "ux_sched ux' = s2" "ux_outputs ux' = AList.update (rq_client_index r) (dget_or (ux_outputs ux) (rq_client_index r) [] @ [out]) (ux_outputs ux)"
    and out: "eo_request_id out = rid" "eo_new_token_ids out = [eos]" "eo_finish_reason out = Some STOP" "eo_stop_reason out = Some (StopText ''gambit_pruned'')"
    by (auto simp: update_one_def Let_def ebind_eq_Inr r1_def [symmetric] r2)
  have "rid \<notin> keyset (sc_requests s2)" using free_request_frame [OF free] by simp
  moreover have "rid \<in> sc_finished_req_ids s2"
    using free by (auto simp: free_request_def free_blocks_of_def Let_def ebind_eq_Inr)
  ultimately show ?thesis using inj(2) ux' out by (auto simp: dict_simps)
qed

definition sample_batch :: model_runner_output where
  "sample_batch = \<lparr>mo_req_id_to_index = [(''a_1'', 0)], mo_sampled_token_ids = [[7]]\<rparr>"

definition sample_pending :: engine where
  "sample_pending = (sample_engine [''a_1''])\<lparr>en_pending_low_score_stops := {''a_1''}\<rparr>"

definition sample_sched_out :: scheduler_output where
  "sample_sched_out = \<lparr>so_new_reqs = [], so_cached_reqs = \<lparr>cr_req_ids = [], cr_resumed_req_ids = {}, cr_new_token_ids = [],
       cr_all_token_ids = [], cr_new_block_ids = [], cr_num_computed_tokens = [], cr_num_output_tokens = []\<rparr>,
     so_num_scheduled_tokens = [(''a_1'', 1)], so_total_num_scheduled_tokens = 1, so_spec_tokens = [],
     so_num_common_prefix_blocks = [], so_finished_req_ids = {}\<rparr>"

definition sample_ux :: update_ctx where
  "sample_ux = \<lparr>ux_sched = en_scheduler (snd (projr (inject_eos sample_batch sample_pending))), ux_outputs = [],
     ux_stopped_running = {}, ux_stopped_preempted = []\<rparr>"

theorem pruned_trace_is_stopped_witness:
  "''a_1'' \<in> sc_finished_req_ids (ux_sched (projr (update_one None sample_sched_out (fst (projr (inject_eos sample_batch sample_pending))) None None ''a_1'' 1 sample_ux)))"
proof -
  let ?inj = "inject_eos sample_batch sample_pending"
  let ?upd = "update_one None sample_sched_out (fst (projr ?inj)) None None ''a_1'' 1 sample_ux"
  have "?inj = Inr (projr ?inj)" by (rule Inr_projr) code_simp
  then have run: "?inj = Inr (fst (projr ?inj), snd (projr ?inj))" by simp
  have upd: "?upd = Inr (projr ?upd)" by (rule Inr_projr) code_simp
  have ok: "batch_ok sample_batch" by (simp add: batch_ok_def sample_batch_def)
  have r: "map_of (sc_requests (en_scheduler sample_pending)) ''a_1'' = Some (sample_request ''a_1'' [1, 2])"
    by (simp add: sample_pending_def sample_engine_def init_engine_def sample_scheduler_def)
  have hyps: "''a_1'' \<in> en_pending_low_score_stops sample_pending" "''a_1'' \<notin> en_pending_force_stops sample_pending"
    "map_of (mo_req_id_to_index sample_batch) ''a_1'' = Some 0" "0 < length (mo_sampled_token_ids sample_batch)"
    "\<not> is_finished (sample_request ''a_1'' [1, 2])" "rq_eos_token_id (sample_request ''a_1'' [1, 2]) = Some 2"
    "rq_pooling_params (sample_request ''a_1'' [1, 2]) = None" "rq_sampling_params (sample_request ''a_1'' [1, 2]) = Some sample_params"
    "\<not> sp_ignore_eos sample_params" "sp_min_tokens sample_params \<le> num_output_tokens (sample_request ''a_1'' [1, 2]) + 1"
    by (simp_all add: sample_pending_def sample_engine_def init_engine_def sample_batch_def is_finished_def sample_request_def
        sample_params_def num_output_tokens_def status_is_finished_iff)
  have ux: "ux_sched sample_ux = en_scheduler (snd (projr ?inj))" by (simp add: sample_ux_def)
  from pruned_trace_is_stopped [OF run ok hyps(1-4) r hyps(5-10) ux upd] show ?thesis by blast
qed


definition sample_ignoring :: request where
  "sample_ignoring = (sample_request ''a_1'' [1, 2])\<lparr>rq_sampling_params := Some (sample_params\<lparr>sp_ignore_eos := True\<rparr>)\<rparr>"

definition sample_ignoring_engine :: engine where
  "sample_ignoring_engine = sample_pending\<lparr>en_scheduler := (en_scheduler sample_pending)\<lparr>sc_requests := [(''a_1'', sample_ignoring)]\<rparr>\<rparr>"


subsection \<open>Finished requests\<close>

lemma on_finished_frame:
  "en_trace_scores (gambit_on_request_finished rid s ids e) = en_trace_scores e"
  "en_final_trace_scores (gambit_on_request_finished rid s ids e) = en_final_trace_scores e"
  "en_trace_score_counts (gambit_on_request_finished rid s ids e) = en_trace_score_counts e"
  "en_pending_low_score_stops (gambit_on_request_finished rid s ids e) = en_pending_low_score_stops e"
  "en_pending_force_stops (gambit_on_request_finished rid s ids e) = en_pending_force_stops e"
  "en_trace_token_counts (gambit_on_request_finished rid s ids e) = en_trace_token_counts e"
  "en_output_token_ids (gambit_on_request_finished rid s ids e) = en_output_token_ids e"
  by (simp_all add: gambit_on_request_finished_def Let_def split: option.splits prod.splits)

lemma on_finished_tree:
  assumes "en_trace_tree e = Some t" and "map_of (tt_nodes t) rid = Some node" and "map_of (sc_requests (en_scheduler e)) rid = None"
  shows "en_trace_tree (gambit_on_request_finished rid s ids e) = Some (
    if nd_is_pruned node then t\<lparr>tt_nodes := dmodify rid (set_output None ids None None s) (tt_nodes t)\<rparr>
    else mark_completed rid None ids None None s t)"
  using assms map_of_in_keys [OF assms(2)] by (simp add: gambit_on_request_finished_def tree_contains_def get_node_def Let_def)

lemma on_finished_settles:
  assumes tree: "en_trace_tree e = Some t" and inv: "tree_inv t" and node: "map_of (tt_nodes t) rid = Some node"
    and gone: "map_of (sc_requests (en_scheduler e)) rid = None" and e': "e' = gambit_on_request_finished rid avg ids e"
  shows "\<exists>t' node'. en_trace_tree e' = Some t' \<and> tree_inv t' \<and> map_of (tt_nodes t') rid = Some node' \<and> \<not> nd_is_active node' \<and>
      nd_is_pruned node' = nd_is_pruned node \<and> nd_is_completed node' = (\<not> nd_is_pruned node) \<and>
      nd_output_token_ids node' = ids \<and> nd_final_score node' = avg"
proof -
  note t' = on_finished_tree [OF tree node gone, of avg ids, folded e']
  have ok: "node_ok rid node" by (rule tree_invD(2) [OF inv node])
  show ?thesis
  proof (cases "nd_is_pruned node")
    case True
    from ok True have off: "\<not> nd_is_active node" "\<not> nd_is_completed node" by (auto simp: node_ok_def)
    let ?t = "t\<lparr>tt_nodes := dmodify rid (set_output None ids None None avg) (tt_nodes t)\<rparr>"
    let ?n = "set_output None ids None None avg node"
    have "map_of (tt_nodes ?t) rid = Some ?n" using node by (simp add: dict_simps)
    with True off t' tree_inv_set_output [OF inv, of rid None ids None None avg] show ?thesis
      by (intro exI [of _ ?t] exI [of _ ?n]) (simp add: set_output_def split: option.splits)
  next
    case False
    with node have "map_of (tt_nodes t) rid = Some n \<Longrightarrow> \<not> nd_is_pruned n" for n by simp
    note inv' = tree_inv_mark_completed [OF inv this, of rid None ids None None avg]
    let ?n = "set_output None ids None None avg (node\<lparr>nd_is_active := False, nd_is_completed := True\<rparr>)"
    have "map_of (tt_nodes (mark_completed rid None ids None None avg t)) rid = Some ?n"
      using node by (simp add: mark_completed_def dict_simps)
    with False t' inv' show ?thesis
      by (intro exI [of _ "mark_completed rid None ids None None avg t"] exI [of _ ?n]) (simp add: set_output_def split: option.splits)
  qed
qed


definition sample_finished :: engine where
  "sample_finished = (sample_engine [''a_1''])\<lparr>en_scheduler := sample_scheduler [], en_trace_scores := [(''a_1'', [1, 0])],
     en_output_token_ids := [(''a_1'', [5, 2])], en_pending_low_score_stops := {''a_1''}\<rparr>"


subsection \<open>Draining and reset\<close>

lemma drain_active_zero:
  assumes "en_trace_tree e = Some t" and "tree_inv t" and "en_gambit_enabled e"
  shows "active_traces_of (drain_leftovers e) = 0" and "tree_good (drain_leftovers e)"
proof -
  let ?ids = "map fst (filter (\<lambda>(_, n). nd_is_active n) (tt_nodes t))"
  have mem: "rid \<in> set ?ids \<longleftrightarrow> (\<exists>n. map_of (tt_nodes t) rid = Some n \<and> nd_is_active n)" for rid
    using in_set_wf_dict [OF tree_invD(1) [OF assms(2)], of rid] by force
  have tree: "en_trace_tree (drain_leftovers e) = Some (fold mark_pruned ?ids t)"
    using assms(1,3) by (simp add: drain_leftovers_def Let_def)
  have wf: "wf_dict (tt_nodes (fold mark_pruned ?ids t))" using tree_invD(1) [OF assms(2)] by simp
  have none: "\<not> nd_is_active n" if "map_of (tt_nodes (fold mark_pruned ?ids t)) rid = Some n" for rid n
    using that mem [of rid] unfolding map_of_fold_mark_pruned by (auto split: if_splits)
  show "active_traces_of (drain_leftovers e) = 0"
    unfolding active_traces_of_Some [OF tree] by (rule no_active_count [OF wf none])
  have "tree_inv (fold mark_pruned ?ids t)"
    by (rule tree_inv_fold_mark_pruned [OF assms(2)]) (use mem active_not_completed [OF assms(2)] in fastforce)
  then show "tree_good (drain_leftovers e)" using tree by (simp add: tree_good_def)
qed

text \<open>C17: no waiting forever. When the scheduler has no request left, a step succeeds, produces no output, does not run the model, and leaves
  no active trace in a well-formed tree, so a caller that steps until no trace is active terminates.\<close>

theorem idle_step_leaves_no_active_trace:
  assumes tree: "en_trace_tree e = Some t" and inv: "tree_inv t" and en: "en_gambit_enabled e" and idle: "\<not> has_requests (en_scheduler e)"
  shows "\<exists>e'. engine_step ev e = Inr (\<lparr>stp_outputs = [], stp_export = None, stp_executed = False\<rparr>, e') \<and>
    active_traces_of e' = 0 \<and> tree_good e' \<and> en_scheduler e' = en_scheduler e"
proof -
  have sched: "en_scheduler (drain_leftovers e) = en_scheduler e" by (simp add: drain_leftovers_def Let_def split: option.splits)
  show ?thesis
    by (intro exI [of _ "drain_leftovers e"] conjI)
      (use idle drain_active_zero [OF tree inv en] sched in \<open>simp_all add: engine_step_def\<close>)
qed

theorem idle_step_leaves_no_active_trace_witness:
  "\<exists>e'. engine_step sample_env sample_finished = Inr (\<lparr>stp_outputs = [], stp_export = None, stp_executed = False\<rparr>, e') \<and> active_traces_of e' = 0"
proof -
  have tree: "en_trace_tree sample_finished = Some (sample_tree [''a_1''])" "en_gambit_enabled sample_finished"
    by (simp_all add: sample_finished_def sample_engine_def init_engine_def sample_config_def default_gambit_config_def)
  have inv: "tree_inv (sample_tree [''a_1''])" by (simp add: sample_tree_inv external_id_def)
  have "\<not> has_requests (en_scheduler sample_finished)"
    by (simp add: has_requests_def get_num_unfinished_requests_def has_finished_requests_def sample_finished_def sample_scheduler_def)
  from idle_step_leaves_no_active_trace [OF tree(1) inv tree(2) this, of sample_env] show ?thesis by blast
qed

text \<open>Reset. With nothing waiting or running in the scheduler, the reset between questions puts the engine back into its initial state for the
  same configuration and scheduler, except for a score request to the asynchronous scorer that is still outstanding.\<close>

lemma reset_restores_initial_state:
  assumes "en_gambit_enabled e = gc_enable_branching (en_config e)" and "gc_enable_branching (en_config e)"
    and "get_num_unfinished_requests (en_scheduler e) = 0"
  shows "reset_gambit_state e = (init_engine (en_config e) (en_async_scorer_enabled e) (en_scheduler e))
    \<lparr>en_async_scorer_future := en_async_scorer_future e, en_async_scorer_meta := en_async_scorer_meta e\<rparr>"
  using assms by (simp add: reset_gambit_state_def init_engine_def get_num_unfinished_requests_def)

text \<open>The decision step in threshold mode on an empty tree with one score, while the trace has no counted tokens.\<close>

lemma lone_score_decision:
  assumes tree: "en_trace_tree e = Some t" "tt_nodes t = []" and en: "en_gambit_enabled e" "\<not> gc_tournament_mode (en_config e)"
    and min: "0 < gc_min_tokens_before_prune (en_config e)" "0 < gc_min_tokens_before_branch (en_config e)" and cnt: "en_trace_token_counts e = []"
  shows "\<exists>e' t' n. gambit_decision_step ev [(rid, x)] e = Inr e' \<and> en_trace_tree e' = Some t' \<and> get_node rid t' = Some n \<and>
    nd_is_active n \<and> get_active_count t' = 1 \<and> en_trace_scores e' = en_trace_scores e"
proof -
  let ?t = "observe_score (gc_record_score_history (en_config e)) (rid, x) (increment_step t)"
  let ?e = "e\<lparr>en_trace_tree := Some ?t, en_tournament_step_counter := en_tournament_step_counter e + 1\<rparr>"
  have node: "\<exists>n. get_node rid ?t = Some n \<and> nd_is_active n" "get_active_count ?t = 1" "get_completed_count ?t = 0"
    using tree(2) by (auto simp: observe_score_def tree_op_defs new_node_def get_active_count_def get_completed_count_def dcount_def dmodify_def Let_def)
  have go: "\<not> gambit_should_stop_after_completed ?e" using node(3) by (simp add: gambit_should_stop_after_completed_def Let_def)
  have "tokens_since_branch ?e rid = 0" using cnt by (simp add: dget_or_def)
  then have "threshold_prunes [(rid, x)] ?e = []" "threshold_branches [(rid, x)] ?e = []"
    using min by (simp_all add: threshold_prunes_def threshold_branches_def gambit_should_prune_threshold_def
        gambit_should_branch_threshold_def rank_traces_def)
  then have "gambit_threshold_step ev [(rid, x)] ?e = Inr ?e" by (simp add: gambit_threshold_step_def)
  with tree(1) en go have "gambit_decision_step ev [(rid, x)] e = Inr (flush_sequence_histories ?e)"
    by (simp add: gambit_decision_step_def Let_def)
  moreover have "en_trace_tree (flush_sequence_histories ?e) = Some ?t" "en_trace_scores (flush_sequence_histories ?e) = en_trace_scores e"
    by (simp_all add: flush_sequence_histories_def)
  ultimately show ?thesis using node(1,2) by blast
qed



end
