(* ===== verification/Sched_Inv.thy ===== *)
theory Sched_Inv
  imports Schedule_Step
begin

text \<open>
  The invariant of the scheduler (\<open>vllm/v1/core/sched/scheduler.py\<close>) under the first-come-first-served and
  the GAMBIT policy: every live request is in exactly one of the running list and the waiting queue, its
  status says which, its token counts are within the limits of the model, and only running requests hold
  blocks of the KV cache. The invariant is stated on the components of the state, so that it also describes
  the states in the middle of a step. What the scheduler needs of block hashing is the locale
  \<open>block_hashing\<close>, interpreted on the chained hasher of \<open>kv_cache_utils.py\<close> and on the absence of one.
\<close>

subsection \<open>What the KV cache manager leaves alone\<close>

text \<open>The requests with an entry in \<open>num_cached_block\<close>.\<close>

definition sm_cached :: "st_manager \<Rightarrow> reqid set" where
  "sm_cached m = keyset (sm_num_cached_block m)"

abbreviation cached_ids :: "kv_manager \<Rightarrow> reqid set" where
  "cached_ids km \<equiv> sm_cached (km_sm km)"

lemma sm_cached_simps [simp]:
  "sm_cached (m\<lparr>sm_req_to_blocks := T\<rparr>) = sm_cached m"
  "sm_cached (m\<lparr>sm_num_cached_block := AList.update rid n C\<rparr>) = insert rid (keyset C)"
  "sm_cached (m\<lparr>sm_num_cached_block := AList.delete rid C\<rparr>) = keyset C - {rid}"
  "sm_cached (snd (req_blocks rid m)) = sm_cached m"
  by (simp_all add: sm_cached_def del: set_map)

definition kv_same :: "kv_manager \<Rightarrow> kv_manager \<Rightarrow> bool" where
  "kv_same km km' \<longleftrightarrow> km_max_model_len km' = km_max_model_len km \<and> km_enable_caching km' = km_enable_caching km \<and>
     kc_use_eagle (km_coordinator km') = kc_use_eagle (km_coordinator km) \<and>
     sm_block_size (km_sm km') = sm_block_size (km_sm km)"

lemma kv_same_refl [simp, intro]: "kv_same km km"
  by (simp add: kv_same_def)

lemma kv_same_trans: "kv_same km km' \<Longrightarrow> kv_same km' km'' \<Longrightarrow> kv_same km km''"
  by (simp add: kv_same_def)

lemma km_free_frame:
  assumes "kv_inv hs km" and "km_free r km = Inr km'"
  shows "kv_same km km' \<and> cached_ids km' = cached_ids km - {rq_request_id r}"
proof -
  from assms(1) obtain m where "kc_managers (km_coordinator km) = [m]" by (elim kv_invE) blast
  with assms(2) show ?thesis
    by (auto simp: km_free_def kc_free_def on_managers_def sm_free_def Let_def ebind_eq_Inr kv_same_def sm_cached_def [symmetric])
qed

lemma sm_steps_frame:
  "sm_save_new_computed_blocks rid c m = Inr m' \<Longrightarrow>
     sm_block_size m' = sm_block_size m \<and> sm_cached m' \<subseteq> insert rid (sm_cached m)"
  "sm_allocate_new_blocks u rid n p m = Inr (bs, p', m') \<Longrightarrow>
     sm_block_size m' = sm_block_size m \<and> sm_cached m' = sm_cached m"
  "sm_cache_blocks u r n p m = Inr (p', m') \<Longrightarrow>
     sm_block_size m' = sm_block_size m \<and> sm_cached m' \<subseteq> insert (rq_request_id r) (sm_cached m)"
  by (auto simp: sm_save_new_computed_blocks_def sm_allocate_new_blocks_def sm_cache_blocks_def Let_def ebind_eq_Inr
      req_blocks_def set_req_blocks_def sm_cached_def [symmetric] split: if_splits)

text \<open>The same facts one level up, for the coordinator with a single group.\<close>

definition kc_step :: "reqid \<Rightarrow> kv_coordinator \<Rightarrow> kv_coordinator \<Rightarrow> bool" where
  "kc_step rid kc kc' \<longleftrightarrow> kc_use_eagle kc' = kc_use_eagle kc \<and>
     (\<exists>m m'. kc_managers kc = [m] \<and> kc_managers kc' = [m'] \<and> sm_block_size m' = sm_block_size m \<and>
        sm_cached m' \<subseteq> insert rid (sm_cached m))"

lemma kc_step_trans: "kc_step rid a b \<Longrightarrow> kc_step rid b c \<Longrightarrow> kc_step rid a c"
  unfolding kc_step_def by clarsimp blast

lemma kc_step_cases:
  assumes "kc_managers kc = [m]"
  shows "touch_computed c bs kc = Inr kc' \<Longrightarrow> kc_step rid kc kc'"
    and "save_computed rid bs kc = Inr kc' \<Longrightarrow> kc_step rid kc kc'"
    and "kc_allocate_new_blocks u rid n kc = Inr (nb, kc') \<Longrightarrow> kc_step rid kc kc'"
    and "rq_request_id r = rid \<Longrightarrow> commit_blocks u c d r n kc = Inr kc' \<Longrightarrow> kc_step rid kc kc'"
proof -
  show "touch_computed c bs kc = Inr kc' \<Longrightarrow> kc_step rid kc kc'"
    using assms by (auto simp: touch_computed_def kc_step_def ebind_eq_Inr split: if_splits)
  show "save_computed rid bs kc = Inr kc' \<Longrightarrow> kc_step rid kc kc'"
    using assms by (cases bs) (auto simp: save_computed_def kc_save_new_computed_blocks_def kc_step_def ebind_eq_Inr
        dest!: sm_steps_frame(1) split: if_splits)
  show "kc_allocate_new_blocks u rid n kc = Inr (nb, kc') \<Longrightarrow> kc_step rid kc kc'"
    using assms by (auto simp: kc_allocate_new_blocks_def kc_step_def ebind_eq_Inr dest!: sm_steps_frame(2))
  show "rq_request_id r = rid \<Longrightarrow> commit_blocks u c d r n kc = Inr kc' \<Longrightarrow> kc_step rid kc kc'"
    using assms by (auto simp: commit_blocks_def kc_cache_blocks_def on_managers_def kc_step_def ebind_eq_Inr
        dest!: sm_steps_frame(3) split: if_splits)
qed

lemma km_allocate_frame:
  assumes "kv_inv hs km" and "km_allocate_slots u r n c cb la d km = Inr (res, km')"
  shows "kv_same km km' \<and> cached_ids km' \<subseteq> insert (rq_request_id r) (cached_ids km) \<and>
    (res = None \<longrightarrow> cached_ids km' = cached_ids km)"
proof -
  let ?rid = "rq_request_id r"
  from assms(1) obtain m where m: "kc_managers (km_coordinator km) = [m]" by (elim kv_invE) blast
  let ?kc2 = "(km_coordinator km)\<lparr>kc_managers := [snd (req_blocks ?rid m)]\<rparr>"
  have skip: "kc_remove_skipped_blocks ?rid k (km_coordinator km) = Inr (km_coordinator km)" for k
    using m by (simp add: kc_remove_skipped_blocks_def on_managers_def sm_remove_skipped_blocks_def get_num_skipped_tokens_def)
  have count: "kc_get_num_blocks_to_allocate ?rid k bs (km_coordinator km) = Inr (j, kc) \<Longrightarrow> kc = ?kc2" for k bs j kc
    using m by (cases bs) (auto simp: kc_get_num_blocks_to_allocate_def sm_get_num_blocks_to_allocate_def
        Let_def ebind_eq_Inr split: prod.splits)
  have k2: "kc_managers ?kc2 = [snd (req_blocks ?rid m)]" by simp
  from assms(2) consider "res = None" "km' = km\<lparr>km_coordinator := ?kc2\<rparr>"
    | kc3 kc4 kc5 kc6 nb nt bs c where "touch_computed (km_enable_caching km) bs ?kc2 = Inr kc3" "save_computed ?rid bs kc3 = Inr kc4"
      "kc_allocate_new_blocks u ?rid nt kc4 = Inr (nb, kc5)" "commit_blocks u (km_enable_caching km) d r c kc5 = Inr kc6"
      "km' = km\<lparr>km_coordinator := kc6\<rparr>" "res \<noteq> None"
    by (auto simp: km_allocate_slots_def Let_def ebind_eq_Inr skip dest!: count split: if_splits)
  then show ?thesis
  proof cases
    case 1
    with m show ?thesis by (simp add: kv_same_def subset_insertI)
  next
    case 2
    have s: "kc_step ?rid ?kc2 kc3" by (rule kc_step_cases(1) [OF k2 2(1)])
    then obtain m3 where "kc_managers kc3 = [m3]" by (auto simp: kc_step_def)
    note s = kc_step_trans [OF s kc_step_cases(2) [OF this 2(2)]]
    then obtain m4 where "kc_managers kc4 = [m4]" by (auto simp: kc_step_def)
    note s = kc_step_trans [OF s kc_step_cases(3) [OF this 2(3)]]
    then obtain m5 where "kc_managers kc5 = [m5]" by (auto simp: kc_step_def)
    note s = kc_step_trans [OF s kc_step_cases(4) [OF this refl 2(4)]]
    with 2(5,6) m show ?thesis by (auto simp: kc_step_def kv_same_def)
  qed
qed

lemma common_prefix_frame:
  assumes "kv_inv hs km" and "km_get_num_common_prefix_blocks rid km = (ns, km')"
  shows "kv_inv hs km' \<and> kv_same km km' \<and> cached_ids km' = cached_ids km \<and> (\<forall>r. km_table km' r = km_table km r)"
proof -
  from assms(1) obtain m xs where m: "kc_managers (km_coordinator km) = [m]" "0 < sm_block_size m" "sm_kv_cache_group_id m = 0"
    "kc_enable_caching (km_coordinator km) = km_enable_caching km" "bp_enable_caching (km_pool km) = km_enable_caching km"
    and ok: "kv_ok hs gid_bytes (km_pool km) (sm_req_to_blocks m) (sm_num_cached_block m) xs"
    by (rule kv_invE)
  show ?thesis
  proof (cases "km_enable_caching km")
    case False
    with assms m(4) show ?thesis by (auto simp: km_get_num_common_prefix_blocks_def kc_get_num_common_prefix_blocks_def kv_same_def)
  next
    case True
    let ?m = "snd (req_blocks rid m)"
    have km': "km' = km\<lparr>km_coordinator := (km_coordinator km)\<lparr>kc_managers := [?m]\<rparr>\<rparr>"
      using assms(2) True m(1,4) by (auto simp: km_get_num_common_prefix_blocks_def kc_get_num_common_prefix_blocks_def
          sm_get_num_common_prefix_blocks_def split: prod.splits)
    have "kv_inv hs km'"
      by (rule kv_invI [of _ ?m]) (use m kv_ok_setdefault [OF ok] km' in simp_all)
    with km' m(1) show ?thesis by (simp add: kv_same_def km_table_def)
  qed
qed

lemma take_events_frame:
  assumes "kv_inv hs km"
  shows "kv_inv hs (snd (km_take_events km)) \<and> kv_same km (snd (km_take_events km)) \<and>
    cached_ids (snd (km_take_events km)) = cached_ids km \<and> (\<forall>r. km_table (snd (km_take_events km)) r = km_table km r)"
proof -
  define p where "p = snd (take_events (km_pool km))"
  have p: "snd (km_take_events km) = km\<lparr>km_coordinator := (km_coordinator km)\<lparr>kc_block_pool := p\<rparr>\<rparr>"
    by (simp add: km_take_events_def p_def split: prod.splits)
  have "p = km_pool km \<or> p = (km_pool km)\<lparr>bp_kv_event_queue := []\<rparr>"
    by (auto simp: take_events_def p_def)
  then have "kv_ok hs gb (km_pool km) T C xs = kv_ok hs gb p T C xs" "bp_enable_caching p = bp_enable_caching (km_pool km)"
    for gb T C xs
    by (auto simp: kv_ok_def pool_rep_events blocks_ok_def cached_prefix_def usable_def)
  with assms p show ?thesis by (simp add: kv_inv_def kv_same_def km_table_def)
qed

subsection \<open>What the scheduler needs of block hashing\<close>

text \<open>What the scheduler never changes in a request, apart from appending tokens and hashes: everything the hash of a
  block depends on, the identity of the request and its sampling parameters.\<close>

definition hash_view :: "request \<Rightarrow> token list \<times> bytes list \<times> mm_feature list \<times> lora_request option \<times> string option \<times>
    bytes list option \<times> reqid \<times> sampling_params option \<times> int" where
  "hash_view r = (rq_all_token_ids r, rq_block_hashes r, rq_mm_features r, rq_lora_request r, rq_cache_salt r, rq_prompt_embeds r,
     rq_request_id r, rq_sampling_params r, rq_max_tokens r)"

text \<open>The contract: \<open>hk\<close> says that the block hashes of a request are up to date. They then cover the full
  blocks and are pairwise different, appending output tokens keeps them up to date, and they depend only on
  what the scheduler leaves alone. Without prefix caching the first law is not needed.\<close>

locale block_hashing =
  fixes caching :: bool and bs :: nat and hasher :: "(request \<Rightarrow> bytes list) option" and hk :: "request \<Rightarrow> bool"
  assumes hash_cover: "hk r \<Longrightarrow> caching \<longrightarrow> num_tokens r div int bs \<le> int (length (rq_block_hashes r)) \<and> distinct (rq_block_hashes r)"
    and hash_append: "hk r \<Longrightarrow> hk (append_output_token_ids hasher toks r)"
    and hash_cong: "hash_view r = hash_view r' \<Longrightarrow> hk r = hk r'"

definition chain_ok :: "(hash_input \<Rightarrow> bytes) \<Rightarrow> bytes \<Rightarrow> nat \<Rightarrow> request \<Rightarrow> bool" where
  "chain_ok hf nh bs r \<longleftrightarrow> hashes_ok hf nh bs r \<and> rq_mm_features r = []"

lemma block_chain_distinct:
  assumes "inj hf" and "\<And>x. hf x \<noteq> [] \<and> hf x \<noteq> nh"
  shows "distinct (block_chain hf nh bs r n)"
proof -
  have diff: "last (block_chain hf nh bs r (Suc i)) \<noteq> last (block_chain hf nh bs r (Suc j))" if "i < j" for i j
    using that
  proof (induction i arbitrary: j)
    case 0
    then obtain j' where j: "j = Suc j'" by (cases j) auto
    show ?case
    proof
      assume "last (block_chain hf nh bs r (Suc 0)) = last (block_chain hf nh bs r (Suc j))"
      then have "parent_hash ([] :: bytes list) = parent_hash (block_chain hf nh bs r j)"
        using hash_block_tokens_inj [OF assms, of "[]" _ _ "block_chain hf nh bs r j"] block_chain_range [of hf nh bs r j] by auto
      then show False by (simp add: j parent_hash_def)
    qed
  next
    case (Suc i)
    then obtain j' where j: "j = Suc j'" "i < j'" by (cases j) auto
    show ?case
    proof
      assume eq: "last (block_chain hf nh bs r (Suc (Suc i))) = last (block_chain hf nh bs r (Suc j))"
      have "parent_hash (block_chain hf nh bs r (Suc i)) = parent_hash (block_chain hf nh bs r (Suc j'))"
        using eq [unfolded block_chain.simps(2) [of _ _ _ _ "Suc i"] block_chain.simps(2) [of _ _ _ _ j] last_snoc]
          hash_block_tokens_inj [OF assms] block_chain_range [of hf nh bs r "Suc i"] block_chain_range [of hf nh bs r j] j(1)
        by blast
      then have "last (block_chain hf nh bs r (Suc i)) = last (block_chain hf nh bs r (Suc j'))" by (simp add: parent_hash_def)
      with Suc.IH [OF j(2)] show False by simp
    qed
  qed
  show ?thesis unfolding distinct_conv_nth
    using diff by (simp add: block_chain_nth del: block_chain.simps) (metis linorder_neqE_nat)
qed

lemma chain_hashing:
  assumes "inj hf" and "\<forall>x. hf x \<noteq> [] \<and> hf x \<noteq> nh" and "0 < bs"
  shows "block_hashing caching bs (Some (get_request_block_hasher hf nh bs)) (chain_ok hf nh bs)"
proof
  fix r assume "chain_ok hf nh bs r"
  then show "caching \<longrightarrow> num_tokens r div int bs \<le> int (length (rq_block_hashes r)) \<and> distinct (rq_block_hashes r)"
    using block_chain_distinct [OF assms(1), of nh bs r] assms(2)
    by (simp add: chain_ok_def hashes_ok_def full_blocks_def num_tokens_def zdiv_int)
next
  fix r toks assume "chain_ok hf nh bs r"
  then show "chain_ok hf nh bs (append_output_token_ids (Some (get_request_block_hasher hf nh bs)) toks r)"
    using append_output_hashes_ok [OF assms(3)] by (simp add: chain_ok_def)
next
  fix r r' assume v: "hash_view r = hash_view r'"
  have "block_chain hf nh bs r n = block_chain hf nh bs r' n" for n
    by (rule block_chain_cong) (use v in \<open>simp_all add: hash_view_def same_keys_def\<close>)
  with v show "chain_ok hf nh bs r = chain_ok hf nh bs r'"
    by (simp add: chain_ok_def hashes_ok_def hash_view_def full_blocks_def)
qed

interpretation no_caching: block_hashing False bs None "\<lambda>_. True"
  by unfold_locales simp_all

interpretation ideal: block_hashing True 2 "Some (get_request_block_hasher ideal_hash [0] 2)" "chain_ok ideal_hash [0] 2"
  by (rule chain_hashing) (auto simp: inj_def ideal_hash_def)

subsection \<open>The invariant\<close>

text \<open>The limits that a live request respects: it generates text, has room for another token under both length limits,
  and its minimum length does not push it past them.\<close>

definition token_ok :: "int \<Rightarrow> request \<Rightarrow> bool" where
  "token_ok mml r \<longleftrightarrow> rq_pooling_params r = None \<and>
     (\<exists>sp. rq_sampling_params r = Some sp \<and> sp_min_tokens sp \<le> rq_max_tokens r \<and>
        rq_num_prompt_tokens r + sp_min_tokens sp \<le> mml) \<and>
     num_tokens r = rq_num_prompt_tokens r + num_output_tokens r \<and> 0 < num_tokens r \<and> num_tokens r < mml \<and>
     num_output_tokens r < rq_max_tokens r \<and> rq_num_output_placeholders r = 0 \<and> 0 \<le> rq_num_computed_tokens r"

definition waits :: "request_status \<Rightarrow> bool" where
  "waits st \<longleftrightarrow> st \<in> {WAITING, WAITING_FOR_FSM, PREEMPTED}"

text \<open>\<open>ck\<close> bounds the number of computed tokens of a running request.\<close>

definition request_ok :: "(request \<Rightarrow> bool) \<Rightarrow> (reqid \<Rightarrow> request \<Rightarrow> bool) \<Rightarrow> int \<Rightarrow> bool \<Rightarrow> reqid \<Rightarrow> request \<Rightarrow> bool" where
  "request_ok hk ck mml run rid r \<longleftrightarrow> rq_request_id r = rid \<and> hk r \<and> token_ok mml r \<and>
     (run \<longrightarrow> rq_status r = RUNNING \<and> ck rid r) \<and> (\<not> run \<longrightarrow> waits (rq_status r) \<and> rq_num_computed_tokens r = 0)"

definition table_hashes :: "(reqid, request) dict \<Rightarrow> reqid \<Rightarrow> bytes list" where
  "table_hashes reqs rid = (case map_of reqs rid of None \<Rightarrow> [] | Some r \<Rightarrow> rq_block_hashes r)"

definition sched_ok :: "bool \<Rightarrow> nat \<Rightarrow> (request \<Rightarrow> bool) \<Rightarrow> (reqid \<Rightarrow> request \<Rightarrow> bool) \<Rightarrow> int \<Rightarrow> reqid list \<Rightarrow> reqid list \<Rightarrow>
    (reqid, request) dict \<Rightarrow> kv_manager \<Rightarrow> bool" where
  "sched_ok caching bs hk ck mml run w reqs km \<longleftrightarrow> distinct (run @ w) \<and> wf_dict reqs \<and> keyset reqs = set run \<union> set w \<and>
     (\<forall>rid r. map_of reqs rid = Some r \<longrightarrow> request_ok hk ck mml (rid \<in> set run) rid r) \<and>
     kv_inv (table_hashes reqs) km \<and> (\<forall>rid. rid \<notin> set run \<longrightarrow> km_table km rid = [] \<and> rid \<notin> cached_ids km) \<and>
     \<not> kc_use_eagle (km_coordinator km) \<and> km_max_model_len km = mml \<and> km_enable_caching km = caching \<and>
     sm_block_size (km_sm km) = bs"

definition sched_inv :: "bool \<Rightarrow> nat \<Rightarrow> (request \<Rightarrow> bool) \<Rightarrow> (reqid \<Rightarrow> request \<Rightarrow> bool) \<Rightarrow> scheduler \<Rightarrow> bool" where
  "sched_inv caching bs hk ck s \<longleftrightarrow> sc_policy s \<noteq> PRIORITY \<and> 0 \<le> sc_num_lookahead_tokens s \<and>
     0 \<le> sc_max_num_scheduled_tokens s \<and> length (sc_running s) \<le> sc_max_num_running_reqs s \<and>
     (\<exists>w. sc_waiting s = FCFSQueue w \<and>
        sched_ok caching bs hk ck (sc_max_model_len s) (sc_running s) w (sc_requests s) (sc_kv_cache_manager s))"

text \<open>Between two steps, a request has computed at most its tokens.\<close>

definition computed_ok :: "reqid \<Rightarrow> request \<Rightarrow> bool" where
  "computed_ok rid r \<longleftrightarrow> rq_num_computed_tokens r \<le> num_tokens r"

lemma kv_inv_hs_cong:
  assumes "kv_inv hs km" and "\<And>rid. prefix (hs rid) (hs' rid) \<or> km_table km rid = [] \<and> rid \<notin> cached_ids km"
  shows "kv_inv hs' km"
proof -
  have "cached_prefix p (dget_or T rid []) (dget_or C rid 0) (hs' rid) gb"
    if "cached_prefix p (dget_or T rid []) (dget_or C rid 0) (hs rid) gb"
      and "prefix (hs rid) (hs' rid) \<or> dget_or T rid [] = [] \<and> rid \<notin> keyset C" for p T C rid gb
    using that(2)
  proof
    assume "prefix (hs rid) (hs' rid)"
    with that(1) show ?thesis by (auto simp: cached_prefix_def prefix_def nth_append)
  next
    assume e: "dget_or T rid [] = [] \<and> rid \<notin> keyset C"
    then have "dget_or C rid 0 = 0" by (simp add: dget_or_def map_of_None_iff [THEN iffD2])
    with e show ?thesis by (simp add: cached_prefix_def)
  qed
  note cong = this
  have pre: "prefix (hs rid) (hs' rid) \<or> dget_or (sm_req_to_blocks (km_sm km)) rid [] = [] \<and>
      rid \<notin> keyset (sm_num_cached_block (km_sm km))" for rid
    using assms(2) [of rid] by (simp add: km_table_def sm_cached_def)
  have "kv_ok hs' gid_bytes p (sm_req_to_blocks (km_sm km)) (sm_num_cached_block (km_sm km)) xs"
    if "kv_ok hs gid_bytes p (sm_req_to_blocks (km_sm km)) (sm_num_cached_block (km_sm km)) xs" for p xs
    unfolding kv_ok_def
  proof (intro conjI allI impI)
    fix rid
    show "cached_prefix p (dget_or (sm_req_to_blocks (km_sm km)) rid []) (dget_or (sm_num_cached_block (km_sm km)) rid 0) (hs' rid) gid_bytes"
      by (rule cong [OF kv_okD(7) [OF that] pre])
  qed (use kv_okD(1-6) [OF that] in simp_all)
  with assms(1) show ?thesis unfolding kv_inv_def by blast
qed

lemma sched_okD:
  assumes "sched_ok caching bs hk ck mml run w reqs km"
  shows "distinct (run @ w)" "wf_dict reqs" "keyset reqs = set run \<union> set w" "kv_inv (table_hashes reqs) km"
    "\<not> kc_use_eagle (km_coordinator km)" "km_max_model_len km = mml" "km_enable_caching km = caching" "sm_block_size (km_sm km) = bs"
    "map_of reqs rid = Some r \<Longrightarrow> request_ok hk ck mml (rid \<in> set run) rid r"
    "rid \<notin> set run \<Longrightarrow> km_table km rid = []" "rid \<notin> set run \<Longrightarrow> rid \<notin> cached_ids km"
  using assms unfolding sched_ok_def by blast+

lemma sched_ok_step:
  assumes ok: "sched_ok caching bs hk ck mml run w reqs km"
    and km': "kv_inv (table_hashes reqs) km'" "kv_same km km'"
    and free: "\<And>rid. rid \<notin> set run' \<Longrightarrow> km_table km' rid = [] \<and> rid \<notin> cached_ids km'"
    and lists: "distinct (run' @ w')" "wf_dict reqs'" "keyset reqs' = set run' \<union> set w'"
    and req: "\<And>rid r. map_of reqs' rid = Some r \<Longrightarrow> request_ok hk ck' mml (rid \<in> set run') rid r"
    and hs: "\<And>rid. rid \<in> set run' \<Longrightarrow> prefix (table_hashes reqs rid) (table_hashes reqs' rid)"
  shows "sched_ok caching bs hk ck' mml run' w' reqs' km'"
proof -
  have "kv_inv (table_hashes reqs') km'" by (rule kv_inv_hs_cong [OF km'(1)]) (use free hs in blast)
  with sched_okD(5-8) [OF ok] km'(2) free lists req show ?thesis by (simp add: sched_ok_def kv_same_def)
qed

lemma sched_ok_mono:
  assumes ok: "sched_ok caching bs hk ck mml run w reqs km"
    and ck: "\<And>rid r. map_of reqs rid = Some r \<Longrightarrow> ck rid r \<Longrightarrow> ck' rid r"
  shows "sched_ok caching bs hk ck' mml run w reqs km"
  using ok ck by (simp add: sched_ok_def request_ok_def)

lemma live_lookup:
  assumes "sched_ok caching bs hk ck mml run w reqs km" and "rid \<in> set run \<union> set w"
  obtains r where "map_of reqs rid = Some r" "request_ok hk ck mml (rid \<in> set run) rid r"
proof -
  from assms(2) sched_okD(3) [OF assms(1)] have "rid \<in> keyset reqs" by simp
  then obtain r where "map_of reqs rid = Some r" by (metis in_keys_map_of)
  with sched_okD(9) [OF assms(1) this] that show thesis by blast
qed

lemma table_hashes_simps [simp]:
  "table_hashes (AList.delete v reqs) rid = (if rid = v then [] else table_hashes reqs rid)"
  "table_hashes (AList.update v r reqs) rid = (if rid = v then rq_block_hashes r else table_hashes reqs rid)"
  by (simp_all add: table_hashes_def dict_simps)

lemma table_hashes_dmodify:
  "(\<And>r. map_of reqs v = Some r \<Longrightarrow> prefix (rq_block_hashes r) (rq_block_hashes (f r))) \<Longrightarrow>
     prefix (table_hashes reqs rid) (table_hashes (dmodify v f reqs) rid)"
  by (cases "map_of reqs v") (auto simp: table_hashes_def dict_simps split: option.splits)

lemma sched_ok_perm:
  assumes "sched_ok caching bs hk ck mml run w reqs km" and "set w' = set w" and "distinct (run @ w')"
  shows "sched_ok caching bs hk ck mml run w' reqs km"
  using assms by (simp add: sched_ok_def)

text \<open>Changing a request in place.\<close>

lemma sched_ok_modify:
  assumes ok: "sched_ok caching bs hk ck mml run w reqs km"
    and f: "\<And>r. map_of reqs v = Some r \<Longrightarrow> request_ok hk ck mml (v \<in> set run) v r \<Longrightarrow>
      request_ok hk ck' mml (v \<in> set run) v (f r) \<and> prefix (rq_block_hashes r) (rq_block_hashes (f r))"
    and ck: "\<And>rid r. rid \<noteq> v \<Longrightarrow> ck rid r \<Longrightarrow> ck' rid r"
  shows "sched_ok caching bs hk ck' mml run w (dmodify v f reqs) km"
proof (rule sched_ok_step [OF ok sched_okD(4) [OF ok]])
  show "keyset (dmodify v f reqs) = set run \<union> set w" using sched_okD(3) [OF ok] by (simp del: set_map)
next
  fix rid r assume m: "map_of (dmodify v f reqs) rid = Some r"
  show "request_ok hk ck' mml (rid \<in> set run) rid r"
  proof (cases "rid = v")
    case True
    with m f sched_okD(9) [OF ok] show ?thesis by (auto simp: dict_simps)
  next
    case False
    with m have "request_ok hk ck mml (rid \<in> set run) rid r" by (simp add: dict_simps sched_okD(9) [OF ok])
    with ck [OF False] show ?thesis by (simp add: request_ok_def)
  qed
next
  fix rid show "prefix (table_hashes reqs rid) (table_hashes (dmodify v f reqs) rid)"
    by (rule table_hashes_dmodify) (use f sched_okD(9) [OF ok] in blast)
qed (use sched_okD [OF ok] in simp_all)

text \<open>A request leaves: its blocks are freed and its entry is deleted.\<close>

lemma sched_ok_retire:
  assumes ok: "sched_ok caching bs hk ck mml run w reqs km" and id: "rq_request_id r = v"
    and run': "distinct (run' @ w')" "set run' = set run - {v}" "set w' = set w - {v}"
  shows "\<exists>km'. km_free r km = Inr km' \<and> kv_same km km' \<and> sched_ok caching bs hk ck mml run' w' (AList.delete v reqs) km'"
proof -
  obtain km' where km': "km_free r km = Inr km'" "kv_inv (table_hashes reqs) km'"
    "\<And>rid. km_table km' rid = (if rid = v then [] else km_table km rid)"
    using km_free_spec [OF sched_okD(4) [OF ok], of r] id by auto
  note fr = km_free_frame [OF sched_okD(4) [OF ok] km'(1)]
  have "sched_ok caching bs hk ck mml run' w' (AList.delete v reqs) km'"
  proof (rule sched_ok_step [OF ok km'(2)])
    fix rid assume "rid \<notin> set run'"
    then show "km_table km' rid = [] \<and> rid \<notin> cached_ids km'"
      using run'(2) fr id km'(3) sched_okD(10,11) [OF ok] by auto
  next
    show "keyset (AList.delete v reqs) = set run' \<union> set w'"
      using sched_okD(3) [OF ok] run'(2,3) by (simp add: Un_Diff del: set_map)
  next
    fix rid r assume "map_of (AList.delete v reqs) rid = Some r"
    with sched_okD(9) [OF ok] run'(2) show "request_ok hk ck mml (rid \<in> set run') rid r" by (auto simp: dict_simps split: if_splits)
  qed (use fr run' sched_okD(2) [OF ok] in auto)
  with km'(1) fr show ?thesis by blast
qed

lemma waits_simps [simp]: "waits WAITING" "waits WAITING_FOR_FSM" "waits PREEMPTED" "\<not> waits RUNNING"
  by (simp_all add: waits_def)

text \<open>Changes of the bookkeeping fields keep the hashes up to date and the limits.\<close>

lemma hash_view_fields [simp]:
  "hash_view (r\<lparr>rq_status := st\<rparr>) = hash_view r" "hash_view (r\<lparr>rq_stop_reason := sr\<rparr>) = hash_view r"
  "hash_view (r\<lparr>rq_num_computed_tokens := c\<rparr>) = hash_view r" "hash_view (r\<lparr>rq_num_preemptions := p\<rparr>) = hash_view r"
  "hash_view (r\<lparr>rq_num_cached_tokens := k\<rparr>) = hash_view r" "hash_view (r\<lparr>rq_spec_token_ids := d\<rparr>) = hash_view r"
  "hash_view (r\<lparr>rq_trace_avg_score := x\<rparr>) = hash_view r"
  by (simp_all add: hash_view_def)

lemma num_tokens_fields [simp]:
  "num_tokens (r\<lparr>rq_status := st\<rparr>) = num_tokens r" "num_output_tokens (r\<lparr>rq_status := st\<rparr>) = num_output_tokens r"
  "num_tokens (r\<lparr>rq_stop_reason := sr\<rparr>) = num_tokens r" "num_output_tokens (r\<lparr>rq_stop_reason := sr\<rparr>) = num_output_tokens r"
  "num_tokens (r\<lparr>rq_num_computed_tokens := c\<rparr>) = num_tokens r" "num_output_tokens (r\<lparr>rq_num_computed_tokens := c\<rparr>) = num_output_tokens r"
  "num_tokens (r\<lparr>rq_num_preemptions := p\<rparr>) = num_tokens r" "num_output_tokens (r\<lparr>rq_num_preemptions := p\<rparr>) = num_output_tokens r"
  "num_tokens (r\<lparr>rq_num_cached_tokens := k\<rparr>) = num_tokens r" "num_output_tokens (r\<lparr>rq_num_cached_tokens := k\<rparr>) = num_output_tokens r"
  "num_tokens (r\<lparr>rq_spec_token_ids := d\<rparr>) = num_tokens r" "num_output_tokens (r\<lparr>rq_spec_token_ids := d\<rparr>) = num_output_tokens r"
  "num_tokens (r\<lparr>rq_trace_avg_score := x\<rparr>) = num_tokens r" "num_output_tokens (r\<lparr>rq_trace_avg_score := x\<rparr>) = num_output_tokens r"
  by (simp_all add: num_tokens_def num_output_tokens_def)

lemma token_ok_fields [simp]:
  "token_ok mml (r\<lparr>rq_status := st\<rparr>) = token_ok mml r" "token_ok mml (r\<lparr>rq_stop_reason := sr\<rparr>) = token_ok mml r"
  "token_ok mml (r\<lparr>rq_num_preemptions := p\<rparr>) = token_ok mml r" "token_ok mml (r\<lparr>rq_num_cached_tokens := k\<rparr>) = token_ok mml r"
  "token_ok mml (r\<lparr>rq_spec_token_ids := d\<rparr>) = token_ok mml r" "token_ok mml (r\<lparr>rq_trace_avg_score := x\<rparr>) = token_ok mml r"
  by (simp_all add: token_ok_def)

lemma token_ok_computed: "token_ok mml r \<Longrightarrow> 0 \<le> c \<Longrightarrow> token_ok mml (r\<lparr>rq_num_computed_tokens := c\<rparr>)"
  by (simp add: token_ok_def)

subsection \<open>Preemption and allocation\<close>

context block_hashing
begin

lemma hk_fields:
  "hk (r\<lparr>rq_status := st\<rparr>) = hk r" "hk (r\<lparr>rq_stop_reason := sr\<rparr>) = hk r" "hk (r\<lparr>rq_num_computed_tokens := c\<rparr>) = hk r"
  "hk (r\<lparr>rq_num_preemptions := p\<rparr>) = hk r" "hk (r\<lparr>rq_num_cached_tokens := k\<rparr>) = hk r" "hk (r\<lparr>rq_spec_token_ids := d\<rparr>) = hk r"
  "hk (r\<lparr>rq_trace_avg_score := x\<rparr>) = hk r"
  by (rule hash_cong, simp)+

lemma sched_ok_preempt:
  assumes ok: "sched_ok caching bs hk ck mml run w reqs km" and v: "v \<in> set run" and r: "map_of reqs v = Some r"
    and lists: "distinct (run' @ w')" "set run' = set run - {v}" "set w' = insert v (set w)"
  shows "\<exists>km'. km_free r km = Inr km' \<and> kv_same km km' \<and> sched_ok caching bs hk ck mml run' w'
    (dmodify v (\<lambda>r. r\<lparr>rq_status := PREEMPTED, rq_num_computed_tokens := 0, rq_num_preemptions := rq_num_preemptions r + 1\<rparr>) reqs) km'"
proof -
  let ?f = "\<lambda>r. r\<lparr>rq_status := PREEMPTED, rq_num_computed_tokens := 0, rq_num_preemptions := rq_num_preemptions r + 1\<rparr>"
  have id: "rq_request_id r = v" using sched_okD(9) [OF ok r] by (simp add: request_ok_def)
  obtain km' where km': "km_free r km = Inr km'" "kv_inv (table_hashes reqs) km'"
    "\<And>rid. km_table km' rid = (if rid = v then [] else km_table km rid)"
    using km_free_spec [OF sched_okD(4) [OF ok], of r] id by auto
  note fr = km_free_frame [OF sched_okD(4) [OF ok] km'(1)]
  have "sched_ok caching bs hk ck mml run' w' (dmodify v ?f reqs) km'"
  proof (rule sched_ok_step [OF ok km'(2)])
    fix rid assume "rid \<notin> set run'"
    then show "km_table km' rid = [] \<and> rid \<notin> cached_ids km'"
      using lists(2) fr id km'(3) sched_okD(10,11) [OF ok] by auto
  next
    show "keyset (dmodify v ?f reqs) = set run' \<union> set w'"
      using sched_okD(3) [OF ok] lists(2,3) v by (auto simp del: set_map)
  next
    fix rid q assume q: "map_of (dmodify v ?f reqs) rid = Some q"
    show "request_ok hk ck mml (rid \<in> set run') rid q"
    proof (cases "rid = v")
      case True
      from True q r have "q = ?f r" by (simp add: dict_simps)
      with True sched_okD(9) [OF ok r] lists(2) show ?thesis by (simp add: request_ok_def token_ok_computed hk_fields)
    next
      case False
      with q lists(2) sched_okD(9) [OF ok, of rid q] show ?thesis by (simp add: dict_simps)
    qed
  next
    fix rid show "prefix (table_hashes reqs rid) (table_hashes (dmodify v ?f reqs) rid)" by (rule table_hashes_dmodify) simp
  qed (use fr lists(1) sched_okD(2) [OF ok] in simp_all)
  with km'(1) fr show ?thesis by blast
qed

lemma live_cover:
  assumes ok: "sched_ok caching bs hk ck mml run w reqs km" and r: "map_of reqs rid = Some r"
  shows "rq_request_id r = rid" "table_hashes reqs (rq_request_id r) = rq_block_hashes r" "num_tokens r \<le> km_max_model_len km"
    "km_enable_caching km \<longrightarrow> num_tokens r div int (sm_block_size (km_sm km)) \<le> int (length (rq_block_hashes r))"
    "caching \<longrightarrow> distinct (rq_block_hashes r)"
  using sched_okD(6-8) [OF ok] sched_okD(9) [OF ok r] hash_cover [of r] r
  by (simp_all add: request_ok_def token_ok_def table_hashes_def)

lemma alloc_running_ok:
  assumes ok: "sched_ok caching bs hk ck mml run w reqs km" and rid: "rid \<in> set run" and r: "map_of reqs rid = Some r"
    and n: "n \<noteq> 0" and la: "0 \<le> la"
  shows "\<exists>res km'. km_allocate_slots u r n 0 None la False km = Inr (res, km') \<and> kv_same km km' \<and>
    sched_ok caching bs hk ck mml run w reqs km'"
proof -
  note cov = live_cover [OF ok r]
  have "length (kc_managers (km_coordinator km)) = 1" using sched_okD(4) [OF ok] by (simp add: kv_inv_def)
  then have "empty_kv_cache_blocks km = [map Blk []]"
    by (cases "kc_managers (km_coordinator km)") (simp_all add: empty_kv_cache_blocks_def)
  then have eq: "km_allocate_slots u r n 0 None la False km = km_allocate_slots u r n 0 (Some [map Blk []]) la False km"
    by (simp add: km_allocate_slots_def)
  have "may_take km r []" by (simp add: may_take_def)
  from allocate_slots_spec [OF sched_okD(4) [OF ok] cov(2,4,3) n la this, of u 0 False] eq
  obtain res km' where km': "km_allocate_slots u r n 0 None la False km = Inr (res, km')" "kv_inv (table_hashes reqs) km'"
    and tab: "\<And>q. q \<noteq> rid \<Longrightarrow> km_table km' q = km_table km q"
    using cov(1) by (auto split: option.splits)
  note fr = km_allocate_frame [OF sched_okD(4) [OF ok] km'(1), unfolded cov(1)]
  have "sched_ok caching bs hk ck mml run w reqs km'"
  proof (rule sched_ok_step [OF ok km'(2)])
    fix q assume q: "q \<notin> set run"
    with rid have "q \<noteq> rid" by blast
    with tab fr sched_okD(10,11) [OF ok q] show "km_table km' q = [] \<and> q \<notin> cached_ids km'" by auto
  qed (use fr sched_okD [OF ok] in auto)
  with km'(1) fr show ?thesis by blast
qed

lemma waiting_computed_ok:
  assumes ok: "sched_ok caching bs hk ck mml run w reqs km" and rid: "rid \<notin> set run" and r: "map_of reqs rid = Some r"
  shows "\<exists>js. waiting_computed r km = Inr ([map Blk js], int (length js) * int bs, int (length js) * int bs) \<and>
    int (length js) * int bs < num_tokens r \<and> may_take km r js"
proof -
  note cov = live_cover [OF ok r]
  have rq: "rq_num_computed_tokens r = 0" "0 < num_tokens r"
    using sched_okD(9) [OF ok r] rid by (simp_all add: request_ok_def token_ok_def)
  have "length (kc_managers (km_coordinator km)) = 1" using sched_okD(4) [OF ok] by (simp add: kv_inv_def)
  then have empty: "empty_kv_cache_blocks km = [map Blk []]"
    by (cases "kc_managers (km_coordinator km)") (simp_all add: empty_kv_cache_blocks_def)
  show ?thesis
  proof (cases "\<not> km_enable_caching km \<or> (case rq_sampling_params r of Some sp \<Rightarrow> sp_prompt_logprobs sp \<noteq> None | None \<Rightarrow> False)")
    case True
    with rq empty show ?thesis
      by (intro exI [of _ "[]"]) (simp add: waiting_computed_def km_get_computed_blocks_def may_take_def)
  next
    case False
    then have c: "km_enable_caching km" "\<forall>sp. rq_sampling_params r = Some sp \<longrightarrow> sp_prompt_logprobs sp = None"
      by (auto split: option.splits)
    have "1 \<le> num_tokens r" using rq(2) by simp
    from get_computed_blocks_facts [OF sched_okD(4) [OF ok] c(1) sched_okD(5) [OF ok] c(2) this] sched_okD(8) [OF ok]
    obtain js where js: "km_get_computed_blocks r km = Inr ([map Blk js], int (length js) * int bs)"
      "int (length js) * int bs < num_tokens r" "length js \<le> length (rq_block_hashes r)"
      "\<And>k. k < length js \<Longrightarrow> usable (km_pool km) (js ! k) \<and> hash_of (km_pool km) (js ! k) = Some (rq_block_hashes r ! k @ gid_bytes)"
      by auto
    have "may_take km r js"
      by (rule computed_may_take [OF js(4,3) _ c(1)])
        (use cov c(1) sched_okD(7) [OF ok] sched_okD(10,11) [OF ok, of rid] rid in \<open>simp_all add: sm_cached_def\<close>)
    with js rq(1) show ?thesis by (intro exI [of _ js]) (simp add: waiting_computed_def)
  qed
qed

lemma alloc_waiting_ok:
  assumes ok: "sched_ok caching bs hk ck mml run w reqs km" and rid: "rid \<in> set w" and r: "map_of reqs rid = Some r"
    and n: "n \<noteq> 0" and la: "0 \<le> la" and take: "may_take km r js"
  shows "\<exists>res km'. km_allocate_slots u r n c (Some [map Blk js]) la False km = Inr (res, km') \<and> kv_same km km' \<and>
    (if res = None then sched_ok caching bs hk ck mml run w reqs km'
     else \<forall>f w'. distinct ((run @ [rid]) @ w') \<longrightarrow> set w' = set w - {rid} \<longrightarrow> request_ok hk ck mml True rid (f r) \<longrightarrow>
       rq_block_hashes (f r) = rq_block_hashes r \<longrightarrow> sched_ok caching bs hk ck mml (run @ [rid]) w' (dmodify rid f reqs) km')"
proof -
  note cov = live_cover [OF ok r]
  from allocate_slots_spec [OF sched_okD(4) [OF ok] cov(2,4,3) n la take, of u c False]
  obtain res km' where km': "km_allocate_slots u r n c (Some [map Blk js]) la False km = Inr (res, km')" "kv_inv (table_hashes reqs) km'"
    and tab: "\<And>q. q \<noteq> rid \<Longrightarrow> km_table km' q = km_table km q" and none: "res = None \<Longrightarrow> km_table km' rid = km_table km rid"
    using cov(1) by (auto split: option.splits)
  note fr = km_allocate_frame [OF sched_okD(4) [OF ok] km'(1), unfolded cov(1)]
  show ?thesis
  proof (cases "res = None")
    case True
    have "sched_ok caching bs hk ck mml run w reqs km'"
    proof (rule sched_ok_step [OF ok km'(2)])
      fix q assume q: "q \<notin> set run"
      have "km_table km' q = km_table km q" using tab none [OF True] by (cases "q = rid") simp_all
      with fr True sched_okD(10,11) [OF ok q] show "km_table km' q = [] \<and> q \<notin> cached_ids km'" by simp
    qed (use fr sched_okD [OF ok] in auto)
    with True km'(1) fr show ?thesis by (intro exI [of _ res] exI [of _ km']) simp
  next
    case False
    have "sched_ok caching bs hk ck mml (run @ [rid]) w' (dmodify rid f reqs) km'"
      if w': "distinct ((run @ [rid]) @ w')" "set w' = set w - {rid}" and f: "request_ok hk ck mml True rid (f r)"
        "rq_block_hashes (f r) = rq_block_hashes r" for f w'
    proof (rule sched_ok_step [OF ok km'(2)])
      fix q assume q: "q \<notin> set (run @ [rid])"
      then have "q \<noteq> rid" "q \<notin> set run" by auto
      with tab fr sched_okD(10,11) [OF ok this(2)] show "km_table km' q = [] \<and> q \<notin> cached_ids km'" by auto
    next
      show "keyset (dmodify rid f reqs) = set (run @ [rid]) \<union> set w'"
        using sched_okD(3) [OF ok] w'(2) rid by (auto simp del: set_map)
    next
      fix q x assume x: "map_of (dmodify rid f reqs) q = Some x"
      show "request_ok hk ck mml (q \<in> set (run @ [rid])) q x"
      proof (cases "q = rid")
        case True
        with x r f(1) show ?thesis by (simp add: dict_simps)
      next
        case False
        with x sched_okD(9) [OF ok, of q x] show ?thesis by (simp add: dict_simps)
      qed
    next
      fix q show "prefix (table_hashes reqs q) (table_hashes (dmodify rid f reqs) q)"
        by (rule table_hashes_dmodify) (use r f(2) in auto)
    qed (use fr w'(1) sched_okD(2) [OF ok] in simp_all)
    then have all: "\<forall>f w'. distinct ((run @ [rid]) @ w') \<longrightarrow> set w' = set w - {rid} \<longrightarrow> request_ok hk ck mml True rid (f r) \<longrightarrow>
       rq_block_hashes (f r) = rq_block_hashes r \<longrightarrow> sched_ok caching bs hk ck mml (run @ [rid]) w' (dmodify rid f reqs) km'" by blast
    show ?thesis
      by (intro exI [of _ res] exI [of _ km'] conjI) (use False km'(1) fr in blast, use fr in blast, unfold if_not_P [OF False], rule all)
  qed
qed

end

subsection \<open>Operations outside a step\<close>

lemma sched_invE:
  assumes "sched_inv caching bs hk ck s"
  obtains w where "sc_waiting s = FCFSQueue w"
    "sched_ok caching bs hk ck (sc_max_model_len s) (sc_running s) w (sc_requests s) (sc_kv_cache_manager s)"
  using assms unfolding sched_inv_def by blast

text \<open>The settings and counters that an operation leaves alone.\<close>

definition same_limits :: "scheduler \<Rightarrow> scheduler \<Rightarrow> bool" where
  "same_limits s s' \<longleftrightarrow> sc_policy s' = sc_policy s \<and> sc_num_lookahead_tokens s' = sc_num_lookahead_tokens s \<and>
     sc_max_num_scheduled_tokens s' = sc_max_num_scheduled_tokens s \<and> sc_max_num_running_reqs s' = sc_max_num_running_reqs s \<and>
     sc_max_model_len s' = sc_max_model_len s \<and> sc_long_prefill_token_threshold s' = sc_long_prefill_token_threshold s \<and>
     sc_prev_step_scheduled_req_ids s' = sc_prev_step_scheduled_req_ids s"

lemma same_limits_refl [simp]: "same_limits s s"
  by (simp add: same_limits_def)

lemma same_limits_trans: "same_limits s s' \<Longrightarrow> same_limits s' s'' \<Longrightarrow> same_limits s s''"
  by (simp add: same_limits_def)

lemma sched_invI:
  assumes "sched_inv caching bs hk ck s" and "same_limits s s'" and "length (sc_running s') \<le> length (sc_running s)"
    and "sc_waiting s' = FCFSQueue w"
    and "sched_ok caching bs hk ck' (sc_max_model_len s) (sc_running s') w (sc_requests s') (sc_kv_cache_manager s')"
  shows "sched_inv caching bs hk ck' s'"
  using assms by (auto simp: sched_inv_def same_limits_def)

lemma free_request_ok:
  assumes ok: "sched_ok caching bs hk ck mml run w reqs (sc_kv_cache_manager s)"
    and r: "map_of (sc_requests s) v = Some r" "rq_request_id r = v" "is_finished r"
    and lists: "distinct (run' @ w')" "set run' = set run - {v}" "set w' = set w - {v}"
  shows "\<exists>s'. free_request v s = Inr s' \<and> same_limits s s' \<and> sc_running s' = sc_running s \<and> sc_waiting s' = sc_waiting s \<and>
    sc_requests s' = AList.delete v (sc_requests s) \<and> sc_trace_scores s' = sc_trace_scores s \<and>
    sc_finished_req_ids s' = insert v (sc_finished_req_ids s) \<and> sc_pending_pruned_outputs s' = sc_pending_pruned_outputs s \<and>
    sched_ok caching bs hk ck mml run' w' (AList.delete v reqs) (sc_kv_cache_manager s')"
proof -
  obtain km' where "km_free r (sc_kv_cache_manager s) = Inr km'"
    "sched_ok caching bs hk ck mml run' w' (AList.delete v reqs) km'"
    using sched_ok_retire [OF ok r(2) lists] by blast
  with r show ?thesis
    by (simp add: free_request_def free_blocks_of_def req_of_def Let_def same_limits_def)
qed

lemma delete_dmodify [simp]: "AList.delete v (dmodify v f d) = AList.delete v d"
  by (induction d) (auto simp: dmodify_def AList.delete_eq)

lemma butlast_parts:
  assumes "distinct (run @ w)" and "run \<noteq> []"
  shows "distinct (butlast run @ w)" "set (butlast run) = set run - {last run}" "last run \<notin> set w" "last run \<in> set run"
    "distinct (butlast run @ last run # w)"
proof -
  obtain ys y where y: "run = ys @ [y]" using assms(2) by (metis append_butlast_last_id)
  with assms(1) show "distinct (butlast run @ w)" "set (butlast run) = set run - {last run}" "last run \<notin> set w"
    "last run \<in> set run" "distinct (butlast run @ last run # w)" by auto
qed

text \<open>Stopping the lowest running request never fails: it reports the abort to the client of the request, and the
  request leaves the scheduler with its blocks.\<close>

lemma stop_lowest_ok:
  assumes inv: "sched_inv caching bs hk ck s" and ne: "sc_running s \<noteq> []" and v: "v = last (sc_running s)"
  shows "\<exists>s' out ci. stop_lowest_running s = Inr (Some v, s') \<and> sched_inv caching bs hk ck s' \<and> same_limits s s' \<and>
    sc_running s' = butlast (sc_running s) \<and> sc_waiting s' = sc_waiting s \<and> sc_requests s' = AList.delete v (sc_requests s) \<and>
    sc_finished_req_ids s' = insert v (sc_finished_req_ids s) \<and>
    dget_or (sc_pending_pruned_outputs s') ci [] = dget_or (sc_pending_pruned_outputs s) ci [] @ [out] \<and>
    ci = rq_client_index (req_of s v) \<and> eo_request_id out = v \<and> eo_finish_reason out = Some ABORT \<and>
    eo_stop_reason out = Some (StopText ''pruned'')"
proof -
  obtain w where w: "sc_waiting s = FCFSQueue w"
    and ok: "sched_ok caching bs hk ck (sc_max_model_len s) (sc_running s) w (sc_requests s) (sc_kv_cache_manager s)"
    using inv by (rule sched_invE)
  note bl = butlast_parts [OF sched_okD(1) [OF ok] ne, folded v]
  obtain r where r: "map_of (sc_requests s) v = Some r" "request_ok hk ck (sc_max_model_len s) True v r"
    using live_lookup [OF ok, of v] bl(4) by (metis UnI1)
  let ?f = "\<lambda>r. r\<lparr>rq_stop_reason := Some (StopText ''pruned''), rq_status := FINISHED_ABORTED\<rparr>"
  let ?s1 = "upd_req v ?f (s\<lparr>sc_running := butlast (sc_running s)\<rparr>)"
  have r1: "map_of (sc_requests ?s1) v = Some (?f r)" using r(1) by (simp add: upd_req_def dict_simps)
  have id: "rq_request_id r = v" using r(2) by (simp add: request_ok_def)
  let ?ci = "rq_client_index r" let ?out = "pruned_output ?s1 (?f r)"
  let ?s2 = "?s1\<lparr>sc_pending_pruned_outputs := AList.update ?ci (dget_or (sc_pending_pruned_outputs s) ?ci [] @ [?out]) (sc_pending_pruned_outputs s)\<rparr>"
  have "set w = set w - {v}" using bl(3) by simp
  moreover have "sched_ok caching bs hk ck (sc_max_model_len s) (sc_running s) w (sc_requests s) (sc_kv_cache_manager ?s2)"
    using ok by (simp add: upd_req_def)
  moreover have "map_of (sc_requests ?s2) v = Some (?f r)" "rq_request_id (?f r) = v" "is_finished (?f r)"
    using r1 id by (simp_all add: is_finished_def status_is_finished_iff)
  ultimately obtain s' where s': "free_request v ?s2 = Inr s'" "same_limits ?s2 s'" "sc_running s' = sc_running ?s2"
    "sc_waiting s' = sc_waiting ?s2" "sc_requests s' = AList.delete v (sc_requests ?s2)"
    "sc_finished_req_ids s' = insert v (sc_finished_req_ids ?s2)" "sc_pending_pruned_outputs s' = sc_pending_pruned_outputs ?s2"
    "sched_ok caching bs hk ck (sc_max_model_len s) (butlast (sc_running s)) w (AList.delete v (sc_requests s)) (sc_kv_cache_manager s')"
    using free_request_ok [OF _ _ _ _ bl(1,2), of caching bs hk ck "sc_max_model_len s" w "sc_requests s" ?s2 "?f r"] by blast
  have run: "stop_lowest_running s = Inr (Some v, s')"
    using ne v [symmetric] r1 s'(1) by (simp add: stop_lowest_running_def Let_def req_of_def upd_req_def)
  have lim: "same_limits s s'" using s'(2) by (simp add: same_limits_def upd_req_def)
  have reqs: "sc_requests s' = AList.delete v (sc_requests s)" using s'(5) by (simp add: upd_req_def)
  have inv': "sched_inv caching bs hk ck s'"
    by (rule sched_invI [OF inv lim]) (use s'(3,4,8) reqs w in \<open>simp_all add: upd_req_def\<close>)
  have out: "eo_request_id ?out = v" "eo_finish_reason ?out = Some ABORT" "eo_stop_reason ?out = Some (StopText ''pruned'')"
    using id by (simp_all add: pruned_output_def)
  show ?thesis
    by (intro exI [of _ s'] exI [of _ ?out] exI [of _ ?ci] conjI run inv' lim reqs out)
      (use s'(3,4,6,7) r(1) in \<open>simp_all add: upd_req_def dict_simps req_of_def\<close>)
qed

text \<open>Preemption moves the last running request to the front of the waiting queue.\<close>

context block_hashing
begin

lemma preempt_one_ok:
  assumes inv: "sched_inv caching bs hk ck (cx_sched cx)" and ne: "running_of cx \<noteq> []" and v: "v = last (running_of cx)"
    and w: "sc_waiting (cx_sched cx) = FCFSQueue w"
  shows "\<exists>s'. preempt_one cx = Inr (v, cx\<lparr>cx_sched := s', cx_preempted := cx_preempted cx @ [v]\<rparr>) \<and>
    sched_inv caching bs hk ck s' \<and> same_limits (cx_sched cx) s' \<and> sc_running s' = butlast (running_of cx) \<and>
    sc_waiting s' = FCFSQueue (v # w) \<and> (\<forall>q. q \<noteq> v \<longrightarrow> map_of (sc_requests s') q = map_of (sc_requests (cx_sched cx)) q)"
proof -
  let ?s = "cx_sched cx"
  let ?f = "\<lambda>r. r\<lparr>rq_status := PREEMPTED, rq_num_computed_tokens := 0, rq_num_preemptions := rq_num_preemptions r + 1\<rparr>"
  have ok: "sched_ok caching bs hk ck (sc_max_model_len ?s) (sc_running ?s) w (sc_requests ?s) (sc_kv_cache_manager ?s)"
    and pol: "sc_policy ?s \<noteq> PRIORITY" using inv w by (auto simp: sched_inv_def)
  note bl = butlast_parts [OF sched_okD(1) [OF ok] ne, folded v]
  obtain r where r: "map_of (sc_requests ?s) v = Some r"
    using live_lookup [OF ok, of v] bl(4) by (metis UnI1)
  obtain km' where km': "km_free r (sc_kv_cache_manager ?s) = Inr km'"
    "sched_ok caching bs hk ck (sc_max_model_len ?s) (butlast (sc_running ?s)) (v # w) (dmodify v ?f (sc_requests ?s)) km'"
    using sched_ok_preempt [OF ok bl(4) r bl(5,2)] by auto
  let ?s' = "?s\<lparr>sc_running := butlast (sc_running ?s), sc_kv_cache_manager := km', sc_requests := dmodify v ?f (sc_requests ?s),
    sc_waiting := FCFSQueue (v # w)\<rparr>"
  have "preempt_one cx = Inr (v, cx\<lparr>cx_sched := ?s', cx_preempted := cx_preempted cx @ [v]\<rparr>)"
    using pol ne v [symmetric] r km'(1) w by (simp add: preempt_one_def preempt_request_def Let_def upd_req_def req_of_def)
  moreover have lim: "same_limits ?s ?s'" by (simp add: same_limits_def)
  moreover have "sched_inv caching bs hk ck ?s'" by (rule sched_invI [OF inv lim]) (use km'(2) in simp_all)
  ultimately show ?thesis by (intro exI [of _ ?s']) (simp add: dict_simps)
qed

end

lemma add_request_ok:
  assumes inv: "sched_inv caching bs hk ck s" and fresh: "rq_request_id r \<notin> keyset (sc_requests s)"
    and r: "request_ok hk ck (sc_max_model_len s) False (rq_request_id r) r" and w: "sc_waiting s = FCFSQueue w"
  shows "\<exists>s'. add_request r s = Inr s' \<and> sched_inv caching bs hk ck s' \<and> same_limits s s' \<and> sc_running s' = sc_running s \<and>
    sc_waiting s' = FCFSQueue (w @ [rq_request_id r]) \<and> map_of (sc_requests s') (rq_request_id r) = Some r"
proof -
  let ?rid = "rq_request_id r"
  have ok: "sched_ok caching bs hk ck (sc_max_model_len s) (sc_running s) w (sc_requests s) (sc_kv_cache_manager s)"
    using inv w by (auto simp: sched_inv_def)
  have new: "?rid \<notin> set (sc_running s) \<union> set w" using fresh sched_okD(3) [OF ok] by simp
  let ?s' = "s\<lparr>sc_requests := AList.update ?rid r (sc_requests s), sc_waiting := FCFSQueue (w @ [?rid])\<rparr>"
  have run: "add_request r s = Inr ?s'" using w by (simp add: add_request_def Let_def)
  have lim: "same_limits s ?s'" by (simp add: same_limits_def)
  have "sched_ok caching bs hk ck (sc_max_model_len s) (sc_running s) (w @ [?rid]) (sc_requests ?s') (sc_kv_cache_manager s)"
  proof (rule sched_ok_step [OF ok sched_okD(4) [OF ok] kv_same_refl])
    show "keyset (sc_requests ?s') = set (sc_running s) \<union> set (w @ [?rid])"
      using sched_okD(3) [OF ok] by (simp del: set_map)
  next
    fix q x assume "map_of (sc_requests ?s') q = Some x"
    with r new sched_okD(9) [OF ok, of q x] show "request_ok hk ck (sc_max_model_len s) (q \<in> set (sc_running s)) q x"
      by (auto simp: dict_simps split: if_splits)
  next
    fix q assume "q \<in> set (sc_running s)"
    with new have "q \<noteq> ?rid" by blast
    then show "prefix (table_hashes (sc_requests s) q) (table_hashes (sc_requests ?s') q)" by simp
  qed (use new sched_okD [OF ok] in auto)
  with sched_invI [OF inv lim] run lim show ?thesis by (intro exI [of _ ?s']) (simp add: dict_simps)
qed

text \<open>Finishing requests from outside, such as an abort by the client.\<close>

lemma finish_loop_ok:
  assumes "sched_ok caching bs hk ck mml (filter (\<lambda>x. x \<notin> V \<or> x \<in> set rids) run) (filter (\<lambda>x. x \<notin> V \<or> x \<in> set rids) w)
      (sc_requests s) (sc_kv_cache_manager s)"
    and "distinct rids" and "set rids \<subseteq> V \<inter> (set run \<union> set w)" and "status_is_finished st"
  shows "\<exists>s'. finish_loop st rids s = Inr s' \<and> same_limits s s' \<and> sc_running s' = sc_running s \<and> sc_waiting s' = sc_waiting s \<and>
    sc_finished_req_ids s' = set rids \<union> sc_finished_req_ids s \<and> keyset (sc_requests s') = keyset (sc_requests s) - set rids \<and>
    sched_ok caching bs hk ck mml (filter (\<lambda>x. x \<notin> V) run) (filter (\<lambda>x. x \<notin> V) w) (sc_requests s') (sc_kv_cache_manager s')"
  using assms
proof (induction rids arbitrary: s)
  case Nil
  then show ?case by simp
next
  case (Cons v rids)
  note ok = Cons.prems(1)
  have mem: "v \<in> V" "v \<in> set run \<union> set w" "v \<notin> set rids" using Cons.prems(2,3) by auto
  have in_lists: "v \<in> set (filter (\<lambda>x. x \<notin> V \<or> x \<in> set (v # rids)) run) \<union> set (filter (\<lambda>x. x \<notin> V \<or> x \<in> set (v # rids)) w)"
    using mem by auto
  obtain r where r: "map_of (sc_requests s) v = Some r" "rq_request_id r = v"
    using live_lookup [OF ok in_lists] by (metis request_ok_def)
  let ?f = "\<lambda>r. r\<lparr>rq_status := st\<rparr>"
  let ?s1 = "upd_req v ?f s"
  have lists: "distinct (filter (\<lambda>x. x \<notin> V \<or> x \<in> set rids) run @ filter (\<lambda>x. x \<notin> V \<or> x \<in> set rids) w)"
    "set (filter (\<lambda>x. x \<notin> V \<or> x \<in> set rids) run) = set (filter (\<lambda>x. x \<notin> V \<or> x \<in> set (v # rids)) run) - {v}"
    "set (filter (\<lambda>x. x \<notin> V \<or> x \<in> set rids) w) = set (filter (\<lambda>x. x \<notin> V \<or> x \<in> set (v # rids)) w) - {v}"
  proof -
    have sub: "filter (\<lambda>x. x \<notin> V \<or> x \<in> set rids) xs = filter (\<lambda>x. x \<noteq> v) (filter (\<lambda>x. x \<notin> V \<or> x \<in> set (v # rids)) xs)" for xs
      using mem(1,3) unfolding filter_filter by (intro filter_cong) auto
    show "distinct (filter (\<lambda>x. x \<notin> V \<or> x \<in> set rids) run @ filter (\<lambda>x. x \<notin> V \<or> x \<in> set rids) w)"
      using distinct_filter [OF sched_okD(1) [OF ok], of "\<lambda>x. x \<noteq> v"] by (simp only: filter_append sub)
  qed (use mem in auto)
  have ok1: "sched_ok caching bs hk ck mml (filter (\<lambda>x. x \<notin> V \<or> x \<in> set (v # rids)) run) (filter (\<lambda>x. x \<notin> V \<or> x \<in> set (v # rids)) w)
      (sc_requests s) (sc_kv_cache_manager ?s1)" using ok by (simp add: upd_req_def)
  have r1: "map_of (sc_requests ?s1) v = Some (?f r)" "rq_request_id (?f r) = v" "is_finished (?f r)"
    using r Cons.prems(4) by (simp_all add: upd_req_def dict_simps is_finished_def)
  obtain s2 where s2: "free_request v ?s1 = Inr s2" "same_limits ?s1 s2" "sc_running s2 = sc_running ?s1" "sc_waiting s2 = sc_waiting ?s1"
    "sc_requests s2 = AList.delete v (sc_requests ?s1)" "sc_finished_req_ids s2 = insert v (sc_finished_req_ids ?s1)"
    "sched_ok caching bs hk ck mml (filter (\<lambda>x. x \<notin> V \<or> x \<in> set rids) run) (filter (\<lambda>x. x \<notin> V \<or> x \<in> set rids) w)
      (AList.delete v (sc_requests s)) (sc_kv_cache_manager s2)"
    using free_request_ok [OF ok1 r1 lists] by blast
  have reqs: "sc_requests s2 = AList.delete v (sc_requests s)" using s2(5) by (simp add: upd_req_def)
  have rest: "distinct rids" "set rids \<subseteq> V \<inter> (set run \<union> set w)" using Cons.prems(2,3) by auto
  from Cons.IH [OF s2(7) [folded reqs] rest Cons.prems(4)] obtain s' where s': "finish_loop st rids s2 = Inr s'"
    "same_limits s2 s'" "sc_running s' = sc_running s2" "sc_waiting s' = sc_waiting s2"
    "sc_finished_req_ids s' = set rids \<union> sc_finished_req_ids s2" "keyset (sc_requests s') = keyset (sc_requests s2) - set rids"
    "sched_ok caching bs hk ck mml (filter (\<lambda>x. x \<notin> V) run) (filter (\<lambda>x. x \<notin> V) w) (sc_requests s') (sc_kv_cache_manager s')" by blast
  have keys: "keyset (sc_requests s') = keyset (sc_requests s) - set (v # rids)"
    unfolding s'(6) reqs keyset_delete by auto
  have "same_limits s s'" using s2(2) s'(2) by (simp add: same_limits_def upd_req_def)
  with s' s2(1,3,4,6) keys show ?case by (intro exI [of _ s']) (simp add: upd_req_def)
qed

text \<open>The first part of \<open>finish_requests\<close>: the live requests among the given ones leave the two lists.\<close>

lemma finish_requests_step:
  assumes ok: "sched_ok caching bs hk ck (sc_max_model_len s) (sc_running s) w (sc_requests s) (sc_kv_cache_manager s)"
    and st: "status_is_finished st" and w: "sc_waiting s = FCFSQueue w" and V: "V = set ids \<inter> keyset (sc_requests s)"
  obtains valid where "set valid = V" "distinct valid"
    "finish_requests ids st s = finish_loop st valid
       (s\<lparr>sc_running := filter (\<lambda>x. x \<notin> V) (sc_running s), sc_waiting := FCFSQueue (filter (\<lambda>x. x \<notin> V) w)\<rparr>)"
proof -
  let ?live = "\<lambda>rid. case map_of (sc_requests s) rid of None \<Rightarrow> False | Some r \<Rightarrow> \<not> is_finished r"
  define valid where "valid = filter ?live (remdups ids)"
  have live: "?live rid \<longleftrightarrow> rid \<in> keyset (sc_requests s)" for rid
  proof (cases "map_of (sc_requests s) rid")
    case None
    then show ?thesis using map_of_None_iff [of "sc_requests s" rid] by simp
  next
    case (Some r)
    with sched_okD(9) [OF ok Some] map_of_in_keys [OF Some] show ?thesis
      by (auto simp: request_ok_def is_finished_def status_is_finished_iff waits_def)
  qed
  have valid: "set valid = V" "distinct valid" using live by (auto simp: valid_def V)
  have runs: "rq_status (req_of s rid) = RUNNING \<longleftrightarrow> rid \<in> set (sc_running s)" if rid: "rid \<in> V" for rid
  proof -
    have "rid \<in> set (sc_running s) \<union> set w" using that sched_okD(3) [OF ok] by (simp add: V)
    from live_lookup [OF ok this] obtain r where "map_of (sc_requests s) rid = Some r"
      "request_ok hk ck (sc_max_model_len s) (rid \<in> set (sc_running s)) rid r" .
    then show ?thesis by (cases "rid \<in> set (sc_running s)") (auto simp: req_of_def request_ok_def waits_def)
  qed
  let ?rr = "filter (\<lambda>rid. rq_status (req_of s rid) = RUNNING) valid"
  let ?wr = "filter (\<lambda>rid. rq_status (req_of s rid) \<noteq> RUNNING) valid"
  let ?run = "filter (\<lambda>x. x \<notin> V) (sc_running s)" and ?w = "filter (\<lambda>x. x \<notin> V) w"
  have rr: "set ?rr = V \<inter> set (sc_running s)" "set ?wr = V - set (sc_running s)" using runs valid(1) by auto
  have dist: "distinct (sc_running s)" "set (sc_running s) \<inter> set w = {}" using sched_okD(1) [OF ok] by auto
  have run: "(if ?rr \<noteq> [] then s\<lparr>sc_running := remove_all (sc_running s) (set ?rr)\<rparr> else s) = s\<lparr>sc_running := ?run\<rparr>"
  proof (cases "?rr = []")
    case True
    then have "V \<inter> set (sc_running s) = {}" using rr(1) by simp
    then have "?run = sc_running s" by (auto simp: filter_id_conv)
    with True show ?thesis by simp
  next
    case False
    have "remove_all (sc_running s) (set ?rr) = ?run"
      unfolding remove_all_eq_filter [OF dist(1)] rr(1) by (auto intro: filter_cong)
    with False show ?thesis by simp
  qed
  have wait: "(if ?wr \<noteq> [] then ebind (queue_remove_requests ?wr (sc_waiting (s\<lparr>sc_running := ?run\<rparr>)))
        (\<lambda>q. Inr (s\<lparr>sc_running := ?run, sc_waiting := q\<rparr>)) else Inr (s\<lparr>sc_running := ?run\<rparr>)) = (Inr (s\<lparr>sc_running := ?run, sc_waiting := FCFSQueue ?w\<rparr>) :: scheduler result)"
  proof (cases "?wr = []")
    case True
    then have "V - set (sc_running s) = {}" using rr(2) by simp
    then have "?w = w" using dist(2) by (auto simp: filter_id_conv)
    with True w show ?thesis by simp
  next
    case False
    have "filter (\<lambda>r. r \<notin> set ?wr) w = ?w" unfolding rr(2) using dist(2) by (auto intro!: filter_cong)
    with False w show ?thesis by simp
  qed
  have "finish_requests ids st s = finish_loop st valid (s\<lparr>sc_running := ?run, sc_waiting := FCFSQueue ?w\<rparr>)"
    unfolding finish_requests_def Let_def valid_def [symmetric] run wait using st by simp
  with valid show thesis by (rule that)
qed

lemma finish_requests_ok:
  assumes inv: "sched_inv caching bs hk ck s" and st: "status_is_finished st" and w: "sc_waiting s = FCFSQueue w"
    and V: "V = set ids \<inter> keyset (sc_requests s)"
  shows "\<exists>s'. finish_requests ids st s = Inr s' \<and> sched_inv caching bs hk ck s' \<and> same_limits s s' \<and>
    sc_running s' = filter (\<lambda>x. x \<notin> V) (sc_running s) \<and> sc_waiting s' = FCFSQueue (filter (\<lambda>x. x \<notin> V) w) \<and>
    keyset (sc_requests s') = keyset (sc_requests s) - set ids \<and> sc_finished_req_ids s' = V \<union> sc_finished_req_ids s"
proof -
  have ok: "sched_ok caching bs hk ck (sc_max_model_len s) (sc_running s) w (sc_requests s) (sc_kv_cache_manager s)"
    using inv w by (auto simp: sched_inv_def)
  let ?run = "filter (\<lambda>x. x \<notin> V) (sc_running s)" and ?w = "filter (\<lambda>x. x \<notin> V) w"
  let ?s1 = "s\<lparr>sc_running := ?run, sc_waiting := FCFSQueue ?w\<rparr>"
  obtain valid where valid: "set valid = V" "distinct valid" and step: "finish_requests ids st s = finish_loop st valid ?s1"
    using ok st w V by (rule finish_requests_step)
  have all: "filter (\<lambda>x. x \<notin> V \<or> x \<in> set valid) xs = xs" for xs using valid(1) by (auto simp: filter_id_conv)
  have "sched_ok caching bs hk ck (sc_max_model_len s) (filter (\<lambda>x. x \<notin> V \<or> x \<in> set valid) (sc_running s))
      (filter (\<lambda>x. x \<notin> V \<or> x \<in> set valid) w) (sc_requests ?s1) (sc_kv_cache_manager ?s1)" using ok unfolding all by simp
  moreover have "set valid \<subseteq> V \<inter> (set (sc_running s) \<union> set w)" using valid(1) sched_okD(3) [OF ok] by (auto simp: V)
  ultimately obtain s' where s': "finish_loop st valid ?s1 = Inr s'" "same_limits ?s1 s'" "sc_running s' = ?run"
    "sc_waiting s' = FCFSQueue ?w" "sc_finished_req_ids s' = V \<union> sc_finished_req_ids s"
    "keyset (sc_requests s') = keyset (sc_requests s) - V"
    "sched_ok caching bs hk ck (sc_max_model_len s) ?run ?w (sc_requests s') (sc_kv_cache_manager s')"
    using finish_loop_ok [OF _ valid(2) _ st, of caching bs hk ck "sc_max_model_len s" V "sc_running s" w ?s1] valid(1) by auto
  have lim: "same_limits s s'" using s'(2) by (simp add: same_limits_def)
  have "sched_inv caching bs hk ck s'" by (rule sched_invI [OF inv lim]) (use s' in simp_all)
  moreover have "keyset (sc_requests s') = keyset (sc_requests s) - set ids" unfolding s'(6) V by blast
  ultimately show ?thesis using step s' lim by (intro exI [of _ s']) simp
qed

end
