(* ===== verification/Sched_Total.thy ===== *)
theory Sched_Total
  imports Sched_Inv
begin

text \<open>
  \<open>Scheduler.schedule\<close> under its invariant: no assertion of the source fails and no lookup raises, every live request
  stays in exactly one queue, the token budget is respected, and every planned number of tokens is positive and
  leaves room below the model length. The proof follows the code: one round of the allocation loop, the loop over
  running requests, the loop over waiting requests, and the construction of the output.
\<close>

subsection \<open>The local state\<close>

text \<open>A planned number of tokens \<open>n\<close> with draft tokens \<open>d\<close>: positive, below the model length, and ending at the tokens
  of the request or after its drafts.\<close>

definition plan_ok :: "int \<Rightarrow> request \<Rightarrow> int \<Rightarrow> token list \<Rightarrow> bool" where
  "plan_ok mml r n d \<longleftrightarrow> 0 < n \<and> rq_num_computed_tokens r + n < mml \<and>
     (if d = [] then rq_num_computed_tokens r + n \<le> num_tokens r
      else rq_num_computed_tokens r + n = num_tokens r + int (length d))"

abbreviation planned :: "sched_ctx \<Rightarrow> reqid list" where
  "planned cx \<equiv> cx_running cx @ cx_new cx @ cx_resumed cx"

definition plan_inv :: "sched_ctx \<Rightarrow> bool" where
  "plan_inv cx \<longleftrightarrow> distinct (planned cx) \<and> set (planned cx) \<subseteq> set (running_of cx) \<and>
     wf_dict (cx_num_scheduled_tokens cx) \<and> keyset (cx_num_scheduled_tokens cx) = set (planned cx) \<and>
     keyset (cx_new_blocks cx) = set (planned cx) \<and> keyset (cx_spec_tokens cx) \<subseteq> set (cx_running cx) \<and>
     0 \<le> cx_token_budget cx \<and>
     cx_token_budget cx + sum_list (dvals (cx_num_scheduled_tokens cx)) = sc_max_num_scheduled_tokens (cx_sched cx) \<and>
     (\<forall>rid n. map_of (cx_num_scheduled_tokens cx) rid = Some n \<longrightarrow>
        plan_ok (sc_max_model_len (cx_sched cx)) (req_of (cx_sched cx) rid) n (dget_or (cx_spec_tokens cx) rid []))"

text \<open>No preempted request was scheduled in the previous step.\<close>

definition prev_ok :: "scheduler \<Rightarrow> bool" where
  "prev_ok s \<longleftrightarrow> (\<forall>rid r. map_of (sc_requests s) rid = Some r \<longrightarrow> rq_status r = PREEMPTED \<longrightarrow>
     rid \<notin> sc_prev_step_scheduled_req_ids s)"

text \<open>While the running requests are visited, those already planned come before the current position.\<close>

definition run_inv :: "bool \<Rightarrow> nat \<Rightarrow> (request \<Rightarrow> bool) \<Rightarrow> sched_ctx \<Rightarrow> bool" where
  "run_inv caching bs hk cx \<longleftrightarrow> sched_inv caching bs hk computed_ok (cx_sched cx) \<and> plan_inv cx \<and>
     cx_new cx = [] \<and> cx_resumed cx = [] \<and> cx_req_index cx \<le> length (running_of cx) \<and>
     set (cx_running cx) \<subseteq> set (take (cx_req_index cx) (running_of cx)) \<and>
     (cx_preempted cx = [] \<longrightarrow> prev_ok (cx_sched cx))"

definition same_plan :: "sched_ctx \<Rightarrow> sched_ctx \<Rightarrow> bool" where
  "same_plan cx cx' \<longleftrightarrow> cx_new cx' = cx_new cx \<and> cx_resumed cx' = cx_resumed cx \<and> cx_running cx' = cx_running cx \<and>
     cx_new_blocks cx' = cx_new_blocks cx \<and> cx_num_scheduled_tokens cx' = cx_num_scheduled_tokens cx \<and>
     cx_token_budget cx' = cx_token_budget cx \<and> cx_spec_tokens cx' = cx_spec_tokens cx \<and> cx_req_index cx' = cx_req_index cx \<and>
     same_limits (cx_sched cx) (cx_sched cx')"

lemma same_plan_refl [simp]: "same_plan cx cx"
  by (simp add: same_plan_def)

lemma same_plan_trans: "same_plan a b \<Longrightarrow> same_plan b c \<Longrightarrow> same_plan a c"
  by (simp add: same_plan_def same_limits_def)

lemma plan_inv_cong:
  assumes "plan_inv cx" and "same_plan cx cx'" and "set (planned cx) \<subseteq> set (running_of cx')"
    and "\<And>rid. rid \<in> set (planned cx) \<Longrightarrow> map_of (sc_requests (cx_sched cx')) rid = map_of (sc_requests (cx_sched cx)) rid"
  shows "plan_inv cx'"
proof -
  have "req_of (cx_sched cx') rid = req_of (cx_sched cx) rid" if "map_of (cx_num_scheduled_tokens cx) rid = Some n" for rid n
    using assms(4) [of rid] map_of_in_keys [OF that] assms(1) by (simp add: plan_inv_def req_of_def)
  with assms(1-3) show ?thesis by (simp add: plan_inv_def same_plan_def same_limits_def)
qed

text \<open>The victim of a round is the last running request, which is not planned yet.\<close>

lemma victim_not_planned:
  assumes inv: "run_inv caching bs hk cx" and idx: "cx_req_index cx < length (running_of cx)"
  shows "last (running_of cx) \<notin> set (planned cx)" "set (planned cx) \<subseteq> set (butlast (running_of cx))"
    "set (cx_running cx) \<subseteq> set (take (cx_req_index cx) (butlast (running_of cx)))"
    "cx_req_index cx \<le> length (butlast (running_of cx))"
proof -
  have dist: "distinct (running_of cx)" using inv by (auto simp: run_inv_def elim!: sched_invE dest!: sched_okD(1))
  have ne: "running_of cx \<noteq> []" using idx by auto
  have tk: "take (cx_req_index cx) (running_of cx) = take (cx_req_index cx) (butlast (running_of cx))"
    using idx by (simp add: take_butlast)
  have pl: "set (planned cx) = set (cx_running cx)" using inv by (simp add: run_inv_def)
  show sub: "set (cx_running cx) \<subseteq> set (take (cx_req_index cx) (butlast (running_of cx)))"
    using inv by (simp add: run_inv_def tk)
  then show "set (planned cx) \<subseteq> set (butlast (running_of cx))" using pl set_take_subset by fast
  with butlast_parts(2) [of "running_of cx" "[]"] dist ne show "last (running_of cx) \<notin> set (planned cx)" by auto
  show "cx_req_index cx \<le> length (butlast (running_of cx))" using idx by simp
qed

lemma run_inv_victim:
  assumes inv: "run_inv caching bs hk cx" and idx: "cx_req_index cx < length (running_of cx)"
    and cx': "same_plan cx cx'" "sched_inv caching bs hk computed_ok (cx_sched cx')" "running_of cx' = butlast (running_of cx)"
    and reqs: "\<And>q. q \<noteq> last (running_of cx) \<Longrightarrow> map_of (sc_requests (cx_sched cx')) q = map_of (sc_requests (cx_sched cx)) q"
    and prev: "cx_preempted cx' = [] \<Longrightarrow> prev_ok (cx_sched cx')"
  shows "run_inv caching bs hk cx'"
proof -
  note v = victim_not_planned [OF inv idx]
  have "map_of (sc_requests (cx_sched cx')) q = map_of (sc_requests (cx_sched cx)) q" if "q \<in> set (planned cx)" for q
    by (rule reqs) (use that v(1) in blast)
  with plan_inv_cong [OF _ cx'(1)] inv cx'(3) v(2) have "plan_inv cx'" by (simp add: run_inv_def)
  with inv cx' v prev show ?thesis by (simp add: run_inv_def same_plan_def)
qed

context block_hashing
begin

lemma make_room_ok:
  assumes inv: "run_inv caching bs hk cx" and idx: "cx_req_index cx < length (running_of cx)" and v: "v = last (running_of cx)"
  shows "\<exists>cx'. make_room rid cx = Inr (if v = rid then Alloc_Done None cx' else Alloc_Retry cx') \<and> run_inv caching bs hk cx' \<and>
    same_plan cx cx' \<and> running_of cx' = butlast (running_of cx) \<and>
    (\<forall>q. q \<noteq> v \<longrightarrow> map_of (sc_requests (cx_sched cx')) q = map_of (sc_requests (cx_sched cx)) q)"
proof -
  have sinv: "sched_inv caching bs hk computed_ok (cx_sched cx)" using inv by (simp add: run_inv_def)
  have ne: "running_of cx \<noteq> []" using idx by auto
  show ?thesis
  proof (cases "sc_policy (cx_sched cx) = GAMBIT")
    case True
    obtain s' where s': "stop_lowest_running (cx_sched cx) = Inr (Some v, s')" "sched_inv caching bs hk computed_ok s'"
      "same_limits (cx_sched cx) s'" "sc_running s' = butlast (running_of cx)"
      "sc_requests s' = AList.delete v (sc_requests (cx_sched cx))"
      using stop_lowest_ok [OF sinv ne v] by blast
    let ?cx = "cx\<lparr>cx_sched := s'\<rparr>"
    have same: "same_plan cx ?cx" using s'(3) by (simp add: same_plan_def)
    have "run_inv caching bs hk ?cx"
    proof (rule run_inv_victim [OF inv idx same])
      assume "cx_preempted ?cx = []"
      with inv s'(3,5) show "prev_ok (cx_sched ?cx)"
        by (auto simp: run_inv_def prev_ok_def same_limits_def dict_simps split: if_splits)
    qed (use s' v in \<open>simp_all add: dict_simps\<close>)
    with True s' same show ?thesis
      by (intro exI [of _ ?cx]) (simp add: make_room_def dict_simps)
  next
    case False
    obtain w where w: "sc_waiting (cx_sched cx) = FCFSQueue w" using sinv by (rule sched_invE)
    obtain s' where s': "preempt_one cx = Inr (v, cx\<lparr>cx_sched := s', cx_preempted := cx_preempted cx @ [v]\<rparr>)"
      "sched_inv caching bs hk computed_ok s'" "same_limits (cx_sched cx) s'" "sc_running s' = butlast (running_of cx)"
      "\<forall>q. q \<noteq> v \<longrightarrow> map_of (sc_requests s') q = map_of (sc_requests (cx_sched cx)) q"
      using preempt_one_ok [OF sinv ne v w] by blast
    let ?cx = "cx\<lparr>cx_sched := s', cx_preempted := cx_preempted cx @ [v]\<rparr>"
    have same: "same_plan cx ?cx" using s'(3) by (simp add: same_plan_def)
    have "run_inv caching bs hk ?cx" by (rule run_inv_victim [OF inv idx same]) (use s' v in simp_all)
    with False s' same show ?thesis by (intro exI [of _ ?cx]) (simp add: make_room_def)
  qed
qed

lemma alloc_round_ok:
  assumes inv: "run_inv caching bs hk cx" and idx: "cx_req_index cx < length (running_of cx)"
    and rid: "rid = running_of cx ! cx_req_index cx" and n: "n \<noteq> 0"
  shows "\<exists>out cx'. alloc_round u rid n cx = Inr out \<and> run_inv caching bs hk cx' \<and> same_plan cx cx' \<and>
    (out = Alloc_Done None cx' \<or> (\<exists>b. out = Alloc_Done (Some b) cx') \<and> running_of cx' = running_of cx \<or>
     out = Alloc_Retry cx' \<and> running_of cx' = butlast (running_of cx) \<and> last (running_of cx) \<noteq> rid) \<and>
    (\<forall>q. q \<noteq> last (running_of cx) \<or> running_of cx' = running_of cx \<longrightarrow>
       map_of (sc_requests (cx_sched cx')) q = map_of (sc_requests (cx_sched cx)) q)"
proof -
  let ?s = "cx_sched cx"
  have sinv: "sched_inv caching bs hk computed_ok ?s" using inv by (simp add: run_inv_def)
  then obtain w where w: "sc_waiting ?s = FCFSQueue w"
    and ok: "sched_ok caching bs hk computed_ok (sc_max_model_len ?s) (sc_running ?s) w (sc_requests ?s) (sc_kv_cache_manager ?s)"
    by (rule sched_invE)
  have la: "0 \<le> sc_num_lookahead_tokens ?s" using sinv by (simp add: sched_inv_def)
  have mem: "rid \<in> set (sc_running ?s)" using idx by (simp add: rid)
  obtain r where r: "map_of (sc_requests ?s) rid = Some r" using live_lookup [OF ok, of rid] mem by (metis UnI1)
  obtain res km' where km': "km_allocate_slots u r n 0 None (sc_num_lookahead_tokens ?s) False (sc_kv_cache_manager ?s) = Inr (res, km')"
    "sched_ok caching bs hk computed_ok (sc_max_model_len ?s) (sc_running ?s) w (sc_requests ?s) km'"
    using alloc_running_ok [OF ok mem r n la] by blast
  let ?cx = "cx\<lparr>cx_sched := ?s\<lparr>sc_kv_cache_manager := km'\<rparr>\<rparr>"
  have same: "same_plan cx ?cx" by (simp add: same_plan_def same_limits_def)
  have "sched_inv caching bs hk computed_ok (cx_sched ?cx)"
    by (rule sched_invI [OF sinv]) (use km'(2) w in \<open>simp_all add: same_limits_def\<close>)
  moreover have "plan_inv ?cx" by (rule plan_inv_cong [OF _ same]) (use inv in \<open>auto simp: run_inv_def plan_inv_def\<close>)
  ultimately have inv': "run_inv caching bs hk ?cx" using inv by (simp add: run_inv_def prev_ok_def)
  have round: "alloc_round u rid n cx = (case res of Some b \<Rightarrow> Inr (Alloc_Done (Some b) ?cx) | None \<Rightarrow> make_room rid ?cx)"
    using r km'(1) by (simp add: alloc_round_def Let_def req_of_def)
  show ?thesis
  proof (cases res)
    case (Some b)
    with round inv' same show ?thesis by (intro exI [of _ "Alloc_Done (Some b) ?cx"] exI [of _ ?cx]) simp
  next
    case None
    have idx': "cx_req_index ?cx < length (running_of ?cx)" using idx by simp
    obtain cx' where cx': "make_room rid ?cx = Inr (if last (running_of cx) = rid then Alloc_Done None cx' else Alloc_Retry cx')"
      "run_inv caching bs hk cx'" "same_plan ?cx cx'" "running_of cx' = butlast (running_of cx)"
      "\<forall>q. q \<noteq> last (running_of cx) \<longrightarrow> map_of (sc_requests (cx_sched cx')) q = map_of (sc_requests ?s) q"
      using make_room_ok [OF inv' idx' refl, of rid] by auto
    have "length (running_of cx') \<noteq> length (running_of cx)" using cx'(4) idx by simp
    then have "running_of cx' \<noteq> running_of cx" by metis
    with None round cx' same_plan_trans [OF same cx'(3)] show ?thesis
      by (cases "last (running_of cx) = rid")
        (intro exI [of _ "Alloc_Done None cx'"] exI [of _ cx'], simp, intro exI [of _ "Alloc_Retry cx'"] exI [of _ cx'], simp)
  qed
qed

lemma alloc_running_total:
  assumes "run_inv caching bs hk cx" and "cx_req_index cx < length (running_of cx)"
    and "rid = running_of cx ! cx_req_index cx" and "n \<noteq> 0"
  shows "\<exists>nb cx'. alloc_running u rid n cx = Inr (nb, cx') \<and> run_inv caching bs hk cx' \<and> same_plan cx cx' \<and>
    (nb \<noteq> None \<longrightarrow> cx_req_index cx' < length (running_of cx') \<and> rid = running_of cx' ! cx_req_index cx' \<and>
       map_of (sc_requests (cx_sched cx')) rid = map_of (sc_requests (cx_sched cx)) rid)"
  using assms
proof (induction "length (running_of cx)" arbitrary: cx rule: less_induct)
  case less
  note inv = less.prems(1) and idx = less.prems(2) and rid = less.prems(3)
  obtain out cx1 where out: "alloc_round u rid n cx = Inr out" "run_inv caching bs hk cx1" "same_plan cx cx1"
    and cs: "out = Alloc_Done None cx1 \<or> (\<exists>b. out = Alloc_Done (Some b) cx1) \<and> running_of cx1 = running_of cx \<or>
     out = Alloc_Retry cx1 \<and> running_of cx1 = butlast (running_of cx) \<and> last (running_of cx) \<noteq> rid"
    and all: "\<forall>q. q \<noteq> last (running_of cx) \<or> running_of cx1 = running_of cx \<longrightarrow>
       map_of (sc_requests (cx_sched cx1)) q = map_of (sc_requests (cx_sched cx)) q"
    using alloc_round_ok [OF less.prems, of u] by (elim exE conjE) (rule that; assumption)
  note reqs = all [rule_format]
  have eq: "cx_req_index cx1 = cx_req_index cx" using out(3) by (simp add: same_plan_def)
  from cs show ?case
  proof (elim disjE conjE exE)
    assume "out = Alloc_Done None cx1"
    with out show ?thesis by (simp add: alloc_running.simps)
  next
    fix b assume b: "out = Alloc_Done (Some b) cx1" "running_of cx1 = running_of cx"
    with out idx rid eq reqs [of rid] show ?thesis by (simp add: alloc_running.simps)
  next
    assume retry: "out = Alloc_Retry cx1" "running_of cx1 = butlast (running_of cx)" "last (running_of cx) \<noteq> rid"
    have ne: "running_of cx \<noteq> []" using idx by auto
    have "cx_req_index cx \<noteq> length (running_of cx) - 1" using retry(3) rid last_conv_nth [OF ne] by metis
    then have pos: "cx_req_index cx1 < length (running_of cx1)" "rid = running_of cx1 ! cx_req_index cx1"
      using idx eq retry(2) rid by (simp_all add: nth_butlast)
    have shorter: "length (running_of cx1) < length (running_of cx)" using retry(2) ne by simp
    from less.hyps [OF shorter out(2) pos less.prems(4)]
    obtain nb cx' where "alloc_running u rid n cx1 = Inr (nb, cx')" "run_inv caching bs hk cx'" "same_plan cx1 cx'"
      "nb \<noteq> None \<Longrightarrow> cx_req_index cx' < length (running_of cx') \<and> rid = running_of cx' ! cx_req_index cx' \<and>
         map_of (sc_requests (cx_sched cx')) rid = map_of (sc_requests (cx_sched cx1)) rid" by blast
    moreover have "alloc_running u rid n cx = alloc_running u rid n cx1"
      using out(1) retry(1) by (subst alloc_running.simps) simp
    moreover have "map_of (sc_requests (cx_sched cx1)) rid = map_of (sc_requests (cx_sched cx)) rid"
      by (rule reqs) (use retry(3) in blast)
    ultimately show ?thesis using same_plan_trans [OF out(3)] by auto
  qed
qed

end

lemma running_num_new_tokens_bounds:
  assumes "token_ok (sc_max_model_len s) r" and "computed_ok rid r" and "0 \<le> budget"
    and n: "n = running_num_new_tokens s budget r"
  shows "0 \<le> n" "n \<le> budget" "rq_num_computed_tokens r + n < sc_max_model_len s"
    "rq_num_computed_tokens r + n \<le> num_tokens r + int (length (rq_spec_token_ids r))"
proof -
  let ?n0 = "num_tokens_with_spec r + rq_num_output_placeholders r - rq_num_computed_tokens r"
  let ?t = "sc_long_prefill_token_threshold s"
  let ?m = "min (rq_num_prompt_tokens r + rq_max_tokens r) (sc_max_model_len s) - 1 - rq_num_computed_tokens r"
  have eq: "n = min (min (if 0 < ?t \<and> ?t < ?n0 then ?t else ?n0) budget) ?m" by (simp add: n running_num_new_tokens_def Let_def)
  have r: "rq_num_output_placeholders r = 0" "rq_num_computed_tokens r \<le> num_tokens r" "num_tokens r < sc_max_model_len s"
    "num_tokens r < rq_num_prompt_tokens r + rq_max_tokens r" "num_tokens_with_spec r = num_tokens r + int (length (rq_spec_token_ids r))"
    using assms(1,2) by (auto simp: token_ok_def computed_ok_def num_tokens_def num_tokens_with_spec_def)
  show "0 \<le> n" "n \<le> budget" "rq_num_computed_tokens r + n < sc_max_model_len s"
    "rq_num_computed_tokens r + n \<le> num_tokens r + int (length (rq_spec_token_ids r))"
    using r assms(3) by (auto simp: eq split: if_splits)
qed

lemma sum_list_update_absent: "k \<notin> keyset d \<Longrightarrow> sum_list (dvals (AList.update k (v :: int) d)) = sum_list (dvals d) + v"
  by (simp add: update_absent)

lemma dget_or_other: "k \<notin> keyset d \<Longrightarrow> dget_or d k x = x"
  by (simp add: dget_or_def map_of_None_iff [THEN iffD2])

lemma plan_inv_add:
  assumes inv: "plan_inv cx" and new: "rid \<notin> set (planned cx)"
    and pl: "distinct (planned cx')" "set (planned cx') = insert rid (set (planned cx))" "set (planned cx') \<subseteq> set (running_of cx')"
    and upd: "cx_num_scheduled_tokens cx' = AList.update rid n (cx_num_scheduled_tokens cx)"
      "cx_new_blocks cx' = AList.update rid b (cx_new_blocks cx)" "cx_token_budget cx' = cx_token_budget cx - n"
    and spec: "keyset (cx_spec_tokens cx') \<subseteq> set (cx_running cx')"
      "\<And>q. q \<noteq> rid \<Longrightarrow> dget_or (cx_spec_tokens cx') q [] = dget_or (cx_spec_tokens cx) q []"
    and lim: "same_limits (cx_sched cx) (cx_sched cx')" and n: "n \<le> cx_token_budget cx"
    and plan: "plan_ok (sc_max_model_len (cx_sched cx)) (req_of (cx_sched cx') rid) n (dget_or (cx_spec_tokens cx') rid [])"
    and reqs: "\<And>q. q \<noteq> rid \<Longrightarrow> map_of (sc_requests (cx_sched cx')) q = map_of (sc_requests (cx_sched cx)) q"
  shows "plan_inv cx'"
proof -
  have keys: "rid \<notin> keyset (cx_num_scheduled_tokens cx)" using inv new by (simp add: plan_inv_def)
  have "plan_ok (sc_max_model_len (cx_sched cx')) (req_of (cx_sched cx') q) m (dget_or (cx_spec_tokens cx') q [])"
    if "map_of (cx_num_scheduled_tokens cx') q = Some m" for q m
  proof (cases "q = rid")
    case True
    with that plan lim show ?thesis by (simp add: upd dict_simps same_limits_def)
  next
    case False
    with reqs [OF False] have "req_of (cx_sched cx') q = req_of (cx_sched cx) q" by (simp add: req_of_def)
    with False that inv lim spec(2) show ?thesis by (simp add: upd dict_simps same_limits_def plan_inv_def)
  qed
  with inv pl spec(1) lim n sum_list_update_absent [OF keys, of n] show ?thesis
    by (simp add: plan_inv_def upd same_limits_def del: set_map)
qed

text \<open>What a running request adds to the plan.\<close>

lemma schedule_running_view:
  assumes "map_of (sc_requests (cx_sched cx)) rid = Some r"
  obtains d :: "token list" and s' :: scheduler where "schedule_running rid n b cx = cx\<lparr>cx_running := cx_running cx @ [rid],
      cx_new_blocks := AList.update rid b (cx_new_blocks cx),
      cx_num_scheduled_tokens := AList.update rid n (cx_num_scheduled_tokens cx),
      cx_token_budget := cx_token_budget cx - n, cx_req_index := cx_req_index cx + 1,
      cx_spec_tokens := (if d = [] then cx_spec_tokens cx else AList.update rid d (cx_spec_tokens cx)), cx_sched := s'\<rparr>"
    "d = (if n + rq_num_computed_tokens r - num_tokens r > 0 then take (nat (n + rq_num_computed_tokens r - num_tokens r)) (rq_spec_token_ids r) else [])"
    "s' = (if rq_spec_token_ids r = [] then cx_sched cx else upd_req rid (\<lambda>r. r\<lparr>rq_spec_token_ids := []\<rparr>) (cx_sched cx))"
proof -
  let ?k = "n + rq_num_computed_tokens r - num_tokens r"
  let ?d = "if ?k > 0 then take (nat ?k) (rq_spec_token_ids r) else []"
  let ?s' = "if rq_spec_token_ids r = [] then cx_sched cx else upd_req rid (\<lambda>r. r\<lparr>rq_spec_token_ids := []\<rparr>) (cx_sched cx)"
  show thesis
    by (rule that [OF _ refl refl])
      (use assms in \<open>simp add: schedule_running_def Let_def req_of_def\<close>)
qed

context block_hashing
begin

lemma schedule_running_ok:
  assumes inv: "run_inv caching bs hk cx" and idx: "cx_req_index cx < length (running_of cx)"
    and rid: "rid = running_of cx ! cx_req_index cx" and r: "map_of (sc_requests (cx_sched cx)) rid = Some r"
    and n: "n = running_num_new_tokens (cx_sched cx) (cx_token_budget cx) r" "n \<noteq> 0"
  shows "run_inv caching bs hk (schedule_running rid n b cx)"
proof -
  let ?s = "cx_sched cx" let ?mml = "sc_max_model_len ?s"
  have sinv: "sched_inv caching bs hk computed_ok ?s" and pinv: "plan_inv cx" and lists: "cx_new cx = []" "cx_resumed cx = []"
    using inv by (simp_all add: run_inv_def)
  then obtain w where w: "sc_waiting ?s = FCFSQueue w"
    and ok: "sched_ok caching bs hk computed_ok ?mml (sc_running ?s) w (sc_requests ?s) (sc_kv_cache_manager ?s)"
    by (elim sched_invE)
  have dist: "distinct (sc_running ?s)" using sched_okD(1) [OF ok] by simp
  have mem: "rid \<in> set (sc_running ?s)" using idx by (simp add: rid)
  have sub: "set (cx_running cx) \<subseteq> set (take (cx_req_index cx) (sc_running ?s))" using inv by (simp add: run_inv_def)
  have new: "rid \<notin> set (cx_running cx)"
    using sub id_take_nth_drop [OF idx] dist rid by (metis distinct_append disjoint_iff list.set_intros(1) subsetD)
  have keys: "rid \<notin> keyset (cx_num_scheduled_tokens cx)" "rid \<notin> keyset (cx_spec_tokens cx)"
    using pinv new lists by (auto simp: plan_inv_def simp del: set_map)
  have ro: "request_ok hk computed_ok ?mml True rid r" using sched_okD(9) [OF ok r] mem by simp
  have bounds: "0 \<le> n" "n \<le> cx_token_budget cx" "rq_num_computed_tokens r + n < ?mml"
    "rq_num_computed_tokens r + n \<le> num_tokens r + int (length (rq_spec_token_ids r))"
    using running_num_new_tokens_bounds [OF _ _ _ n(1), of rid] ro pinv by (auto simp: request_ok_def plan_inv_def)
  obtain d s' where view: "schedule_running rid n b cx = cx\<lparr>cx_running := cx_running cx @ [rid],
      cx_new_blocks := AList.update rid b (cx_new_blocks cx),
      cx_num_scheduled_tokens := AList.update rid n (cx_num_scheduled_tokens cx),
      cx_token_budget := cx_token_budget cx - n, cx_req_index := cx_req_index cx + 1,
      cx_spec_tokens := (if d = [] then cx_spec_tokens cx else AList.update rid d (cx_spec_tokens cx)), cx_sched := s'\<rparr>"
    and d: "d = (if n + rq_num_computed_tokens r - num_tokens r > 0 then take (nat (n + rq_num_computed_tokens r - num_tokens r)) (rq_spec_token_ids r) else [])"
    and s': "s' = (if rq_spec_token_ids r = [] then ?s else upd_req rid (\<lambda>r. r\<lparr>rq_spec_token_ids := []\<rparr>) ?s)"
    using schedule_running_view [OF r] by blast
  let ?cx = "schedule_running rid n b cx"
  have fields: "sc_running s' = sc_running ?s" "sc_waiting s' = sc_waiting ?s" "same_limits ?s s'"
    "sc_kv_cache_manager s' = sc_kv_cache_manager ?s"
    by (simp_all add: s' upd_req_def same_limits_def)
  have ok': "sched_ok caching bs hk computed_ok ?mml (sc_running ?s) w (sc_requests s') (sc_kv_cache_manager ?s)"
  proof (cases "rq_spec_token_ids r = []")
    case False
    have "sched_ok caching bs hk computed_ok ?mml (sc_running ?s) w (dmodify rid (\<lambda>r. r\<lparr>rq_spec_token_ids := []\<rparr>) (sc_requests ?s)) (sc_kv_cache_manager ?s)"
      by (rule sched_ok_modify [OF ok]) (auto simp: request_ok_def computed_ok_def hk_fields)
    with False show ?thesis by (simp add: s' upd_req_def)
  qed (simp add: s' ok)
  have sinv': "sched_inv caching bs hk computed_ok s'" by (rule sched_invI [OF sinv fields(3)]) (use fields w ok' in simp_all)
  have lookup: "map_of (sc_requests s') q = (if q = rid \<and> rq_spec_token_ids r \<noteq> [] then Some (r\<lparr>rq_spec_token_ids := []\<rparr>) else map_of (sc_requests ?s) q)" for q
    using r by (simp add: s' upd_req_def dict_simps)
  have plan: "plan_ok ?mml (req_of s' rid) n d"
    using bounds n(2) r by (auto simp: plan_ok_def lookup req_of_def d split: if_splits)
  have "plan_inv ?cx"
  proof (rule plan_inv_add [OF pinv])
    show "rid \<notin> set (planned cx)" using new lists by simp
    show "distinct (planned ?cx)" "set (planned ?cx) = insert rid (set (planned cx))" "set (planned ?cx) \<subseteq> set (running_of ?cx)"
      using pinv new lists mem by (auto simp: view plan_inv_def fields(1))
    show "keyset (cx_spec_tokens ?cx) \<subseteq> set (cx_running ?cx)"
      using pinv by (simp add: view plan_inv_def insert_mono subset_insertI2 del: set_map)
    show "plan_ok ?mml (req_of (cx_sched ?cx) rid) n (dget_or (cx_spec_tokens ?cx) rid [])"
      using plan dget_or_other [OF keys(2), of "[]"] by (cases "d = []") (simp_all add: view dict_simps)
    show "map_of (sc_requests (cx_sched ?cx)) q = map_of (sc_requests (cx_sched cx)) q" if "q \<noteq> rid" for q
      using that by (simp add: view lookup)
  qed (use bounds(2) fields(3) in \<open>simp_all add: view dict_simps\<close>)
  moreover have "set (cx_running cx @ [rid]) \<subseteq> set (take (cx_req_index cx + 1) (sc_running s'))"
    using sub idx by (auto simp: fields(1) take_Suc_conv_app_nth rid)
  moreover have "prev_ok ?s \<Longrightarrow> prev_ok s'"
    using fields(3) r by (auto simp: prev_ok_def lookup same_limits_def split: if_splits)
  ultimately show ?thesis
    using inv sinv' idx fields(1) view by (simp add: run_inv_def)
qed

lemma running_loop_total:
  assumes "run_inv caching bs hk cx"
  shows "\<exists>cx'. running_loop u cx = Inr cx' \<and> run_inv caching bs hk cx' \<and> same_limits (cx_sched cx) (cx_sched cx')"
  using assms
proof (induction "length (running_of cx) + 1 - cx_req_index cx" arbitrary: cx rule: less_induct)
  case less
  note inv = less.prems
  show ?case
  proof (cases "cx_req_index cx < length (running_of cx) \<and> cx_token_budget cx > 0")
    case False
    then have "running_loop u cx = Inr cx" by (subst running_loop.simps) (simp only: if_False)
    with inv show ?thesis by simp
  next
    case True
    let ?rid = "running_of cx ! cx_req_index cx"
    let ?n = "running_num_new_tokens (cx_sched cx) (cx_token_budget cx) (req_of (cx_sched cx) ?rid)"
    have sinv: "sched_inv caching bs hk computed_ok (cx_sched cx)" using inv by (simp add: run_inv_def)
    then obtain w where ok: "sched_ok caching bs hk computed_ok (sc_max_model_len (cx_sched cx)) (running_of cx) w (sc_requests (cx_sched cx))
        (sc_kv_cache_manager (cx_sched cx))" by (rule sched_invE)
    have "?rid \<in> set (running_of cx) \<union> set w" using True by simp
    then obtain r where r: "map_of (sc_requests (cx_sched cx)) ?rid = Some r" by (rule live_lookup [OF ok])
    show ?thesis
    proof (cases "?n = 0")
      case True0: True
      let ?cx = "cx\<lparr>cx_req_index := cx_req_index cx + 1\<rparr>"
      have "set (cx_running cx) \<subseteq> set (take (Suc (cx_req_index cx)) (running_of cx))"
        using inv True by (auto simp: run_inv_def take_Suc_conv_app_nth)
      with inv True have inv': "run_inv caching bs hk ?cx" by (simp add: run_inv_def plan_inv_def)
      have "length (running_of ?cx) + 1 - cx_req_index ?cx < length (running_of cx) + 1 - cx_req_index cx" using True by simp linarith
      from less.hyps [OF this inv'] True True0 show ?thesis by (subst running_loop.simps) (simp add: Let_def)
    next
      case False
      obtain nb cx1 where a: "alloc_running u ?rid ?n cx = Inr (nb, cx1)" "run_inv caching bs hk cx1" "same_plan cx cx1"
        and pos: "nb \<noteq> None \<longrightarrow> cx_req_index cx1 < length (running_of cx1) \<and> ?rid = running_of cx1 ! cx_req_index cx1 \<and>
          map_of (sc_requests (cx_sched cx1)) ?rid = map_of (sc_requests (cx_sched cx)) ?rid"
        using alloc_running_total [OF inv conjunct1 [OF True] refl False, of u] by (elim exE conjE) (rule that; assumption)
      have lim: "same_limits (cx_sched cx) (cx_sched cx1)" using a(3) by (simp add: same_plan_def)
      show ?thesis
      proof (cases nb)
        case None
        with a True False lim show ?thesis by (subst running_loop.simps) (simp add: Let_def)
      next
        case (Some b)
        let ?cx = "schedule_running ?rid ?n b cx1"
        have p: "cx_req_index cx1 < length (running_of cx1)" "?rid = running_of cx1 ! cx_req_index cx1"
          "map_of (sc_requests (cx_sched cx1)) ?rid = Some r" using pos Some r by auto
        have n: "?n = running_num_new_tokens (cx_sched cx1) (cx_token_budget cx1) r"
          using a(3) r by (simp add: same_plan_def same_limits_def running_num_new_tokens_def req_of_def)
        have inv': "run_inv caching bs hk ?cx" by (rule schedule_running_ok [OF a(2) p n False])
        have "length (running_of ?cx) + 1 - cx_req_index ?cx < length (running_of cx) + 1 - cx_req_index cx"
          using alloc_running_shrinks [OF a(1)] p(1) True by (simp add: schedule_running_measure)
        from less.hyps [OF this inv'] obtain cx' where cx': "running_loop u ?cx = Inr cx'" "run_inv caching bs hk cx'"
          "same_limits (cx_sched ?cx) (cx_sched cx')" by blast
        have "same_limits (cx_sched cx1) (cx_sched ?cx)" by (simp add: schedule_running_def Let_def same_limits_def upd_req_def)
        then have "same_limits (cx_sched cx) (cx_sched cx')" using lim cx'(3) by (blast intro: same_limits_trans)
        moreover have "running_loop u cx = running_loop u ?cx"
          using a(1) Some True False by (subst running_loop.simps) (simp add: Let_def)
        ultimately show ?thesis using cx' by simp
      qed
    qed
  qed
qed

end

subsection \<open>Waiting requests\<close>

text \<open>The skipped requests \<open>sk\<close> go back in front of the queue at the end, so the invariant counts them as waiting.\<close>

definition wait_inv :: "bool \<Rightarrow> nat \<Rightarrow> (request \<Rightarrow> bool) \<Rightarrow> sched_ctx \<Rightarrow> reqid list \<Rightarrow> reqid list \<Rightarrow> bool" where
  "wait_inv caching bs hk cx sk w \<longleftrightarrow> sc_waiting (cx_sched cx) = FCFSQueue w \<and>
     sched_inv caching bs hk computed_ok ((cx_sched cx)\<lparr>sc_waiting := FCFSQueue (sk @ w)\<rparr>) \<and> plan_inv cx \<and> prev_ok (cx_sched cx) \<and>
     set (cx_resumed cx) \<inter> sc_prev_step_scheduled_req_ids (cx_sched cx) = {}"

lemma wait_invD:
  assumes "wait_inv caching bs hk cx sk w"
  shows "sc_waiting (cx_sched cx) = FCFSQueue w" "plan_inv cx" "prev_ok (cx_sched cx)"
    "set (cx_resumed cx) \<inter> sc_prev_step_scheduled_req_ids (cx_sched cx) = {}"
    "sched_ok caching bs hk computed_ok (sc_max_model_len (cx_sched cx)) (running_of cx) (sk @ w) (sc_requests (cx_sched cx)) (sc_kv_cache_manager (cx_sched cx))"
    "length (running_of cx) \<le> sc_max_num_running_reqs (cx_sched cx)"
    "sched_inv caching bs hk computed_ok ((cx_sched cx)\<lparr>sc_waiting := FCFSQueue (sk @ w)\<rparr>)"
  using assms by (simp_all add: wait_inv_def sched_inv_def)

lemma wait_inv_skip:
  assumes inv: "wait_inv caching bs hk cx sk (rid # w)"
  shows "\<exists>cx'. skip_waiting rid cx (FCFSQueue sk) = Inr (cx', FCFSQueue (rid # sk)) \<and> wait_inv caching bs hk cx' (rid # sk) w \<and>
    same_limits (cx_sched cx) (cx_sched cx') \<and> cx_preempted cx' = cx_preempted cx"
proof -
  note d = wait_invD [OF inv]
  let ?cx = "cx\<lparr>cx_sched := (cx_sched cx)\<lparr>sc_waiting := FCFSQueue w\<rparr>\<rparr>"
  have "sched_ok caching bs hk computed_ok (sc_max_model_len (cx_sched cx)) (running_of cx) ((rid # sk) @ w) (sc_requests (cx_sched cx))
      (sc_kv_cache_manager (cx_sched cx))"
    by (rule sched_ok_perm [OF d(5)]) (use sched_okD(1) [OF d(5)] in auto)
  with d(7) have "sched_inv caching bs hk computed_ok ((cx_sched cx)\<lparr>sc_waiting := FCFSQueue ((rid # sk) @ w)\<rparr>)"
    by (simp add: sched_inv_def)
  with d have "wait_inv caching bs hk ?cx (rid # sk) w" by (simp add: wait_inv_def plan_inv_def prev_ok_def req_of_def)
  moreover have "skip_waiting rid cx (FCFSQueue sk) = Inr (?cx, FCFSQueue (rid # sk))"
    using d(1) by (simp add: skip_waiting_def Let_def)
  ultimately show ?thesis by (intro exI [of _ ?cx]) (simp add: same_limits_def)
qed

lemma waiting_num_new_tokens_bounds:
  assumes "waiting_num_new_tokens s budget r c = Some n" and "0 < budget" and "c < num_tokens r"
  shows "0 < n" "n \<le> budget" "c + n \<le> num_tokens r"
  using assms by (auto simp: waiting_num_new_tokens_def Let_def split: if_splits)

context block_hashing
begin

lemma resume_ok:
  assumes inv: "wait_inv caching bs hk cx sk (rid # w)" and res: "resume_fsm fsm rid cx = Some cx'"
  shows "wait_inv caching bs hk cx' sk (rid # w) \<and> same_plan cx cx' \<and> running_of cx' = running_of cx \<and> cx_preempted cx' = cx_preempted cx \<and>
    rq_status (req_of (cx_sched cx') rid) \<in> {WAITING, PREEMPTED}"
proof -
  note d = wait_invD [OF inv]
  obtain r where r: "map_of (sc_requests (cx_sched cx)) rid = Some r"
      "request_ok hk computed_ok (sc_max_model_len (cx_sched cx)) (rid \<in> set (running_of cx)) rid r"
    using live_lookup [OF d(5), of rid] by auto
  have nr: "rid \<notin> set (running_of cx)" using sched_okD(1) [OF d(5)] by auto
  show ?thesis
  proof (cases "rq_status r = WAITING_FOR_FSM")
    case False
    with res r nr have "cx' = cx" "rq_status r \<in> {WAITING, PREEMPTED}"
      by (auto simp: resume_fsm_def req_of_def request_ok_def waits_def split: if_splits)
    with inv r(1) show ?thesis by (simp add: req_of_def)
  next
    case True
    let ?f = "\<lambda>r. r\<lparr>rq_status := WAITING\<rparr>"
    have cx': "cx' = cx\<lparr>cx_sched := upd_req rid ?f (cx_sched cx)\<rparr>"
      using res True r(1) by (auto simp: resume_fsm_def req_of_def split: if_splits)
    have same: "same_plan cx cx'" by (simp add: cx' same_plan_def same_limits_def upd_req_def)
    have "sched_ok caching bs hk computed_ok (sc_max_model_len (cx_sched cx)) (running_of cx) (sk @ rid # w)
        (dmodify rid ?f (sc_requests (cx_sched cx))) (sc_kv_cache_manager (cx_sched cx))"
      by (rule sched_ok_modify [OF d(5)]) (use nr in \<open>auto simp: request_ok_def hk_fields\<close>)
    with d(7) have sinv: "sched_inv caching bs hk computed_ok ((cx_sched cx')\<lparr>sc_waiting := FCFSQueue (sk @ rid # w)\<rparr>)"
      by (simp add: sched_inv_def cx' upd_req_def)
    have np: "rid \<notin> set (planned cx)" using nr d(2) by (auto simp: plan_inv_def)
    have pinv: "plan_inv cx'"
      by (rule plan_inv_cong [OF d(2) same])
        (use d(2) np in \<open>auto simp: cx' upd_req_def dict_simps plan_inv_def\<close>)
    have prev: "prev_ok (cx_sched cx')" using d(3) r(1) by (auto simp: cx' upd_req_def prev_ok_def dict_simps split: if_splits)
    have "wait_inv caching bs hk cx' sk (rid # w)"
      using sinv pinv prev d(1,4) by (simp add: wait_inv_def cx' upd_req_def)
    with same r(1) show ?thesis by (simp add: cx' upd_req_def req_of_def dict_simps)
  qed
qed

lemma admit_ok:
  assumes inv: "wait_inv caching bs hk cx sk (rid # w)" and r: "map_of (sc_requests (cx_sched cx)) rid = Some r"
    and stat: "rq_status r = WAITING \<or> rq_status r = PREEMPTED"
    and room: "length (running_of cx) \<noteq> sc_max_num_running_reqs (cx_sched cx)"
    and c: "0 \<le> c" "c < num_tokens r" and n: "0 < n" "n \<le> cx_token_budget cx" "c + n \<le> num_tokens r"
    and alloc: "\<And>f w'. distinct ((running_of cx @ [rid]) @ w') \<Longrightarrow> set w' = set (sk @ rid # w) - {rid} \<Longrightarrow>
      request_ok hk computed_ok (sc_max_model_len (cx_sched cx)) True rid (f r) \<Longrightarrow> rq_block_hashes (f r) = rq_block_hashes r \<Longrightarrow>
      sched_ok caching bs hk computed_ok (sc_max_model_len (cx_sched cx)) (running_of cx @ [rid]) w' (dmodify rid f (sc_requests (cx_sched cx))) km'"
  shows "\<exists>cx3. admit rid n c (cx\<lparr>cx_sched := (cx_sched cx)\<lparr>sc_kv_cache_manager := km'\<rparr>\<rparr>) = Inr cx3 \<and>
    wait_inv caching bs hk cx3 sk w \<and> same_limits (cx_sched cx) (cx_sched cx3)"
proof -
  let ?s = "cx_sched cx" let ?mml = "sc_max_model_len ?s"
  note d = wait_invD [OF inv]
  have nr: "rid \<notin> set (running_of cx)" using sched_okD(1) [OF d(5)] by auto
  have ro: "request_ok hk computed_ok ?mml False rid r" using sched_okD(9) [OF d(5) r] nr by simp
  let ?f = "\<lambda>r. r\<lparr>rq_status := RUNNING, rq_num_computed_tokens := c,
      rq_num_cached_tokens := (if rq_num_cached_tokens r < 0 then c else rq_num_cached_tokens r)\<rparr>"
  have fr: "request_ok hk computed_ok ?mml True rid (?f r)"
    using ro c by (simp add: request_ok_def computed_ok_def hk_fields token_ok_computed)
  have dist: "distinct ((running_of cx @ [rid]) @ sk @ w)" "set (sk @ w) = set (sk @ rid # w) - {rid}"
    using sched_okD(1) [OF d(5)] by auto
  have ok3: "sched_ok caching bs hk computed_ok ?mml (running_of cx @ [rid]) (sk @ w) (dmodify rid ?f (sc_requests ?s)) km'"
    by (rule alloc [of "sk @ w" ?f]) (use dist fr in simp_all)
  let ?s3 = "?s\<lparr>sc_kv_cache_manager := km', sc_waiting := FCFSQueue w, sc_running := running_of cx @ [rid],
    sc_requests := dmodify rid ?f (sc_requests ?s)\<rparr>"
  let ?new = "cx_new cx @ (if rq_status r = WAITING then [rid] else [])"
  let ?res = "cx_resumed cx @ (if rq_status r = PREEMPTED then [rid] else [])"
  let ?blocks = "km_get_blocks rid km'"
  let ?cx3 = "cx\<lparr>cx_sched := ?s3, cx_req_index := cx_req_index cx + 1, cx_new := ?new, cx_resumed := ?res,
    cx_new_blocks := AList.update rid ?blocks (cx_new_blocks cx),
    cx_num_scheduled_tokens := AList.update rid n (cx_num_scheduled_tokens cx), cx_token_budget := cx_token_budget cx - n\<rparr>"
  have adm: "admit rid n c (cx\<lparr>cx_sched := ?s\<lparr>sc_kv_cache_manager := km'\<rparr>\<rparr>) = Inr ?cx3"
    using d(1) stat r by (auto simp: admit_def Let_def req_of_def upd_req_def)
  have lim: "same_limits ?s ?s3" by (simp add: same_limits_def)
  have np: "rid \<notin> set (planned cx)" using nr d(2) by (auto simp: plan_inv_def)
  have spec: "rid \<notin> keyset (cx_spec_tokens cx)" using np d(2) by (auto simp: plan_inv_def simp del: set_map)
  have "plan_inv ?cx3"
  proof (rule plan_inv_add [OF d(2) np])
    show "distinct (planned ?cx3)" using d(2) np stat by (auto simp: plan_inv_def)
    show "set (planned ?cx3) = insert rid (set (planned cx))" using stat by auto
    show "set (planned ?cx3) \<subseteq> set (running_of ?cx3)" using d(2) by (auto simp: plan_inv_def)
    show "plan_ok ?mml (req_of (cx_sched ?cx3) rid) n (dget_or (cx_spec_tokens ?cx3) rid [])"
      using n ro r dget_or_other [OF spec, of "[]"] by (simp add: plan_ok_def req_of_def dict_simps request_ok_def token_ok_def)
  qed (use d(2) n(2) lim in \<open>simp_all add: plan_inv_def dict_simps\<close>)
  moreover have "prev_ok ?s3" using d(3) r by (auto simp: prev_ok_def dict_simps split: if_splits)
  moreover have "set ?res \<inter> sc_prev_step_scheduled_req_ids ?s3 = {}" using d(3,4) r by (auto simp: prev_ok_def)
  moreover have "sched_inv caching bs hk computed_ok (?s3\<lparr>sc_waiting := FCFSQueue (sk @ w)\<rparr>)"
    using d(6,7) room ok3 by (simp add: sched_inv_def)
  ultimately have "wait_inv caching bs hk ?cx3 sk w" by (simp add: wait_inv_def)
  with adm lim show ?thesis by (intro exI [of _ ?cx3]) simp
qed

lemma try_admit_ok:
  assumes inv: "wait_inv caching bs hk cx sk (rid # w)" and st: "rq_status (req_of (cx_sched cx) rid) \<in> {WAITING, PREEMPTED}"
    and room: "length (running_of cx) \<noteq> sc_max_num_running_reqs (cx_sched cx)" and bud: "0 < cx_token_budget cx"
  shows "\<exists>out cx2. try_waiting u rid cx = Inr (out, cx2) \<and>
    (case out of Skip \<Rightarrow> cx2 = cx
     | Stop_Loop \<Rightarrow> wait_inv caching bs hk cx2 sk (rid # w) \<and> same_limits (cx_sched cx) (cx_sched cx2)
     | Admit n c \<Rightarrow> \<exists>cx3. admit rid n c cx2 = Inr cx3 \<and> wait_inv caching bs hk cx3 sk w \<and> same_limits (cx_sched cx) (cx_sched cx3))"
proof -
  let ?s = "cx_sched cx" let ?mml = "sc_max_model_len ?s"
  note d = wait_invD [OF inv]
  obtain r where r: "map_of (sc_requests ?s) rid = Some r" "request_ok hk computed_ok ?mml (rid \<in> set (running_of cx)) rid r"
    using live_lookup [OF d(5), of rid] by auto
  have nr: "rid \<notin> set (running_of cx)" using sched_okD(1) [OF d(5)] by auto
  have zero: "rq_num_computed_tokens r = 0" using r(2) nr by (simp add: request_ok_def)
  obtain js where js: "waiting_computed r (sc_kv_cache_manager ?s) = Inr ([map Blk js], int (length js) * int bs, int (length js) * int bs)"
    "int (length js) * int bs < num_tokens r" "may_take (sc_kv_cache_manager ?s) r js"
    using waiting_computed_ok [OF d(5) nr r(1)] by blast
  let ?c = "int (length js) * int bs"
  show ?thesis
  proof (cases "waiting_num_new_tokens ?s (cx_token_budget cx) r ?c")
    case None
    with r(1) js(1) show ?thesis by (simp add: try_waiting_def Let_def req_of_def)
  next
    case (Some n)
    note nb = waiting_num_new_tokens_bounds [OF Some bud js(2)]
    have mem: "rid \<in> set (sk @ rid # w)" by simp
    obtain res km' where alloc: "km_allocate_slots u r n ?c (Some [map Blk js]) 0 False (sc_kv_cache_manager ?s) = Inr (res, km')"
      "kv_same (sc_kv_cache_manager ?s) km'"
      "if res = None then sched_ok caching bs hk computed_ok ?mml (running_of cx) (sk @ rid # w) (sc_requests ?s) km'
       else \<forall>f w'. distinct ((running_of cx @ [rid]) @ w') \<longrightarrow> set w' = set (sk @ rid # w) - {rid} \<longrightarrow>
         request_ok hk computed_ok ?mml True rid (f r) \<longrightarrow> rq_block_hashes (f r) = rq_block_hashes r \<longrightarrow>
         sched_ok caching bs hk computed_ok ?mml (running_of cx @ [rid]) w' (dmodify rid f (sc_requests ?s)) km'"
      using alloc_waiting_ok [OF d(5) mem r(1) _ _ js(3), of n 0 u ?c] nb(1) by auto
    let ?cx2 = "cx\<lparr>cx_sched := ?s\<lparr>sc_kv_cache_manager := km'\<rparr>\<rparr>"
    have tried: "try_waiting u rid cx = Inr (if res = None then Stop_Loop else Admit n ?c, ?cx2)"
      using r(1) js(1) Some nb(1) zero alloc(1) by (simp add: try_waiting_def Let_def req_of_def)
    have lim2: "same_limits ?s (cx_sched ?cx2)" by (simp add: same_limits_def)
    show ?thesis
    proof (cases "res = None")
      case True
      have "sched_inv caching bs hk computed_ok ((cx_sched ?cx2)\<lparr>sc_waiting := FCFSQueue (sk @ rid # w)\<rparr>)"
        using d(7) alloc(3) True by (simp add: sched_inv_def)
      moreover have "plan_inv ?cx2" by (rule plan_inv_cong [OF d(2)]) (use d(2) lim2 in \<open>auto simp: same_plan_def plan_inv_def\<close>)
      ultimately have "wait_inv caching bs hk ?cx2 sk (rid # w)" using d(1,3,4) by (simp add: wait_inv_def prev_ok_def)
      with True tried lim2 show ?thesis by (intro exI [of _ Stop_Loop] exI [of _ ?cx2]) simp
    next
      case False
      have stat: "rq_status r = WAITING \<or> rq_status r = PREEMPTED" using st r(1) by (simp add: req_of_def)
      have "\<exists>cx3. admit rid n ?c ?cx2 = Inr cx3 \<and> wait_inv caching bs hk cx3 sk w \<and> same_limits ?s (cx_sched cx3)"
        by (rule admit_ok [OF inv r(1) stat room _ js(2) nb]) (use alloc(3) False in \<open>simp_all del: distinct_append set_append\<close>)
      with False tried show ?thesis by (intro exI [of _ "Admit n ?c"] exI [of _ ?cx2]) auto
    qed
  qed
qed

lemma waiting_loop_total:
  assumes "wait_inv caching bs hk cx sk w"
  shows "\<exists>cx' sk' w'. waiting_loop u fsm cx (FCFSQueue sk) = Inr (cx', FCFSQueue sk') \<and> wait_inv caching bs hk cx' sk' w' \<and>
    same_limits (cx_sched cx) (cx_sched cx')"
  using assms
proof (induction "length w" arbitrary: cx sk w rule: less_induct)
  case less
  note inv = less.prems and d = wait_invD [OF less.prems]
  show ?case
  proof (cases "w = [] \<or> \<not> 0 < cx_token_budget cx \<or> length (running_of cx) = sc_max_num_running_reqs (cx_sched cx)")
    case True
    then have "waiting_loop u fsm cx (FCFSQueue sk) = Inr (cx, FCFSQueue sk)"
      using d(1) by (subst waiting_loop.simps) (auto simp: queue_bool_def)
    with inv show ?thesis by auto
  next
    case False
    then obtain rid w1 where w: "w = rid # w1" by (cases w) auto
    have go: "queue_bool (sc_waiting (cx_sched cx)) \<and> 0 < cx_token_budget cx" "queue_peek (sc_waiting (cx_sched cx)) = Inr rid"
      using d(1) w False by (simp_all add: queue_bool_def)
    obtain r where r: "map_of (sc_requests (cx_sched cx)) rid = Some r"
      "request_ok hk computed_ok (sc_max_model_len (cx_sched cx)) (rid \<in> set (running_of cx)) rid r"
      using live_lookup [OF d(5), of rid] w by auto
    have "rid \<notin> set (running_of cx)" using sched_okD(1) [OF d(5)] w by auto
    with r have st: "rq_status (req_of (cx_sched cx) rid) \<noteq> WAITING_FOR_REMOTE_KVS" by (auto simp: req_of_def request_ok_def waits_def)
    have eq: "waiting_loop u fsm cx (FCFSQueue sk) = (case resume_fsm fsm rid cx of
          None \<Rightarrow> ebind (skip_waiting rid cx (FCFSQueue sk)) (\<lambda>(cx1, sk). waiting_loop u fsm cx1 sk)
        | Some cx1 \<Rightarrow>
            ebind (try_waiting u rid cx1) (\<lambda>(outcome, cx2).
              case outcome of
                Skip \<Rightarrow> ebind (skip_waiting rid cx2 (FCFSQueue sk)) (\<lambda>(cx3, sk). waiting_loop u fsm cx3 sk)
              | Stop_Loop \<Rightarrow> Inr (cx2, FCFSQueue sk)
              | Admit n c \<Rightarrow> ebind (admit rid n c cx2) (\<lambda>cx3. waiting_loop u fsm cx3 (FCFSQueue sk))))"
      using go st False by (subst waiting_loop.simps) simp
    have shorter: "length w1 < length w" by (simp add: w)
    have skip: "\<exists>cx' sk' w'. ebind (skip_waiting rid c (FCFSQueue sk)) (\<lambda>(cx1, sk). waiting_loop u fsm cx1 sk) = Inr (cx', FCFSQueue sk') \<and>
        wait_inv caching bs hk cx' sk' w' \<and> same_limits (cx_sched c) (cx_sched cx')" if c: "wait_inv caching bs hk c sk (rid # w1)" for c
    proof -
      obtain c1 where c1: "skip_waiting rid c (FCFSQueue sk) = Inr (c1, FCFSQueue (rid # sk))" "wait_inv caching bs hk c1 (rid # sk) w1"
        "same_limits (cx_sched c) (cx_sched c1)" using wait_inv_skip [OF c] by blast
      from less.hyps [OF shorter c1(2)] c1 show ?thesis by (auto intro: same_limits_trans)
    qed
    show ?thesis
    proof (cases "resume_fsm fsm rid cx")
      case None
      with eq skip [OF inv [unfolded w]] show ?thesis by simp
    next
      case (Some c1)
      have c1: "wait_inv caching bs hk c1 sk (rid # w1)" "same_plan cx c1" "running_of c1 = running_of cx"
        "rq_status (req_of (cx_sched c1) rid) \<in> {WAITING, PREEMPTED}" using resume_ok [OF inv [unfolded w] Some] by auto
      have lim1: "same_limits (cx_sched cx) (cx_sched c1)" using c1(2) by (simp add: same_plan_def)
      have "length (running_of c1) \<noteq> sc_max_num_running_reqs (cx_sched c1)" "0 < cx_token_budget c1"
        using False c1(2,3) by (auto simp: same_plan_def same_limits_def)
      then obtain out c2 where out: "try_waiting u rid c1 = Inr (out, c2)"
        "case out of Skip \<Rightarrow> c2 = c1
         | Stop_Loop \<Rightarrow> wait_inv caching bs hk c2 sk (rid # w1) \<and> same_limits (cx_sched c1) (cx_sched c2)
         | Admit n c \<Rightarrow> \<exists>cx3. admit rid n c c2 = Inr cx3 \<and> wait_inv caching bs hk cx3 sk w1 \<and> same_limits (cx_sched c1) (cx_sched cx3)"
        using try_admit_ok [OF c1(1,4)] by blast
      show ?thesis
      proof (cases out)
        case Skip
        with eq Some out skip [OF c1(1)] lim1 show ?thesis by (auto intro: same_limits_trans)
      next
        case Stop_Loop
        with eq Some out lim1 show ?thesis by (auto intro: same_limits_trans)
      next
        case (Admit n c)
        with out(2) obtain c3 where c3: "admit rid n c c2 = Inr c3" "wait_inv caching bs hk c3 sk w1" "same_limits (cx_sched c1) (cx_sched c3)"
          by auto
        have "waiting_loop u fsm cx (FCFSQueue sk) = waiting_loop u fsm c3 (FCFSQueue sk)" using c3(1) eq Some out(1) Admit by simp
        with less.hyps [OF shorter c3(2)] same_limits_trans [OF same_limits_trans [OF lim1 c3(3)]] show ?thesis by metis
      qed
    qed
  qed
qed

end

subsection \<open>The step\<close>

lemma sched_ok_reorder:
  assumes "sched_ok caching bs hk ck mml run w reqs km" and "set run' = set run" and "distinct (run' @ w)"
  shows "sched_ok caching bs hk ck mml run' w reqs km"
  using assms by (simp add: sched_ok_def)

lemma order_running_ok:
  assumes "sched_inv caching bs hk ck s"
  shows "sched_inv caching bs hk ck (order_running_by_score s)"
proof -
  obtain w where w: "sc_waiting s = FCFSQueue w"
    and ok: "sched_ok caching bs hk ck (sc_max_model_len s) (sc_running s) w (sc_requests s) (sc_kv_cache_manager s)"
    using assms by (rule sched_invE)
  have "sched_ok caching bs hk ck (sc_max_model_len s) (sort_key (score_key s) (sc_running s)) w (sc_requests s) (sc_kv_cache_manager s)"
    by (rule sched_ok_reorder [OF ok]) (use sched_okD(1) [OF ok] in simp_all)
  with assms w show ?thesis by (simp add: sched_inv_def order_running_by_score_def)
qed

context block_hashing
begin

lemma schedule_loops_total:
  assumes inv: "sched_inv caching bs hk computed_ok s" and prev: "prev_ok s"
  shows "\<exists>cx. schedule_loops u fsm s = Inr cx \<and> sched_inv caching bs hk computed_ok (cx_sched cx) \<and> plan_inv cx \<and>
    same_limits s (cx_sched cx) \<and> set (cx_resumed cx) \<inter> sc_prev_step_scheduled_req_ids (cx_sched cx) = {}"
proof -
  define s1 where "s1 = (if sc_policy s = GAMBIT then order_running_by_score s else s)"
  have inv1: "sched_inv caching bs hk computed_ok s1" using inv order_running_ok [OF inv] by (simp add: s1_def)
  have lim1: "same_limits s s1" and prev1: "prev_ok s1"
    using prev by (auto simp: s1_def order_running_by_score_def same_limits_def prev_ok_def)
  have "plan_inv (init_ctx s1)" using inv1 by (simp add: plan_inv_def init_ctx_def sched_inv_def)
  with inv1 prev1 have "run_inv caching bs hk (init_ctx s1)" by (simp add: run_inv_def) (simp add: init_ctx_def)
  from running_loop_total [OF this, of u]
  obtain cx1 where cx1: "running_loop u (init_ctx s1) = Inr cx1" "run_inv caching bs hk cx1" "same_limits s1 (cx_sched cx1)"
    by (auto simp: init_ctx_def)
  have pol: "create_request_queue (sc_policy s1) = FCFSQueue []" using inv1 by (simp add: sched_inv_def create_request_queue_def)
  have sinv1: "sched_inv caching bs hk computed_ok (cx_sched cx1)" and p1: "plan_inv cx1" and r1: "cx_resumed cx1 = []"
    using cx1(2) by (simp_all add: run_inv_def)
  show ?thesis
  proof (cases "cx_preempted cx1 = []")
    case False
    then have "schedule_loops u fsm s = Inr cx1"
      using cx1(1) pol by (simp add: schedule_loops_def Let_def s1_def [symmetric] queue_bool_def)
    with sinv1 p1 r1 same_limits_trans [OF lim1 cx1(3)] show ?thesis by simp
  next
    case True
    obtain w where w: "sc_waiting (cx_sched cx1) = FCFSQueue w" using sinv1 by (rule sched_invE)
    have "sched_inv caching bs hk computed_ok ((cx_sched cx1)\<lparr>sc_waiting := FCFSQueue ([] @ w)\<rparr>)"
      using sinv1 w by (simp add: sched_inv_def)
    then have "wait_inv caching bs hk cx1 [] w"
      using p1 r1 w cx1(2) True by (simp add: wait_inv_def run_inv_def)
    from waiting_loop_total [OF this, of u fsm]
    obtain cx2 sk w2 where cx2: "waiting_loop u fsm cx1 (FCFSQueue []) = Inr (cx2, FCFSQueue sk)" "wait_inv caching bs hk cx2 sk w2"
      "same_limits (cx_sched cx1) (cx_sched cx2)" by blast
    note d2 = wait_invD [OF cx2(2)]
    let ?cx = "cx2\<lparr>cx_sched := (cx_sched cx2)\<lparr>sc_waiting := FCFSQueue (sk @ w2)\<rparr>\<rparr>"
    have id: "sk = [] \<Longrightarrow> ?cx = cx2" using d2(1) by simp
    have "schedule_loops u fsm s = Inr ?cx"
    proof (cases "sk = []")
      case True0: True
      then show ?thesis
        using cx1(1) pol True cx2(1) id by (simp add: schedule_loops_def Let_def s1_def [symmetric] queue_bool_def)
    next
      case False
      then show ?thesis
        using cx1(1) pol True cx2(1) d2(1) fcfs_prepend_requests [of "req_attr (cx_sched cx2)" sk w2]
        by (simp add: schedule_loops_def Let_def s1_def [symmetric] queue_bool_def del: queue_prepend_requests.simps)
    qed
    moreover have "plan_inv ?cx"
      by (rule plan_inv_cong [OF d2(2)]) (use d2(2) in \<open>auto simp: same_plan_def same_limits_def plan_inv_def\<close>)
    moreover have "same_limits s (cx_sched ?cx)"
      using same_limits_trans [OF lim1 same_limits_trans [OF cx1(3) cx2(3)]] by (simp add: same_limits_def)
    ultimately show ?thesis using d2(4,7) by (intro exI [of _ ?cx]) simp
  qed
qed

end

lemma check_constraints_ok:
  assumes "sched_inv caching bs hk ck (cx_sched cx)" and "plan_inv cx"
  shows "check_constraints cx = Inr ()" "sum_list (dvals (cx_num_scheduled_tokens cx)) \<le> sc_max_num_scheduled_tokens (cx_sched cx)"
proof -
  have "card (set (planned cx)) \<le> card (set (running_of cx))" using assms(2) by (intro card_mono) (auto simp: plan_inv_def)
  moreover have "card (set (planned cx)) = length (planned cx)" using assms(2) by (intro distinct_card) (simp add: plan_inv_def)
  ultimately have "length (planned cx) \<le> length (running_of cx)" using card_length [of "running_of cx"] by linarith
  then have len: "length (cx_new cx) + length (cx_resumed cx) + length (cx_running cx) \<le> length (running_of cx)" by simp
  show sum: "sum_list (dvals (cx_num_scheduled_tokens cx)) \<le> sc_max_num_scheduled_tokens (cx_sched cx)" using assms(2) by (simp add: plan_inv_def)
  have "0 \<le> cx_token_budget cx" "length (running_of cx) \<le> sc_max_num_running_reqs (cx_sched cx)"
    using assms by (simp_all add: plan_inv_def sched_inv_def)
  with len sum show "check_constraints cx = Inr ()" by (simp add: check_constraints_def Let_def)
qed

lemma new_data_rows_ok: "set rids \<subseteq> keyset (cx_new_blocks cx) \<Longrightarrow> \<exists>rows. new_data_rows cx rids = Inr rows"
proof (induction rids)
  case (Cons rid rids)
  then have "rid \<in> keyset (cx_new_blocks cx)" by simp
  then obtain b where "map_of (cx_new_blocks cx) rid = Some b" by (metis in_keys_map_of)
  with Cons show ?case by auto
qed simp

lemma cached_rows_ok:
  assumes "set rids \<subseteq> keyset ns" and "set rids \<subseteq> keyset nb" and "resumed \<Longrightarrow> set rids \<inter> sc_prev_step_scheduled_req_ids s = {}"
  shows "\<exists>cr'. cached_rows s ns spec nb resumed rids cr = Inr cr'"
  using assms
proof (induction rids arbitrary: cr)
  case (Cons rid rids)
  from Cons.prems(1,2) have "rid \<in> keyset ns" "rid \<in> keyset nb" by simp_all
  then obtain n b where "map_of ns rid = Some n" "map_of nb rid = Some b" by (metis in_keys_map_of)
  moreover have "\<not> (resumed \<and> rid \<in> sc_prev_step_scheduled_req_ids s)" using Cons.prems(3) by auto
  ultimately obtain cr1 where "cached_row s ns spec nb resumed rid cr = Inr cr1" by (simp add: cached_row_def Let_def)
  moreover have "set rids \<subseteq> keyset ns" "set rids \<subseteq> keyset nb" "resumed \<Longrightarrow> set rids \<inter> sc_prev_step_scheduled_req_ids s = {}"
    using Cons.prems by auto
  ultimately show ?case using Cons.IH [of cr1] by simp
qed simp

text \<open>Between \<open>schedule\<close> and the processing of the sampled tokens, a request may have computed its draft tokens \<open>spec\<close> as well.\<close>

definition mid_ok :: "(reqid, token list) dict \<Rightarrow> reqid \<Rightarrow> request \<Rightarrow> bool" where
  "mid_ok spec rid r \<longleftrightarrow>
     (if dget_or spec rid [] = [] then rq_num_computed_tokens r \<le> num_tokens r
      else rq_num_computed_tokens r = num_tokens r + int (length (dget_or spec rid [])))"

definition rem_ok :: "int \<Rightarrow> (reqid, token list) dict \<Rightarrow> (reqid, int) dict \<Rightarrow> reqid \<Rightarrow> request \<Rightarrow> bool" where
  "rem_ok mml spec xs rid r \<longleftrightarrow>
     (case map_of xs rid of Some n \<Rightarrow> plan_ok mml r n (dget_or spec rid []) | None \<Rightarrow> mid_ok spec rid r)"

context block_hashing
begin

lemma advance_loop_ok:
  assumes "sched_ok caching bs hk (rem_ok mml spec xs) mml run w (sc_requests s) km" and "wf_dict xs" and "keyset xs \<subseteq> set run"
  shows "\<exists>reqs'. advance_loop xs s = Inr (s\<lparr>sc_requests := reqs'\<rparr>) \<and> sched_ok caching bs hk (mid_ok spec) mml run w reqs' km"
  using assms
proof (induction xs arbitrary: s)
  case Nil
  then show ?case by (intro exI [of _ "sc_requests s"]) (simp add: rem_ok_def [abs_def])
next
  case (Cons e xs)
  obtain rid n where e: "e = (rid, n)" by (cases e)
  note ok = Cons.prems(1) [unfolded e]
  have mem: "rid \<in> set run" and rest: "wf_dict xs" "keyset xs \<subseteq> set run" and new: "rid \<notin> keyset xs"
    using Cons.prems(2,3) by (simp_all add: e)
  have none: "map_of xs rid = None" using new by (simp only: map_of_None_iff not_False_eq_True)
  obtain r where r: "map_of (sc_requests s) rid = Some r" using live_lookup [OF ok, of rid] mem by (metis UnI1)
  let ?f = "\<lambda>r. r\<lparr>rq_num_computed_tokens := rq_num_computed_tokens r + n\<rparr>"
  let ?s = "upd_req rid ?f s"
  have "sched_ok caching bs hk (rem_ok mml spec xs) mml run w (dmodify rid ?f (sc_requests s)) km"
  proof (rule sched_ok_modify [OF ok])
    fix q assume "request_ok hk (rem_ok mml spec ((rid, n) # xs)) mml (rid \<in> set run) rid q"
    with mem none show "request_ok hk (rem_ok mml spec xs) mml (rid \<in> set run) rid (?f q) \<and> prefix (rq_block_hashes q) (rq_block_hashes (?f q))"
      by (auto simp: request_ok_def rem_ok_def plan_ok_def mid_ok_def hk_fields token_ok_def intro!: token_ok_computed)
  qed (auto simp: rem_ok_def)
  then have "sched_ok caching bs hk (rem_ok mml spec xs) mml run w (sc_requests ?s) km" by (simp add: upd_req_def)
  from Cons.IH [OF this rest] r show ?case by (auto simp: e upd_req_def)
qed

lemma common_prefix_ok:
  assumes ok: "sched_ok caching bs hk computed_ok mml run w reqs km"
    and km': "(case run of [] \<Rightarrow> (zeros, km) | rid # _ \<Rightarrow> km_get_num_common_prefix_blocks rid km) = (common, km')"
  shows "sched_ok caching bs hk computed_ok mml run w reqs km'"
proof (cases run)
  case Nil
  with assms show ?thesis by simp
next
  case (Cons rid rest)
  with km' have "km_get_num_common_prefix_blocks rid km = (common, km')" by simp
  note fr = common_prefix_frame [OF sched_okD(4) [OF ok] this]
  show ?thesis by (rule sched_ok_step [OF ok]) (use fr sched_okD [OF ok] in auto)
qed

text \<open>The rows of the plan can be built: every planned request has its tokens and its blocks.\<close>

lemma plan_rows_ok:
  assumes plan: "plan_inv cx" and res: "set (cx_resumed cx) \<inter> sc_prev_step_scheduled_req_ids (cx_sched cx) = {}"
    and cx1: "cx1 = cx\<lparr>cx_sched := (cx_sched cx)\<lparr>sc_kv_cache_manager := km\<rparr>\<rparr>"
  obtains rows cached where "new_data_rows cx1 (cx_new cx1) = Inr rows" "make_cached_request_data cx1 = Inr cached"
proof -
  let ?ns = "cx_num_scheduled_tokens cx" and ?spec = "cx_spec_tokens cx"
  let ?e = "\<lparr>cr_req_ids = [], cr_resumed_req_ids = {}, cr_new_token_ids = [], cr_all_token_ids = [],
          cr_new_block_ids = [], cr_num_computed_tokens = [], cr_num_output_tokens = []\<rparr>"
  have keys: "keyset ?ns = set (planned cx)" "keyset (cx_new_blocks cx) = set (planned cx)" using plan by (simp_all add: plan_inv_def)
  obtain rows where rows: "new_data_rows cx1 (cx_new cx1) = Inr rows"
    using new_data_rows_ok [of "cx_new cx" cx1] keys(2) by (auto simp: cx1)
  obtain c1 where c1: "cached_rows (cx_sched cx1) ?ns ?spec (cx_new_blocks cx) False (cx_running cx) ?e = Inr c1"
    using cached_rows_ok [of "cx_running cx" ?ns "cx_new_blocks cx" False "cx_sched cx1" ?spec ?e] keys by auto
  obtain c2 where "cached_rows (cx_sched cx1) ?ns ?spec (cx_new_blocks cx) True (cx_resumed cx) c1 = Inr c2"
    using cached_rows_ok [of "cx_resumed cx" ?ns "cx_new_blocks cx" True "cx_sched cx1" ?spec c1] keys res by (auto simp: cx1)
  with c1 rows show thesis by (intro that [of rows c2]) (simp_all add: make_cached_request_data_def Let_def cx1)
qed

text \<open>What the plan still has to add to the computed tokens of each request.\<close>

lemma plan_inv_facts:
  assumes "plan_inv cx"
  shows "wf_dict (cx_num_scheduled_tokens cx)" and "keyset (cx_num_scheduled_tokens cx) \<subseteq> set (sc_running (cx_sched cx))"
    and "keyset (cx_spec_tokens cx) \<subseteq> keyset (cx_num_scheduled_tokens cx)"
    and "\<And>rid n. map_of (cx_num_scheduled_tokens cx) rid = Some n \<Longrightarrow>
      plan_ok (sc_max_model_len (cx_sched cx)) (req_of (cx_sched cx) rid) n (dget_or (cx_spec_tokens cx) rid [])"
  using assms unfolding plan_inv_def by auto

lemma plan_rem_ok:
  assumes plan: "plan_inv cx" and r: "map_of (sc_requests (cx_sched cx)) rid = Some r" and c: "computed_ok rid r"
  shows "rem_ok (sc_max_model_len (cx_sched cx)) (cx_spec_tokens cx) (cx_num_scheduled_tokens cx) rid r"
proof (cases "map_of (cx_num_scheduled_tokens cx) rid")
  case None
  then have "rid \<notin> keyset (cx_num_scheduled_tokens cx)" by (simp only: map_of_None_iff not_False_eq_True)
  with plan_inv_facts(3) [OF plan] have "dget_or (cx_spec_tokens cx) rid [] = []" by (intro dget_or_other) blast
  with None c show ?thesis by (simp add: rem_ok_def mid_ok_def computed_ok_def)
next
  case (Some n)
  with plan_inv_facts(4) [OF plan Some] c r show ?thesis by (simp add: rem_ok_def req_of_def)
qed

text \<open>A step of the scheduler never fails.\<close>

lemma schedule_total:
  assumes inv: "sched_inv caching bs hk computed_ok s" and prev: "prev_ok s"
  shows "\<exists>so s'. schedule u fsm s = Inr (so, s') \<and> sched_inv caching bs hk (mid_ok (so_spec_tokens so)) s' \<and> prev_ok s' \<and>
    same_limits (s\<lparr>sc_prev_step_scheduled_req_ids := keyset (so_num_scheduled_tokens so)\<rparr>) s' \<and>
    so_total_num_scheduled_tokens so = sum_list (dvals (so_num_scheduled_tokens so)) \<and>
    so_total_num_scheduled_tokens so \<le> sc_max_num_scheduled_tokens s \<and>
    wf_dict (so_num_scheduled_tokens so) \<and> keyset (so_num_scheduled_tokens so) \<subseteq> set (sc_running s') \<and>
    (\<forall>(rid, n) \<in> set (so_num_scheduled_tokens so). 0 < n) \<and> keyset (so_spec_tokens so) \<subseteq> keyset (so_num_scheduled_tokens so) \<and>
    sc_finished_req_ids s' = {}"
proof -
  obtain cx where cx: "schedule_loops u fsm s = Inr cx" "sched_inv caching bs hk computed_ok (cx_sched cx)" "plan_inv cx"
    "same_limits s (cx_sched cx)" "set (cx_resumed cx) \<inter> sc_prev_step_scheduled_req_ids (cx_sched cx) = {}"
    using schedule_loops_total [OF inv prev] by blast
  note chk = check_constraints_ok [OF cx(2,3)]
  let ?s = "cx_sched cx" let ?ns = "cx_num_scheduled_tokens cx" and ?spec = "cx_spec_tokens cx" and ?mml = "sc_max_model_len ?s"
  obtain w where w: "sc_waiting ?s = FCFSQueue w"
    and ok: "sched_ok caching bs hk computed_ok ?mml (sc_running ?s) w (sc_requests ?s) (sc_kv_cache_manager ?s)"
    using cx(2) by (rule sched_invE)
  obtain common km where ckm: "(case sc_running ?s of [] \<Rightarrow> (replicate (length (kc_managers (km_coordinator (sc_kv_cache_manager ?s)))) 0, sc_kv_cache_manager ?s)
      | rid # _ \<Rightarrow> km_get_num_common_prefix_blocks rid (sc_kv_cache_manager ?s)) = (common, km)" by (cases "case sc_running ?s of
      [] \<Rightarrow> (replicate (length (kc_managers (km_coordinator (sc_kv_cache_manager ?s)))) 0, sc_kv_cache_manager ?s)
      | rid # _ \<Rightarrow> km_get_num_common_prefix_blocks rid (sc_kv_cache_manager ?s)")
  have okm: "sched_ok caching bs hk computed_ok ?mml (sc_running ?s) w (sc_requests ?s) km" by (rule common_prefix_ok [OF ok ckm])
  let ?cx1 = "cx\<lparr>cx_sched := ?s\<lparr>sc_kv_cache_manager := km\<rparr>\<rparr>"
  obtain rows cached where rows: "new_data_rows ?cx1 (cx_new ?cx1) = Inr rows" "make_cached_request_data ?cx1 = Inr cached"
    using cx(3,5) refl by (rule plan_rows_ok)
  let ?s1 = "(cx_sched ?cx1)\<lparr>sc_prev_step_scheduled_req_ids := keyset ?ns\<rparr>"
  note pinv = plan_inv_facts [OF cx(3)]
  have "sched_ok caching bs hk (rem_ok ?mml ?spec ?ns) ?mml (sc_running ?s) w (sc_requests ?s1) km"
    using sched_ok_mono [OF okm plan_rem_ok [OF cx(3)]] by simp
  from advance_loop_ok [OF this pinv(1,2)] obtain reqs' where adv: "advance_loop ?ns ?s1 = Inr (?s1\<lparr>sc_requests := reqs'\<rparr>)"
    and ok': "sched_ok caching bs hk (mid_ok ?spec) ?mml (sc_running ?s) w reqs' km" by blast
  let ?s2 = "?s1\<lparr>sc_requests := reqs', sc_finished_req_ids := {}\<rparr>"
  let ?so = "\<lparr>so_new_reqs = rows, so_cached_reqs = cached, so_num_scheduled_tokens = ?ns,
      so_total_num_scheduled_tokens = sum_list (dvals ?ns), so_spec_tokens = ?spec, so_num_common_prefix_blocks = common,
      so_finished_req_ids = sc_finished_req_ids ?s1\<rparr>"
  have run: "schedule u fsm s = Inr (?so, ?s2)"
    using cx(1) chk(1) ckm rows adv by (simp add: schedule_def Let_def update_after_schedule_def)
  have lim: "same_limits (s\<lparr>sc_prev_step_scheduled_req_ids := keyset (so_num_scheduled_tokens ?so)\<rparr>) ?s2"
    using cx(4) by (simp add: same_limits_def)
  have inv': "sched_inv caching bs hk (mid_ok (so_spec_tokens ?so)) ?s2" using cx(2) w ok' by (simp add: sched_inv_def)
  have "prev_ok ?s2"
    unfolding prev_ok_def
  proof (intro allI impI)
    fix rid r assume r: "map_of (sc_requests ?s2) rid = Some r" "rq_status r = PREEMPTED"
    from r(1) have "map_of reqs' rid = Some r" by simp
    from sched_okD(9) [OF ok' this] r(2) have "rid \<notin> set (sc_running ?s)" by (auto simp: request_ok_def)
    with pinv(2) show "rid \<notin> sc_prev_step_scheduled_req_ids ?s2" by auto
  qed
  moreover have "\<forall>(rid, n) \<in> set ?ns. 0 < n" using pinv(4) in_set_wf_dict [OF pinv(1)] by (auto simp: plan_ok_def)
  moreover have "so_total_num_scheduled_tokens ?so \<le> sc_max_num_scheduled_tokens s" using chk(2) cx(4) by (simp add: same_limits_def)
  ultimately show ?thesis
    using run inv' lim pinv(1-3) by (intro exI [of _ ?so] exI [of _ ?s2]) (simp del: set_map)
qed

end

end
