(* ===== verification/Update_Total.thy ===== *)
theory Update_Total
  imports Sched_Total
begin

text \<open>
  \<open>Scheduler.update_from_output\<close> under the invariant: for every output of the model runner that answers the scheduled requests, the
  step succeeds, stopped requests leave the running list with their blocks, and the invariant between two steps holds
  again, so \<open>schedule\<close> and \<open>update_from_output\<close> can alternate forever. The last section states the properties of the
  scheduler as a whole.
\<close>

subsection \<open>Appending sampled tokens\<close>

lemma check_stop_total:
  assumes "rq_pooling_params r = None" and "rq_sampling_params r = Some sp" and "rq_output_token_ids r \<noteq> []"
  shows "\<exists>st r'. check_stop r mml False = Inr (st, r')"
  using assms by (auto simp: check_stop_def Let_def)

text \<open>A request that is not stopped still has room.\<close>

lemma not_stopped_room:
  assumes ok: "token_ok mml r" and stop: "check_stop (append_output_token_ids h [x] r) mml False = Inr (False, r')"
  shows "token_ok mml (append_output_token_ids h [x] r)"
proof -
  let ?r = "append_output_token_ids h [x] r"
  obtain sp where sp: "rq_sampling_params r = Some sp" "sp_min_tokens sp \<le> rq_max_tokens r" "rq_num_prompt_tokens r + sp_min_tokens sp \<le> mml"
    using ok by (auto simp: token_ok_def)
  have frame: "rq_num_prompt_tokens ?r = rq_num_prompt_tokens r"
    by (simp add: append_output_token_ids_def Let_def split: option.splits)
  have n: "num_tokens ?r = num_tokens r + 1" "num_output_tokens ?r = num_output_tokens r + 1"
    by (simp_all add: num_tokens_def num_output_tokens_def)
  have eq: "num_tokens ?r = rq_num_prompt_tokens r + num_output_tokens ?r" using ok n by (simp add: token_ok_def)
  have "num_tokens ?r < mml \<and> num_output_tokens ?r < rq_max_tokens r"
  proof (cases "num_output_tokens ?r < sp_min_tokens sp")
    case True
    with sp eq show ?thesis by simp
  next
    case False
    with stop sp ok show ?thesis by (auto simp: check_stop_def Let_def token_ok_def split: if_splits)
  qed
  with ok n sp show ?thesis by (simp add: token_ok_def frame)
qed

context block_hashing
begin

lemma append_hashes_prefix: "prefix (rq_block_hashes r) (rq_block_hashes (append_output_token_ids h toks r))"
  by (simp add: append_output_token_ids_def Let_def split: option.splits)

lemma update_request_total:
  assumes "token_ok mml r" and "hk r"
  shows "\<exists>toks st r'. update_request_with_output hasher mml r xs = Inr (toks, st, r') \<and> rq_request_id r' = rq_request_id r \<and>
    (st \<longrightarrow> is_finished r' \<and> toks \<noteq> []) \<and>
    (\<not> st \<longrightarrow> toks = xs \<and> token_ok mml r' \<and> hk r' \<and> rq_status r' = rq_status r \<and> num_tokens r' = num_tokens r + int (length xs) \<and>
       rq_num_computed_tokens r' = rq_num_computed_tokens r \<and> prefix (rq_block_hashes r) (rq_block_hashes r'))"
  using assms
proof (induction xs arbitrary: r)
  case Nil
  then show ?case by (intro exI [of _ "[]"] exI [of _ False] exI [of _ r]) simp
next
  case (Cons x xs)
  let ?r = "append_output_token_ids hasher [x] r"
  obtain sp where sp: "rq_sampling_params r = Some sp" "rq_pooling_params r = None" using Cons.prems(1) by (auto simp: token_ok_def)
  have "rq_pooling_params ?r = None" "rq_sampling_params ?r = Some sp" "rq_output_token_ids ?r \<noteq> []" using sp by simp_all
  from check_stop_total [OF this] obtain st r1 where c: "check_stop ?r mml False = Inr (st, r1)" by blast
  show ?case
  proof (cases st)
    case True
    with c check_stop_status(1) [OF c] check_stop_frame(3) [OF c] show ?thesis
      by (intro exI [of _ "[x]"] exI [of _ True] exI [of _ r1]) simp
  next
    case False
    with c have r1: "r1 = ?r" using check_stop_status(2) [OF c] by simp
    have room: "token_ok mml ?r" by (rule not_stopped_room [OF Cons.prems(1)]) (use c False in simp)
    from Cons.IH [OF room hash_append [OF Cons.prems(2)]] obtain toks st2 r2 where
      rec: "update_request_with_output hasher mml ?r xs = Inr (toks, st2, r2)" "rq_request_id r2 = rq_request_id ?r"
        "st2 \<longrightarrow> is_finished r2 \<and> toks \<noteq> []"
        "\<not> st2 \<longrightarrow> toks = xs \<and> token_ok mml r2 \<and> hk r2 \<and> rq_status r2 = rq_status ?r \<and> num_tokens r2 = num_tokens ?r + int (length xs) \<and>
          rq_num_computed_tokens r2 = rq_num_computed_tokens ?r \<and> prefix (rq_block_hashes ?r) (rq_block_hashes r2)" by blast
    have n: "num_tokens ?r = num_tokens r + 1" by (simp add: num_tokens_def)
    have "update_request_with_output hasher mml r (x # xs) = Inr (x # toks, st2, r2)" using c False r1 rec(1) by simp
    with rec n prefix_order.trans [OF append_hashes_prefix [of r hasher "[x]"]] show ?thesis
      by (intro exI [of _ "x # toks"] exI [of _ st2] exI [of _ r2]) auto
  qed
qed

end

subsection \<open>The loop over the batch\<close>

text \<open>The runner answers a scheduled request: its slot exists, or no tokens were sampled at all.\<close>

definition answers :: "model_runner_output \<Rightarrow> reqid \<Rightarrow> bool" where
  "answers mo rid \<longleftrightarrow> (\<exists>i. map_of (mo_req_id_to_index mo) rid = Some i \<and>
     (mo_sampled_token_ids mo = [] \<or> i < length (mo_sampled_token_ids mo)))"

lemma sampled_for_answers: "answers mo rid \<Longrightarrow> \<exists>toks. sampled_for mo rid = Inr toks"
  by (auto simp: answers_def sampled_for_def)

text \<open>Requests stopped so far no longer count as running; requests not visited yet may have computed their drafts.\<close>

definition visit_ok :: "(reqid, token list) dict \<Rightarrow> reqid set \<Rightarrow> reqid \<Rightarrow> request \<Rightarrow> bool" where
  "visit_ok spec todo rid r \<longleftrightarrow> (if rid \<in> todo then mid_ok spec rid r else computed_ok rid r)"

definition upd_inv :: "bool \<Rightarrow> nat \<Rightarrow> (request \<Rightarrow> bool) \<Rightarrow> (reqid, token list) dict \<Rightarrow> reqid set \<Rightarrow> update_ctx \<Rightarrow> bool" where
  "upd_inv caching bs hk spec todo ux \<longleftrightarrow> ux_stopped_preempted ux = [] \<and>
     sched_inv caching bs hk (visit_ok spec todo)
       ((ux_sched ux)\<lparr>sc_running := filter (\<lambda>rid. rid \<notin> ux_stopped_running ux) (sc_running (ux_sched ux))\<rparr>) \<and>
     todo \<inter> keyset (sc_requests (ux_sched ux)) \<subseteq> set (sc_running (ux_sched ux)) - ux_stopped_running ux"

definition upd_frame :: "reqid set \<Rightarrow> update_ctx \<Rightarrow> update_ctx \<Rightarrow> bool" where
  "upd_frame visited ux ux' \<longleftrightarrow> same_limits (ux_sched ux) (ux_sched ux') \<and> sc_running (ux_sched ux') = sc_running (ux_sched ux) \<and>
     sc_waiting (ux_sched ux') = sc_waiting (ux_sched ux) \<and>
     sc_pending_pruned_outputs (ux_sched ux') = sc_pending_pruned_outputs (ux_sched ux) \<and>
     (\<forall>rid. rid \<notin> visited \<longrightarrow> map_of (sc_requests (ux_sched ux')) rid = map_of (sc_requests (ux_sched ux)) rid)"

lemma upd_frame_trans: "upd_frame A a b \<Longrightarrow> upd_frame B b c \<Longrightarrow> upd_frame (A \<union> B) a c"
  by (simp add: upd_frame_def same_limits_def)

lemma upd_frame_refl [simp]: "upd_frame A a a"
  by (simp add: upd_frame_def)

lemma rejected_computed:
  assumes "mid_ok spec rid r" and "token_ok mml r" and d: "d = dget_or spec rid []"
    and c: "c = (if d \<noteq> [] then rq_num_computed_tokens r - (int (length d) - (int (length g) - 1)) else rq_num_computed_tokens r)"
  shows "0 \<le> c" "c \<le> num_tokens r + int (length g)"
  using assms by (auto simp: mid_ok_def token_ok_def split: if_splits)

context block_hashing
begin

text \<open>The three outcomes for a request of the batch: it has left in the meantime, it goes on, or it has stopped and is freed.\<close>

lemma visit_ok_weaken: "visit_ok spec (insert rid todo) q r \<Longrightarrow> q \<noteq> rid \<Longrightarrow> visit_ok spec todo q r"
  by (simp add: visit_ok_def)

lemma upd_invE:
  assumes "upd_inv caching bs hk spec todo ux"
  obtains w where "sc_waiting (ux_sched ux) = FCFSQueue w"
    "sched_ok caching bs hk (visit_ok spec todo) (sc_max_model_len (ux_sched ux))
       (filter (\<lambda>rid. rid \<notin> ux_stopped_running ux) (sc_running (ux_sched ux))) w (sc_requests (ux_sched ux)) (sc_kv_cache_manager (ux_sched ux))"
  using assms by (auto simp: upd_inv_def elim!: sched_invE)

lemma update_gone_inv:
  assumes inv: "upd_inv caching bs hk spec (insert rid todo) ux" and gone: "map_of (sc_requests (ux_sched ux)) rid = None"
  shows "upd_inv caching bs hk spec todo ux"
proof -
  obtain w where w: "sc_waiting (ux_sched ux) = FCFSQueue w" and ok: "sched_ok caching bs hk (visit_ok spec (insert rid todo))
      (sc_max_model_len (ux_sched ux)) (filter (\<lambda>rid. rid \<notin> ux_stopped_running ux) (sc_running (ux_sched ux))) w
      (sc_requests (ux_sched ux)) (sc_kv_cache_manager (ux_sched ux))"
    using inv by (rule upd_invE)
  have weaken: "visit_ok spec todo q r" if "map_of (sc_requests (ux_sched ux)) q = Some r" "visit_ok spec (insert rid todo) q r" for q r
    using that gone by (intro visit_ok_weaken [OF that(2)]) auto
  from sched_ok_mono [OF ok weaken] inv w show ?thesis by (auto simp: upd_inv_def sched_inv_def)
qed

lemma update_running_inv:
  assumes inv: "upd_inv caching bs hk spec (insert rid todo) ux" and new: "rid \<notin> todo" and r0: "map_of (sc_requests (ux_sched ux)) rid = Some r0"
    and r2: "request_ok hk computed_ok (sc_max_model_len (ux_sched ux)) True rid r2" "prefix (rq_block_hashes r0) (rq_block_hashes r2)"
    and ux': "ux' = ux\<lparr>ux_sched := upd_req rid (\<lambda>_. r2) (ux_sched ux), ux_outputs := outs\<rparr>"
  shows "upd_inv caching bs hk spec todo ux'" "upd_frame {rid} ux ux'"
proof -
  let ?s = "ux_sched ux" let ?run = "filter (\<lambda>rid. rid \<notin> ux_stopped_running ux) (sc_running ?s)"
  obtain w where w: "sc_waiting ?s = FCFSQueue w"
    and ok: "sched_ok caching bs hk (visit_ok spec (insert rid todo)) (sc_max_model_len ?s) ?run w (sc_requests ?s) (sc_kv_cache_manager ?s)"
    using inv by (rule upd_invE)
  have live: "insert rid todo \<inter> keyset (sc_requests ?s) \<subseteq> set (sc_running ?s) - ux_stopped_running ux" using inv by (simp add: upd_inv_def)
  have mem: "rid \<in> set ?run" using live map_of_in_keys [OF r0] by auto
  have "sched_ok caching bs hk (visit_ok spec todo) (sc_max_model_len ?s) ?run w (dmodify rid (\<lambda>_. r2) (sc_requests ?s)) (sc_kv_cache_manager ?s)"
    by (rule sched_ok_modify [OF ok _ visit_ok_weaken]) (use r0 r2 mem new in \<open>auto simp: request_ok_def visit_ok_def\<close>)
  moreover have "todo \<inter> keyset (sc_requests (ux_sched ux')) \<subseteq> set (sc_running ?s) - ux_stopped_running ux"
    using live by (auto simp: ux' upd_req_def simp del: set_map)
  ultimately show "upd_inv caching bs hk spec todo ux'" using inv w by (simp add: upd_inv_def sched_inv_def ux' upd_req_def)
  show "upd_frame {rid} ux ux'" by (simp add: ux' upd_frame_def same_limits_def upd_req_def dict_simps)
qed

lemma update_stopped_inv:
  assumes inv: "upd_inv caching bs hk spec (insert rid todo) ux" and new: "rid \<notin> todo" and r0: "map_of (sc_requests (ux_sched ux)) rid = Some r0"
    and r2: "rq_request_id r2 = rid" "is_finished r2"
  shows "\<exists>s2. free_request rid (upd_req rid (\<lambda>_. r2) (ux_sched ux)) = Inr s2 \<and>
    (\<forall>outs. let ux' = ux\<lparr>ux_sched := s2, ux_stopped_running := insert rid (ux_stopped_running ux), ux_outputs := outs\<rparr>
       in upd_inv caching bs hk spec todo ux' \<and> upd_frame {rid} ux ux')"
proof -
  let ?s = "ux_sched ux" let ?s1 = "upd_req rid (\<lambda>_. r2) ?s" and ?mml = "sc_max_model_len ?s"
  let ?run = "filter (\<lambda>rid. rid \<notin> ux_stopped_running ux) (sc_running ?s)"
  let ?run' = "filter (\<lambda>q. q \<notin> insert rid (ux_stopped_running ux)) (sc_running ?s)"
  obtain w where w: "sc_waiting ?s = FCFSQueue w"
    and ok: "sched_ok caching bs hk (visit_ok spec (insert rid todo)) ?mml ?run w (sc_requests ?s) (sc_kv_cache_manager ?s)"
    using inv by (rule upd_invE)
  have live: "insert rid todo \<inter> keyset (sc_requests ?s) \<subseteq> set (sc_running ?s) - ux_stopped_running ux" using inv by (simp add: upd_inv_def)
  have mem: "rid \<in> set ?run" using live map_of_in_keys [OF r0] by auto
  have run': "?run' = filter (\<lambda>q. q \<noteq> rid) ?run" by (auto intro: filter_cong)
  have lists: "distinct (?run' @ w)" "set ?run' = set ?run - {rid}" "set w = set w - {rid}"
    using sched_okD(1) [OF ok] mem unfolding run' by (auto simp del: filter_filter)
  have ok1: "sched_ok caching bs hk (visit_ok spec (insert rid todo)) ?mml ?run w (sc_requests ?s) (sc_kv_cache_manager ?s1)"
    using ok by (simp add: upd_req_def)
  have "map_of (sc_requests ?s1) rid = Some r2" using r0 by (simp add: upd_req_def dict_simps)
  from free_request_ok [OF ok1 this r2 lists] obtain s2 where s2: "free_request rid ?s1 = Inr s2" "same_limits ?s1 s2"
    "sc_running s2 = sc_running ?s1" "sc_waiting s2 = sc_waiting ?s1"
    "sc_requests s2 = AList.delete rid (sc_requests ?s1)" "sc_pending_pruned_outputs s2 = sc_pending_pruned_outputs ?s1"
    "sched_ok caching bs hk (visit_ok spec (insert rid todo)) ?mml ?run' w (AList.delete rid (sc_requests ?s)) (sc_kv_cache_manager s2)"
    by blast
  have reqs: "sc_requests s2 = AList.delete rid (sc_requests ?s)" using s2(5) by (simp add: upd_req_def)
  have weaken: "visit_ok spec todo q r" if "map_of (AList.delete rid (sc_requests ?s)) q = Some r" "visit_ok spec (insert rid todo) q r" for q r
    using that by (intro visit_ok_weaken [OF that(2)]) (auto simp: dict_simps)
  have "length ?run' \<le> length ?run" unfolding run' by (rule length_filter_le)
  with sched_ok_mono [OF s2(7) weaken] have "sched_inv caching bs hk (visit_ok spec todo) (s2\<lparr>sc_running := ?run'\<rparr>)"
    using inv w s2(2,4) reqs by (simp add: upd_inv_def sched_inv_def same_limits_def upd_req_def)
  moreover have "todo \<inter> keyset (sc_requests s2) \<subseteq> set (sc_running s2) - insert rid (ux_stopped_running ux)"
    using live new s2(3) by (auto simp: reqs upd_req_def simp del: set_map)
  ultimately show ?thesis using inv s2(1-4,6) reqs
    by (intro exI [of _ s2]) (simp add: upd_inv_def upd_frame_def same_limits_def upd_req_def dict_simps Let_def)
qed

lemma update_one_total:
  assumes inv: "upd_inv caching bs hk (so_spec_tokens so) (insert rid todo) ux" and new: "rid \<notin> todo" and n: "0 < n" and ans: "answers mo rid"
  shows "\<exists>ux'. update_one hasher so mo finals hists rid n ux = Inr ux' \<and> upd_inv caching bs hk (so_spec_tokens so) todo ux' \<and> upd_frame {rid} ux ux'"
proof (cases "map_of (sc_requests (ux_sched ux)) rid")
  case None
  with update_gone_inv [OF inv None] n show ?thesis by (simp add: update_one_def)
next
  case (Some r0)
  let ?s = "ux_sched ux" let ?spec = "so_spec_tokens so" and ?mml = "sc_max_model_len ?s"
  have mem: "rid \<in> set (sc_running ?s) - ux_stopped_running ux"
    using inv map_of_in_keys [OF Some] by (auto simp: upd_inv_def)
  obtain w where "sched_ok caching bs hk (visit_ok ?spec (insert rid todo)) ?mml
      (filter (\<lambda>rid. rid \<notin> ux_stopped_running ux) (sc_running ?s)) w (sc_requests ?s) (sc_kv_cache_manager ?s)"
    using inv by (rule upd_invE)
  from sched_okD(9) [OF this Some] mem
  have r0: "rq_request_id r0 = rid" "hk r0" "token_ok ?mml r0" "rq_status r0 = RUNNING" "mid_ok ?spec rid r0"
    by (simp_all add: request_ok_def visit_ok_def)
  obtain g where g: "sampled_for mo rid = Inr g" using sampled_for_answers [OF ans] by blast
  define d where "d = dget_or ?spec rid []"
  define c where "c = (if d \<noteq> [] then rq_num_computed_tokens r0 - (int (length d) - (int (length g) - 1)) else rq_num_computed_tokens r0)"
  have cb: "0 \<le> c" "c \<le> num_tokens r0 + int (length g)" using rejected_computed [OF r0(5,3) d_def c_def] .
  let ?r1 = "r0\<lparr>rq_num_computed_tokens := c\<rparr>"
  have r1: "(if d \<noteq> [] then r0\<lparr>rq_num_computed_tokens := rq_num_computed_tokens r0 - (int (length d) - (int (length g) - 1))\<rparr> else r0) = ?r1"
    by (simp add: c_def)
  have "token_ok ?mml ?r1" "hk ?r1" using token_ok_computed [OF r0(3) cb(1)] r0(2) by (simp_all add: hk_fields)
  from update_request_total [OF this, of g] obtain toks st r2 where
    upd: "update_request_with_output hasher ?mml ?r1 g = Inr (toks, st, r2)" "rq_request_id r2 = rid" "st \<longrightarrow> is_finished r2 \<and> toks \<noteq> []"
      "\<not> st \<longrightarrow> toks = g \<and> token_ok ?mml r2 \<and> hk r2 \<and> rq_status r2 = RUNNING \<and> num_tokens r2 = num_tokens r0 + int (length g) \<and>
        rq_num_computed_tokens r2 = c \<and> prefix (rq_block_hashes r0) (rq_block_hashes r2)"
    using r0(1,4) by auto
  obtain outs where step: "update_one hasher so mo finals hists rid n ux =
      ebind (if st then free_request rid (upd_req rid (\<lambda>_. r2) ?s) else Inr (upd_req rid (\<lambda>_. r2) ?s)) (\<lambda>s2.
      Inr (ux\<lparr>ux_sched := s2, ux_stopped_running := (if st then insert rid (ux_stopped_running ux) else ux_stopped_running ux), ux_outputs := outs\<rparr>))"
    using n Some g upd(1) r0(4) unfolding update_one_def Let_def d_def [symmetric] by (simp add: r1)
  show ?thesis
  proof (cases st)
    case False
    with upd(2,4) cb have "request_ok hk computed_ok ?mml True rid r2" by (simp add: request_ok_def computed_ok_def)
    from update_running_inv [OF inv new Some this _ refl, of outs] step False upd(4) show ?thesis by simp
  next
    case True
    with update_stopped_inv [OF inv new Some upd(2)] upd(3) step show ?thesis by (auto simp: Let_def)
  qed
qed

lemma update_loop_total:
  assumes "upd_inv caching bs hk (so_spec_tokens so) (keyset xs) ux" and "wf_dict xs" and "\<forall>(rid, n) \<in> set xs. 0 < n \<and> answers mo rid"
  shows "\<exists>ux'. update_loop hasher so mo finals hists xs ux = Inr ux' \<and> upd_inv caching bs hk (so_spec_tokens so) {} ux' \<and> upd_frame (keyset xs) ux ux'"
  using assms
proof (induction xs arbitrary: ux)
  case (Cons e xs)
  obtain rid n where e: "e = (rid, n)" by (cases e)
  have "upd_inv caching bs hk (so_spec_tokens so) (insert rid (keyset xs)) ux" "rid \<notin> keyset xs" "0 < n" "answers mo rid"
    using Cons.prems by (simp_all add: e)
  from update_one_total [OF this] obtain ux1 where ux1: "update_one hasher so mo finals hists rid n ux = Inr ux1"
    "upd_inv caching bs hk (so_spec_tokens so) (keyset xs) ux1" "upd_frame {rid} ux ux1" by blast
  have "wf_dict xs" "\<forall>(rid, n) \<in> set xs. 0 < n \<and> answers mo rid" using Cons.prems(2,3) by (simp_all add: e)
  from Cons.IH [OF ux1(2) this] obtain ux' where "update_loop hasher so mo finals hists xs ux1 = Inr ux'"
    "upd_inv caching bs hk (so_spec_tokens so) {} ux'" "upd_frame (keyset xs) ux1 ux'" by blast
  with ux1 upd_frame_trans [OF ux1(3), of "keyset xs" ux'] show ?case by (simp add: e)
qed simp

end

subsection \<open>Outputs\<close>

lemma merge_pruned_delivers:
  assumes "o' \<in> set (dget_or pending ci []) \<or> (\<exists>eco. map_of outs ci = Some eco \<and> o' \<in> set (eos_outputs eco))"
  shows "\<exists>eco. map_of (merge_pruned pending outs) ci = Some eco \<and> o' \<in> set (eos_outputs eco)"
  using assms
proof (induction pending arbitrary: outs)
  case Nil
  then show ?case by (auto simp: merge_pruned_def dget_or_def)
next
  case (Cons e pending)
  obtain cj pruned where e: "e = (cj, pruned)" by (cases e)
  let ?eco = "dget_or outs cj \<lparr>eos_outputs = [], eos_finished_requests = None\<rparr>"
  let ?outs = "if pruned = [] then outs else AList.update cj (?eco\<lparr>eos_outputs := eos_outputs ?eco @ pruned\<rparr>) outs"
  have eq: "merge_pruned (e # pending) outs = merge_pruned pending ?outs" by (simp add: merge_pruned_def e Let_def)
  have keep: "\<exists>eco. map_of ?outs ci = Some eco \<and> o' \<in> set (eos_outputs eco)"
    if "\<exists>eco. map_of outs ci = Some eco \<and> o' \<in> set (eos_outputs eco)" using that by (auto simp: dict_simps dget_or_def)
  have add: "\<exists>eco. map_of ?outs ci = Some eco \<and> o' \<in> set (eos_outputs eco)" if "cj = ci" "o' \<in> set pruned"
    using that by (auto simp: dict_simps)
  from Cons.prems have "o' \<in> set (dget_or pending ci []) \<or> (\<exists>eco. map_of ?outs ci = Some eco \<and> o' \<in> set (eos_outputs eco))"
    using keep add by (cases "cj = ci") (auto simp: e dget_or_def)
  from Cons.IH [OF this] show ?case unfolding eq .
qed

lemma merge_finished_keeps:
  "map_of outs ci = Some eco \<Longrightarrow> \<exists>eco'. map_of (merge_finished fin outs) ci = Some eco' \<and> eos_outputs eco' = eos_outputs eco"
proof (induction fin arbitrary: outs eco)
  case (Cons e fin)
  obtain cj ids where e: "e = (cj, ids)" by (cases e)
  let ?o = "AList.update cj ((dget_or outs cj \<lparr>eos_outputs = [], eos_finished_requests = None\<rparr>)\<lparr>eos_finished_requests := Some ids\<rparr>) outs"
  obtain eco1 where "map_of ?o ci = Some eco1" "eos_outputs eco1 = eos_outputs eco"
    using Cons.prems by (cases "ci = cj") (auto simp: dict_simps dget_or_def)
  from Cons.IH [OF this(1)] this(2) show ?case by (simp add: merge_finished_def e)
qed (simp add: merge_finished_def)

lemma pruned_outputs_merged:
  assumes "o' \<in> set (dget_or pending ci [])"
  shows "\<exists>eco. map_of (case fd of None \<Rightarrow> merge_pruned pending outs | Some d \<Rightarrow> merge_finished d (merge_pruned pending outs)) ci = Some eco \<and>
    o' \<in> set (eos_outputs eco)"
proof -
  obtain eco where eco: "map_of (merge_pruned pending outs) ci = Some eco" "o' \<in> set (eos_outputs eco)"
    using merge_pruned_delivers [of o' pending ci outs] assms by blast
  show ?thesis
  proof (cases fd)
    case None
    with eco show ?thesis by simp
  next
    case (Some d)
    from merge_finished_keeps [OF eco(1), of d] eco(2) Some show ?thesis by auto
  qed
qed

context block_hashing
begin

lemma upd_inv_start:
  assumes inv: "sched_inv caching bs hk (mid_ok (so_spec_tokens so)) s"
    and plan: "keyset (so_num_scheduled_tokens so) \<inter> keyset (sc_requests s) \<subseteq> set (sc_running s)"
      "keyset (so_spec_tokens so) \<subseteq> keyset (so_num_scheduled_tokens so)"
  shows "upd_inv caching bs hk (so_spec_tokens so) (keyset (so_num_scheduled_tokens so))
    \<lparr>ux_sched = s, ux_outputs = [], ux_stopped_running = {}, ux_stopped_preempted = []\<rparr>"
proof -
  let ?ns = "so_num_scheduled_tokens so" and ?spec = "so_spec_tokens so"
  obtain w where w: "sc_waiting s = FCFSQueue w"
    and ok: "sched_ok caching bs hk (mid_ok ?spec) (sc_max_model_len s) (sc_running s) w (sc_requests s) (sc_kv_cache_manager s)"
    using inv by (rule sched_invE)
  have "visit_ok ?spec (keyset ?ns) q r" if "mid_ok ?spec q r" for q r
  proof -
    have "dget_or ?spec q [] = []" if "q \<notin> keyset ?ns" by (rule dget_or_other) (use that plan(2) in blast)
    with that show ?thesis by (auto simp: visit_ok_def mid_ok_def computed_ok_def)
  qed
  from sched_ok_mono [OF ok this] inv w plan(1) show ?thesis by (simp add: upd_inv_def sched_inv_def)
qed

text \<open>A request that is preempted after the step was not in the batch, so it was preempted before the step.\<close>

lemma preempted_not_in_batch:
  assumes ok: "sched_ok caching bs hk ck mml run0 w reqs0 km0" and ok': "sched_ok caching bs hk ck' mml run w reqs km"
    and plan: "ids \<inter> keyset reqs0 \<subseteq> set run0" and r: "map_of reqs rid = Some r" "rq_status r = PREEMPTED"
  shows "rid \<notin> ids"
proof
  assume "rid \<in> ids"
  have "rid \<notin> set run" using sched_okD(9) [OF ok' r(1)] r(2) by (auto simp: request_ok_def)
  moreover have "rid \<in> keyset reqs" using r(1) by (rule map_of_in_keys)
  ultimately have w: "rid \<in> set w" using sched_okD(3) [OF ok'] by blast
  then have "rid \<in> keyset reqs0" using sched_okD(3) [OF ok] by simp
  with \<open>rid \<in> ids\<close> plan have "rid \<in> set run0" by blast
  with w sched_okD(1) [OF ok] show False by auto
qed

lemma update_from_output_total:
  assumes inv: "sched_inv caching bs hk (mid_ok (so_spec_tokens so)) s" and prev: "prev_ok s"
    and plan: "wf_dict (so_num_scheduled_tokens so)" "\<forall>(rid, n) \<in> set (so_num_scheduled_tokens so). 0 < n \<and> answers mo rid"
      "keyset (so_num_scheduled_tokens so) \<inter> keyset (sc_requests s) \<subseteq> set (sc_running s)"
      "keyset (so_spec_tokens so) \<subseteq> keyset (so_num_scheduled_tokens so)"
  shows "\<exists>outs s'. update_from_output hasher so mo finals hists s = Inr (outs, s') \<and> sched_inv caching bs hk computed_ok s' \<and> prev_ok s' \<and>
    same_limits s s' \<and> sc_waiting s' = sc_waiting s \<and> set (sc_running s') \<subseteq> set (sc_running s) \<and> sc_pending_pruned_outputs s' = [] \<and>
    (\<forall>ci. \<forall>o' \<in> set (dget_or (sc_pending_pruned_outputs s) ci []). \<exists>eco. map_of outs ci = Some eco \<and> o' \<in> set (eos_outputs eco))"
proof -
  let ?ns = "so_num_scheduled_tokens so" and ?spec = "so_spec_tokens so"
  let ?ux = "\<lparr>ux_sched = s, ux_outputs = [], ux_stopped_running = {}, ux_stopped_preempted = []\<rparr>"
  obtain w where w: "sc_waiting s = FCFSQueue w"
    and ok: "sched_ok caching bs hk (mid_ok ?spec) (sc_max_model_len s) (sc_running s) w (sc_requests s) (sc_kv_cache_manager s)"
    using inv by (rule sched_invE)
  have "upd_inv caching bs hk ?spec (keyset ?ns) ?ux" by (rule upd_inv_start [OF inv plan(3,4)])
  from update_loop_total [OF this plan(1,2)] obtain ux where ux: "update_loop hasher so mo finals hists ?ns ?ux = Inr ux"
    "upd_inv caching bs hk ?spec {} ux" "upd_frame (keyset ?ns) ?ux ux" by blast
  let ?s = "ux_sched ux" let ?run = "filter (\<lambda>rid. rid \<notin> ux_stopped_running ux) (sc_running ?s)"
  have run: "sc_running ?s = sc_running s" and wait: "sc_waiting ?s = sc_waiting s" and lim: "same_limits s ?s"
    and pend: "sc_pending_pruned_outputs ?s = sc_pending_pruned_outputs s"
    and frame: "\<And>rid. rid \<notin> keyset ?ns \<Longrightarrow> map_of (sc_requests ?s) rid = map_of (sc_requests s) rid"
    using ux(3) by (simp_all add: upd_frame_def)
  have sinv: "sched_inv caching bs hk (visit_ok ?spec {}) (?s\<lparr>sc_running := ?run\<rparr>)" using ux(2) by (simp add: upd_inv_def)
  have "remove_all (sc_running ?s) (ux_stopped_running ux) = ?run"
    by (rule remove_all_eq_filter) (use sched_okD(1) [OF ok] run in simp)
  moreover have "ux_stopped_running ux = {} \<Longrightarrow> ?run = sc_running ?s" by simp
  ultimately have rem: "remove_stopped ux = Inr (?s\<lparr>sc_running := ?run\<rparr>)"
    using ux(2) by (auto simp: remove_stopped_def Let_def upd_inv_def)
  let ?km = "snd (km_take_events (sc_kv_cache_manager ?s))"
  let ?s2 = "?s\<lparr>sc_running := ?run, sc_kv_cache_manager := ?km, sc_pending_pruned_outputs := []\<rparr>"
  let ?s3 = "case sc_finished_req_ids_dict ?s2 of None \<Rightarrow> ?s2 | Some d \<Rightarrow> ?s2\<lparr>sc_finished_req_ids_dict := Some []\<rparr>"
  let ?outs = "map (\<lambda>(ci, os). (ci, \<lparr>eos_outputs = os, eos_finished_requests = None\<rparr>)) (ux_outputs ux)"
  let ?outs1 = "merge_pruned (sc_pending_pruned_outputs s) ?outs"
  let ?outs2 = "case sc_finished_req_ids_dict ?s2 of None \<Rightarrow> ?outs1 | Some d \<Rightarrow> merge_finished d ?outs1"
  have step: "update_from_output hasher so mo finals hists s = Inr (?outs2, ?s3)"
    using ux(1) rem pend by (simp add: update_from_output_def Let_def split: option.splits)
  have s3: "sc_running ?s3 = ?run" "sc_waiting ?s3 = FCFSQueue w" "sc_requests ?s3 = sc_requests ?s" "sc_kv_cache_manager ?s3 = ?km"
    "same_limits s ?s3" "sc_pending_pruned_outputs ?s3 = []"
    using lim wait w by (auto simp: same_limits_def split: option.splits)
  have okv: "sched_ok caching bs hk (visit_ok ?spec {}) (sc_max_model_len s) ?run w (sc_requests ?s) (sc_kv_cache_manager ?s)"
    using sinv wait w lim by (auto simp: sched_inv_def same_limits_def)
  note ev = take_events_frame [OF sched_okD(4) [OF okv]]
  have "sched_ok caching bs hk computed_ok (sc_max_model_len s) ?run w (sc_requests ?s) ?km"
  proof (rule sched_ok_step [OF okv])
    fix q r assume "map_of (sc_requests ?s) q = Some r"
    from sched_okD(9) [OF okv this] show "request_ok hk computed_ok (sc_max_model_len s) (q \<in> set ?run) q r"
      by (auto simp: request_ok_def visit_ok_def)
  qed (use ev sched_okD [OF okv] in auto)
  then have inv3: "sched_inv caching bs hk computed_ok ?s3"
    by (intro sched_invI [OF inv s3(5) _ s3(2)]) (use s3 run in \<open>simp_all add: order.trans [OF length_filter_le]\<close>)
  have "rid \<notin> sc_prev_step_scheduled_req_ids ?s3" if r: "map_of (sc_requests ?s3) rid = Some r" "rq_status r = PREEMPTED" for rid r
  proof -
    have r': "map_of (sc_requests ?s) rid = Some r" using r(1) s3(3) by simp
    have "rid \<notin> keyset ?ns" by (rule preempted_not_in_batch [OF ok okv plan(3) r' r(2)])
    with frame r' have "map_of (sc_requests s) rid = Some r" by simp
    with prev r(2) s3(5) show ?thesis by (auto simp: prev_ok_def same_limits_def)
  qed
  then have prev3: "prev_ok ?s3" unfolding prev_ok_def by blast
  have "\<exists>eco. map_of ?outs2 ci = Some eco \<and> o' \<in> set (eos_outputs eco)"
    if o: "o' \<in> set (dget_or (sc_pending_pruned_outputs s) ci [])" for ci o' by (rule pruned_outputs_merged [OF o])
  with step inv3 prev3 s3 w run show ?thesis by (intro exI [of _ ?outs2] exI [of _ ?s3]) auto
qed

end

end
