(* ===== verification/Sched_Props.thy ===== *)
theory Sched_Props
  imports Update_Total
begin

text \<open>
  The scheduler as a state machine: its public operations are the steps, a step is either idle or has planned a batch
  that waits for the sampled tokens. The invariant holds in every reachable state, and every reachable state can continue.
\<close>

subsection \<open>Small updates\<close>

text \<open>What such an update keeps: the queues, the identity of the live requests, the settings.\<close>

definition same_queues :: "scheduler \<Rightarrow> scheduler \<Rightarrow> bool" where
  "same_queues s s' \<longleftrightarrow> same_limits s s' \<and> sc_running s' = sc_running s \<and> sc_waiting s' = sc_waiting s \<and>
     keyset (sc_requests s') = keyset (sc_requests s) \<and>
     (\<forall>rid. map_option rq_status (map_of (sc_requests s') rid) = map_option rq_status (map_of (sc_requests s) rid))"

lemma same_queues_refl [simp]: "same_queues s s"
  by (simp add: same_queues_def)

lemma same_queues_trans: "same_queues s s' \<Longrightarrow> same_queues s' s'' \<Longrightarrow> same_queues s s''"
  by (simp add: same_queues_def same_limits_def)

lemma same_queues_prev: "same_queues s s' \<Longrightarrow> prev_ok s \<Longrightarrow> prev_ok s'"
  unfolding prev_ok_def same_queues_def same_limits_def by (metis (no_types, lifting) map_option_eq_Some)

definition harmless :: "(request \<Rightarrow> bool) \<Rightarrow> (request \<Rightarrow> request) \<Rightarrow> bool" where
  "harmless hk f \<longleftrightarrow> (\<forall>r. rq_request_id (f r) = rq_request_id r \<and> (hk r \<longrightarrow> hk (f r)) \<and> rq_status (f r) = rq_status r \<and>
     rq_num_computed_tokens (f r) = rq_num_computed_tokens r \<and> num_tokens (f r) = num_tokens r \<and> rq_block_hashes (f r) = rq_block_hashes r \<and>
     (\<forall>mml. token_ok mml r \<longrightarrow> token_ok mml (f r)))"

definition counts_only :: "(reqid \<Rightarrow> request \<Rightarrow> bool) \<Rightarrow> bool" where
  "counts_only ck \<longleftrightarrow> (\<forall>rid r r'. rq_num_computed_tokens r = rq_num_computed_tokens r' \<longrightarrow> num_tokens r = num_tokens r' \<longrightarrow> ck rid r = ck rid r')"

lemma counts_only_simps [simp]: "counts_only computed_ok" "counts_only (mid_ok spec)"
  by (simp_all add: counts_only_def computed_ok_def mid_ok_def)

lemma upd_req_keeps:
  assumes inv: "sched_inv caching bs hk ck s" and f: "harmless hk f" and ck: "counts_only ck"
  shows "sched_inv caching bs hk ck (upd_req rid f s) \<and> same_queues s (upd_req rid f s)"
proof -
  obtain w where w: "sc_waiting s = FCFSQueue w"
    and ok: "sched_ok caching bs hk ck (sc_max_model_len s) (sc_running s) w (sc_requests s) (sc_kv_cache_manager s)"
    using inv by (rule sched_invE)
  have ckf: "ck q (f r) = ck q r" for q r
    by (rule ck [unfolded counts_only_def, rule_format]) (use f in \<open>simp_all add: harmless_def\<close>)
  have "sched_ok caching bs hk ck (sc_max_model_len s) (sc_running s) w (dmodify rid f (sc_requests s)) (sc_kv_cache_manager s)"
  proof (rule sched_ok_modify [OF ok])
    fix r assume r: "request_ok hk ck (sc_max_model_len s) (rid \<in> set (sc_running s)) rid r"
    note fr = f [unfolded harmless_def, rule_format, of r]
    from r fr ckf [of rid r] show "request_ok hk ck (sc_max_model_len s) (rid \<in> set (sc_running s)) rid (f r) \<and>
        prefix (rq_block_hashes r) (rq_block_hashes (f r))" by (simp add: request_ok_def)
  qed
  with inv w have "sched_inv caching bs hk ck (upd_req rid f s)" by (simp add: sched_inv_def upd_req_def)
  moreover have "same_queues s (upd_req rid f s)"
    using f by (simp add: same_queues_def upd_req_def same_limits_def dict_simps harmless_def option.map_comp o_def del: set_map)
  ultimately show ?thesis by simp
qed

lemma fold_keeps:
  assumes inv: "sched_inv caching bs hk ck s"
    and step: "\<And>x s. sched_inv caching bs hk ck s \<Longrightarrow> sched_inv caching bs hk ck (g x s) \<and> same_queues s (g x s)"
  shows "sched_inv caching bs hk ck (fold g xs s) \<and> same_queues s (fold g xs s)"
  using inv
proof (induction xs arbitrary: s)
  case (Cons x xs)
  from step [OF Cons.prems, of x] Cons.IH [of "g x s"] show ?case by (auto intro: same_queues_trans)
qed simp

context block_hashing
begin

lemma update_trace_scores_ok:
  assumes "sched_inv caching bs hk ck s" and "counts_only ck"
  shows "sched_inv caching bs hk ck (update_trace_scores scores s) \<and> same_queues s (update_trace_scores scores s)"
proof -
  let ?g = "\<lambda>(rid, score) s. upd_req rid (\<lambda>r. r\<lparr>rq_trace_avg_score := Some score\<rparr>) (s\<lparr>sc_trace_scores := AList.update rid score (sc_trace_scores s)\<rparr>)"
  have eq: "update_trace_scores scores s = fold ?g scores s"
    by (induction scores arbitrary: s) (auto simp: update_trace_scores_def Let_def)
  have h: "harmless hk (\<lambda>r. r\<lparr>rq_trace_avg_score := x\<rparr>)" for x by (simp add: harmless_def hk_fields)
  show ?thesis unfolding eq
  proof (rule fold_keeps [OF assms(1)])
    fix x t assume t: "sched_inv caching bs hk ck t"
    let ?t = "t\<lparr>sc_trace_scores := AList.update (fst x) (snd x) (sc_trace_scores t)\<rparr>"
    have "sched_inv caching bs hk ck ?t" "same_queues t ?t" using t by (simp_all add: sched_inv_def same_queues_def same_limits_def)
    with upd_req_keeps [OF _ h assms(2), of caching bs ?t "fst x" "Some (snd x)"]
    show "sched_inv caching bs hk ck (?g x t) \<and> same_queues t (?g x t)" by (auto simp: case_prod_beta intro: same_queues_trans)
  qed
qed

lemma mark_stop_reason_ok:
  assumes "sched_inv caching bs hk ck s" and "counts_only ck"
  shows "sched_inv caching bs hk ck (mark_stop_reason ids reason s) \<and> same_queues s (mark_stop_reason ids reason s)"
  unfolding mark_stop_reason_def
  by (rule fold_keeps [OF assms(1)]) (rule upd_req_keeps [OF _ _ assms(2)], simp_all add: harmless_def hk_fields)

lemma update_draft_token_ids_ok:
  assumes "sched_inv caching bs hk ck s" and "counts_only ck"
  shows "sched_inv caching bs hk ck (update_draft_token_ids ds s) \<and> same_queues s (update_draft_token_ids ds s)"
proof -
  let ?g = "\<lambda>(rid, toks) s. upd_req rid (\<lambda>r. if is_finished r then r else r\<lparr>rq_spec_token_ids := toks\<rparr>) s"
  have eq: "update_draft_token_ids ds s = fold ?g ds s" for s by (induction ds arbitrary: s) auto
  have h: "harmless hk (\<lambda>r. if is_finished r then r else r\<lparr>rq_spec_token_ids := toks\<rparr>)" for toks by (simp add: harmless_def hk_fields)
  show ?thesis unfolding eq
    by (rule fold_keeps [OF assms(1)]) (use upd_req_keeps [OF _ h assms(2)] in \<open>auto simp: case_prod_beta\<close>)
qed

end

text \<open>When no request holds a block, the prefix cache can be reset.\<close>

lemma no_tables_free:
  assumes "kv_inv hs km" and "\<And>rid. km_table km rid = []"
  shows "\<forall>i. usable (km_pool km) i \<longrightarrow> ref_of (km_pool km) i = 0"
    and "get_num_free_blocks (km_pool km) = int (bp_num_gpu_blocks (km_pool km)) - 1"
proof -
  obtain m xs where m: "kc_managers (km_coordinator km) = [m]"
    and ok: "kv_ok hs gid_bytes (km_pool km) (sm_req_to_blocks m) (sm_num_cached_block m) xs"
    using assms(1) by (elim kv_invE) blast
  have "holders i (sm_req_to_blocks m) = 0" for i
  proof (rule ccontr)
    assume "holders i (sm_req_to_blocks m) \<noteq> 0"
    then have "0 < dcount (\<lambda>bs. Blk i \<in> set bs) (sm_req_to_blocks m)" by (simp add: holders_def)
    then obtain rid bs where "(rid, bs) \<in> set (sm_req_to_blocks m)" "bs \<noteq> []" unfolding dcount_pos_iff by fastforce
    then have "map_of (sm_req_to_blocks m) rid = Some bs" using kv_okD(2) [OF ok] by (simp add: in_set_wf_dict)
    with assms(2) [of rid] m \<open>bs \<noteq> []\<close> show False by (simp add: km_table_def dget_or_def)
  qed
  with kv_okD(5) [OF ok] show refs: "\<forall>i. usable (km_pool km) i \<longrightarrow> ref_of (km_pool km) i = 0" by simp
  note rep = kv_okD(1) [OF ok]
  have "\<forall>i. usable (km_pool km) i \<longrightarrow> i \<in> set xs" using refs pool_repD(3) [OF rep] by (simp add: counts_ok_def)
  with free_count [OF rep] have "length xs = bp_num_gpu_blocks (km_pool km) - 1" by simp
  moreover have "0 < bp_num_gpu_blocks (km_pool km)" using pool_repD(2) [OF rep] by (simp add: labels_ok_def)
  ultimately show "get_num_free_blocks (km_pool km) = int (bp_num_gpu_blocks (km_pool km)) - 1" using free_count(1) [OF rep] by simp
qed

subsection \<open>The state machine\<close>

datatype phase = Idle | Planned scheduler_output

definition hash_good :: "(hash_input \<Rightarrow> bytes) \<Rightarrow> bytes \<Rightarrow> bool" where
  "hash_good hf nh \<longleftrightarrow> inj hf \<and> (\<forall>x. hf x \<noteq> [] \<and> hf x \<noteq> nh)"

text \<open>A request that the front end may add: not started, within the limits, with up-to-date hashes.\<close>

definition admissible :: "(hash_input \<Rightarrow> bytes) \<Rightarrow> bytes \<Rightarrow> nat \<Rightarrow> int \<Rightarrow> request \<Rightarrow> bool" where
  "admissible hf nh bs mml r \<longleftrightarrow> chain_ok hf nh bs r \<and> token_ok mml r \<and> waits (rq_status r) \<and> rq_status r \<noteq> PREEMPTED \<and>
     rq_num_computed_tokens r = 0"

inductive sched_step :: "(hash_input \<Rightarrow> bytes) \<Rightarrow> bytes \<Rightarrow> nat \<Rightarrow> phase \<times> scheduler \<Rightarrow> phase \<times> scheduler \<Rightarrow> bool" for hf nh bs where
  step_add: "admissible hf nh bs (sc_max_model_len s) r \<Longrightarrow> rq_request_id r \<notin> keyset (sc_requests s) \<Longrightarrow>
    add_request r s = Inr s' \<Longrightarrow> sched_step hf nh bs (Idle, s) (Idle, s')"
| step_finish: "status_is_finished st \<Longrightarrow> finish_requests ids st s = Inr s' \<Longrightarrow> sched_step hf nh bs (ph, s) (ph, s')"
| step_scores: "sched_step hf nh bs (ph, s) (ph, update_trace_scores scores s)"
| step_reason: "sched_step hf nh bs (ph, s) (ph, mark_stop_reason ids reason s)"
| step_drafts: "sched_step hf nh bs (Idle, s) (Idle, update_draft_token_ids ds s)"
| step_schedule: "schedule u fsm s = Inr (so, s') \<Longrightarrow> sched_step hf nh bs (Idle, s) (Planned so, s')"
| step_update: "\<forall>rid \<in> keyset (so_num_scheduled_tokens so). answers mo rid \<Longrightarrow>
    update_from_output (Some (get_request_block_hasher hf nh bs)) so mo finals hists s = Inr (outs, s') \<Longrightarrow>
    sched_step hf nh bs (Planned so, s) (Idle, s')"

inductive_cases idle_stepE: "sched_step hf nh bs (Idle, s) (ph', s')"

text \<open>What the invariant says in each phase.\<close>

definition batch_ok :: "scheduler_output \<Rightarrow> scheduler \<Rightarrow> bool" where
  "batch_ok so s \<longleftrightarrow> wf_dict (so_num_scheduled_tokens so) \<and> (\<forall>(rid, n) \<in> set (so_num_scheduled_tokens so). 0 < n) \<and>
     keyset (so_num_scheduled_tokens so) \<inter> keyset (sc_requests s) \<subseteq> set (sc_running s) \<and>
     keyset (so_spec_tokens so) \<subseteq> keyset (so_num_scheduled_tokens so)"

fun phase_inv :: "bool \<Rightarrow> (hash_input \<Rightarrow> bytes) \<Rightarrow> bytes \<Rightarrow> nat \<Rightarrow> phase \<times> scheduler \<Rightarrow> bool" where
  "phase_inv caching hf nh bs (Idle, s) \<longleftrightarrow> sched_inv caching bs (chain_ok hf nh bs) computed_ok s \<and> prev_ok s"
| "phase_inv caching hf nh bs (Planned so, s) \<longleftrightarrow>
     sched_inv caching bs (chain_ok hf nh bs) (mid_ok (so_spec_tokens so)) s \<and> prev_ok s \<and> batch_ok so s"

lemma phase_invE:
  assumes "phase_inv caching hf nh bs (ph, s)"
  obtains ck where "counts_only ck" "sched_inv caching bs (chain_ok hf nh bs) ck s" "prev_ok s"
    "\<And>s'. sched_inv caching bs (chain_ok hf nh bs) ck s' \<Longrightarrow> prev_ok s' \<Longrightarrow> (\<And>so. ph = Planned so \<Longrightarrow> batch_ok so s \<Longrightarrow> batch_ok so s') \<Longrightarrow>
       phase_inv caching hf nh bs (ph, s')"
proof (cases ph)
  case Idle
  with assms show thesis by (intro that [of computed_ok]) auto
next
  case (Planned so)
  with assms show thesis by (intro that [of "mid_ok (so_spec_tokens so)"]) auto
qed

lemma same_queues_batch: "same_queues s s' \<Longrightarrow> batch_ok so s \<Longrightarrow> batch_ok so s'"
  by (simp add: batch_ok_def same_queues_def)

lemma phase_inv_small:
  assumes "phase_inv caching hf nh bs (ph, s)"
    and "\<And>ck. counts_only ck \<Longrightarrow> sched_inv caching bs (chain_ok hf nh bs) ck s \<Longrightarrow> sched_inv caching bs (chain_ok hf nh bs) ck s' \<and> same_queues s s'"
  shows "phase_inv caching hf nh bs (ph, s')"
  using assms(1)
proof (rule phase_invE)
  fix ck assume ck: "counts_only ck" "sched_inv caching bs (chain_ok hf nh bs) ck s" "prev_ok s"
    and ret: "\<And>s'. sched_inv caching bs (chain_ok hf nh bs) ck s' \<Longrightarrow> prev_ok s' \<Longrightarrow> (\<And>so. ph = Planned so \<Longrightarrow> batch_ok so s \<Longrightarrow> batch_ok so s') \<Longrightarrow>
       phase_inv caching hf nh bs (ph, s')"
  note a = assms(2) [OF ck(1,2)]
  show ?thesis by (rule ret) (use a same_queues_prev [OF _ ck(3)] same_queues_batch in blast)+
qed

lemma prev_ok_add:
  "prev_ok s \<Longrightarrow> rq_status r \<noteq> PREEMPTED \<Longrightarrow> add_request r s = Inr s' \<Longrightarrow> prev_ok s'"
  by (auto simp: prev_ok_def add_request_def Let_def ebind_eq_Inr dict_simps split: if_splits)

lemma finish_keeps_requests:
  "finish_loop st ids s = Inr s' \<Longrightarrow> map_of (sc_requests s') rid = Some r \<Longrightarrow> map_of (sc_requests s) rid = Some r"
proof (induction ids arbitrary: s)
  case (Cons v ids)
  from Cons.prems(1) obtain s1 where s1: "free_request v (upd_req v (\<lambda>r. r\<lparr>rq_status := st\<rparr>) s) = Inr s1" "finish_loop st ids s1 = Inr s'"
    by (auto simp: ebind_eq_Inr)
  from Cons.IH [OF s1(2) Cons.prems(2)] free_request_frame [OF s1(1)] show ?case
    by (auto simp: upd_req_def dict_simps split: if_splits)
qed simp

lemma finish_requests_map:
  "finish_requests ids st s = Inr s' \<Longrightarrow> map_of (sc_requests s') rid = Some r \<Longrightarrow> map_of (sc_requests s) rid = Some r"
  by (auto simp: finish_requests_def Let_def ebind_eq_Inr split: if_splits dest!: finish_keeps_requests)

lemma step_keeps_inv:
  assumes good: "hash_good hf nh" "0 < bs" and step: "sched_step hf nh bs a b" and inv: "phase_inv caching hf nh bs a"
  shows "phase_inv caching hf nh bs b"
proof -
  have h: "block_hashing caching bs (Some (get_request_block_hasher hf nh bs)) (chain_ok hf nh bs)"
    by (rule chain_hashing) (use good in \<open>simp_all add: hash_good_def\<close>)
  from step inv show ?thesis
  proof (induction rule: sched_step.induct)
    case (step_add s r s')
    then have i: "sched_inv caching bs (chain_ok hf nh bs) computed_ok s" "prev_ok s" by simp_all
    then obtain w where w: "sc_waiting s = FCFSQueue w" by (elim sched_invE)
    have "request_ok (chain_ok hf nh bs) computed_ok (sc_max_model_len s) False (rq_request_id r) r"
      using step_add(1) by (simp add: admissible_def request_ok_def)
    from add_request_ok [OF i(1) step_add(2) this w] step_add(3) prev_ok_add [OF i(2) _ step_add(3)] step_add(1)
    show ?case by (auto simp: admissible_def)
  next
    case (step_finish st ids s s' ph)
    from step_finish(3) show ?case
    proof (rule phase_invE)
      fix ck assume ck: "sched_inv caching bs (chain_ok hf nh bs) ck s" "prev_ok s"
        and ret: "\<And>s'. sched_inv caching bs (chain_ok hf nh bs) ck s' \<Longrightarrow> prev_ok s' \<Longrightarrow> (\<And>so. ph = Planned so \<Longrightarrow> batch_ok so s \<Longrightarrow> batch_ok so s') \<Longrightarrow>
           phase_inv caching hf nh bs (ph, s')"
      obtain w where w: "sc_waiting s = FCFSQueue w" using ck(1) by (rule sched_invE)
      let ?V = "set ids \<inter> keyset (sc_requests s)"
      have f: "sched_inv caching bs (chain_ok hf nh bs) ck s'" "same_limits s s'" "sc_running s' = filter (\<lambda>x. x \<notin> ?V) (sc_running s)"
        "keyset (sc_requests s') = keyset (sc_requests s) - set ids"
        using finish_requests_ok [OF ck(1) step_finish(1) w refl, of ids] step_finish(2) by auto
      have "prev_ok s'" using ck(2) f(2) finish_requests_map [OF step_finish(2)] by (auto simp: prev_ok_def same_limits_def)
      moreover have "batch_ok so s'" if "batch_ok so s" for so
        using that f(3,4) by (auto simp: batch_ok_def simp del: set_map)
      ultimately show ?case using ret f(1) by blast
    qed
  next
    case (step_scores ph s scores)
    then show ?case by (rule phase_inv_small) (rule block_hashing.update_trace_scores_ok [OF h])
  next
    case (step_reason ph s ids reason)
    then show ?case by (rule phase_inv_small) (rule block_hashing.mark_stop_reason_ok [OF h])
  next
    case (step_drafts s ds)
    then show ?case by (rule phase_inv_small) (rule block_hashing.update_draft_token_ids_ok [OF h])
  next
    case (step_schedule u fsm s so s')
    then have "sched_inv caching bs (chain_ok hf nh bs) computed_ok s" "prev_ok s" by simp_all
    from block_hashing.schedule_total [OF h this, of u fsm] step_schedule(1) show ?case by (auto simp: batch_ok_def)
  next
    case (step_update so mo finals hists s outs s')
    then have i: "sched_inv caching bs (chain_ok hf nh bs) (mid_ok (so_spec_tokens so)) s" "prev_ok s" and b: "batch_ok so s" by simp_all
    have "\<forall>(rid, n) \<in> set (so_num_scheduled_tokens so). 0 < n \<and> answers mo rid" using b step_update(1) by (force simp: batch_ok_def)
    from block_hashing.update_from_output_total [OF h i _ this, of finals hists] b step_update(2) show ?case by (auto simp: batch_ok_def)
  qed
qed

lemma reachable_inv:
  assumes "hash_good hf nh" "0 < bs" and "(sched_step hf nh bs)\<^sup>*\<^sup>* a b" and "phase_inv caching hf nh bs a"
  shows "phase_inv caching hf nh bs b"
  using assms(3,4) by (induction rule: rtranclp_induct) (auto intro: step_keeps_inv [OF assms(1,2)])

subsection \<open>Start\<close>

definition good_config :: "scheduler_config \<Rightarrow> bool" where
  "good_config cf \<longleftrightarrow> (case cf_num_gpu_blocks cf of Some n \<Rightarrow> 0 < n | None \<Rightarrow> False) \<and> 0 < cf_num_blocks cf \<and> 0 < cf_block_size cf \<and>
     choose_policy (cf_gambit cf) (cf_policy cf) \<in> {Inr FCFS, Inr GAMBIT} \<and>
     (case cf_speculative cf of Some (_, eagle) \<Rightarrow> \<not> eagle | None \<Rightarrow> True) \<and> 0 \<le> cf_max_num_batched_tokens cf"

text \<open>The block size that the engine passes to the hasher.\<close>

definition hash_block_size :: "scheduler_config \<Rightarrow> nat" where
  "hash_block_size cf = (if cf_dcp_world_size cf > 1 then cf_block_size cf * cf_dcp_world_size cf else cf_block_size cf)"

lemma init_scheduler_inv:
  assumes "good_config cf"
  shows "\<exists>s. init_scheduler cf = Inr s \<and> phase_inv (cf_enable_prefix_caching cf) hf nh (hash_block_size cf) (Idle, s) \<and>
    sc_max_model_len s = cf_max_model_len cf \<and> sc_requests s = [] \<and> sc_max_num_scheduled_tokens s = cf_max_num_batched_tokens cf"
proof -
  obtain policy where pol: "choose_policy (cf_gambit cf) (cf_policy cf) = Inr policy" "policy = FCFS \<or> policy = GAMBIT"
    using assms by (auto simp: good_config_def)
  have eagle: "(case cf_speculative cf of Some (_, e) \<Rightarrow> e | None \<Rightarrow> False) = False"
    "(case cf_speculative cf of Some (k, e) \<Rightarrow> if e then k else 0 | None \<Rightarrow> 0) = (0 :: int)"
    using assms by (auto simp: good_config_def split: option.splits)
  have "0 < cf_num_blocks cf" "0 < cf_block_size cf" using assms by (simp_all add: good_config_def)
  from init_kv_inv [OF this, of "cf_max_model_len cf" "cf_enable_prefix_caching cf" False "cf_enable_kv_cache_events cf" "cf_dcp_world_size cf" "table_hashes []"]
  obtain km where km: "init_kv_manager (cf_max_model_len cf) (cf_enable_prefix_caching cf) False (cf_enable_kv_cache_events cf) (cf_num_blocks cf)
      (cf_block_size cf) (cf_dcp_world_size cf) = Inr km" "kv_inv (table_hashes []) km" "\<And>rid. km_table km rid = []" by blast
  have cfg: "km_max_model_len km = cf_max_model_len cf" "km_enable_caching km = cf_enable_prefix_caching cf"
    "\<not> kc_use_eagle (km_coordinator km)" "sm_block_size (km_sm km) = hash_block_size cf" "cached_ids km = {}"
    using km(1) by (auto simp: init_kv_manager_def ebind_eq_Inr new_st_manager_def hash_block_size_def sm_cached_def)
  let ?s = "\<lparr>sc_requests = [], sc_policy = policy, sc_waiting = create_request_queue policy, sc_running = [],
      sc_finished_req_ids = {}, sc_finished_req_ids_dict = (if cf_include_finished_set cf then Some [] else None),
      sc_prev_step_scheduled_req_ids = {}, sc_max_num_running_reqs = cf_max_num_seqs cf,
      sc_max_num_scheduled_tokens = cf_max_num_batched_tokens cf, sc_max_model_len = cf_max_model_len cf,
      sc_long_prefill_token_threshold = cf_long_prefill_token_threshold cf,
      sc_chunked_prefill_enabled = cf_chunked_prefill_enabled cf, sc_num_lookahead_tokens = 0,
      sc_use_pp = (cf_pipeline_parallel_size cf > 1), sc_kv_cache_manager = km, sc_trace_scores = [],
      sc_pending_pruned_outputs = []\<rparr>"
  have "init_scheduler cf = Inr ?s"
    using assms pol(1) km(1) by (simp add: init_scheduler_def Let_def eagle good_config_def)
  moreover have "phase_inv (cf_enable_prefix_caching cf) hf nh (hash_block_size cf) (Idle, ?s)"
    using assms pol(2) km(2,3) cfg by (auto simp: good_config_def sched_inv_def sched_ok_def prev_ok_def create_request_queue_def)
  ultimately show ?thesis by (intro exI [of _ ?s]) simp
qed

lemma reachable_phase:
  assumes "hash_good hf nh" and "good_config cf" and "init_scheduler cf = Inr s0"
    and "(sched_step hf nh (hash_block_size cf))\<^sup>*\<^sup>* (Idle, s0) (ph, s)"
  shows "phase_inv (cf_enable_prefix_caching cf) hf nh (hash_block_size cf) (ph, s)"
proof (rule reachable_inv [OF assms(1) _ assms(4)])
  show "0 < hash_block_size cf" using assms(2) by (simp add: hash_block_size_def good_config_def)
  show "phase_inv (cf_enable_prefix_caching cf) hf nh (hash_block_size cf) (Idle, s0)"
    using init_scheduler_inv [OF assms(2), of hf nh] assms(3) by auto
qed

lemma reachable_hashing:
  assumes "hash_good hf nh" and "good_config cf"
  shows "block_hashing caching (hash_block_size cf) (Some (get_request_block_hasher hf nh (hash_block_size cf))) (chain_ok hf nh (hash_block_size cf))"
  by (rule chain_hashing) (use assms in \<open>simp_all add: hash_good_def hash_block_size_def good_config_def\<close>)

subsection \<open>An instance\<close>

definition sample_sched_config :: scheduler_config where
  "sample_sched_config = \<lparr>cf_policy = ''fcfs'', cf_gambit = Some (default_gambit_config\<lparr>gc_enable := True\<rparr>), cf_max_num_seqs = 4,
     cf_max_num_batched_tokens = 16, cf_max_model_len = 100, cf_long_prefill_token_threshold = 0,
     cf_chunked_prefill_enabled = True, cf_speculative = None, cf_num_gpu_blocks = Some 8, cf_num_blocks = 8, cf_block_size = 2,
     cf_dcp_world_size = 1, cf_enable_prefix_caching = True, cf_enable_kv_cache_events = False, cf_pipeline_parallel_size = 1,
     cf_include_finished_set = False\<rparr>"

lemma sample_sched_config: "good_config sample_sched_config" "hash_block_size sample_sched_config = 2" "hash_good ideal_hash [0]"
  by (simp_all add: good_config_def hash_block_size_def sample_sched_config_def choose_policy_def hash_good_def inj_def ideal_hash_def)

definition sample_started :: scheduler where
  "sample_started = projr (init_scheduler sample_sched_config)"

lemma sample_started: "init_scheduler sample_sched_config = Inr sample_started"
  using init_scheduler_inv [OF sample_sched_config(1), of ideal_hash "[0]"] by (auto simp: sample_started_def)

text \<open>The scheduler with one request added.\<close>

lemma hashed_sample_admissible: "length toks < 99 \<Longrightarrow> toks \<noteq> [] \<Longrightarrow> admissible ideal_hash [0] 2 100 (hashed_sample rid toks)"
  using hashed_sample_ok [of rid toks]
  by (simp add: admissible_def chain_ok_def token_ok_def hashed_sample_def init_block_hashes_def sample_request_def sample_params_def
      num_tokens_def num_output_tokens_def)

lemma sample_reachable:
  obtains s where "add_request (hashed_sample ''a_1'' [1, 2, 3]) sample_started = Inr s"
    "(sched_step ideal_hash [0] (hash_block_size sample_sched_config))\<^sup>*\<^sup>* (Idle, sample_started) (Idle, s)"
proof -
  let ?r = "hashed_sample ''a_1'' [1, 2, 3]"
  obtain s0 where s0: "init_scheduler sample_sched_config = Inr s0" "sc_max_model_len s0 = 100" "sc_requests s0 = []"
    "phase_inv True ideal_hash [0] 2 (Idle, s0)"
    using init_scheduler_inv [OF sample_sched_config(1), of ideal_hash "[0]"] sample_sched_config(2) by (auto simp: sample_sched_config_def)
  have eq: "s0 = sample_started" using s0(1) sample_started by simp
  obtain s where s: "add_request ?r s0 = Inr s"
    using s0(4) by (auto simp: add_request_def Let_def elim!: sched_invE)
  have "sched_step ideal_hash [0] 2 (Idle, s0) (Idle, s)"
    by (rule step_add [OF _ _ s]) (use s0 hashed_sample_admissible [of "[1, 2, 3]" "''a_1''"] in simp_all)
  with s eq show thesis by (intro that [of s]) (simp_all add: sample_sched_config(2))
qed

text \<open>The scheduler with two running requests, the first with the higher score.\<close>

definition sample_running :: scheduler where
  "sample_running = sample_started\<lparr>sc_running := [''b_1'', ''a_1''], sc_max_num_running_reqs := 4, sc_trace_scores := [(''a_1'', 2), (''b_1'', 1)],
     sc_requests := [(''a_1'', (hashed_sample ''a_1'' [1, 2, 3])\<lparr>rq_status := RUNNING\<rparr>),
       (''b_1'', (hashed_sample ''b_1'' [1, 2])\<lparr>rq_status := RUNNING\<rparr>)]\<rparr>"

lemma computed_ok_0: "rq_num_computed_tokens r = 0 \<Longrightarrow> computed_ok rid r"
  by (simp add: computed_ok_def num_tokens_def)

lemma sample_running_inv:
  assumes ck: "\<And>rid r. rq_num_computed_tokens r = 0 \<Longrightarrow> ck rid r"
  shows "sched_inv True 2 (chain_ok ideal_hash [0] 2) ck sample_running" "sc_waiting sample_running = FCFSQueue []"
proof -
  have inv: "sched_inv True 2 (chain_ok ideal_hash [0] 2) computed_ok sample_started" and e: "sc_requests sample_started = []"
    and m: "sc_max_model_len sample_started = 100"
    using init_scheduler_inv [OF sample_sched_config(1), of ideal_hash "[0]"] sample_started
    by (auto simp: sample_sched_config(2)) (auto simp: sample_sched_config_def)
  obtain w where w: "sc_waiting sample_started = FCFSQueue w"
    and ok: "sched_ok True 2 (chain_ok ideal_hash [0] 2) computed_ok 100 (sc_running sample_started) w [] (sc_kv_cache_manager sample_started)"
    using inv unfolding e [symmetric] m [symmetric] by (rule sched_invE)
  have lists: "sc_running sample_started = []" "w = []" using sched_okD(3) [OF ok] by simp_all
  have free: "km_table (sc_kv_cache_manager sample_started) rid = [] \<and> rid \<notin> cached_ids (sc_kv_cache_manager sample_started)" for rid
    using sched_okD(10,11) [OF ok] lists by simp
  have req: "request_ok (chain_ok ideal_hash [0] 2) ck 100 True rid ((hashed_sample rid toks)\<lparr>rq_status := RUNNING\<rparr>)"
    if "length toks < 99" "toks \<noteq> []" for rid toks
  proof -
    let ?r = "hashed_sample rid toks"
    have ad: "admissible ideal_hash [0] 2 100 ?r" by (rule hashed_sample_admissible [OF that])
    then have "chain_ok ideal_hash [0] 2 (?r\<lparr>rq_status := RUNNING\<rparr>)"
      using ideal.hash_cong [of ?r "?r\<lparr>rq_status := RUNNING\<rparr>"] by (simp add: admissible_def hash_view_def)
    moreover have "token_ok 100 (?r\<lparr>rq_status := RUNNING\<rparr>)" "rq_request_id ?r = rid" "rq_num_computed_tokens ?r = 0"
      using ad by (simp_all add: admissible_def token_ok_def num_tokens_def num_output_tokens_def hashed_sample_def init_block_hashes_def sample_request_def)
    ultimately show ?thesis using ck by (simp add: request_ok_def)
  qed
  have "kv_inv (table_hashes (sc_requests sample_running)) (sc_kv_cache_manager sample_started)"
    by (rule kv_inv_hs_cong [OF sched_okD(4) [OF ok]]) (use free in blast)
  with inv w lists m free req sched_okD(5-8) [OF ok]
  show "sched_inv True 2 (chain_ok ideal_hash [0] 2) ck sample_running"
    by (simp add: sched_inv_def sched_ok_def sample_running_def insert_commute)
  show "sc_waiting sample_running = FCFSQueue []" using w lists by (simp add: sample_running_def)
qed

lemma sample_running_idle:
  "sched_inv True 2 (chain_ok ideal_hash [0] 2) computed_ok sample_running" "sc_waiting sample_running = FCFSQueue []"
  using sample_running_inv [of computed_ok] computed_ok_0 by blast+

subsection \<open>Properties of the scheduler\<close>

text \<open>C6: no request is lost. Whatever sequence of operations the scheduler has gone through since its start (adding, aborting, scoring, scheduling,
  processing tokens), under the first-come-first-served and the GAMBIT policy every live request is in exactly one of the running list and the waiting queue,
  its status tells which, it is not finished and has room under both length limits, the number of running requests respects its
  limit, and only running requests hold blocks of the KV cache.\<close>

theorem reachable_requests_queued_once:
  assumes "hash_good hf nh" and "good_config cf" and "init_scheduler cf = Inr s0"
    and "(sched_step hf nh (hash_block_size cf))\<^sup>*\<^sup>* (Idle, s0) (ph, s)"
  shows "\<exists>w. sc_waiting s = FCFSQueue w \<and> distinct (sc_running s @ w) \<and> keyset (sc_requests s) = set (sc_running s) \<union> set w \<and>
    (\<forall>rid r. map_of (sc_requests s) rid = Some r \<longrightarrow> rq_request_id r = rid \<and> \<not> is_finished r \<and>
       (rq_status r = RUNNING \<longleftrightarrow> rid \<in> set (sc_running s)) \<and> num_tokens r < sc_max_model_len s \<and> num_output_tokens r < rq_max_tokens r) \<and>
    length (sc_running s) \<le> sc_max_num_running_reqs s \<and> (\<forall>rid. rid \<notin> set (sc_running s) \<longrightarrow> km_table (sc_kv_cache_manager s) rid = [])"
  using reachable_phase [OF assms]
proof (rule phase_invE)
  let ?bs = "hash_block_size cf"
  fix ck assume inv: "sched_inv (cf_enable_prefix_caching cf) ?bs (chain_ok hf nh ?bs) ck s"
  then obtain w where w: "sc_waiting s = FCFSQueue w"
    and ok: "sched_ok (cf_enable_prefix_caching cf) ?bs (chain_ok hf nh ?bs) ck (sc_max_model_len s) (sc_running s) w (sc_requests s) (sc_kv_cache_manager s)"
    by (rule sched_invE)
  have "rq_request_id r = rid \<and> \<not> is_finished r \<and> (rq_status r = RUNNING \<longleftrightarrow> rid \<in> set (sc_running s)) \<and>
      num_tokens r < sc_max_model_len s \<and> num_output_tokens r < rq_max_tokens r" if "map_of (sc_requests s) rid = Some r" for rid r
    using sched_okD(9) [OF ok that]
    by (cases "rid \<in> set (sc_running s)") (auto simp: request_ok_def token_ok_def waits_def is_finished_def status_is_finished_iff)
  with w inv sched_okD(1,3,10) [OF ok] show ?thesis by (intro exI [of _ w]) (auto simp: sched_inv_def)
qed

theorem reachable_requests_queued_once_witness:
  "\<exists>s w. add_request (hashed_sample ''a_1'' [1, 2, 3]) sample_started = Inr s \<and> sc_waiting s = FCFSQueue w \<and>
    keyset (sc_requests s) = set (sc_running s) \<union> set w"
proof -
  obtain s where s: "add_request (hashed_sample ''a_1'' [1, 2, 3]) sample_started = Inr s"
    "(sched_step ideal_hash [0] (hash_block_size sample_sched_config))\<^sup>*\<^sup>* (Idle, sample_started) (Idle, s)" by (rule sample_reachable)
  from reachable_requests_queued_once [OF sample_sched_config(3,1) sample_started s(2)] s(1) show ?thesis by blast
qed

text \<open>C5: the scheduler can always continue. In every reachable state between two steps, \<open>schedule\<close> returns: no assertion of the source
  fails and no lookup raises. The batch has a positive number of tokens for each of its requests, all of them
  running, and respects the token budget and the limit of running requests.\<close>

theorem reachable_can_schedule:
  assumes "hash_good hf nh" and "good_config cf" and "init_scheduler cf = Inr s0"
    and "(sched_step hf nh (hash_block_size cf))\<^sup>*\<^sup>* (Idle, s0) (Idle, s)"
  shows "\<exists>so s'. schedule u fsm s = Inr (so, s') \<and> so_total_num_scheduled_tokens so = sum_list (dvals (so_num_scheduled_tokens so)) \<and>
    so_total_num_scheduled_tokens so \<le> sc_max_num_scheduled_tokens s \<and> (\<forall>(rid, n) \<in> set (so_num_scheduled_tokens so). 0 < n) \<and>
    keyset (so_num_scheduled_tokens so) \<subseteq> set (sc_running s') \<and> length (sc_running s') \<le> sc_max_num_running_reqs s"
proof -
  have inv: "sched_inv (cf_enable_prefix_caching cf) (hash_block_size cf) (chain_ok hf nh (hash_block_size cf)) computed_ok s" "prev_ok s"
    using reachable_phase [OF assms] by simp_all
  from block_hashing.schedule_total [OF reachable_hashing [OF assms(1,2)] inv, of u fsm] show ?thesis
    by (elim exE conjE) (intro exI conjI, auto simp: sched_inv_def same_limits_def)
qed

theorem reachable_can_schedule_witness:
  "\<exists>s so s'. add_request (hashed_sample ''a_1'' [1, 2, 3]) sample_started = Inr s \<and> schedule False (\<lambda>_. True) s = Inr (so, s') \<and>
    keyset (so_num_scheduled_tokens so) \<subseteq> set (sc_running s')"
proof -
  obtain s where s: "add_request (hashed_sample ''a_1'' [1, 2, 3]) sample_started = Inr s"
    "(sched_step ideal_hash [0] (hash_block_size sample_sched_config))\<^sup>*\<^sup>* (Idle, sample_started) (Idle, s)" by (rule sample_reachable)
  from reachable_can_schedule [OF sample_sched_config(3,1) sample_started s(2), of False "\<lambda>_. True"] s(1) show ?thesis by blast
qed

text \<open>Sampled tokens can always be processed. In every reachable state with a planned batch, and for every output of the model runner that
  answers the batch, \<open>update_from_output\<close> returns. It delivers the outputs of all requests that the scheduler stopped itself during the
  step to their clients, exactly once, since none stays pending.\<close>

lemma reachable_can_update:
  assumes "hash_good hf nh" and "good_config cf" and "init_scheduler cf = Inr s0"
    and "(sched_step hf nh (hash_block_size cf))\<^sup>*\<^sup>* (Idle, s0) (Planned so, s)"
    and "\<forall>rid \<in> keyset (so_num_scheduled_tokens so). answers mo rid"
  shows "\<exists>outs s'. update_from_output (Some (get_request_block_hasher hf nh (hash_block_size cf))) so mo finals hists s = Inr (outs, s') \<and>
    set (sc_running s') \<subseteq> set (sc_running s) \<and> sc_pending_pruned_outputs s' = [] \<and>
    (\<forall>ci. \<forall>o' \<in> set (dget_or (sc_pending_pruned_outputs s) ci []). \<exists>eco. map_of outs ci = Some eco \<and> o' \<in> set (eos_outputs eco))"
proof -
  let ?bs = "hash_block_size cf"
  have inv: "sched_inv (cf_enable_prefix_caching cf) ?bs (chain_ok hf nh ?bs) (mid_ok (so_spec_tokens so)) s" "prev_ok s" and b: "batch_ok so s"
    using reachable_phase [OF assms(1-4)] by simp_all
  have "\<forall>(rid, n) \<in> set (so_num_scheduled_tokens so). 0 < n \<and> answers mo rid" using b assms(5) by (force simp: batch_ok_def)
  from block_hashing.update_from_output_total [OF reachable_hashing [OF assms(1,2)] inv _ this, of finals hists] b show ?thesis
    by (auto simp: batch_ok_def)
qed

text \<open>C7: no block leaks. When no request is left, in any reachable state, every block of the KV cache except the null block is free and
  \<open>reset_prefix_cache\<close> succeeds.\<close>

theorem idle_scheduler_holds_no_blocks:
  assumes "hash_good hf nh" and "good_config cf" and "init_scheduler cf = Inr s0"
    and "(sched_step hf nh (hash_block_size cf))\<^sup>*\<^sup>* (Idle, s0) (ph, s)" and "sc_requests s = []"
  shows "get_num_free_blocks (km_pool (sc_kv_cache_manager s)) = int (bp_num_gpu_blocks (km_pool (sc_kv_cache_manager s))) - 1 \<and>
    fst (sched_reset_prefix_cache s)"
  using reachable_phase [OF assms(1-4)]
proof (rule phase_invE)
  let ?bs = "hash_block_size cf" let ?km = "sc_kv_cache_manager s"
  fix ck assume "sched_inv (cf_enable_prefix_caching cf) ?bs (chain_ok hf nh ?bs) ck s"
  then obtain w where ok: "sched_ok (cf_enable_prefix_caching cf) ?bs (chain_ok hf nh ?bs) ck (sc_max_model_len s) (sc_running s) w (sc_requests s) ?km"
    by (rule sched_invE)
  have tab: "km_table ?km rid = []" for rid using sched_okD(3,10) [OF ok] assms(5) by simp
  note free = no_tables_free [OF sched_okD(4) [OF ok] tab]
  obtain b p' where r: "reset_prefix_cache (km_pool ?km) = (b, p')" by (cases "reset_prefix_cache (km_pool ?km)")
  obtain m :: st_manager and xs where kv: "kv_ok (table_hashes (sc_requests s)) gid_bytes (km_pool ?km) (sm_req_to_blocks m) (sm_num_cached_block m) xs"
    using sched_okD(4) [OF ok] by (elim kv_invE) (rule that; assumption)
  have b using reset_prefix_cache_rep(4) [OF kv_okD(1) [OF kv] r] free(1) by simp
  with r have "fst (sched_reset_prefix_cache s)" by (simp add: sched_reset_prefix_cache_def km_reset_prefix_cache_def)
  with free(2) show ?thesis by simp
qed

theorem idle_scheduler_holds_no_blocks_witness: "fst (sched_reset_prefix_cache sample_started)"
proof -
  have "sc_requests sample_started = []" using init_scheduler_inv [OF sample_sched_config(1), of ideal_hash "[0]"] sample_started by auto
  from idle_scheduler_holds_no_blocks [OF sample_sched_config(3,1) sample_started rtranclp.rtrancl_refl this] show ?thesis by simp
qed



text \<open>Ending requests from outside. Aborting any list of ids, with repetitions and unknown ids, succeeds: exactly the live ones of them leave
  the queues and the table, are reported as finished and hold no block afterwards, all others keep their place, and the invariant holds.\<close>

lemma aborted_requests_leave:
  assumes inv: "sched_inv caching bs hk ck s" and st: "status_is_finished st" and w: "sc_waiting s = FCFSQueue w"
  shows "\<exists>s'. finish_requests ids st s = Inr s' \<and> sched_inv caching bs hk ck s' \<and>
    keyset (sc_requests s') = keyset (sc_requests s) - set ids \<and>
    sc_running s' = filter (\<lambda>x. x \<notin> set ids) (sc_running s) \<and> sc_waiting s' = FCFSQueue (filter (\<lambda>x. x \<notin> set ids) w) \<and>
    sc_finished_req_ids s' = sc_finished_req_ids s \<union> (set ids \<inter> keyset (sc_requests s)) \<and>
    (\<forall>rid \<in> set ids. km_table (sc_kv_cache_manager s') rid = [])"
proof -
  let ?V = "set ids \<inter> keyset (sc_requests s)"
  obtain s' where s': "finish_requests ids st s = Inr s'" "sched_inv caching bs hk ck s'"
    "sc_running s' = filter (\<lambda>x. x \<notin> ?V) (sc_running s)" "sc_waiting s' = FCFSQueue (filter (\<lambda>x. x \<notin> ?V) w)"
    "keyset (sc_requests s') = keyset (sc_requests s) - set ids" "sc_finished_req_ids s' = ?V \<union> sc_finished_req_ids s"
    using finish_requests_ok [OF inv st w refl, of ids] by blast
  have ok: "sched_ok caching bs hk ck (sc_max_model_len s) (sc_running s) w (sc_requests s) (sc_kv_cache_manager s)"
    using inv w by (auto simp: sched_inv_def)
  have live: "set (sc_running s) \<subseteq> keyset (sc_requests s)" "set w \<subseteq> keyset (sc_requests s)" using sched_okD(3) [OF ok] by auto
  have flt: "filter (\<lambda>x. x \<notin> ?V) xs = filter (\<lambda>x. x \<notin> set ids) xs" if "set xs \<subseteq> keyset (sc_requests s)" for xs
    using that by (auto intro!: filter_cong simp del: set_map)
  obtain w' where ok': "sched_ok caching bs hk ck (sc_max_model_len s') (sc_running s') w' (sc_requests s') (sc_kv_cache_manager s')"
    using s'(2) by (rule sched_invE)
  have "km_table (sc_kv_cache_manager s') rid = []" if "rid \<in> set ids" for rid
  proof (rule sched_okD(10) [OF ok'])
    show "rid \<notin> set (sc_running s')" using that unfolding s'(3) flt [OF live(1)] by simp
  qed
  with s' flt [OF live(1)] flt [OF live(2)] show ?thesis by (intro exI [of _ s']) (simp add: Un_commute)
qed

end
