(* ===== verification/Engine_Inv.thy ===== *)
theory Engine_Inv
  imports Engine_Props Sched_Props
begin

text \<open>
  The engine and the scheduler together. The invariant of the engine joins the invariant of the scheduler with the one of
  the trace tree: the trace of every live request and of every recorded score is not completed, and ids with the prefix of
  branches belong to the tree, so the id of the next branch is new to the scheduler as well. Under it the decision
  step of Gambit, in every mode, succeeds and keeps the invariant.
\<close>

subsection \<open>Requests that can be branched\<close>

text \<open>The sampling parameters with which a request was built allow a child at any time: no minimum length.\<close>

definition branchable :: "request \<Rightarrow> bool" where
  "branchable r \<longleftrightarrow> (\<exists>sp. rq_sampling_params r = Some sp \<and> sp_min_tokens sp = 0 \<and> sp_max_tokens sp = Some (rq_max_tokens r))"

definition live_ok :: "(hash_input \<Rightarrow> bytes) \<Rightarrow> bytes \<Rightarrow> nat \<Rightarrow> reqid set \<Rightarrow> request \<Rightarrow> bool" where
  "live_ok hf nh bs K r \<longleftrightarrow> chain_ok hf nh bs r \<and> branchable r \<and> rq_request_id r \<in> K"

lemma live_hashing:
  assumes "hash_good hf nh" and "0 < bs"
  shows "block_hashing caching bs (Some (get_request_block_hasher hf nh bs)) (live_ok hf nh bs K)"
proof -
  have chain: "block_hashing caching bs (Some (get_request_block_hasher hf nh bs)) (chain_ok hf nh bs)"
    by (rule chain_hashing) (use assms in \<open>simp_all add: hash_good_def\<close>)
  show ?thesis
  proof
    fix r assume "live_ok hf nh bs K r"
    then show "caching \<longrightarrow> num_tokens r div int bs \<le> int (length (rq_block_hashes r)) \<and> distinct (rq_block_hashes r)"
      using block_hashing.hash_cover [OF chain, of r] by (simp add: live_ok_def)
  next
    fix r toks assume "live_ok hf nh bs K r"
    then show "live_ok hf nh bs K (append_output_token_ids (Some (get_request_block_hasher hf nh bs)) toks r)"
      using block_hashing.hash_append [OF chain, of r] by (simp add: live_ok_def branchable_def)
  next
    fix r r' assume "hash_view r = hash_view r'"
    with block_hashing.hash_cong [OF chain this] show "live_ok hf nh bs K r = live_ok hf nh bs K r'"
      by (simp add: live_ok_def branchable_def hash_view_def)
  qed
qed

lemma sched_inv_hk:
  assumes inv: "sched_inv caching bs hk ck s" and "\<And>rid r. map_of (sc_requests s) rid = Some r \<Longrightarrow> hk r \<Longrightarrow> rq_request_id r = rid \<Longrightarrow> hk' r"
  shows "sched_inv caching bs hk' ck s"
proof -
  obtain w where w: "sc_waiting s = FCFSQueue w"
    and ok: "sched_ok caching bs hk ck (sc_max_model_len s) (sc_running s) w (sc_requests s) (sc_kv_cache_manager s)"
    using inv by (rule sched_invE)
  have "request_ok hk' ck (sc_max_model_len s) (rid \<in> set (sc_running s)) rid r" if "map_of (sc_requests s) rid = Some r" for rid r
    using sched_okD(9) [OF ok that] assms(2) [OF that] by (simp add: request_ok_def)
  with ok have "sched_ok caching bs hk' ck (sc_max_model_len s) (sc_running s) w (sc_requests s) (sc_kv_cache_manager s)"
    by (simp add: sched_ok_def)
  with inv w show ?thesis by (simp add: sched_inv_def)
qed

lemma sched_inv_request:
  assumes "sched_inv caching bs hk ck s" and "map_of (sc_requests s) rid = Some r"
  shows "rq_request_id r = rid \<and> hk r \<and> token_ok (sc_max_model_len s) r"
proof -
  obtain w where "sched_ok caching bs hk ck (sc_max_model_len s) (sc_running s) w (sc_requests s) (sc_kv_cache_manager s)"
    using assms(1) by (rule sched_invE)
  from sched_okD(9) [OF this assms(2)] show ?thesis by (simp add: request_ok_def)
qed

text \<open>The set of ids is fixed to the live ones, and forgotten again.\<close>

lemma live_narrow: "sched_inv caching bs (live_ok hf nh bs UNIV) ck s \<Longrightarrow> sched_inv caching bs (live_ok hf nh bs (keyset (sc_requests s))) ck s"
  by (erule sched_inv_hk) (auto simp: live_ok_def dest: map_of_in_keys simp del: set_map)

lemma live_widen:
  assumes "sched_inv caching bs (live_ok hf nh bs K) ck s"
  shows "sched_inv caching bs (live_ok hf nh bs UNIV) ck s" and "keyset (sc_requests s) \<subseteq> K"
proof -
  show "sched_inv caching bs (live_ok hf nh bs UNIV) ck s" by (rule sched_inv_hk [OF assms]) (simp add: live_ok_def)
  show "keyset (sc_requests s) \<subseteq> K"
  proof
    fix rid assume "rid \<in> keyset (sc_requests s)"
    then obtain r where "map_of (sc_requests s) rid = Some r" by (metis in_keys_map_of)
    with sched_inv_request [OF assms this] show "rid \<in> K" by (auto simp: live_ok_def)
  qed
qed

text \<open>The request of a child: the constructor succeeds and the child may be added.\<close>

lemma child_request_ok:
  assumes par: "live_ok hf nh bs UNIV par" "token_ok mml par" and ev: "ev_hasher ev = Some (get_request_block_hasher hf nh bs)" and bs: "0 < bs"
  shows "\<exists>child. gambit_create_child_request ev cfg t par c = Some child \<and> rq_request_id child = c \<and>
    request_ok (live_ok hf nh bs UNIV) ck mml False c child \<and> rq_status child \<noteq> PREEMPTED \<and> rq_all_token_ids child = rq_all_token_ids par \<and>
    rq_lora_request child = rq_lora_request par \<and> rq_cache_salt child = rq_cache_salt par \<and> rq_prompt_embeds child = None \<and>
    rq_sampling_params child = map_option (child_sampling_params ev cfg t) (rq_sampling_params par)"
proof -
  obtain sp where sp: "rq_sampling_params par = Some sp" "sp_min_tokens sp = 0" "sp_max_tokens sp = Some (rq_max_tokens par)"
    using par(1) by (auto simp: live_ok_def branchable_def)
  have lim: "rq_pooling_params par = None" "0 < num_tokens par" "num_tokens par < mml" "0 < rq_max_tokens par"
    using par(2) by (auto simp: token_ok_def num_output_tokens_def)
  let ?sp = "child_sampling_params ev cfg t sp"
  have csp: "sp_min_tokens ?sp = 0" "sp_max_tokens ?sp = Some (rq_max_tokens par)" using sp by (simp_all add: child_sampling_params_def)
  let ?new = "new_request (ev_hasher ev) c (Some (rq_all_token_ids par)) (Some ?sp) None (rq_eos_token_id par) (rq_client_index par)
    (rq_arrival_time par) None [] (rq_lora_request par) (rq_cache_salt par) (rq_priority par)"
  obtain child where child: "?new = Inr child" "rq_request_id child = c" "rq_all_token_ids child = rq_all_token_ids par"
    "rq_output_token_ids child = []" "rq_num_computed_tokens child = 0" "rq_sampling_params child = Some ?sp" "rq_pooling_params child = None"
    "rq_max_tokens child = rq_max_tokens par" "rq_num_prompt_tokens child = num_tokens par" "rq_num_output_placeholders child = 0"
    "rq_status child = WAITING \<or> rq_status child = WAITING_FOR_FSM"
    "rq_lora_request child = rq_lora_request par" "rq_cache_salt child = rq_cache_salt par" "rq_prompt_embeds child = None"
    using csp(2) by (simp add: new_request_def length_from_prompt_token_ids_or_embeds_def init_block_hashes_def num_tokens_def Let_def split: option.splits)
  have "chain_ok hf nh bs child" using new_request_hashes_ok [OF bs child(1) [unfolded ev]] by (simp add: chain_ok_def)
  moreover have "branchable child" using child(6,8) csp by (simp add: branchable_def)
  moreover have "token_ok mml child"
    using child(3-10) lim csp by (simp add: token_ok_def num_tokens_def num_output_tokens_def)
  ultimately have "request_ok (live_ok hf nh bs UNIV) ck mml False c child"
    using child(2,5,11) by (auto simp: request_ok_def live_ok_def waits_def)
  moreover have "gambit_create_child_request ev cfg t par c = Some child"
    using child(1) sp(1) lim(1) by (simp add: gambit_create_child_request_def)
  ultimately show ?thesis using child sp(1) by auto
qed

subsection \<open>The invariant\<close>

text \<open>A trace that may still be scored, pruned or branched.\<close>

definition open_trace :: "trace_tree \<Rightarrow> reqid \<Rightarrow> bool" where
  "open_trace t rid \<longleftrightarrow> (case map_of (tt_nodes t) rid of None \<Rightarrow> external_id rid | Some n \<Rightarrow> \<not> nd_is_completed n)"

definition scored_ids :: "engine \<Rightarrow> reqid set" where
  "scored_ids e = keyset (en_trace_scores e) \<union> keyset (en_trace_score_counts e)"

lemma scored_ids_frame [simp]:
  "scored_ids (e\<lparr>en_trace_tree := t\<rparr>) = scored_ids e" "scored_ids (e\<lparr>en_scheduler := s\<rparr>) = scored_ids e"
  "scored_ids (e\<lparr>en_seq_hs_to_copy := xs\<rparr>) = scored_ids e" "scored_ids (e\<lparr>en_seq_hs_to_clear := ys\<rparr>) = scored_ids e"
  "scored_ids (e\<lparr>en_pending_low_score_stops := A\<rparr>) = scored_ids e" "scored_ids (e\<lparr>en_pending_force_stops := A\<rparr>) = scored_ids e"
  "scored_ids (e\<lparr>en_pending_hs_classification := A\<rparr>) = scored_ids e" "scored_ids (e\<lparr>en_tournament_step_counter := n\<rparr>) = scored_ids e"
  "scored_ids (e\<lparr>en_tournament_last_round_step := n\<rparr>) = scored_ids e" "scored_ids (e\<lparr>en_output_token_ids := d\<rparr>) = scored_ids e"
  "scored_ids (e\<lparr>en_trace_token_counts := f\<rparr>) = scored_ids e" "scored_ids (e\<lparr>en_stride_last_trigger := f\<rparr>) = scored_ids e"
  "scored_ids (e\<lparr>en_trace_hidden_state_last := h\<rparr>) = scored_ids e"
  by (simp_all add: scored_ids_def)

text \<open>What never changes while the engine runs. The invariant is stated for the scorer that answers in the same step.\<close>

definition settings :: "engine \<Rightarrow> gambit_config \<times> bool" where
  "settings e = (en_config e, en_async_scorer_enabled e)"

lemma settings_frame [simp]:
  "settings (e\<lparr>en_trace_tree := t\<rparr>) = settings e" "settings (e\<lparr>en_scheduler := s\<rparr>) = settings e"
  "settings (e\<lparr>en_seq_hs_to_copy := xs\<rparr>) = settings e" "settings (e\<lparr>en_seq_hs_to_clear := ys\<rparr>) = settings e"
  "settings (e\<lparr>en_pending_low_score_stops := A\<rparr>) = settings e" "settings (e\<lparr>en_pending_force_stops := A\<rparr>) = settings e"
  "settings (e\<lparr>en_pending_hs_classification := A\<rparr>) = settings e" "settings (e\<lparr>en_tournament_step_counter := n\<rparr>) = settings e"
  "settings (e\<lparr>en_tournament_last_round_step := n\<rparr>) = settings e" "settings (e\<lparr>en_output_token_ids := d\<rparr>) = settings e"
  "settings (e\<lparr>en_trace_token_counts := f\<rparr>) = settings e" "settings (e\<lparr>en_stride_last_trigger := f\<rparr>) = settings e"
  "settings (e\<lparr>en_trace_hidden_state_last := h\<rparr>) = settings e"
  by (simp_all add: settings_def)

definition traces_ok :: "gambit_config \<Rightarrow> engine \<Rightarrow> bool" where
  "traces_ok cfg e \<longleftrightarrow> settings e = (cfg, False) \<and> (case en_trace_tree e of None \<Rightarrow> True | Some t \<Rightarrow> tree_inv t \<and>
     (\<forall>rid \<in> keyset (sc_requests (en_scheduler e)) \<union> scored_ids e. open_trace t rid))"

definition planned_ok :: "gambit_config \<Rightarrow> bool \<Rightarrow> (hash_input \<Rightarrow> bytes) \<Rightarrow> bytes \<Rightarrow> nat \<Rightarrow> scheduler_output \<Rightarrow> engine \<Rightarrow> bool" where
  "planned_ok cfg caching hf nh bs so e \<longleftrightarrow> traces_ok cfg e \<and>
     sched_inv caching bs (live_ok hf nh bs UNIV) (mid_ok (so_spec_tokens so)) (en_scheduler e) \<and> prev_ok (en_scheduler e) \<and>
     wf_dict (so_num_scheduled_tokens so) \<and> (\<forall>(rid, n) \<in> set (so_num_scheduled_tokens so). 0 < n) \<and>
     keyset (so_num_scheduled_tokens so) \<subseteq> set (sc_running (en_scheduler e)) \<and>
     keyset (so_spec_tokens so) \<subseteq> keyset (so_num_scheduled_tokens so) \<and> sc_finished_req_ids (en_scheduler e) = {}"

definition engine_ok :: "gambit_config \<Rightarrow> bool \<Rightarrow> (hash_input \<Rightarrow> bytes) \<Rightarrow> bytes \<Rightarrow> nat \<Rightarrow> engine \<Rightarrow> bool" where
  "engine_ok cfg caching hf nh bs e \<longleftrightarrow> traces_ok cfg e \<and>
     sched_inv caching bs (live_ok hf nh bs UNIV) computed_ok (en_scheduler e) \<and> prev_ok (en_scheduler e)"

lemma traces_okD:
  assumes "traces_ok cfg e" and "en_trace_tree e = Some t"
  shows "tree_inv t" and "rid \<in> keyset (sc_requests (en_scheduler e)) \<Longrightarrow> open_trace t rid" and "rid \<in> scored_ids e \<Longrightarrow> open_trace t rid"
  using assms by (simp_all add: traces_ok_def del: set_map)

lemma traces_okI:
  assumes "traces_ok cfg e" and "settings e' = settings e"
    and "\<And>t'. en_trace_tree e' = Some t' \<Longrightarrow> \<exists>t. en_trace_tree e = Some t \<and> tree_inv t' \<and> (\<forall>rid. open_trace t rid \<longrightarrow> open_trace t' rid) \<and>
      (\<forall>rid \<in> keyset (sc_requests (en_scheduler e')) \<union> scored_ids e'. rid \<in> keyset (sc_requests (en_scheduler e)) \<union> scored_ids e \<or> open_trace t' rid)"
  shows "traces_ok cfg e'"
proof (cases "en_trace_tree e'")
  case None
  with assms(1,2) show ?thesis by (simp add: traces_ok_def)
next
  case (Some t')
  from assms(3) [OF this] obtain t where t: "en_trace_tree e = Some t" "tree_inv t'" "\<And>rid. open_trace t rid \<Longrightarrow> open_trace t' rid"
    "\<forall>rid \<in> keyset (sc_requests (en_scheduler e')) \<union> scored_ids e'. rid \<in> keyset (sc_requests (en_scheduler e)) \<union> scored_ids e \<or> open_trace t' rid"
    by blast
  have "open_trace t' rid" if "rid \<in> keyset (sc_requests (en_scheduler e')) \<union> scored_ids e'" for rid
    using that t(3,4) traces_okD(2,3) [OF assms(1) t(1), of rid] by blast
  with Some t(2) assms(1,2) show ?thesis by (simp add: traces_ok_def del: set_map)
qed

text \<open>Updates that touch none of this.\<close>

lemma traces_ok_cong:
  assumes "traces_ok cfg e" and "settings e' = settings e" "en_trace_tree e' = en_trace_tree e"
    "keyset (sc_requests (en_scheduler e')) \<subseteq> keyset (sc_requests (en_scheduler e))" "scored_ids e' \<subseteq> scored_ids e"
  shows "traces_ok cfg e'"
  using assms(1,2) by (rule traces_okI) (use assms in \<open>auto intro: traces_okD(1) simp del: set_map\<close>)

lemma planned_ok_cong:
  assumes "planned_ok cfg caching hf nh bs so e" and "settings e' = settings e" "en_trace_tree e' = en_trace_tree e"
    "en_scheduler e' = en_scheduler e" "scored_ids e' \<subseteq> scored_ids e"
  shows "planned_ok cfg caching hf nh bs so e'"
  using assms traces_ok_cong [of cfg e e'] by (simp add: planned_ok_def)

subsection \<open>Pruning\<close>

lemma open_trace_mark_pruned [simp]: "open_trace (mark_pruned v t) rid = open_trace t rid"
  by (simp add: open_trace_def dict_simps split: option.splits)

lemma prune_keeps:
  assumes "planned_ok cfg caching hf nh bs so e" and "rid \<in> scored_ids e"
  shows "planned_ok cfg caching hf nh bs so (gambit_prune_trace rid e) \<and> scored_ids (gambit_prune_trace rid e) = scored_ids e"
proof -
  let ?e = "gambit_prune_trace rid e"
  have tr: "traces_ok cfg e" using assms(1) by (simp add: planned_ok_def)
  have sc: "scored_ids ?e = scored_ids e" "settings ?e = settings e"
    by (simp_all add: scored_ids_def gambit_prune_trace_def split: option.splits)
  have "traces_ok cfg ?e"
  proof (rule traces_okI [OF tr sc(2)])
    fix t' assume "en_trace_tree ?e = Some t'"
    then obtain t where t: "en_trace_tree e = Some t" "t' = mark_pruned rid t" by (auto simp: gambit_prune_trace_def split: option.splits)
    have "tree_inv t'" unfolding t(2)
      by (rule tree_inv_mark_pruned [OF traces_okD(1) [OF tr t(1)]]) (use traces_okD(3) [OF tr t(1) assms(2)] in \<open>simp add: open_trace_def\<close>)
    with t sc show "\<exists>t. en_trace_tree e = Some t \<and> tree_inv t' \<and> (\<forall>rid. open_trace t rid \<longrightarrow> open_trace t' rid) \<and>
      (\<forall>q \<in> keyset (sc_requests (en_scheduler ?e)) \<union> scored_ids ?e. q \<in> keyset (sc_requests (en_scheduler e)) \<union> scored_ids e \<or> open_trace t' q)"
      by (simp del: set_map)
  qed
  with assms(1) sc show ?thesis by (simp add: planned_ok_def)
qed

lemma prunes_keep:
  "planned_ok cfg caching hf nh bs so e \<Longrightarrow> set rids \<subseteq> scored_ids e \<Longrightarrow>
    planned_ok cfg caching hf nh bs so (fold gambit_prune_trace rids e) \<and> scored_ids (fold gambit_prune_trace rids e) = scored_ids e"
proof (induction rids arbitrary: e)
  case (Cons rid rids)
  from prune_keeps [OF Cons.prems(1), of rid] Cons.prems(2) Cons.IH [of "gambit_prune_trace rid e"] show ?case by simp
qed simp

subsection \<open>Branching\<close>

lemma open_trace_add_branch:
  assumes inv: "tree_inv t" and p: "map_of (tt_nodes t) p = Some par" and c: "c = generate_branch_id p t"
  shows "open_trace (snd (add_branch p c l t)) c" and "open_trace t rid \<Longrightarrow> open_trace (snd (add_branch p c l t)) rid"
proof -
  note add = add_branch_Some [OF p, of c l]
  show new: "open_trace (snd (add_branch p c l t)) c" using add by (simp add: open_trace_def dict_simps new_node_def)
  assume "open_trace t rid"
  with new add show "open_trace (snd (add_branch p c l t)) rid"
    by (cases "rid = c") (auto simp: open_trace_def dict_simps split: option.splits)
qed

text \<open>The id of the next branch is new to the scheduler.\<close>

lemma branch_id_unused:
  assumes "traces_ok cfg e" and "en_trace_tree e = Some t"
  shows "generate_branch_id p t \<notin> keyset (sc_requests (en_scheduler e))"
proof
  assume "generate_branch_id p t \<in> keyset (sc_requests (en_scheduler e))"
  from traces_okD(2) [OF assms this] have "open_trace t (generate_branch_id p t)" .
  moreover have "map_of (tt_nodes t) (generate_branch_id p t) = None"
    using fresh_branch_id [OF traces_okD(1) [OF assms], of p] by (simp add: tree_contains_def map_of_None_iff)
  ultimately show False using external_not_branch_id by (auto simp: open_trace_def generate_branch_id_def)
qed

lemma copy_score_state_ids:
  "scored_ids e \<subseteq> scored_ids (copy_score_state p c e)" "scored_ids (copy_score_state p c e) \<subseteq> insert c (scored_ids e)"
  "settings (copy_score_state p c e) = settings e"
  by (auto simp: copy_score_state_def scored_ids_def settings_def Let_def simp del: set_map)

lemma init_child_counters_frame [simp]:
  "scored_ids (init_child_counters p c e) = scored_ids e" "en_trace_tree (init_child_counters p c e) = en_trace_tree e"
  "en_scheduler (init_child_counters p c e) = en_scheduler e" "en_config (init_child_counters p c e) = en_config e"
  "settings (init_child_counters p c e) = settings e"
  by (simp_all add: init_child_counters_def scored_ids_def settings_def)

lemma planned_add_request:
  assumes ok: "planned_ok cfg caching hf nh bs so e" and fresh: "rq_request_id r \<notin> keyset (sc_requests (en_scheduler e))"
    and r: "request_ok (live_ok hf nh bs UNIV) (mid_ok (so_spec_tokens so)) (sc_max_model_len (en_scheduler e)) False (rq_request_id r) r"
      "rq_status r \<noteq> PREEMPTED"
  shows "\<exists>s. add_request r (en_scheduler e) = Inr s \<and> sc_running s = sc_running (en_scheduler e) \<and>
    sched_inv caching bs (live_ok hf nh bs UNIV) (mid_ok (so_spec_tokens so)) s \<and> prev_ok s \<and>
    sc_finished_req_ids s = sc_finished_req_ids (en_scheduler e) \<and> keyset (sc_requests s) = insert (rq_request_id r) (keyset (sc_requests (en_scheduler e)))"
proof -
  have inv: "sched_inv caching bs (live_ok hf nh bs UNIV) (mid_ok (so_spec_tokens so)) (en_scheduler e)" "prev_ok (en_scheduler e)"
    using ok by (simp_all add: planned_ok_def)
  obtain w where w: "sc_waiting (en_scheduler e) = FCFSQueue w" using inv(1) by (rule sched_invE)
  from add_request_ok [OF inv(1) fresh r(1) w] obtain s where s: "add_request r (en_scheduler e) = Inr s"
    "sched_inv caching bs (live_ok hf nh bs UNIV) (mid_ok (so_spec_tokens so)) s" "sc_running s = sc_running (en_scheduler e)" by blast
  moreover have "sc_finished_req_ids s = sc_finished_req_ids (en_scheduler e)"
    "keyset (sc_requests s) = insert (rq_request_id r) (keyset (sc_requests (en_scheduler e)))"
    using s(1) [unfolded add_request_fcfs [OF w, of r], THEN sum.inject(2) [THEN iffD1], symmetric] by (simp_all del: set_map)
  ultimately show ?thesis using prev_ok_add [OF inv(2) r(2) s(1)] by blast
qed

text \<open>With all gates open, the branch is created.\<close>

lemma create_branch_open:
  assumes ok: "planned_ok cfg caching hf nh bs so e" and ev: "ev_hasher ev = Some (get_request_block_hasher hf nh bs)" and bs: "0 < bs"
    and t: "en_trace_tree e = Some t" and gates: "\<not> gambit_should_stop_after_completed e" "can_trace_branch p (tokens_since_branch e p) t"
    and r: "map_of (sc_requests (en_scheduler e)) p = Some r"
  shows "\<exists>e'. gambit_create_branch ev p e = Inr (True, e') \<and> planned_ok cfg caching hf nh bs so e' \<and> scored_ids e \<subseteq> scored_ids e'"
proof -
  have tr: "traces_ok cfg e" and inv: "sched_inv caching bs (live_ok hf nh bs UNIV) (mid_ok (so_spec_tokens so)) (en_scheduler e)"
    using ok by (simp_all add: planned_ok_def)
  obtain par where par: "map_of (tt_nodes t) p = Some par" using gates(2) by (auto simp: can_trace_branch_def split: option.splits)
  define c where "c = generate_branch_id p t"
  let ?l = "int (length (dget_or (en_output_token_ids e) p []))"
  obtain node t1 where add: "add_branch p c ?l t = (Some node, t1)"
    using add_branch_Some(1) [OF par, of c ?l] by (metis fst_conv surj_pair)
  have t1: "t1 = snd (add_branch p c ?l t)" using add by simp
  note live = sched_inv_request [OF inv r]
  from child_request_ok [OF _ _ ev bs, of r "sc_max_model_len (en_scheduler e)" "en_config e" t1 c "mid_ok (so_spec_tokens so)"] live
  obtain child where child: "gambit_create_child_request ev (en_config e) t1 r c = Some child" "rq_request_id child = c"
    "request_ok (live_ok hf nh bs UNIV) (mid_ok (so_spec_tokens so)) (sc_max_model_len (en_scheduler e)) False c child"
    "rq_status child \<noteq> PREEMPTED" by blast
  have unused: "c \<notin> keyset (sc_requests (en_scheduler e))" unfolding c_def by (rule branch_id_unused [OF tr t])
  from planned_add_request [OF ok, of child] child unused obtain s where s: "add_request child (en_scheduler e) = Inr s"
    "sc_running s = sc_running (en_scheduler e)" "sched_inv caching bs (live_ok hf nh bs UNIV) (mid_ok (so_spec_tokens so)) s" "prev_ok s"
    "sc_finished_req_ids s = sc_finished_req_ids (en_scheduler e)" "keyset (sc_requests s) = insert c (keyset (sc_requests (en_scheduler e)))"
    by auto
  let ?e1 = "e\<lparr>en_trace_tree := Some t1, en_scheduler := s, en_seq_hs_to_copy := en_seq_hs_to_copy e @ [(p, c)]\<rparr>"
  let ?e = "init_child_counters p c (copy_score_state p c ?e1)"
  have run: "gambit_create_branch ev p e = Inr (True, ?e)"
    using t gates r add child(1) s(1) by (simp add: gambit_create_branch_def c_def [symmetric] Let_def)
  have ids: "scored_ids e \<subseteq> scored_ids ?e" "scored_ids ?e \<subseteq> insert c (scored_ids e)"
    using copy_score_state_ids(1,2) [where e = ?e1 and p = p and c = c] by simp_all
  note grow = open_trace_add_branch [OF traces_okD(1) [OF tr t] par c_def, where l = ?l, folded t1]
  have "traces_ok cfg ?e"
  proof (rule traces_okI [OF tr])
    show "settings ?e = settings e" by (simp add: copy_score_state_ids)
    fix t' assume "en_trace_tree ?e = Some t'"
    then have "t' = t1" by simp
    moreover have "tree_inv t1" unfolding t1 c_def by (rule tree_inv_add_branch [OF traces_okD(1) [OF tr t] par])
    ultimately show "\<exists>t. en_trace_tree e = Some t \<and> tree_inv t' \<and> (\<forall>rid. open_trace t rid \<longrightarrow> open_trace t' rid) \<and>
      (\<forall>rid \<in> keyset (sc_requests (en_scheduler ?e)) \<union> scored_ids ?e. rid \<in> keyset (sc_requests (en_scheduler e)) \<union> scored_ids e \<or> open_trace t' rid)"
      using t grow s(6) ids(2) by (auto simp del: set_map)
  qed
  with ok s have "planned_ok cfg caching hf nh bs so ?e" by (simp add: planned_ok_def)
  with run ids(1) show ?thesis by blast
qed

lemma create_branch_keeps:
  assumes ok: "planned_ok cfg caching hf nh bs so e" and ev: "ev_hasher ev = Some (get_request_block_hasher hf nh bs)" and bs: "0 < bs"
  shows "\<exists>b e'. gambit_create_branch ev p e = Inr (b, e') \<and> planned_ok cfg caching hf nh bs so e'"
proof (cases "\<exists>t r. en_trace_tree e = Some t \<and> \<not> gambit_should_stop_after_completed e \<and> can_trace_branch p (tokens_since_branch e p) t \<and>
    map_of (sc_requests (en_scheduler e)) p = Some r")
  case True
  then show ?thesis using create_branch_open [OF ok ev bs] by blast
next
  case False
  then have "gambit_create_branch ev p e = Inr (False, e)" by (auto simp: gambit_create_branch_def split: option.splits)
  with ok show ?thesis by blast
qed

lemma branch_loop_keeps:
  assumes "planned_ok cfg caching hf nh bs so e" and "ev_hasher ev = Some (get_request_block_hasher hf nh bs)" and "0 < bs"
  shows "\<exists>e'. branch_loop ev cap xs e = Inr e' \<and> planned_ok cfg caching hf nh bs so e'"
  using assms(1)
proof (induction xs arbitrary: e)
  case (Cons x xs)
  obtain sc p where x: "x = (sc, p)" by (cases x)
  from create_branch_keeps [OF Cons.prems assms(2,3), of p] obtain b e1 where e1: "gambit_create_branch ev p e = Inr (b, e1)"
    "planned_ok cfg caching hf nh bs so e1" by blast
  from Cons.IH [OF e1(2)] e1 Cons.prems show ?case by (auto simp: x)
qed simp

subsection \<open>The decision step\<close>

lemma open_trace_fold_mark_pruned [simp]: "open_trace (fold mark_pruned rids t) rid = open_trace t rid"
  by (induction rids arbitrary: t) simp_all

lemma planned_tree:
  assumes ok: "planned_ok cfg caching hf nh bs so e" and t: "en_trace_tree e = Some t" and t': "tree_inv t'" "\<And>rid. open_trace t rid \<Longrightarrow> open_trace t' rid"
    and e': "en_trace_tree e' = Some t'" "en_scheduler e' = en_scheduler e" "scored_ids e' = scored_ids e"
      "settings e' = settings e"
  shows "planned_ok cfg caching hf nh bs so e'"
proof -
  have "traces_ok cfg e" using ok by (simp add: planned_ok_def)
  then have "traces_ok cfg e'" by (rule traces_okI) (use t t' e' in \<open>simp_all del: set_map\<close>)
  with ok e'(2) show ?thesis by (simp add: planned_ok_def)
qed

lemma observe_keeps:
  assumes "tree_inv t" and "\<forall>(rid, s) \<in> set avg. open_trace t rid"
  shows "tree_inv (fold (observe_score h) avg t) \<and> (\<forall>rid. open_trace t rid \<longrightarrow> open_trace (fold (observe_score h) avg t) rid)"
  using assms
proof (induction avg arbitrary: t)
  case (Cons x avg)
  obtain rid s where x: "x = (rid, s)" by (cases x)
  let ?t1 = "if tree_contains t rid then t else add_root rid t" let ?t2 = "observe_score h x t"
  have root: "external_id rid" if "\<not> tree_contains t rid"
    using Cons.prems(2) that by (auto simp: x open_trace_def tree_contains_def map_of_None_iff [THEN iffD2] split: option.splits)
  have t2: "?t2 = (if h then record_score rid s ?t1 else ?t1)" by (simp add: observe_score_def x Let_def)
  have "tree_inv ?t2" unfolding t2 using Cons.prems(1) root tree_inv_add_root by (auto intro: tree_inv_record_score)
  moreover have keep: "open_trace ?t2 q" if "open_trace t q" for q
    using that unfolding t2
    by (auto simp: open_trace_def record_score_def node_record_score_def add_root_def invalidate_lineage_cache_def new_node_def dict_simps split: option.splits)
  moreover have "\<forall>(q, s) \<in> set avg. open_trace ?t2 q" using Cons.prems(2) keep by auto
  ultimately show ?case using Cons.IH [of ?t2] by auto
qed simp

lemma scored_active_keys: "snd ` set (scored_active avg e) \<subseteq> keyset avg"
  by (auto simp: scored_active_def) force

lemma prune_all_keeps:
  assumes "planned_ok cfg caching hf nh bs so e" and "snd ` set xs \<subseteq> scored_ids e"
  shows "planned_ok cfg caching hf nh bs so (prune_all xs e) \<and> scored_ids (prune_all xs e) = scored_ids e"
  unfolding prune_all_fold by (rule prunes_keep) (use assms in simp_all)

lemma swap_keeps:
  assumes ok: "planned_ok cfg caching hf nh bs so e" and ev: "ev_hasher ev = Some (get_request_block_hasher hf nh bs)" "0 < bs"
    and ids: "snd ` set ranked \<subseteq> scored_ids e"
  shows "\<exists>e'. swap_traces ev ranked e = Inr e' \<and> planned_ok cfg caching hf nh bs so e'"
proof -
  define keep where "keep = length ranked - nat (min (active_traces_of e - gc_tournament_capacity (en_config e)) (int (length ranked)))"
  define e1 where "e1 = prune_all (drop keep ranked) e"
  define k where "k = min (gc_tournament_swap_k (en_config e)) (int (length (take keep ranked)) div 2)"
  define bottom where "bottom = drop (length (take keep ranked) - nat k) (take keep ranked)"
  have sub: "snd ` set (drop keep ranked) \<subseteq> scored_ids e" "snd ` set bottom \<subseteq> scored_ids e"
    using ids set_drop_subset [of keep ranked] set_take_subset [of keep ranked] set_drop_subset [of _ "take keep ranked"]
    unfolding bottom_def by blast+
  have e1: "planned_ok cfg caching hf nh bs so e1" "scored_ids e1 = scored_ids e" using prune_all_keeps [OF ok sub(1)] by (simp_all add: e1_def)
  have e2: "planned_ok cfg caching hf nh bs so (prune_all bottom e1)" using prune_all_keeps [OF e1(1), of bottom] sub(2) e1(2) by simp
  have "swap_traces ev ranked e = (if k > 0 then branch_loop ev (gc_tournament_capacity (en_config e))
      (select_parents ev e1 (nat k) (filter (\<lambda>(_, rid). rid \<notin> snd ` set bottom) (branch_candidates e ranked))) (prune_all bottom e1) else Inr e1)"
    unfolding swap_traces_def Let_def keep_def [symmetric] e1_def [symmetric] k_def [symmetric] bottom_def [symmetric] by (rule refl)
  with e1(1) branch_loop_keeps [OF e2 ev] show ?thesis by auto
qed

lemma tournament_keeps:
  assumes ok: "planned_ok cfg caching hf nh bs so e" and ev: "ev_hasher ev = Some (get_request_block_hasher hf nh bs)" "0 < bs"
    and ids: "keyset avg \<subseteq> scored_ids e" and tree: "en_trace_tree e = Some t"
  shows "\<exists>e'. gambit_tournament_step ev avg e = Inr e' \<and> planned_ok cfg caching hf nh bs so e'"
proof -
  define e1 where "e1 = hard_floor_prune avg e"
  define e2 where "e2 = e1\<lparr>en_tournament_last_round_step := en_tournament_step_counter e1\<rparr>"
  have e1: "planned_ok cfg caching hf nh bs so e1" "scored_ids e1 = scored_ids e"
    using prunes_keep [OF ok, of "hard_floor_victims avg e"] hard_floor_victims_keys [of avg e] ids unfolding e1_def hard_floor_prune_def by blast+
  have e2: "planned_ok cfg caching hf nh bs so e2" "scored_ids e2 = scored_ids e"
    using e1 by (auto simp: e2_def intro: planned_ok_cong)
  have "snd ` set (rank_traces (scored_active avg e2)) \<subseteq> scored_ids e2" using scored_active_keys [of avg e2] ids e2(2) by auto
  from swap_keeps [OF e2(1) ev this] branch_loop_keeps [OF e2(1) ev] e1(1) e2(1) show ?thesis
    unfolding tournament_step_eq [OF tree e1_def e2_def] fill_slots_def Let_def by auto
qed

lemma threshold_keeps:
  assumes ok: "planned_ok cfg caching hf nh bs so e" and ev: "ev_hasher ev = Some (get_request_block_hasher hf nh bs)" "0 < bs"
    and ids: "keyset avg \<subseteq> scored_ids e" and tree: "en_trace_tree e = Some t"
  shows "\<exists>e'. gambit_threshold_step ev avg e = Inr e' \<and> planned_ok cfg caching hf nh bs so e'"
proof -
  have "set (threshold_prunes avg e) \<subseteq> scored_ids e" using ids by (force simp: threshold_prunes_def)
  from branch_loop_keeps [OF conjunct1 [OF prunes_keep [OF ok this]] ev] tree show ?thesis by (auto simp: gambit_threshold_step_def)
qed

lemma decision_keeps:
  assumes ok: "planned_ok cfg caching hf nh bs so e" and ev: "ev_hasher ev = Some (get_request_block_hasher hf nh bs)" "0 < bs"
    and ids: "keyset avg \<subseteq> scored_ids e"
  shows "\<exists>e'. gambit_decision_step ev avg e = Inr e' \<and> planned_ok cfg caching hf nh bs so e'"
proof (cases "en_trace_tree e = None \<or> \<not> en_gambit_enabled e")
  case True
  with ok show ?thesis by (auto simp: gambit_decision_step_def split: option.splits)
next
  case False
  then obtain t where t: "en_trace_tree e = Some t" and en: "en_gambit_enabled e" by auto
  have tr: "traces_ok cfg e" using ok by (simp add: planned_ok_def)
  let ?t = "increment_step t"
  have same: "open_trace ?t rid = open_trace t rid" for rid by (simp add: open_trace_def increment_step_def)
  define t1 where "t1 = fold (observe_score (gc_record_score_history (en_config e))) avg ?t"
  have "\<forall>(rid, s) \<in> set avg. open_trace ?t rid" using ids traces_okD(3) [OF tr t] same by force
  from observe_keeps [OF tree_inv_increment_step [OF traces_okD(1) [OF tr t]] this]
  have t1: "tree_inv t1" "\<And>rid. open_trace t rid \<Longrightarrow> open_trace t1 rid" unfolding t1_def same by blast+
  let ?e1 = "e\<lparr>en_trace_tree := Some t1, en_tournament_step_counter := en_tournament_step_counter e + 1\<rparr>"
  have e1: "planned_ok cfg caching hf nh bs so ?e1" by (rule planned_tree [OF ok t t1]) simp_all
  have step: "gambit_decision_step ev avg e = (if gambit_should_stop_after_completed ?e1 then Inr (gambit_force_stop_all_active_traces ?e1)
      else ebind (if gc_tournament_mode (en_config e) then gambit_tournament_step ev avg ?e1 else gambit_threshold_step ev avg ?e1)
        (\<lambda>e2. Inr (flush_sequence_histories e2)))"
    using t en by (simp add: gambit_decision_step_def Let_def t1_def)
  show ?thesis
  proof (cases "gambit_should_stop_after_completed ?e1")
    case True
    have "planned_ok cfg caching hf nh bs so (gambit_force_stop_all_active_traces ?e1)"
      by (rule planned_tree [OF e1, of t1 "fold mark_pruned (map fst (filter (\<lambda>(rid, n). nd_is_active n \<and> rid \<notin> en_pending_force_stops e) (tt_nodes t1))) t1"])
        (use force_stop_tree(5) [of ?e1 t1] t1(1) in \<open>simp_all add: gambit_force_stop_all_active_traces_def Let_def\<close>)
    with True step show ?thesis by simp
  next
    case False
    have ids1: "keyset avg \<subseteq> scored_ids ?e1" using ids by simp
    have "\<exists>e2. (if gc_tournament_mode (en_config e) then gambit_tournament_step ev avg ?e1 else gambit_threshold_step ev avg ?e1) = Inr e2 \<and>
        planned_ok cfg caching hf nh bs so e2"
      using tournament_keeps [OF e1 ev ids1] threshold_keeps [OF e1 ev ids1] by simp
    then obtain e2 where e2: "gambit_decision_step ev avg e = Inr (flush_sequence_histories e2)" "planned_ok cfg caching hf nh bs so e2"
      using step False by auto
    have "planned_ok cfg caching hf nh bs so (flush_sequence_histories e2)"
      by (rule planned_ok_cong [OF e2(2)]) (simp_all add: flush_sequence_histories_def)
    with e2(1) show ?thesis by blast
  qed
qed

end
