(* ===== verification/Engine_Total.thy ===== *)
theory Engine_Total
  imports Engine_Inv
begin

text \<open>
  \<open>EngineCore.step\<close> under the invariant of the engine: with a model runner that answers the batch and a scorer that scores the requests it
  is asked for, the whole step (scheduling, forward pass, scoring, the decisions of Gambit, forced stops, processing the
  tokens, final scores) succeeds and keeps the invariant. The last section runs the engine: requests are added and
  aborted, steps taken, and the state reset between questions.
\<close>

subsection \<open>What the engine relies on\<close>

text \<open>The model runner gives every scheduled request a slot, and every slot exists.\<close>

definition runner_ok :: "env \<Rightarrow> bool" where
  "runner_ok ev \<longleftrightarrow> (\<forall>so. keyset (so_num_scheduled_tokens so) \<subseteq> keyset (mo_req_id_to_index (ev_forward ev so)) \<and>
     (\<forall>(rid, i) \<in> set (mo_req_id_to_index (ev_forward ev so)). i < length (mo_sampled_token_ids (ev_forward ev so))))"

text \<open>The scorer answers only for requests it was asked for, and returns hidden states only when they are collected.\<close>

definition payload_fits :: "bool \<Rightarrow> payload \<Rightarrow> bool" where
  "payload_fits hidden p \<longleftrightarrow> (case p of P_Hidden _ _ \<Rightarrow> hidden | _ \<Rightarrow> True)"

definition scorer_ok :: "gambit_config \<Rightarrow> env \<Rightarrow> bool" where
  "scorer_ok cfg ev \<longleftrightarrow> (\<forall>ns. \<forall>(rid, p) \<in> set (concat (ev_scorer ev ns)).
     rid \<in> keyset ns \<and> payload_fits (gc_collect_hidden_states_for_mining cfg) p)"

definition env_ok :: "gambit_config \<Rightarrow> (hash_input \<Rightarrow> bytes) \<Rightarrow> bytes \<Rightarrow> nat \<Rightarrow> env \<Rightarrow> bool" where
  "env_ok cfg hf nh bs ev \<longleftrightarrow> hash_good hf nh \<and> 0 < bs \<and> ev_hasher ev = Some (get_request_block_hasher hf nh bs) \<and>
     runner_ok ev \<and> scorer_ok cfg ev \<and> set_order_ok ev"

subsection \<open>Scoring\<close>

lemma planned_requests:
  assumes "planned_ok cfg caching hf nh bs so e"
  shows "keyset (so_num_scheduled_tokens so) \<subseteq> keyset (sc_requests (en_scheduler e))"
proof -
  have "sched_inv caching bs (live_ok hf nh bs UNIV) (mid_ok (so_spec_tokens so)) (en_scheduler e)"
    and sub: "keyset (so_num_scheduled_tokens so) \<subseteq> set (sc_running (en_scheduler e))" using assms by (simp_all add: planned_ok_def)
  then obtain w where "keyset (sc_requests (en_scheduler e)) = set (sc_running (en_scheduler e)) \<union> set w"
    by (elim sched_invE) (blast dest: sched_okD(3))
  with sub show ?thesis by blast
qed

text \<open>Small updates of the scheduler in the middle of a step.\<close>

lemma planned_sched:
  assumes ok: "planned_ok cfg caching hf nh bs so e"
    and s: "sched_inv caching bs (live_ok hf nh bs UNIV) (mid_ok (so_spec_tokens so)) s \<and> same_queues (en_scheduler e) s"
      "sc_finished_req_ids s = sc_finished_req_ids (en_scheduler e)"
  shows "planned_ok cfg caching hf nh bs so (e\<lparr>en_scheduler := s\<rparr>)"
proof -
  have "traces_ok cfg (e\<lparr>en_scheduler := s\<rparr>)"
    by (rule traces_ok_cong [of _ e]) (use ok s in \<open>simp_all add: planned_ok_def same_queues_def del: set_map\<close>)
  moreover have "prev_ok s" using same_queues_prev [of "en_scheduler e" s] ok s(1) by (simp add: planned_ok_def)
  ultimately show ?thesis using ok s by (simp add: planned_ok_def same_queues_def)
qed

lemma update_trace_scores_finished [simp]: "sc_finished_req_ids (update_trace_scores xs s) = sc_finished_req_ids s"
  by (induction xs arbitrary: s) (auto simp: update_trace_scores_def upd_req_def Let_def)

lemma mark_stop_reason_finished [simp]: "sc_finished_req_ids (mark_stop_reason ids x s) = sc_finished_req_ids s"
  by (induction ids arbitrary: s) (auto simp: mark_stop_reason_def upd_req_def)

lemma planned_scores:
  assumes "planned_ok cfg caching hf nh bs so e" and "hash_good hf nh" and "0 < bs"
  shows "planned_ok cfg caching hf nh bs so (e\<lparr>en_scheduler := update_trace_scores xs (en_scheduler e)\<rparr>)"
  by (rule planned_sched [OF assms(1)], rule block_hashing.update_trace_scores_ok [OF live_hashing [OF assms(2,3)]])
    (use assms(1) in \<open>simp_all add: planned_ok_def\<close>)

lemma collect_keeps:
  assumes "\<forall>(rid, p) \<in> set ps. rid \<in> K \<and> payload_fits hidden p" and "keyset scores \<subseteq> K" and "planned_ok cfg caching hf nh bs so e"
  shows "\<exists>scores' e'. collect_scores hidden ps scores e = Inr (scores', e') \<and> keyset scores' \<subseteq> K \<and>
    planned_ok cfg caching hf nh bs so e' \<and> en_scheduler e' = en_scheduler e"
  using assms
proof (induction ps arbitrary: scores e)
  case (Cons x ps)
  obtain rid p where x: "x = (rid, p)" by (cases x)
  have K: "keyset (AList.update rid sc scores) \<subseteq> K" for sc using Cons.prems(1,2) by (simp add: x del: set_map)
  have h: "planned_ok cfg caching hf nh bs so (e\<lparr>en_trace_hidden_state_last := d\<rparr>)" for d
    by (rule planned_ok_cong [OF Cons.prems(3)]) simp_all
  have "\<forall>(rid, p) \<in> set ps. rid \<in> K \<and> payload_fits hidden p" using Cons.prems(1) by simp
  note IH = Cons.IH [OF this K]
  show ?case
  proof (cases p)
    case (P_Hidden xs hs)
    with Cons.prems(1) x have hid: "hidden" by (simp add: payload_fits_def)
    show ?thesis
    proof (cases hs)
      case None
      with IH [OF Cons.prems(3), of "Batch xs"] show ?thesis by (simp add: x P_Hidden hid)
    next
      case (Some d)
      from IH [OF h, of "Batch xs"] show ?thesis by (simp add: x P_Hidden hid Some)
    qed
  qed (use IH Cons.prems(3) in \<open>simp_all add: x\<close>)
qed simp

lemma record_keeps:
  assumes ok: "planned_ok cfg caching hf nh bs so e" and rid: "fst x \<in> keyset (sc_requests (en_scheduler e))"
  shows "planned_ok cfg caching hf nh bs so (record_new_scores x e) \<and> en_scheduler (record_new_scores x e) = en_scheduler e"
proof -
  let ?e = "record_new_scores x e"
  have same: "en_scheduler ?e = en_scheduler e" "en_trace_tree ?e = en_trace_tree e" "settings ?e = settings e"
    by (simp_all add: record_new_scores_def case_prod_beta settings_def Let_def)
  have ids: "scored_ids ?e \<subseteq> insert (fst x) (scored_ids e)"
    by (auto simp: record_new_scores_def scored_ids_def case_prod_beta Let_def simp del: set_map)
  have tr: "traces_ok cfg e" using ok by (simp add: planned_ok_def)
  have "traces_ok cfg ?e"
    by (rule traces_okI [OF tr same(3)]) (use same ids rid traces_okD(1) [OF tr] in \<open>auto simp del: set_map\<close>)
  with ok same show ?thesis by (simp add: planned_ok_def)
qed

lemma records_keep:
  "planned_ok cfg caching hf nh bs so e \<Longrightarrow> keyset scores \<subseteq> keyset (sc_requests (en_scheduler e)) \<Longrightarrow>
    planned_ok cfg caching hf nh bs so (fold record_new_scores scores e) \<and> en_scheduler (fold record_new_scores scores e) = en_scheduler e"
proof (induction scores arbitrary: e)
  case (Cons x scores)
  from record_keeps [OF Cons.prems(1), of x] Cons.prems(2) Cons.IH [of "record_new_scores x e"] show ?case by simp
qed simp

lemma aggregate_ids: "keyset (aggregate_scores e) \<subseteq> scored_ids e"
proof (cases "gc_record_score_history (en_config e)")
  case True
  then have "keyset (aggregate_scores e) \<subseteq> keyset (en_trace_scores e)" by (force simp: aggregate_scores_def)
  then show ?thesis by (auto simp: scored_ids_def)
next
  case False
  then have "keyset (aggregate_scores e) \<subseteq> keyset (en_trace_score_counts e)" by (force simp: aggregate_scores_def)
  then show ?thesis by (auto simp: scored_ids_def)
qed

lemma apply_scores_keeps:
  assumes ok: "planned_ok cfg caching hf nh bs so e" and ev: "env_ok cfg hf nh bs ev"
    and p: "\<forall>(rid, p) \<in> set (concat workers). rid \<in> keyset (sc_requests (en_scheduler e)) \<and> payload_fits hidden p"
  shows "\<exists>e'. apply_scores ev hidden workers classified e = Inr e' \<and> planned_ok cfg caching hf nh bs so e'"
proof -
  have env: "hash_good hf nh" "0 < bs" "ev_hasher ev = Some (get_request_block_hasher hf nh bs)" using ev by (simp_all add: env_ok_def)
  obtain scores e1 where e1: "collect_scores hidden (concat workers) [] e = Inr (scores, e1)" "keyset scores \<subseteq> keyset (sc_requests (en_scheduler e))"
    "planned_ok cfg caching hf nh bs so e1" "en_scheduler e1 = en_scheduler e"
    using collect_keeps [OF p _ ok, of "[]"] by auto
  define e2 where "e2 = fold record_new_scores scores e1"
  define e3 where "e3 = (if scores \<noteq> [] then e2\<lparr>en_pending_hs_classification := en_pending_hs_classification e2 - classified scores\<rparr> else e2)"
  define avg where "avg = aggregate_scores e3"
  define e4 where "e4 = (if avg \<noteq> [] then e3\<lparr>en_scheduler := update_trace_scores avg (en_scheduler e3)\<rparr> else e3)"
  have "planned_ok cfg caching hf nh bs so e2" using records_keep [OF e1(3), of scores] e1(2,4) by (simp add: e2_def)
  then have e3: "planned_ok cfg caching hf nh bs so e3" by (rule planned_ok_cong) (simp_all add: e3_def)
  then have e4: "planned_ok cfg caching hf nh bs so e4" using planned_scores [OF e3 env(1,2), of avg] by (simp add: e4_def)
  have ids: "keyset avg \<subseteq> scored_ids e4" using aggregate_ids [of e3] by (simp add: avg_def e4_def)
  have "apply_scores ev hidden workers classified e = (if en_gambit_enabled e4 \<and> avg \<noteq> [] then gambit_decision_step ev avg e4 else Inr e4)"
    unfolding apply_scores_def e1(1) ebind_Inr prod.case Let_def e4_def avg_def e3_def e2_def by (rule refl)
  with decision_keeps [OF e4 env(3,2) ids] e4 show ?thesis by simp
qed

lemma score_pending_keeps:
  assumes ok: "planned_ok cfg caching hf nh bs so e" and ev: "env_ok cfg hf nh bs ev"
  shows "\<exists>e'. score_pending ev (so_num_scheduled_tokens so) e = Inr e' \<and> planned_ok cfg caching hf nh bs so e'"
proof -
  let ?ns = "filter (\<lambda>(rid, _). rid \<in> en_pending_hs_classification e) (so_num_scheduled_tokens so)"
  have set: "en_config e = cfg" "\<not> en_async_scorer_enabled e" using ok by (simp_all add: planned_ok_def traces_ok_def settings_def)
  have "keyset ?ns \<subseteq> keyset (so_num_scheduled_tokens so)" by auto
  then have sub: "keyset ?ns \<subseteq> keyset (sc_requests (en_scheduler e))" using planned_requests [OF ok] by blast
  have "\<forall>(rid, p) \<in> set (concat (ev_scorer ev ?ns)). rid \<in> keyset (sc_requests (en_scheduler e)) \<and>
      payload_fits (gc_collect_hidden_states_for_mining (en_config e)) p"
    using ev sub set(1) unfolding env_ok_def scorer_ok_def by blast
  from apply_scores_keeps [OF ok ev this, of keyset] ok set(2) show ?thesis by (simp add: score_pending_def Let_def)
qed

subsection \<open>Triggers and forced stops\<close>

definition slots_ok :: "model_runner_output \<Rightarrow> bool" where
  "slots_ok mo \<longleftrightarrow> (\<forall>(rid, i) \<in> set (mo_req_id_to_index mo). i < length (mo_sampled_token_ids mo))"

text \<open>Replacing sampled tokens keeps the slots.\<close>

definition same_slots :: "model_runner_output \<Rightarrow> model_runner_output \<Rightarrow> bool" where
  "same_slots mo mo' \<longleftrightarrow> mo_req_id_to_index mo' = mo_req_id_to_index mo \<and> length (mo_sampled_token_ids mo') = length (mo_sampled_token_ids mo)"

lemma same_slots_ok: "same_slots mo mo' \<Longrightarrow> slots_ok mo' = slots_ok mo"
  by (simp add: same_slots_def slots_ok_def)

lemma trigger_one_keeps: "planned_ok cfg caching hf nh bs so e \<Longrightarrow> planned_ok cfg caching hf nh bs so (snd (trigger_one rid sampled e))"
  by (erule planned_ok_cong) (simp_all add: trigger_one_def Let_def)

lemma trigger_loop_keeps:
  "planned_ok cfg caching hf nh bs so e \<Longrightarrow> \<forall>(rid, i) \<in> set xs. i < length (mo_sampled_token_ids mo) \<Longrightarrow>
    \<exists>ids e'. trigger_loop mo xs acc e = Inr (ids, e') \<and> planned_ok cfg caching hf nh bs so e'"
proof (induction xs arbitrary: acc e)
  case (Cons x xs)
  obtain rid i where x: "x = (rid, i)" by (cases x)
  obtain hit e1 where one: "trigger_one rid (mo_sampled_token_ids mo ! i) e = (hit, e1)" by (cases "trigger_one rid (mo_sampled_token_ids mo ! i) e")
  from trigger_one_keeps [OF Cons.prems(1), of rid "mo_sampled_token_ids mo ! i"] one have "planned_ok cfg caching hf nh bs so e1" by simp
  from Cons.IH [OF this] Cons.prems(2) one show ?case by (simp add: x sampled_at_def)
qed simp

lemma detect_triggers_keeps:
  assumes "planned_ok cfg caching hf nh bs so e" and "slots_ok mo"
  shows "\<exists>e'. detect_triggers mo e = Inr e' \<and> planned_ok cfg caching hf nh bs so e'"
proof -
  obtain ids e1 where e1: "trigger_loop mo (mo_req_id_to_index mo) [] e = Inr (ids, e1)" "planned_ok cfg caching hf nh bs so e1"
    using trigger_loop_keeps [OF assms(1) assms(2) [unfolded slots_ok_def], of "[]"] by blast
  have "planned_ok cfg caching hf nh bs so (e1\<lparr>en_pending_hs_classification := en_pending_hs_classification e1 \<union> set ids\<rparr>)"
    by (rule planned_ok_cong [OF e1(2)]) simp_all
  with e1(1) show ?thesis by (simp add: detect_triggers_def)
qed

lemma eos_loop_keeps: "slots_ok mo \<Longrightarrow> \<exists>mo'. eos_loop s rids mo = Inr mo' \<and> same_slots mo mo'"
proof (induction rids arbitrary: mo)
  case (Cons rid rids)
  note skip = Cons.IH [OF Cons.prems]
  show ?case
  proof (cases "map_of (mo_req_id_to_index mo) rid")
    case (Some i)
    with Cons.prems have i: "i < length (mo_sampled_token_ids mo)" by (auto simp: slots_ok_def dest: map_of_SomeD)
    have "\<exists>mo'. eos_loop s rids (mo\<lparr>mo_sampled_token_ids := (mo_sampled_token_ids mo)[i := [x]]\<rparr>) = Inr mo' \<and> same_slots mo mo'" for x
      using Cons.IH [of "mo\<lparr>mo_sampled_token_ids := (mo_sampled_token_ids mo)[i := [x]]\<rparr>"] Cons.prems
      by (simp add: same_slots_def slots_ok_def)
    with skip Some i show ?thesis by (auto split: option.splits)
  qed (use skip in simp)
qed (simp add: same_slots_def)

lemma insert_eos_keeps:
  assumes ok: "planned_ok cfg caching hf nh bs so e" and slots: "slots_ok mo" and h: "hash_good hf nh" "0 < bs"
  shows "\<exists>mo' s. insert_eos ids reason mo (en_scheduler e) = Inr (mo', s) \<and> same_slots mo mo' \<and>
    planned_ok cfg caching hf nh bs so (e\<lparr>en_scheduler := s\<rparr>)"
proof -
  let ?s = "if reason \<noteq> [] then mark_stop_reason ids reason (en_scheduler e) else en_scheduler e"
  have "planned_ok cfg caching hf nh bs so (e\<lparr>en_scheduler := mark_stop_reason ids reason (en_scheduler e)\<rparr>)"
    by (rule planned_sched [OF ok], rule block_hashing.mark_stop_reason_ok [OF live_hashing [OF h]])
      (use ok in \<open>simp_all add: planned_ok_def\<close>)
  with ok have "planned_ok cfg caching hf nh bs so (e\<lparr>en_scheduler := ?s\<rparr>)" by simp
  with eos_loop_keeps [OF slots, of ?s ids] show ?thesis by (auto simp: insert_eos_def Let_def)
qed

lemma inject_eos_keeps:
  assumes ok: "planned_ok cfg caching hf nh bs so e" and slots: "slots_ok mo" and h: "hash_good hf nh" "0 < bs"
  shows "\<exists>mo' e'. inject_eos mo e = Inr (mo', e') \<and> same_slots mo mo' \<and> planned_ok cfg caching hf nh bs so e'"
proof -
  define prune where "prune = filter (\<lambda>rid. rid \<in> en_pending_low_score_stops e) (dkeys (mo_req_id_to_index mo))"
  define force where "force = filter (\<lambda>rid. rid \<in> en_pending_force_stops e) (dkeys (mo_req_id_to_index mo))"
  obtain mo1 s1 where one: "(if prune = [] then Inr (mo, en_scheduler e) else insert_eos prune ''gambit_pruned'' mo (en_scheduler e)) = Inr (mo1, s1)"
    "same_slots mo mo1" "planned_ok cfg caching hf nh bs so (e\<lparr>en_scheduler := s1\<rparr>)"
    using insert_eos_keeps [OF ok slots h, of prune "''gambit_pruned''"] ok by (cases "prune = []") (auto simp: same_slots_def)
  have slots1: "slots_ok mo1" using same_slots_ok [OF one(2)] slots by simp
  obtain mo2 s2 where two: "(if force = [] then Inr (mo1, s1) else insert_eos force ''gambit_stop_after_completed'' mo1 s1) = Inr (mo2, s2)"
    "same_slots mo1 mo2" "planned_ok cfg caching hf nh bs so (e\<lparr>en_scheduler := s2\<rparr>)"
    using insert_eos_keeps [OF one(3) slots1 h, of force "''gambit_stop_after_completed''"] one(3) by (cases "force = []") (auto simp: same_slots_def)
  let ?e = "e\<lparr>en_scheduler := s2, en_pending_low_score_stops := en_pending_low_score_stops e - set prune,
    en_pending_force_stops := en_pending_force_stops e - set force\<rparr>"
  have "inject_eos mo e = Inr (mo2, ?e)"
    unfolding inject_eos_def Let_def prune_def [symmetric] force_def [symmetric] using one(1) two(1) by simp
  moreover have "planned_ok cfg caching hf nh bs so ?e" by (rule planned_ok_cong [OF two(3)]) simp_all
  moreover have "same_slots mo mo2" using one(2) two(2) by (simp add: same_slots_def)
  ultimately show ?thesis by blast
qed

lemma capture_keeps:
  "planned_ok cfg caching hf nh bs so e \<Longrightarrow> \<forall>(rid, i) \<in> set xs. i < length (mo_sampled_token_ids mo) \<Longrightarrow>
    \<exists>e'. capture_tokens mo xs e = Inr e' \<and> planned_ok cfg caching hf nh bs so e'"
proof (induction xs arbitrary: e)
  case (Cons x xs)
  obtain rid i where x: "x = (rid, i)" by (cases x)
  let ?e = "\<lambda>d. e\<lparr>en_output_token_ids := d\<rparr>"
  have "planned_ok cfg caching hf nh bs so (?e d)" for d by (rule planned_ok_cong [OF Cons.prems(1)]) simp_all
  with Cons.IH [of "?e _"] Cons.IH [OF Cons.prems(1)] Cons.prems(2) show ?case by (simp add: x sampled_at_def)
qed simp

lemma after_forward_keeps:
  assumes ok: "planned_ok cfg caching hf nh bs so e" and ev: "env_ok cfg hf nh bs ev" and slots: "slots_ok mo"
  shows "\<exists>mo' e'. gambit_after_forward ev so mo e = Inr (mo', e') \<and> same_slots mo mo' \<and> planned_ok cfg caching hf nh bs so e'"
proof (cases "gc_enable (en_config e)")
  case False
  with ok show ?thesis by (simp add: gambit_after_forward_def same_slots_def)
next
  case True
  have h: "hash_good hf nh" "0 < bs" using ev by (simp_all add: env_ok_def)
  have "consume_async ev e = Inr e"
    using ok by (simp add: consume_async_def planned_ok_def traces_ok_def settings_def split: option.splits)
  moreover obtain e2 where e2: "score_pending ev (so_num_scheduled_tokens so) e = Inr e2" "planned_ok cfg caching hf nh bs so e2"
    using score_pending_keeps [OF ok ev] by blast
  moreover define e3 where "e3 = e2\<lparr>en_pending_hs_classification := en_pending_hs_classification e2 - sc_finished_req_ids (en_scheduler e2)\<rparr>"
  moreover have "planned_ok cfg caching hf nh bs so e3" by (rule planned_ok_cong [OF e2(2)]) (simp_all add: e3_def)
  with detect_triggers_keeps [OF this slots] obtain e4 where e4: "detect_triggers mo e3 = Inr e4" "planned_ok cfg caching hf nh bs so e4" by blast
  ultimately have "gambit_after_forward ev so mo e = (if en_gambit_enabled e4 then inject_eos mo e4 else Inr (mo, e4))"
    using True by (simp add: gambit_after_forward_def Let_def)
  with inject_eos_keeps [OF e4(2) slots h] e4(2) show ?thesis by (auto simp: same_slots_def)
qed

subsection \<open>Finished requests\<close>

text \<open>Requests that finish while the tokens are processed were scheduled, and leave the table.\<close>

lemma update_one_finished:
  assumes "update_one hasher so mo finals hists rid n ux = Inr ux'"
    and "sc_finished_req_ids (ux_sched ux) \<inter> keyset (sc_requests (ux_sched ux)) = {}"
  shows "sc_finished_req_ids (ux_sched ux') \<subseteq> insert rid (sc_finished_req_ids (ux_sched ux)) \<and>
    sc_finished_req_ids (ux_sched ux') \<inter> keyset (sc_requests (ux_sched ux')) = {}"
proof (cases "map_of (sc_requests (ux_sched ux)) rid")
  case None
  with assms show ?thesis by (auto simp: update_one_def Let_def ebind_eq_Inr simp del: set_map)
next
  case (Some r0)
  let ?s = "ux_sched ux"
  from assms(1) Some have "\<exists>stopped r2 s2. (if stopped then free_request rid (upd_req rid (\<lambda>_. r2) ?s) else Inr (upd_req rid (\<lambda>_. r2) ?s)) = Inr s2 \<and>
      ux_sched ux' = s2"
    by (clarsimp simp: update_one_def Let_def ebind_eq_Inr split del: if_split) blast
  then obtain stopped r2 s2 where s2: "(if stopped then free_request rid (upd_req rid (\<lambda>_. r2) ?s) else Inr (upd_req rid (\<lambda>_. r2) ?s)) = Inr s2"
    "ux_sched ux' = s2" by blast
  show ?thesis
  proof (cases stopped)
    case True
    then have f: "free_request rid (upd_req rid (\<lambda>_. r2) ?s) = Inr s2" using s2(1) by simp
    have "sc_finished_req_ids s2 = insert rid (sc_finished_req_ids ?s)"
      using f by (auto simp: free_request_def free_blocks_of_def Let_def ebind_eq_Inr upd_req_def)
    moreover have "keyset (sc_requests s2) = keyset (sc_requests ?s) - {rid}"
      using free_request_frame [OF f] by (simp add: upd_req_def del: set_map)
    ultimately show ?thesis using assms(2) s2(2) by auto
  next
    case False
    then have e: "s2 = upd_req rid (\<lambda>_. r2) ?s" using s2(1) by simp
    show ?thesis unfolding s2(2) e using assms(2) by (simp add: upd_req_def subset_insertI del: set_map)
  qed
qed

lemma update_loop_finished:
  assumes "update_loop hasher so mo finals hists xs ux = Inr ux'"
    and "sc_finished_req_ids (ux_sched ux) \<inter> keyset (sc_requests (ux_sched ux)) = {}"
  shows "sc_finished_req_ids (ux_sched ux') \<subseteq> keyset xs \<union> sc_finished_req_ids (ux_sched ux) \<and>
    sc_finished_req_ids (ux_sched ux') \<inter> keyset (sc_requests (ux_sched ux')) = {}"
  using assms
proof (induction xs arbitrary: ux)
  case (Cons x xs)
  obtain rid n where x: "x = (rid, n)" by (cases x)
  from Cons.prems(1) obtain ux1 where ux1: "update_one hasher so mo finals hists rid n ux = Inr ux1" "update_loop hasher so mo finals hists xs ux1 = Inr ux'"
    by (auto simp: x ebind_eq_Inr)
  note one = update_one_finished [OF ux1(1) Cons.prems(2)]
  from Cons.IH [OF ux1(2) conjunct2 [OF one]] one show ?case by (auto simp: x)
qed simp

lemma update_finished:
  assumes "update_from_output hasher so mo finals hists s = Inr (outs, s')" and "sc_finished_req_ids s = {}"
  shows "sc_finished_req_ids s' \<subseteq> keyset (so_num_scheduled_tokens so) \<and> sc_finished_req_ids s' \<inter> keyset (sc_requests s') = {}"
proof -
  let ?ux = "\<lparr>ux_sched = s, ux_outputs = [], ux_stopped_running = {}, ux_stopped_preempted = []\<rparr>"
  from assms(1) obtain ux s1 where ux: "update_loop hasher so mo finals hists (so_num_scheduled_tokens so) ?ux = Inr ux" "remove_stopped ux = Inr s1"
    and s': "sc_finished_req_ids s' = sc_finished_req_ids s1" "sc_requests s' = sc_requests s1"
    by (auto simp: update_from_output_def Let_def ebind_eq_Inr split: option.splits)
  have "sc_finished_req_ids s1 = sc_finished_req_ids (ux_sched ux)" "sc_requests s1 = sc_requests (ux_sched ux)"
    using ux(2) by (auto simp: remove_stopped_def Let_def ebind_eq_Inr split: if_splits)
  with update_loop_finished [OF ux(1)] assms(2) s' show ?thesis by (simp del: set_map)
qed

text \<open>The final score of a trace closes it.\<close>

lemma open_trace_cases:
  assumes "open_trace t rid"
  shows "tree_contains t rid \<or> external_id rid" and "map_of (tt_nodes t) rid = Some n \<Longrightarrow> \<not> nd_is_completed n"
  using assms by (auto simp: open_trace_def tree_contains_def split: option.splits dest: map_of_in_keys)

lemma finished_request_tree:
  assumes t: "en_trace_tree e = Some t" "tree_inv t" and rid: "open_trace t rid"
  shows "\<exists>t'. en_trace_tree (gambit_on_request_finished rid sc out e) = Some t' \<and> tree_inv t' \<and> (\<forall>q. q \<noteq> rid \<longrightarrow> open_trace t q \<longrightarrow> open_trace t' q)"
proof -
  let ?t = "if tree_contains t rid then t else add_root rid t"
  have inv: "tree_inv ?t" using t(2) open_trace_cases(1) [OF rid] tree_inv_add_root by auto
  have other: "map_of (tt_nodes ?t) q = map_of (tt_nodes t) q" if "q \<noteq> rid" for q
    using that by (simp add: add_root_def invalidate_lineage_cache_def dict_simps)
  obtain node where node: "get_node rid ?t = Some node"
  proof (cases "tree_contains t rid")
    case True
    then obtain n where "map_of (tt_nodes t) rid = Some n" unfolding tree_contains_def by (metis in_keys_map_of)
    with True that show thesis by (simp add: get_node_def)
  qed (use that in \<open>simp add: get_node_def add_root_def invalidate_lineage_cache_def dict_simps\<close>)
  obtain ids fin stp where ifs: "(case map_of (sc_requests (en_scheduler e)) rid of None \<Rightarrow> (out, None, None)
      | Some r \<Rightarrow> (Some (rq_output_token_ids r), Some (status_name (rq_status r)), rq_stop_reason r)) = (ids, fin, stp)"
    by (cases "map_of (sc_requests (en_scheduler e)) rid") auto
  let ?t' = "if nd_is_pruned node then ?t\<lparr>tt_nodes := dmodify rid (set_output None ids fin stp sc) (tt_nodes ?t)\<rparr>
    else mark_completed rid None ids fin stp sc ?t"
  have "en_trace_tree (gambit_on_request_finished rid sc out e) = Some ?t'"
    using t(1) node ifs by (simp add: gambit_on_request_finished_def Let_def)
  moreover have "tree_inv ?t'"
  proof (cases "nd_is_pruned node")
    case True
    then show ?thesis by (simp add: tree_inv_set_output [OF inv])
  next
    case False
    with tree_inv_mark_completed [OF inv, of rid] node show ?thesis by (simp add: get_node_def split del: if_split)
  qed
  moreover have "open_trace ?t' q" if "q \<noteq> rid" "open_trace t q" for q
    using that other [OF that(1)] by (auto simp: open_trace_def mark_completed_def dict_simps split: if_splits)
  ultimately show ?thesis by blast
qed

lemma finished_request_frame:
  "\<exists>t'. gambit_on_request_finished rid sc out e = e\<lparr>en_trace_tree := t'\<rparr> \<and> (en_trace_tree e = None \<longrightarrow> t' = None)"
proof (cases "en_trace_tree e")
  case None
  then show ?thesis by (intro exI [of _ None]) (simp add: gambit_on_request_finished_def)
next
  case (Some t)
  have id: "e = e\<lparr>en_trace_tree := Some t\<rparr>" using Some by simp
  show ?thesis unfolding gambit_on_request_finished_def Some option.case Let_def
    by (cases "get_node rid (if tree_contains t rid then t else add_root rid t)") (use id in \<open>auto split: prod.splits\<close>)
qed

lemma finalize_frame:
  "en_scheduler (finalize_one rid e) = en_scheduler e" "settings (finalize_one rid e) = settings e"
  "scored_ids (finalize_one rid e) = scored_ids e - {rid}" "en_trace_tree e = None \<Longrightarrow> en_trace_tree (finalize_one rid e) = None"
proof -
  define e1 where "e1 = e\<lparr>en_final_trace_scores := AList.update rid (final_average rid e) (en_final_trace_scores e),
    en_trace_scores := AList.delete rid (en_trace_scores e), en_trace_score_sums := AList.delete rid (en_trace_score_sums e),
    en_trace_score_counts := AList.delete rid (en_trace_score_counts e), en_pending_low_score_stops := en_pending_low_score_stops e - {rid},
    en_pending_force_stops := en_pending_force_stops e - {rid}, en_trace_token_counts := AList.delete rid (en_trace_token_counts e),
    en_stride_last_trigger := AList.delete rid (en_stride_last_trigger e)\<rparr>"
  define e2 where "e2 = e1\<lparr>en_output_token_ids := AList.delete rid (en_output_token_ids e1)\<rparr>"
  have eq: "finalize_one rid e = (if en_gambit_enabled e1 then gambit_on_request_finished rid (final_average rid e) (map_of (en_output_token_ids e1) rid) e2 else e1)"
    unfolding finalize_one_def Let_def e2_def e1_def by (rule refl)
  have f1: "en_scheduler e1 = en_scheduler e" "settings e1 = settings e" "scored_ids e1 = scored_ids e - {rid}" "en_trace_tree e1 = en_trace_tree e"
    by (auto simp: e1_def settings_def scored_ids_def simp del: set_map)
  have f2: "en_scheduler e2 = en_scheduler e1" "settings e2 = settings e1" "scored_ids e2 = scored_ids e1" "en_trace_tree e2 = en_trace_tree e1"
    by (simp_all add: e2_def)
  obtain t' where t': "gambit_on_request_finished rid (final_average rid e) (map_of (en_output_token_ids e1) rid) e2 = e2\<lparr>en_trace_tree := t'\<rparr>"
    "en_trace_tree e2 = None \<longrightarrow> t' = None" using finished_request_frame by blast
  show "en_scheduler (finalize_one rid e) = en_scheduler e" "settings (finalize_one rid e) = settings e"
    "scored_ids (finalize_one rid e) = scored_ids e - {rid}" "en_trace_tree e = None \<Longrightarrow> en_trace_tree (finalize_one rid e) = None"
    unfolding eq t'(1) using f1 f2 t'(2) by simp_all
qed

lemma finalize_one_tree:
  assumes "en_trace_tree e = Some t" "tree_inv t" and "open_trace t rid"
  shows "\<exists>t'. en_trace_tree (finalize_one rid e) = Some t' \<and> tree_inv t' \<and> (\<forall>q. q \<noteq> rid \<longrightarrow> open_trace t q \<longrightarrow> open_trace t' q)"
proof (cases "en_gambit_enabled e")
  case True
  then show ?thesis unfolding finalize_one_def Let_def using assms by (simp add: finished_request_tree)
next
  case False
  with assms show ?thesis by (simp add: finalize_one_def Let_def)
qed

lemma finalize_one_keeps:
  assumes tr: "traces_ok cfg e" and rid: "rid \<notin> keyset (sc_requests (en_scheduler e))" and op: "\<And>t. en_trace_tree e = Some t \<Longrightarrow> open_trace t rid"
  shows "traces_ok cfg (finalize_one rid e)"
proof (cases "en_trace_tree e")
  case None
  with tr show ?thesis by (simp add: traces_ok_def finalize_frame)
next
  case (Some t)
  obtain t' where t': "en_trace_tree (finalize_one rid e) = Some t'" "tree_inv t'" "\<And>q. q \<noteq> rid \<Longrightarrow> open_trace t q \<Longrightarrow> open_trace t' q"
    using finalize_one_tree [OF Some traces_okD(1) [OF tr Some] op [OF Some]] by blast
  have "open_trace t' q" if "q \<in> keyset (sc_requests (en_scheduler e)) \<union> (scored_ids e - {rid})" for q
    by (rule t'(3)) (use that rid traces_okD(2,3) [OF tr Some, of q] in blast)+
  with tr t'(1,2) show ?thesis by (simp add: traces_ok_def finalize_frame del: set_map)
qed

lemma finalize_keeps:
  "traces_ok cfg e \<Longrightarrow> distinct rids \<Longrightarrow> \<forall>rid \<in> set rids. rid \<notin> keyset (sc_requests (en_scheduler e)) \<Longrightarrow>
    \<forall>rid \<in> set rids. \<forall>t. en_trace_tree e = Some t \<longrightarrow> open_trace t rid \<Longrightarrow> traces_ok cfg (finalize_scores rids e) \<and>
    en_scheduler (finalize_scores rids e) = en_scheduler e"
proof (induction rids arbitrary: e)
  case (Cons rid rids)
  have keep: "traces_ok cfg (finalize_one rid e)" by (rule finalize_one_keeps) (use Cons.prems in simp_all)
  have op: "open_trace t' q" if q: "q \<in> set rids" "en_trace_tree (finalize_one rid e) = Some t'" for q t'
  proof (cases "en_trace_tree e")
    case None
    with q(2) show ?thesis by (simp add: finalize_frame)
  next
    case (Some t)
    from finalize_one_tree [OF Some traces_okD(1) [OF Cons.prems(1) Some], of rid] Cons.prems(2,4) Some q show ?thesis by auto
  qed
  have "traces_ok cfg (finalize_scores rids (finalize_one rid e)) \<and> en_scheduler (finalize_scores rids (finalize_one rid e)) = en_scheduler (finalize_one rid e)"
    by (rule Cons.IH [OF keep]) (use Cons.prems op in \<open>simp_all add: finalize_frame\<close>)
  then show ?case by (simp add: finalize_scores_def finalize_frame)
qed (simp add: finalize_scores_def)

subsection \<open>The whole step\<close>

lemma finish_step_keeps:
  assumes ok: "planned_ok cfg caching hf nh bs so e" and ev: "env_ok cfg hf nh bs ev" and slots: "slots_ok mo"
    and ans: "keyset (so_num_scheduled_tokens so) \<subseteq> keyset (mo_req_id_to_index mo)"
  shows "\<exists>out e'. finish_step ev so mo e = Inr (out, e') \<and> engine_ok cfg caching hf nh bs e'"
proof -
  have h: "hash_good hf nh" "0 < bs" "ev_hasher ev = Some (get_request_block_hasher hf nh bs)" "set_order_ok ev" using ev by (simp_all add: env_ok_def)
  let ?s = "en_scheduler e" let ?K = "keyset (sc_requests ?s)" and ?ns = "so_num_scheduled_tokens so"
  let ?hists = "if gc_enable (en_config e) \<and> gc_record_score_history (en_config e) then Some (en_trace_scores e) else None"
  have tr: "traces_ok cfg e" and fin0: "sc_finished_req_ids ?s = {}" using ok by (simp_all add: planned_ok_def)
  have answers: "answers mo rid" if "rid \<in> keyset ?ns" for rid
  proof -
    from that ans obtain i where "map_of (mo_req_id_to_index mo) rid = Some i" by (metis in_keys_map_of subsetD)
    with slots show ?thesis by (auto simp: answers_def slots_ok_def dest: map_of_SomeD)
  qed
  have inv: "sched_inv caching bs (live_ok hf nh bs ?K) (mid_ok (so_spec_tokens so)) ?s" using ok by (simp add: planned_ok_def live_narrow)
  have pos: "\<forall>(rid, n) \<in> set ?ns. 0 < n" and run: "keyset ?ns \<subseteq> set (sc_running ?s)" using ok unfolding planned_ok_def by blast+
  have plan: "\<forall>(rid, n) \<in> set ?ns. 0 < n \<and> answers mo rid" "keyset ?ns \<inter> keyset (sc_requests ?s) \<subseteq> set (sc_running ?s)"
    using pos answers run by force+
  have more: "prev_ok ?s" "wf_dict ?ns" "keyset (so_spec_tokens so) \<subseteq> keyset ?ns" using ok by (simp_all add: planned_ok_def)
  obtain outs s where s: "update_from_output (ev_hasher ev) so mo (Some (en_final_trace_scores e)) ?hists ?s = Inr (outs, s)"
    "sched_inv caching bs (live_ok hf nh bs ?K) computed_ok s" "prev_ok s"
    using block_hashing.update_from_output_total [OF live_hashing [OF h(1,2)] inv more(1,2) plan more(3), of "Some (en_final_trace_scores e)" ?hists, folded h(3)]
    by (elim exE conjE) (rule that; assumption)
  note fin = update_finished [OF s(1) fin0] and keys = live_widen(2) [OF s(2)]
  let ?rids = "ev_set_order ev (sc_finished_req_ids s)"
  have "finite (sc_finished_req_ids s)" using fin finite_subset [of _ "keyset ?ns"] by blast
  with h(4) have order: "set ?rids = sc_finished_req_ids s" "distinct ?rids" by (simp_all add: set_order_ok_def)
  define e0 where "e0 = e\<lparr>en_scheduler := s\<rparr>"
  have tr0: "traces_ok cfg e0" by (rule traces_ok_cong [OF tr]) (use keys in \<open>simp_all add: e0_def del: set_map\<close>)
  have op: "open_trace t rid" if "rid \<in> sc_finished_req_ids s" "en_trace_tree e0 = Some t" for rid t
  proof (rule traces_okD(2) [OF tr])
    show "en_trace_tree e = Some t" using that(2) by (simp add: e0_def)
    show "rid \<in> keyset (sc_requests (en_scheduler e))" using that(1) fin planned_requests [OF ok] by blast
  qed
  define e1 where "e1 = (if sc_finished_req_ids s \<noteq> {} then finalize_scores ?rids e0 else e0)"
  have "\<forall>rid \<in> set ?rids. rid \<notin> keyset (sc_requests (en_scheduler e0))" using fin unfolding order(1) e0_def by auto
  moreover have "\<forall>rid \<in> set ?rids. \<forall>t. en_trace_tree e0 = Some t \<longrightarrow> open_trace t rid" using op unfolding order(1) by blast
  ultimately have "traces_ok cfg (finalize_scores ?rids e0) \<and> en_scheduler (finalize_scores ?rids e0) = en_scheduler e0"
    by (rule finalize_keeps [OF tr0 order(2)])
  then have "traces_ok cfg e1 \<and> en_scheduler e1 = s" using tr0 by (simp add: e1_def e0_def)
  then have "engine_ok cfg caching hf nh bs e1" using s(2,3) live_widen(1) by (simp add: engine_ok_def)
  moreover have "\<exists>out. finish_step ev so mo e = Inr (out, e1)"
    unfolding finish_step_def Let_def s(1) ebind_Inr prod.case e0_def [symmetric] e1_def [symmetric] by blast
  ultimately show ?thesis by blast
qed

lemma drain_keeps: "engine_ok cfg caching hf nh bs e \<Longrightarrow> engine_ok cfg caching hf nh bs (drain_leftovers e)"
proof -
  assume ok: "engine_ok cfg caching hf nh bs e"
  then have tr: "traces_ok cfg e" by (simp add: engine_ok_def)
  show ?thesis
  proof (cases "en_trace_tree e = None \<or> \<not> en_gambit_enabled e")
    case True
    with ok show ?thesis by (auto simp: drain_leftovers_def split: option.splits)
  next
    case False
    then obtain t where t: "en_trace_tree e = Some t" "en_gambit_enabled e" by auto
    obtain t' where t': "en_trace_tree (drain_leftovers e) = Some t'" "tree_inv t'" "\<And>rid. open_trace t' rid = open_trace t rid"
      using drain_active_zero(2) [OF t(1) traces_okD(1) [OF tr t(1)] t(2)] t by (auto simp: tree_good_def drain_leftovers_def Let_def)
    have same: "en_scheduler (drain_leftovers e) = en_scheduler e" "scored_ids (drain_leftovers e) = scored_ids e" "settings (drain_leftovers e) = settings e"
      using t by (simp_all add: drain_leftovers_def Let_def)
    have "traces_ok cfg (drain_leftovers e)" by (rule traces_okI [OF tr same(3)]) (use t t' same in \<open>simp_all del: set_map\<close>)
    with ok same(1) show ?thesis by (simp add: engine_ok_def)
  qed
qed

text \<open>Up to the processing of the tokens.\<close>

lemma engine_step_planned:
  assumes ok: "engine_ok cfg caching hf nh bs e" and ev: "env_ok cfg hf nh bs ev"
  obtains so s mo e2 e3 where "schedule (ev_int_hashes ev) (ev_fsm ev) (en_scheduler e) = Inr (so, s)"
    "gambit_after_forward ev so (ev_forward ev so) (e\<lparr>en_scheduler := s\<rparr>) = Inr (mo, e2)"
    "(if en_gambit_enabled e2 then capture_tokens mo (mo_req_id_to_index mo) e2 else Inr e2) = Inr e3"
    "planned_ok cfg caching hf nh bs so e3" "slots_ok mo" "keyset (so_num_scheduled_tokens so) \<subseteq> keyset (mo_req_id_to_index mo)"
proof -
  have h: "hash_good hf nh" "0 < bs" "runner_ok ev" using ev by (simp_all add: env_ok_def)
  let ?s = "en_scheduler e" let ?K = "keyset (sc_requests ?s)"
  have tr: "traces_ok cfg e" and prev: "prev_ok ?s" and inv: "sched_inv caching bs (live_ok hf nh bs ?K) computed_ok ?s"
    using ok by (simp_all add: engine_ok_def live_narrow)
  obtain so s where s: "schedule (ev_int_hashes ev) (ev_fsm ev) ?s = Inr (so, s)" "sched_inv caching bs (live_ok hf nh bs ?K) (mid_ok (so_spec_tokens so)) s"
    "prev_ok s" "wf_dict (so_num_scheduled_tokens so)" "keyset (so_num_scheduled_tokens so) \<subseteq> set (sc_running s)"
    "\<forall>(rid, n) \<in> set (so_num_scheduled_tokens so). 0 < n" "keyset (so_spec_tokens so) \<subseteq> keyset (so_num_scheduled_tokens so)" "sc_finished_req_ids s = {}"
    using block_hashing.schedule_total [OF live_hashing [OF h(1,2)] inv prev, of "ev_int_hashes ev" "ev_fsm ev"] by (elim exE conjE) (rule that; assumption)
  let ?e1 = "e\<lparr>en_scheduler := s\<rparr>" let ?mo = "ev_forward ev so"
  have "traces_ok cfg ?e1" by (rule traces_ok_cong [OF tr]) (use live_widen(2) [OF s(2)] in \<open>simp_all del: set_map\<close>)
  with s live_widen(1) [OF s(2)] have p1: "planned_ok cfg caching hf nh bs so ?e1" by (simp add: planned_ok_def)
  have slots: "slots_ok ?mo" "keyset (so_num_scheduled_tokens so) \<subseteq> keyset (mo_req_id_to_index ?mo)" using h(3) by (simp_all add: runner_ok_def slots_ok_def)
  obtain mo1 e2 where two: "gambit_after_forward ev so ?mo ?e1 = Inr (mo1, e2)" "same_slots ?mo mo1" "planned_ok cfg caching hf nh bs so e2"
    using after_forward_keeps [OF p1 ev slots(1)] by blast
  have slots1: "slots_ok mo1" "keyset (so_num_scheduled_tokens so) \<subseteq> keyset (mo_req_id_to_index mo1)"
    using slots two(2) by (simp_all add: slots_ok_def same_slots_def)
  obtain e3 where e3: "(if en_gambit_enabled e2 then capture_tokens mo1 (mo_req_id_to_index mo1) e2 else Inr e2) = Inr e3" "planned_ok cfg caching hf nh bs so e3"
    using capture_keeps [OF two(3) slots1(1) [unfolded slots_ok_def]] two(3) by (cases "en_gambit_enabled e2") auto
  from that [OF s(1) two(1) e3(1,2) slots1] show thesis .
qed

lemma engine_step_keeps:
  assumes ok: "engine_ok cfg caching hf nh bs e" and ev: "env_ok cfg hf nh bs ev"
  shows "\<exists>out e'. engine_step ev e = Inr (out, e') \<and> engine_ok cfg caching hf nh bs e'"
proof (cases "has_requests (en_scheduler e)")
  case False
  with drain_keeps [OF ok] show ?thesis by (simp add: engine_step_def)
next
  case True
  from ok ev obtain so s mo e2 e3 where run: "schedule (ev_int_hashes ev) (ev_fsm ev) (en_scheduler e) = Inr (so, s)"
    "gambit_after_forward ev so (ev_forward ev so) (e\<lparr>en_scheduler := s\<rparr>) = Inr (mo, e2)"
    "(if en_gambit_enabled e2 then capture_tokens mo (mo_req_id_to_index mo) e2 else Inr e2) = Inr e3"
    "planned_ok cfg caching hf nh bs so e3" "slots_ok mo" "keyset (so_num_scheduled_tokens so) \<subseteq> keyset (mo_req_id_to_index mo)"
    by (rule engine_step_planned)
  from finish_step_keeps [OF run(4) ev run(5,6)] True run(1-3) show ?thesis by (simp add: engine_step_def Let_def)
qed

end
