(* ===== verification/Engine_Run.thy ===== *)
theory Engine_Run
  imports Engine_Total
begin

text \<open>
  The engine as a state machine: a front end adds and aborts requests, the engine takes steps, receives draft tokens, and
  resets its state between questions. Its invariant holds in every reachable state.
\<close>

subsection \<open>Operations of the front end\<close>

text \<open>A request that the front end may add: a new id from outside, not started, within the limits.\<close>

definition acceptable :: "(hash_input \<Rightarrow> bytes) \<Rightarrow> bytes \<Rightarrow> nat \<Rightarrow> request \<Rightarrow> engine \<Rightarrow> bool" where
  "acceptable hf nh bs r e \<longleftrightarrow> admissible hf nh bs (sc_max_model_len (en_scheduler e)) r \<and> branchable r \<and> external_id (rq_request_id r) \<and>
     rq_request_id r \<notin> keyset (sc_requests (en_scheduler e)) \<and>
     (case en_trace_tree e of None \<Rightarrow> True | Some t \<Rightarrow> \<not> tree_contains t (rq_request_id r))"

lemma open_trace_add_root: "open_trace t q \<Longrightarrow> open_trace (add_root rid t) q"
  by (auto simp: open_trace_def add_root_def invalidate_lineage_cache_def new_node_def dict_simps split: option.splits)

lemma engine_add_keeps:
  assumes ok: "engine_ok cfg caching hf nh bs e" and r: "acceptable hf nh bs r e"
  shows "\<exists>e'. engine_add_request ev r e = Inr e' \<and> engine_ok cfg caching hf nh bs e'"
proof -
  let ?s = "en_scheduler e" let ?rid = "rq_request_id r"
  have inv: "sched_inv caching bs (live_ok hf nh bs UNIV) computed_ok ?s" "prev_ok ?s" and tr: "traces_ok cfg e" using ok by (simp_all add: engine_ok_def)
  have rq: "request_ok (live_ok hf nh bs UNIV) computed_ok (sc_max_model_len ?s) False ?rid r" "rq_status r \<noteq> PREEMPTED" "rq_pooling_params r = None"
    using r by (auto simp: acceptable_def admissible_def request_ok_def live_ok_def token_ok_def)
  have new: "?rid \<notin> keyset (sc_requests ?s)" "external_id ?rid" using r by (simp_all add: acceptable_def del: set_map)
  obtain w where w: "sc_waiting ?s = FCFSQueue w" using inv(1) by (rule sched_invE)
  obtain s where s: "add_request r ?s = Inr s" "sched_inv caching bs (live_ok hf nh bs UNIV) computed_ok s"
    using add_request_ok [OF inv(1) new(1) rq(1) w] by blast
  have prev: "prev_ok s" by (rule prev_ok_add [OF inv(2) rq(2) s(1)])
  have keys: "keyset (sc_requests s) = insert ?rid (keyset (sc_requests ?s))"
    using s(1) [unfolded add_request_fcfs [OF w, of r], THEN sum.inject(2) [THEN iffD1], symmetric] by (simp del: set_map)
  define e1 where "e1 = e\<lparr>en_scheduler := s\<rparr>"
  define e2 where "e2 = e1\<lparr>en_output_token_ids := dsetdefault (en_output_token_ids e1) ?rid []\<rparr>"
  define e' where "e' = (case en_trace_tree e of None \<Rightarrow> e1 | Some t \<Rightarrow> if \<not> en_gambit_enabled e then e1
    else if \<not> tree_contains t ?rid \<and> CHR ''_'' \<in> set ?rid \<and> \<not> prefix ''gambit_'' ?rid then e2\<lparr>en_trace_tree := Some (add_root ?rid t)\<rparr> else e2)"
  have run: "engine_add_request ev r e = Inr e'"
    using rq(3) s(1) by (simp add: engine_add_request_def Let_def e'_def e2_def e1_def split: option.splits)
  have same: "en_scheduler e' = s" "settings e' = settings e" "scored_ids e' = scored_ids e"
    by (simp_all add: e'_def e2_def e1_def split: option.splits)
  have "traces_ok cfg e'"
  proof (rule traces_okI [OF tr same(2)])
    fix t' assume t': "en_trace_tree e' = Some t'"
    then obtain t where t: "en_trace_tree e = Some t" by (auto simp: e'_def e2_def e1_def split: option.splits if_splits)
    have tinv: "tree_inv t" by (rule traces_okD(1) [OF tr t])
    have fresh: "\<not> tree_contains t ?rid" using r t by (simp add: acceptable_def)
    then have "open_trace t ?rid" using new(2) by (simp add: open_trace_def tree_contains_def map_of_None_iff [THEN iffD2])
    moreover have cases: "t' = t \<or> t' = add_root ?rid t" using t' t by (auto simp: e'_def e2_def e1_def split: if_splits)
    ultimately show "\<exists>t. en_trace_tree e = Some t \<and> tree_inv t' \<and> (\<forall>q. open_trace t q \<longrightarrow> open_trace t' q) \<and>
      (\<forall>q \<in> keyset (sc_requests (en_scheduler e')) \<union> scored_ids e'. q \<in> keyset (sc_requests (en_scheduler e)) \<union> scored_ids e \<or> open_trace t' q)"
      using t tinv tree_inv_add_root [OF tinv fresh new(2)] open_trace_add_root same(1,3) keys
      by (intro exI [of _ t]) (auto simp del: set_map)
  qed
  with run s(2) prev same(1) show ?thesis by (simp add: engine_ok_def)
qed

lemma abort_keeps:
  assumes ok: "engine_ok cfg caching hf nh bs e"
  shows "\<exists>e'. abort_requests ids e = Inr e' \<and> engine_ok cfg caching hf nh bs e'"
proof -
  let ?s = "en_scheduler e"
  have inv: "sched_inv caching bs (live_ok hf nh bs UNIV) computed_ok ?s" "prev_ok ?s" and tr: "traces_ok cfg e" using ok by (simp_all add: engine_ok_def)
  obtain w where w: "sc_waiting ?s = FCFSQueue w" using inv(1) by (rule sched_invE)
  have fin: "status_is_finished FINISHED_ABORTED" by (simp add: status_is_finished_iff)
  obtain s where s: "finish_requests ids FINISHED_ABORTED ?s = Inr s" "sched_inv caching bs (live_ok hf nh bs UNIV) computed_ok s"
    "same_limits ?s s" "keyset (sc_requests s) = keyset (sc_requests ?s) - set ids"
    using finish_requests_ok [OF inv(1) fin w refl, of ids] by (elim exE conjE) (rule that; assumption)
  have "prev_ok s" using inv(2) s(3) finish_requests_map [OF s(1)] by (auto simp: prev_ok_def same_limits_def)
  moreover have "traces_ok cfg (e\<lparr>en_scheduler := s\<rparr>)" by (rule traces_ok_cong [OF tr]) (use s(4) in \<open>simp_all del: set_map\<close>)
  ultimately show ?thesis using s(1,2) by (simp add: abort_requests_def engine_ok_def)
qed

lemma reset_keeps:
  assumes ok: "engine_ok cfg caching hf nh bs e"
  shows "engine_ok cfg caching hf nh bs (reset_gambit_state e)"
proof (cases "en_gambit_enabled e \<and> queue_len (sc_waiting (en_scheduler e)) + length (sc_running (en_scheduler e)) = 0")
  case False
  with ok show ?thesis by (auto simp: reset_gambit_state_def)
next
  case True
  let ?e = "reset_gambit_state e" let ?s = "en_scheduler e"
  obtain w where "sc_waiting ?s = FCFSQueue w" "keyset (sc_requests ?s) = set (sc_running ?s) \<union> set w"
    using ok by (auto simp: engine_ok_def elim!: sched_invE dest: sched_okD(3))
  with True have none: "keyset (sc_requests ?s) = {}" by simp
  have same: "en_scheduler ?e = ?s" "settings ?e = settings e" "scored_ids ?e = {}" "en_trace_tree ?e = Some (init_trace_tree (en_config e))"
    using True by (simp_all add: reset_gambit_state_def settings_def scored_ids_def)
  have "tree_inv (init_trace_tree (en_config e))" by (simp add: init_trace_tree_def split: prod.splits)
  with ok same none show ?thesis by (simp add: engine_ok_def traces_ok_def del: set_map)
qed

lemma post_step_keeps:
  assumes ok: "engine_ok cfg caching hf nh bs e" and h: "hash_good hf nh" "0 < bs"
  shows "engine_ok cfg caching hf nh bs (post_step spec drafts executed e)"
proof -
  have inv: "sched_inv caching bs (live_ok hf nh bs UNIV) computed_ok (en_scheduler e)" "prev_ok (en_scheduler e)" and tr: "traces_ok cfg e"
    using ok by (simp_all add: engine_ok_def)
  have "engine_ok cfg caching hf nh bs (e\<lparr>en_scheduler := update_draft_token_ids ds (en_scheduler e)\<rparr>)" for ds
  proof -
    have d: "sched_inv caching bs (live_ok hf nh bs UNIV) computed_ok (update_draft_token_ids ds (en_scheduler e))"
      "same_queues (en_scheduler e) (update_draft_token_ids ds (en_scheduler e))"
      using block_hashing.update_draft_token_ids_ok [OF live_hashing [OF h] inv(1), of ds] by simp_all
    have "traces_ok cfg (e\<lparr>en_scheduler := update_draft_token_ids ds (en_scheduler e)\<rparr>)"
      by (rule traces_ok_cong [OF tr]) (use d(2) in \<open>simp_all add: same_queues_def del: set_map\<close>)
    with d same_queues_prev [OF d(2) inv(2)] show ?thesis by (simp add: engine_ok_def)
  qed
  with ok show ?thesis by (simp add: post_step_def split: option.splits)
qed

subsection \<open>Runs\<close>

inductive engine_op :: "gambit_config \<Rightarrow> (hash_input \<Rightarrow> bytes) \<Rightarrow> bytes \<Rightarrow> nat \<Rightarrow> engine \<Rightarrow> engine \<Rightarrow> bool" for cfg hf nh bs where
  op_add: "acceptable hf nh bs r e \<Longrightarrow> engine_add_request ev r e = Inr e' \<Longrightarrow> engine_op cfg hf nh bs e e'"
| op_abort: "abort_requests ids e = Inr e' \<Longrightarrow> engine_op cfg hf nh bs e e'"
| op_step: "env_ok cfg hf nh bs ev \<Longrightarrow> engine_step ev e = Inr (out, e') \<Longrightarrow> engine_op cfg hf nh bs e e'"
| op_drafts: "engine_op cfg hf nh bs e (post_step spec drafts executed e)"
| op_reset: "engine_op cfg hf nh bs e (reset_gambit_state e)"

lemma engine_op_keeps:
  assumes "hash_good hf nh" "0 < bs" and "engine_op cfg hf nh bs e e'" and "engine_ok cfg caching hf nh bs e"
  shows "engine_ok cfg caching hf nh bs e'"
  using assms(3,4)
proof (induction rule: engine_op.induct)
  case (op_add r e ev e')
  from engine_add_keeps [OF op_add(3,1), of ev] op_add(2) show ?case by simp
next
  case (op_abort ids e e')
  from abort_keeps [OF op_abort(2), of ids] op_abort(1) show ?case by simp
next
  case (op_step ev e out e')
  from engine_step_keeps [OF op_step(3,1)] op_step(2) show ?case by simp
next
  case (op_drafts e spec drafts executed)
  then show ?case by (rule post_step_keeps [OF _ assms(1,2)])
next
  case (op_reset e)
  then show ?case by (rule reset_keeps)
qed

lemma init_engine_ok:
  assumes "good_config cf" and "init_scheduler cf = Inr s"
  shows "engine_ok cfg (cf_enable_prefix_caching cf) hf nh (hash_block_size cf) (init_engine cfg False s)"
proof -
  have s: "sched_inv (cf_enable_prefix_caching cf) (hash_block_size cf) (chain_ok hf nh (hash_block_size cf)) computed_ok s" "prev_ok s" "sc_requests s = []"
    using init_scheduler_inv [OF assms(1), of hf nh] assms(2) by auto
  have "sched_inv (cf_enable_prefix_caching cf) (hash_block_size cf) (live_ok hf nh (hash_block_size cf) UNIV) computed_ok s"
    by (rule sched_inv_hk [OF s(1)]) (simp add: s(3))
  moreover have "traces_ok cfg (init_engine cfg False s)"
    by (simp add: traces_ok_def settings_def init_engine_def s(3) scored_ids_def init_trace_tree_def split: prod.splits)
  ultimately show ?thesis using s(2) by (simp add: engine_ok_def init_engine_def)
qed

lemma reachable_engine_ok:
  assumes "hash_good hf nh" and "good_config cf" and "init_scheduler cf = Inr s"
    and "(engine_op cfg hf nh (hash_block_size cf))\<^sup>*\<^sup>* (init_engine cfg False s) e"
  shows "engine_ok cfg (cf_enable_prefix_caching cf) hf nh (hash_block_size cf) e"
proof -
  have bs: "0 < hash_block_size cf" using assms(2) by (simp add: hash_block_size_def good_config_def)
  from assms(4) show ?thesis
    by (induction rule: rtranclp_induct) (auto intro: init_engine_ok [OF assms(2,3)] engine_op_keeps [OF assms(1) bs])
qed

end
