(* ===== verification/Detokenizer.thy ===== *)
theory Detokenizer
  imports Prelude
begin

text \<open>
  The incremental detokenizers of \<open>vllm/v1/engine/detokenizer.py\<close>: text is decoded token by token, stop strings are searched
  in the new part of the text only, and a streaming client receives the text in pieces, with the last characters held back
  while they could still belong to a stop string. Decoding one token is the abstract method \<open>decode_next\<close> of the base class, a parameter \<open>dec\<close>
  over the state of the decoder; the slow implementation on top of \<open>transformers_utils/detokenizer_utils.py\<close> is an instance, with
  the methods of the tokenizer as parameters. The theory shows that the restricted search finds exactly what a search of the
  whole text would find, and that the streamed pieces add up to the final text.
\<close>

subsection \<open>Searching strings\<close>

text \<open>\<open>str.find(sub, start)\<close>: the first position from \<open>start\<close> on, \<open>-1\<close> when there is none; a negative start counts from the end.\<close>

definition py_find :: "string \<Rightarrow> string \<Rightarrow> int \<Rightarrow> int" where
  "py_find s sub start =
     (let st = (if start < 0 then max 0 (start + int (length s)) else start)
      in case find (\<lambda>i. prefix sub (drop i s)) [nat st..<Suc (length s)] of None \<Rightarrow> -1 | Some i \<Rightarrow> int i)"

fun check_stop_strings :: "string \<Rightarrow> nat \<Rightarrow> string list \<Rightarrow> bool \<Rightarrow> (string \<times> int) option" where
  "check_stop_strings text new_char_count [] include_in_output = None"
| "check_stop_strings text new_char_count (stop_str # stop) include_in_output =
     (if new_char_count = 0 then None
      else
      let n = int (length stop_str); i = py_find text stop_str (1 - int new_char_count - n) in
      if i = -1 then check_stop_strings text new_char_count stop include_in_output
      else if include_in_output then
        (if i + n \<ge> int (length text) then Some (stop_str, -1) else Some (stop_str, i + n))
      else Some (stop_str, i))"

subsection \<open>The base class\<close>

record 'd detokenizer =
  dt_token_ids :: "token list"
  dt_prompt_len :: nat
  dt_stop :: "string list"
  dt_min_tokens :: int
  dt_include_stop :: bool
  dt_stop_buffer_length :: int
  dt_last_offset :: int
  dt_output_text :: string
  dt_decoder :: 'd

definition new_detokenizer :: "string list \<Rightarrow> int \<Rightarrow> bool \<Rightarrow> token list \<Rightarrow> 'd \<Rightarrow> 'd detokenizer" where
  "new_detokenizer stop min_tokens include_stop prompt d =
     \<lparr>dt_token_ids = prompt, dt_prompt_len = length prompt, dt_stop = stop, dt_min_tokens = min_tokens, dt_include_stop = include_stop,
      dt_stop_buffer_length = (if stop \<noteq> [] \<and> \<not> include_stop then Max (set (map (int \<circ> length) stop)) - 1 else 0),
      dt_last_offset = 0, dt_output_text = [], dt_decoder = d\<rparr>"

definition dt_output_token_ids :: "'d detokenizer \<Rightarrow> token list" where
  "dt_output_token_ids d = drop (dt_prompt_len d) (dt_token_ids d)"

text \<open>The decoding loop, with the position from which stop strings are searched.\<close>

fun decode_loop :: "('d \<Rightarrow> token \<Rightarrow> string \<times> 'd) \<Rightarrow> token list \<Rightarrow> 'd detokenizer \<Rightarrow> nat \<Rightarrow> 'd detokenizer \<times> nat" where
  "decode_loop dec [] d off = (d, off)"
| "decode_loop dec (tok # toks) d off =
     (case dec (dt_decoder d) tok of (txt, st) \<Rightarrow>
      let d1 = d\<lparr>dt_token_ids := dt_token_ids d @ [tok], dt_output_text := dt_output_text d @ txt, dt_decoder := st\<rparr>;
          off1 = (if dt_min_tokens d \<noteq> 0 \<and> int (length (dt_output_token_ids d1)) \<le> dt_min_tokens d
                  then length (dt_output_text d1) else off)
      in decode_loop dec toks d1 off1)"

definition dt_update :: "('d \<Rightarrow> token \<Rightarrow> string \<times> 'd) \<Rightarrow> token list \<Rightarrow> bool \<Rightarrow> 'd detokenizer \<Rightarrow> string option \<times> 'd detokenizer" where
  "dt_update dec new_token_ids stop_terminated d =
     (if new_token_ids = [] then (None, d)
      else
      let skip = stop_terminated \<and> \<not> dt_include_stop d;
          toks = (if skip then butlast new_token_ids else new_token_ids) in
      case decode_loop dec toks d (length (dt_output_text d)) of (d1, off) \<Rightarrow>
      let d2 = (if skip then d1\<lparr>dt_token_ids := dt_token_ids d1 @ [last new_token_ids]\<rparr> else d1) in
      if dt_stop d2 \<noteq> [] \<and> int (length (dt_output_token_ids d2)) > dt_min_tokens d2 then
        (case check_stop_strings (dt_output_text d2) (length (dt_output_text d2) - off) (dt_stop d2) (dt_include_stop d2) of
           None \<Rightarrow> (None, d2)
         | Some (s, t) \<Rightarrow> (Some s, if t \<noteq> -1 then d2\<lparr>dt_output_text := take (nat t) (dt_output_text d2)\<rparr> else d2))
      else (None, d2))"

definition get_next_output_text :: "bool \<Rightarrow> bool \<Rightarrow> 'd detokenizer \<Rightarrow> string \<times> 'd detokenizer" where
  "get_next_output_text finished delta d =
     (let text = dt_output_text d; buffer_length = (if finished then 0 else dt_stop_buffer_length d) in
      if \<not> delta then
        (if buffer_length \<noteq> 0 then take (nat (int (length text) - buffer_length)) text else text, d)
      else
      let len = int (length text) - buffer_length in
      if dt_last_offset d < len then
        (drop (nat (dt_last_offset d)) (take (nat len) text), d\<lparr>dt_last_offset := len\<rparr>)
      else ([], d))"

subsection \<open>The slow implementation\<close>

text \<open>What it uses of a tokenizer, for the request's choice whether special tokens are skipped: the size of the vocabulary, the conversion of ids to
  token strings (\<open>None\<close> for an id outside the vocabulary), the conversion of token strings to text, the added vocabulary and the
  special tokens, and whether a text ends in the replacement character of an unfinished byte sequence.\<close>

record tokenizer =
  tk_len :: int
  tk_is_fast :: bool
  tk_convert_ids_to_tokens :: "token list \<Rightarrow> string option list"
  tk_convert_tokens_to_string :: "string list \<Rightarrow> string"
  tk_added_vocab :: "string list"
  tk_all_special_tokens :: "string list"
  tk_skip_special_tokens :: bool
  tk_spaces_between_special_tokens :: bool
  tk_ends_unfinished :: "string \<Rightarrow> bool"

fun sub_texts_loop :: "tokenizer \<Rightarrow> string list \<Rightarrow> string list \<Rightarrow> string list \<Rightarrow> string list" where
  "sub_texts_loop tk [] current subs = (if current \<noteq> [] then subs @ [tk_convert_tokens_to_string tk current] else subs)"
| "sub_texts_loop tk (t # ts) current subs =
     (if tk_skip_special_tokens tk \<and> t \<in> set (tk_all_special_tokens tk) then sub_texts_loop tk ts current subs
      else if t \<in> set (tk_added_vocab tk) then
        sub_texts_loop tk ts [] ((if current \<noteq> [] then subs @ [tk_convert_tokens_to_string tk current] else subs) @ [t])
      else sub_texts_loop tk ts (current @ [t]) subs)"

fun join_with :: "string \<Rightarrow> string list \<Rightarrow> string" where
  "join_with sep [] = []"
| "join_with sep [x] = x"
| "join_with sep (x # y # xs) = x @ sep @ join_with sep (y # xs)"

definition convert_tokens_to_string_with_added_encoders :: "tokenizer \<Rightarrow> string list \<Rightarrow> string" where
  "convert_tokens_to_string_with_added_encoders tk output_tokens =
     join_with (if tk_spaces_between_special_tokens tk then '' '' else []) (sub_texts_loop tk output_tokens [] [])"

record slow_state =
  sl_tokens :: "string list"
  sl_prefix_offset :: nat
  sl_read_offset :: nat

definition convert_prompt_ids_to_tokens :: "tokenizer \<Rightarrow> token list \<Rightarrow> slow_state" where
  "convert_prompt_ids_to_tokens tk prompt_ids =
     (let new_tokens = tk_convert_ids_to_tokens tk (drop (length prompt_ids - 7) prompt_ids);
          read_offset = length new_tokens
      in \<lparr>sl_tokens = map (\<lambda>t. case t of None \<Rightarrow> [] | Some s \<Rightarrow> s) new_tokens,
          sl_prefix_offset = read_offset - 5, sl_read_offset = read_offset\<rparr>)"

text \<open>\<open>detokenize_incrementally\<close> for a sequence that has started, as \<open>SlowIncrementalDetokenizer.decode_next\<close> calls it. An id of the vocabulary
  has a token string unless it is skipped.\<close>

definition slow_decode_next :: "tokenizer \<Rightarrow> slow_state \<Rightarrow> token \<Rightarrow> string \<times> slow_state" where
  "slow_decode_next tk st tok =
     (let new_tokens = (if 0 \<le> tok \<and> tok < tk_len tk then List.map_filter id (tk_convert_ids_to_tokens tk [tok]) else [[]]);
          output_tokens = sl_tokens st @ new_tokens;
          to_string = (if tk_is_fast tk \<or> tk_added_vocab tk = [] then tk_convert_tokens_to_string tk
                       else convert_tokens_to_string_with_added_encoders tk);
          prefix_text = to_string (drop (sl_prefix_offset st) (take (sl_read_offset st) output_tokens));
          new_text = to_string (drop (sl_prefix_offset st) output_tokens)
      in if length new_text \<le> length prefix_text \<or> tk_ends_unfinished tk new_text
         then ([], st\<lparr>sl_tokens := output_tokens\<rparr>)
         else (drop (length prefix_text) new_text,
               \<lparr>sl_tokens = output_tokens, sl_prefix_offset = sl_read_offset st, sl_read_offset = length output_tokens\<rparr>))"

subsection \<open>The restricted search\<close>

lemma find_upt_Some:
  "find P [a..<b] = Some i \<longleftrightarrow> a \<le> i \<and> i < b \<and> P i \<and> (\<forall>j. a \<le> j \<longrightarrow> j < i \<longrightarrow> \<not> P j)"
proof -
  have "find P [a..<b] = Some i \<longleftrightarrow> (\<exists>k < b - a. P (a + k) \<and> i = a + k \<and> (\<forall>j < k. \<not> P (a + j)))"
    by (auto simp: find_Some_iff)
  also have "\<dots> \<longleftrightarrow> a \<le> i \<and> i < b \<and> P i \<and> (\<forall>j. a \<le> j \<longrightarrow> j < i \<longrightarrow> \<not> P j)"
  proof
    assume "a \<le> i \<and> i < b \<and> P i \<and> (\<forall>j. a \<le> j \<longrightarrow> j < i \<longrightarrow> \<not> P j)"
    then show "\<exists>k < b - a. P (a + k) \<and> i = a + k \<and> (\<forall>j < k. \<not> P (a + j))" by (intro exI [of _ "i - a"]) auto
  qed (auto, metis le_Suc_ex nat_add_left_cancel_less)
  finally show ?thesis .
qed

lemma find_upt_None: "find P [a..<b] = None \<longleftrightarrow> (\<forall>i. a \<le> i \<longrightarrow> i < b \<longrightarrow> \<not> P i)"
  by (auto simp: find_None_iff)

lemma prefix_drop_length: "prefix sub (drop i s) \<Longrightarrow> sub \<noteq> [] \<Longrightarrow> i + length sub \<le> length s"
  by (drule prefix_length_le) (cases sub; simp)

lemma sublist_iff_prefix_drop: "sublist sub s \<longleftrightarrow> (\<exists>i. i \<le> length s \<and> prefix sub (drop i s))"
  by (metis append_take_drop_id drop_all linorder_le_cases order_refl prefix_def sublist_def
      append_eq_conv_conj le_add1 length_append prefixI)

text \<open>Searching from \<open>1 - new - n\<close> skips only occurrences that lie in the old part of the text.\<close>

lemma py_find_restricted:
  assumes "sub \<noteq> []" and "0 < new" and "new \<le> length s" and old: "\<not> sublist sub (take (length s - new) s)"
  shows "py_find s sub (1 - int new - int (length sub)) = py_find s sub 0"
proof -
  let ?a = "length s + 1 - new - length sub"
  have none: "\<not> prefix sub (drop j s)" if "j < ?a" for j
  proof
    assume "prefix sub (drop j s)"
    then have "take (length sub) (drop j s) = sub" by (metis append_eq_conv_conj prefix_def)
    moreover have "take (length sub) (drop j (take (length s - new) s)) = take (length sub) (drop j s)"
      using that by (simp add: drop_take min_def)
    ultimately have "prefix sub (drop j (take (length s - new) s))" by (metis take_is_prefix)
    moreover have "j \<le> length (take (length s - new) s)" using that by simp
    ultimately have "sublist sub (take (length s - new) s)" unfolding sublist_iff_prefix_drop by blast
    with old show False ..
  qed
  have start: "nat (max 0 (1 - int new - int (length sub) + int (length s))) = ?a" by linarith
  have neg: "1 - int new - int (length sub) < 0" using assms(1,2) by (cases sub) auto
  have "find (\<lambda>i. prefix sub (drop i s)) [?a..<Suc (length s)] = find (\<lambda>i. prefix sub (drop i s)) [0..<Suc (length s)]"
  proof (cases "find (\<lambda>i. prefix sub (drop i s)) [0..<Suc (length s)]")
    case None
    then have "\<not> prefix sub (drop i s)" if "i < Suc (length s)" for i using that unfolding find_upt_None by blast
    then show ?thesis unfolding None by (simp only: find_upt_None) blast
  next
    case (Some i)
    then have i: "i < Suc (length s)" "prefix sub (drop i s)" "\<forall>j<i. \<not> prefix sub (drop j s)" unfolding find_upt_Some by auto
    with none have "?a \<le> i" by (metis not_le)
    with i show ?thesis unfolding Some by (simp only: find_upt_Some) auto
  qed
  then show ?thesis using neg start by (simp only: py_find_def Let_def if_True) simp
qed

text \<open>The first occurrence of a string in a text.\<close>

definition first_at :: "string \<Rightarrow> string \<Rightarrow> nat \<Rightarrow> bool" where
  "first_at s text i \<longleftrightarrow> prefix s (drop i text) \<and> i \<le> length text \<and> (\<forall>j<i. \<not> prefix s (drop j text))"

lemma py_find_0: "case py_find text s 0 of i \<Rightarrow> if i = -1 then \<not> sublist s text else first_at s text (nat i) \<and> sublist s text \<and> 0 \<le> i"
proof (cases "find (\<lambda>i. prefix s (drop i text)) [0..<Suc (length text)]")
  case None
  then have "\<not> sublist s text" unfolding find_upt_None sublist_iff_prefix_drop by auto
  with None show ?thesis by (simp add: py_find_def del: upt_Suc)
next
  case (Some i)
  then have "first_at s text i" unfolding find_upt_Some first_at_def by auto
  then have "sublist s text" unfolding sublist_iff_prefix_drop first_at_def by blast
  with Some \<open>first_at s text i\<close> show ?thesis by (simp add: py_find_def del: upt_Suc)
qed

text \<open>A search that covers everything since the last fruitless one.\<close>

lemma check_stop_strings_complete:
  assumes "\<forall>s \<in> set stops. s \<noteq> [] \<and> \<not> sublist s (take (length text - new) text)" and "new \<le> length text"
  shows "case check_stop_strings text new stops inc of
      None \<Rightarrow> \<forall>s \<in> set stops. \<not> sublist s text
    | Some (s, t) \<Rightarrow> s \<in> set stops \<and> (\<exists>i. first_at s text i \<and> sublist s text \<and>
        (if t = -1 then text else take (nat t) text) = take (i + (if inc then length s else 0)) text)"
  using assms
proof (induction stops)
  case (Cons s stops)
  show ?case
  proof (cases "new = 0")
    case True
    with Cons.prems show ?thesis by auto
  next
    case False
    let ?i = "py_find text s (1 - int new - int (length s))"
    have eq: "?i = py_find text s 0" by (rule py_find_restricted) (use Cons.prems False in auto)
    have f: "if ?i = -1 then \<not> sublist s text else first_at s text (nat ?i) \<and> sublist s text \<and> 0 \<le> ?i"
      unfolding eq using py_find_0 by simp
    show ?thesis
    proof (cases "?i = -1")
      case True
      with f have "\<not> sublist s text" by presburger
      have eqc: "check_stop_strings text new (s # stops) inc = check_stop_strings text new stops inc" using True False by simp
      have "\<forall>s \<in> set stops. s \<noteq> [] \<and> \<not> sublist s (take (length text - new) text)" using Cons.prems(1) by simp
      from Cons.IH [OF this Cons.prems(2)] \<open>\<not> sublist s text\<close> show ?thesis
        unfolding eqc by (cases "check_stop_strings text new stops inc") auto
    next
      case False
      with f have i: "first_at s text (nat ?i)" "sublist s text" "0 \<le> ?i" by simp_all
      have "nat ?i + length s \<le> length text"
        using i(1) prefix_drop_length [of s "nat ?i" "text"] Cons.prems(1) by (simp add: first_at_def)
      then show ?thesis using False \<open>new \<noteq> 0\<close> i
        by (auto simp: Let_def nat_add_distrib intro!: exI [of _ "nat ?i"])
    qed
  qed
qed simp

subsection \<open>Generation until a stop string\<close>

fun decoded :: "('d \<Rightarrow> token \<Rightarrow> string \<times> 'd) \<Rightarrow> 'd \<Rightarrow> token list \<Rightarrow> string \<times> 'd" where
  "decoded dec st [] = ([], st)"
| "decoded dec st (t # ts) = (case dec st t of (x, st1) \<Rightarrow> case decoded dec st1 ts of (y, st2) \<Rightarrow> (x @ y, st2))"

lemma decoded_append:
  "decoded dec st (xs @ ys) = (case decoded dec st xs of (x, st1) \<Rightarrow> case decoded dec st1 ys of (y, st2) \<Rightarrow> (x @ y, st2))"
  by (induction xs arbitrary: st) (auto split: prod.splits)

lemma decode_loop_spec:
  "decode_loop dec toks d off = (d1, off1) \<Longrightarrow> off \<le> length (dt_output_text d) \<Longrightarrow>
    d1 = d\<lparr>dt_token_ids := dt_token_ids d @ toks, dt_output_text := dt_output_text d @ fst (decoded dec (dt_decoder d) toks),
           dt_decoder := snd (decoded dec (dt_decoder d) toks)\<rparr> \<and> off \<le> off1 \<and> off1 \<le> length (dt_output_text d1) \<and>
    (dt_min_tokens d = 0 \<longrightarrow> off1 = off)"
proof (induction toks arbitrary: d off)
  case (Cons t toks)
  obtain x st where x: "dec (dt_decoder d) t = (x, st)" by fastforce
  let ?d = "d\<lparr>dt_token_ids := dt_token_ids d @ [t], dt_output_text := dt_output_text d @ x, dt_decoder := st\<rparr>"
  let ?off = "if dt_min_tokens d \<noteq> 0 \<and> int (length (dt_output_token_ids ?d)) \<le> dt_min_tokens d then length (dt_output_text ?d) else off"
  have run: "decode_loop dec toks ?d ?off = (d1, off1)" using Cons.prems(1) x by (simp add: Let_def)
  have "?off \<le> length (dt_output_text ?d)" "off \<le> ?off" using Cons.prems(2) by auto
  with Cons.IH [OF run] x show ?case by (auto split: prod.splits)
qed simp

text \<open>Feeding batches of tokens until an update reports a stop string.\<close>

fun feed :: "('d \<Rightarrow> token \<Rightarrow> string \<times> 'd) \<Rightarrow> token list list \<Rightarrow> 'd detokenizer \<Rightarrow> string option \<times> 'd detokenizer" where
  "feed dec [] d = (None, d)"
| "feed dec (b # bs) d = (case dt_update dec b False d of (None, d1) \<Rightarrow> feed dec bs d1 | (Some s, d1) \<Rightarrow> (Some s, d1))"

lemma dt_update_stop:
  assumes d: "dt_min_tokens d = 0" "\<forall>s \<in> set (dt_stop d). s \<noteq> [] \<and> \<not> sublist s (dt_output_text d)" "dt_prompt_len d \<le> length (dt_token_ids d)"
    and T: "T = dt_output_text d @ fst (decoded dec (dt_decoder d) toks)"
  shows "case dt_update dec toks False d of
      (None, d1) \<Rightarrow> dt_output_text d1 = T \<and> (\<forall>s \<in> set (dt_stop d). \<not> sublist s T) \<and> dt_decoder d1 = snd (decoded dec (dt_decoder d) toks) \<and>
        dt_stop d1 = dt_stop d \<and> dt_min_tokens d1 = 0 \<and> dt_include_stop d1 = dt_include_stop d \<and> dt_prompt_len d1 \<le> length (dt_token_ids d1)
    | (Some s, d1) \<Rightarrow> s \<in> set (dt_stop d) \<and> (\<exists>i. first_at s T i \<and> sublist s T \<and> dt_output_text d1 = take (i + (if dt_include_stop d then length s else 0)) T)"
proof (cases "toks = []")
  case True
  with d T show ?thesis by (simp add: dt_update_def)
next
  case False
  obtain d1 off where run: "decode_loop dec toks d (length (dt_output_text d)) = (d1, off)" by fastforce
  have d1: "d1 = d\<lparr>dt_token_ids := dt_token_ids d @ toks, dt_output_text := T, dt_decoder := snd (decoded dec (dt_decoder d) toks)\<rparr>"
    and off: "off = length (dt_output_text d)" using decode_loop_spec [OF run] d(1) T by auto
  have f: "dt_output_text d1 = T" "dt_stop d1 = dt_stop d" "dt_min_tokens d1 = 0" "dt_include_stop d1 = dt_include_stop d"
    "dt_prompt_len d1 \<le> length (dt_token_ids d1)" "dt_decoder d1 = snd (decoded dec (dt_decoder d) toks)"
    using d by (simp_all add: d1)
  have len: "dt_output_token_ids d1 \<noteq> []" using False d(3) by (simp add: d1 dt_output_token_ids_def)
  have old: "take (length T - (length T - off)) T = dt_output_text d" using T off by simp
  have "\<forall>s \<in> set (dt_stop d). s \<noteq> [] \<and> \<not> sublist s (take (length T - (length T - off)) T)" unfolding old using d(2) .
  note c = check_stop_strings_complete [OF this, of "dt_include_stop d"]
  show ?thesis
  proof (cases "dt_stop d = []")
    case True
    with False run d1 d(1,3) show ?thesis by (simp add: dt_update_def Let_def)
  next
    case stops: False
    have "dt_update dec toks False d = (case check_stop_strings T (length T - off) (dt_stop d) (dt_include_stop d) of
         None \<Rightarrow> (None, d1) | Some (s, t) \<Rightarrow> (Some s, if t \<noteq> -1 then d1\<lparr>dt_output_text := take (nat t) (dt_output_text d1)\<rparr> else d1))"
      using False stops run len f by (simp add: dt_update_def Let_def)
    with c f d1 d(1,3) show ?thesis by (auto split: option.splits prod.splits if_splits)
  qed
qed

lemma feed_spec:
  fixes d :: "'d detokenizer" and dec :: "'d \<Rightarrow> token \<Rightarrow> string \<times> 'd" and bs :: "token list list"
  assumes "dt_min_tokens d = 0" "\<forall>s \<in> set (dt_stop d). s \<noteq> [] \<and> \<not> sublist s (dt_output_text d)" "dt_prompt_len d \<le> length (dt_token_ids d)"
  defines "T \<equiv> \<lambda>n. dt_output_text d @ fst (decoded dec (dt_decoder d) (concat (take n bs)))"
  shows "case feed dec bs d of
      (None, d1) \<Rightarrow> dt_output_text d1 = T (length bs) \<and> (\<forall>s \<in> set (dt_stop d). \<not> sublist s (T (length bs)))
    | (Some s, d1) \<Rightarrow> s \<in> set (dt_stop d) \<and> (\<exists>n < length bs. (\<forall>s' \<in> set (dt_stop d). \<not> sublist s' (T n)) \<and>
        (\<exists>i. first_at s (T (Suc n)) i \<and> sublist s (T (Suc n)) \<and> dt_output_text d1 = take (i + (if dt_include_stop d then length s else 0)) (T (Suc n))))"
  using assms(1-3) unfolding T_def
proof (induction bs arbitrary: d)
  case Nil
  then show ?case by simp
next
  case (Cons b bs)
  define U where "U = dt_output_text d @ fst (decoded dec (dt_decoder d) b)"
  note u = dt_update_stop [OF Cons.prems U_def]
  show ?case
  proof (cases "dt_update dec b False d")
    case (Pair r d1)
    show ?thesis
    proof (cases r)
      case (Some s)
      with u Pair obtain i where i: "s \<in> set (dt_stop d)" "first_at s U i" "sublist s U"
        "dt_output_text d1 = take (i + (if dt_include_stop d then length s else 0)) U" by auto
      have run: "feed dec (b # bs) d = (Some s, d1)" using Pair Some by simp
      show ?thesis unfolding run prod.case option.case
        by (intro conjI exI [of _ 0] exI [of _ i]) (use i Cons.prems(2) in \<open>simp_all add: U_def\<close>)
    next
      case None
      with u Pair have d1: "dt_output_text d1 = U" "\<forall>s \<in> set (dt_stop d). \<not> sublist s U" "dt_decoder d1 = snd (decoded dec (dt_decoder d) b)"
        "dt_stop d1 = dt_stop d" "dt_min_tokens d1 = 0" "dt_include_stop d1 = dt_include_stop d" "dt_prompt_len d1 \<le> length (dt_token_ids d1)" by simp_all
      define V where "V = (\<lambda>n. dt_output_text d @ fst (decoded dec (dt_decoder d) (concat (take n (b # bs)))))"
      have V: "dt_output_text d @ fst (decoded dec (dt_decoder d) (concat (take n (b # bs)))) = V n" for n by (simp add: V_def)
      have T: "U @ fst (decoded dec (dt_decoder d1) (concat (take n bs))) = V (Suc n)" for n
        by (simp add: V_def U_def d1(3) decoded_append split: prod.splits)
      have pre: "\<forall>s \<in> set (dt_stop d1). s \<noteq> [] \<and> \<not> sublist s (dt_output_text d1)" using d1(1,2,4) Cons.prems(2) by simp
      have run: "feed dec (b # bs) d = feed dec bs d1" using Pair None by simp
      from Cons.IH [OF d1(5) pre d1(7)] show ?thesis unfolding run d1(1,4,6) T V
        by (cases "feed dec bs d1"; cases "fst (feed dec bs d1)") (auto, (metis Suc_mono)+)
    qed
  qed
qed

text \<open>C33: stop strings are found as soon as they appear. With no minimum length, for every way the generated tokens arrive in batches and every decoder: as long
  as no update reports a stop string, the text is the decoding of all tokens and contains no stop string; when an update reports one,
  it occurs in the text, no stop string occurred before that batch, and the text is cut right before its first occurrence, or right after it when
  stop strings are included. Searching only the new characters and a margin of the length of the stop string misses nothing.\<close>

theorem stop_strings_never_missed:
  fixes st :: 'd and dec :: "'d \<Rightarrow> token \<Rightarrow> string \<times> 'd" and bs :: "token list list"
  assumes "\<forall>s \<in> set stops. s \<noteq> []"
  defines "T \<equiv> \<lambda>n. fst (decoded dec st (concat (take n bs)))"
  shows "case feed dec bs (new_detokenizer stops 0 inc prompt st) of
      (None, d) \<Rightarrow> dt_output_text d = T (length bs) \<and> (\<forall>s \<in> set stops. \<not> sublist s (T (length bs)))
    | (Some s, d) \<Rightarrow> s \<in> set stops \<and> (\<exists>n < length bs. (\<forall>s' \<in> set stops. \<not> sublist s' (T n)) \<and>
        (\<exists>i. first_at s (T (Suc n)) i \<and> sublist s (T (Suc n)) \<and> dt_output_text d = take (i + (if inc then length s else 0)) (T (Suc n))))"
proof -
  let ?d = "new_detokenizer stops 0 inc prompt st"
  have "dt_min_tokens ?d = 0" "\<forall>s \<in> set (dt_stop ?d). s \<noteq> [] \<and> \<not> sublist s (dt_output_text ?d)" "dt_prompt_len ?d \<le> length (dt_token_ids ?d)"
    using assms(1) by (simp_all add: new_detokenizer_def)
  note spec = feed_spec [OF this, of dec bs]
  have fields: "dt_output_text ?d = []" "dt_decoder ?d = st" "dt_stop ?d = stops" "dt_include_stop ?d = inc" by (simp_all add: new_detokenizer_def)
  show ?thesis using spec unfolding T_def fields append_Nil .
qed

text \<open>A decoder that spells every token as one letter.\<close>

definition letter_decoder :: "unit \<Rightarrow> token \<Rightarrow> string \<times> unit" where
  "letter_decoder u tok = ([char_of (97 + nat tok)], u)"

theorem stop_strings_never_missed_witness:
  "\<exists>d n i. feed letter_decoder [[0, 1], [2, 3]] (new_detokenizer [''bc''] 0 False [] ()) = (Some ''bc'', d) \<and>
     first_at ''bc'' (fst (decoded letter_decoder () (concat (take (Suc n) [[0, 1], [2, 3]])))) i \<and>
     dt_output_text d = take i (fst (decoded letter_decoder () (concat (take (Suc n) [[0, 1], [2, 3]]))))"
proof -
  have "fst (feed letter_decoder [[0, 1], [2, 3]] (new_detokenizer [''bc''] 0 False [] ())) = Some ''bc''" by code_simp
  then obtain d where res: "feed letter_decoder [[0, 1], [2, 3]] (new_detokenizer [''bc''] 0 False [] ()) = (Some ''bc'', d)" by (metis prod.collapse)
  have "\<forall>s \<in> set [''bc'']. s \<noteq> []" by simp
  from stop_strings_never_missed [OF this, where dec = letter_decoder and bs = "[[0, 1], [2, 3]]" and inc = False and prompt = "[]" and st = "()"] show ?thesis
    unfolding res prod.case option.case by auto
qed

subsection \<open>Streaming\<close>

text \<open>One event per engine step: new tokens, whether the engine stopped at a stop token, and whether the request is finished. The client of a
  streaming request receives one piece of text per step, until the request is finished or a stop string is found.\<close>

fun stream_text :: "('d \<Rightarrow> token \<Rightarrow> string \<times> 'd) \<Rightarrow> (token list \<times> bool \<times> bool) list \<Rightarrow> 'd detokenizer \<Rightarrow> string list \<times> bool \<times> 'd detokenizer" where
  "stream_text dec [] d = ([], False, d)"
| "stream_text dec ((toks, stop_terminated, fin) # es) d =
     (case dt_update dec toks stop_terminated d of (s, d1) \<Rightarrow>
      let finished = fin \<or> s \<noteq> None in
      case get_next_output_text finished True d1 of (piece, d2) \<Rightarrow>
      if finished then ([piece], True, d2)
      else case stream_text dec es d2 of (pieces, f, d3) \<Rightarrow> (piece # pieces, f, d3))"

text \<open>What has been sent can no longer belong to a stop string.\<close>

definition stream_inv :: "'d detokenizer \<Rightarrow> bool" where
  "stream_inv d \<longleftrightarrow> 0 \<le> dt_last_offset d \<and> (dt_last_offset d = 0 \<or> dt_last_offset d + dt_stop_buffer_length d \<le> int (length (dt_output_text d))) \<and>
     0 \<le> dt_stop_buffer_length d \<and> (\<forall>s \<in> set (dt_stop d). s \<noteq> [] \<and> (\<not> dt_include_stop d \<longrightarrow> int (length s) \<le> dt_stop_buffer_length d + 1))"

lemma py_find_ge: "py_find s sub start \<noteq> -1 \<Longrightarrow> 0 \<le> py_find s sub start \<and> (start < 0 \<longrightarrow> start + int (length s) \<le> py_find s sub start)"
proof -
  assume ne: "py_find s sub start \<noteq> -1"
  define st where "st = (if start < 0 then max 0 (start + int (length s)) else start)"
  obtain i where i: "find (\<lambda>i. prefix sub (drop i s)) [nat st..<Suc (length s)] = Some i"
    using ne unfolding py_find_def st_def [symmetric] Let_def by (auto split: option.splits)
  have "py_find s sub start = int i" using i unfolding py_find_def st_def [symmetric] Let_def by simp
  moreover have "nat st \<le> i" using i unfolding find_upt_Some by blast
  ultimately show ?thesis by (auto simp: st_def)
qed

lemma check_stop_strings_late:
  "check_stop_strings text new stops inc = Some (s, t) \<Longrightarrow> \<forall>s \<in> set stops. s \<noteq> [] \<Longrightarrow> new \<le> length text \<Longrightarrow>
    s \<in> set stops \<and> (t = -1 \<or> 0 \<le> t \<and> int (length text - new) + 1 - (if inc then 0 else int (length s)) \<le> t)"
proof (induction stops)
  case (Cons x stops)
  let ?i = "py_find text x (1 - int new - int (length x))"
  show ?case
  proof (cases "?i = -1")
    case True
    then have "check_stop_strings text new stops inc = Some (s, t)" using Cons.prems(1) by (simp split: if_splits)
    with Cons.IH Cons.prems(2,3) show ?thesis by simp
  next
    case False
    have "1 - int new - int (length x) < 0" using Cons.prems(1,2) by (cases x) (auto split: if_splits)
    with py_find_ge [OF False] have "0 \<le> ?i" "1 - int new - int (length x) + int (length text) \<le> ?i" by auto
    moreover have "s = x \<and> (t = -1 \<or> t = (if inc then ?i + int (length x) else ?i))"
      using Cons.prems(1) False by (auto simp: Let_def split: if_splits)
    ultimately show ?thesis using Cons.prems(3) by (cases inc) (auto simp: of_nat_diff)
  qed
qed simp

lemma decode_loop_grows:
  assumes "decode_loop dec toks d (length (dt_output_text d)) = (d1, off)"
  shows "prefix (dt_output_text d) (dt_output_text d1)" "length (dt_output_text d) \<le> off" "off \<le> length (dt_output_text d1)"
    "dt_stop d1 = dt_stop d" "dt_include_stop d1 = dt_include_stop d" "dt_stop_buffer_length d1 = dt_stop_buffer_length d"
    "dt_last_offset d1 = dt_last_offset d"
  using decode_loop_spec [OF assms] by (auto simp: prefix_def)

lemma dt_update_stream:
  assumes inv: "stream_inv d" and run: "dt_update dec toks stp d = (r, d1)"
  shows "take (nat (dt_last_offset d)) (dt_output_text d1) = take (nat (dt_last_offset d)) (dt_output_text d) \<and>
    dt_last_offset d1 = dt_last_offset d \<and> dt_last_offset d \<le> int (length (dt_output_text d1)) \<and>
    dt_stop_buffer_length d1 = dt_stop_buffer_length d \<and> (r = None \<longrightarrow> stream_inv d1)"
proof (cases "toks = []")
  case True
  then have "r = None" "d1 = d" using run by (simp_all add: dt_update_def)
  with inv show ?thesis by (simp add: stream_inv_def) linarith
next
  case False
  let ?skip = "stp \<and> \<not> dt_include_stop d"
  obtain d0 off where loop: "decode_loop dec (if ?skip then butlast toks else toks) d (length (dt_output_text d)) = (d0, off)" by fastforce
  note g = decode_loop_grows [OF loop]
  define d2 where "d2 = (if ?skip then d0\<lparr>dt_token_ids := dt_token_ids d0 @ [last toks]\<rparr> else d0)"
  have f: "dt_output_text d2 = dt_output_text d0" "dt_stop d2 = dt_stop d" "dt_include_stop d2 = dt_include_stop d"
    "dt_stop_buffer_length d2 = dt_stop_buffer_length d" "dt_last_offset d2 = dt_last_offset d" using g by (simp_all add: d2_def)
  have low: "dt_last_offset d \<le> int (length (dt_output_text d))" "0 \<le> dt_last_offset d" using inv unfolding stream_inv_def by linarith+
  have same: "take (nat (dt_last_offset d)) (dt_output_text d2) = take (nat (dt_last_offset d)) (dt_output_text d)"
    using g(1) low f(1) by (auto simp: prefix_def)
  have long: "dt_last_offset d \<le> int (length (dt_output_text d2))" using low(1) prefix_length_le [OF g(1)] f(1) by simp
  have keep: "stream_inv d2" using inv prefix_length_le [OF g(1)] unfolding stream_inv_def f by (elim conjE) (intro conjI; (assumption | linarith))
  let ?c = "check_stop_strings (dt_output_text d2) (length (dt_output_text d2) - off) (dt_stop d2) (dt_include_stop d2)"
  have eq: "dt_update dec toks stp d = (if dt_stop d2 \<noteq> [] \<and> int (length (dt_output_token_ids d2)) > dt_min_tokens d2 then
      (case ?c of None \<Rightarrow> (None, d2) | Some (s, t) \<Rightarrow> (Some s, if t \<noteq> -1 then d2\<lparr>dt_output_text := take (nat t) (dt_output_text d2)\<rparr> else d2))
      else (None, d2))"
    unfolding dt_update_def Let_def loop prod.case d2_def [symmetric] using False by (simp only: if_False)
  show ?thesis
  proof (cases "r = None")
    case True
    then have "d1 = d2" using run unfolding eq by (cases ?c) (simp_all split: if_splits prod.splits)
    with True same keep f(4,5) long show ?thesis by simp
  next
    case some: False
    then obtain s t where c: "?c = Some (s, t)" "d1 = (if t \<noteq> -1 then d2\<lparr>dt_output_text := take (nat t) (dt_output_text d2)\<rparr> else d2)"
      using run unfolding eq by (cases ?c) (simp_all split: if_splits prod.splits)
    have st: "\<forall>s \<in> set (dt_stop d2). s \<noteq> []" using keep by (simp add: stream_inv_def)
    from check_stop_strings_late [OF c(1) st] g(3) f
    have late: "s \<in> set (dt_stop d)" "t = -1 \<or> 0 \<le> t \<and> int off + 1 - (if dt_include_stop d then 0 else int (length s)) \<le> t" by auto
    have "t = -1 \<or> dt_last_offset d \<le> t"
      using late inv g(2) by (auto simp: stream_inv_def split: if_splits)
    then show ?thesis
    proof
      assume "t = -1"
      with some c(2) same f(4,5) low long keep show ?thesis by simp
    next
      assume t: "dt_last_offset d \<le> t"
      with low have "t \<noteq> -1" by simp
      with t some c(2) same f(4,5) low long show ?thesis by (auto simp: min_absorb1 nat_mono)
    qed
  qed
qed

lemma next_text_stream:
  assumes last: "0 \<le> dt_last_offset d" "dt_last_offset d \<le> int (length (dt_output_text d))" and run: "get_next_output_text finished True d = (piece, d1)"
    and buf: "0 \<le> dt_stop_buffer_length d"
  shows "take (nat (dt_last_offset d)) (dt_output_text d) @ piece = take (nat (dt_last_offset d1)) (dt_output_text d)"
    "dt_output_text d1 = dt_output_text d" "finished \<Longrightarrow> dt_last_offset d1 = int (length (dt_output_text d))"
    "\<not> finished \<Longrightarrow> stream_inv d \<Longrightarrow> stream_inv d1" "dt_decoder d1 = dt_decoder d"
proof -
  let ?len = "int (length (dt_output_text d)) - (if finished then 0 else dt_stop_buffer_length d)"
  have eq: "(piece, d1) = (if dt_last_offset d < ?len then (drop (nat (dt_last_offset d)) (take (nat ?len) (dt_output_text d)), d\<lparr>dt_last_offset := ?len\<rparr>) else ([], d))"
    using run by (simp add: get_next_output_text_def Let_def)
  have cat: "take (nat (dt_last_offset d)) (dt_output_text d) @ drop (nat (dt_last_offset d)) (take (nat ?len) (dt_output_text d)) = take (nat ?len) (dt_output_text d)"
    if "dt_last_offset d < ?len"
  proof -
    have "take (nat (dt_last_offset d)) (dt_output_text d) = take (nat (dt_last_offset d)) (take (nat ?len) (dt_output_text d))"
      using that by (simp add: min_def)
    then show ?thesis by (simp del: take_take)
  qed
  show "take (nat (dt_last_offset d)) (dt_output_text d) @ piece = take (nat (dt_last_offset d1)) (dt_output_text d)"
    using eq cat by (cases "dt_last_offset d < ?len") simp_all
  show "dt_output_text d1 = dt_output_text d" "dt_decoder d1 = dt_decoder d" using eq by (cases "dt_last_offset d < ?len"; simp)+
  show "finished \<Longrightarrow> dt_last_offset d1 = int (length (dt_output_text d))" using eq last(2) by (cases "dt_last_offset d < ?len") simp_all
  show "\<not> finished \<Longrightarrow> stream_inv d \<Longrightarrow> stream_inv d1" using eq last(1) by (cases "dt_last_offset d < ?len") (simp_all add: stream_inv_def)
qed

lemma stream_text_spec:
  assumes "stream_inv d" and "stream_text dec es d = (pieces, fin, d1)"
  shows "take (nat (dt_last_offset d)) (dt_output_text d) @ concat pieces = take (nat (dt_last_offset d1)) (dt_output_text d1) \<and>
    (fin \<longrightarrow> dt_last_offset d1 = int (length (dt_output_text d1)))"
  using assms
proof (induction es arbitrary: d pieces)
  case (Cons ev es)
  obtain toks stp f where ev: "ev = (toks, stp, f)" by (cases ev)
  obtain r d2 where u: "dt_update dec toks stp d = (r, d2)" by fastforce
  let ?fin = "f \<or> r \<noteq> None"
  obtain piece d3 where n: "get_next_output_text ?fin True d2 = (piece, d3)" by fastforce
  note us = dt_update_stream [OF Cons.prems(1) u]
  have last: "0 \<le> dt_last_offset d2" "dt_last_offset d2 \<le> int (length (dt_output_text d2))" using us Cons.prems(1) by (simp_all add: stream_inv_def)
  have buf: "0 \<le> dt_stop_buffer_length d2" using us Cons.prems(1) by (simp add: stream_inv_def)
  note ns = next_text_stream [OF last n buf]
  have step: "take (nat (dt_last_offset d)) (dt_output_text d) @ piece = take (nat (dt_last_offset d3)) (dt_output_text d3)"
    using us ns(1,2) by simp
  show ?case
  proof (cases ?fin)
    case True
    with Cons.prems(2) ev u n have "pieces = [piece]" "d1 = d3" "fin" by (simp_all add: Let_def)
    with step ns(2,3) True show ?thesis by simp
  next
    case False
    then obtain ps where ps: "stream_text dec es d3 = (ps, fin, d1)" "pieces = piece # ps"
      using Cons.prems(2) ev u n by (auto simp: Let_def split: prod.splits)
    have "stream_inv d3" using us ns(4) False by simp
    from Cons.IH [OF this ps(1)] show ?thesis unfolding ps(2) concat.simps append_assoc [symmetric] step by simp
  qed
qed simp

text \<open>C34: streamed text adds up. For every stream of engine steps, every decoder and every choice of stop strings: the pieces sent to a streaming
  client are a prefix of the final text at any time, and when the request finishes, by the engine or by a stop string (where the text is
  cut), they add up to exactly the final text: no character is sent twice, lost, or sent and later cut off.\<close>

theorem streamed_text_adds_up:
  assumes "\<forall>s \<in> set stops. s \<noteq> []" and "stream_text dec es (new_detokenizer stops min_tokens inc prompt st) = (pieces, fin, d)"
  shows "prefix (concat pieces) (dt_output_text d) \<and> (fin \<longrightarrow> concat pieces = dt_output_text d)"
proof -
  let ?d = "new_detokenizer stops min_tokens inc prompt st"
  have "int (length s) \<le> Max (set (map (int \<circ> length) stops))" if "s \<in> set stops" for s using that by (intro Max_ge) auto
  moreover have "0 < Max (set (map (int \<circ> length) stops))" if "stops \<noteq> []"
    using that assms(1) by (cases stops) (auto simp: Max_gr_iff)
  ultimately have "stream_inv ?d" using assms(1) by (force simp: stream_inv_def new_detokenizer_def)
  from stream_text_spec [OF this assms(2)] show ?thesis by (simp add: new_detokenizer_def take_is_prefix)
qed

theorem streamed_text_adds_up_witness:
  "case stream_text letter_decoder [([0, 1], False, False), ([2, 3], False, False)] (new_detokenizer [''cd''] 0 False [] ()) of
     (pieces, fin, d) \<Rightarrow> fin \<and> concat pieces = dt_output_text d"
proof -
  obtain pieces fin d where r: "stream_text letter_decoder [([0, 1], False, False), ([2, 3], False, False)] (new_detokenizer [''cd''] 0 False [] ()) = (pieces, fin, d)"
    using prod_cases3 by blast
  have "fst (snd (stream_text letter_decoder [([0, 1], False, False), ([2, 3], False, False)] (new_detokenizer [''cd''] 0 False [] ())))" by code_simp
  with streamed_text_adds_up [OF _ r] r show ?thesis by simp
qed

end
