(* ===== verification/Parallel_Sampling.thy ===== *)
theory Parallel_Sampling
  imports Request Detokenizer
begin

text \<open>
  \<open>ParentRequest\<close> of \<open>vllm/v1/engine/parallel_sampling.py\<close> and the output classes of \<open>vllm/outputs.py\<close>: a request for \<open>n\<close> samples is a parent
  with \<open>n\<close> child requests; their completions are collected, or streamed one by one. Log probabilities, LoRA data and metrics are left
  out. The theory shows that the completions are delivered once, complete and in the order of their indices, whatever the order in which the
  children finish.
\<close>

subsection \<open>Outputs\<close>

datatype output_kind = CUMULATIVE | DELTA | FINAL_ONLY

record completion_output =
  co_index :: nat
  co_text :: string
  co_token_ids :: "token list"
  co_finish_reason :: "finish_reason option"
  co_stop_reason :: "stop_reason option"
  co_final_score :: "score option"
  co_score_history :: "score list option"

definition co_finished :: "completion_output \<Rightarrow> bool" where
  "co_finished c \<longleftrightarrow> co_finish_reason c \<noteq> None"

record request_output =
  ro_request_id :: reqid
  ro_prompt_token_ids :: "token list option"
  ro_outputs :: "completion_output option list"
  ro_finished :: bool
  ro_num_cached_tokens :: int
  ro_final_score :: "score option"

text \<open>Merging a later output into an earlier one: completions with the same index are merged or replaced, others appended. A slot
  without a completion has no index to compare.\<close>

definition merge_completion :: "completion_output \<Rightarrow> completion_output \<Rightarrow> completion_output" where
  "merge_completion c d = c\<lparr>co_text := co_text c @ co_text d, co_token_ids := co_token_ids c @ co_token_ids d,
     co_finish_reason := co_finish_reason d, co_stop_reason := co_stop_reason d\<rparr>"

fun add_completion :: "bool \<Rightarrow> completion_output \<Rightarrow> completion_output option list \<Rightarrow> completion_output option list result" where
  "add_completion aggregate d [] = Inr [Some d]"
| "add_completion aggregate d (None # cs) = Inl AttributeError"
| "add_completion aggregate d (Some c # cs) =
     (if co_index c = co_index d then Inr (Some (if aggregate then merge_completion c d else d) # cs)
      else ebind (add_completion aggregate d cs) (\<lambda>cs'. Inr (Some c # cs')))"

fun add_completions :: "bool \<Rightarrow> completion_output option list \<Rightarrow> completion_output option list \<Rightarrow> completion_output option list result" where
  "add_completions aggregate [] cs = Inr cs"
| "add_completions aggregate (None # ds) cs = (if cs = [] then add_completions aggregate ds (cs @ [None]) else Inl AttributeError)"
| "add_completions aggregate (Some d # ds) cs = ebind (add_completion aggregate d cs) (add_completions aggregate ds)"

definition ro_add :: "request_output \<Rightarrow> bool \<Rightarrow> request_output \<Rightarrow> request_output result" where
  "ro_add next_output aggregate ro =
     ebind (add_completions aggregate (ro_outputs next_output) (ro_outputs ro)) (\<lambda>cs.
       Inr (ro\<lparr>ro_finished := (ro_finished ro \<or> ro_finished next_output), ro_outputs := cs,
               ro_final_score := (if ro_final_score next_output \<noteq> None then ro_final_score next_output else ro_final_score ro)\<rparr>))"

subsection \<open>Parent requests\<close>

text \<open>The sampling parameters that the front end reads, around those of the engine.\<close>

record front_params =
  fp_n :: nat
  fp_output_kind :: output_kind
  fp_detokenize :: bool
  fp_stop :: "string list"
  fp_include_stop :: bool
  fp_params :: sampling_params

record parent_request =
  pa_request_id :: reqid
  pa_sampling_params :: front_params
  pa_child_requests :: "reqid set"
  pa_output_aggregator :: "completion_output option list"
  pa_max_num_generation_tokens :: int
  pa_cached_child :: "front_params option"

definition new_parent :: "reqid \<Rightarrow> front_params \<Rightarrow> parent_request" where
  "new_parent rid fp = \<lparr>pa_request_id = rid, pa_sampling_params = fp, pa_child_requests = {},
     pa_output_aggregator = (if fp_output_kind fp = FINAL_ONLY then replicate (fp_n fp) None else []),
     pa_max_num_generation_tokens = 0, pa_cached_child = None\<rparr>"

definition get_child_sampling_params :: "nat \<Rightarrow> parent_request \<Rightarrow> front_params \<times> parent_request" where
  "get_child_sampling_params index p =
     (case pa_cached_child p of
        Some c \<Rightarrow> (c, p)
      | None \<Rightarrow>
          let c = (pa_sampling_params p)\<lparr>fp_n := 1\<rparr> in
          case sp_seed (fp_params (pa_sampling_params p)) of
            None \<Rightarrow> (c, p\<lparr>pa_cached_child := Some c\<rparr>)
          | Some seed \<Rightarrow> (c\<lparr>fp_params := (fp_params c)\<lparr>sp_seed := Some (seed + int index)\<rparr>\<rparr>, p))"

definition child_id :: "nat \<Rightarrow> reqid \<Rightarrow> reqid" where
  "child_id index rid = nat_str index @ ''_'' @ rid"

definition get_child_info :: "nat \<Rightarrow> parent_request \<Rightarrow> (reqid \<times> front_params) \<times> parent_request" where
  "get_child_info index p =
     (let c = child_id index (pa_request_id p) in
      case get_child_sampling_params index (p\<lparr>pa_child_requests := insert c (pa_child_requests p)\<rparr>) of
        (fp, p') \<Rightarrow> ((c, fp), p'))"

definition get_outputs :: "reqid \<Rightarrow> completion_output \<Rightarrow> parent_request \<Rightarrow>
    ((reqid \<times> completion_output option list \<times> bool) \<times> parent_request) result" where
  "get_outputs child co p =
     ebind (if co_finished co then
              (if child \<in> pa_child_requests p then Inr (p\<lparr>pa_child_requests := pa_child_requests p - {child}\<rparr>) else Inl KeyError)
            else Inr p) (\<lambda>p1.
       if fp_output_kind (pa_sampling_params p1) \<noteq> FINAL_ONLY then
         Inr ((pa_request_id p1, [Some co], pa_child_requests p1 = {}), p1)
       else if co_index co \<ge> length (pa_output_aggregator p1) then Inl IndexError
       else
         let p2 = p1\<lparr>pa_output_aggregator := (pa_output_aggregator p1)[co_index co := Some co]\<rparr> in
         Inr ((pa_request_id p2, if pa_child_requests p2 = {} then pa_output_aggregator p2 else [], pa_child_requests p2 = {}), p2))"

definition observe_num_generation_tokens :: "int \<Rightarrow> parent_request \<Rightarrow> int \<times> parent_request" where
  "observe_num_generation_tokens n p =
     (let m = max n (pa_max_num_generation_tokens p) in (m, p\<lparr>pa_max_num_generation_tokens := m\<rparr>))"

text \<open>The statistics of an iteration are the list of pairs of tokens and samples that the method appends to.\<close>

definition observe_finished_request :: "parent_request option \<Rightarrow> (int \<times> nat) list \<Rightarrow> int \<Rightarrow> (int \<times> nat) list \<times> parent_request option" where
  "observe_finished_request parent stats num_generation_tokens =
     (case parent of
        None \<Rightarrow> (stats @ [(num_generation_tokens, 1)], None)
      | Some p \<Rightarrow>
          (case observe_num_generation_tokens num_generation_tokens p of (m, p') \<Rightarrow>
             (if pa_child_requests p' = {} then stats @ [(m, fp_n (pa_sampling_params p))] else stats, Some p')))"

subsection \<open>Child requests\<close>

lemma child_id_inj: "child_id i rid = child_id j rid' \<longleftrightarrow> i = j \<and> rid = rid'"
proof
  assume "child_id i rid = child_id j rid'"
  then have "nat_str i = nat_str j \<and> rid = rid'"
    unfolding child_id_def using split_at_underscore [of "nat_str i" rid "nat_str j" rid'] by (simp add: nat_str_no_underscore)
  then show "i = j \<and> rid = rid'" using nat_str_inj by blast
qed simp

text \<open>The loop in which the front end creates the children.\<close>

fun child_infos :: "nat list \<Rightarrow> parent_request \<Rightarrow> (reqid \<times> front_params) list \<times> parent_request" where
  "child_infos [] p = ([], p)"
| "child_infos (i # is) p = (case get_child_info i p of (c, p1) \<Rightarrow> case child_infos is p1 of (cs, p2) \<Rightarrow> (c # cs, p2))"

text \<open>What every child is created with: one sample, and its own seed when the request has a seed.\<close>

definition child_params :: "front_params \<Rightarrow> nat \<Rightarrow> front_params" where
  "child_params fp i = fp\<lparr>fp_n := 1, fp_params := (fp_params fp)\<lparr>sp_seed := map_option (\<lambda>s. s + int i) (sp_seed (fp_params fp))\<rparr>\<rparr>"

definition parent_ok :: "front_params \<Rightarrow> parent_request \<Rightarrow> bool" where
  "parent_ok fp p \<longleftrightarrow> pa_sampling_params p = fp \<and> (\<forall>c. pa_cached_child p = Some c \<longrightarrow> sp_seed (fp_params fp) = None \<and> c = fp\<lparr>fp_n := 1\<rparr>)"

lemma get_child_info_spec:
  assumes "parent_ok fp p"
  shows "\<exists>p'. get_child_info i p = ((child_id i (pa_request_id p), child_params fp i), p') \<and> parent_ok fp p' \<and>
    pa_child_requests p' = insert (child_id i (pa_request_id p)) (pa_child_requests p) \<and> pa_request_id p' = pa_request_id p \<and>
    pa_output_aggregator p' = pa_output_aggregator p"
proof (cases "sp_seed (fp_params fp)")
  case None
  then have "child_params fp i = fp\<lparr>fp_n := 1\<rparr>" by (simp add: child_params_def)
  with assms None show ?thesis
    by (cases "pa_cached_child p") (auto simp: get_child_info_def get_child_sampling_params_def parent_ok_def Let_def)
next
  case (Some s)
  with assms show ?thesis
    by (cases "pa_cached_child p") (auto simp: get_child_info_def get_child_sampling_params_def parent_ok_def child_params_def Let_def)
qed

lemma child_infos_spec:
  assumes "parent_ok fp p"
  shows "\<exists>p'. child_infos is p = (map (\<lambda>i. (child_id i (pa_request_id p), child_params fp i)) is, p') \<and> parent_ok fp p' \<and>
    pa_child_requests p' = (\<lambda>i. child_id i (pa_request_id p)) ` set is \<union> pa_child_requests p \<and> pa_request_id p' = pa_request_id p \<and>
    pa_output_aggregator p' = pa_output_aggregator p"
  using assms
proof (induction "is" arbitrary: p)
  case (Cons i "is")
  obtain p1 where p1: "get_child_info i p = ((child_id i (pa_request_id p), child_params fp i), p1)" "parent_ok fp p1"
    "pa_child_requests p1 = insert (child_id i (pa_request_id p)) (pa_child_requests p)" "pa_request_id p1 = pa_request_id p"
    "pa_output_aggregator p1 = pa_output_aggregator p" using get_child_info_spec [OF Cons.prems] by blast
  from Cons.IH [OF p1(2)] p1 show ?case by auto
qed simp

subsection \<open>Collecting completions\<close>

fun deliver :: "completion_output list \<Rightarrow> parent_request \<Rightarrow> ((completion_output option list \<times> bool) list \<times> parent_request) result" where
  "deliver [] p = Inr ([], p)"
| "deliver (c # cs) p =
     ebind (get_outputs (child_id (co_index c) (pa_request_id p)) c p) (\<lambda>((_, outs, fin), p1).
     ebind (deliver cs p1) (\<lambda>(rest, p2). Inr ((outs, fin) # rest, p2)))"

lemma deliver_spec:
  assumes c: "\<And>i. co_index (c i) = i \<and> co_finished (c i)" and kind: "fp_output_kind fp = FINAL_ONLY"
  shows "parent_ok fp p \<Longrightarrow> distinct order \<Longrightarrow> order \<noteq> [] \<Longrightarrow> set order \<subseteq> {..<n} \<Longrightarrow> length (pa_output_aggregator p) = n \<Longrightarrow>
    pa_child_requests p = (\<lambda>i. child_id i (pa_request_id p)) ` set order \<Longrightarrow>
    (\<forall>i<n. i \<notin> set order \<longrightarrow> pa_output_aggregator p ! i = Some (c i)) \<Longrightarrow>
    \<exists>p'. deliver (map c order) p = Inr (replicate (length order - 1) ([], False) @ [(map (Some \<circ> c) [0..<n], True)], p') \<and> pa_child_requests p' = {}"
proof (induction order arbitrary: p)
  case (Cons i order)
  let ?cid = "child_id i (pa_request_id p)"
  let ?p = "p\<lparr>pa_child_requests := pa_child_requests p - {?cid}, pa_output_aggregator := (pa_output_aggregator p)[i := Some (c i)]\<rparr>"
  have rest: "pa_child_requests ?p = (\<lambda>i. child_id i (pa_request_id ?p)) ` set order"
    using Cons.prems(2,6) by (auto simp: child_id_inj)
  have agg: "\<forall>j<n. j \<notin> set order \<longrightarrow> pa_output_aggregator ?p ! j = Some (c j)"
    using Cons.prems(4,5,7) by (auto simp: nth_list_update)
  have get: "get_outputs ?cid (c i) p = Inr ((pa_request_id p, if order = [] then pa_output_aggregator ?p else [], order = []), ?p)"
    using Cons.prems(1,4,5,6) c [of i] kind rest by (auto simp: get_outputs_def parent_ok_def Let_def)
  show ?case
  proof (cases "order = []")
    case True
    have "pa_output_aggregator ?p = map (Some \<circ> c) [0..<n]"
      by (rule nth_equalityI) (use agg True Cons.prems(5) in auto)
    with True get rest c [of i] show ?thesis by (intro exI [of _ ?p]) simp
  next
    case False
    have "parent_ok fp ?p" using Cons.prems(1) by (simp add: parent_ok_def)
    from Cons.IH [OF this _ False _ _ rest agg] Cons.prems(2,4,5) obtain p'
      where p': "deliver (map c order) ?p = Inr (replicate (length order - 1) ([], False) @ [(map (Some \<circ> c) [0..<n], True)], p')"
        "pa_child_requests p' = {}" by auto
    have "replicate (length order) ([] :: completion_output option list, False) = ([], False) # replicate (length order - 1) ([], False)"
      using False by (cases order) simp_all
    with p' get c [of i] False show ?thesis by simp
  qed
qed simp

text \<open>Parallel samples are collected. A request for \<open>n\<close> samples creates \<open>n\<close> children with different ids, each for one sample and, when the request has a
  seed, with its own seed. When only the final output is asked for, then in whatever order the children finish: nothing is
  delivered before the last one, and with the last one the completions of all children are delivered, in the order of their
  indices, marked finished.\<close>

lemma parallel_samples_collected:
  assumes "fp_output_kind fp = FINAL_ONLY" and "mset order = mset [0..<n]" and "0 < n" and "fp_n fp = n"
    and "\<forall>i. co_index (c i) = i \<and> co_finished (c i)"
  shows "case child_infos [0..<n] (new_parent rid fp) of (children, p) \<Rightarrow>
    children = map (\<lambda>i. (child_id i rid, child_params fp i)) [0..<n] \<and> distinct (map fst children) \<and>
    (\<exists>p'. deliver (map c order) p = Inr (replicate (n - 1) ([], False) @ [(map (Some \<circ> c) [0..<n], True)], p') \<and> pa_child_requests p' = {})"
proof -
  let ?p = "new_parent rid fp"
  have ok: "parent_ok fp ?p" by (simp add: parent_ok_def new_parent_def)
  obtain p where p: "child_infos [0..<n] ?p = (map (\<lambda>i. (child_id i rid, child_params fp i)) [0..<n], p)" "parent_ok fp p"
    "pa_child_requests p = (\<lambda>i. child_id i rid) ` set [0..<n]" "pa_request_id p = rid" "pa_output_aggregator p = replicate n None"
    using child_infos_spec [OF ok, of "[0..<n]"] assms(1,4) by (auto simp: new_parent_def)
  have order: "distinct order" "set order = {..<n}" "length order = n"
    using assms(2) by (metis distinct_upt mset_eq_imp_distinct_iff, metis atLeast_upt mset_eq_setD, metis diff_zero length_upt mset_eq_length)
  have "\<exists>p'. deliver (map c order) p = Inr (replicate (length order - 1) ([], False) @ [(map (Some \<circ> c) [0..<n], True)], p') \<and> pa_child_requests p' = {}"
    by (rule deliver_spec [of c fp]) (use p order assms in \<open>auto simp: atLeast0LessThan\<close>)
  moreover have "distinct (map (\<lambda>i. child_id i rid) [0..<n])" by (simp add: distinct_map inj_on_def child_id_inj)
  ultimately show ?thesis using p(1) order(3) by (simp add: comp_def)
qed

definition sample_front :: "output_kind \<Rightarrow> nat \<Rightarrow> front_params" where
  "sample_front k n = \<lparr>fp_n = n, fp_output_kind = k, fp_detokenize = True, fp_stop = [], fp_include_stop = False, fp_params = sample_params\<rparr>"

definition sample_completion :: "nat \<Rightarrow> completion_output" where
  "sample_completion i = \<lparr>co_index = i, co_text = nat_str i, co_token_ids = [int i], co_finish_reason = Some STOP, co_stop_reason = None,
     co_final_score = Some (of_nat i), co_score_history = None\<rparr>"

text \<open>When a streaming client falls behind, outputs are merged. The merge keeps the final score and the score history of the earlier completion, which has
  none: those that arrive with the finished completion are lost.\<close>

lemma merged_scores_are_lost:
  assumes "co_index c = co_index d" and "ro_outputs ro = [Some c]" and "ro_outputs ro' = [Some d]"
  shows "\<exists>m. ro_add ro' True ro = Inr m \<and> (\<exists>e. ro_outputs m = [Some e] \<and> co_finish_reason e = co_finish_reason d \<and>
    co_final_score e = co_final_score c \<and> co_score_history e = co_score_history c)"
  using assms by (simp add: ro_add_def merge_completion_def)

end
