(* ===== verification/Output_Processor.thy ===== *)
theory Output_Processor
  imports Parallel_Sampling Scheduler
begin

text \<open>
  \<open>OutputProcessor\<close> and \<open>RequestState\<close> of \<open>vllm/v1/engine/output_processor.py\<close>: the front end's table of requests, the translation of the outputs of the
  engine core into outputs for the client, and the end of requests. Parents and output collectors are objects shared by several entries of
  the table: they live in a store, and the entries hold their addresses. Statistics, tracing, log probabilities and LoRA states are left
  out. The theory shows what one batch of engine outputs does to the table: exactly the finished requests leave it, requests it does not know are
  ignored, and those stopped by a stop string before the engine noticed are reported for abortion.
\<close>

subsection \<open>State\<close>

datatype 'd request_detokenizer = PlainDetok "token list" | TextDetok "'d detokenizer"

record 'd request_state =
  rs_request_id :: reqid
  rs_parent_req :: "nat option"
  rs_request_index :: nat
  rs_output_kind :: output_kind
  rs_prompt_token_ids :: "token list option"
  rs_prompt_embeds :: "bytes list option"
  rs_detokenizer :: "'d request_detokenizer option"
  rs_is_prefilling :: bool
  rs_queue :: "nat option"
  rs_num_cached_tokens :: int

record pooling_output =
  po_request_id :: reqid
  po_data :: bytes
  po_prompt_token_ids :: "token list"
  po_num_cached_tokens :: int
  po_finished :: bool

datatype req_output = RequestOutput request_output | PoolingRequestOutput pooling_output

datatype collected = CollectedOutput req_output | CollectedError exn

record collector =
  cl_aggregate :: bool
  cl_output :: "collected option"

record 'd output_processor =
  op_has_tokenizer :: bool
  op_request_states :: "(reqid, 'd request_state) dict"
  op_parents :: "parent_request list"
  op_parent_requests :: "(reqid, nat) dict"
  op_collectors :: "collector list"

text \<open>An \<open>EngineCoreRequest\<close>; the pooling parameters are the task and the output kind.\<close>

record engine_core_request =
  er_request_id :: reqid
  er_prompt_token_ids :: "token list option"
  er_prompt_embeds :: "bytes list option"
  er_sampling_params :: "front_params option"
  er_pooling_params :: "(string \<times> output_kind) option"
  er_eos_token_id :: "token option"
  er_client_index :: int
  er_arrival_time :: rat
  er_mm_features :: "mm_feature list"
  er_lora_request :: "lora_request option"
  er_cache_salt :: "string option"
  er_priority :: int

text \<open>The decoder: one step, the state after a prompt, and whether the detokenizer keeps the prompt in its list of tokens (the slow one does).\<close>

record 'd decoder =
  dc_step :: "'d \<Rightarrow> token \<Rightarrow> string \<times> 'd"
  dc_init :: "token list \<Rightarrow> 'd"
  dc_keeps_prompt :: bool

definition new_output_processor :: "bool \<Rightarrow> 'd output_processor" where
  "new_output_processor tok = \<lparr>op_has_tokenizer = tok, op_request_states = [], op_parents = [], op_parent_requests = [], op_collectors = []\<rparr>"

definition has_unfinished_requests :: "'d output_processor \<Rightarrow> bool" where
  "has_unfinished_requests op \<longleftrightarrow> length (op_request_states op) > 0"

subsection \<open>Collectors\<close>

definition new_collector :: "output_kind \<Rightarrow> collector" where
  "new_collector k = \<lparr>cl_aggregate = (k = DELTA), cl_output = None\<rparr>"

definition collector_put :: "collected \<Rightarrow> collector \<Rightarrow> collector result" where
  "collector_put out c =
     (case (cl_output c, out) of
        (None, _) \<Rightarrow> Inr (c\<lparr>cl_output := Some out\<rparr>)
      | (Some _, CollectedError _) \<Rightarrow> Inr (c\<lparr>cl_output := Some out\<rparr>)
      | (Some (CollectedOutput (RequestOutput ro)), CollectedOutput (RequestOutput ro')) \<Rightarrow>
          ebind (ro_add ro' (cl_aggregate c) ro) (\<lambda>ro1. Inr (c\<lparr>cl_output := Some (CollectedOutput (RequestOutput ro1))\<rparr>))
      | (Some (CollectedOutput (PoolingRequestOutput _)), CollectedOutput (PoolingRequestOutput _)) \<Rightarrow> Inr (c\<lparr>cl_output := Some out\<rparr>)
      | _ \<Rightarrow> Inr c)"

definition collector_get_nowait :: "collector \<Rightarrow> req_output option result \<times> collector" where
  "collector_get_nowait c =
     (case cl_output c of
        None \<Rightarrow> (Inr None, c)
      | Some (CollectedError e) \<Rightarrow> (Inl e, c\<lparr>cl_output := None\<rparr>)
      | Some (CollectedOutput out) \<Rightarrow> (Inr (Some out), c\<lparr>cl_output := None\<rparr>))"

subsection \<open>Request states\<close>

definition from_new_request :: "'d decoder \<Rightarrow> bool \<Rightarrow> engine_core_request \<Rightarrow> nat option \<Rightarrow> nat \<Rightarrow> nat option \<Rightarrow> 'd request_state result" where
  "from_new_request dc has_tokenizer r parent_req request_index queue =
     ebind (case er_sampling_params r of
              Some fp \<Rightarrow>
                let prompt = (case er_prompt_token_ids r of None \<Rightarrow> [] | Some ts \<Rightarrow> ts) in
                Inr (fp_output_kind fp,
                     Some (if \<not> has_tokenizer \<or> \<not> fp_detokenize fp then PlainDetok []
                           else TextDetok (new_detokenizer (fp_stop fp) (sp_min_tokens (fp_params fp)) (fp_include_stop fp)
                                  (if dc_keeps_prompt dc then prompt else []) (dc_init dc prompt))))
            | None \<Rightarrow> (case er_pooling_params r of None \<Rightarrow> Inl AssertionError | Some (_, k) \<Rightarrow> Inr (k, None))) (\<lambda>(kind, detok).
       Inr \<lparr>rs_request_id = er_request_id r, rs_parent_req = parent_req, rs_request_index = request_index, rs_output_kind = kind,
            rs_prompt_token_ids = er_prompt_token_ids r, rs_prompt_embeds = er_prompt_embeds r, rs_detokenizer = detok,
            rs_is_prefilling = True, rs_queue = queue, rs_num_cached_tokens = 0\<rparr>)"

definition detok_update :: "'d decoder \<Rightarrow> token list \<Rightarrow> bool \<Rightarrow> 'd request_detokenizer \<Rightarrow> string option \<times> 'd request_detokenizer" where
  "detok_update dc toks stop_terminated d =
     (case d of
        PlainDetok ids \<Rightarrow> (None, PlainDetok (ids @ toks))
      | TextDetok t \<Rightarrow> (case dt_update (dc_step dc) toks stop_terminated t of (s, t') \<Rightarrow> (s, TextDetok t')))"

definition detok_text :: "bool \<Rightarrow> bool \<Rightarrow> 'd request_detokenizer \<Rightarrow> string \<times> 'd request_detokenizer" where
  "detok_text finished delta d =
     (case d of
        PlainDetok ids \<Rightarrow> ([], d)
      | TextDetok t \<Rightarrow> (case get_next_output_text finished delta t of (txt, t') \<Rightarrow> (txt, TextDetok t')))"

definition detok_output_ids :: "'d request_detokenizer \<Rightarrow> token list" where
  "detok_output_ids d = (case d of PlainDetok ids \<Rightarrow> ids | TextDetok t \<Rightarrow> dt_output_token_ids t)"

text \<open>The arguments of \<open>make_request_output\<close> that describe a result.\<close>

record result_info =
  ri_new_token_ids :: "token list"
  ri_pooling_output :: "bytes option"
  ri_finish_reason :: "finish_reason option"
  ri_stop_reason :: "stop_reason option"
  ri_final_score :: "score option"
  ri_score_history :: "score list option"

definition new_completion_output :: "result_info \<Rightarrow> 'd request_state \<Rightarrow> (completion_output \<times> 'd request_state) result" where
  "new_completion_output ri rs =
     (case rs_detokenizer rs of
        None \<Rightarrow> Inl AssertionError
      | Some d \<Rightarrow>
          let finished = ri_finish_reason ri \<noteq> None; delta = (rs_output_kind rs = DELTA) in
          (case detok_text finished delta d of (txt, d1) \<Rightarrow>
           Inr (\<lparr>co_index = rs_request_index rs, co_text = txt,
                 co_token_ids = (if delta then ri_new_token_ids ri else detok_output_ids d1),
                 co_finish_reason = ri_finish_reason ri,
                 co_stop_reason = (if finished then ri_stop_reason ri else None),
                 co_final_score = (if finished then ri_final_score ri else None),
                 co_score_history = (if finished then ri_score_history ri else None)\<rparr>, rs\<lparr>rs_detokenizer := Some d1\<rparr>)))"

definition new_request_output :: "reqid \<Rightarrow> completion_output option list \<Rightarrow> bool \<Rightarrow> score option \<Rightarrow> 'd request_state \<Rightarrow> req_output" where
  "new_request_output rid outputs finished final_score rs = RequestOutput
     \<lparr>ro_request_id = rid,
      ro_prompt_token_ids = (case (rs_prompt_token_ids rs, rs_prompt_embeds rs) of
        (None, Some es) \<Rightarrow> Some (replicate (length es) 0) | (p, _) \<Rightarrow> p),
      ro_outputs = outputs, ro_finished = finished, ro_num_cached_tokens = rs_num_cached_tokens rs, ro_final_score = final_score\<rparr>"

definition new_pooling_request_output :: "reqid \<Rightarrow> bytes \<Rightarrow> bool \<Rightarrow> 'd request_state \<Rightarrow> req_output result" where
  "new_pooling_request_output rid data finished rs =
     (case rs_prompt_token_ids rs of
        None \<Rightarrow> Inl AssertionError
      | Some p \<Rightarrow> Inr (PoolingRequestOutput \<lparr>po_request_id = rid, po_data = data, po_prompt_token_ids = p,
                       po_num_cached_tokens = rs_num_cached_tokens rs, po_finished = finished\<rparr>))"

definition make_request_output :: "result_info \<Rightarrow> 'd request_state \<Rightarrow> parent_request list \<Rightarrow>
    (req_output option \<times> 'd request_state \<times> parent_request list) result" where
  "make_request_output ri rs ps =
     (let finished = ri_finish_reason ri \<noteq> None in
      if \<not> finished \<and> rs_output_kind rs = FINAL_ONLY then Inr (None, rs, ps)
      else case ri_pooling_output ri of
        Some data \<Rightarrow> ebind (new_pooling_request_output (rs_request_id rs) data finished rs) (\<lambda>out. Inr (Some out, rs, ps))
      | None \<Rightarrow>
          ebind (new_completion_output ri rs) (\<lambda>(co, rs1).
            case rs_parent_req rs1 of
              None \<Rightarrow> Inr (Some (new_request_output (rs_request_id rs1) [Some co] finished (ri_final_score ri) rs1), rs1, ps)
            | Some a \<Rightarrow>
                ebind (get_outputs (rs_request_id rs1) co (ps ! a)) (\<lambda>((rid, outputs, fin), p').
                  Inr (if outputs = [] then None else Some (new_request_output rid outputs fin (ri_final_score ri) rs1),
                       rs1, ps[a := p']))))"

subsection \<open>The processor\<close>

definition op_add_request :: "'d decoder \<Rightarrow> engine_core_request \<Rightarrow> nat option \<Rightarrow> nat \<Rightarrow> nat option \<Rightarrow> 'd output_processor \<Rightarrow>
    'd output_processor result" where
  "op_add_request dc r parent_req request_index queue op =
     (if er_request_id r \<in> keyset (op_request_states op) then Inl ValueError
      else ebind (from_new_request dc (op_has_tokenizer op) r parent_req request_index queue) (\<lambda>rs.
        Inr (op\<lparr>op_request_states := AList.update (er_request_id r) rs (op_request_states op),
                op_parent_requests := (case parent_req of
                    None \<Rightarrow> op_parent_requests op
                  | Some a \<Rightarrow> AList.update (pa_request_id (op_parents op ! a)) a (op_parent_requests op))\<rparr>)))"

text \<open>Putting an output where the client waits for it: into the queue of the request, or else onto the list that is returned.\<close>

definition emit :: "req_output option \<Rightarrow> nat option \<Rightarrow> req_output list \<times> 'd output_processor \<Rightarrow> (req_output list \<times> 'd output_processor) result" where
  "emit out queue st =
     (case (out, queue, st) of
        (None, _, _) \<Rightarrow> Inr st
      | (Some ro, None, (outs, op)) \<Rightarrow> Inr (outs @ [ro], op)
      | (Some ro, Some q, (outs, op)) \<Rightarrow>
          ebind (collector_put (CollectedOutput ro) (op_collectors op ! q)) (\<lambda>c.
            Inr (outs, op\<lparr>op_collectors := (op_collectors op)[q := c]\<rparr>)))"

text \<open>Aborting: entries of the table, with a final output when there is a queue; or a parent, with all its children first. The order in
  which Python lists the set of children is a parameter. The nesting of the recursion is bounded by a fuel argument. One level is enough
  as long as no child is itself a parent, which \<open>op_abort_returns\<close> below shows.\<close>

definition abort_info :: "'d request_state \<Rightarrow> result_info" where
  "abort_info rs = \<lparr>ri_new_token_ids = [], ri_pooling_output = (if rs_detokenizer rs = None then Some [] else None),
     ri_finish_reason = Some ABORT, ri_stop_reason = None, ri_final_score = None, ri_score_history = None\<rparr>"

definition abort_state :: "'d request_state \<Rightarrow> 'd output_processor \<Rightarrow> 'd output_processor result" where
  "abort_state rs op =
     (case rs_queue rs of
        None \<Rightarrow> Inr op
      | Some q \<Rightarrow>
          ebind (make_request_output (abort_info rs) rs (op_parents op)) (\<lambda>(out, rs1, ps).
          ebind (emit out (Some q) ([], op\<lparr>op_parents := ps\<rparr>)) (\<lambda>(_, op1). Inr op1)))"

fun op_abort_requests :: "nat \<Rightarrow> (reqid set \<Rightarrow> reqid list) \<Rightarrow> reqid list \<Rightarrow> 'd output_processor \<Rightarrow> (reqid list \<times> 'd output_processor) result" where
  "op_abort_requests fuel ord [] op = Inr ([], op)"
| "op_abort_requests fuel ord (rid # rids) op =
     ebind (case map_of (op_request_states op) rid of
              Some rs \<Rightarrow>
                ebind (abort_state rs (op\<lparr>op_request_states := AList.delete rid (op_request_states op)\<rparr>)) (\<lambda>op1. Inr ([rid], op1))
            | None \<Rightarrow>
                (case map_of (op_parent_requests op) rid of
                   None \<Rightarrow> Inr ([], op)
                 | Some a \<Rightarrow>
                     let children = pa_child_requests (op_parents op ! a) in
                     ebind (if children = {} then Inr ([], op)
                            else case fuel of
                              0 \<Rightarrow> Inl RuntimeError
                            | Suc f \<Rightarrow> op_abort_requests f ord (ord children) op) (\<lambda>(ids, op1).
                       Inr (ids, op1\<lparr>op_parent_requests := AList.delete rid (op_parent_requests op1)\<rparr>)))) (\<lambda>(ids, op1).
     ebind (op_abort_requests fuel ord rids op1) (\<lambda>(ids', op2). Inr (ids @ ids', op2)))"

subsection \<open>Processing engine outputs\<close>

text \<open>One engine output: the returned client outputs, the requests to abort, and the processor.\<close>

definition process_one :: "'d decoder \<Rightarrow> engine_core_output \<Rightarrow> req_output list \<times> reqid list \<times> 'd output_processor \<Rightarrow>
    (req_output list \<times> reqid list \<times> 'd output_processor) result" where
  "process_one dc eo = (\<lambda>(outs, aborts, op).
     case map_of (op_request_states op) (eo_request_id eo) of
       None \<Rightarrow> Inr (outs, aborts, op)
     | Some rs0 \<Rightarrow>
         let rid = eo_request_id eo;
             rs = rs0\<lparr>rs_num_cached_tokens := eo_num_cached_tokens eo, rs_is_prefilling := False\<rparr> in
         (case rs_detokenizer rs of
            None \<Rightarrow> Inl AssertionError
          | Some d \<Rightarrow>
              (case detok_update dc (eo_new_token_ids eo) (eo_finish_reason eo = Some STOP) d of (stop_string, d1) \<Rightarrow>
               let stopped = (case stop_string of Some s \<Rightarrow> s \<noteq> [] | None \<Rightarrow> False);
                   finish_reason = (if stopped then Some STOP else eo_finish_reason eo);
                   stop_reason = (if stopped then map_option StopText stop_string else eo_stop_reason eo);
                   ri = \<lparr>ri_new_token_ids = eo_new_token_ids eo, ri_pooling_output = None, ri_finish_reason = finish_reason,
                         ri_stop_reason = stop_reason, ri_final_score = eo_final_score eo, ri_score_history = eo_score_history eo\<rparr> in
               ebind (make_request_output ri (rs\<lparr>rs_detokenizer := Some d1\<rparr>) (op_parents op)) (\<lambda>(out, rs1, ps).
               ebind (emit out (rs_queue rs1) (outs, op\<lparr>op_request_states := AList.update rid rs1 (op_request_states op), op_parents := ps\<rparr>))
                 (\<lambda>(outs1, op1).
                   if finish_reason = None then Inr (outs1, aborts, op1)
                   else
                     let op2 = op1\<lparr>op_request_states := AList.delete rid (op_request_states op1),
                           op_parent_requests := (case rs_parent_req rs1 of
                               Some a \<Rightarrow> if pa_child_requests (op_parents op1 ! a) = {}
                                          then AList.delete (pa_request_id (op_parents op1 ! a)) (op_parent_requests op1)
                                          else op_parent_requests op1
                             | None \<Rightarrow> op_parent_requests op1)\<rparr>
                     in Inr (outs1, if eo_finish_reason eo = None then aborts @ [rid] else aborts, op2))))))"

fun process_loop :: "'d decoder \<Rightarrow> engine_core_output list \<Rightarrow> req_output list \<times> reqid list \<times> 'd output_processor \<Rightarrow>
    (req_output list \<times> reqid list \<times> 'd output_processor) result" where
  "process_loop dc [] st = Inr st"
| "process_loop dc (eo # eos) st = ebind (process_one dc eo st) (process_loop dc eos)"

definition process_outputs :: "'d decoder \<Rightarrow> engine_core_output list \<Rightarrow> 'd output_processor \<Rightarrow>
    (req_output list \<times> reqid list \<times> 'd output_processor) result" where
  "process_outputs dc eos op = process_loop dc eos ([], [], op)"

subsection \<open>The invariant of the table\<close>

text \<open>Without queues, as the synchronous engine uses the processor: every entry is a text request, and a child is registered with its
  parent, which has a slot for its completion.\<close>

definition state_ok :: "parent_request list \<Rightarrow> reqid \<Rightarrow> 'd request_state \<Rightarrow> bool" where
  "state_ok ps rid rs \<longleftrightarrow> rs_request_id rs = rid \<and> rs_detokenizer rs \<noteq> None \<and> rs_queue rs = None \<and>
     (case rs_parent_req rs of
        None \<Rightarrow> True
      | Some a \<Rightarrow> a < length ps \<and> rid \<in> pa_child_requests (ps ! a) \<and>
          (fp_output_kind (pa_sampling_params (ps ! a)) = FINAL_ONLY \<longrightarrow> rs_request_index rs < length (pa_output_aggregator (ps ! a))))"

definition op_ok :: "'d output_processor \<Rightarrow> bool" where
  "op_ok op \<longleftrightarrow> wf_dict (op_request_states op) \<and> (\<forall>rid rs. map_of (op_request_states op) rid = Some rs \<longrightarrow> state_ok (op_parents op) rid rs)"

text \<open>The parents: their ids have no underscore, those of their children do, and no parent is in the table.\<close>

definition parents_flat :: "'d output_processor \<Rightarrow> bool" where
  "parents_flat op \<longleftrightarrow> wf_dict (op_parent_requests op) \<and> (\<forall>rid a. map_of (op_parent_requests op) rid = Some a \<longrightarrow>
     CHR ''_'' \<notin> set rid \<and> rid \<notin> keyset (op_request_states op) \<and> a < length (op_parents op) \<and>
     finite (pa_child_requests (op_parents op ! a)) \<and> (\<forall>c \<in> pa_child_requests (op_parents op ! a). CHR ''_'' \<in> set c))"

text \<open>What a result does to the parents: only the finished child leaves its parent, and no slot is lost.\<close>

definition parents_step :: "reqid set \<Rightarrow> parent_request list \<Rightarrow> parent_request list \<Rightarrow> bool" where
  "parents_step gone ps ps' \<longleftrightarrow> length ps' = length ps \<and> (\<forall>a < length ps. pa_child_requests (ps ! a) - gone \<subseteq> pa_child_requests (ps' ! a) \<and>
     pa_child_requests (ps' ! a) \<subseteq> pa_child_requests (ps ! a) \<and>
     pa_sampling_params (ps' ! a) = pa_sampling_params (ps ! a) \<and> length (pa_output_aggregator (ps' ! a)) = length (pa_output_aggregator (ps ! a)) \<and>
     pa_request_id (ps' ! a) = pa_request_id (ps ! a))"

lemma parents_flat_step:
  assumes flat: "parents_flat op" and ps: "parents_step gone (op_parents op) (op_parents op')"
    and sub: "keyset (op_request_states op') \<subseteq> keyset (op_request_states op)"
    and par: "op_parent_requests op' = op_parent_requests op \<or> (\<exists>r. op_parent_requests op' = AList.delete r (op_parent_requests op))"
  shows "parents_flat op'"
proof -
  have wf: "wf_dict (op_parent_requests op')" using flat par by (auto simp: parents_flat_def)
  have some: "map_of (op_parent_requests op) rid = Some a" if "map_of (op_parent_requests op') rid = Some a" for rid a
    using that par by (auto simp: dict_simps split: if_splits)
  show ?thesis unfolding parents_flat_def
  proof (intro conjI allI impI wf)
    fix rid a assume "map_of (op_parent_requests op') rid = Some a"
    from some [OF this] flat have f: "CHR ''_'' \<notin> set rid" "rid \<notin> keyset (op_request_states op)" "a < length (op_parents op)"
      "finite (pa_child_requests (op_parents op ! a))" "\<forall>c \<in> pa_child_requests (op_parents op ! a). CHR ''_'' \<in> set c" unfolding parents_flat_def by blast+
    have ch: "length (op_parents op') = length (op_parents op)" "pa_child_requests (op_parents op' ! a) \<subseteq> pa_child_requests (op_parents op ! a)"
      using ps f(3) by (auto simp: parents_step_def)
    show "CHR ''_'' \<notin> set rid" by (rule f(1))
    show "rid \<notin> keyset (op_request_states op')" using f(2) sub by blast
    show "a < length (op_parents op')" using f(3) ch(1) by simp
    show "finite (pa_child_requests (op_parents op' ! a))" using ch(2) f(4) by (rule finite_subset)
    show "\<forall>c \<in> pa_child_requests (op_parents op' ! a). CHR ''_'' \<in> set c" using ch(2) f(5) by blast
  qed
qed

lemma parents_step_refl: "parents_step gone ps ps"
  by (auto simp: parents_step_def)

lemma state_ok_step: "parents_step gone ps ps' \<Longrightarrow> state_ok ps rid rs \<Longrightarrow> rid \<notin> gone \<Longrightarrow> state_ok ps' rid rs"
  by (auto simp: state_ok_def parents_step_def split: option.splits)

lemma get_outputs_total:
  assumes "co_finished co \<longrightarrow> child \<in> pa_child_requests p"
    and "fp_output_kind (pa_sampling_params p) = FINAL_ONLY \<longrightarrow> co_index co < length (pa_output_aggregator p)"
  shows "\<exists>outs fin p'. get_outputs child co p = Inr ((pa_request_id p, outs, fin), p') \<and>
    pa_child_requests p' = (if co_finished co then pa_child_requests p - {child} else pa_child_requests p) \<and>
    pa_sampling_params p' = pa_sampling_params p \<and> length (pa_output_aggregator p') = length (pa_output_aggregator p) \<and> pa_request_id p' = pa_request_id p"
  using assms by (cases "co_finished co") (auto simp: get_outputs_def Let_def)

lemma make_request_output_total:
  assumes rs: "state_ok ps rid rs" and ri: "ri_pooling_output ri = None"
  shows "\<exists>out rs' ps'. make_request_output ri rs ps = Inr (out, rs', ps') \<and>
    parents_step (if ri_finish_reason ri = None then {} else {rid}) ps ps' \<and>
    rs_request_id rs' = rid \<and> rs_detokenizer rs' \<noteq> None \<and> rs_queue rs' = None \<and> rs_parent_req rs' = rs_parent_req rs \<and> rs_request_index rs' = rs_request_index rs"
proof (cases "ri_finish_reason ri = None \<and> rs_output_kind rs = FINAL_ONLY")
  case True
  with rs show ?thesis by (auto simp: make_request_output_def state_ok_def parents_step_def)
next
  case False
  obtain d where d: "rs_detokenizer rs = Some d" using rs by (auto simp: state_ok_def)
  obtain x d1 where x: "detok_text (ri_finish_reason ri \<noteq> None) (rs_output_kind rs = DELTA) d = (x, d1)" by fastforce
  obtain co where co: "new_completion_output ri rs = Inr (co, rs\<lparr>rs_detokenizer := Some d1\<rparr>)" "co_index co = rs_request_index rs"
    "co_finish_reason co = ri_finish_reason ri" using d x by (simp add: new_completion_output_def Let_def)
  show ?thesis
  proof (cases "rs_parent_req rs")
    case None
    with False co ri rs show ?thesis by (auto simp: make_request_output_def state_ok_def parents_step_def Let_def)
  next
    case (Some a)
    with rs have a: "a < length ps" "rid \<in> pa_child_requests (ps ! a)" "rs_request_id rs = rid"
      "fp_output_kind (pa_sampling_params (ps ! a)) = FINAL_ONLY \<longrightarrow> co_index co < length (pa_output_aggregator (ps ! a))"
      by (auto simp: state_ok_def co(2))
    obtain outs fin p' where p': "get_outputs rid co (ps ! a) = Inr ((pa_request_id (ps ! a), outs, fin), p')"
      "pa_child_requests p' = (if co_finished co then pa_child_requests (ps ! a) - {rid} else pa_child_requests (ps ! a))"
      "pa_sampling_params p' = pa_sampling_params (ps ! a)" "length (pa_output_aggregator p') = length (pa_output_aggregator (ps ! a))"
      "pa_request_id p' = pa_request_id (ps ! a)"
      using get_outputs_total [of co rid "ps ! a"] a by blast
    have "parents_step (if ri_finish_reason ri = None then {} else {rid}) ps (ps[a := p'])"
    proof -
      have "pa_child_requests (ps ! a) - (if ri_finish_reason ri = None then {} else {rid}) \<subseteq> pa_child_requests p'"
        "pa_child_requests p' \<subseteq> pa_child_requests (ps ! a)" unfolding p'(2) co_finished_def co(3) by simp_all
      with p'(3-5) show ?thesis unfolding parents_step_def by (metis Diff_subset length_list_update nth_list_update_eq nth_list_update_neq order_refl)
    qed
    with False Some co ri rs a p'(1) show ?thesis by (auto simp: make_request_output_def state_ok_def Let_def)
  qed
qed

text \<open>One engine output: the entry leaves the table when the output or a stop string finishes it.\<close>

lemma process_one_spec:
  assumes ok: "op_ok op"
  shows "\<exists>outs' stop op'. process_one dc eo (outs, aborts, op) = Inr (outs', aborts @ stop, op') \<and> op_ok op' \<and> (parents_flat op \<longrightarrow> parents_flat op') \<and>
    (stop = [] \<or> stop = [eo_request_id eo] \<and> eo_finish_reason eo = None \<and> eo_request_id eo \<in> keyset (op_request_states op)) \<and>
    keyset (op_request_states op') = keyset (op_request_states op) - (if eo_finish_reason eo = None then set stop else {eo_request_id eo})"
proof (cases "map_of (op_request_states op) (eo_request_id eo)")
  case None
  then have "eo_request_id eo \<notin> keyset (op_request_states op)" by (simp add: map_of_None_iff)
  with None ok show ?thesis by (auto simp: process_one_def)
next
  case (Some rs0)
  let ?rid = "eo_request_id eo"
  have rid: "?rid \<in> keyset (op_request_states op)" using Some by (rule map_of_in_keys)
  have rs0: "state_ok (op_parents op) ?rid rs0" using ok Some by (simp add: op_ok_def)
  then obtain d where d: "rs_detokenizer rs0 = Some d" by (auto simp: state_ok_def)
  obtain ss d1 where u: "detok_update dc (eo_new_token_ids eo) (eo_finish_reason eo = Some STOP) d = (ss, d1)" by fastforce
  define stopped where "stopped = (case ss of Some s \<Rightarrow> s \<noteq> [] | None \<Rightarrow> False)"
  define fr where "fr = (if stopped then Some STOP else eo_finish_reason eo)"
  define ri where "ri = \<lparr>ri_new_token_ids = eo_new_token_ids eo, ri_pooling_output = None, ri_finish_reason = fr,
    ri_stop_reason = (if stopped then map_option StopText ss else eo_stop_reason eo), ri_final_score = eo_final_score eo, ri_score_history = eo_score_history eo\<rparr>"
  define rs where "rs = rs0\<lparr>rs_num_cached_tokens := eo_num_cached_tokens eo, rs_is_prefilling := False, rs_detokenizer := Some d1\<rparr>"
  have rsok: "state_ok (op_parents op) ?rid rs" using rs0 by (auto simp: rs_def state_ok_def split: option.splits)
  obtain out rs1 ps where m: "make_request_output ri rs (op_parents op) = Inr (out, rs1, ps)"
    "parents_step (if fr = None then {} else {?rid}) (op_parents op) ps"
    "rs_request_id rs1 = ?rid" "rs_detokenizer rs1 \<noteq> None" "rs_queue rs1 = None" "rs_parent_req rs1 = rs_parent_req rs" "rs_request_index rs1 = rs_request_index rs"
    using make_request_output_total [OF rsok, of ri] by (auto simp: ri_def)
  define op1 where "op1 = op\<lparr>op_request_states := AList.update ?rid rs1 (op_request_states op), op_parents := ps\<rparr>"
  obtain outs1 where e: "emit out (rs_queue rs1) (outs, op1) = Inr (outs1, op1)" using m(5) by (cases out) (simp_all add: emit_def)
  define op2 where "op2 = op1\<lparr>op_request_states := AList.delete ?rid (op_request_states op1),
    op_parent_requests := (case rs_parent_req rs1 of Some a \<Rightarrow> if pa_child_requests (op_parents op1 ! a) = {}
      then AList.delete (pa_request_id (op_parents op1 ! a)) (op_parent_requests op1) else op_parent_requests op1 | None \<Rightarrow> op_parent_requests op1)\<rparr>"
  have run: "process_one dc eo (outs, aborts, op) =
      (if fr = None then Inr (outs1, aborts, op1) else Inr (outs1, if eo_finish_reason eo = None then aborts @ [?rid] else aborts, op2))"
    using Some d u m(1) e unfolding process_one_def by (simp add: stopped_def [symmetric] fr_def [symmetric] ri_def [symmetric] rs_def [symmetric] op1_def [symmetric])
      (auto simp: Let_def op2_def)
  show ?thesis
  proof (cases "fr = None")
    case True
    then have "eo_finish_reason eo = None" by (simp add: fr_def split: if_splits)
    moreover have "state_ok ps ?rid rs1" using rsok m(2-7) True by (auto simp: state_ok_def parents_step_def split: option.splits)
    then have "op_ok op1" using ok m(2) True by (auto simp: op_ok_def op1_def dict_simps intro: state_ok_step)
    moreover have "parents_flat op \<longrightarrow> parents_flat op1"
      using parents_flat_step [of op "{}" op1] m(2) True rid by (auto simp: op1_def insert_absorb simp del: set_map)
    ultimately show ?thesis using run True rid by (simp add: op1_def insert_absorb del: set_map)
  next
    case False
    have "op_ok op2" using ok m(2) False by (auto simp: op_ok_def op1_def op2_def dict_simps intro: state_ok_step)
    moreover have "parents_flat op \<longrightarrow> parents_flat op2"
    proof
      have par: "op_parent_requests op2 = op_parent_requests op \<or> (\<exists>r. op_parent_requests op2 = AList.delete r (op_parent_requests op))"
        by (auto simp: op2_def op1_def split: option.splits)
      show "parents_flat op2" if "parents_flat op"
        by (rule parents_flat_step [OF that, where gone = "{?rid}"]) (use m(2) False par in \<open>auto simp: op1_def op2_def simp del: set_map\<close>)
    qed
    ultimately show ?thesis using run False rid by (cases "eo_finish_reason eo = None") (auto simp: op1_def op2_def)
  qed
qed

text \<open>The ids that a batch of engine outputs finishes.\<close>

definition finished_ids :: "engine_core_output list \<Rightarrow> reqid set" where
  "finished_ids eos = eo_request_id ` {eo \<in> set eos. eo_finish_reason eo \<noteq> None}"

lemma process_loop_spec:
  assumes "op_ok op"
  shows "\<exists>outs' stop op'. process_loop dc eos (outs, aborts, op) = Inr (outs', aborts @ stop, op') \<and> op_ok op' \<and> (parents_flat op \<longrightarrow> parents_flat op') \<and>
    distinct stop \<and> set stop \<subseteq> keyset (op_request_states op) \<and> set stop \<subseteq> eo_request_id ` {eo \<in> set eos. eo_finish_reason eo = None} \<and>
    keyset (op_request_states op') = keyset (op_request_states op) - finished_ids eos - set stop"
  using assms
proof (induction eos arbitrary: outs aborts op)
  case Nil
  then show ?case by (simp add: finished_ids_def)
next
  case (Cons eo eos)
  let ?rid = "eo_request_id eo" and ?K = "keyset (op_request_states op)"
  obtain outs1 stop1 op1 where 1: "process_one dc eo (outs, aborts, op) = Inr (outs1, aborts @ stop1, op1)" "op_ok op1"
    "stop1 = [] \<or> stop1 = [?rid] \<and> eo_finish_reason eo = None \<and> ?rid \<in> ?K"
    "keyset (op_request_states op1) = ?K - (if eo_finish_reason eo = None then set stop1 else {?rid})" "parents_flat op \<longrightarrow> parents_flat op1"
    using process_one_spec [OF Cons.prems, of dc eo outs aborts] by (elim exE conjE) (rule that; assumption)
  obtain outs2 stop2 op2 where 2: "process_loop dc eos (outs1, aborts @ stop1, op1) = Inr (outs2, (aborts @ stop1) @ stop2, op2)" "op_ok op2"
    "distinct stop2" "set stop2 \<subseteq> keyset (op_request_states op1)" "set stop2 \<subseteq> eo_request_id ` {eo \<in> set eos. eo_finish_reason eo = None}"
    "keyset (op_request_states op2) = keyset (op_request_states op1) - finished_ids eos - set stop2" "parents_flat op1 \<longrightarrow> parents_flat op2"
    using Cons.IH [OF 1(2), of outs1 "aborts @ stop1"] by (elim exE conjE) (rule that; assumption)
  have fin: "finished_ids (eo # eos) = (if eo_finish_reason eo = None then {} else {?rid}) \<union> finished_ids eos" by (auto simp: finished_ids_def)
  have run: "process_loop dc (eo # eos) (outs, aborts, op) = Inr (outs2, aborts @ stop1 @ stop2, op2)" using 1(1) 2(1) by simp
  have "distinct (stop1 @ stop2)" using 1(3,4) 2(3,4) by auto
  moreover have "set stop1 \<subseteq> ?K" using 1(3) by (elim disjE conjE) simp_all
  moreover have "set stop2 \<subseteq> ?K" using 2(4) unfolding 1(4) by blast
  moreover have "set (stop1 @ stop2) \<subseteq> eo_request_id ` {eo' \<in> set (eo # eos). eo_finish_reason eo' = None}" using 1(3) 2(5) by auto
  moreover have "keyset (op_request_states op2) = ?K - finished_ids (eo # eos) - set (stop1 @ stop2)"
    using 1(3) unfolding fin 2(6) 1(4) set_append by (elim disjE conjE) auto
  ultimately show ?case using run 2(2) 1(5) 2(7) by (intro exI [of _ outs2] exI [of _ "stop1 @ stop2"] exI [of _ op2]) simp
qed

lemma process_outputs_spec:
  assumes "op_ok op"
  shows "\<exists>outs aborts op'. process_outputs dc eos op = Inr (outs, aborts, op') \<and> op_ok op' \<and> (parents_flat op \<longrightarrow> parents_flat op') \<and>
    distinct aborts \<and> set aborts \<subseteq> keyset (op_request_states op) \<and> set aborts \<subseteq> eo_request_id ` {eo \<in> set eos. eo_finish_reason eo = None} \<and>
    keyset (op_request_states op') = keyset (op_request_states op) - finished_ids eos - set aborts"
  using process_loop_spec [OF assms, of dc eos "[]" "[]"] by (simp add: process_outputs_def)

subsection \<open>Aborting\<close>

definition children_of :: "'d output_processor \<Rightarrow> reqid \<Rightarrow> reqid set" where
  "children_of op rid = (case map_of (op_parent_requests op) rid of None \<Rightarrow> {} | Some a \<Rightarrow> pa_child_requests (op_parents op ! a))"

lemma children_of_states [simp]: "children_of (op\<lparr>op_request_states := sts\<rparr>) r = children_of op r"
  by (simp add: children_of_def split: option.split)

lemma abort_state_no_queue: "op_ok op \<Longrightarrow> map_of (op_request_states op) rid = Some rs \<Longrightarrow> abort_state rs op' = Inr op'"
  by (auto simp: abort_state_def op_ok_def state_ok_def)

lemma op_ok_delete: "op_ok op \<Longrightarrow> op_ok (op\<lparr>op_request_states := AList.delete rid (op_request_states op)\<rparr>)"
  by (auto simp: op_ok_def dict_simps)

lemma parents_flat_delete: "parents_flat op \<Longrightarrow> parents_flat (op\<lparr>op_request_states := AList.delete rid (op_request_states op)\<rparr>)"
  by (erule parents_flat_step [where gone = "{}"]) (auto simp: parents_step_refl)

lemma parents_flat_children:
  "parents_flat op \<Longrightarrow> map_of (op_parent_requests op) rid = Some a \<Longrightarrow>
    finite (pa_child_requests (op_parents op ! a)) \<and> pa_child_requests (op_parents op ! a) \<inter> keyset (op_parent_requests op) = {} \<and> rid \<notin> keyset (op_request_states op)"
  unfolding parents_flat_def by (metis disjoint_iff in_keys_map_of)

lemma parents_flat_parent_delete:
  "parents_flat op \<Longrightarrow> parents_flat (op\<lparr>op_parent_requests := AList.delete rid (op_parent_requests op)\<rparr>)"
  by (erule parents_flat_step [where gone = "{}"]) (auto simp: parents_step_refl)

text \<open>Ids that are no parents: the entries among them are removed and reported.\<close>

lemma abort_entries:
  assumes "op_ok op" and "parents_flat op" and "set rids \<inter> keyset (op_parent_requests op) = {}"
  shows "\<exists>ids sts. op_abort_requests fuel ord rids op = Inr (ids, op\<lparr>op_request_states := sts\<rparr>) \<and>
    op_ok (op\<lparr>op_request_states := sts\<rparr>) \<and> parents_flat (op\<lparr>op_request_states := sts\<rparr>) \<and>
    distinct ids \<and> set ids = keyset (op_request_states op) \<inter> set rids \<and> keyset sts = keyset (op_request_states op) - set rids"
  using assms
proof (induction rids arbitrary: op)
  case Nil
  then show ?case by (intro exI [of _ "[]"] exI [of _ "op_request_states op"]) simp
next
  case (Cons rid rids)
  let ?op = "op\<lparr>op_request_states := AList.delete rid (op_request_states op)\<rparr>"
  have np: "map_of (op_parent_requests op) rid = None" using Cons.prems(3) by (auto simp: map_of_None_iff)
  show ?case
  proof (cases "map_of (op_request_states op) rid")
    case None
    then have out: "rid \<notin> keyset (op_request_states op)" by (simp add: map_of_None_iff)
    from Cons.IH [OF Cons.prems(1,2)] Cons.prems(3) obtain ids sts where ih:
      "op_abort_requests fuel ord rids op = Inr (ids, op\<lparr>op_request_states := sts\<rparr>)"
      "op_ok (op\<lparr>op_request_states := sts\<rparr>)" "parents_flat (op\<lparr>op_request_states := sts\<rparr>)"
      "distinct ids" "set ids = keyset (op_request_states op) \<inter> set rids" "keyset sts = keyset (op_request_states op) - set rids" by auto
    with None np out show ?thesis by (intro exI [of _ ids] exI [of _ sts]) (auto simp del: set_map)
  next
    case (Some rs)
    then have rid: "rid \<in> keyset (op_request_states op)" by (rule map_of_in_keys)
    from Cons.IH [OF op_ok_delete [OF Cons.prems(1), of rid] parents_flat_delete [OF Cons.prems(2), of rid]] Cons.prems(3) obtain ids sts where ih:
      "op_abort_requests fuel ord rids ?op = Inr (ids, ?op\<lparr>op_request_states := sts\<rparr>)"
      "op_ok (?op\<lparr>op_request_states := sts\<rparr>)" "parents_flat (?op\<lparr>op_request_states := sts\<rparr>)"
      "distinct ids" "set ids = keyset (op_request_states ?op) \<inter> set rids" "keyset sts = keyset (op_request_states ?op) - set rids" by auto
    have run: "op_abort_requests fuel ord (rid # rids) op = Inr (rid # ids, op\<lparr>op_request_states := sts\<rparr>)"
      using Some ih(1) abort_state_no_queue [OF Cons.prems(1) Some, of ?op] by simp
    have "distinct (rid # ids)" "set (rid # ids) = keyset (op_request_states op) \<inter> set (rid # rids)"
      "keyset sts = keyset (op_request_states op) - set (rid # rids)"
      using ih(4,5,6) rid by auto
    with run ih(2,3) show ?thesis by (intro exI [of _ "rid # ids"] exI [of _ sts]) simp
  qed
qed

lemma op_abort_Cons:
  "op_abort_requests fuel ord (rid # rids) op =
    ebind (op_abort_requests fuel ord [rid] op) (\<lambda>(ids, op1). ebind (op_abort_requests fuel ord rids op1) (\<lambda>(ids', op2). Inr (ids @ ids', op2)))"
proof -
  have "ebind x f = ebind (ebind x (\<lambda>(ids, op1). Inr (ids, op1))) f" for x :: "(reqid list \<times> 'a output_processor) result" and f :: "_ \<Rightarrow> (reqid list \<times> 'a output_processor) result"
    by (cases x) auto
  then show ?thesis by simp
qed

lemma abort_one_id:
  fixes op :: "'d output_processor"
  defines "S \<equiv> (\<lambda>op :: 'd output_processor. keyset (op_request_states op))" and "P \<equiv> (\<lambda>op :: 'd output_processor. keyset (op_parent_requests op))"
  assumes op: "op_ok op" "parents_flat op" and ord: "\<forall>A. finite A \<longrightarrow> set (ord A) = A"
  shows "\<exists>ids op1. op_abort_requests 1 ord [rid] op = Inr (ids, op1) \<and> op_ok op1 \<and> parents_flat op1 \<and> op_parents op1 = op_parents op \<and> distinct ids \<and>
    set ids = S op - S op1 \<and> S op1 = S op - insert rid (children_of op rid) \<and> P op1 = P op - {rid} \<and>
    (\<forall>r. r \<noteq> rid \<longrightarrow> children_of op1 r = children_of op r) \<and> children_of op1 rid \<subseteq> children_of op rid"
proof (cases "map_of (op_request_states op) rid")
  case None
  then have out: "rid \<notin> S op" by (simp add: S_def map_of_None_iff)
  show ?thesis
  proof (cases "map_of (op_parent_requests op) rid")
    case None': None
    then have "rid \<notin> P op" unfolding map_of_None_iff P_def .
    moreover have "children_of op rid = {}" using None' by (simp add: children_of_def)
    ultimately show ?thesis using None None' out op by (intro exI [of _ "[]"] exI [of _ op]) simp
  next
    case (Some a)
    let ?ch = "pa_child_requests (op_parents op ! a)"
    have ch: "finite ?ch" "?ch \<inter> P op = {}" "children_of op rid = ?ch" using Some parents_flat_children [OF op(2) Some] by (simp_all add: P_def children_of_def)
    obtain ids sts where e: "op_abort_requests 0 ord (ord ?ch) op = Inr (ids, op\<lparr>op_request_states := sts\<rparr>)"
      "op_ok (op\<lparr>op_request_states := sts\<rparr>)" "parents_flat (op\<lparr>op_request_states := sts\<rparr>)" "distinct ids" "set ids = S op \<inter> ?ch" "keyset sts = S op - ?ch"
      using abort_entries [OF op, of "ord ?ch" 0 ord] ch(1,2) ord unfolding S_def P_def by auto
    let ?op0 = "if ?ch = {} then op else op\<lparr>op_request_states := sts\<rparr>"
    let ?op1 = "?op0\<lparr>op_parent_requests := AList.delete rid (op_parent_requests ?op0)\<rparr>"
    let ?ids = "if ?ch = {} then [] else ids"
    have run: "op_abort_requests 1 ord [rid] op = Inr (?ids, ?op1)" using None Some e(1) by simp
    have ok0: "op_ok ?op0" "parents_flat ?op0" using e(2,3) op by simp_all
    have s: "S ?op0 = S op - ?ch" "set ?ids = S op \<inter> ?ch" "distinct ?ids" using e(4-6) by (auto simp: S_def)
    have "op_ok ?op1" using ok0(1) by (simp add: op_ok_def)
    moreover have "parents_flat ?op1" using ok0(2) by (rule parents_flat_parent_delete)
    moreover have "S ?op1 = S op - insert rid (children_of op rid)" "set ?ids = S op - S ?op1" using s out ch(3) by (auto simp: S_def simp del: set_map)
    moreover have "P ?op1 = P op - {rid}" by (simp add: P_def)
    moreover have "\<forall>r. r \<noteq> rid \<longrightarrow> children_of ?op1 r = children_of op r" "children_of ?op1 rid \<subseteq> children_of op rid"
      by (simp_all add: children_of_def dict_simps split: option.splits)
    ultimately show ?thesis using run s(3) by (intro exI [of _ ?ids] exI [of _ ?op1]) simp
  qed
next
  case (Some rs)
  let ?op1 = "op\<lparr>op_request_states := AList.delete rid (op_request_states op)\<rparr>"
  have rid: "rid \<in> S op" using Some unfolding S_def by (rule map_of_in_keys)
  then have "rid \<notin> P op" using parents_flat_children [OF op(2)] unfolding S_def P_def by (metis in_keys_map_of)
  then have np: "map_of (op_parent_requests op) rid = None" unfolding map_of_None_iff P_def .
  then have ch: "children_of op rid = {}" "P op = P op - {rid}" using \<open>rid \<notin> P op\<close> by (simp_all add: children_of_def)
  have "set [rid] = S op - S ?op1" using rid by (auto simp: S_def)
  then show ?thesis
    using Some ch abort_state_no_queue [OF op(1) Some, of ?op1] op_ok_delete [OF op(1), of rid] parents_flat_delete [OF op(2), of rid]
    by (intro exI [of _ "[rid]"] exI [of _ ?op1]) (simp add: S_def P_def)
qed

lemma op_abort_returns:
  assumes "op_ok op" and "parents_flat op" and ord: "\<forall>A. finite A \<longrightarrow> set (ord A) = A"
  shows "\<exists>ids op'. op_abort_requests 1 ord rids op = Inr (ids, op') \<and> op_ok op' \<and> parents_flat op' \<and> op_parents op' = op_parents op \<and> distinct ids \<and>
    set ids = keyset (op_request_states op) - keyset (op_request_states op') \<and>
    keyset (op_request_states op') = keyset (op_request_states op) - (\<Union>rid \<in> set rids. insert rid (children_of op rid)) \<and>
    keyset (op_parent_requests op') = keyset (op_parent_requests op) - set rids"
  using assms(1,2)
proof (induction rids arbitrary: op)
  case Nil
  then show ?case by (intro exI [of _ "[]"] exI [of _ op]) simp
next
  case (Cons rid rids)
  let ?S = "\<lambda>op. keyset (op_request_states op)" and ?P = "\<lambda>op. keyset (op_parent_requests op)"
  obtain ids1 op1 where 1: "op_abort_requests 1 ord [rid] op = Inr (ids1, op1)" "op_ok op1" "parents_flat op1" "op_parents op1 = op_parents op" "distinct ids1"
    "set ids1 = ?S op - ?S op1" "?S op1 = ?S op - insert rid (children_of op rid)" "?P op1 = ?P op - {rid}"
    "\<forall>r. r \<noteq> rid \<longrightarrow> children_of op1 r = children_of op r" "children_of op1 rid \<subseteq> children_of op rid"
    using abort_one_id [OF Cons.prems ord, of rid] by (elim exE conjE) (rule that; assumption)
  obtain ids2 op2 where 2: "op_abort_requests 1 ord rids op1 = Inr (ids2, op2)" "op_ok op2" "parents_flat op2" "op_parents op2 = op_parents op1" "distinct ids2"
    "set ids2 = ?S op1 - ?S op2" "?S op2 = ?S op1 - (\<Union>rid \<in> set rids. insert rid (children_of op1 rid))" "?P op2 = ?P op1 - set rids"
    using Cons.IH [OF 1(2,3)] by (elim exE conjE) (rule that; assumption)
  have run: "op_abort_requests 1 ord (rid # rids) op = Inr (ids1 @ ids2, op2)" by (subst op_abort_Cons) (simp only: 1(1) 2(1) ebind_Inr prod.case)
  have sub: "?S op1 \<subseteq> ?S op" "?S op2 \<subseteq> ?S op1" using 1(7) 2(7) by blast+
  have ch: "insert rid (children_of op rid) \<union> (\<Union>r \<in> set rids. insert r (children_of op1 r)) = (\<Union>r \<in> set (rid # rids). insert r (children_of op r))"
    proof -
    have "insert rid (children_of op rid) \<union> insert r (children_of op1 r) = insert rid (children_of op rid) \<union> insert r (children_of op r)" for r
      using 1(9,10) by (cases "r = rid") auto
    then show ?thesis by (simp only: set_simps UN_insert) blast
  qed
  have "?S op2 = ?S op - (\<Union>r \<in> set (rid # rids). insert r (children_of op r))" unfolding ch [symmetric] 2(7) 1(7) by blast
  moreover have "set (ids1 @ ids2) = ?S op - ?S op2" "distinct (ids1 @ ids2)" using 1(5,6) 2(5,6) sub by auto
  moreover have "?P op2 = ?P op - set (rid # rids)" using 1(8) 2(8) by auto
  ultimately show ?case using run 2(2-4) 1(4) by (intro exI [of _ "ids1 @ ids2"] exI [of _ op2]) simp
qed

end
