(* ===== verification/Delivery.thy ===== *)
theory Delivery
  imports Engine_Total Output_Processor
begin

text \<open>
  No request disappears silently: whatever a step of the engine core takes out of the scheduler, a sampled stop token, a length limit or
  the GAMBIT policy that needs its memory, the outputs of that step say that the request finished. The
  walk through \<open>schedule\<close> is done once, in a locale over relations between scheduler states.
\<close>

subsection \<open>Relations kept by schedule\<close>

definition owner :: "request \<Rightarrow> int \<times> reqid" where
  "owner r = (rq_client_index r, rq_request_id r)"

locale sched_relation =
  fixes R :: "scheduler \<Rightarrow> scheduler \<Rightarrow> bool"
  assumes trans: "R s s1 \<Longrightarrow> R s1 s2 \<Longrightarrow> R s s2"
    and frame: "sc_requests s' = sc_requests s \<Longrightarrow> sc_pending_pruned_outputs s' = sc_pending_pruned_outputs s \<Longrightarrow> R s s'"
    and upd: "(\<And>r. owner (f r) = owner r) \<Longrightarrow> R s (upd_req rid f s)"
    and stop: "stop_lowest_running s = Inr (v, s1) \<Longrightarrow> R s s1"
begin

abbreviation Rx :: "sched_ctx \<Rightarrow> sched_ctx \<Rightarrow> bool" where
  "Rx cx cx' \<equiv> R (cx_sched cx) (cx_sched cx')"

lemma same: "R s s"
  by (rule frame) simp_all

text \<open>An update of one request between updates of other fields.\<close>

lemma upd_frame:
  assumes "\<And>r. owner (f r) = owner r" and "sc_requests s1 = sc_requests s" "sc_pending_pruned_outputs s1 = sc_pending_pruned_outputs s"
    and "sc_requests s' = sc_requests (upd_req rid f s1)" "sc_pending_pruned_outputs s' = sc_pending_pruned_outputs s1"
  shows "R s s'"
proof -
  have "R s s1" by (rule frame) (use assms in simp_all)
  moreover have "R s1 (upd_req rid f s1)" by (rule upd) (rule assms(1))
  moreover have "R (upd_req rid f s1) s'" by (rule frame) (use assms in \<open>simp_all add: upd_req_def\<close>)
  ultimately show ?thesis by (blast intro: trans)
qed

lemma preempt_request:
  assumes "preempt_request v cx = Inr cx'"
  shows "Rx cx cx'"
proof -
  obtain km q where "cx_sched cx' = (upd_req v (\<lambda>r. r\<lparr>rq_status := PREEMPTED, rq_num_computed_tokens := 0, rq_num_preemptions := rq_num_preemptions r + 1\<rparr>)
      ((cx_sched cx)\<lparr>sc_kv_cache_manager := km\<rparr>))\<lparr>sc_waiting := q\<rparr>"
    using assms by (auto simp: preempt_request_def Let_def ebind_eq_Inr)
  then show ?thesis by (intro upd_frame) (simp_all add: owner_def upd_req_def)
qed

lemma preempt_one:
  assumes "preempt_one cx = Inr (v, cx')"
  shows "Rx cx cx'"
proof -
  have pre: "Rx cx cx'" if p: "preempt_request w c = Inr cx'" and c: "cx_sched c = (cx_sched cx)\<lparr>sc_running := xs\<rparr>" for w c xs
    by (rule trans [OF frame preempt_request [OF p]]) (simp_all add: c)
  have un: "cx_sched (unschedule w c) = cx_sched c" for w c by (simp add: unschedule_def)
  show ?thesis using assms by (auto simp: preempt_one_def Let_def ebind_eq_Inr un split: if_splits intro: pre)
qed

lemma make_room:
  assumes "make_room rid cx = Inr out" and "out = Alloc_Done nb cx' \<or> out = Alloc_Retry cx'"
  shows "Rx cx cx'"
proof (cases "sc_policy (cx_sched cx) = GAMBIT")
  case True
  with assms obtain v s where "stop_lowest_running (cx_sched cx) = Inr (v, s)" "cx_sched cx' = s"
    by (auto simp: make_room_def Let_def ebind_eq_Inr split: if_splits)
  with stop show ?thesis by simp
next
  case False
  with assms obtain v where "preempt_one cx = Inr (v, cx')" by (auto simp: make_room_def ebind_eq_Inr split: if_splits)
  then show ?thesis by (rule preempt_one)
qed

lemma alloc_round:
  assumes "alloc_round u rid n cx = Inr out" and "out = Alloc_Done nb cx' \<or> out = Alloc_Retry cx'"
  shows "Rx cx cx'"
proof -
  from assms(1) obtain nb0 km where km: "(case nb0 of Some b \<Rightarrow> Inr (Alloc_Done (Some b) (cx\<lparr>cx_sched := (cx_sched cx)\<lparr>sc_kv_cache_manager := km\<rparr>\<rparr>))
      | None \<Rightarrow> make_room rid (cx\<lparr>cx_sched := (cx_sched cx)\<lparr>sc_kv_cache_manager := km\<rparr>\<rparr>)) = Inr out"
    by (auto simp: alloc_round_def Let_def ebind_eq_Inr)
  have km': "R (cx_sched cx) ((cx_sched cx)\<lparr>sc_kv_cache_manager := km\<rparr>)" by (rule frame) simp_all
  show ?thesis
  proof (cases nb0)
    case None
    with km have "make_room rid (cx\<lparr>cx_sched := (cx_sched cx)\<lparr>sc_kv_cache_manager := km\<rparr>\<rparr>) = Inr out" by simp
    from make_room [OF this assms(2)] km' show ?thesis by (simp add: trans [OF km'])
  next
    case (Some b)
    with km assms(2) km' show ?thesis by auto
  qed
qed

lemma alloc_running: "alloc_running u rid n cx = Inr (nb, cx') \<Longrightarrow> Rx cx cx'"
proof (induction u rid n cx rule: alloc_running.induct)
  case (1 u rid n cx)
  from "1.prems" obtain out where out: "alloc_round u rid n cx = Inr out"
    and rest: "(case out of Alloc_Done nb cx1 \<Rightarrow> Inr (nb, cx1) | Alloc_Retry cx1 \<Rightarrow> alloc_running u rid n cx1) = Inr (nb, cx')"
    unfolding alloc_running.simps [of u rid n cx] by (rule ebind_Inr_E)
  show ?case
  proof (cases out)
    case (Alloc_Done nb1 cx1)
    with rest alloc_round [OF out] show ?thesis by simp
  next
    case (Alloc_Retry cx1)
    with rest have "alloc_running u rid n cx1 = Inr (nb, cx')" by simp
    from "1.IH" [OF out Alloc_Retry this] alloc_round [OF out, of _ cx1] Alloc_Retry show ?thesis by (simp add: trans [of _ "cx_sched cx1"])
  qed
qed

lemma schedule_running: "Rx cx (schedule_running rid n nb cx)"
  by (auto simp: schedule_running_def Let_def owner_def intro!: same upd)

lemma running_loop: "running_loop u cx = Inr cx' \<Longrightarrow> Rx cx cx'"
proof (induction u cx rule: running_loop.induct)
  case (1 u cx)
  let ?rid = "running_of cx ! cx_req_index cx"
  let ?n = "running_num_new_tokens (cx_sched cx) (cx_token_budget cx) (req_of (cx_sched cx) ?rid)"
  show ?case
  proof (cases "cx_req_index cx < length (running_of cx) \<and> cx_token_budget cx > 0")
    case False
    with "1.prems" show ?thesis by (subst (asm) running_loop.simps) (auto intro: same)
  next
    case True
    show ?thesis
    proof (cases "?n = 0")
      case n: True
      with True "1.prems" have "running_loop u (cx\<lparr>cx_req_index := cx_req_index cx + 1\<rparr>) = Inr cx'" by (subst (asm) running_loop.simps) simp
      from "1.IH"(1) [OF True refl refl n this] show ?thesis by simp
    next
      case n: False
      with True "1.prems" obtain nb cx1 where a: "alloc_running u ?rid ?n cx = Inr (nb, cx1)"
        and rest: "(case nb of None \<Rightarrow> Inr cx1 | Some b \<Rightarrow> running_loop u (schedule_running ?rid ?n b cx1)) = Inr cx'"
        by (subst (asm) running_loop.simps) (auto simp: Let_def ebind_eq_Inr)
      show ?thesis
      proof (cases nb)
        case None
        with rest alloc_running [OF a] show ?thesis by simp
      next
        case (Some b)
        with rest have "running_loop u (schedule_running ?rid ?n b cx1) = Inr cx'" by simp
        from "1.IH"(2) [OF True refl refl n a refl Some this] alloc_running [OF a] schedule_running [of cx1 ?rid ?n b] show ?thesis
          by (blast intro: trans)
      qed
    qed
  qed
qed

lemma skip_waiting: "skip_waiting rid cx sk = Inr (cx', sk') \<Longrightarrow> Rx cx cx'"
  by (auto simp: skip_waiting_def Let_def ebind_eq_Inr intro!: frame)

lemma try_waiting: "try_waiting u rid cx = Inr (out, cx') \<Longrightarrow> Rx cx cx'"
  by (auto simp: try_waiting_def Let_def ebind_eq_Inr split: option.splits intro!: frame)

lemma resume_fsm: "resume_fsm fsm rid cx = Some cx' \<Longrightarrow> Rx cx cx'"
  by (auto simp: resume_fsm_def owner_def split: if_splits intro!: same upd)

lemma admit:
  assumes "admit rid n k cx = Inr cx'"
  shows "Rx cx cx'"
proof -
  obtain q where "cx_sched cx' = upd_req rid (\<lambda>r. r\<lparr>rq_status := RUNNING, rq_num_computed_tokens := k,
      rq_num_cached_tokens := (if rq_num_cached_tokens r < 0 then k else rq_num_cached_tokens r)\<rparr>)
      ((cx_sched cx)\<lparr>sc_waiting := q, sc_running := sc_running (cx_sched cx) @ [rid]\<rparr>)"
    using assms by (auto simp: admit_def Let_def ebind_eq_Inr split: if_splits)
  then show ?thesis by (intro upd_frame) (simp_all add: owner_def upd_req_def)
qed

lemma waiting_loop: "waiting_loop u fsm cx sk = Inr (cx', sk') \<Longrightarrow> Rx cx cx'"
proof (induction u fsm cx sk rule: waiting_loop.induct)
  case (1 u fsm cx sk)
  show ?case
  proof (cases "\<not> (queue_bool (sc_waiting (cx_sched cx)) \<and> cx_token_budget cx > 0) \<or> length (running_of cx) = sc_max_num_running_reqs (cx_sched cx)")
    case True
    with "1.prems" show ?thesis by (subst (asm) waiting_loop.simps) (auto intro: same split: if_splits)
  next
    case False
    then have go: "\<not> \<not> (queue_bool (sc_waiting (cx_sched cx)) \<and> cx_token_budget cx > 0)" "length (running_of cx) \<noteq> sc_max_num_running_reqs (cx_sched cx)"
      by simp_all
    from "1.prems" go obtain rid where rid: "queue_peek (sc_waiting (cx_sched cx)) = Inr rid"
      "rq_status (req_of (cx_sched cx) rid) \<noteq> WAITING_FOR_REMOTE_KVS"
      and rest: "(case resume_fsm fsm rid cx of
          None \<Rightarrow> ebind (skip_waiting rid cx sk) (\<lambda>(cx1, sk). waiting_loop u fsm cx1 sk)
        | Some cx1 \<Rightarrow> ebind (try_waiting u rid cx1) (\<lambda>(outcome, cx2). case outcome of
                Skip \<Rightarrow> ebind (skip_waiting rid cx2 sk) (\<lambda>(cx3, sk). waiting_loop u fsm cx3 sk)
              | Stop_Loop \<Rightarrow> Inr (cx2, sk)
              | Admit n k \<Rightarrow> ebind (admit rid n k cx2) (\<lambda>cx3. waiting_loop u fsm cx3 sk))) = Inr (cx', sk')"
      by (subst (asm) waiting_loop.simps) (auto simp: ebind_eq_Inr split: if_splits)
    show ?thesis
    proof (cases "resume_fsm fsm rid cx")
      case None
      with rest obtain cx1 sk1 where s: "skip_waiting rid cx sk = Inr (cx1, sk1)" "waiting_loop u fsm cx1 sk1 = Inr (cx', sk')"
        by (auto simp: ebind_eq_Inr)
      from "1.IH"(1) [OF go rid None s(1) refl s(2)] skip_waiting [OF s(1)] show ?thesis by (blast intro: trans)
    next
      case (Some cx1)
      with rest obtain out cx2 where t: "try_waiting u rid cx1 = Inr (out, cx2)" and r2: "(case out of
                Skip \<Rightarrow> ebind (skip_waiting rid cx2 sk) (\<lambda>(cx3, sk). waiting_loop u fsm cx3 sk)
              | Stop_Loop \<Rightarrow> Inr (cx2, sk)
              | Admit n k \<Rightarrow> ebind (admit rid n k cx2) (\<lambda>cx3. waiting_loop u fsm cx3 sk)) = Inr (cx', sk')"
        by (auto simp: ebind_eq_Inr)
      have pre: "Rx cx cx2" using resume_fsm [OF Some] try_waiting [OF t] by (rule trans)
      show ?thesis
      proof (cases out)
        case Skip
        with r2 obtain cx3 sk3 where s: "skip_waiting rid cx2 sk = Inr (cx3, sk3)" "waiting_loop u fsm cx3 sk3 = Inr (cx', sk')"
          by (auto simp: ebind_eq_Inr)
        from "1.IH"(2) [OF go rid Some t refl Skip s(1) refl s(2)] skip_waiting [OF s(1)] pre show ?thesis by (blast intro: trans)
      next
        case Stop_Loop
        with r2 pre show ?thesis by simp
      next
        case (Admit n k)
        with r2 obtain cx3 where s: "admit rid n k cx2 = Inr cx3" "waiting_loop u fsm cx3 sk = Inr (cx', sk')"
          by (auto simp: ebind_eq_Inr)
        from "1.IH"(3) [OF go rid Some t refl Admit s] admit [OF s(1)] pre show ?thesis by (blast intro: trans)
      qed
    qed
  qed
qed

lemma schedule_loops:
  assumes "schedule_loops u fsm s = Inr cx"
  shows "R s (cx_sched cx)"
proof -
  let ?s = "if sc_policy s = GAMBIT then order_running_by_score s else s"
  let ?q = "create_request_queue (sc_policy ?s)"
  obtain cx1 where run: "running_loop u (init_ctx ?s) = Inr cx1" using assms by (simp only: schedule_loops_def Let_def) (rule ebind_Inr_E)
  obtain cx2 sk where wait: "(if cx_preempted cx1 = [] then waiting_loop u fsm cx1 ?q else Inr (cx1, ?q)) = Inr (cx2, sk)"
    and last: "(if queue_bool sk then ebind (queue_prepend_requests (req_attr (cx_sched cx2)) sk (sc_waiting (cx_sched cx2)))
        (\<lambda>q. Inr (cx2\<lparr>cx_sched := (cx_sched cx2)\<lparr>sc_waiting := q\<rparr>\<rparr>)) else Inr cx2) = Inr cx"
    using assms unfolding schedule_loops_def Let_def run ebind_Inr by (elim ebind_Inr_E) (auto split: prod.splits)
  have "R s ?s" by (rule frame) (simp_all add: order_running_by_score_def)
  also note [trans] = trans
  have "R ?s (cx_sched cx1)" using running_loop [OF run] by (simp add: init_ctx_def)
  also have "R (cx_sched cx1) (cx_sched cx2)" using wait by (auto split: if_splits intro: same waiting_loop)
  also have "R (cx_sched cx2) (cx_sched cx)" using last by (auto simp: ebind_eq_Inr split: if_splits intro: same frame)
  finally show ?thesis .
qed

lemma advance_loop: "advance_loop xs s = Inr s' \<Longrightarrow> R s s'"
proof (induction xs arbitrary: s)
  case (Cons x xs)
  obtain rid n where x: "x = (rid, n)" by (cases x)
  let ?s = "upd_req rid (\<lambda>r. r\<lparr>rq_num_computed_tokens := rq_num_computed_tokens r + n\<rparr>) s"
  have "R s ?s" by (rule upd) (simp add: owner_def)
  moreover have "R ?s s'" by (rule Cons.IH) (use Cons.prems in \<open>simp add: x split: if_splits\<close>)
  ultimately show ?case by (rule trans)
qed (simp add: same)

lemma schedule:
  assumes "schedule u fsm s = Inr (so, s')"
  shows "R s s'"
proof -
  obtain cx where cx: "schedule_loops u fsm s = Inr cx" using assms by (auto simp: schedule_def ebind_eq_Inr)
  obtain common km where km: "(case sc_running (cx_sched cx) of
        [] \<Rightarrow> (replicate (length (kc_managers (km_coordinator (sc_kv_cache_manager (cx_sched cx))))) 0, sc_kv_cache_manager (cx_sched cx))
      | rid # _ \<Rightarrow> km_get_num_common_prefix_blocks rid (sc_kv_cache_manager (cx_sched cx))) = (common, km)" by fastforce
  let ?s1 = "(cx_sched cx)\<lparr>sc_kv_cache_manager := km, sc_prev_step_scheduled_req_ids := keyset (cx_num_scheduled_tokens cx)\<rparr>"
  obtain s2 where s2: "advance_loop (so_num_scheduled_tokens so) ?s1 = Inr s2" "s' = s2\<lparr>sc_finished_req_ids := {}\<rparr>"
    using assms unfolding schedule_def cx ebind_Inr Let_def km prod.case by (auto simp: ebind_eq_Inr update_after_schedule_def)
  have "R (cx_sched cx) ?s1" "R s2 s'" by (rule frame; simp add: s2(2))+
  with schedule_loops [OF cx] advance_loop [OF s2(1)] show ?thesis by (blast intro: trans)
qed

end

subsection \<open>Relations kept by the decisions of the engine\<close>

text \<open>The engine changes the scheduler in one more way: it adds children of live requests.\<close>

lemma new_request_owner:
  "new_request h rid prompt sp pool eos client arrival embeds mm lora salt prio = Inr r \<Longrightarrow> owner r = (client, rid)"
  by (auto simp: new_request_def ebind_eq_Inr Let_def init_block_hashes_def owner_def split: option.splits if_splits)

lemma prune_all_scheduler [simp]: "en_scheduler (prune_all xs e) = en_scheduler e"
  by (simp add: prune_all_fold)

lemma collect_scores_scheduler: "collect_scores hidden ps scores e = Inr (scores', e') \<Longrightarrow> en_scheduler e' = en_scheduler e"
  by (induction hidden ps scores e rule: collect_scores.induct) (auto split: payload.splits if_splits option.splits)

lemma record_scores_scheduler [simp]: "en_scheduler (fold record_new_scores scores e) = en_scheduler e"
  by (induction scores arbitrary: e) (simp_all add: record_new_scores_def case_prod_beta Let_def)

lemma detect_triggers_scheduler: "detect_triggers mo e = Inr e' \<Longrightarrow> en_scheduler e' = en_scheduler e"
proof -
  have loop: "trigger_loop mo xs acc e = Inr (ids, e1) \<Longrightarrow> en_scheduler e1 = en_scheduler e" for xs acc e ids e1
  proof (induction mo xs acc e rule: trigger_loop.induct)
    case (2 mo rid i xs acc e)
    from "2.prems" obtain sampled where s: "sampled_at mo i = Inr sampled" by (auto simp: ebind_eq_Inr)
    obtain hit e2 where t: "trigger_one rid sampled e = (hit, e2)" by fastforce
    have one: "sampled_at mo i = Inr sampled" "trigger_one rid sampled e = (hit, e2)" "trigger_loop mo xs (if hit then acc @ [rid] else acc) e2 = Inr (ids, e1)"
      using "2.prems" s t by simp_all
    have "en_scheduler e2 = en_scheduler e" using one(2) by (auto simp: trigger_one_def Let_def split: if_splits)
    with "2.IH" [OF one(1) one(2) [symmetric] one(3)] show ?case by simp
  qed simp
  show "detect_triggers mo e = Inr e' \<Longrightarrow> en_scheduler e' = en_scheduler e" by (auto simp: detect_triggers_def ebind_eq_Inr dest: loop)
qed

lemma capture_scheduler: "capture_tokens mo xs e = Inr e' \<Longrightarrow> en_scheduler e' = en_scheduler e"
proof (induction mo xs e rule: capture_tokens.induct)
  case (2 mo rid i xs e)
  then obtain sampled where s: "sampled_at mo i = Inr sampled"
    "capture_tokens mo xs (if sampled = [] then e else e\<lparr>en_output_token_ids := AList.update rid (dget_or (en_output_token_ids e) rid [] @ sampled) (en_output_token_ids e)\<rparr>) = Inr e'"
    by (auto simp: ebind_eq_Inr)
  from "2.IH" [OF s] show ?case by (simp split: if_splits)
qed simp

locale engine_relation = sched_relation R for R +
  assumes branch: "map_of (sc_requests s) p = Some par \<Longrightarrow> rq_client_index r = rq_client_index par \<Longrightarrow> add_request r s = Inr s1 \<Longrightarrow> R s s1"
begin

abbreviation Re :: "engine \<Rightarrow> engine \<Rightarrow> bool" where
  "Re e e' \<equiv> R (en_scheduler e) (en_scheduler e')"

lemma trans_rule [trans]: "R s s1 \<Longrightarrow> R s1 s2 \<Longrightarrow> R s s2"
  by (rule trans)

lemma fold_R: "(\<And>x s. R s (f x s)) \<Longrightarrow> R s (fold f xs s)"
  by (induction xs arbitrary: s) (auto intro: same trans)

lemma update_trace_scores_R: "R s (update_trace_scores scores s)"
proof (induction scores arbitrary: s)
  case Nil
  show ?case by (simp add: update_trace_scores_def same)
next
  case (Cons x scores)
  obtain rid sc where x: "x = (rid, sc)" by (cases x)
  let ?s = "upd_req rid (\<lambda>r. r\<lparr>rq_trace_avg_score := Some sc\<rparr>) (s\<lparr>sc_trace_scores := AList.update rid sc (sc_trace_scores s)\<rparr>)"
  have "R s ?s" by (rule upd_frame) (simp_all add: owner_def upd_req_def)
  also have "R ?s (update_trace_scores scores ?s)" by (rule Cons.IH)
  finally show ?case by (simp add: update_trace_scores_def x Let_def)
qed

lemma mark_stop_reason_R: "R s (mark_stop_reason ids reason s)"
  unfolding mark_stop_reason_def by (rule fold_R, rule upd) (simp add: owner_def)

lemma create_branch_R:
  assumes "gambit_create_branch ev p e = Inr (b, e')"
  shows "Re e e'"
proof -
  have "en_scheduler e' = en_scheduler e \<or> (\<exists>par c t child. map_of (sc_requests (en_scheduler e)) p = Some par \<and>
      gambit_create_child_request ev (en_config e) t par c = Some child \<and> add_request child (en_scheduler e) = Inr (en_scheduler e'))"
    using assms by (auto simp: gambit_create_branch_def Let_def ebind_eq_Inr copy_score_state_def init_child_counters_def
        split: option.splits prod.splits if_splits)
  then consider "en_scheduler e' = en_scheduler e"
    | par c t child where "map_of (sc_requests (en_scheduler e)) p = Some par" "gambit_create_child_request ev (en_config e) t par c = Some child"
      "add_request child (en_scheduler e) = Inr (en_scheduler e')" by blast
  then show ?thesis
  proof cases
    case 1
    then show ?thesis by (simp add: same)
  next
    case (2 par c t child)
    from 2(2) have "owner child = (rq_client_index par, c)" by (auto simp: gambit_create_child_request_def new_request_owner split: sum.splits)
    then show ?thesis by (intro branch [OF 2(1) _ 2(3)]) (simp add: owner_def)
  qed
qed

lemma branch_loop_R: "branch_loop ev capacity xs e = Inr e' \<Longrightarrow> Re e e'"
proof (induction ev capacity xs e rule: branch_loop.induct)
  case (2 ev capacity s rid xs e)
  show ?case
  proof (cases "active_traces_of e \<ge> capacity")
    case True
    with 2 show ?thesis by (simp add: same)
  next
    case False
    with "2.prems" obtain b e1 where e1: "gambit_create_branch ev rid e = Inr (b, e1)" "branch_loop ev capacity xs e1 = Inr e'"
      by (auto simp: ebind_eq_Inr)
    have "Re e e1" by (rule create_branch_R [OF e1(1)])
    also have "Re e1 e'" by (rule "2.IH" [OF False e1(1) refl e1(2)])
    finally show ?thesis .
  qed
qed (simp add: same)

lemma tournament_R:
  assumes "gambit_tournament_step ev avg e = Inr e'"
  shows "Re e e'"
proof -
  have hard: "en_scheduler (hard_floor_prune avg e) = en_scheduler e" by (simp add: hard_floor_prune_def)
  have fill: "Re e1 e2" if "fill_slots ev xs e1 = Inr e2" for xs e1 e2 using that by (auto simp: fill_slots_def Let_def dest: branch_loop_R)
  have swap: "Re e1 e2" if "swap_traces ev xs e1 = Inr e2" for xs e1 e2
  proof -
    have cases: "(if b then x else Inr y) = Inr z \<Longrightarrow> (x = Inr z \<Longrightarrow> P) \<Longrightarrow> (y = z \<Longrightarrow> P) \<Longrightarrow> P" for b P and x :: "engine result" and y z
      by (auto split: if_splits)
    show ?thesis using that unfolding swap_traces_def Let_def
    proof (rule cases, goal_cases)
      case 1
      from branch_loop_R [OF this] show ?case by (simp only: prune_all_scheduler)
    next
      case 2
      then show ?case by (metis prune_all_scheduler same)
    qed
  qed
  define e1 where "e1 = hard_floor_prune avg e"
  define e2 where "e2 = e1\<lparr>en_tournament_last_round_step := en_tournament_step_counter e1\<rparr>"
  have eqs: "en_scheduler e1 = en_scheduler e" "en_scheduler e2 = en_scheduler e" using hard by (simp_all add: e1_def e2_def)
  from assms have "e' = e \<or> e' = e1 \<or> e' = e2 \<or> (\<exists>xs. fill_slots ev xs e2 = Inr e' \<or> swap_traces ev xs e2 = Inr e')"
    unfolding gambit_tournament_step_def Let_def e1_def [symmetric] e2_def [symmetric] by (auto split: if_splits)
  with eqs fill [of _ e2 e'] swap [of _ e2 e'] show ?thesis by (auto simp: same)
qed

lemma decision_R:
  assumes "gambit_decision_step ev avg e = Inr e'"
  shows "Re e e'"
proof -
  have thr: "Re e1 e2" if "gambit_threshold_step ev avg e1 = Inr e2" for e1 e2
    using that by (auto simp: gambit_threshold_step_def same dest!: branch_loop_R split: option.splits)
  have force: "en_scheduler (gambit_force_stop_all_active_traces e1) = en_scheduler e1" for e1
    by (simp add: gambit_force_stop_all_active_traces_def Let_def split: option.splits)
  have flush: "en_scheduler (flush_sequence_histories e1) = en_scheduler e1" for e1 by (simp add: flush_sequence_histories_def)
  from assms show ?thesis
    by (auto simp: gambit_decision_step_def Let_def ebind_eq_Inr force flush same dest!: tournament_R thr split: option.splits if_splits)
qed

lemma apply_scores_R:
  assumes "apply_scores ev hidden workers classified e = Inr e'"
  shows "Re e e'"
proof -
  obtain scores e1 where e1: "collect_scores hidden (concat workers) [] e = Inr (scores, e1)" using assms by (auto simp: apply_scores_def ebind_eq_Inr)
  define e3 where "e3 = (if scores \<noteq> [] then (fold record_new_scores scores e1)\<lparr>en_pending_hs_classification :=
    en_pending_hs_classification (fold record_new_scores scores e1) - classified scores\<rparr> else fold record_new_scores scores e1)"
  define avg where "avg = aggregate_scores e3"
  define e4 where "e4 = (if avg \<noteq> [] then e3\<lparr>en_scheduler := update_trace_scores avg (en_scheduler e3)\<rparr> else e3)"
  have rest: "(if en_gambit_enabled e4 \<and> avg \<noteq> [] then gambit_decision_step ev avg e4 else Inr e4) = Inr e'"
    using assms unfolding apply_scores_def e1 ebind_Inr prod.case Let_def e3_def [symmetric] avg_def [symmetric] e4_def [symmetric] .
  have "en_scheduler e3 = en_scheduler e" using collect_scores_scheduler [OF e1] by (simp add: e3_def)
  then have "Re e e4" by (simp add: e4_def update_trace_scores_R same)
  also have "Re e4 e'" using rest by (auto intro: decision_R same split: if_splits)
  finally show ?thesis .
qed

lemma insert_eos_R: "insert_eos ids reason mo s = Inr (mo', s') \<Longrightarrow> R s s'"
  by (auto simp: insert_eos_def Let_def ebind_eq_Inr mark_stop_reason_R same split: if_splits)

lemma inject_eos_R:
  assumes "inject_eos mo e = Inr (mo', e')"
  shows "Re e e'"
proof -
  let ?p = "filter (\<lambda>rid. rid \<in> en_pending_low_score_stops e) (dkeys (mo_req_id_to_index mo))"
  let ?f = "filter (\<lambda>rid. rid \<in> en_pending_force_stops e) (dkeys (mo_req_id_to_index mo))"
  obtain mo1 s1 where 1: "(if ?p = [] then Inr (mo, en_scheduler e) else insert_eos ?p ''gambit_pruned'' mo (en_scheduler e)) = Inr (mo1, s1)"
    and rest: "ebind (if ?f = [] then Inr (mo1, s1) else insert_eos ?f ''gambit_stop_after_completed'' mo1 s1) (\<lambda>(mo2, s2).
      Inr (mo2, e\<lparr>en_scheduler := s2, en_pending_low_score_stops := en_pending_low_score_stops e - set ?p,
        en_pending_force_stops := en_pending_force_stops e - set ?f\<rparr>)) = Inr (mo', e')"
    using assms unfolding inject_eos_def Let_def by (elim ebind_Inr_E) (auto split: prod.splits)
  then obtain mo2 s2 where 2: "(if ?f = [] then Inr (mo1, s1) else insert_eos ?f ''gambit_stop_after_completed'' mo1 s1) = Inr (mo2, s2)" "en_scheduler e' = s2"
    by (elim ebind_Inr_E) (auto split: prod.splits)
  have "R (en_scheduler e) s1" using 1 by (cases "?p = []") (auto intro: same insert_eos_R)
  also have "R s1 (en_scheduler e')" using 2 by (cases "?f = []") (auto intro: same insert_eos_R)
  finally show ?thesis .
qed

lemma after_forward_R:
  assumes "gambit_after_forward ev so mo e = Inr (mo', e')"
  shows "Re e e'"
proof (cases "gc_enable (en_config e)")
  case False
  with assms show ?thesis by (simp add: gambit_after_forward_def same)
next
  case True
  obtain e1 e2 e4 where 1: "consume_async ev e = Inr e1" "score_pending ev (so_num_scheduled_tokens so) e1 = Inr e2"
    "detect_triggers mo (e2\<lparr>en_pending_hs_classification := en_pending_hs_classification e2 - sc_finished_req_ids (en_scheduler e2)\<rparr>) = Inr e4"
    "(if en_gambit_enabled e4 then inject_eos mo e4 else Inr (mo, e4)) = Inr (mo', e')"
    using assms True unfolding gambit_after_forward_def Let_def by (auto simp: ebind_eq_Inr)
  have "Re e e1" using 1(1) by (auto simp: consume_async_def same dest!: apply_scores_R split: option.splits if_splits)
  also have "Re e1 e2" using 1(2) by (auto simp: score_pending_def Let_def same dest!: apply_scores_R split: if_splits)
  also have "Re e2 e4" using detect_triggers_scheduler [OF 1(3)] by (simp add: same)
  also have "Re e4 e'" using 1(4) by (auto intro: inject_eos_R same split: if_splits)
  finally show ?thesis .
qed

end

subsection \<open>Requests stay, or their end is announced\<close>

text \<open>The front end of the in-process engine is client 0.\<close>

definition clients_ok :: "scheduler \<Rightarrow> bool" where
  "clients_ok s \<longleftrightarrow> (\<forall>rid r. map_of (sc_requests s) rid = Some r \<longrightarrow> owner r = (0, rid))"

definition pruned_ids :: "scheduler \<Rightarrow> reqid set" where
  "pruned_ids s = finished_ids (dget_or (sc_pending_pruned_outputs s) 0 [])"

definition track :: "scheduler \<Rightarrow> scheduler \<Rightarrow> bool" where
  "track s s' \<longleftrightarrow> (clients_ok s \<longrightarrow> clients_ok s' \<and> keyset (sc_requests s) \<subseteq> keyset (sc_requests s') \<union> pruned_ids s' \<and> pruned_ids s \<subseteq> pruned_ids s')"

lemma finished_ids_append [simp]: "finished_ids (xs @ ys) = finished_ids xs \<union> finished_ids ys"
  by (auto simp: finished_ids_def)

lemma finished_ids_Cons: "finished_ids (x # xs) = (if eo_finish_reason x = None then {} else {eo_request_id x}) \<union> finished_ids xs"
  by (auto simp: finished_ids_def)

lemma stop_lowest_track:
  assumes "stop_lowest_running s = Inr (v, s')"
  shows "track s s'"
proof (cases "sc_running s = []")
  case True
  with assms show ?thesis by (simp add: stop_lowest_running_def track_def)
next
  case False
  define w where "w = last (sc_running s)"
  define s1 where "s1 = upd_req w (\<lambda>r. r\<lparr>rq_stop_reason := Some (StopText ''pruned''), rq_status := FINISHED_ABORTED\<rparr>) (s\<lparr>sc_running := butlast (sc_running s)\<rparr>)"
  define ci where "ci = rq_client_index (req_of s1 w)"
  define s2 where "s2 = s1\<lparr>sc_pending_pruned_outputs := AList.update ci
    (dget_or (sc_pending_pruned_outputs s1) ci [] @ [pruned_output s1 (req_of s1 w)]) (sc_pending_pruned_outputs s1)\<rparr>"
  have fr: "free_request w s2 = Inr s'"
    using assms False by (auto simp: stop_lowest_running_def Let_def ebind_eq_Inr w_def s1_def s2_def ci_def)
  have pend: "sc_pending_pruned_outputs s' = sc_pending_pruned_outputs s2"
    using fr by (auto simp: free_request_def free_blocks_of_def Let_def ebind_eq_Inr)
  have reqs: "sc_requests s' = AList.delete w (sc_requests s1)" using free_request_frame [OF fr] by (simp add: s2_def)
  have mono: "pruned_ids s \<subseteq> pruned_ids s'"
    by (simp add: pruned_ids_def pend s2_def s1_def upd_req_def dict_simps)
  have "clients_ok s'" if c: "clients_ok s"
    using c unfolding clients_ok_def reqs by (auto simp: s1_def upd_req_def dict_simps owner_def split: if_splits)
  moreover have "w \<in> pruned_ids s'" if c: "clients_ok s" and w: "w \<in> keyset (sc_requests s)"
  proof -
    obtain r where r: "map_of (sc_requests s) w = Some r" using w by (metis in_keys_map_of)
    then have "owner r = (0, w)" using c by (simp add: clients_ok_def)
    moreover have "req_of s1 w = r\<lparr>rq_stop_reason := Some (StopText ''pruned''), rq_status := FINISHED_ABORTED\<rparr>"
      using r by (simp add: req_of_def s1_def upd_req_def dict_simps)
    ultimately show ?thesis
      by (simp add: pruned_ids_def pend s2_def ci_def owner_def dict_simps finished_ids_Cons pruned_output_def)
  qed
  moreover have "keyset (sc_requests s) = keyset (sc_requests s1)" by (simp add: s1_def upd_req_def)
  ultimately show ?thesis using mono unfolding track_def reqs keyset_delete by blast
qed

lemma track_upd: "(\<And>r. owner (f r) = owner r) \<Longrightarrow> track s (upd_req rid f s)"
  by (auto simp: track_def clients_ok_def pruned_ids_def upd_req_def dict_simps simp del: set_map split: if_splits)

lemma add_request_track:
  assumes "add_request r s = Inr s'" and "clients_ok s \<Longrightarrow> rq_client_index r = 0"
  shows "track s s'"
proof -
  have "sc_requests s' = AList.update (rq_request_id r) r (sc_requests s)" "sc_pending_pruned_outputs s' = sc_pending_pruned_outputs s"
    using assms(1) by (auto simp: add_request_def Let_def ebind_eq_Inr)
  with assms(2) show ?thesis by (auto simp: track_def clients_ok_def pruned_ids_def dict_simps owner_def simp del: set_map split: if_splits)
qed

interpretation tracked: engine_relation track
proof
  show "track s s2" if "track s s1" "track s1 s2" for s s1 s2 using that unfolding track_def by blast
  show "track s s'" if "sc_requests s' = sc_requests s" "sc_pending_pruned_outputs s' = sc_pending_pruned_outputs s" for s s'
    using that by (simp add: track_def clients_ok_def pruned_ids_def)
  show "track s s1" if "map_of (sc_requests s) p = Some par" "rq_client_index r = rq_client_index par" "add_request r s = Inr s1" for s p par r s1
    by (rule add_request_track [OF that(3)]) (use that(1,2) in \<open>auto simp: clients_ok_def owner_def\<close>)
qed (rule track_upd stop_lowest_track; assumption)+

text \<open>A scheduler without requests stays without requests.\<close>

definition no_requests :: "scheduler \<Rightarrow> scheduler \<Rightarrow> bool" where
  "no_requests s s' \<longleftrightarrow> (sc_requests s = [] \<longrightarrow> sc_requests s' = [])"

interpretation idle: engine_relation no_requests
proof
  show "no_requests s s1" if "stop_lowest_running s = Inr (v, s1)" for s v s1
    using that by (auto simp: no_requests_def stop_lowest_running_def Let_def ebind_eq_Inr upd_req_def dmodify_def dest!: free_request_frame split: if_splits)
qed (auto simp: no_requests_def upd_req_def dmodify_def)

lemma tracked_trans [trans]: "track s s1 \<Longrightarrow> track s1 s2 \<Longrightarrow> track s s2"
  by (rule tracked.trans)

lemma draft_track: "track s (update_draft_token_ids ds s)"
proof (induction ds s rule: update_draft_token_ids.induct)
  case (2 rid toks ds s)
  have "track s (upd_req rid (\<lambda>r. if is_finished r then r else r\<lparr>rq_spec_token_ids := toks\<rparr>) s)" by (rule track_upd) (simp add: owner_def)
  with 2 show ?case by (auto intro: tracked.trans)
qed (simp add: tracked.same)

subsection \<open>Processing the sampled tokens\<close>

definition announced :: "update_ctx \<Rightarrow> reqid set" where
  "announced ux = finished_ids (dget_or (ux_outputs ux) 0 [])"

text \<open>The effect of one request of the batch, without the details of scores and counters.\<close>

lemma update_one_shape:
  assumes "update_one hasher so mo finals hists rid n ux = Inr ux'" and "map_of (sc_requests (ux_sched ux)) rid = Some r0"
  obtains toks :: "token list" and stopped r2 s2 out where "owner r2 = owner r0" "stopped \<longrightarrow> is_finished r2 \<and> toks \<noteq> []"
    "(if stopped then free_request rid (upd_req rid (\<lambda>_. r2) (ux_sched ux)) else Inr (upd_req rid (\<lambda>_. r2) (ux_sched ux))) = Inr s2"
    "ux_sched ux' = s2" "eo_request_id out = rid" "eo_finish_reason out = get_finished_reason r2"
    "ux_outputs ux' = (if toks \<noteq> [] then AList.update (rq_client_index r2) (dget_or (ux_outputs ux) (rq_client_index r2) [] @ [out]) (ux_outputs ux) else ux_outputs ux)"
proof -
  let ?s = "ux_sched ux" let ?draft = "dget_or (so_spec_tokens so) rid []"
  obtain generated where g: "sampled_for mo rid = Inr generated" using assms by (auto simp: update_one_def Let_def ebind_eq_Inr)
  define r1 where "r1 = (if ?draft \<noteq> [] then r0\<lparr>rq_num_computed_tokens := rq_num_computed_tokens r0 - (int (length ?draft) - (int (length generated) - 1))\<rparr> else r0)"
  obtain toks stopped r2 where u: "update_request_with_output hasher (sc_max_model_len ?s) r1 generated = Inr (toks, stopped, r2)"
    using assms g unfolding update_one_def Let_def by (auto simp: ebind_eq_Inr r1_def)
  note tok = update_request_tokens [OF u]
  have own: "owner r2 = owner r0" using tok by (simp add: owner_def r1_def)
  have st: "stopped \<longrightarrow> is_finished r2 \<and> toks \<noteq> []" using tok by simp
  obtain s2 where s2: "(if stopped then free_request rid (upd_req rid (\<lambda>_. r2) ?s) else Inr (upd_req rid (\<lambda>_. r2) ?s)) = Inr s2"
    using assms g u unfolding update_one_def Let_def r1_def by (auto simp: ebind_eq_Inr split del: if_split)
  define out where "out = \<lparr>eo_request_id = rid, eo_new_token_ids = toks, eo_finish_reason = get_finished_reason r2, eo_stop_reason = rq_stop_reason r2,
    eo_final_score = (case finals of Some d \<Rightarrow> if get_finished_reason r2 \<noteq> None then dget_or d rid None else None | None \<Rightarrow> None),
    eo_score_history = (case hists of Some d \<Rightarrow> if get_finished_reason r2 \<noteq> None then map_of d rid else None | None \<Rightarrow> None),
    eo_num_cached_tokens = rq_num_cached_tokens r2\<rparr>"
  have pos: "assert_that (n > 0) = Inr ()" using assms(1) by (auto simp: update_one_def ebind_eq_Inr)
  note eq = assms(1) [unfolded update_one_def Let_def pos assms(2) option.case g ebind_Inr r1_def [symmetric] u prod.case s2 out_def [symmetric]]
  have o: "eo_request_id out = rid" "eo_finish_reason out = get_finished_reason r2" unfolding out_def by simp_all
  have "ux_sched ux' = s2"
    "ux_outputs ux' = (if toks \<noteq> [] then AList.update (rq_client_index r2) (dget_or (ux_outputs ux) (rq_client_index r2) [] @ [out]) (ux_outputs ux) else ux_outputs ux)"
    unfolding sum.inject(2) [THEN iffD1, OF eq, symmetric] by simp_all
  from that [OF own st s2 this(1) o this(2)] show thesis .
qed

lemma update_one_delivers:
  assumes u: "update_one hasher so mo finals hists rid n ux = Inr ux'" and c: "clients_ok (ux_sched ux)"
  shows "clients_ok (ux_sched ux') \<and> keyset (sc_requests (ux_sched ux)) \<subseteq> keyset (sc_requests (ux_sched ux')) \<union> announced ux' \<and> announced ux \<subseteq> announced ux' \<and>
    sc_pending_pruned_outputs (ux_sched ux') = sc_pending_pruned_outputs (ux_sched ux)"
proof (cases "map_of (sc_requests (ux_sched ux)) rid")
  case None
  with u have "ux' = ux" by (auto simp: update_one_def Let_def ebind_eq_Inr)
  with c show ?thesis by simp
next
  case (Some r0)
  from u Some obtain toks :: "token list" and stopped r2 s2 out where s: "owner r2 = owner r0" "stopped \<longrightarrow> is_finished r2 \<and> toks \<noteq> []"
    "(if stopped then free_request rid (upd_req rid (\<lambda>_. r2) (ux_sched ux)) else Inr (upd_req rid (\<lambda>_. r2) (ux_sched ux))) = Inr s2"
    "ux_sched ux' = s2" "eo_request_id out = rid" "eo_finish_reason out = get_finished_reason r2"
    "ux_outputs ux' = (if toks \<noteq> [] then AList.update (rq_client_index r2) (dget_or (ux_outputs ux) (rq_client_index r2) [] @ [out]) (ux_outputs ux) else ux_outputs ux)"
    by (rule update_one_shape)
  have own: "owner r2 = (0, rid)" using s(1) c Some by (simp add: clients_ok_def)
  let ?s = "upd_req rid (\<lambda>_. r2) (ux_sched ux)"
  have c1: "clients_ok ?s" using c own Some by (auto simp: clients_ok_def upd_req_def dict_simps split: if_splits)
  have keys: "keyset (sc_requests ?s) = keyset (sc_requests (ux_sched ux))" by (simp add: upd_req_def)
  have mono: "announced ux \<subseteq> announced ux'" by (simp add: announced_def s(7) dict_simps)
  show ?thesis
  proof (cases stopped)
    case True
    then have f: "free_request rid ?s = Inr s2" using s(3) by simp
    have pend: "sc_pending_pruned_outputs s2 = sc_pending_pruned_outputs (ux_sched ux)"
      using f by (auto simp: free_request_def free_blocks_of_def Let_def ebind_eq_Inr upd_req_def)
    have reqs: "sc_requests s2 = AList.delete rid (sc_requests ?s)" using free_request_frame [OF f] by simp
    have "get_finished_reason r2 \<noteq> None" using s(2) [THEN mp, OF True] by (auto simp: get_finished_reason_def is_finished_def status_is_finished_iff)
    then have "rid \<in> announced ux'" using s(2) [THEN mp, OF True] s(5-7) own by (auto simp: announced_def owner_def dict_simps finished_ids_Cons)
    moreover have "clients_ok s2" using c1 by (simp add: clients_ok_def reqs dict_simps)
    ultimately show ?thesis using mono pend keys unfolding s(4) reqs keyset_delete by blast
  next
    case False
    then have "s2 = ?s" using s(3) by simp
    moreover have "sc_pending_pruned_outputs ?s = sc_pending_pruned_outputs (ux_sched ux)" by (simp add: upd_req_def)
    ultimately show ?thesis using c1 keys mono unfolding s(4) by simp
  qed
qed

lemma cover_trans: "K \<subseteq> K1 \<union> A1 \<Longrightarrow> K1 \<subseteq> K2 \<union> A2 \<Longrightarrow> A1 \<subseteq> A2 \<Longrightarrow> K \<subseteq> K2 \<union> A2"
  by blast

lemma update_loop_delivers:
  "update_loop hasher so mo finals hists xs ux = Inr ux' \<Longrightarrow> clients_ok (ux_sched ux) \<Longrightarrow>
    clients_ok (ux_sched ux') \<and> keyset (sc_requests (ux_sched ux)) \<subseteq> keyset (sc_requests (ux_sched ux')) \<union> announced ux' \<and> announced ux \<subseteq> announced ux' \<and>
    sc_pending_pruned_outputs (ux_sched ux') = sc_pending_pruned_outputs (ux_sched ux)"
proof (induction xs arbitrary: ux)
  case (Cons x xs)
  obtain rid n where x: "x = (rid, n)" by (cases x)
  from Cons.prems(1) obtain ux1 where ux1: "update_one hasher so mo finals hists rid n ux = Inr ux1" "update_loop hasher so mo finals hists xs ux1 = Inr ux'"
    by (auto simp: x ebind_eq_Inr)
  note one = update_one_delivers [OF ux1(1) Cons.prems(2)]
  note rest = Cons.IH [OF ux1(2) one [THEN conjunct1]]
  from one rest show ?case by (elim conjE, intro conjI) (assumption | erule (2) cover_trans | erule (1) subset_trans | simp only:)+
qed simp

text \<open>The outputs for one client.\<close>

definition outputs_for :: "int \<Rightarrow> (int, engine_core_outputs) dict \<Rightarrow> engine_core_output list" where
  "outputs_for ci outs = (case map_of outs ci of None \<Rightarrow> [] | Some eco \<Rightarrow> eos_outputs eco)"

lemma update_delivers:
  assumes u: "update_from_output hasher so mo finals hists s = Inr (outs, s')" and c: "clients_ok s"
  shows "clients_ok s' \<and> keyset (sc_requests s) \<union> pruned_ids s \<subseteq> keyset (sc_requests s') \<union> finished_ids (outputs_for 0 outs)"
proof -
  let ?ux = "\<lparr>ux_sched = s, ux_outputs = [], ux_stopped_running = {}, ux_stopped_preempted = []\<rparr>"
  obtain ux s1 where ux: "update_loop hasher so mo finals hists (so_num_scheduled_tokens so) ?ux = Inr ux" "remove_stopped ux = Inr s1"
    using u by (auto simp: update_from_output_def ebind_eq_Inr)
  define outs1 where "outs1 = merge_pruned (sc_pending_pruned_outputs s1) (map (\<lambda>(ci, os). (ci, \<lparr>eos_outputs = os, eos_finished_requests = None\<rparr>)) (ux_outputs ux))"
  have res: "sc_requests s' = sc_requests s1" "outs = outs1 \<or> (\<exists>d. outs = merge_finished d outs1)"
    using u ux by (auto simp: update_from_output_def Let_def outs1_def split: option.splits)
  have s1: "sc_requests s1 = sc_requests (ux_sched ux)" "sc_pending_pruned_outputs s1 = sc_pending_pruned_outputs (ux_sched ux)"
    using ux(2) by (auto simp: remove_stopped_def Let_def ebind_eq_Inr split: if_splits)
  have loop: "clients_ok (ux_sched ux)" "keyset (sc_requests s) \<subseteq> keyset (sc_requests (ux_sched ux)) \<union> announced ux"
    "sc_pending_pruned_outputs (ux_sched ux) = sc_pending_pruned_outputs s" using update_loop_delivers [OF ux(1)] c by simp_all
  have found: "\<exists>eco. map_of outs 0 = Some eco \<and> o' \<in> set (eos_outputs eco)"
    if o': "o' \<in> set (dget_or (sc_pending_pruned_outputs s) 0 []) \<or> o' \<in> set (dget_or (ux_outputs ux) 0 [])" for o'
  proof -
    have "\<exists>eco. map_of outs1 0 = Some eco \<and> o' \<in> set (eos_outputs eco)"
      unfolding outs1_def by (rule merge_pruned_delivers) (use o' s1(2) loop(3) in \<open>force simp: map_of_map dget_or_def split: option.splits\<close>)
    with res(2) merge_finished_keeps [of outs1 0] show ?thesis by fastforce
  qed
  have "pruned_ids s \<union> announced ux \<subseteq> finished_ids (outputs_for 0 outs)"
    using found unfolding pruned_ids_def announced_def finished_ids_def outputs_for_def by fastforce
  with loop res(1) s1(1) show ?thesis by (auto simp: clients_ok_def simp del: set_map)
qed

lemma attach_final_scores_ids: "finished_ids (outputs_for ci (attach_final_scores finals outs)) = finished_ids (outputs_for ci outs)"
proof -
  let ?f = "\<lambda>out. if eo_finish_reason out \<noteq> None \<and> eo_final_score out = None then out\<lparr>eo_final_score := dget_or finals (eo_request_id out) None\<rparr> else out"
  have ids: "finished_ids (map ?f xs) = finished_ids xs" for xs by (induction xs) (simp_all add: finished_ids_Cons)
  have "map_of (attach_final_scores finals outs) ci = map_option (\<lambda>eco. eco\<lparr>eos_outputs := map ?f (eos_outputs eco)\<rparr>) (map_of outs ci)"
    by (induction outs) (auto simp: attach_final_scores_def)
  with ids show ?thesis by (simp add: outputs_for_def split: option.splits)
qed

text \<open>The step of the engine: every request it had is still there afterwards, or its end is in the outputs for the front end.\<close>

lemma engine_step_delivers:
  assumes step: "engine_step ev e = Inr (out, e')" and c: "clients_ok (en_scheduler e)"
  shows "clients_ok (en_scheduler e') \<and>
    keyset (sc_requests (en_scheduler e)) \<subseteq> keyset (sc_requests (en_scheduler e')) \<union> finished_ids (outputs_for 0 (stp_outputs out))"
proof (cases "has_requests (en_scheduler e)")
  case False
  have "en_scheduler (drain_leftovers e) = en_scheduler e" by (simp add: drain_leftovers_def Let_def split: option.splits)
  with False step c show ?thesis by (auto simp: engine_step_def)
next
  case True
  obtain so s mo e2 e3 where run: "schedule (ev_int_hashes ev) (ev_fsm ev) (en_scheduler e) = Inr (so, s)"
    "gambit_after_forward ev so (ev_forward ev so) (e\<lparr>en_scheduler := s\<rparr>) = Inr (mo, e2)"
    "(if en_gambit_enabled e2 then capture_tokens mo (mo_req_id_to_index mo) e2 else Inr e2) = Inr e3" "finish_step ev so mo e3 = Inr (out, e')"
    using step True by (auto simp: engine_step_def Let_def ebind_eq_Inr)
  have "track (en_scheduler e) s" by (rule tracked.schedule [OF run(1)])
  also have "track s (en_scheduler e2)" using tracked.after_forward_R [OF run(2)] by simp
  also have "track (en_scheduler e2) (en_scheduler e3)" using run(3) by (auto simp: tracked.same dest!: capture_scheduler split: if_splits)
  finally have tr: "track (en_scheduler e) (en_scheduler e3)" .
  obtain outs s' finals hists where u: "update_from_output (ev_hasher ev) so mo finals hists (en_scheduler e3) = Inr (outs, s')"
    "en_scheduler e' = s'" "finished_ids (outputs_for 0 (stp_outputs out)) = finished_ids (outputs_for 0 outs)"
  proof -
    have fin: "en_scheduler (finalize_scores rids e0) = en_scheduler e0" for rids e0
      by (induction rids arbitrary: e0) (simp_all add: finalize_scores_def finalize_frame)
    let ?hists = "if gc_enable (en_config e3) \<and> gc_record_score_history (en_config e3) then Some (en_trace_scores e3) else None"
    obtain outs s' where u: "update_from_output (ev_hasher ev) so mo (Some (en_final_trace_scores e3)) ?hists (en_scheduler e3) = Inr (outs, s')"
      using run(4) by (auto simp: finish_step_def ebind_eq_Inr Let_def split del: if_split)
    define e1 where "e1 = (if sc_finished_req_ids s' \<noteq> {} then finalize_scores (ev_set_order ev (sc_finished_req_ids s')) (e3\<lparr>en_scheduler := s'\<rparr>) else e3\<lparr>en_scheduler := s'\<rparr>)"
    have "e' = e1" "stp_outputs out = (if en_final_trace_scores e1 \<noteq> [] then attach_final_scores (en_final_trace_scores e1) outs else outs)"
      using run(4) unfolding finish_step_def Let_def u ebind_Inr prod.case e1_def [symmetric] by auto
    then show thesis by (intro that [OF u]) (simp_all add: e1_def fin attach_final_scores_ids)
  qed
  have c3: "clients_ok (en_scheduler e3)" and keys: "keyset (sc_requests (en_scheduler e)) \<subseteq> keyset (sc_requests (en_scheduler e3)) \<union> pruned_ids (en_scheduler e3)"
    using tr c unfolding track_def by blast+
  note d = update_delivers [OF u(1) c3]
  from keys d [THEN conjunct2] have "keyset (sc_requests (en_scheduler e)) \<subseteq> keyset (sc_requests s') \<union> finished_ids (outputs_for 0 outs)" by (rule subset_trans)
  with d [THEN conjunct1] show ?thesis unfolding u(2,3) ..
qed

end
