(* ===== verification/LLM_Engine.thy ===== *)
theory LLM_Engine
  imports Engine_Run Delivery
begin

text \<open>
  The front end and the engine core together, in one process: \<open>LLMEngine\<close> of \<open>vllm/v1/engine/llm_engine.py\<close>, \<open>InprocClient\<close> of
  \<open>vllm/v1/engine/core_client.py\<close> and the loop \<open>LLM._run_engine\<close> of \<open>vllm/entrypoints/llm.py\<close> with its drain of the requests that
  Gambit created. Data-parallel groups, dummy batches, statistics, multi-modal caches, grammars and the progress bar are left out. The
  theory shows that every request the front end waits for is alive in the scheduler, so the loop never waits for an output that cannot come, and
  that the drain, which reads a stored export of the trace tree, can wait for ever.
\<close>

subsection \<open>The engine behind its client\<close>

record 'd llm_engine =
  ll_engine :: engine
  ll_processor :: "'d output_processor"
  ll_tree_export :: "gambit_export option"

definition new_llm_engine :: "bool \<Rightarrow> engine \<Rightarrow> 'd llm_engine" where
  "new_llm_engine tok e = \<lparr>ll_engine = e, ll_processor = new_output_processor tok, ll_tree_export = None\<rparr>"

definition preprocess_add_request :: "env \<Rightarrow> engine_core_request \<Rightarrow> request result" where
  "preprocess_add_request ev er = new_request (ev_hasher ev) (er_request_id er) (er_prompt_token_ids er)
     (map_option fp_params (er_sampling_params er)) (map_option fst (er_pooling_params er)) (er_eos_token_id er) (er_client_index er)
     (er_arrival_time er) (er_prompt_embeds er) (er_mm_features er) (er_lora_request er) (er_cache_salt er) (er_priority er)"

definition inproc_add_request :: "env \<Rightarrow> engine_core_request \<Rightarrow> engine \<Rightarrow> engine result" where
  "inproc_add_request ev er e = ebind (preprocess_add_request ev er) (\<lambda>r. engine_add_request ev r e)"

definition inproc_abort_requests :: "reqid list \<Rightarrow> engine \<Rightarrow> engine result" where
  "inproc_abort_requests ids e = (if ids = [] then Inr e else abort_requests ids e)"

text \<open>\<open>outputs and outputs.get(0) or EngineCoreOutputs()\<close>: the outputs for client 0 with the export attached to them, or empty ones.\<close>

definition inproc_get_output :: "env \<Rightarrow> engine \<Rightarrow> ((engine_core_output list \<times> gambit_export option) \<times> engine) result" where
  "inproc_get_output ev e =
     ebind (engine_step ev e) (\<lambda>(out, e1).
       Inr ((outputs_for 0 (stp_outputs out), if map_of (stp_outputs out) 0 = None then None else stp_export out), e1))"

subsection \<open>Adding and aborting\<close>

definition add_single :: "env \<Rightarrow> 'd decoder \<Rightarrow> engine_core_request \<Rightarrow> nat option \<Rightarrow> nat \<Rightarrow> 'd llm_engine \<Rightarrow> 'd llm_engine result" where
  "add_single ev dc er parent_req idx ll =
     ebind (op_add_request dc er parent_req idx None (ll_processor ll)) (\<lambda>op.
     ebind (inproc_add_request ev er (ll_engine ll)) (\<lambda>e. Inr (ll\<lparr>ll_engine := e, ll_processor := op\<rparr>)))"

text \<open>The fan-out of a request for several samples; the parent is the object at address \<open>a\<close>.\<close>

fun fan_out :: "env \<Rightarrow> 'd decoder \<Rightarrow> engine_core_request \<Rightarrow> nat \<Rightarrow> nat list \<Rightarrow> 'd llm_engine \<Rightarrow> 'd llm_engine result" where
  "fan_out ev dc er a [] ll = Inr ll"
| "fan_out ev dc er a (i # is) ll =
     (let op = ll_processor ll in
      case get_child_info i (op_parents op ! a) of ((cid, fp), p) \<Rightarrow>
        ebind (add_single ev dc (er\<lparr>er_request_id := cid, er_sampling_params := Some fp\<rparr>) (Some a) i
                 (ll\<lparr>ll_processor := op\<lparr>op_parents := (op_parents op)[a := p]\<rparr>\<rparr>)) (fan_out ev dc er a is))"

definition llm_add_request :: "env \<Rightarrow> 'd decoder \<Rightarrow> engine_core_request \<Rightarrow> 'd llm_engine \<Rightarrow> 'd llm_engine result" where
  "llm_add_request ev dc er ll =
     (case er_sampling_params er of
        None \<Rightarrow> add_single ev dc er None 0 ll
      | Some fp \<Rightarrow>
          if fp_n fp = 1 then add_single ev dc er None 0 ll
          else
          let op = ll_processor ll; a = length (op_parents op)
          in fan_out ev dc er a [0..<fp_n fp]
               (ll\<lparr>ll_processor := op\<lparr>op_parents := op_parents op @ [new_parent (er_request_id er) fp]\<rparr>\<rparr>))"

definition llm_abort_request :: "env \<Rightarrow> reqid list \<Rightarrow> 'd llm_engine \<Rightarrow> 'd llm_engine result" where
  "llm_abort_request ev ids ll =
     ebind (op_abort_requests 1 (ev_set_order ev) ids (ll_processor ll)) (\<lambda>(ids1, op).
     ebind (inproc_abort_requests ids1 (ll_engine ll)) (\<lambda>e. Inr (ll\<lparr>ll_engine := e, ll_processor := op\<rparr>)))"

subsection \<open>Stepping\<close>

definition llm_step :: "env \<Rightarrow> 'd decoder \<Rightarrow> 'd llm_engine \<Rightarrow> (req_output list \<times> 'd llm_engine) result" where
  "llm_step ev dc ll =
     ebind (inproc_get_output ev (ll_engine ll)) (\<lambda>((outputs, export), e).
     ebind (process_outputs dc outputs (ll_processor ll)) (\<lambda>(request_outputs, reqs_to_abort, op).
     ebind (inproc_abort_requests reqs_to_abort e) (\<lambda>e1.
       Inr (request_outputs, \<lparr>ll_engine = e1, ll_processor = op,
         ll_tree_export = (if export \<noteq> None then export else ll_tree_export ll)\<rparr>))))"

definition llm_has_unfinished_requests :: "'d llm_engine \<Rightarrow> bool" where
  "llm_has_unfinished_requests ll = has_unfinished_requests (ll_processor ll)"

definition llm_get_gambit_tree_export :: "'d llm_engine \<Rightarrow> gambit_export option" where
  "llm_get_gambit_tree_export ll =
     (case ll_tree_export ll of Some x \<Rightarrow> Some x | None \<Rightarrow> get_gambit_tree_export (ll_engine ll))"

definition llm_reset_gambit_state :: "'d llm_engine \<Rightarrow> 'd llm_engine" where
  "llm_reset_gambit_state ll = ll\<lparr>ll_engine := reset_gambit_state (ll_engine ll), ll_tree_export := None\<rparr>"

subsection \<open>The loop of the entry point\<close>

text \<open>Each step has its own answers of the model and the scorer. \<open>None\<close> is a loop that does not end.\<close>

definition output_finished :: "req_output \<Rightarrow> bool" where
  "output_finished out = (case out of RequestOutput ro \<Rightarrow> ro_finished ro | PoolingRequestOutput po \<Rightarrow> po_finished po)"

partial_function (option) run_loop :: "(nat \<Rightarrow> env) \<Rightarrow> 'd decoder \<Rightarrow> nat \<Rightarrow> req_output list \<Rightarrow> 'd llm_engine \<Rightarrow>
    (req_output list \<times> nat \<times> 'd llm_engine) result option" where
  "run_loop envs dc k outs ll =
     (if llm_has_unfinished_requests ll then
        (case llm_step (envs k) dc ll of
           Inl ex \<Rightarrow> Some (Inl ex)
         | Inr (step_outputs, ll1) \<Rightarrow> run_loop envs dc (Suc k) (outs @ filter output_finished step_outputs) ll1)
      else Some (Inr (outs, k, ll)))"

declare run_loop.simps [code]

definition drain_count :: "'d llm_engine \<Rightarrow> nat option" where
  "drain_count ll = map_option gx_scheduler_active_count (llm_get_gambit_tree_export ll)"

partial_function (option) drain_loop :: "(nat \<Rightarrow> env) \<Rightarrow> 'd decoder \<Rightarrow> nat \<Rightarrow> nat \<Rightarrow> 'd llm_engine \<Rightarrow> 'd llm_engine result option" where
  "drain_loop envs dc k sched_count ll =
     (if sched_count > 0 then
        (case llm_step (envs k) dc ll of
           Inl ex \<Rightarrow> Some (Inl ex)
         | Inr (_, ll1) \<Rightarrow>
             (case drain_count ll1 of
                None \<Rightarrow> Some (Inr ll1)
              | Some c \<Rightarrow> drain_loop envs dc (Suc k) c ll1))
      else Some (Inr ll))"

declare drain_loop.simps [code]

text \<open>\<open>_run_engine\<close>, up to the sorting of the outputs: an exception of the first loop is raised, one of the drain is logged.\<close>

definition run_engine :: "(nat \<Rightarrow> env) \<Rightarrow> 'd decoder \<Rightarrow> 'd llm_engine \<Rightarrow> (req_output list \<times> 'd llm_engine result) result option" where
  "run_engine envs dc ll =
     (case run_loop envs dc 0 [] ll of
        None \<Rightarrow> None
      | Some (Inl ex) \<Rightarrow> Some (Inl ex)
      | Some (Inr (outs, k, ll1)) \<Rightarrow>
          (case drain_loop envs dc k (case drain_count ll1 of None \<Rightarrow> 0 | Some c \<Rightarrow> c) ll1 of
             None \<Rightarrow> None
           | Some res \<Rightarrow> Some (Inr (outs, res))))"

subsection \<open>Requests at the front end and in the scheduler\<close>

definition llm_ok :: "gambit_config \<Rightarrow> bool \<Rightarrow> (hash_input \<Rightarrow> bytes) \<Rightarrow> bytes \<Rightarrow> nat \<Rightarrow> 'd llm_engine \<Rightarrow> bool" where
  "llm_ok cfg caching hf nh bs ll \<longleftrightarrow> engine_ok cfg caching hf nh bs (ll_engine ll) \<and> clients_ok (en_scheduler (ll_engine ll)) \<and>
     op_ok (ll_processor ll) \<and> parents_flat (ll_processor ll) \<and>
     keyset (op_request_states (ll_processor ll)) \<subseteq> keyset (sc_requests (en_scheduler (ll_engine ll)))"

lemma inproc_abort_ok:
  assumes ok: "engine_ok cfg caching hf nh bs e" and c: "clients_ok (en_scheduler e)"
  shows "\<exists>e'. inproc_abort_requests ids e = Inr e' \<and> engine_ok cfg caching hf nh bs e' \<and> clients_ok (en_scheduler e') \<and>
    keyset (sc_requests (en_scheduler e')) = keyset (sc_requests (en_scheduler e)) - set ids"
proof (cases "ids = []")
  case True
  with assms show ?thesis by (simp add: inproc_abort_requests_def)
next
  case False
  let ?s = "en_scheduler e"
  have inv: "sched_inv caching bs (live_ok hf nh bs UNIV) computed_ok ?s" using ok by (simp add: engine_ok_def)
  obtain w where w: "sc_waiting ?s = FCFSQueue w" using inv by (rule sched_invE)
  have fin: "status_is_finished FINISHED_ABORTED" by (simp add: status_is_finished_iff)
  obtain s where s: "finish_requests ids FINISHED_ABORTED ?s = Inr s" "keyset (sc_requests s) = keyset (sc_requests ?s) - set ids"
    using finish_requests_ok [OF inv fin w refl, of ids] by (elim exE conjE) (rule that; assumption)
  obtain e' where e': "abort_requests ids e = Inr e'" "engine_ok cfg caching hf nh bs e'" using abort_keeps [OF ok, of ids] by blast
  have sch: "en_scheduler e' = s" using e'(1) s(1) by (auto simp: abort_requests_def)
  have "clients_ok s" using c finish_requests_map [OF s(1)] unfolding clients_ok_def by blast
  with False e' s(2) sch show ?thesis by (simp add: inproc_abort_requests_def del: set_map)
qed

lemma llm_step_ok:
  assumes ok: "llm_ok cfg caching hf nh bs ll" and ev: "env_ok cfg hf nh bs ev"
  shows "\<exists>outs ll'. llm_step ev dc ll = Inr (outs, ll') \<and> llm_ok cfg caching hf nh bs ll'"
proof -
  let ?e = "ll_engine ll" let ?op = "ll_processor ll"
  have l: "engine_ok cfg caching hf nh bs ?e" "clients_ok (en_scheduler ?e)" "op_ok ?op" "parents_flat ?op"
    "keyset (op_request_states ?op) \<subseteq> keyset (sc_requests (en_scheduler ?e))" using ok unfolding llm_ok_def by blast+
  obtain out e1 where e1: "engine_step ev ?e = Inr (out, e1)" "engine_ok cfg caching hf nh bs e1" using engine_step_keeps [OF l(1) ev] by blast
  let ?eos = "outputs_for 0 (stp_outputs out)"
  note d = engine_step_delivers [OF e1(1) l(2)]
  obtain outs aborts op1 where p: "process_outputs dc ?eos ?op = Inr (outs, aborts, op1)" "op_ok op1" "parents_flat ?op \<longrightarrow> parents_flat op1"
    "keyset (op_request_states op1) = keyset (op_request_states ?op) - finished_ids ?eos - set aborts"
    using process_outputs_spec [OF l(3), of dc ?eos] by (elim exE conjE) (rule that; assumption)
  obtain e2 where e2: "inproc_abort_requests aborts e1 = Inr e2" "engine_ok cfg caching hf nh bs e2" "clients_ok (en_scheduler e2)"
    "keyset (sc_requests (en_scheduler e2)) = keyset (sc_requests (en_scheduler e1)) - set aborts"
    using inproc_abort_ok [OF e1(2) d [THEN conjunct1]] by blast
  let ?ex = "if map_of (stp_outputs out) 0 = None then None else stp_export out"
  let ?ll = "\<lparr>ll_engine = e2, ll_processor = op1, ll_tree_export = (if ?ex \<noteq> None then ?ex else ll_tree_export ll)\<rparr>"
  have "llm_step ev dc ll = Inr (outs, ?ll)" using e1(1) p(1) e2(1) by (simp add: llm_step_def inproc_get_output_def)
  moreover have "keyset (op_request_states op1) \<subseteq> keyset (sc_requests (en_scheduler e2))"
    unfolding p(4) e2(4) using l(5) d [THEN conjunct2] by blast
  then have "llm_ok cfg caching hf nh bs ?ll" using p(2,3) l(4) e2(2,3) by (simp add: llm_ok_def del: set_map)
  ultimately show ?thesis by blast
qed

lemma llm_abort_ok:
  assumes ok: "llm_ok cfg caching hf nh bs ll" and ev: "set_order_ok ev"
  shows "\<exists>ll'. llm_abort_request ev ids ll = Inr ll' \<and> llm_ok cfg caching hf nh bs ll'"
proof -
  let ?e = "ll_engine ll" let ?op = "ll_processor ll"
  have l: "engine_ok cfg caching hf nh bs ?e" "clients_ok (en_scheduler ?e)" "op_ok ?op" "parents_flat ?op"
    "keyset (op_request_states ?op) \<subseteq> keyset (sc_requests (en_scheduler ?e))" using ok unfolding llm_ok_def by blast+
  have ord: "\<forall>A. finite A \<longrightarrow> set (ev_set_order ev A) = A" using ev by (simp add: set_order_ok_def)
  obtain ids1 op1 where a: "op_abort_requests 1 (ev_set_order ev) ids ?op = Inr (ids1, op1)" "op_ok op1" "parents_flat op1"
    "set ids1 = keyset (op_request_states ?op) - keyset (op_request_states op1)"
    "keyset (op_request_states op1) = keyset (op_request_states ?op) - (\<Union>rid \<in> set ids. insert rid (children_of ?op rid))"
    using op_abort_returns [OF l(3,4) ord, of ids] by (elim exE conjE) (rule that; assumption)
  obtain e1 where e1: "inproc_abort_requests ids1 ?e = Inr e1" "engine_ok cfg caching hf nh bs e1" "clients_ok (en_scheduler e1)"
    "keyset (sc_requests (en_scheduler e1)) = keyset (sc_requests (en_scheduler ?e)) - set ids1"
    using inproc_abort_ok [OF l(1,2)] by blast
  have "keyset (op_request_states op1) \<subseteq> keyset (sc_requests (en_scheduler e1))" using l(5) a(5) unfolding e1(4) a(4) by blast
  then have "llm_ok cfg caching hf nh bs (ll\<lparr>ll_engine := e1, ll_processor := op1\<rparr>)" using a(2,3) e1(2,3) by (simp add: llm_ok_def del: set_map)
  with a(1) e1(1) show ?thesis by (simp add: llm_abort_request_def)
qed

subsection \<open>New requests\<close>

text \<open>What the engine does with a new request, as far as later requests can see.\<close>

lemma engine_add_effect:
  assumes "engine_add_request ev r e = Inr e'"
  shows "sc_requests (en_scheduler e') = AList.update (rq_request_id r) r (sc_requests (en_scheduler e)) \<and>
    sc_pending_pruned_outputs (en_scheduler e') = sc_pending_pruned_outputs (en_scheduler e) \<and>
    sc_max_model_len (en_scheduler e') = sc_max_model_len (en_scheduler e) \<and>
    (en_trace_tree e' = en_trace_tree e \<or> (\<exists>t. en_trace_tree e = Some t \<and> en_trace_tree e' = Some (add_root (rq_request_id r) t)))"
proof -
  obtain s where s: "add_request r (en_scheduler e) = Inr s" using assms by (auto simp: engine_add_request_def ebind_eq_Inr)
  have "sc_requests s = AList.update (rq_request_id r) r (sc_requests (en_scheduler e))" "sc_max_model_len s = sc_max_model_len (en_scheduler e)"
    "sc_pending_pruned_outputs s = sc_pending_pruned_outputs (en_scheduler e)"
    using s by (auto simp: add_request_def Let_def ebind_eq_Inr)
  with s assms show ?thesis by (auto simp: engine_add_request_def ebind_eq_Inr Let_def split: option.splits if_splits)
qed

lemma acceptable_add:
  assumes "acceptable hf nh bs r e" and "engine_add_request ev r' e = Inr e'" and "rq_request_id r \<noteq> rq_request_id r'"
  shows "acceptable hf nh bs r e'"
proof -
  note f = engine_add_effect [OF assms(2)]
  have "\<not> tree_contains (add_root (rq_request_id r') t) (rq_request_id r)" if "\<not> tree_contains t (rq_request_id r)" for t
    using that assms(3) by (auto simp: tree_contains_def add_root_def invalidate_lineage_cache_def simp del: set_map)
  with f assms(1,3) show ?thesis by (auto simp: acceptable_def simp del: set_map split: option.splits)
qed

text \<open>A text request enters the table: as a request of its own, or as a child that its parent knows.\<close>

definition parent_fits :: "reqid \<Rightarrow> nat \<Rightarrow> nat \<Rightarrow> 'd output_processor \<Rightarrow> bool" where
  "parent_fits rid idx a op \<longleftrightarrow> a < length (op_parents op) \<and> (let p = op_parents op ! a in
     CHR ''_'' \<notin> set (pa_request_id p) \<and> pa_request_id p \<notin> keyset (op_request_states op) \<and> finite (pa_child_requests p) \<and>
     (\<forall>c \<in> pa_child_requests p. CHR ''_'' \<in> set c) \<and> rid \<in> pa_child_requests p \<and>
     (fp_output_kind (pa_sampling_params p) = FINAL_ONLY \<longrightarrow> idx < length (pa_output_aggregator p)))"

lemma op_add_ok:
  assumes op: "op_ok op" "parents_flat op" and new: "er_request_id er \<notin> keyset (op_request_states op)" and fp: "er_sampling_params er = Some fp"
    and par: "case pt of None \<Rightarrow> er_request_id er \<notin> keyset (op_parent_requests op) | Some a \<Rightarrow> parent_fits (er_request_id er) idx a op"
  shows "\<exists>op'. op_add_request dc er pt idx None op = Inr op' \<and> op_ok op' \<and> parents_flat op' \<and> op_parents op' = op_parents op \<and>
    keyset (op_request_states op') = insert (er_request_id er) (keyset (op_request_states op))"
proof -
  let ?rid = "er_request_id er"
  obtain rs where rs: "from_new_request dc (op_has_tokenizer op) er pt idx None = Inr rs" "rs_request_id rs = ?rid" "rs_detokenizer rs \<noteq> None"
    "rs_queue rs = None" "rs_parent_req rs = pt" "rs_request_index rs = idx" using fp by (simp add: from_new_request_def Let_def)
  define op' where "op' = op\<lparr>op_request_states := AList.update ?rid rs (op_request_states op), op_parent_requests := (case pt of
    None \<Rightarrow> op_parent_requests op | Some a \<Rightarrow> AList.update (pa_request_id (op_parents op ! a)) a (op_parent_requests op))\<rparr>"
  have run: "op_add_request dc er pt idx None op = Inr op'" using new rs(1) by (simp add: op_add_request_def op'_def)
  have "state_ok (op_parents op) ?rid rs"
    using par rs by (auto simp: state_ok_def parent_fits_def Let_def split: option.splits)
  then have "op_ok op'" using op(1) by (auto simp: op_ok_def op'_def dict_simps)
  moreover have "parents_flat op'"
  proof (cases pt)
    case None
    with op(2) par show ?thesis unfolding parents_flat_def op'_def by (auto simp: map_of_None_iff dest: map_of_in_keys simp del: set_map)
  next
    case (Some a)
    have fits: "parent_fits ?rid idx a op" using par Some by simp
    then have "CHR ''_'' \<in> set ?rid" by (auto simp: parent_fits_def Let_def)
    with op(2) fits Some show ?thesis unfolding parents_flat_def op'_def parent_fits_def Let_def
      by (auto simp: dict_simps simp del: set_map)
  qed
  moreover have "op_parents op' = op_parents op" "keyset (op_request_states op') = insert ?rid (keyset (op_request_states op))" by (simp_all add: op'_def)
  ultimately show ?thesis using run by blast
qed

lemma add_single_ok:
  assumes ok: "llm_ok cfg caching hf nh bs ll" and er: "er_client_index er = 0" "er_sampling_params er = Some fp"
    and r: "preprocess_add_request ev er = Inr r" "acceptable hf nh bs r (ll_engine ll)"
    and par: "case pt of None \<Rightarrow> er_request_id er \<notin> keyset (op_parent_requests (ll_processor ll))
      | Some a \<Rightarrow> parent_fits (er_request_id er) idx a (ll_processor ll)"
  shows "\<exists>ll'. add_single ev dc er pt idx ll = Inr ll' \<and> llm_ok cfg caching hf nh bs ll' \<and> op_parents (ll_processor ll') = op_parents (ll_processor ll) \<and>
    keyset (op_request_states (ll_processor ll')) = insert (er_request_id er) (keyset (op_request_states (ll_processor ll))) \<and>
    (\<forall>q. acceptable hf nh bs q (ll_engine ll) \<longrightarrow> rq_request_id q \<noteq> er_request_id er \<longrightarrow> acceptable hf nh bs q (ll_engine ll'))"
proof -
  let ?e = "ll_engine ll" let ?op = "ll_processor ll"
  have l: "engine_ok cfg caching hf nh bs ?e" "clients_ok (en_scheduler ?e)" "op_ok ?op" "parents_flat ?op"
    "keyset (op_request_states ?op) \<subseteq> keyset (sc_requests (en_scheduler ?e))" using ok unfolding llm_ok_def by blast+
  have own: "owner r = (0, er_request_id er)" using new_request_owner [OF r(1) [unfolded preprocess_add_request_def]] er(1) by simp
  then have rid: "rq_request_id r = er_request_id er" by (simp add: owner_def)
  have "rq_request_id r \<notin> keyset (sc_requests (en_scheduler ?e))" using r(2) by (simp add: acceptable_def del: set_map)
  with l(5) rid have new: "er_request_id er \<notin> keyset (op_request_states ?op)" by (auto simp del: set_map)
  obtain op1 where op1: "op_add_request dc er pt idx None ?op = Inr op1" "op_ok op1" "parents_flat op1" "op_parents op1 = op_parents ?op"
    "keyset (op_request_states op1) = insert (er_request_id er) (keyset (op_request_states ?op))"
    using op_add_ok [OF l(3,4) new er(2) par, of dc] by blast
  obtain e1 where e1: "engine_add_request ev r ?e = Inr e1" "engine_ok cfg caching hf nh bs e1" using engine_add_keeps [OF l(1) r(2)] by blast
  note f = engine_add_effect [OF e1(1)]
  have "clients_ok (en_scheduler e1)" using f l(2) own by (auto simp: clients_ok_def dict_simps owner_def split: if_splits)
  moreover have "keyset (op_request_states op1) \<subseteq> keyset (sc_requests (en_scheduler e1))" using f l(5) rid unfolding op1(5) by (auto simp del: set_map)
  ultimately have "llm_ok cfg caching hf nh bs (ll\<lparr>ll_engine := e1, ll_processor := op1\<rparr>)" using op1(2,3) e1(2) by (simp add: llm_ok_def del: set_map)
  moreover have "add_single ev dc er pt idx ll = Inr (ll\<lparr>ll_engine := e1, ll_processor := op1\<rparr>)"
    using op1(1) r(1) e1(1) by (simp add: add_single_def inproc_add_request_def)
  moreover have "\<forall>q. acceptable hf nh bs q ?e \<longrightarrow> rq_request_id q \<noteq> er_request_id er \<longrightarrow> acceptable hf nh bs q e1"
    using acceptable_add [OF _ e1(1)] rid by simp
  ultimately show ?thesis using op1(4,5) by simp
qed

text \<open>A child that is announced to its parent.\<close>

lemma parents_grow:
  assumes op: "op_ok op" "parents_flat op" and c: "CHR ''_'' \<in> set c"
    and p': "pa_child_requests p' = insert c (pa_child_requests (op_parents op ! a))" "pa_sampling_params p' = pa_sampling_params (op_parents op ! a)"
      "pa_output_aggregator p' = pa_output_aggregator (op_parents op ! a)" "pa_request_id p' = pa_request_id (op_parents op ! a)"
  shows "op_ok (op\<lparr>op_parents := (op_parents op)[a := p']\<rparr>)" and "parents_flat (op\<lparr>op_parents := (op_parents op)[a := p']\<rparr>)"
proof -
  have nth: "(op_parents op)[a := p'] ! b = (if b = a \<and> a < length (op_parents op) then p' else op_parents op ! b)" for b
    by (cases "b = a") (simp_all add: list_update_beyond)
  have "state_ok ((op_parents op)[a := p']) rid rs" if "state_ok (op_parents op) rid rs" for rid rs
    using that p' by (auto simp: state_ok_def nth split: option.splits)
  with op(1) show "op_ok (op\<lparr>op_parents := (op_parents op)[a := p']\<rparr>)" by (auto simp: op_ok_def)
  show "parents_flat (op\<lparr>op_parents := (op_parents op)[a := p']\<rparr>)"
    using op(2) c p'(1) by (auto simp: parents_flat_def nth simp del: set_map)
qed

definition child_request :: "engine_core_request \<Rightarrow> front_params \<Rightarrow> nat \<Rightarrow> engine_core_request" where
  "child_request er fp i = er\<lparr>er_request_id := child_id i (er_request_id er), er_sampling_params := Some (child_params fp i)\<rparr>"

definition parent_at :: "engine_core_request \<Rightarrow> front_params \<Rightarrow> nat \<Rightarrow> 'd output_processor \<Rightarrow> bool" where
  "parent_at er fp a op \<longleftrightarrow> a < length (op_parents op) \<and> er_request_id er \<notin> keyset (op_request_states op) \<and> (let p = op_parents op ! a in
     parent_ok fp p \<and> pa_request_id p = er_request_id er \<and> finite (pa_child_requests p) \<and> (\<forall>c \<in> pa_child_requests p. CHR ''_'' \<in> set c) \<and>
     (fp_output_kind fp = FINAL_ONLY \<longrightarrow> length (pa_output_aggregator p) = fp_n fp))"

lemma child_id_underscore: "CHR ''_'' \<in> set (child_id i rid)"
  by (simp add: child_id_def)

lemma fan_out_ok:
  assumes er: "er_client_index er = 0" "CHR ''_'' \<notin> set (er_request_id er)"
  shows "llm_ok cfg caching hf nh bs ll \<Longrightarrow> distinct is \<Longrightarrow> set is \<subseteq> {..<fp_n fp} \<Longrightarrow> parent_at er fp a (ll_processor ll) \<Longrightarrow>
    \<forall>i \<in> set is. \<exists>r. preprocess_add_request ev (child_request er fp i) = Inr r \<and> acceptable hf nh bs r (ll_engine ll) \<Longrightarrow>
    \<exists>ll'. fan_out ev dc er a is ll = Inr ll' \<and> llm_ok cfg caching hf nh bs ll'"
proof (induction "is" arbitrary: ll)
  case (Cons i "is")
  let ?op = "ll_processor ll" let ?p = "op_parents ?op ! a" let ?c = "child_id i (er_request_id er)" let ?er = "child_request er fp i"
  have at: "a < length (op_parents ?op)" "er_request_id er \<notin> keyset (op_request_states ?op)" "parent_ok fp ?p" "pa_request_id ?p = er_request_id er"
    "finite (pa_child_requests ?p)" "\<forall>c \<in> pa_child_requests ?p. CHR ''_'' \<in> set c" "fp_output_kind fp = FINAL_ONLY \<longrightarrow> length (pa_output_aggregator ?p) = fp_n fp"
    using Cons.prems(4) unfolding parent_at_def Let_def by blast+
  obtain p' where p': "get_child_info i ?p = ((?c, child_params fp i), p')" "parent_ok fp p'" "pa_child_requests p' = insert ?c (pa_child_requests ?p)"
    "pa_request_id p' = pa_request_id ?p" "pa_output_aggregator p' = pa_output_aggregator ?p" using get_child_info_spec [OF at(3), of i] at(4) by auto
  have sp: "pa_sampling_params p' = pa_sampling_params ?p" "pa_sampling_params p' = fp" using p'(2) at(3) by (simp_all add: parent_ok_def)
  define op1 where "op1 = ?op\<lparr>op_parents := (op_parents ?op)[a := p']\<rparr>"
  define ll1 where "ll1 = ll\<lparr>ll_processor := op1\<rparr>"
  have ll1: "llm_ok cfg caching hf nh bs ll1"
    using Cons.prems(1) parents_grow [of ?op ?c p' a, OF _ _ child_id_underscore p'(3) sp(1) p'(5,4)] by (simp add: llm_ok_def ll1_def op1_def del: set_map)
  have fits: "parent_fits ?c i a op1"
    using at p' sp Cons.prems(3) er(2) child_id_underscore [of i "er_request_id er"] by (simp add: parent_fits_def Let_def op1_def del: set_map)
  obtain r where r: "preprocess_add_request ev ?er = Inr r" "acceptable hf nh bs r (ll_engine ll1)" using Cons.prems(5) by (auto simp: ll1_def)
  have erc: "er_client_index ?er = 0" "er_sampling_params ?er = Some (child_params fp i)" "er_request_id ?er = ?c" using er(1) by (simp_all add: child_request_def)
  obtain ll2 where ll2: "add_single ev dc ?er (Some a) i ll1 = Inr ll2" "llm_ok cfg caching hf nh bs ll2"
    "op_parents (ll_processor ll2) = op_parents op1" "keyset (op_request_states (ll_processor ll2)) = insert ?c (keyset (op_request_states ?op))"
    "\<forall>q. acceptable hf nh bs q (ll_engine ll1) \<longrightarrow> rq_request_id q \<noteq> ?c \<longrightarrow> acceptable hf nh bs q (ll_engine ll2)"
    using add_single_ok [OF ll1 erc(1,2) r, where pt = "Some a" and idx = i and dc = dc] fits unfolding erc(3) by (auto simp: ll1_def op1_def simp del: set_map)
  have "?c \<noteq> er_request_id er" using er(2) child_id_underscore by metis
  then have at2: "parent_at er fp a (ll_processor ll2)"
    using at p' ll2(3,4) child_id_underscore [of i "er_request_id er"] by (simp add: parent_at_def Let_def op1_def del: set_map)
  have "\<exists>r. preprocess_add_request ev (child_request er fp j) = Inr r \<and> acceptable hf nh bs r (ll_engine ll2)" if j: "j \<in> set is" for j
  proof -
    obtain q where q: "preprocess_add_request ev (child_request er fp j) = Inr q" "acceptable hf nh bs q (ll_engine ll)" using Cons.prems(5) j by (metis list.set_intros(2))
    have "rq_request_id q = child_id j (er_request_id er)"
      using new_request_owner [OF q(1) [unfolded preprocess_add_request_def]] by (simp add: owner_def child_request_def)
    then have "rq_request_id q \<noteq> ?c" using j Cons.prems(2) by (auto simp: child_id_inj)
    with ll2(5) q show ?thesis by (simp add: ll1_def)
  qed
  then obtain ll3 where "fan_out ev dc er a is ll2 = Inr ll3" "llm_ok cfg caching hf nh bs ll3"
    using Cons.IH [OF ll2(2) _ _ at2] Cons.prems(2,3) by auto
  with p'(1) ll2(1) show ?case by (simp add: Let_def child_request_def ll1_def op1_def)
qed simp

text \<open>A request of the front end that the engine can take: new, from client 0, with an id without underscore, and each request made
  from it acceptable.\<close>

definition front_acceptable :: "env \<Rightarrow> (hash_input \<Rightarrow> bytes) \<Rightarrow> bytes \<Rightarrow> nat \<Rightarrow> engine_core_request \<Rightarrow> 'd llm_engine \<Rightarrow> bool" where
  "front_acceptable ev hf nh bs er ll \<longleftrightarrow> er_client_index er = 0 \<and> CHR ''_'' \<notin> set (er_request_id er) \<and>
     er_request_id er \<notin> keyset (op_request_states (ll_processor ll)) \<union> keyset (op_parent_requests (ll_processor ll)) \<and>
     (case er_sampling_params er of
        None \<Rightarrow> False
      | Some fp \<Rightarrow> \<forall>c \<in> set (if fp_n fp = 1 then [er] else map (child_request er fp) [0..<fp_n fp]).
          case preprocess_add_request ev c of Inl _ \<Rightarrow> False | Inr r \<Rightarrow> acceptable hf nh bs r (ll_engine ll))"

lemma llm_add_ok:
  assumes ok: "llm_ok cfg caching hf nh bs ll" and acc: "front_acceptable ev hf nh bs er ll"
  shows "\<exists>ll'. llm_add_request ev dc er ll = Inr ll' \<and> llm_ok cfg caching hf nh bs ll'"
proof -
  let ?op = "ll_processor ll"
  obtain fp where fp: "er_sampling_params er = Some fp" using acc by (auto simp: front_acceptable_def split: option.splits)
  have er: "er_client_index er = 0" "CHR ''_'' \<notin> set (er_request_id er)" "er_request_id er \<notin> keyset (op_request_states ?op)"
    "er_request_id er \<notin> keyset (op_parent_requests ?op)" using acc unfolding front_acceptable_def by blast+
  have req: "\<exists>r. preprocess_add_request ev c = Inr r \<and> acceptable hf nh bs r (ll_engine ll)"
    if "c \<in> set (if fp_n fp = 1 then [er] else map (child_request er fp) [0..<fp_n fp])" for c
    using acc that fp unfolding front_acceptable_def by (simp split: sum.splits) (metis (no_types, lifting) old.sum.exhaust)
  show ?thesis
  proof (cases "fp_n fp = 1")
    case True
    then obtain r where r: "preprocess_add_request ev er = Inr r" "acceptable hf nh bs r (ll_engine ll)" using req [of er] by auto
    from add_single_ok [OF ok er(1) fp r, where pt = None and idx = 0 and dc = dc] er(4) True fp show ?thesis by (auto simp: llm_add_request_def simp del: set_map)
  next
    case False
    let ?a = "length (op_parents ?op)"
    define op1 where "op1 = ?op\<lparr>op_parents := op_parents ?op @ [new_parent (er_request_id er) fp]\<rparr>"
    define ll1 where "ll1 = ll\<lparr>ll_processor := op1\<rparr>"
    have "op_ok op1" using ok by (auto simp: llm_ok_def op1_def op_ok_def state_ok_def nth_append split: option.splits)
    moreover have "parents_flat op1" using ok by (auto simp: llm_ok_def op1_def parents_flat_def nth_append less_SucI simp del: set_map)
    ultimately have ll1: "llm_ok cfg caching hf nh bs ll1" using ok by (simp add: llm_ok_def ll1_def op1_def del: set_map)
    have at: "parent_at er fp ?a (ll_processor ll1)"
      using er(3) by (simp add: parent_at_def ll1_def op1_def new_parent_def parent_ok_def Let_def del: set_map)
    have "\<forall>i \<in> set [0..<fp_n fp]. \<exists>r. preprocess_add_request ev (child_request er fp i) = Inr r \<and> acceptable hf nh bs r (ll_engine ll1)"
      using req False by (auto simp: ll1_def)
    from fan_out_ok [OF er(1,2) ll1 _ _ at this, of dc] False fp show ?thesis by (simp add: llm_add_request_def Let_def ll1_def op1_def atLeast0LessThan)
  qed
qed

subsection \<open>Runs\<close>

text \<open>The environment may differ from operation to operation.\<close>

inductive llm_op :: "gambit_config \<Rightarrow> (hash_input \<Rightarrow> bytes) \<Rightarrow> bytes \<Rightarrow> nat \<Rightarrow> 'd decoder \<Rightarrow> 'd llm_engine \<Rightarrow> 'd llm_engine \<Rightarrow> bool" for cfg hf nh bs dc where
  llm_add: "front_acceptable ev hf nh bs er ll \<Longrightarrow> llm_add_request ev dc er ll = Inr ll' \<Longrightarrow> llm_op cfg hf nh bs dc ll ll'"
| llm_stepped: "env_ok cfg hf nh bs ev \<Longrightarrow> llm_step ev dc ll = Inr (outs, ll') \<Longrightarrow> llm_op cfg hf nh bs dc ll ll'"
| llm_abort: "set_order_ok ev \<Longrightarrow> llm_abort_request ev ids ll = Inr ll' \<Longrightarrow> llm_op cfg hf nh bs dc ll ll'"
| llm_reset: "llm_op cfg hf nh bs dc ll (llm_reset_gambit_state ll)"

lemma llm_op_keeps:
  assumes "llm_op cfg hf nh bs dc ll ll'" and "llm_ok cfg caching hf nh bs ll"
  shows "llm_ok cfg caching hf nh bs ll'"
  using assms
proof (induction rule: llm_op.induct)
  case (llm_add ev er ll ll')
  from llm_add_ok [OF llm_add(3,1), of dc] llm_add(2) show ?case by simp
next
  case (llm_stepped ev ll outs ll')
  from llm_step_ok [OF llm_stepped(3,1), of dc] llm_stepped(2) show ?case by simp
next
  case (llm_abort ev ids ll ll')
  from llm_abort_ok [OF llm_abort(3,1), of ids] llm_abort(2) show ?case by simp
next
  case (llm_reset ll)
  have "en_scheduler (reset_gambit_state (ll_engine ll)) = en_scheduler (ll_engine ll)" by (simp add: reset_gambit_state_def)
  with llm_reset reset_keeps show ?case by (simp add: llm_ok_def llm_reset_gambit_state_def del: set_map)
qed

lemma reachable_llm_ok:
  assumes "good_config cf" and "init_scheduler cf = Inr s"
    and "(llm_op cfg hf nh (hash_block_size cf) dc)\<^sup>*\<^sup>* (new_llm_engine tok (init_engine cfg False s)) ll"
  shows "llm_ok cfg (cf_enable_prefix_caching cf) hf nh (hash_block_size cf) ll"
  using assms(3)
proof (induction rule: rtranclp_induct)
  case base
  have "sc_requests s = []" using assms(2) by (auto simp: init_scheduler_def Let_def ebind_eq_Inr)
  then show ?case using init_engine_ok [OF assms(1,2), of cfg hf nh]
    by (simp add: llm_ok_def new_llm_engine_def new_output_processor_def op_ok_def parents_flat_def clients_ok_def init_engine_def)
next
  case (step ll ll')
  from llm_op_keeps [OF step(2,3)] show ?case .
qed

text \<open>Live requests are queued, so the engine has work.\<close>

lemma live_requests_are_work:
  assumes "engine_ok cfg caching hf nh bs e" and "rid \<in> keyset (sc_requests (en_scheduler e))"
  shows "has_requests (en_scheduler e)"
proof -
  obtain w where w: "sc_waiting (en_scheduler e) = FCFSQueue w" "keyset (sc_requests (en_scheduler e)) = set (sc_running (en_scheduler e)) \<union> set w"
    using assms(1) by (auto simp: engine_ok_def elim!: sched_invE dest: sched_okD(3))
  with assms(2) have "rid \<in> set (sc_running (en_scheduler e)) \<or> rid \<in> set w" by blast
  with w(1) show ?thesis by (auto simp: has_requests_def get_num_unfinished_requests_def)
qed

subsection \<open>The drain\<close>

text \<open>An engine without live requests announces nothing and attaches no export.\<close>

lemma idle_step_exports_nothing:
  assumes ok: "engine_ok cfg caching hf nh bs e" and ev: "env_ok cfg hf nh bs ev" and none: "sc_requests (en_scheduler e) = []"
    and step: "engine_step ev e = Inr (out, e')"
  shows "stp_export out = None \<and> sc_requests (en_scheduler e') = []"
proof (cases "has_requests (en_scheduler e)")
  case False
  have "en_scheduler (drain_leftovers e) = en_scheduler e" by (simp add: drain_leftovers_def Let_def split: option.splits)
  with False step none show ?thesis by (auto simp: engine_step_def)
next
  case True
  from ok ev obtain so s mo e2 e3 where run: "schedule (ev_int_hashes ev) (ev_fsm ev) (en_scheduler e) = Inr (so, s)"
    "gambit_after_forward ev so (ev_forward ev so) (e\<lparr>en_scheduler := s\<rparr>) = Inr (mo, e2)"
    "(if en_gambit_enabled e2 then capture_tokens mo (mo_req_id_to_index mo) e2 else Inr e2) = Inr e3"
    "planned_ok cfg caching hf nh bs so e3" "slots_ok mo" "keyset (so_num_scheduled_tokens so) \<subseteq> keyset (mo_req_id_to_index mo)"
    by (rule engine_step_planned)
  have "sc_requests s = []" using idle.schedule [OF run(1)] none by (simp add: no_requests_def)
  then have "sc_requests (en_scheduler e2) = []" using idle.after_forward_R [OF run(2)] by (simp add: no_requests_def)
  then have e3: "sc_requests (en_scheduler e3) = []" using run(3) by (auto dest: capture_scheduler split: if_splits)
  then have ns: "so_num_scheduled_tokens so = []" using planned_requests [OF run(4)] by simp
  have fin: "sc_finished_req_ids (en_scheduler e3) = {}" using run(4) by (simp add: planned_ok_def)
  have fs: "finish_step ev so mo e3 = Inr (out, e')" using step True run(1-3) by (simp add: engine_step_def Let_def)
  let ?hists = "if gc_enable (en_config e3) \<and> gc_record_score_history (en_config e3) then Some (en_trace_scores e3) else None"
  obtain outs s' where u: "update_from_output (ev_hasher ev) so mo (Some (en_final_trace_scores e3)) ?hists (en_scheduler e3) = Inr (outs, s')"
    using fs by (auto simp: finish_step_def ebind_eq_Inr Let_def split del: if_split)
  have f': "sc_finished_req_ids s' = {}" using update_finished [OF u fin] ns by simp
  have "sc_requests s' = []"
    using u ns e3 by (auto simp: update_from_output_def remove_stopped_def Let_def ebind_eq_Inr split: option.splits if_splits)
  with fs f' show ?thesis unfolding finish_step_def Let_def u ebind_Inr prod.case by auto
qed

lemma idle_llm_step:
  assumes ok: "llm_ok cfg caching hf nh bs ll" and ev: "env_ok cfg hf nh bs ev" and none: "sc_requests (en_scheduler (ll_engine ll)) = []"
  shows "\<exists>outs ll'. llm_step ev dc ll = Inr (outs, ll') \<and> llm_ok cfg caching hf nh bs ll' \<and> sc_requests (en_scheduler (ll_engine ll')) = [] \<and>
    ll_tree_export ll' = ll_tree_export ll"
proof -
  obtain outs ll' where ll': "llm_step ev dc ll = Inr (outs, ll')" "llm_ok cfg caching hf nh bs ll'" using llm_step_ok [OF ok ev] by blast
  obtain out e1 ab where e1: "engine_step ev (ll_engine ll) = Inr (out, e1)" "inproc_abort_requests ab e1 = Inr (ll_engine ll')"
    "ll_tree_export ll' = (if stp_export out \<noteq> None \<and> map_of (stp_outputs out) 0 \<noteq> None then stp_export out else ll_tree_export ll)"
    using ll'(1) by (auto simp: llm_step_def inproc_get_output_def ebind_eq_Inr split: if_splits)
  have e: "engine_ok cfg caching hf nh bs (ll_engine ll)" "clients_ok (en_scheduler (ll_engine ll))" using ok by (simp_all add: llm_ok_def)
  have i: "stp_export out = None" "sc_requests (en_scheduler e1) = []" using idle_step_exports_nothing [OF e(1) ev none e1(1)] by simp_all
  have "engine_ok cfg caching hf nh bs e1" using engine_step_keeps [OF e(1) ev] e1(1) by simp
  with inproc_abort_ok [OF this conjunct1 [OF engine_step_delivers [OF e1(1) e(2)]], of ab] e1(2) i(2)
  have "sc_requests (en_scheduler (ll_engine ll')) = []" by simp
  with ll' i(1) e1(3) show ?thesis by simp
qed

definition stuck :: "gambit_config \<Rightarrow> bool \<Rightarrow> (hash_input \<Rightarrow> bytes) \<Rightarrow> bytes \<Rightarrow> nat \<Rightarrow> gambit_export \<Rightarrow> 'd llm_engine \<Rightarrow> bool" where
  "stuck cfg caching hf nh bs x ll \<longleftrightarrow> llm_ok cfg caching hf nh bs ll \<and> sc_requests (en_scheduler (ll_engine ll)) = [] \<and> ll_tree_export ll = Some x"

lemma drain_stuck:
  assumes "drain_loop envs dc k c ll = Some res"
  shows "(\<forall>i. env_ok cfg hf nh bs (envs i)) \<longrightarrow> 0 < gx_scheduler_active_count x \<longrightarrow> \<not> (stuck cfg caching hf nh bs x ll \<and> c = gx_scheduler_active_count x)"
  using assms
proof (induction rule: drain_loop.raw_induct [rotated, consumes 1])
  case (1 loop envs dc k c ll res)
  show ?case
  proof (intro impI notI, elim conjE)
    assume ev: "\<forall>i. env_ok cfg hf nh bs (envs i)" and x: "0 < gx_scheduler_active_count x" "c = gx_scheduler_active_count x" and st: "stuck cfg caching hf nh bs x ll"
    obtain outs ll' where ll': "llm_step (envs k) dc ll = Inr (outs, ll')" "stuck cfg caching hf nh bs x ll'"
      using idle_llm_step [of cfg caching hf nh bs ll "envs k" dc] ev st unfolding stuck_def by metis
    then have "drain_count ll' = Some c" using x(2) by (simp add: stuck_def drain_count_def llm_get_gambit_tree_export_def)
    with 1(2) x ll'(1) have "loop envs dc (Suc k) c ll' = Some res" by simp
    from 1(1) [OF this] ev x ll'(2) show False by simp
  qed
qed

end
