(* ===== verification/Encoder_Cache.thy ===== *)
theory Encoder_Cache
  imports Request
begin

text \<open>
  \<open>EncoderCacheManager\<close> of \<open>vllm/v1/core/encoder_cache_manager.py\<close>, with the code of the scheduler that uses it:
  \<open>_try_schedule_encoder_inputs\<close>, which decides which encoder inputs of a request run in a step, the allocation of
  the inputs decided on, and \<open>_free_encoder_inputs\<close>. The connector to a remote encoder cache is a parameter: its answer for the
  request at hand. The iteration order of Python sets of input ids is a parameter \<open>ord\<close>. The theory shows that the slots are
  accounted for exactly, that the eviction loop ends with enough room, and that every input the scheduler decides on can be
  allocated; for encoder-decoder models it shows that slots leak.
\<close>

subsection \<open>The cache\<close>

record encoder_cache =
  ec_cache_size :: int
  ec_num_free_slots :: int
  ec_num_freeable_slots :: int
  ec_cached :: "(string, reqid set) dict"
  ec_freeable :: "(string, int) dict"
  ec_freed :: "string list"

definition new_encoder_cache :: "int \<Rightarrow> encoder_cache" where
  "new_encoder_cache n = \<lparr>ec_cache_size = n, ec_num_free_slots = n, ec_num_freeable_slots = n,
     ec_cached = [], ec_freeable = [], ec_freed = []\<rparr>"

definition mm_hash_of :: "request \<Rightarrow> nat \<Rightarrow> string result" where
  "mm_hash_of r i = (if i < length (rq_mm_features r) then Inr (mm_identifier (rq_mm_features r ! i)) else Inl IndexError)"

definition check_and_update_cache :: "request \<Rightarrow> nat \<Rightarrow> encoder_cache \<Rightarrow> (bool \<times> encoder_cache) result" where
  "check_and_update_cache r i m =
     ebind (mm_hash_of r i) (\<lambda>h.
       case map_of (ec_cached m) h of
         None \<Rightarrow> Inr (False, m)
       | Some refs \<Rightarrow>
           ebind (if refs = {} then
                    (case map_of (ec_freeable m) h of
                       None \<Rightarrow> Inl KeyError
                     | Some n \<Rightarrow> Inr (m\<lparr>ec_freeable := AList.delete h (ec_freeable m),
                                       ec_num_freeable_slots := ec_num_freeable_slots m - n\<rparr>))
                  else Inr m) (\<lambda>m1.
             Inr (True, m1\<lparr>ec_cached := AList.update h (insert (rq_request_id r) refs) (ec_cached m1)\<rparr>)))"

text \<open>The eviction loop pops the oldest entry until there is room; \<open>popitem\<close> of an empty dictionary raises.\<close>

function evict_until :: "int \<Rightarrow> encoder_cache \<Rightarrow> encoder_cache result" where
  "evict_until n m =
     (if n > ec_num_free_slots m then
        (case ec_freeable m of
           [] \<Rightarrow> Inl KeyError
         | (h, k) # rest \<Rightarrow>
             if h \<notin> keyset (ec_cached m) then Inl KeyError
             else evict_until n (m\<lparr>ec_freeable := rest, ec_cached := AList.delete h (ec_cached m),
                    ec_freed := ec_freed m @ [h], ec_num_free_slots := ec_num_free_slots m + k\<rparr>))
      else Inr m)"
  by pat_completeness auto
termination by (relation "measure (\<lambda>(_, m). length (ec_freeable m))") auto

declare evict_until.simps [simp del]

definition can_allocate :: "request \<Rightarrow> nat \<Rightarrow> int \<Rightarrow> int \<Rightarrow> encoder_cache \<Rightarrow> (bool \<times> encoder_cache) result" where
  "can_allocate r i encoder_compute_budget num_tokens_to_schedule m =
     ebind (get_num_encoder_tokens i r) (\<lambda>n.
       if n > encoder_compute_budget then Inr (False, m)
       else
       let num_tokens = n + num_tokens_to_schedule in
       if num_tokens \<le> ec_num_free_slots m then Inr (True, m)
       else if num_tokens > ec_num_freeable_slots m then Inr (False, m)
       else ebind (evict_until num_tokens m) (\<lambda>m'. Inr (True, m')))"

definition ec_allocate :: "request \<Rightarrow> nat \<Rightarrow> encoder_cache \<Rightarrow> encoder_cache result" where
  "ec_allocate r i m =
     ebind (mm_hash_of r i) (\<lambda>h.
       let m1 = m\<lparr>ec_cached := dsetdefault (ec_cached m) h {}\<rparr> in
       ebind (get_num_encoder_tokens i r) (\<lambda>n.
       ebind (assert_that (ec_num_free_slots m1 \<ge> n)) (\<lambda>_.
       ebind (assert_that (ec_num_freeable_slots m1 \<ge> n)) (\<lambda>_.
         Inr (m1\<lparr>ec_cached := dmodify h (insert (rq_request_id r)) (ec_cached m1),
                 ec_num_free_slots := ec_num_free_slots m1 - n,
                 ec_num_freeable_slots := ec_num_freeable_slots m1 - n\<rparr>)))))"

definition get_cached_input_ids :: "request \<Rightarrow> encoder_cache \<Rightarrow> nat set" where
  "get_cached_input_ids r m =
     set (filter (\<lambda>i. mm_identifier (rq_mm_features r ! i) \<in> keyset (ec_cached m)) [0..<length (rq_mm_features r)])"

definition free_encoder_input :: "request \<Rightarrow> nat \<Rightarrow> encoder_cache \<Rightarrow> encoder_cache result" where
  "free_encoder_input r i m =
     ebind (mm_hash_of r i) (\<lambda>h.
       if dget_or (ec_cached m) h {} = {} then Inr m
       else
       let m1 = m\<lparr>ec_cached := dmodify h (\<lambda>A. A - {rq_request_id r}) (ec_cached m)\<rparr> in
       if dget_or (ec_cached m1) h {} = {} then
         ebind (get_num_encoder_tokens i r) (\<lambda>n.
           Inr (m1\<lparr>ec_freeable := AList.update h n (ec_freeable m1), ec_num_freeable_slots := ec_num_freeable_slots m1 + n\<rparr>))
       else Inr m1)"

fun free_inputs_loop :: "request \<Rightarrow> nat list \<Rightarrow> encoder_cache \<Rightarrow> encoder_cache result" where
  "free_inputs_loop r [] m = Inr m"
| "free_inputs_loop r (i # ids) m = ebind (free_encoder_input r i m) (free_inputs_loop r ids)"

definition ec_free :: "(nat set \<Rightarrow> nat list) \<Rightarrow> request \<Rightarrow> encoder_cache \<Rightarrow> encoder_cache result" where
  "ec_free ord r m = free_inputs_loop r (ord (get_cached_input_ids r m)) m"

definition get_freed_mm_hashes :: "encoder_cache \<Rightarrow> string list \<times> encoder_cache" where
  "get_freed_mm_hashes m = (ec_freed m, m\<lparr>ec_freed := []\<rparr>)"

subsection \<open>Budgets\<close>

text \<open>\<open>disable_chunked\<close>, \<open>batched\<close>, \<open>input_tokens\<close> and \<open>cache_size\<close> are fields of the scheduler configuration. The registry of
  multi-modal processors is a parameter: \<open>None\<close> for a model without multi-modal inputs.\<close>

definition compute_mm_encoder_budget :: "bool \<Rightarrow> int \<Rightarrow> int \<Rightarrow> int \<Rightarrow> (string, int) dict \<Rightarrow> (int \<times> int) result" where
  "compute_mm_encoder_budget disable_chunked batched input_tokens cache_size by_modality =
     (if by_modality = [] then Inr (0, 0)
      else
      let item = Max (set (dvals by_modality)) in
      if disable_chunked \<and> item > batched then Inl ValueError
      else Inr (max input_tokens item, max cache_size item))"

definition compute_encoder_budget :: "bool \<Rightarrow> int \<Rightarrow> int \<Rightarrow> int \<Rightarrow> (string, int) dict option \<Rightarrow> (int \<times> int) result" where
  "compute_encoder_budget disable_chunked batched input_tokens cache_size registry =
     (case registry of
        Some by_modality \<Rightarrow> compute_mm_encoder_budget disable_chunked batched input_tokens cache_size by_modality
      | None \<Rightarrow> Inr (0, 0))"

subsection \<open>The scheduler's use of the cache\<close>

text \<open>The settings of the scheduler and the answer of the connector, and the local variables of \<open>_try_schedule_encoder_inputs\<close>.\<close>

record enc_settings =
  es_is_encoder_decoder :: bool
  es_disable_chunked_mm_input :: bool
  es_remote_cache_has_item :: "bool list option"

record enc_plan =
  ep_inputs :: "nat list"
  ep_external :: "nat list"
  ep_num_new_tokens :: int
  ep_budget :: int
  ep_hashes :: "string set"
  ep_tokens :: int
  ep_cache :: encoder_cache

text \<open>Recording an input in the plan: loaded from the remote cache, or computed in this step.\<close>

definition plan_input :: "enc_settings \<Rightarrow> request \<Rightarrow> nat \<Rightarrow> enc_plan \<Rightarrow> enc_plan result" where
  "plan_input st r i p =
     (let f = rq_mm_features r ! i;
          scheduled = p\<lparr>ep_tokens := ep_tokens p + mm_length f, ep_budget := ep_budget p - mm_length f,
                        ep_hashes := insert (mm_identifier f) (ep_hashes p), ep_inputs := ep_inputs p @ [i]\<rparr>
      in case es_remote_cache_has_item st of
           None \<Rightarrow> Inr scheduled
         | Some has \<Rightarrow>
             if i \<ge> length has then Inl IndexError
             else if has ! i then
               Inr (p\<lparr>ep_hashes := insert (mm_identifier f) (ep_hashes p), ep_external := ep_external p @ [i],
                      ep_tokens := ep_tokens p + mm_length f\<rparr>)
             else Inr scheduled)"

fun enc_loop :: "enc_settings \<Rightarrow> request \<Rightarrow> int \<Rightarrow> nat list \<Rightarrow> enc_plan \<Rightarrow> enc_plan result" where
  "enc_loop st r nc [] p = Inr p"
| "enc_loop st r nc (i # ids) p =
     (let f = rq_mm_features r ! i; start_pos = mm_offset f; n = mm_length f in
      if start_pos \<ge> nc + ep_num_new_tokens p then Inr p
      else if es_is_encoder_decoder st \<and> nc > 0 then
        ebind (assert_that (start_pos = 0)) (\<lambda>_. enc_loop st r nc ids p)
      else if start_pos + n \<le> nc then enc_loop st r nc ids p
      else if \<not> es_is_encoder_decoder st \<and> mm_identifier f \<in> ep_hashes p then enc_loop st r nc ids p
      else
      ebind (if es_is_encoder_decoder st then Inr (False, ep_cache p) else check_and_update_cache r i (ep_cache p)) (\<lambda>(hit, m).
        let p1 = p\<lparr>ep_cache := m\<rparr> in
        if hit then enc_loop st r nc ids p1
        else if es_disable_chunked_mm_input st \<and> nc < start_pos \<and> nc + ep_num_new_tokens p < start_pos + n then
          Inr (p1\<lparr>ep_num_new_tokens := start_pos - nc\<rparr>)
        else
        ebind (can_allocate r i (ep_budget p1) (ep_tokens p1) m) (\<lambda>(ok, m').
          if \<not> ok then
            Inr (p1\<lparr>ep_cache := m', ep_num_new_tokens := (if nc < start_pos then start_pos - nc else 0)\<rparr>)
          else ebind (plan_input st r i (p1\<lparr>ep_cache := m'\<rparr>)) (enc_loop st r nc ids))))"

definition try_schedule_encoder_inputs :: "enc_settings \<Rightarrow> request \<Rightarrow> int \<Rightarrow> int \<Rightarrow> int \<Rightarrow> encoder_cache \<Rightarrow> enc_plan result" where
  "try_schedule_encoder_inputs st r num_computed_tokens num_new_tokens encoder_compute_budget m =
     (let p = \<lparr>ep_inputs = [], ep_external = [], ep_num_new_tokens = num_new_tokens, ep_budget = encoder_compute_budget,
               ep_hashes = {}, ep_tokens = 0, ep_cache = m\<rparr>
      in if num_new_tokens = 0 \<or> rq_mm_features r = [] then Inr p
         else enc_loop st r num_computed_tokens [0..<length (rq_mm_features r)] p)"

text \<open>After the KV blocks are allocated, \<open>schedule\<close> allocates the planned inputs, computed ones first.\<close>

fun allocate_loop :: "request \<Rightarrow> nat list \<Rightarrow> encoder_cache \<Rightarrow> encoder_cache result" where
  "allocate_loop r [] m = Inr m"
| "allocate_loop r (i # ids) m = ebind (ec_allocate r i m) (allocate_loop r ids)"

definition allocate_planned :: "request \<Rightarrow> enc_plan \<Rightarrow> encoder_cache result" where
  "allocate_planned r p = ebind (allocate_loop r (ep_inputs p) (ep_cache p)) (allocate_loop r (ep_external p))"

fun free_processed_loop :: "bool \<Rightarrow> request \<Rightarrow> nat list \<Rightarrow> encoder_cache \<Rightarrow> encoder_cache result" where
  "free_processed_loop encdec r [] m = Inr m"
| "free_processed_loop encdec r (i # ids) m =
     (let f = rq_mm_features r ! i in
      ebind (if encdec \<and> rq_num_computed_tokens r > 0 then free_encoder_input r i m
             else if mm_offset f + mm_length f \<le> rq_num_computed_tokens r then free_encoder_input r i m
             else Inr m) (free_processed_loop encdec r ids))"

definition free_encoder_inputs :: "bool \<Rightarrow> (nat set \<Rightarrow> nat list) \<Rightarrow> request \<Rightarrow> encoder_cache \<Rightarrow> encoder_cache result" where
  "free_encoder_inputs encdec ord r m =
     (let ids = get_cached_input_ids r m in if ids = {} then Inr m else free_processed_loop encdec r (ord ids) m)"

subsection \<open>Slots are accounted for\<close>

text \<open>Items with the same hash have the same number of tokens, \<open>sz\<close>. The free slots are those that no entry takes; the
  freeable ones also count the entries that no request refers to, which are exactly the keys of \<open>ec_freeable\<close>.\<close>

definition enc_inv :: "(string \<Rightarrow> int) \<Rightarrow> encoder_cache \<Rightarrow> bool" where
  "enc_inv sz m \<longleftrightarrow> wf_dict (ec_cached m) \<and> wf_dict (ec_freeable m) \<and>
     (\<forall>h n. map_of (ec_freeable m) h = Some n \<longleftrightarrow> map_of (ec_cached m) h = Some {} \<and> n = sz h) \<and>
     ec_num_free_slots m + sum sz (keyset (ec_cached m)) = ec_cache_size m \<and>
     ec_num_freeable_slots m = ec_num_free_slots m + sum sz (keyset (ec_freeable m)) \<and> 0 \<le> ec_num_free_slots m"

definition sizes_ok :: "(string \<Rightarrow> int) \<Rightarrow> request \<Rightarrow> bool" where
  "sizes_ok sz r \<longleftrightarrow> (\<forall>h. 0 \<le> sz h) \<and> (\<forall>f \<in> set (rq_mm_features r). mm_length f = sz (mm_identifier f))"

definition refers :: "encoder_cache \<Rightarrow> reqid \<Rightarrow> string \<Rightarrow> bool" where
  "refers m rid h \<longleftrightarrow> rid \<in> dget_or (ec_cached m) h {}"

lemma enc_invD:
  assumes "enc_inv sz m"
  shows "wf_dict (ec_cached m)" "wf_dict (ec_freeable m)"
    "map_of (ec_freeable m) h = Some n \<longleftrightarrow> map_of (ec_cached m) h = Some {} \<and> n = sz h"
    "ec_num_free_slots m + sum sz (keyset (ec_cached m)) = ec_cache_size m"
    "ec_num_freeable_slots m = ec_num_free_slots m + sum sz (keyset (ec_freeable m))" "0 \<le> ec_num_free_slots m"
  using assms unfolding enc_inv_def by blast+

lemma free_le_freeable: "enc_inv sz m \<Longrightarrow> (\<And>h. 0 \<le> sz h) \<Longrightarrow> ec_num_free_slots m \<le> ec_num_freeable_slots m"
  by (simp add: enc_invD(5) sum_nonneg)

lemma size_of_input:
  assumes "sizes_ok sz r" and "i < length (rq_mm_features r)"
  shows "mm_length (rq_mm_features r ! i) = sz (mm_identifier (rq_mm_features r ! i))"
    "get_num_encoder_tokens i r = Inr (sz (mm_identifier (rq_mm_features r ! i)))"
    "mm_hash_of r i = Inr (mm_identifier (rq_mm_features r ! i))"
  using assms by (simp_all add: sizes_ok_def get_num_encoder_tokens_def mm_hash_of_def)

text \<open>Eviction ends with enough room whenever there are enough freeable slots.\<close>

lemma evict_until_spec:
  assumes "\<And>h. 0 \<le> sz h" and "enc_inv sz m" and "n \<le> ec_num_freeable_slots m"
  shows "\<exists>m'. evict_until n m = Inr m' \<and> enc_inv sz m' \<and> n \<le> ec_num_free_slots m' \<and>
    keyset (ec_cached m') \<subseteq> keyset (ec_cached m) \<and> ec_cache_size m' = ec_cache_size m \<and>
    (\<forall>rid x. refers m rid x \<longrightarrow> refers m' rid x)"
  using assms(2,3)
proof (induction n m rule: evict_until.induct)
  case (1 n m)
  note inv = enc_invD [OF "1.prems"(1)]
  show ?case
  proof (cases "n > ec_num_free_slots m")
    case False
    with 1 show ?thesis by (subst evict_until.simps) auto
  next
    case True
    show ?thesis
    proof (cases "ec_freeable m")
      case Nil
      with inv(5) "1.prems"(2) True show ?thesis by simp
    next
      case (Cons hk rest)
      obtain h k where hk: "hk = (h, k)" by (cases hk)
      have h: "map_of (ec_cached m) h = Some {}" "k = sz h" using inv(3) [of h k] Cons hk by simp_all
      have hin: "h \<in> keyset (ec_cached m)" using h(1) by (rule map_of_in_keys)
      have rest: "h \<notin> keyset rest" "wf_dict rest" using inv(2) Cons hk by simp_all
      let ?m = "m\<lparr>ec_freeable := rest, ec_cached := AList.delete h (ec_cached m), ec_freed := ec_freed m @ [h],
        ec_num_free_slots := ec_num_free_slots m + k\<rparr>"
      have "map_of rest x = Some y \<longleftrightarrow> map_of (ec_cached ?m) x = Some {} \<and> y = sz x" for x y
        using inv(3) [of x y] rest(1) Cons hk by (auto simp: dict_simps dest: map_of_in_keys)
      moreover have "0 \<le> ec_num_free_slots m + k" using inv(6) assms(1) [of h] h(2) by simp
      ultimately have inv': "enc_inv sz ?m" using inv rest Cons hk hin h(2)
        by (simp add: enc_inv_def sum.remove [OF _ hin] sum.insert)
      have keep: "refers ?m rid x" if "refers m rid x" for rid x using that h(1) by (auto simp: refers_def dget_or_def dict_simps)
      have eq: "evict_until n m = evict_until n ?m" using True Cons hk hin by (subst evict_until.simps) simp
      from "1.IH" [OF True Cons hk [symmetric] _ inv'] hin "1.prems"(2) obtain m' where "evict_until n ?m = Inr m'" "enc_inv sz m'"
        "n \<le> ec_num_free_slots m'" "keyset (ec_cached m') \<subseteq> keyset (ec_cached ?m)" "ec_cache_size m' = ec_cache_size ?m"
        "\<And>rid x. refers ?m rid x \<Longrightarrow> refers m' rid x" by auto
      with keep show ?thesis unfolding eq by (intro exI [of _ m']) auto
    qed
  qed
qed

text \<open>Looking up an input: a hit takes the entry out of the freeable ones and leaves the free slots alone.\<close>

lemma check_and_update_spec:
  assumes inv: "enc_inv sz m" and sz: "sizes_ok sz r" and i: "i < length (rq_mm_features r)"
  defines "h \<equiv> mm_identifier (rq_mm_features r ! i)"
  shows "\<exists>m'. check_and_update_cache r i m = Inr (h \<in> keyset (ec_cached m), m') \<and> enc_inv sz m' \<and>
    ec_num_free_slots m' = ec_num_free_slots m \<and> keyset (ec_cached m') = keyset (ec_cached m) \<and> ec_cache_size m' = ec_cache_size m \<and>
    (\<forall>rid x. refers m' rid x \<longleftrightarrow> refers m rid x \<or> x = h \<and> rid = rq_request_id r \<and> h \<in> keyset (ec_cached m))"
proof (cases "map_of (ec_cached m) h")
  case None
  then have "h \<notin> keyset (ec_cached m)" by (simp add: map_of_None_iff)
  with None inv size_of_input [OF sz i] show ?thesis by (simp add: check_and_update_cache_def h_def [symmetric])
next
  case (Some refs)
  note d = enc_invD [OF inv]
  have hin: "h \<in> keyset (ec_cached m)" using Some by (rule map_of_in_keys)
  let ?c = "AList.update h (insert (rq_request_id r) refs) (ec_cached m)"
  show ?thesis
  proof (cases "refs = {}")
    case True
    with d(3) [of h "sz h"] Some have f: "map_of (ec_freeable m) h = Some (sz h)" by simp
    have hf: "h \<in> keyset (ec_freeable m)" using f by (rule map_of_in_keys)
    let ?m = "m\<lparr>ec_freeable := AList.delete h (ec_freeable m), ec_num_freeable_slots := ec_num_freeable_slots m - sz h, ec_cached := ?c\<rparr>"
    have "map_of (AList.delete h (ec_freeable m)) x = Some y \<longleftrightarrow> map_of ?c x = Some {} \<and> y = sz x" for x y
      using d(3) [of x y] by (auto simp: dict_simps)
    then have "enc_inv sz ?m" using d hin sum.remove [OF _ hf, of sz] by (simp add: enc_inv_def insert_absorb)
    with Some True f hin size_of_input [OF sz i] show ?thesis
      by (auto simp: check_and_update_cache_def h_def [symmetric] insert_absorb refers_def dict_simps) (simp_all add: dget_or_def)
  next
    case False
    let ?m = "m\<lparr>ec_cached := ?c\<rparr>"
    have "map_of (ec_freeable m) x = Some y \<longleftrightarrow> map_of ?c x = Some {} \<and> y = sz x" for x y
      using d(3) [of x y] Some False by (auto simp: dict_simps)
    then have "enc_inv sz ?m" using d hin by (simp add: enc_inv_def insert_absorb)
    with Some False hin size_of_input [OF sz i] show ?thesis
      by (auto simp: check_and_update_cache_def h_def [symmetric] insert_absorb refers_def dict_simps) (simp_all add: dget_or_def)
  qed
qed

lemma can_allocate_spec:
  assumes inv: "enc_inv sz m" and sz: "sizes_ok sz r" and i: "i < length (rq_mm_features r)"
  shows "\<exists>ok m'. can_allocate r i budget planned m = Inr (ok, m') \<and> enc_inv sz m' \<and> keyset (ec_cached m') \<subseteq> keyset (ec_cached m) \<and>
    ec_cache_size m' = ec_cache_size m \<and> (\<forall>rid x. refers m rid x \<longrightarrow> refers m' rid x) \<and>
    (if ok then mm_length (rq_mm_features r ! i) \<le> budget \<and> planned + mm_length (rq_mm_features r ! i) \<le> ec_num_free_slots m' else m' = m)"
proof -
  let ?n = "mm_length (rq_mm_features r ! i)"
  have n: "get_num_encoder_tokens i r = Inr ?n" using size_of_input [OF sz i] by simp
  have pos: "\<And>h. 0 \<le> sz h" using sz by (simp add: sizes_ok_def)
  show ?thesis
  proof (cases "?n > budget \<or> ?n + planned \<le> ec_num_free_slots m \<or> ?n + planned > ec_num_freeable_slots m")
    case True
    with inv n show ?thesis by (auto simp: can_allocate_def Let_def add.commute)
  next
    case False
    then have "?n + planned \<le> ec_num_freeable_slots m" by simp
    from evict_until_spec [OF pos inv this] obtain m' where "evict_until (?n + planned) m = Inr m'" "enc_inv sz m'"
      "?n + planned \<le> ec_num_free_slots m'" "keyset (ec_cached m') \<subseteq> keyset (ec_cached m)" "ec_cache_size m' = ec_cache_size m"
      "\<forall>rid x. refers m rid x \<longrightarrow> refers m' rid x" by blast
    with False n show ?thesis by (intro exI [of _ True] exI [of _ m']) (simp add: can_allocate_def Let_def add.commute)
  qed
qed

lemma ec_allocate_spec:
  assumes inv: "enc_inv sz m" and sz: "sizes_ok sz r" and i: "i < length (rq_mm_features r)"
    and new: "mm_identifier (rq_mm_features r ! i) \<notin> keyset (ec_cached m)" and room: "mm_length (rq_mm_features r ! i) \<le> ec_num_free_slots m"
  shows "\<exists>m'. ec_allocate r i m = Inr m' \<and> enc_inv sz m' \<and> ec_cache_size m' = ec_cache_size m \<and>
    keyset (ec_cached m') = insert (mm_identifier (rq_mm_features r ! i)) (keyset (ec_cached m)) \<and>
    ec_num_free_slots m' = ec_num_free_slots m - mm_length (rq_mm_features r ! i) \<and>
    (\<forall>rid x. refers m' rid x \<longleftrightarrow> refers m rid x \<or> x = mm_identifier (rq_mm_features r ! i) \<and> rid = rq_request_id r)"
proof -
  define h where "h = mm_identifier (rq_mm_features r ! i)"
  note d = enc_invD [OF inv] and s = size_of_input [OF sz i, folded h_def]
  have hf: "h \<notin> keyset (ec_freeable m)" using d(3) [of h] new in_keys_map_of [of h "ec_freeable m"]
    by (auto simp: h_def dest: map_of_in_keys)
  have le: "sz h \<le> ec_num_freeable_slots m" using room s(1) free_le_freeable [OF inv] sz by (fastforce simp: sizes_ok_def)
  let ?c = "dmodify h (insert (rq_request_id r)) (dsetdefault (ec_cached m) h {})"
  let ?m = "m\<lparr>ec_cached := ?c, ec_num_free_slots := ec_num_free_slots m - sz h, ec_num_freeable_slots := ec_num_freeable_slots m - sz h\<rparr>"
  have "map_of (ec_freeable m) x = Some y \<longleftrightarrow> map_of ?c x = Some {} \<and> y = sz x" for x y
    using d(3) [of x y] hf by (auto simp: dict_simps dest: map_of_in_keys)
  then have "enc_inv sz ?m" using d new room s(1) by (simp add: enc_inv_def h_def)
  moreover have "ec_allocate r i m = Inr ?m" using s room le by (simp add: ec_allocate_def Let_def)
  moreover have "refers ?m rid x \<longleftrightarrow> refers m rid x \<or> x = h \<and> rid = rq_request_id r" for rid x
    using new by (auto simp: refers_def dget_or_def dict_simps h_def split: option.splits dest: map_of_in_keys)
  ultimately show ?thesis using s(1) by (simp add: h_def)
qed

lemma free_encoder_input_spec:
  assumes inv: "enc_inv sz m" and sz: "sizes_ok sz r" and i: "i < length (rq_mm_features r)"
  shows "\<exists>m'. free_encoder_input r i m = Inr m' \<and> enc_inv sz m' \<and> ec_cache_size m' = ec_cache_size m \<and>
    (\<forall>h. map_of (ec_cached m') h = map_option (\<lambda>A. if h = mm_identifier (rq_mm_features r ! i) then A - {rq_request_id r} else A) (map_of (ec_cached m) h))"
proof -
  define h where "h = mm_identifier (rq_mm_features r ! i)"
  note d = enc_invD [OF inv] and s = size_of_input [OF sz i, folded h_def]
  show ?thesis
  proof (cases "dget_or (ec_cached m) h {} = {}")
    case True
    then have "map_of (ec_cached m) x = map_option (\<lambda>A. if x = h then A - {rq_request_id r} else A) (map_of (ec_cached m) x)" for x
      by (cases "map_of (ec_cached m) x") (auto simp: dget_or_def)
    with True inv s show ?thesis by (simp add: free_encoder_input_def h_def [symmetric])
  next
    case False
    then obtain refs where refs: "map_of (ec_cached m) h = Some refs" "refs \<noteq> {}" by (auto simp: dget_or_def split: option.splits)
    have hin: "h \<in> keyset (ec_cached m)" using refs(1) by (rule map_of_in_keys)
    have hf: "h \<notin> keyset (ec_freeable m)" using d(3) [of h] refs in_keys_map_of [of h "ec_freeable m"] by auto
    let ?c = "dmodify h (\<lambda>A. A - {rq_request_id r}) (ec_cached m)"
    have get: "dget_or ?c h {} = refs - {rq_request_id r}" using refs by (simp add: dget_or_def dict_simps)
    show ?thesis
    proof (cases "refs - {rq_request_id r} = {}")
      case True
      let ?m = "m\<lparr>ec_cached := ?c, ec_freeable := AList.update h (sz h) (ec_freeable m), ec_num_freeable_slots := ec_num_freeable_slots m + sz h\<rparr>"
      have "map_of (AList.update h (sz h) (ec_freeable m)) x = Some y \<longleftrightarrow> map_of ?c x = Some {} \<and> y = sz x" for x y
        using d(3) [of x y] refs True by (auto simp: dict_simps)
      then have "enc_inv sz ?m" using d hf by (simp add: enc_inv_def)
      moreover have "free_encoder_input r i m = Inr ?m" using False True get s by (simp add: free_encoder_input_def Let_def)
      ultimately show ?thesis by (auto simp: dict_simps h_def option.map_ident)
    next
      case False
      let ?m = "m\<lparr>ec_cached := ?c\<rparr>"
      have "map_of (ec_freeable m) x = Some y \<longleftrightarrow> map_of ?c x = Some {} \<and> y = sz x" for x y
        using d(3) [of x y] refs False by (auto simp: dict_simps)
      then have "enc_inv sz ?m" using d by (simp add: enc_inv_def)
      moreover have "free_encoder_input r i m = Inr ?m" using \<open>dget_or (ec_cached m) h {} \<noteq> {}\<close> False get s by (simp add: free_encoder_input_def Let_def)
      ultimately show ?thesis by (auto simp: dict_simps h_def option.map_ident)
    qed
  qed
qed

subsection \<open>The scheduling loop\<close>

abbreviation item_hash :: "request \<Rightarrow> nat \<Rightarrow> string" where
  "item_hash r i \<equiv> mm_identifier (rq_mm_features r ! i)"

abbreviation item_len :: "request \<Rightarrow> nat \<Rightarrow> int" where
  "item_len r i \<equiv> mm_length (rq_mm_features r ! i)"

text \<open>The plan so far: the planned inputs have different hashes that are not cached yet, they fit into the free slots together, and the
  computed ones have been taken off the budget \<open>B\<close>.\<close>

definition enc_plan_ok :: "(string \<Rightarrow> int) \<Rightarrow> request \<Rightarrow> int \<Rightarrow> int \<Rightarrow> enc_plan \<Rightarrow> bool" where
  "enc_plan_ok sz r B cs p \<longleftrightarrow> (let J = set (ep_inputs p) \<union> set (ep_external p) in
     enc_inv sz (ep_cache p) \<and> ec_cache_size (ep_cache p) = cs \<and> J \<subseteq> {..<length (rq_mm_features r)} \<and>
     distinct (ep_inputs p @ ep_external p) \<and> inj_on (item_hash r) J \<and>
     ep_hashes p = item_hash r ` J \<and> ep_hashes p \<inter> keyset (ec_cached (ep_cache p)) = {} \<and>
     ep_tokens p = sum (item_len r) J \<and> ep_tokens p \<le> ec_num_free_slots (ep_cache p) \<and>
     0 \<le> ep_budget p \<and> ep_budget p + sum (item_len r) (set (ep_inputs p)) = B)"

text \<open>An input is needed when its tokens overlap the scheduled range; it is available when it is planned or in the cache with a
  reference of the request.\<close>

definition needed :: "request \<Rightarrow> int \<Rightarrow> int \<Rightarrow> nat \<Rightarrow> bool" where
  "needed r nc new i \<longleftrightarrow> (\<exists>pos. nc \<le> pos \<and> pos < nc + new \<and>
     mm_offset (rq_mm_features r ! i) \<le> pos \<and> pos < mm_offset (rq_mm_features r ! i) + item_len r i)"

definition available :: "request \<Rightarrow> enc_plan \<Rightarrow> nat \<Rightarrow> bool" where
  "available r p i \<longleftrightarrow> item_hash r i \<in> ep_hashes p \<or> refers (ep_cache p) (rq_request_id r) (item_hash r i)"

lemma plan_input_spec:
  assumes ok: "enc_plan_ok sz r B cs p" and i: "i < length (rq_mm_features r)" "item_hash r i \<notin> ep_hashes p"
    and m: "enc_inv sz m" "ec_cache_size m = cs" "keyset (ec_cached m) \<subseteq> keyset (ec_cached (ep_cache p))" "item_hash r i \<notin> keyset (ec_cached (ep_cache p))"
    and room: "item_len r i \<le> ep_budget p" "ep_tokens p + item_len r i \<le> ec_num_free_slots m"
    and st: "\<And>has. es_remote_cache_has_item st = Some has \<Longrightarrow> length has = length (rq_mm_features r)"
  shows "\<exists>p'. plan_input st r i (p\<lparr>ep_cache := m\<rparr>) = Inr p' \<and> enc_plan_ok sz r B cs p' \<and> ep_num_new_tokens p' = ep_num_new_tokens p \<and>
    ep_hashes p' = insert (item_hash r i) (ep_hashes p) \<and> ep_cache p' = m"
proof -
  let ?J = "set (ep_inputs p) \<union> set (ep_external p)"
  have d: "?J \<subseteq> {..<length (rq_mm_features r)}" "distinct (ep_inputs p @ ep_external p)" "inj_on (item_hash r) ?J" "ep_hashes p = item_hash r ` ?J"
    "ep_hashes p \<inter> keyset (ec_cached (ep_cache p)) = {}" "ep_tokens p = sum (item_len r) ?J" "ep_budget p + sum (item_len r) (set (ep_inputs p)) = B"
    using ok unfolding enc_plan_ok_def Let_def by blast+
  have fresh: "i \<notin> set (ep_inputs p)" "i \<notin> set (ep_external p)" using i(2) d(4) by blast+
  have inj: "inj_on (item_hash r) (insert i ?J)" using d(3,4) i(2) by (simp add: inj_on_insert) blast
  have new: "insert (item_hash r i) (ep_hashes p) \<inter> keyset (ec_cached m) = {}" using d(5) m(3,4) by blast
  have sum: "sum (item_len r) (insert i ?J) = ep_tokens p + item_len r i" using fresh d(6) by simp
  define s where "s = p\<lparr>ep_cache := m, ep_tokens := ep_tokens p + item_len r i, ep_budget := ep_budget p - item_len r i,
    ep_hashes := insert (item_hash r i) (ep_hashes p), ep_inputs := ep_inputs p @ [i]\<rparr>"
  define x where "x = p\<lparr>ep_cache := m, ep_hashes := insert (item_hash r i) (ep_hashes p), ep_external := ep_external p @ [i], ep_tokens := ep_tokens p + item_len r i\<rparr>"
  have J: "set (ep_inputs s) \<union> set (ep_external s) = insert i ?J" "set (ep_inputs x) \<union> set (ep_external x) = insert i ?J"
    by (auto simp: s_def x_def)
  have "enc_plan_ok sz r B cs s"
    unfolding enc_plan_ok_def Let_def J sum using d(1,2,4,7) i(1) m(1,2) room fresh inj new by (simp add: s_def)
  moreover have "enc_plan_ok sz r B cs x"
    unfolding enc_plan_ok_def Let_def J sum using ok d(1,2,4,7) i(1) m(1,2) room fresh inj new by (simp add: x_def enc_plan_ok_def Let_def)
  moreover have "plan_input st r i (p\<lparr>ep_cache := m\<rparr>) = Inr s \<or> plan_input st r i (p\<lparr>ep_cache := m\<rparr>) = Inr x"
    using st i(1) by (auto simp: plan_input_def Let_def s_def x_def split: option.splits)
  ultimately show ?thesis by (elim disjE) (auto simp: s_def x_def intro: exI)
qed

lemma enc_plan_ok_cache:
  assumes "enc_plan_ok sz r B cs p" and "enc_inv sz m" "ec_cache_size m = cs" "keyset (ec_cached m) \<subseteq> keyset (ec_cached (ep_cache p))"
    and "ec_num_free_slots (ep_cache p) \<le> ec_num_free_slots m"
  shows "enc_plan_ok sz r B cs (p\<lparr>ep_cache := m, ep_num_new_tokens := new\<rparr>)"
proof -
  have "ep_hashes p \<inter> keyset (ec_cached m) = {}" using assms(1,4) unfolding enc_plan_ok_def Let_def by blast
  with assms(1-3,5) show ?thesis by (simp add: enc_plan_ok_def Let_def)
qed

text \<open>One round of the loop: it goes on with an extended plan, or stops with a range that no later input overlaps.\<close>

lemma enc_loop_step:
  assumes ok: "enc_plan_ok sz r B cs p" and sz: "sizes_ok sz r" and i: "i < length (rq_mm_features r)" and new: "0 \<le> ep_num_new_tokens p"
    and st: "\<not> es_is_encoder_decoder st" "\<And>has. es_remote_cache_has_item st = Some has \<Longrightarrow> length has = length (rq_mm_features r)"
  shows "(\<exists>p'. enc_loop st r nc (i # ids) p = enc_loop st r nc ids p' \<and> enc_plan_ok sz r B cs p' \<and> ep_num_new_tokens p' = ep_num_new_tokens p \<and>
      (\<forall>j. available r p j \<longrightarrow> available r p' j) \<and> (needed r nc (ep_num_new_tokens p) i \<longrightarrow> available r p' i)) \<or>
    (\<exists>p'. enc_loop st r nc (i # ids) p = Inr p' \<and> enc_plan_ok sz r B cs p' \<and> 0 \<le> ep_num_new_tokens p' \<and> ep_num_new_tokens p' \<le> ep_num_new_tokens p \<and>
      (\<forall>j. available r p j \<longrightarrow> available r p' j) \<and>
      (\<forall>j. mm_offset (rq_mm_features r ! i) \<le> mm_offset (rq_mm_features r ! j) \<longrightarrow> \<not> needed r nc (ep_num_new_tokens p') j))"
    (is "?go \<or> ?stop")
proof -
  let ?start = "mm_offset (rq_mm_features r ! i)" let ?n = "item_len r i" and ?h = "item_hash r i"
  let ?K = "keyset (ec_cached (ep_cache p))"
  consider (far) "?start \<ge> nc + ep_num_new_tokens p" | (past) "?start < nc + ep_num_new_tokens p" "?start + ?n \<le> nc"
    | (dup) "?start < nc + ep_num_new_tokens p" "\<not> ?start + ?n \<le> nc" "?h \<in> ep_hashes p"
    | (look) "?start < nc + ep_num_new_tokens p" "\<not> ?start + ?n \<le> nc" "?h \<notin> ep_hashes p" by linarith
  then show ?thesis
  proof cases
    case far
    then have ?stop using ok new by (intro exI [of _ p]) (auto simp: needed_def Let_def)
    then show ?thesis ..
  next
    case past
    then have ?go using ok st by (intro exI [of _ p]) (auto simp: needed_def Let_def)
    then show ?thesis ..
  next
    case dup
    then have ?go using ok st by (intro exI [of _ p]) (auto simp: available_def Let_def)
    then show ?thesis ..
  next
    case look
    have inv: "enc_inv sz (ep_cache p)" "ec_cache_size (ep_cache p) = cs" using ok by (simp_all add: enc_plan_ok_def Let_def)
    obtain m where m: "check_and_update_cache r i (ep_cache p) = Inr (?h \<in> ?K, m)" "enc_inv sz m"
      "ec_num_free_slots m = ec_num_free_slots (ep_cache p)" "keyset (ec_cached m) = ?K" "ec_cache_size m = cs"
      "\<And>rid x. refers m rid x \<longleftrightarrow> refers (ep_cache p) rid x \<or> x = ?h \<and> rid = rq_request_id r \<and> ?h \<in> ?K"
      using check_and_update_spec [OF inv(1) sz i] unfolding inv(2) by blast
    note keep = enc_plan_ok_cache [OF ok m(2,5), unfolded m(3,4)]
    have av: "available r (p\<lparr>ep_cache := m, ep_num_new_tokens := k\<rparr>) j" if "available r p j" for j k using that m(6) by (auto simp: available_def)
    obtain ok' m' where m': "can_allocate r i (ep_budget p) (ep_tokens p) m = Inr (ok', m')" "enc_inv sz m'" "keyset (ec_cached m') \<subseteq> ?K"
      "ec_cache_size m' = cs" "\<And>rid x. refers m rid x \<Longrightarrow> refers m' rid x"
      "if ok' then ?n \<le> ep_budget p \<and> ep_tokens p + ?n \<le> ec_num_free_slots m' else m' = m"
      using can_allocate_spec [OF m(2) sz i, of "ep_budget p" "ep_tokens p"] unfolding m(4,5) by blast
    consider (hit) "?h \<in> ?K" | (chunk) "?h \<notin> ?K" "es_disable_chunked_mm_input st \<and> nc < ?start \<and> nc + ep_num_new_tokens p < ?start + ?n"
      | (full) "?h \<notin> ?K" "\<not> (es_disable_chunked_mm_input st \<and> nc < ?start \<and> nc + ep_num_new_tokens p < ?start + ?n)" "\<not> ok'"
      | (room) "?h \<notin> ?K" "\<not> (es_disable_chunked_mm_input st \<and> nc < ?start \<and> nc + ep_num_new_tokens p < ?start + ?n)" ok' by blast
    then show ?thesis
    proof cases
      case hit
      have "?go" using look hit m(1) st(1) keep [of "ep_num_new_tokens p"] av [of _ "ep_num_new_tokens p"] m(6)
        by (intro exI [of _ "p\<lparr>ep_cache := m, ep_num_new_tokens := ep_num_new_tokens p\<rparr>"]) (simp add: Let_def available_def)
      then show ?thesis ..
    next
      case chunk
      have ?stop using look chunk m(1) st(1) keep [of "?start - nc"] av [of _ "?start - nc"]
        by (intro exI [of _ "p\<lparr>ep_cache := m, ep_num_new_tokens := ?start - nc\<rparr>"]) (auto simp: Let_def needed_def)
      then show ?thesis ..
    next
      case full
      let ?k = "if nc < ?start then ?start - nc else 0"
      have ?stop using look full m(1) m'(1,6) st(1) keep [of ?k] av [of _ ?k] new
        by (intro exI [of _ "p\<lparr>ep_cache := m, ep_num_new_tokens := ?k\<rparr>"]) (auto simp: Let_def needed_def)
      then show ?thesis ..
    next
      case room
      obtain p' where p': "plan_input st r i (p\<lparr>ep_cache := m'\<rparr>) = Inr p'" "enc_plan_ok sz r B cs p'"
        "ep_num_new_tokens p' = ep_num_new_tokens p" "ep_hashes p' = insert ?h (ep_hashes p)" "ep_cache p' = m'"
        using plan_input_spec [OF ok i look(3) m'(2,4,3) room(1) _ _ st(2)] m'(6) room(3) by auto
      have "available r p' j" if "available r p j" for j using that p'(4,5) m(6) m'(5) by (auto simp: available_def)
      then have ?go using look room m(1) m'(1) p' st(1) by (intro exI [of _ p']) (auto simp: Let_def available_def)
      then show ?thesis ..
    qed
  qed
qed

text \<open>The inputs of a request are listed in the order of their positions.\<close>

definition features_sorted :: "request \<Rightarrow> bool" where
  "features_sorted r \<longleftrightarrow> sorted (map mm_offset (rq_mm_features r))"

lemma enc_loop_spec:
  assumes sz: "sizes_ok sz r" and sorted: "features_sorted r" and st: "\<not> es_is_encoder_decoder st"
      "\<And>has. es_remote_cache_has_item st = Some has \<Longrightarrow> length has = length (rq_mm_features r)"
    and ok: "enc_plan_ok sz r B cs p" and new: "0 \<le> ep_num_new_tokens p" and k: "k \<le> length (rq_mm_features r)"
    and before: "\<And>j. j < k \<Longrightarrow> needed r nc (ep_num_new_tokens p) j \<Longrightarrow> available r p j"
  shows "\<exists>p'. enc_loop st r nc [k..<length (rq_mm_features r)] p = Inr p' \<and> enc_plan_ok sz r B cs p' \<and>
    0 \<le> ep_num_new_tokens p' \<and> ep_num_new_tokens p' \<le> ep_num_new_tokens p \<and>
    (\<forall>j < length (rq_mm_features r). needed r nc (ep_num_new_tokens p') j \<longrightarrow> available r p' j)"
  using ok new k before
proof (induction "length (rq_mm_features r) - k" arbitrary: k p)
  case 0
  then show ?case by auto
next
  case (Suc d)
  let ?n = "length (rq_mm_features r)"
  have k: "k < ?n" and cons: "[k..<?n] = k # [Suc k..<?n]" using Suc.hyps(2) by (simp_all add: upt_conv_Cons)
  from enc_loop_step [OF Suc.prems(1) sz k Suc.prems(2) st, of nc "[Suc k..<?n]"] show ?case
  proof
    assume "\<exists>p'. enc_loop st r nc (k # [Suc k..<?n]) p = enc_loop st r nc [Suc k..<?n] p' \<and> enc_plan_ok sz r B cs p' \<and>
      ep_num_new_tokens p' = ep_num_new_tokens p \<and> (\<forall>j. available r p j \<longrightarrow> available r p' j) \<and>
      (needed r nc (ep_num_new_tokens p) k \<longrightarrow> available r p' k)"
    then obtain p' where p': "enc_loop st r nc (k # [Suc k..<?n]) p = enc_loop st r nc [Suc k..<?n] p'" "enc_plan_ok sz r B cs p'"
      "ep_num_new_tokens p' = ep_num_new_tokens p" "\<And>j. available r p j \<Longrightarrow> available r p' j"
      "needed r nc (ep_num_new_tokens p) k \<Longrightarrow> available r p' k" by blast
    have "available r p' j" if "j < Suc k" "needed r nc (ep_num_new_tokens p') j" for j
      using that p'(3,4,5) Suc.prems(4) [of j] by (cases "j = k") auto
    from Suc.hyps(1) [OF _ p'(2) _ _ this] Suc.hyps(2) Suc.prems(2) k p'(1,3) show ?thesis unfolding cons by simp
  next
    assume "\<exists>p'. enc_loop st r nc (k # [Suc k..<?n]) p = Inr p' \<and> enc_plan_ok sz r B cs p' \<and> 0 \<le> ep_num_new_tokens p' \<and>
      ep_num_new_tokens p' \<le> ep_num_new_tokens p \<and> (\<forall>j. available r p j \<longrightarrow> available r p' j) \<and>
      (\<forall>j. mm_offset (rq_mm_features r ! k) \<le> mm_offset (rq_mm_features r ! j) \<longrightarrow> \<not> needed r nc (ep_num_new_tokens p') j)"
    then obtain p' where p': "enc_loop st r nc (k # [Suc k..<?n]) p = Inr p'" "enc_plan_ok sz r B cs p'" "0 \<le> ep_num_new_tokens p'"
      "ep_num_new_tokens p' \<le> ep_num_new_tokens p" "\<And>j. available r p j \<Longrightarrow> available r p' j"
      "\<And>j. mm_offset (rq_mm_features r ! k) \<le> mm_offset (rq_mm_features r ! j) \<Longrightarrow> \<not> needed r nc (ep_num_new_tokens p') j" by blast
    have "available r p' j" if j: "j < ?n" "needed r nc (ep_num_new_tokens p') j" for j
    proof (cases "j < k")
      case True
      have "needed r nc (ep_num_new_tokens p) j" using j(2) p'(4) unfolding needed_def by force
      with True Suc.prems(4) p'(5) show ?thesis by blast
    next
      case False
      then have "mm_offset (rq_mm_features r ! k) \<le> mm_offset (rq_mm_features r ! j)"
        using sorted j(1) sorted_nth_mono [of "map mm_offset (rq_mm_features r)" k j] by (simp add: features_sorted_def)
      with p'(6) j(2) show ?thesis by blast
    qed
    with p'(1-4) show ?thesis unfolding cons by blast
  qed
qed

lemma try_schedule_spec:
  assumes inv: "enc_inv sz m" and sz: "sizes_ok sz r" and sorted: "features_sorted r" and st: "\<not> es_is_encoder_decoder st"
      "\<And>has. es_remote_cache_has_item st = Some has \<Longrightarrow> length has = length (rq_mm_features r)"
    and new: "0 \<le> new" and B: "0 \<le> B"
  shows "\<exists>p. try_schedule_encoder_inputs st r nc new B m = Inr p \<and> enc_plan_ok sz r B (ec_cache_size m) p \<and>
    0 \<le> ep_num_new_tokens p \<and> ep_num_new_tokens p \<le> new \<and>
    (\<forall>j < length (rq_mm_features r). needed r nc (ep_num_new_tokens p) j \<longrightarrow> available r p j)"
proof -
  let ?p = "\<lparr>ep_inputs = [], ep_external = [], ep_num_new_tokens = new, ep_budget = B, ep_hashes = {}, ep_tokens = 0, ep_cache = m\<rparr>"
  have ok: "enc_plan_ok sz r B (ec_cache_size m) ?p" using inv B enc_invD(6) [OF inv] by (simp add: enc_plan_ok_def)
  show ?thesis
  proof (cases "new = 0 \<or> rq_mm_features r = []")
    case True
    with ok new show ?thesis by (intro exI [of _ ?p]) (auto simp: try_schedule_encoder_inputs_def needed_def)
  next
    case False
    with enc_loop_spec [OF sz sorted st ok, of 0 nc] new show ?thesis by (simp add: try_schedule_encoder_inputs_def Let_def)
  qed
qed

text \<open>Allocating inputs that fit together.\<close>

lemma allocate_loop_spec:
  assumes sz: "sizes_ok sz r"
  shows "enc_inv sz m \<Longrightarrow> distinct ids \<Longrightarrow> set ids \<subseteq> {..<length (rq_mm_features r)} \<Longrightarrow> inj_on (item_hash r) (set ids) \<Longrightarrow>
    item_hash r ` set ids \<inter> keyset (ec_cached m) = {} \<Longrightarrow> sum (item_len r) (set ids) \<le> ec_num_free_slots m \<Longrightarrow>
    \<exists>m'. allocate_loop r ids m = Inr m' \<and> enc_inv sz m' \<and> ec_cache_size m' = ec_cache_size m \<and>
      (\<forall>rid x. refers m' rid x \<longleftrightarrow> refers m rid x \<or> x \<in> item_hash r ` set ids \<and> rid = rq_request_id r)"
proof (induction ids arbitrary: m)
  case (Cons i ids)
  have len: "0 \<le> sum (item_len r) (set ids)"
    by (rule sum_nonneg) (use Cons.prems(3) sz size_of_input(1) [OF sz] in \<open>auto simp: sizes_ok_def\<close>)
  have room: "item_len r i \<le> ec_num_free_slots m" using Cons.prems(2,6) len by simp
  have i: "i < length (rq_mm_features r)" "item_hash r i \<notin> keyset (ec_cached m)" using Cons.prems(3,5) by auto
  obtain m1 where m1: "ec_allocate r i m = Inr m1" "enc_inv sz m1" "ec_cache_size m1 = ec_cache_size m"
    "keyset (ec_cached m1) = insert (item_hash r i) (keyset (ec_cached m))" "ec_num_free_slots m1 = ec_num_free_slots m - item_len r i"
    "\<And>rid x. refers m1 rid x \<longleftrightarrow> refers m rid x \<or> x = item_hash r i \<and> rid = rq_request_id r"
    using ec_allocate_spec [OF Cons.prems(1) sz i room] by blast
  have "item_hash r i \<notin> item_hash r ` set ids" using Cons.prems(2,4) by (auto simp: inj_on_def)
  then have "item_hash r ` set ids \<inter> keyset (ec_cached m1) = {}" using Cons.prems(5) m1(4) by auto
  from Cons.IH [OF m1(2) _ _ _ this] Cons.prems(2,3,4,6) m1 show ?case by auto
qed simp

lemma allocate_loop_append: "allocate_loop r (xs @ ys) m = ebind (allocate_loop r xs m) (allocate_loop r ys)"
  by (induction xs arbitrary: m) (auto simp: ebind_def split: sum.splits)

lemma allocate_planned_spec:
  assumes ok: "enc_plan_ok sz r B cs p" and sz: "sizes_ok sz r"
  shows "\<exists>m'. allocate_planned r p = Inr m' \<and> enc_inv sz m' \<and> ec_cache_size m' = cs \<and>
    (\<forall>i. available r p i \<longrightarrow> refers m' (rq_request_id r) (item_hash r i)) \<and>
    sum (item_len r) (set (ep_inputs p)) \<le> B"
proof -
  have pl: "allocate_planned r p = allocate_loop r (ep_inputs p @ ep_external p) (ep_cache p)" by (simp add: allocate_planned_def allocate_loop_append)
  show ?thesis unfolding pl using allocate_loop_spec [OF sz, of "ep_cache p" "ep_inputs p @ ep_external p"] ok
    by (auto simp: enc_plan_ok_def Let_def available_def)
qed

subsection \<open>Freeing\<close>

lemma free_inputs_loop_spec:
  assumes sz: "sizes_ok sz r"
  shows "enc_inv sz m \<Longrightarrow> set ids \<subseteq> {..<length (rq_mm_features r)} \<Longrightarrow>
    \<exists>m'. free_inputs_loop r ids m = Inr m' \<and> enc_inv sz m' \<and> ec_cache_size m' = ec_cache_size m \<and>
      (\<forall>rid x. refers m' rid x \<longleftrightarrow> refers m rid x \<and> \<not> (rid = rq_request_id r \<and> x \<in> item_hash r ` set ids))"
proof (induction ids arbitrary: m)
  case (Cons i ids)
  have i: "i < length (rq_mm_features r)" using Cons.prems(2) by simp
  obtain m1 where m1: "free_encoder_input r i m = Inr m1" "enc_inv sz m1" "ec_cache_size m1 = ec_cache_size m"
    "\<And>x. map_of (ec_cached m1) x = map_option (\<lambda>A. if x = item_hash r i then A - {rq_request_id r} else A) (map_of (ec_cached m) x)"
    using free_encoder_input_spec [OF Cons.prems(1) sz i] by blast
  have "refers m1 rid x \<longleftrightarrow> refers m rid x \<and> \<not> (rid = rq_request_id r \<and> x = item_hash r i)" for rid x
    by (auto simp: refers_def dget_or_def m1(4) split: option.splits if_splits)
  with Cons.IH [OF m1(2)] Cons.prems(2) m1(1,3) show ?case by auto
qed simp

text \<open>Releasing processed inputs is releasing some of the inputs.\<close>

lemma free_processed_as_free:
  "\<exists>ids'. set ids' \<subseteq> set ids \<and> free_processed_loop encdec r ids m = free_inputs_loop r ids' m"
proof (induction ids arbitrary: m)
  case (Cons i ids)
  let ?c = "encdec \<and> rq_num_computed_tokens r > 0 \<or> mm_offset (rq_mm_features r ! i) + item_len r i \<le> rq_num_computed_tokens r"
  show ?case
  proof (cases ?c)
    case True
    then have eq: "free_processed_loop encdec r (i # ids) m = ebind (free_encoder_input r i m) (free_processed_loop encdec r ids)" by (auto simp: Let_def)
    show ?thesis
    proof (cases "free_encoder_input r i m")
      case (Inl e)
      then show ?thesis unfolding eq by (intro exI [of _ "[i]"]) simp
    next
      case (Inr m1)
      from Cons.IH [of m1] obtain ids' where "set ids' \<subseteq> set ids" "free_processed_loop encdec r ids m1 = free_inputs_loop r ids' m1" by blast
      with Inr show ?thesis unfolding eq by (intro exI [of _ "i # ids'"]) auto
    qed
  next
    case False
    with Cons.IH [of m] show ?thesis by (auto simp: Let_def)
  qed
qed (simp add: exI [of _ "[]"])

definition order_ok :: "(nat set \<Rightarrow> nat list) \<Rightarrow> bool" where
  "order_ok ord \<longleftrightarrow> (\<forall>A. finite A \<longrightarrow> set (ord A) = A)"

lemma cached_ids_bound: "get_cached_input_ids r m \<subseteq> {..<length (rq_mm_features r)}" "finite (get_cached_input_ids r m)"
  by (auto simp: get_cached_input_ids_def)

lemma ec_free_spec:
  assumes inv: "enc_inv sz m" and sz: "sizes_ok sz r" and ord: "order_ok ord"
  shows "\<exists>m'. ec_free ord r m = Inr m' \<and> enc_inv sz m' \<and> ec_cache_size m' = ec_cache_size m \<and>
    (\<forall>i < length (rq_mm_features r). \<not> refers m' (rq_request_id r) (item_hash r i))"
proof -
  have ids: "set (ord (get_cached_input_ids r m)) = get_cached_input_ids r m" using ord cached_ids_bound(2) by (simp add: order_ok_def)
  obtain m' where m': "ec_free ord r m = Inr m'" "enc_inv sz m'" "ec_cache_size m' = ec_cache_size m"
    "\<And>rid x. refers m' rid x \<longleftrightarrow> refers m rid x \<and> \<not> (rid = rq_request_id r \<and> x \<in> item_hash r ` get_cached_input_ids r m)"
    using free_inputs_loop_spec [OF sz inv, of "ord (get_cached_input_ids r m)"] cached_ids_bound(1) [of r m] ids by (auto simp: ec_free_def)
  have "\<not> refers m' (rq_request_id r) (item_hash r i)" if "i < length (rq_mm_features r)" for i
  proof (cases "item_hash r i \<in> keyset (ec_cached m)")
    case True
    with that show ?thesis unfolding m'(4) by (auto simp: get_cached_input_ids_def)
  next
    case False
    then show ?thesis unfolding m'(4) by (simp add: refers_def dget_or_def flip: map_of_None_iff)
  qed
  with m'(1-3) show ?thesis by blast
qed

lemma free_encoder_inputs_spec:
  assumes inv: "enc_inv sz m" and sz: "sizes_ok sz r" and ord: "order_ok ord"
  shows "\<exists>m'. free_encoder_inputs encdec ord r m = Inr m' \<and> enc_inv sz m' \<and> ec_cache_size m' = ec_cache_size m"
proof -
  let ?ids = "ord (get_cached_input_ids r m)"
  obtain ids' where ids': "set ids' \<subseteq> set ?ids" "free_processed_loop encdec r ?ids m = free_inputs_loop r ids' m"
    using free_processed_as_free by blast
  have "set ?ids = get_cached_input_ids r m" using ord cached_ids_bound(2) by (simp add: order_ok_def)
  with ids'(1) cached_ids_bound(1) [of r m] have "set ids' \<subseteq> {..<length (rq_mm_features r)}" by blast
  from free_inputs_loop_spec [OF sz inv this] ids'(2) inv show ?thesis by (auto simp: free_encoder_inputs_def Let_def)
qed

subsection \<open>The cache as a state machine\<close>

definition enc_request_ok :: "(string \<Rightarrow> int) \<Rightarrow> enc_settings \<Rightarrow> request \<Rightarrow> bool" where
  "enc_request_ok sz st r \<longleftrightarrow> sizes_ok sz r \<and> features_sorted r \<and> \<not> es_is_encoder_decoder st \<and>
     (\<forall>has. es_remote_cache_has_item st = Some has \<longrightarrow> length has = length (rq_mm_features r))"

text \<open>What the scheduler does with the cache: it plans the inputs of a request and allocates them, or drops the plan when the KV blocks
  cannot be allocated; it releases the inputs that a request has processed, and all inputs of a request that ends or is preempted;
  and it collects the evicted hashes.\<close>

inductive enc_step :: "(string \<Rightarrow> int) \<Rightarrow> encoder_cache \<Rightarrow> encoder_cache \<Rightarrow> bool" for sz where
  enc_schedule: "enc_request_ok sz st r \<Longrightarrow> 0 \<le> new \<Longrightarrow> 0 \<le> B \<Longrightarrow> try_schedule_encoder_inputs st r nc new B m = Inr p \<Longrightarrow>
    allocate_planned r p = Inr m' \<Longrightarrow> enc_step sz m m'"
| enc_dropped: "enc_request_ok sz st r \<Longrightarrow> 0 \<le> new \<Longrightarrow> 0 \<le> B \<Longrightarrow> try_schedule_encoder_inputs st r nc new B m = Inr p \<Longrightarrow>
    enc_step sz m (ep_cache p)"
| enc_processed: "sizes_ok sz r \<Longrightarrow> order_ok ord \<Longrightarrow> free_encoder_inputs encdec ord r m = Inr m' \<Longrightarrow> enc_step sz m m'"
| enc_free: "sizes_ok sz r \<Longrightarrow> order_ok ord \<Longrightarrow> ec_free ord r m = Inr m' \<Longrightarrow> enc_step sz m m'"
| enc_collect: "enc_step sz m (snd (get_freed_mm_hashes m))"

lemma enc_step_inv: "enc_step sz m m' \<Longrightarrow> enc_inv sz m \<Longrightarrow> enc_inv sz m' \<and> ec_cache_size m' = ec_cache_size m"
proof (induction rule: enc_step.induct)
  case (enc_schedule st r new B nc m p m')
  then have "enc_plan_ok sz r B (ec_cache_size m) p"
    using try_schedule_spec [of sz m r st new B nc] by (auto simp: enc_request_ok_def)
  with enc_schedule show ?case using allocate_planned_spec [of sz r B "ec_cache_size m" p] by (auto simp: enc_request_ok_def)
next
  case (enc_dropped st r new B nc m p)
  then show ?case using try_schedule_spec [of sz m r st new B nc] by (auto simp: enc_request_ok_def enc_plan_ok_def Let_def)
next
  case (enc_processed r ord encdec m m')
  then show ?case using free_encoder_inputs_spec [of sz m r ord encdec] by auto
next
  case (enc_free r ord m m')
  then show ?case using ec_free_spec [of sz m r ord] by auto
next
  case (enc_collect m)
  then show ?case by (simp add: get_freed_mm_hashes_def enc_inv_def)
qed

lemma enc_reachable_inv:
  assumes "(enc_step sz)\<^sup>*\<^sup>* (new_encoder_cache n) m" and "0 \<le> n"
  shows "enc_inv sz m \<and> ec_cache_size m = n"
  using assms(1)
proof (induction rule: rtranclp_induct)
  case base
  then show ?case using assms(2) by (simp add: enc_inv_def new_encoder_cache_def)
next
  case (step y z)
  then show ?case using enc_step_inv by metis
qed

text \<open>C32: encoder slots are accounted for. In every state the cache reaches through the operations of the scheduler (for decoder-only models), the
  free slots are the capacity minus the sizes of all entries, the freeable ones the capacity minus the sizes of the entries in use,
  neither is negative or above the capacity, and the entries kept for eviction are exactly those no request refers to.\<close>

theorem encoder_slots_accounted:
  assumes "(enc_step sz)\<^sup>*\<^sup>* (new_encoder_cache n) m" and "0 \<le> n" and "\<forall>h. 0 \<le> sz h"
  shows "ec_num_free_slots m = n - (\<Sum>h \<in> keyset (ec_cached m). sz h) \<and>
    ec_num_freeable_slots m = n - (\<Sum>h \<in> {h \<in> keyset (ec_cached m). \<exists>rid. refers m rid h}. sz h) \<and>
    0 \<le> ec_num_free_slots m \<and> ec_num_free_slots m \<le> ec_num_freeable_slots m \<and> ec_num_freeable_slots m \<le> n \<and>
    keyset (ec_freeable m) = {h \<in> keyset (ec_cached m). \<forall>rid. \<not> refers m rid h}"
proof -
  have inv: "enc_inv sz m" and size: "ec_cache_size m = n" using enc_reachable_inv [OF assms(1,2)] by simp_all
  note d = enc_invD [OF inv]
  let ?K = "keyset (ec_cached m)" and ?R = "{h \<in> keyset (ec_cached m). \<exists>rid. refers m rid h}"
  have F: "keyset (ec_freeable m) = {h \<in> ?K. \<forall>rid. \<not> refers m rid h}"
  proof (rule set_eqI)
    fix h
    have "h \<in> keyset (ec_freeable m) \<longleftrightarrow> map_of (ec_cached m) h = Some {}"
      using d(3) [of h "sz h"] d(3) [of h] by (metis in_keys_map_of map_of_in_keys)
    also have "\<dots> \<longleftrightarrow> h \<in> ?K \<and> (\<forall>rid. \<not> refers m rid h)"
    proof (cases "map_of (ec_cached m) h")
      case None
      then have "h \<notin> ?K" by (simp add: map_of_None_iff)
      with None show ?thesis by simp
    next
      case (Some A)
      then have "h \<in> ?K" by (rule map_of_in_keys)
      with Some show ?thesis by (simp add: refers_def dget_or_def)
    qed
    finally show "h \<in> keyset (ec_freeable m) \<longleftrightarrow> h \<in> {h \<in> ?K. \<forall>rid. \<not> refers m rid h}" by simp
  qed
  have "sum sz ?K = sum sz ?R + sum sz (keyset (ec_freeable m))"
    unfolding F by (subst sum.union_disjoint [symmetric]) (auto intro!: arg_cong [where f = "sum sz"])
  moreover have "0 \<le> sum sz ?R" by (rule sum_nonneg) (use assms(3) in simp)
  ultimately show ?thesis using d(4,5,6) size F free_le_freeable [OF inv] assms(3) by simp
qed

text \<open>C31: encoder inputs are there when they are needed. In every reachable state, for every request whose inputs are listed by position, planning
  a step never raises and plans at most the requested number of tokens; the inputs to compute stay within the encoder budget;
  allocating all planned inputs passes both assertions; and afterwards every input that overlaps the planned tokens is in the cache
  with a reference of the request, so it is not evicted before it is used. Releasing the inputs of a request also succeeds and leaves no
  reference behind.\<close>

theorem needed_encoder_inputs_available:
  assumes "(enc_step sz)\<^sup>*\<^sup>* (new_encoder_cache n) m" and "0 \<le> n" and "enc_request_ok sz st r" and "0 \<le> new" and "0 \<le> B" and "order_ok ord"
  shows "(\<exists>p m'. try_schedule_encoder_inputs st r nc new B m = Inr p \<and> allocate_planned r p = Inr m' \<and>
      0 \<le> ep_num_new_tokens p \<and> ep_num_new_tokens p \<le> new \<and> (\<Sum>i \<in> set (ep_inputs p). item_len r i) \<le> B \<and>
      (\<forall>i < length (rq_mm_features r). needed r nc (ep_num_new_tokens p) i \<longrightarrow> refers m' (rq_request_id r) (item_hash r i))) \<and>
    (\<exists>m'. ec_free ord r m = Inr m' \<and> (\<forall>i < length (rq_mm_features r). \<not> refers m' (rq_request_id r) (item_hash r i)))"
    (is "?plan \<and> ?free")
proof -
  have inv: "enc_inv sz m" using enc_reachable_inv [OF assms(1,2)] by simp
  have r: "sizes_ok sz r" "features_sorted r" "\<not> es_is_encoder_decoder st"
    "\<And>has. es_remote_cache_has_item st = Some has \<Longrightarrow> length has = length (rq_mm_features r)"
    using assms(3) by (simp_all add: enc_request_ok_def)
  obtain p where p: "try_schedule_encoder_inputs st r nc new B m = Inr p" "enc_plan_ok sz r B (ec_cache_size m) p" "0 \<le> ep_num_new_tokens p"
    "ep_num_new_tokens p \<le> new" "\<forall>j < length (rq_mm_features r). needed r nc (ep_num_new_tokens p) j \<longrightarrow> available r p j"
    using try_schedule_spec [OF inv r(1-3) _ assms(4,5), of nc] r(4) by blast
  obtain m' where m': "allocate_planned r p = Inr m'" "\<And>i. available r p i \<Longrightarrow> refers m' (rq_request_id r) (item_hash r i)"
    "sum (item_len r) (set (ep_inputs p)) \<le> B" using allocate_planned_spec [OF p(2) r(1)] by blast
  have ?plan using p m' by (intro exI [of _ p] exI [of _ m']) simp
  moreover have ?free using ec_free_spec [OF inv r(1) assms(6)] by (elim exE conjE) (rule exI conjI | assumption)+
  ultimately show ?thesis ..
qed

definition sample_image :: mm_feature where
  "sample_image = \<lparr>mm_identifier = ''img'', mm_offset = 1, mm_length = 2\<rparr>"

definition sample_mm :: "reqid \<Rightarrow> request" where
  "sample_mm rid = (sample_request rid [5, 6, 7, 8])\<lparr>rq_mm_features := [sample_image]\<rparr>"

definition sample_settings :: "bool \<Rightarrow> enc_settings" where
  "sample_settings encdec = \<lparr>es_is_encoder_decoder = encdec, es_disable_chunked_mm_input = False, es_remote_cache_has_item = None\<rparr>"

lemma sample_mm_ok: "enc_request_ok (\<lambda>_. 2) (sample_settings False) (sample_mm rid)"
  by (simp add: enc_request_ok_def sizes_ok_def features_sorted_def sample_mm_def sample_image_def sample_settings_def)

lemma sample_encoder_plan:
  obtains p m where "try_schedule_encoder_inputs (sample_settings False) (sample_mm ''a'') 0 4 8 (new_encoder_cache 5) = Inr p"
    "allocate_planned (sample_mm ''a'') p = Inr m" "(enc_step (\<lambda>_. 2))\<^sup>*\<^sup>* (new_encoder_cache 5) m"
proof -
  have inv: "enc_inv (\<lambda>_. 2) (new_encoder_cache 5)" using enc_reachable_inv [OF rtranclp.rtrancl_refl, of 5] by simp
  note r = sample_mm_ok [of "''a''", unfolded enc_request_ok_def]
  obtain p where p: "try_schedule_encoder_inputs (sample_settings False) (sample_mm ''a'') 0 4 8 (new_encoder_cache 5) = Inr p"
    "enc_plan_ok (\<lambda>_. 2) (sample_mm ''a'') 8 (ec_cache_size (new_encoder_cache 5)) p"
    using try_schedule_spec [OF inv, of "sample_mm ''a''" "sample_settings False" 4 8 0] r by auto
  with allocate_planned_spec [OF p(2)] r obtain m where m: "allocate_planned (sample_mm ''a'') p = Inr m" by blast
  have "(enc_step (\<lambda>_. 2))\<^sup>*\<^sup>* (new_encoder_cache 5) m"
    by (rule r_into_rtranclp, rule enc_schedule [OF sample_mm_ok _ _ p(1) m]) simp_all
  with p(1) m that show thesis by blast
qed

theorem encoder_slots_accounted_witness:
  "\<exists>p m. try_schedule_encoder_inputs (sample_settings False) (sample_mm ''a'') 0 4 8 (new_encoder_cache 5) = Inr p \<and>
     allocate_planned (sample_mm ''a'') p = Inr m \<and> ec_num_free_slots m = 5 - (\<Sum>h \<in> keyset (ec_cached m). 2)"
proof -
  obtain p m where p: "try_schedule_encoder_inputs (sample_settings False) (sample_mm ''a'') 0 4 8 (new_encoder_cache 5) = Inr p"
    "allocate_planned (sample_mm ''a'') p = Inr m" "(enc_step (\<lambda>_. 2))\<^sup>*\<^sup>* (new_encoder_cache 5) m" by (rule sample_encoder_plan)
  from encoder_slots_accounted [OF p(3)] p(1,2) show ?thesis by auto
qed

theorem needed_encoder_inputs_available_witness:
  "\<exists>p m m'. (enc_step (\<lambda>_. 2))\<^sup>*\<^sup>* (new_encoder_cache 5) m \<and>
     try_schedule_encoder_inputs (sample_settings False) (sample_mm ''b'') 0 2 8 m = Inr p \<and> allocate_planned (sample_mm ''b'') p = Inr m'"
proof -
  obtain m where m: "(enc_step (\<lambda>_. 2))\<^sup>*\<^sup>* (new_encoder_cache 5) m" by (rule sample_encoder_plan)
  have "order_ok sorted_list_of_set" by (simp add: order_ok_def)
  from needed_encoder_inputs_available [OF m _ sample_mm_ok _ _ this, of 2 8 "''b''" 0] m show ?thesis by auto
qed

text \<open>Encoder-decoder models lose slots. For such models the scheduler does not look inputs up before it allocates them. Two requests with the
  same input, planned in one step and processed in the next, take its size twice and give it back once: afterwards no
  request refers to any entry, and yet slots of the input's size are neither free nor freeable.\<close>

lemma encoder_decoder_slots_leak:
  assumes r: "rq_mm_features r = [f]" "rq_mm_features r' = [f]" "rq_request_id r \<noteq> rq_request_id r'"
    and f: "mm_offset f = 0" "0 < mm_length f" "2 * mm_length f \<le> n" "2 * mm_length f \<le> B" and new: "0 < new" and ord: "ord {0} = [0]"
    and st: "es_is_encoder_decoder st" "es_remote_cache_has_item st = None"
  shows "\<exists>p m p' m' m1 m2. try_schedule_encoder_inputs st r 0 new B (new_encoder_cache n) = Inr p \<and> allocate_planned r p = Inr m \<and>
    try_schedule_encoder_inputs st r' 0 new (ep_budget p) m = Inr p' \<and> allocate_planned r' p' = Inr m' \<and>
    free_encoder_inputs True ord (r\<lparr>rq_num_computed_tokens := new\<rparr>) m' = Inr m1 \<and>
    free_encoder_inputs True ord (r'\<lparr>rq_num_computed_tokens := new\<rparr>) m1 = Inr m2 \<and>
    (\<forall>rid h. \<not> refers m2 rid h) \<and> ec_num_freeable_slots m2 = n - mm_length f"
proof -
  let ?h = "mm_identifier f" let ?k = "mm_length f"
  define c where "c = (\<lambda>refs free able fb. \<lparr>ec_cache_size = n, ec_num_free_slots = free, ec_num_freeable_slots = able,
    ec_cached = [(?h, refs)], ec_freeable = fb, ec_freed = []\<rparr>)"
  have hash: "mm_hash_of r 0 = Inr ?h" "mm_hash_of r' 0 = Inr ?h" "get_num_encoder_tokens 0 r = Inr ?k" "get_num_encoder_tokens 0 r' = Inr ?k"
    using r by (simp_all add: mm_hash_of_def get_num_encoder_tokens_def)
  let ?p = "\<lparr>ep_inputs = [0], ep_external = [], ep_num_new_tokens = new, ep_budget = B - ?k, ep_hashes = {?h}, ep_tokens = ?k, ep_cache = new_encoder_cache n\<rparr>"
  let ?m = "c {rq_request_id r} (n - ?k) (n - ?k) []"
  let ?p2 = "?p\<lparr>ep_budget := B - 2 * ?k, ep_cache := ?m\<rparr>"
  let ?m2 = "c {rq_request_id r, rq_request_id r'} (n - 2 * ?k) (n - 2 * ?k) []"
  have 1: "try_schedule_encoder_inputs st r 0 new B (new_encoder_cache n) = Inr ?p"
    using r f new st hash by (simp add: try_schedule_encoder_inputs_def can_allocate_def plan_input_def new_encoder_cache_def Let_def)
  have 2: "allocate_planned r ?p = Inr ?m"
    using f hash by (simp add: allocate_planned_def ec_allocate_def new_encoder_cache_def c_def dsetdefault_def dmodify_def)
  have 3: "try_schedule_encoder_inputs st r' 0 new (ep_budget ?p) ?m = Inr ?p2"
    using r f new st hash by (simp add: try_schedule_encoder_inputs_def can_allocate_def plan_input_def c_def Let_def)
  have 4: "allocate_planned r' ?p2 = Inr ?m2"
    using f hash by (simp add: allocate_planned_def ec_allocate_def c_def dsetdefault_def dmodify_def insert_commute)
  have free1: "free_encoder_inputs True ord (q\<lparr>rq_num_computed_tokens := new\<rparr>) (c A (n - 2 * ?k) (n - 2 * ?k) []) =
      Inr (if A - {rq_request_id q} = {} then c {} (n - 2 * ?k) (n - ?k) [(?h, ?k)] else c (A - {rq_request_id q}) (n - 2 * ?k) (n - 2 * ?k) [])"
    if "rq_mm_features q = [f]" "A \<noteq> {}" for q A
    using that new ord by (simp add: free_encoder_inputs_def get_cached_input_ids_def free_encoder_input_def mm_hash_of_def
      get_num_encoder_tokens_def c_def dget_or_def dmodify_def Let_def)
  have 5: "free_encoder_inputs True ord (r\<lparr>rq_num_computed_tokens := new\<rparr>) ?m2 = Inr (c {rq_request_id r'} (n - 2 * ?k) (n - 2 * ?k) [])"
    using free1 [of r] r(1,3) hash by simp
  have 6: "free_encoder_inputs True ord (r'\<lparr>rq_num_computed_tokens := new\<rparr>) (c {rq_request_id r'} (n - 2 * ?k) (n - 2 * ?k) []) =
      Inr (c {} (n - 2 * ?k) (n - ?k) [(?h, ?k)])"
    using free1 [of r'] r(2) hash by simp
  have 7: "\<forall>rid h. \<not> refers (c {} (n - 2 * ?k) (n - ?k) [(?h, ?k)]) rid h"
    "ec_num_freeable_slots (c {} (n - 2 * ?k) (n - ?k) [(?h, ?k)]) = n - ?k" by (simp_all add: c_def refers_def dget_or_def)
  show ?thesis by (rule exI conjI 1 2 3 4 5 6 7)+
qed

end
