(* ===== verification/KV_Config.thy ===== *)
theory KV_Config
  imports KV_Manager
begin

text \<open>
  The sizing of the KV cache at start-up: the specifications of a layer's cache in \<open>vllm/v1/kv_cache_interface.py\<close> with their page sizes, memory bounds and
  merging, and the functions of \<open>vllm/v1/core/kv_cache_utils.py\<close> that check the memory, group the layers of a model and lay out its tensors
  on every worker. The size of a data type, a question to PyTorch, is the parameter \<open>dts\<close>. A specification that covers many layers of one type occurs only as the
  specification of a group, so groups have a type of their own. The theory shows that the estimated model length is the greatest one that fits,
  that a plan never exceeds the memory of a worker and gives every layer one tensor, and that the check of the memory
  does not count the null block that the pool keeps back.
\<close>

subsection \<open>Specifications\<close>

record attention_spec =
  at_block_size :: int
  at_num_kv_heads :: int
  at_head_size :: int
  at_dtype :: string

record mamba_spec =
  mb_block_size :: int
  mb_shapes :: "int list list"
  mb_dtypes :: "string list"
  mb_page_size_padded :: "int option"
  mb_mamba_type :: string
  mb_num_speculative_blocks :: int

text \<open>The optional numbers of full attention are a sliding window and an attention chunk; the last field of MLA is the cache's data type.\<close>

datatype kv_cache_spec =
    FullAttentionSpec attention_spec "int option" "int option"
  | MLAAttentionSpec attention_spec "int option" "int option" "string option"
  | ChunkedLocalAttentionSpec attention_spec int
  | SlidingWindowSpec attention_spec int
  | MambaSpec mamba_spec
  | EncoderOnlyAttentionSpec attention_spec
  | CrossAttentionSpec attention_spec

datatype group_spec =
    LayerSpec kv_cache_spec
  | UniformTypeKVCacheSpecs int "(string, kv_cache_spec) dict"

record vllm_config =
  vc_max_model_len :: int
  vc_decode_context_parallel_size :: int
  vc_max_num_batched_tokens :: int
  vc_max_num_encoder_input_tokens :: int
  vc_num_gpu_blocks_override :: "int option"
  vc_disable_hybrid_kv_cache_manager :: bool

text \<open>Floor and ceiling division of numbers that may be zero.\<close>

definition floordiv :: "int \<Rightarrow> int \<Rightarrow> int result" where
  "floordiv a b = (if b = 0 then Inl ZeroDivisionError else Inr (a div b))"

definition ceildiv :: "int \<Rightarrow> int \<Rightarrow> int result" where
  "ceildiv a b = (if b = 0 then Inl ZeroDivisionError else Inr (cdiv a b))"

fun emap :: "('a \<Rightarrow> 'b result) \<Rightarrow> 'a list \<Rightarrow> 'b list result" where
  "emap f [] = Inr []"
| "emap f (x # xs) = ebind (f x) (\<lambda>y. ebind (emap f xs) (\<lambda>ys. Inr (y # ys)))"

definition emax :: "int list \<Rightarrow> int result" where
  "emax xs = (if xs = [] then Inl ValueError else Inr (Max (set xs)))"

definition emin :: "int list \<Rightarrow> int result" where
  "emin xs = (if xs = [] then Inl ValueError else Inr (Min (set xs)))"

fun attention_of :: "kv_cache_spec \<Rightarrow> attention_spec option" where
  "attention_of (FullAttentionSpec a _ _) = Some a"
| "attention_of (MLAAttentionSpec a _ _ _) = Some a"
| "attention_of (ChunkedLocalAttentionSpec a _) = Some a"
| "attention_of (SlidingWindowSpec a _) = Some a"
| "attention_of (MambaSpec _) = None"
| "attention_of (EncoderOnlyAttentionSpec a) = Some a"
| "attention_of (CrossAttentionSpec a) = Some a"

fun block_size :: "kv_cache_spec \<Rightarrow> int" where
  "block_size (MambaSpec m) = mb_block_size m"
| "block_size s = (case attention_of s of Some a \<Rightarrow> at_block_size a | None \<Rightarrow> 0)"

fun group_block_size :: "group_spec \<Rightarrow> int" where
  "group_block_size (LayerSpec s) = block_size s"
| "group_block_size (UniformTypeKVCacheSpecs b _) = b"

fun is_full :: "kv_cache_spec \<Rightarrow> bool" where
  "is_full (FullAttentionSpec _ _ _) = True"
| "is_full (MLAAttentionSpec _ _ _ _) = True"
| "is_full _ = False"

fun is_mla :: "kv_cache_spec \<Rightarrow> bool" where
  "is_mla (MLAAttentionSpec _ _ _ _) = True"
| "is_mla _ = False"

definition attention_page :: "(string \<Rightarrow> int) \<Rightarrow> attention_spec \<Rightarrow> int" where
  "attention_page dts a = 2 * at_block_size a * at_num_kv_heads a * at_head_size a * dts (at_dtype a)"

definition mamba_page :: "(string \<Rightarrow> int) \<Rightarrow> mamba_spec \<Rightarrow> int result" where
  "mamba_page dts m =
     (let page = sum_list (map2 (\<lambda>shape dtype. prod_list shape * dts dtype) (mb_shapes m) (mb_dtypes m))
      in case mb_page_size_padded m of
           Some padded \<Rightarrow> ebind (assert_that (padded \<ge> page)) (\<lambda>_. Inr padded)
         | None \<Rightarrow> Inr page)"

fun page_size_bytes :: "(string \<Rightarrow> int) \<Rightarrow> kv_cache_spec \<Rightarrow> int result" where
  "page_size_bytes dts (MLAAttentionSpec a _ _ cache_dtype_str) =
     (if cache_dtype_str = Some ''fp8_ds_mla'' then Inr (at_block_size a * 656)
      else Inr (at_block_size a * at_num_kv_heads a * at_head_size a * dts (at_dtype a)))"
| "page_size_bytes dts (MambaSpec m) = mamba_page dts m"
| "page_size_bytes dts s = (case attention_of s of Some a \<Rightarrow> Inr (attention_page dts a) | None \<Rightarrow> Inl NotImplementedError)"

definition pages :: "(string \<Rightarrow> int) \<Rightarrow> int \<Rightarrow> kv_cache_spec \<Rightarrow> int result" where
  "pages dts n s = ebind (ceildiv n (block_size s)) (\<lambda>k. ebind (page_size_bytes dts s) (\<lambda>page. Inr (k * page)))"

fun spec_max_memory_usage_bytes :: "(string \<Rightarrow> int) \<Rightarrow> vllm_config \<Rightarrow> kv_cache_spec \<Rightarrow> int result" where
  "spec_max_memory_usage_bytes dts vc (ChunkedLocalAttentionSpec a chunk) =
     pages dts (min (chunk + vc_max_num_batched_tokens vc) (vc_max_model_len vc)) (ChunkedLocalAttentionSpec a chunk)"
| "spec_max_memory_usage_bytes dts vc (SlidingWindowSpec a window) =
     ebind (assert_that (vc_decode_context_parallel_size vc = 1)) (\<lambda>_.
     ebind (ceildiv (min (window - 1 + vc_max_num_batched_tokens vc) (vc_max_model_len vc)) (at_block_size a)) (\<lambda>k.
       Inr ((k + 1) * attention_page dts a)))"
| "spec_max_memory_usage_bytes dts vc (MambaSpec m) = pages dts (vc_max_model_len vc) (MambaSpec m)"
| "spec_max_memory_usage_bytes dts vc (EncoderOnlyAttentionSpec a) = Inr 0"
| "spec_max_memory_usage_bytes dts vc (CrossAttentionSpec a) = pages dts (vc_max_num_encoder_input_tokens vc) (CrossAttentionSpec a)"
| "spec_max_memory_usage_bytes dts vc s =
     pages dts (if vc_decode_context_parallel_size vc > 1 then cdiv (vc_max_model_len vc) (vc_decode_context_parallel_size vc)
                else vc_max_model_len vc) s"

fun group_page_size_bytes :: "(string \<Rightarrow> int) \<Rightarrow> group_spec \<Rightarrow> int result" where
  "group_page_size_bytes dts (LayerSpec s) = page_size_bytes dts s"
| "group_page_size_bytes dts (UniformTypeKVCacheSpecs _ specs) =
     ebind (emap (page_size_bytes dts) (dvals specs)) (\<lambda>sizes. Inr (sum_list sizes))"

fun group_max_memory_usage_bytes :: "(string \<Rightarrow> int) \<Rightarrow> vllm_config \<Rightarrow> group_spec \<Rightarrow> int result" where
  "group_max_memory_usage_bytes dts vc (LayerSpec s) = spec_max_memory_usage_bytes dts vc s"
| "group_max_memory_usage_bytes dts vc (UniformTypeKVCacheSpecs b specs) =
     ebind (emap (\<lambda>s. ebind (spec_max_memory_usage_bytes dts vc s) (\<lambda>m. ebind (page_size_bytes dts s) (ceildiv m))) (dvals specs)) (\<lambda>ks.
     ebind (emax ks) (\<lambda>max_num_pages.
     ebind (group_page_size_bytes dts (UniformTypeKVCacheSpecs b specs)) (\<lambda>page. Inr (max_num_pages * page))))"

subsection \<open>Merging the specifications of layers\<close>

fun sliding_window_of :: "kv_cache_spec \<Rightarrow> int option" where
  "sliding_window_of (FullAttentionSpec _ w _) = w"
| "sliding_window_of (MLAAttentionSpec _ w _ _) = w"
| "sliding_window_of _ = None"

fun attention_chunk_size_of :: "kv_cache_spec \<Rightarrow> int option" where
  "attention_chunk_size_of (FullAttentionSpec _ _ c) = c"
| "attention_chunk_size_of (MLAAttentionSpec _ _ c _) = c"
| "attention_chunk_size_of _ = None"

text \<open>The set of window sizes, as the list of its elements.\<close>

definition window_sizes :: "(kv_cache_spec \<Rightarrow> int option) \<Rightarrow> kv_cache_spec list \<Rightarrow> int list" where
  "window_sizes f specs = remdups (List.map_filter f specs)"

fun merge_window_sizes :: "int list \<Rightarrow> int option result" where
  "merge_window_sizes [] = Inr None"
| "merge_window_sizes [w] = Inr (Some w)"
| "merge_window_sizes (_ # _ # _) = Inl ValueError"

definition full_merge :: "attention_spec \<Rightarrow> kv_cache_spec list \<Rightarrow> kv_cache_spec result" where
  "full_merge a specs =
     ebind (assert_that (list_all is_full specs)) (\<lambda>_.
     ebind (assert_that (\<not> list_ex is_mla specs)) (\<lambda>_.
     ebind (merge_window_sizes (window_sizes sliding_window_of specs)) (\<lambda>sliding_window.
     ebind (merge_window_sizes (window_sizes attention_chunk_size_of specs)) (\<lambda>attention_chunk_size.
     ebind (assert_that (list_all (\<lambda>s. attention_of s = Some a) specs)) (\<lambda>_.
     ebind (assert_that (sliding_window = None \<or> attention_chunk_size = None)) (\<lambda>_.
       Inr (FullAttentionSpec a sliding_window attention_chunk_size)))))))"

fun mla_dtype :: "kv_cache_spec \<Rightarrow> string option" where
  "mla_dtype (MLAAttentionSpec _ _ _ d) = d"
| "mla_dtype _ = None"

definition mla_merge :: "attention_spec \<Rightarrow> kv_cache_spec list \<Rightarrow> kv_cache_spec result" where
  "mla_merge a specs =
     ebind (assert_that (list_all is_mla specs)) (\<lambda>_.
     case remdups (map mla_dtype specs) of
       [d] \<Rightarrow> Inr (MLAAttentionSpec a None None d)
     | _ \<Rightarrow> Inl AssertionError)"

definition spec_merge :: "kv_cache_spec list \<Rightarrow> kv_cache_spec result" where
  "spec_merge specs =
     (case specs of
        [] \<Rightarrow> Inl IndexError
      | FullAttentionSpec a _ _ # _ \<Rightarrow> full_merge a specs
      | MLAAttentionSpec a _ _ _ # _ \<Rightarrow> mla_merge a specs
      | s # rest \<Rightarrow> ebind (assert_that (list_all (\<lambda>s'. s' = s) rest)) (\<lambda>_. Inr s))"

fun same_type :: "kv_cache_spec \<Rightarrow> kv_cache_spec \<Rightarrow> bool" where
  "same_type (FullAttentionSpec _ _ _) s = is_full s"
| "same_type (MLAAttentionSpec _ _ _ _) s = is_full s"
| "same_type (CrossAttentionSpec _) s = (case s of CrossAttentionSpec _ \<Rightarrow> True | _ \<Rightarrow> False)"
| "same_type (SlidingWindowSpec _ w) s = (case s of SlidingWindowSpec _ w' \<Rightarrow> w' = w | _ \<Rightarrow> False)"
| "same_type (ChunkedLocalAttentionSpec _ c) s = (case s of ChunkedLocalAttentionSpec _ c' \<Rightarrow> c' = c | _ \<Rightarrow> False)"
| "same_type (MambaSpec m) s =
     (case s of MambaSpec m' \<Rightarrow> mb_num_speculative_blocks m' = mb_num_speculative_blocks m | _ \<Rightarrow> False)"
| "same_type (EncoderOnlyAttentionSpec _) s = False"

definition is_uniform_type :: "(string, kv_cache_spec) dict \<Rightarrow> bool result" where
  "is_uniform_type specs =
     (if length (remdups (map block_size (dvals specs))) > 1 then Inr False
      else case dvals specs of
        [] \<Rightarrow> Inl StopIteration
      | EncoderOnlyAttentionSpec _ # _ \<Rightarrow> Inl NotImplementedError
      | s # rest \<Rightarrow> Inr (list_all (same_type s) (s # rest)))"

definition from_specs :: "(string, kv_cache_spec) dict \<Rightarrow> group_spec option result" where
  "from_specs specs =
     ebind (is_uniform_type specs) (\<lambda>uniform.
       Inr (if uniform then Some (UniformTypeKVCacheSpecs (block_size (hd (dvals specs))) specs) else None))"

subsection \<open>Checking the memory\<close>

definition max_memory_usage_bytes :: "(string \<Rightarrow> int) \<Rightarrow> vllm_config \<Rightarrow> kv_cache_spec list \<Rightarrow> int result" where
  "max_memory_usage_bytes dts vc specs = ebind (emap (spec_max_memory_usage_bytes dts vc) specs) (\<lambda>ms. Inr (sum_list ms))"

text \<open>\<open>fits_in_memory\<close> writes the tried length into the configuration; the search returns it beside its result.\<close>

definition fits_in_memory :: "(string \<Rightarrow> int) \<Rightarrow> kv_cache_spec list \<Rightarrow> int \<Rightarrow> int \<Rightarrow> vllm_config \<Rightarrow> (bool \<times> vllm_config) result" where
  "fits_in_memory dts specs available_memory model_len vc =
     (let vc' = vc\<lparr>vc_max_model_len := model_len\<rparr>
      in ebind (max_memory_usage_bytes dts vc' specs) (\<lambda>needed. Inr (needed \<le> available_memory, vc')))"

function search_len :: "(int \<Rightarrow> vllm_config \<Rightarrow> (bool \<times> vllm_config) result) \<Rightarrow> int \<Rightarrow> int \<Rightarrow> int \<Rightarrow> vllm_config \<Rightarrow> (int \<times> vllm_config) result" where
  "search_len fits left right res vc =
     (if left \<le> right then
        let mid = (left + right) div 2 in
        ebind (fits mid vc) (\<lambda>(ok, vc').
          if ok then search_len fits (mid + 1) right mid vc' else search_len fits left (mid - 1) res vc')
      else Inr (res, vc))"
  by pat_completeness auto
termination
  by (relation "measure (\<lambda>(_, left, right, _). nat (right + 1 - left))") auto

definition estimate_max_model_len :: "(string \<Rightarrow> int) \<Rightarrow> vllm_config \<Rightarrow> kv_cache_spec list \<Rightarrow> int \<Rightarrow> (int \<times> vllm_config) result" where
  "estimate_max_model_len dts vc specs available_memory =
     (let fits = fits_in_memory dts specs available_memory; current_max = vc_max_model_len vc
      in ebind (fits 1 vc) (\<lambda>(ok, vc').
           if \<not> ok then Inr (0, vc') else search_len fits 1 current_max 1 vc'))"

definition check_enough_kv_cache_memory :: "(string \<Rightarrow> int) \<Rightarrow> vllm_config \<Rightarrow> (string, kv_cache_spec) dict \<Rightarrow> int \<Rightarrow> unit result" where
  "check_enough_kv_cache_memory dts vc specs available_memory =
     (if specs = [] then Inr ()
      else if available_memory \<le> 0 then Inl ValueError
      else ebind (max_memory_usage_bytes dts vc (dvals specs)) (\<lambda>needed.
        if needed > available_memory
        then ebind (estimate_max_model_len dts vc (dvals specs) available_memory) (\<lambda>_. Inl ValueError)
        else Inr ()))"

subsection \<open>Groups of layers\<close>

record kv_cache_group_spec =
  gs_layer_names :: "string list"
  gs_kv_cache_spec :: group_spec

definition layer_lookup :: "(string, kv_cache_spec) dict \<Rightarrow> string \<Rightarrow> kv_cache_spec result" where
  "layer_lookup specs l = (case map_of specs l of Some s \<Rightarrow> Inr s | None \<Rightarrow> Inl KeyError)"

definition create_kv_cache_group_specs :: "(string, kv_cache_spec) dict \<Rightarrow> string list list \<Rightarrow> kv_cache_group_spec list result" where
  "create_kv_cache_group_specs specs grouped =
     emap (\<lambda>names. ebind (emap (layer_lookup specs) names) (\<lambda>layer_specs.
       ebind (spec_merge layer_specs) (\<lambda>s. Inr \<lparr>gs_layer_names = names, gs_kv_cache_spec = LayerSpec s\<rparr>))) grouped"

definition is_kv_cache_spec_uniform :: "(string, kv_cache_spec) dict \<Rightarrow> bool result" where
  "is_kv_cache_spec_uniform specs =
     (if specs = [] then Inr True
      else case spec_merge (dvals specs) of
        Inl e \<Rightarrow> if e = AssertionError then Inr False else Inl e
      | Inr _ \<Rightarrow> Inr True)"

definition may_override_num_blocks :: "vllm_config \<Rightarrow> int \<Rightarrow> int" where
  "may_override_num_blocks vc n = (case vc_num_gpu_blocks_override vc of Some k \<Rightarrow> k | None \<Rightarrow> n)"

definition get_num_blocks :: "vllm_config \<Rightarrow> int \<Rightarrow> int \<Rightarrow> int \<Rightarrow> int result" where
  "get_num_blocks vc num_layers available_memory page_size =
     ebind (floordiv available_memory page_size) (\<lambda>k.
     ebind (floordiv k num_layers) (\<lambda>n. Inr (may_override_num_blocks vc (max n 0))))"

definition page_sizes :: "(string \<Rightarrow> int) \<Rightarrow> (string, kv_cache_spec) dict \<Rightarrow> int list result" where
  "page_sizes dts specs = ebind (emap (page_size_bytes dts) (dvals specs)) (\<lambda>ps. Inr (remdups ps))"

definition get_uniform_page_size :: "(string \<Rightarrow> int) \<Rightarrow> (string, kv_cache_spec) dict \<Rightarrow> int result" where
  "get_uniform_page_size dts specs =
     ebind (page_sizes dts specs) (\<lambda>ps. case ps of [page] \<Rightarrow> Inr page | _ \<Rightarrow> Inl AssertionError)"

definition is_kv_cache_page_size_uniform :: "(string \<Rightarrow> int) \<Rightarrow> (string, kv_cache_spec) dict \<Rightarrow> bool result" where
  "is_kv_cache_page_size_uniform dts specs = ebind (page_sizes dts specs) (\<lambda>ps. Inr (length ps = 1))"

definition get_kv_cache_groups_uniform_spec :: "(string, kv_cache_spec) dict \<Rightarrow> kv_cache_group_spec list result" where
  "get_kv_cache_groups_uniform_spec specs = create_kv_cache_group_specs specs [dkeys specs]"

definition get_kv_cache_groups_uniform_type :: "(string, kv_cache_spec) dict \<Rightarrow> group_spec \<Rightarrow> kv_cache_group_spec list" where
  "get_kv_cache_groups_uniform_type specs s = [\<lparr>gs_layer_names = dkeys specs, gs_kv_cache_spec = s\<rparr>]"

text \<open>The layers of each specification, in order of their first appearance.\<close>

fun same_type_layers :: "(string, kv_cache_spec) dict \<Rightarrow> (kv_cache_spec, string list) dict \<Rightarrow> (kv_cache_spec, string list) dict" where
  "same_type_layers [] d = d"
| "same_type_layers ((l, s) # rest) d = same_type_layers rest (AList.update s (dget_or d s [] @ [l]) d)"

text \<open>The slice \<open>layers[i::n]\<close>.\<close>

definition stride :: "nat \<Rightarrow> nat \<Rightarrow> 'a list \<Rightarrow> 'a list" where
  "stride i n xs = map (\<lambda>k. xs ! k) (filter (\<lambda>k. (k - i) mod n = 0) [i..<length xs])"

definition split_layers :: "nat \<Rightarrow> string list \<Rightarrow> string list list" where
  "split_layers group_size layers =
     (let num_groups = nat (cdiv (int (length layers)) (int group_size))
      in map (\<lambda>i. stride i num_groups layers) [0..<num_groups])"

definition get_kv_cache_groups_uniform_page_size :: "(string, kv_cache_spec) dict \<Rightarrow> kv_cache_group_spec list result" where
  "get_kv_cache_groups_uniform_page_size specs =
     (let layerss = dvals (same_type_layers specs [])
      in if layerss = [] then Inl ValueError
         else create_kv_cache_group_specs specs
                (concat (map (split_layers (Min (set (map length layerss)))) layerss)))"

fun to_full :: "kv_cache_spec \<Rightarrow> kv_cache_spec" where
  "to_full (SlidingWindowSpec a w) = FullAttentionSpec a (Some w) None"
| "to_full (ChunkedLocalAttentionSpec a c) = FullAttentionSpec a None (Some c)"
| "to_full s = s"

fun is_windowed :: "kv_cache_spec \<Rightarrow> bool" where
  "is_windowed (SlidingWindowSpec _ _) = True"
| "is_windowed (ChunkedLocalAttentionSpec _ _) = True"
| "is_windowed _ = False"

definition uniform_or_type :: "(string, kv_cache_spec) dict \<Rightarrow> bool result" where
  "uniform_or_type specs =
     ebind (is_kv_cache_spec_uniform specs) (\<lambda>u. if u then Inr True else is_uniform_type specs)"

definition unify_hybrid_kv_cache_specs :: "(string, kv_cache_spec) dict \<Rightarrow> (string, kv_cache_spec) dict result" where
  "unify_hybrid_kv_cache_specs specs =
     ebind (uniform_or_type specs) (\<lambda>u.
       if u then Inr specs
       else
       let specs' = (if list_ex is_full (dvals specs) \<and> list_ex is_windowed (dvals specs)
                     then map (\<lambda>(l, s). (l, to_full s)) specs else specs)
       in ebind (uniform_or_type specs') (\<lambda>u'. if u' then Inr specs' else Inl ValueError))"

definition get_kv_cache_groups :: "(string \<Rightarrow> int) \<Rightarrow> vllm_config \<Rightarrow> (string, kv_cache_spec) dict \<Rightarrow> kv_cache_group_spec list result" where
  "get_kv_cache_groups dts vc specs0 =
     ebind (if vc_disable_hybrid_kv_cache_manager vc then unify_hybrid_kv_cache_specs specs0 else Inr specs0) (\<lambda>specs.
     if specs = [] then Inr []
     else
     ebind (is_kv_cache_spec_uniform specs) (\<lambda>u.
     if u then get_kv_cache_groups_uniform_spec specs
     else
     ebind (from_specs specs) (\<lambda>us.
     case us of
       Some s \<Rightarrow> Inr (get_kv_cache_groups_uniform_type specs s)
     | None \<Rightarrow>
         ebind (is_kv_cache_page_size_uniform dts specs) (\<lambda>pu.
           if pu then get_kv_cache_groups_uniform_page_size specs else Inl NotImplementedError))))"

subsection \<open>The plan of a worker\<close>

record kv_cache_tensor =
  kt_size :: int
  kt_shared_by :: "string list"

record kv_cache_config =
  kf_num_blocks :: int
  kf_tensors :: "kv_cache_tensor list"
  kf_groups :: "kv_cache_group_spec list"

definition shared_tensors :: "int \<Rightarrow> kv_cache_group_spec list \<Rightarrow> nat \<Rightarrow> kv_cache_tensor list" where
  "shared_tensors sz groups group_size =
     map (\<lambda>i. \<lparr>kt_size = sz,
        kt_shared_by = map (\<lambda>g. gs_layer_names g ! i) (filter (\<lambda>g. i < length (gs_layer_names g)) groups)\<rparr>) [0..<group_size]"

definition uniform_type_config :: "(string \<Rightarrow> int) \<Rightarrow> vllm_config \<Rightarrow> kv_cache_group_spec list \<Rightarrow> kv_cache_group_spec \<Rightarrow>
    (string, kv_cache_spec) dict \<Rightarrow> int \<Rightarrow> kv_cache_config result" where
  "uniform_type_config dts vc groups g per_layer available_memory =
     ebind (group_page_size_bytes dts (gs_kv_cache_spec g)) (\<lambda>page.
     ebind (floordiv available_memory page) (\<lambda>k.
       let num_blocks = may_override_num_blocks vc k in
       ebind (emap (\<lambda>l. ebind (layer_lookup per_layer l) (\<lambda>s. ebind (page_size_bytes dts s) (\<lambda>p.
                Inr \<lparr>kt_size = p * num_blocks, kt_shared_by = [l]\<rparr>))) (gs_layer_names g)) (\<lambda>tensors.
         Inr \<lparr>kf_num_blocks = num_blocks, kf_tensors = tensors, kf_groups = groups\<rparr>)))"

definition shared_config :: "(string \<Rightarrow> int) \<Rightarrow> vllm_config \<Rightarrow> kv_cache_group_spec list \<Rightarrow> (string, kv_cache_spec) dict \<Rightarrow> int \<Rightarrow>
    kv_cache_config result" where
  "shared_config dts vc groups specs available_memory =
     (let group_size = Max (set (map (\<lambda>g. length (gs_layer_names g)) groups))
      in ebind (get_uniform_page_size dts specs) (\<lambda>page.
         ebind (assert_that (group_size > 0)) (\<lambda>_.
         ebind (get_num_blocks vc (int group_size) available_memory page) (\<lambda>num_blocks.
           Inr \<lparr>kf_num_blocks = num_blocks, kf_tensors = shared_tensors (page * num_blocks) groups group_size, kf_groups = groups\<rparr>))))"

definition get_kv_cache_config_from_groups :: "(string \<Rightarrow> int) \<Rightarrow> vllm_config \<Rightarrow> kv_cache_group_spec list \<Rightarrow>
    (string, kv_cache_spec) dict \<Rightarrow> int \<Rightarrow> kv_cache_config result" where
  "get_kv_cache_config_from_groups dts vc groups specs available_memory =
     (case groups of
        [] \<Rightarrow> Inr \<lparr>kf_num_blocks = 1, kf_tensors = [], kf_groups = []\<rparr>
      | [g] \<Rightarrow>
          (case gs_kv_cache_spec g of
             UniformTypeKVCacheSpecs _ per_layer \<Rightarrow> uniform_type_config dts vc groups g per_layer available_memory
           | LayerSpec _ \<Rightarrow> shared_config dts vc groups specs available_memory)
      | _ \<Rightarrow> shared_config dts vc groups specs available_memory)"

definition get_max_concurrency_for_kv_cache_config :: "(string \<Rightarrow> int) \<Rightarrow> vllm_config \<Rightarrow> kv_cache_config \<Rightarrow> rat result" where
  "get_max_concurrency_for_kv_cache_config dts vc c =
     ebind (emax (map (\<lambda>g. int (length (gs_layer_names g))) (kf_groups c))) (\<lambda>num_layer_per_group.
     ebind (emap (\<lambda>g. group_max_memory_usage_bytes dts vc (gs_kv_cache_spec g)) (kf_groups c)) (\<lambda>ms.
     ebind (group_page_size_bytes dts (gs_kv_cache_spec (hd (kf_groups c)))) (\<lambda>page.
     ebind (ceildiv (num_layer_per_group * sum_list ms) (page * num_layer_per_group)) (\<lambda>num_block_per_request.
       if num_block_per_request = 0 then Inl ZeroDivisionError
       else Inr (of_int (kf_num_blocks c) / of_int num_block_per_request)))))"

text \<open>Of the report only the computation is kept, which may raise.\<close>

definition report_kv_cache_config :: "(string \<Rightarrow> int) \<Rightarrow> vllm_config \<Rightarrow> kv_cache_config \<Rightarrow> unit result" where
  "report_kv_cache_config dts vc c =
     ebind (emin (map (\<lambda>g. group_block_size (gs_kv_cache_spec g)) (kf_groups c))) (\<lambda>_.
     ebind (get_max_concurrency_for_kv_cache_config dts vc c) (\<lambda>_. Inr ()))"

subsection \<open>The plan of all workers\<close>

fun merge_layers :: "(string, kv_cache_spec) dict \<Rightarrow> (string, kv_cache_spec) dict \<Rightarrow> (string, kv_cache_spec) dict result" where
  "merge_layers [] merged = Inr merged"
| "merge_layers ((l, s) # rest) merged =
     (case map_of merged l of
        None \<Rightarrow> merge_layers rest (AList.update l s merged)
      | Some s' \<Rightarrow> ebind (assert_that (s' = s)) (\<lambda>_. merge_layers rest merged))"

fun merge_workers :: "(string, kv_cache_spec) dict list \<Rightarrow> (string, kv_cache_spec) dict \<Rightarrow> (string, kv_cache_spec) dict result" where
  "merge_workers [] merged = Inr merged"
| "merge_workers (w # ws) merged = ebind (merge_layers w merged) (merge_workers ws)"

definition worker_groups :: "(string, kv_cache_spec) dict \<Rightarrow> kv_cache_group_spec list \<Rightarrow> kv_cache_group_spec list" where
  "worker_groups specs groups =
     map (\<lambda>g. g\<lparr>gs_layer_names := filter (\<lambda>l. map_of specs l \<noteq> None) (gs_layer_names g)\<rparr>) groups"

definition worker_config :: "(string \<Rightarrow> int) \<Rightarrow> vllm_config \<Rightarrow> kv_cache_group_spec list \<Rightarrow> (string, kv_cache_spec) dict \<times> int \<Rightarrow>
    kv_cache_config result" where
  "worker_config dts vc groups = (\<lambda>(specs, available_memory).
     let own = worker_groups specs groups in
     ebind (assert_that (sum_list (map (\<lambda>g. length (gs_layer_names g)) own) = length specs)) (\<lambda>_.
       get_kv_cache_config_from_groups dts vc own specs available_memory))"

definition shrink_tensor :: "int \<Rightarrow> int \<Rightarrow> kv_cache_tensor \<Rightarrow> kv_cache_tensor result" where
  "shrink_tensor old new t =
     (if old = 0 then Inl ZeroDivisionError
      else ebind (assert_that (kt_size t mod old = 0)) (\<lambda>_. Inr (t\<lparr>kt_size := kt_size t div old * new\<rparr>)))"

definition shrink_config :: "(string \<Rightarrow> int) \<Rightarrow> vllm_config \<Rightarrow> int \<Rightarrow> kv_cache_config \<Rightarrow> kv_cache_config result" where
  "shrink_config dts vc n c =
     ebind (emap (shrink_tensor (kf_num_blocks c) n) (kf_tensors c)) (\<lambda>ts.
       let c' = c\<lparr>kf_num_blocks := n, kf_tensors := ts\<rparr> in
       if kf_groups c \<noteq> [] then ebind (report_kv_cache_config dts vc c') (\<lambda>_. Inr c') else Inr c')"

definition get_kv_cache_configs :: "(string \<Rightarrow> int) \<Rightarrow> vllm_config \<Rightarrow> (string, kv_cache_spec) dict list \<Rightarrow> int list \<Rightarrow>
    kv_cache_config list result" where
  "get_kv_cache_configs dts vc specss memories =
     ebind (emap (\<lambda>(specs, m). check_enough_kv_cache_memory dts vc specs m) (zip specss memories)) (\<lambda>_.
     ebind (merge_workers specss []) (\<lambda>merged.
     ebind (get_kv_cache_groups dts vc merged) (\<lambda>groups.
     ebind (emap (worker_config dts vc groups) (zip specss memories)) (\<lambda>configs.
     ebind (emin (map kf_num_blocks configs)) (\<lambda>n.
       emap (shrink_config dts vc n) configs)))))"

definition scheduler_group :: "kv_cache_group_spec \<Rightarrow> kv_cache_group_spec result" where
  "scheduler_group g =
     (case gs_kv_cache_spec g of
        LayerSpec _ \<Rightarrow> Inr g
      | UniformTypeKVCacheSpecs _ [] \<Rightarrow> Inl StopIteration
      | UniformTypeKVCacheSpecs _ ((_, s) # _) \<Rightarrow> Inr (g\<lparr>gs_kv_cache_spec := LayerSpec s\<rparr>))"

definition generate_scheduler_kv_cache_config :: "kv_cache_config list \<Rightarrow> kv_cache_config result" where
  "generate_scheduler_kv_cache_config configs =
     (case configs of
        [] \<Rightarrow> Inl IndexError
      | c # _ \<Rightarrow> ebind (assert_that (list_all (\<lambda>c'. kf_num_blocks c' = kf_num_blocks c) configs)) (\<lambda>_.
          ebind (emap scheduler_group (kf_groups c)) (\<lambda>gs. Inr (c\<lparr>kf_groups := gs\<rparr>))))"

subsection \<open>The estimated model length\<close>

lemma emap_Inr: "emap f xs = Inr ys \<longleftrightarrow> list_all2 (\<lambda>x y. f x = Inr y) xs ys"
  by (induction xs arbitrary: ys) (auto simp: ebind_eq_Inr list_all2_Cons1)

lemma emap_elem: "emap f xs = Inr ys \<Longrightarrow> x \<in> set xs \<Longrightarrow> \<exists>y\<in>set ys. f x = Inr y"
  by (induction xs arbitrary: ys) (auto simp: ebind_eq_Inr)

lemma emap_total: "(\<And>x. x \<in> set xs \<Longrightarrow> f x = Inr (g x)) \<Longrightarrow> emap f xs = Inr (map g xs)"
  by (induction xs) auto

lemma cdiv_mono: "0 < b \<Longrightarrow> a \<le> a' \<Longrightarrow> cdiv a b \<le> cdiv a' b"
  by (simp add: cdiv_def div_minus_right zdiv_mono1)

lemma cdiv_nonneg: "0 < b \<Longrightarrow> 0 \<le> a \<Longrightarrow> 0 \<le> cdiv a b"
  using cdiv_mono [of b 0 a] by (simp add: cdiv_def)

text \<open>A specification whose memory can be computed: blocks and pages have a size, and no sliding window meets context parallelism.\<close>

definition spec_ok :: "(string \<Rightarrow> int) \<Rightarrow> vllm_config \<Rightarrow> kv_cache_spec \<Rightarrow> bool" where
  "spec_ok dts vc s \<longleftrightarrow> 0 < block_size s \<and> (case page_size_bytes dts s of Inr page \<Rightarrow> 0 < page | Inl _ \<Rightarrow> False) \<and>
     (case s of SlidingWindowSpec _ _ \<Rightarrow> vc_decode_context_parallel_size vc = 1 | _ \<Rightarrow> True)"

lemma pages_mono:
  assumes "spec_ok dts vc s" and "n \<le> n'"
  shows "\<exists>m m'. pages dts n s = Inr m \<and> pages dts n' s = Inr m' \<and> m \<le> m'"
proof -
  obtain page where "page_size_bytes dts s = Inr page" "0 < page" "0 < block_size s"
    using assms(1) by (auto simp: spec_ok_def split: sum.splits)
  with cdiv_mono [OF this(3) assms(2)] show ?thesis by (auto simp: pages_def ceildiv_def mult_right_mono)
qed

lemma spec_memory_mono:
  assumes ok: "spec_ok dts vc s" and le: "k \<le> k'"
  shows "\<exists>m m'. spec_max_memory_usage_bytes dts (vc\<lparr>vc_max_model_len := k\<rparr>) s = Inr m \<and>
    spec_max_memory_usage_bytes dts (vc\<lparr>vc_max_model_len := k'\<rparr>) s = Inr m' \<and> m \<le> m'"
proof -
  let ?d = "vc_decode_context_parallel_size vc"
  have "(if ?d > 1 then cdiv k ?d else k) \<le> (if ?d > 1 then cdiv k' ?d else k')" using le by (simp add: cdiv_mono)
  note local_len = pages_mono [OF ok this]
  show ?thesis
  proof (cases s)
    case (FullAttentionSpec a w c)
    with local_len show ?thesis by (simp split: if_splits)
  next
    case (MLAAttentionSpec a w c d)
    with local_len show ?thesis by (simp split: if_splits)
  next
    case (ChunkedLocalAttentionSpec a c)
    with pages_mono [OF ok min.mono [OF order_refl le]] show ?thesis by simp
  next
    case (SlidingWindowSpec a w)
    then have a: "0 < at_block_size a" "0 < attention_page dts a" "vc_decode_context_parallel_size vc = 1" using ok by (simp_all add: spec_ok_def)
    have "cdiv (min x k) (at_block_size a) \<le> cdiv (min x k') (at_block_size a)" for x
      using le by (intro cdiv_mono a(1)) simp
    with a SlidingWindowSpec show ?thesis by (simp add: ceildiv_def mult_right_mono)
  next
    case (MambaSpec m)
    with pages_mono [OF ok le] show ?thesis by simp
  next
    case (CrossAttentionSpec a)
    with pages_mono [OF ok order_refl] show ?thesis by simp
  qed simp
qed

lemma memory_mono:
  assumes "\<forall>s\<in>set specs. spec_ok dts vc s" and "k \<le> k'"
  shows "\<exists>m m'. max_memory_usage_bytes dts (vc\<lparr>vc_max_model_len := k\<rparr>) specs = Inr m \<and>
    max_memory_usage_bytes dts (vc\<lparr>vc_max_model_len := k'\<rparr>) specs = Inr m' \<and> m \<le> m'"
  using assms(1)
proof (induction specs)
  case (Cons s specs)
  then obtain m m' where "max_memory_usage_bytes dts (vc\<lparr>vc_max_model_len := k\<rparr>) specs = Inr m"
    "max_memory_usage_bytes dts (vc\<lparr>vc_max_model_len := k'\<rparr>) specs = Inr m'" "m \<le> m'" by auto
  moreover obtain n n' where "spec_max_memory_usage_bytes dts (vc\<lparr>vc_max_model_len := k\<rparr>) s = Inr n"
    "spec_max_memory_usage_bytes dts (vc\<lparr>vc_max_model_len := k'\<rparr>) s = Inr n'" "n \<le> n'"
    using spec_memory_mono [OF _ assms(2), of dts vc s] Cons.prems by auto
  ultimately show ?case by (auto simp: max_memory_usage_bytes_def ebind_eq_Inr)
qed (simp add: max_memory_usage_bytes_def)

declare search_len.simps [simp del]

text \<open>The binary search, for any downward closed test.\<close>

lemma search_len_spec:
  assumes fits: "\<And>k j. fits k (vc\<lparr>vc_max_model_len := j\<rparr>) = Inr (F k, vc\<lparr>vc_max_model_len := k\<rparr>)"
    and anti: "\<And>k k'. k \<le> k' \<Longrightarrow> F k' \<Longrightarrow> F k"
  shows "F res \<Longrightarrow> left \<le> res + 1 \<Longrightarrow> 1 \<le> left \<Longrightarrow> 1 \<le> res \<Longrightarrow> res \<le> M \<Longrightarrow> right \<le> M \<Longrightarrow> \<forall>k. right < k \<longrightarrow> k \<le> M \<longrightarrow> \<not> F k \<Longrightarrow>
    \<exists>m j. search_len fits left right res (vc\<lparr>vc_max_model_len := j0\<rparr>) = Inr (m, vc\<lparr>vc_max_model_len := j\<rparr>) \<and> 1 \<le> m \<and> m \<le> M \<and>
      F m \<and> (\<forall>k. m < k \<longrightarrow> k \<le> M \<longrightarrow> \<not> F k)"
proof (induction "nat (right + 1 - left)" arbitrary: left right res j0 rule: less_induct)
  case less
  show ?case
  proof (cases "left \<le> right")
    case True
    define mid where "mid = (left + right) div 2"
    have mid: "left \<le> mid" "mid \<le> right" using True by (auto simp: mid_def)
    show ?thesis
    proof (cases "F mid")
      case ok: True
      have "nat (right + 1 - (mid + 1)) < nat (right + 1 - left)" using mid by simp
      from less.hyps [OF this ok, of mid] mid less.prems show ?thesis
        by (subst search_len.simps) (use True ok in \<open>simp add: fits Let_def mid_def [symmetric]\<close>)
    next
      case no: False
      have "nat (mid - 1 + 1 - left) < nat (right + 1 - left)" using mid by simp
      moreover have "\<forall>k. mid - 1 < k \<longrightarrow> k \<le> M \<longrightarrow> \<not> F k" using no anti [of mid] by (meson zle_diff1_eq linorder_not_le)
      ultimately show ?thesis using less.hyps [of "mid - 1" left res mid] mid less.prems
        by (subst search_len.simps) (use True no in \<open>simp add: fits Let_def mid_def [symmetric]\<close>)
    qed
  next
    case False
    with less.prems show ?thesis by (subst search_len.simps) auto
  qed
qed

text \<open>C36: the estimate is exact. For specifications whose memory can be computed, the binary search for a model length returns, and a
  length up to the configured one fits in the available memory if and only if it is at most the result.\<close>

theorem estimated_length_is_maximal:
  assumes ok: "\<forall>s\<in>set specs. spec_ok dts vc s" and pos: "1 \<le> vc_max_model_len vc"
  shows "\<exists>m vc'. estimate_max_model_len dts vc specs mem = Inr (m, vc') \<and> 0 \<le> m \<and> m \<le> vc_max_model_len vc \<and>
    (\<forall>k. 1 \<le> k \<longrightarrow> k \<le> vc_max_model_len vc \<longrightarrow>
      (\<exists>need. max_memory_usage_bytes dts (vc\<lparr>vc_max_model_len := k\<rparr>) specs = Inr need \<and> (need \<le> mem \<longleftrightarrow> k \<le> m)))"
proof -
  let ?M = "vc_max_model_len vc"
  define need where "need = (\<lambda>k. projr (max_memory_usage_bytes dts (vc\<lparr>vc_max_model_len := k\<rparr>) specs))"
  have need: "max_memory_usage_bytes dts (vc\<lparr>vc_max_model_len := k\<rparr>) specs = Inr (need k)" for k
    using memory_mono [OF ok order_refl, of k] by (auto simp: need_def)
  have mono: "need k \<le> need k'" if "k \<le> k'" for k k' using memory_mono [OF ok that] by (auto simp: need)
  have fits: "fits_in_memory dts specs mem k (vc\<lparr>vc_max_model_len := j\<rparr>) = Inr (need k \<le> mem, vc\<lparr>vc_max_model_len := k\<rparr>)" for k j
    by (simp add: fits_in_memory_def need)
  have fits1: "fits_in_memory dts specs mem 1 vc = Inr (need 1 \<le> mem, vc\<lparr>vc_max_model_len := 1\<rparr>)"
    using fits [of 1 ?M] by simp
  show ?thesis
  proof (cases "need 1 \<le> mem")
    case True
    have anti: "need k \<le> mem" if "k \<le> k'" "need k' \<le> mem" for k k' using mono [OF that(1)] that(2) by linarith
    have "\<exists>m j. search_len (fits_in_memory dts specs mem) 1 ?M 1 (vc\<lparr>vc_max_model_len := 1\<rparr>) = Inr (m, vc\<lparr>vc_max_model_len := j\<rparr>) \<and> 1 \<le> m \<and>
        m \<le> ?M \<and> need m \<le> mem \<and> (\<forall>k. m < k \<longrightarrow> k \<le> ?M \<longrightarrow> \<not> need k \<le> mem)"
      by (rule search_len_spec [where F = "\<lambda>k. need k \<le> mem"]) (use fits anti True pos in auto)
    then
    obtain m j where m: "search_len (fits_in_memory dts specs mem) 1 ?M 1 (vc\<lparr>vc_max_model_len := 1\<rparr>) = Inr (m, vc\<lparr>vc_max_model_len := j\<rparr>)"
      "1 \<le> m" "m \<le> ?M" "need m \<le> mem" "\<forall>k. m < k \<longrightarrow> k \<le> ?M \<longrightarrow> \<not> need k \<le> mem" by blast
    have "need k \<le> mem \<longleftrightarrow> k \<le> m" if "k \<le> ?M" for k using m(4,5) that anti [of k m] by (meson linorder_not_le)
    with True m fits1 show ?thesis by (auto simp: estimate_max_model_len_def need)
  next
    case False
    have "\<not> need k \<le> mem" if "1 \<le> k" for k using mono [OF that] False by linarith
    with False fits1 pos show ?thesis by (auto simp: estimate_max_model_len_def need)
  qed
qed

subsection \<open>Every layer has one group\<close>

lemma mset_concat_upt: "mset (concat (map f [0..<n])) = (\<Sum>i<n. mset (f i))"
  by (induction n) (simp_all add: lessThan_Suc add.commute)

lemma sum_filter_classes:
  "\<forall>k\<in>set ks. g k < (n :: nat) \<Longrightarrow> (\<Sum>i<n. mset (map f (filter (\<lambda>k. g k = i) ks))) = mset (map f ks)"
proof (induction ks)
  case (Cons k ks)
  have "(\<Sum>i<n. mset (map f (filter (\<lambda>k. g k = i) (k # ks)))) =
      (\<Sum>i<n. (if i = g k then {#f k#} else {#}) + mset (map f (filter (\<lambda>k. g k = i) ks)))"
    by (rule sum.cong) auto
  with Cons show ?case by (simp add: sum.distrib sum.delta)
qed simp

lemma stride_residues: "i < n \<Longrightarrow> stride i n xs = map (\<lambda>k. xs ! k) (filter (\<lambda>k. k mod n = i) [0..<length xs])"
proof -
  assume i: "i < n"
  have drop: "filter (\<lambda>k. k mod n = i) [0..<length xs] = filter (\<lambda>k. k mod n = i) [i..<length xs]"
  proof (cases "i \<le> length xs")
    case True
    have "filter (\<lambda>k. k mod n = i) [0..<i] = []" using i by (auto simp: filter_empty_conv)
    with True show ?thesis using upt_add_eq_append [of 0 i "length xs - i"] by simp
  next
    case False
    with i show ?thesis by (auto simp: filter_empty_conv)
  qed
  have "(k - i) mod n = 0 \<longleftrightarrow> k mod n = i" if "i \<le> k" for k
    using i that by (metis le_add_diff_inverse mod_add_right_eq mod_eq_dvd_iff_nat mod_less mod_mod_trivial add.right_neutral dvd_eq_mod_eq_0)
  then have "filter (\<lambda>k. (k - i) mod n = 0) [i..<length xs] = filter (\<lambda>k. k mod n = i) [i..<length xs]"
    by (intro filter_cong) auto
  with drop show ?thesis by (simp add: stride_def)
qed

lemma mset_strides:
  assumes "0 < n"
  shows "mset (concat (map (\<lambda>i. stride i n xs) [0..<n])) = mset xs"
proof -
  have "mset (concat (map (\<lambda>i. stride i n xs) [0..<n])) =
      (\<Sum>i<n. mset (map (\<lambda>k. xs ! k) (filter (\<lambda>k. k mod n = i) [0..<length xs])))"
    unfolding mset_concat_upt by (rule sum.cong) (simp_all add: stride_residues)
  also have "\<dots> = mset (map (\<lambda>k. xs ! k) [0..<length xs])" by (rule sum_filter_classes) (use assms in simp)
  finally show ?thesis by (simp add: map_nth)
qed

lemma mset_split_layers:
  assumes "layers \<noteq> []" and "0 < gs"
  shows "mset (concat (split_layers gs layers)) = mset layers"
proof -
  have "0 < cdiv (int (length layers)) (int gs)"
    using cdiv_le [of "int gs" "int (length layers)" 0] assms by simp
  then show ?thesis by (simp add: split_layers_def Let_def mset_strides)
qed

lemma mset_concat_update:
  "wf_dict d \<Longrightarrow> mset (concat (dvals (AList.update k (dget_or d k [] @ [l]) d))) = add_mset l (mset (concat (dvals d)))"
  by (induction d) (auto simp: dget_or_def split: option.splits)

lemma same_type_layers_spec:
  assumes "wf_dict d" and "[] \<notin> set (dvals d)"
  shows "mset (concat (dvals (same_type_layers specs d))) = mset (concat (dvals d)) + mset (dkeys specs) \<and>
    [] \<notin> set (dvals (same_type_layers specs d))"
  using assms
proof (induction specs d rule: same_type_layers.induct)
  case (2 l s rest d)
  have "[] \<notin> set (dvals (AList.update s (dget_or d s [] @ [l]) d))"
    using 2(3) by (induction d) (auto simp: dget_or_def split: if_splits)
  with 2 show ?case by (simp add: mset_concat_update)
qed simp

lemma create_groups_names:
  "create_kv_cache_group_specs specs grouped = Inr gs \<Longrightarrow> map gs_layer_names gs = grouped \<and> (\<forall>g\<in>set gs. \<exists>s. gs_kv_cache_spec g = LayerSpec s)"
  unfolding create_kv_cache_group_specs_def
  by (induction grouped arbitrary: gs) (auto simp: ebind_eq_Inr)

lemma page_size_groups:
  assumes "get_kv_cache_groups_uniform_page_size specs = Inr gs"
  shows "mset (concat (map gs_layer_names gs)) = mset (dkeys specs) \<and> (\<forall>g\<in>set gs. \<exists>s. gs_kv_cache_spec g = LayerSpec s)"
proof -
  define layerss where "layerss = dvals (same_type_layers specs [])"
  define n where "n = Min (set (map length layerss))"
  have l: "mset (concat layerss) = mset (dkeys specs)" "[] \<notin> set layerss"
    using same_type_layers_spec [of "[]" specs] by (simp_all add: layerss_def)
  have ne: "layerss \<noteq> []" and gs: "create_kv_cache_group_specs specs (concat (map (split_layers n) layerss)) = Inr gs"
    using assms by (simp_all add: get_kv_cache_groups_uniform_page_size_def layerss_def n_def Let_def split: if_splits)
  have "n \<in> length ` set layerss" using ne by (auto simp: n_def intro!: Min_in)
  with l(2) have n: "0 < n" by auto
  have "mset (concat (concat (map (split_layers n) xss))) = mset (concat xss)" if "[] \<notin> set xss" for xss
    using that n by (induction xss) (auto simp: mset_split_layers)
  with l create_groups_names [OF gs] show ?thesis by simp
qed

lemma to_full_page [simp]: "page_size_bytes dts (to_full s) = page_size_bytes dts s"
  by (cases s) simp_all

text \<open>The groups hold every layer once; a specification for a whole group has the layers' page sizes.\<close>

definition same_pages :: "(string \<Rightarrow> int) \<Rightarrow> (string, kv_cache_spec) dict \<Rightarrow> (string, kv_cache_spec) dict \<Rightarrow> bool" where
  "same_pages dts specs specs' \<longleftrightarrow> dkeys specs' = dkeys specs \<and>
     (\<forall>l. map_option (page_size_bytes dts) (map_of specs' l) = map_option (page_size_bytes dts) (map_of specs l))"

lemma unify_same_pages:
  assumes "unify_hybrid_kv_cache_specs specs = Inr specs'"
  shows "same_pages dts specs specs'"
proof -
  have "map_of (map (\<lambda>(l, s). (l, to_full s)) specs) l = map_option to_full (map_of specs l)" for l by (induction specs) auto
  moreover have "dkeys (map (\<lambda>(l, s). (l, to_full s)) specs) = dkeys specs" by (induction specs) auto
  ultimately show ?thesis using assms
    by (auto simp: unify_hybrid_kv_cache_specs_def same_pages_def ebind_eq_Inr Let_def option.map_comp comp_def split: if_splits)
qed

definition groups_ok :: "(string \<Rightarrow> int) \<Rightarrow> (string, kv_cache_spec) dict \<Rightarrow> kv_cache_group_spec list \<Rightarrow> bool" where
  "groups_ok dts specs groups \<longleftrightarrow> mset (concat (map gs_layer_names groups)) = mset (dkeys specs) \<and>
     (\<forall>g\<in>set groups. case gs_kv_cache_spec g of LayerSpec _ \<Rightarrow> True
        | UniformTypeKVCacheSpecs _ per_layer \<Rightarrow> groups = [g] \<and> gs_layer_names g = dkeys per_layer \<and> same_pages dts specs per_layer)"

lemma groups_spec:
  assumes "get_kv_cache_groups dts vc specs0 = Inr groups"
  shows "groups_ok dts specs0 groups"
proof -
  obtain specs where src: "(if vc_disable_hybrid_kv_cache_manager vc then unify_hybrid_kv_cache_specs specs0 else Inr specs0) = Inr specs"
    and run: "(if specs = [] then Inr []
      else ebind (is_kv_cache_spec_uniform specs) (\<lambda>u. if u then get_kv_cache_groups_uniform_spec specs
      else ebind (from_specs specs) (\<lambda>us. case us of Some s \<Rightarrow> Inr (get_kv_cache_groups_uniform_type specs s)
        | None \<Rightarrow> ebind (is_kv_cache_page_size_uniform dts specs) (\<lambda>pu.
            if pu then get_kv_cache_groups_uniform_page_size specs else Inl NotImplementedError)))) = Inr groups"
    using assms unfolding get_kv_cache_groups_def by (rule ebind_Inr_E)
  have specs: "same_pages dts specs0 specs"
    using src unify_same_pages [of specs0 specs] by (auto simp: same_pages_def split: if_splits)
  have keys: "dkeys specs = dkeys specs0" using specs by (simp add: same_pages_def)
  have "groups_ok dts specs groups"
  proof (cases "specs = []")
    case True
    with run show ?thesis by (simp add: groups_ok_def)
  next
    case False
    with run consider (spec) "get_kv_cache_groups_uniform_spec specs = Inr groups"
      | (type) s where "from_specs specs = Inr (Some s)" "groups = get_kv_cache_groups_uniform_type specs s"
      | (page) "get_kv_cache_groups_uniform_page_size specs = Inr groups"
      by (auto simp: ebind_eq_Inr split: if_splits option.splits)
    then show ?thesis
    proof cases
      case spec
      then show ?thesis using create_groups_names [of specs "[dkeys specs]" groups]
        by (auto simp: groups_ok_def get_kv_cache_groups_uniform_spec_def)
    next
      case type
      then show ?thesis by (auto simp: groups_ok_def get_kv_cache_groups_uniform_type_def from_specs_def ebind_eq_Inr same_pages_def split: if_splits)
    next
      case page
      from page_size_groups [OF this] show ?thesis by (auto simp: groups_ok_def)
    qed
  qed
  with specs keys show ?thesis by (fastforce simp: groups_ok_def same_pages_def split: group_spec.splits)
qed

subsection \<open>The plan fits into the memory\<close>

lemma merge_layers_spec:
  "merge_layers w m = Inr m' \<Longrightarrow> wf_dict m \<Longrightarrow>
    wf_dict m' \<and> (\<forall>l s. map_of m l = Some s \<longrightarrow> map_of m' l = Some s) \<and> (\<forall>(l, s) \<in> set w. map_of m' l = Some s)"
proof (induction w m rule: merge_layers.induct)
  case (2 l s rest m)
  show ?case
  proof (cases "map_of m l")
    case None
    with 2(1) [OF None] 2(3,4) have ih: "wf_dict m'" "\<forall>x t. map_of (AList.update l s m) x = Some t \<longrightarrow> map_of m' x = Some t"
      "\<forall>(l, s) \<in> set rest. map_of m' l = Some s" by auto
    have "map_of m' x = Some t" if "map_of m x = Some t" for x t
      using ih(2) that None by (cases "x = l") (auto simp: dict_simps)
    moreover have "map_of m' l = Some s" using ih(2) by (simp add: dict_simps)
    ultimately show ?thesis using ih(1,3) by auto
  next
    case (Some s')
    with 2(2) [OF Some] 2(3,4) show ?thesis by (auto simp: ebind_eq_Inr)
  qed
qed simp

lemma merge_workers_spec:
  "merge_workers ws m = Inr m' \<Longrightarrow> wf_dict m \<Longrightarrow>
    wf_dict m' \<and> (\<forall>l s. map_of m l = Some s \<longrightarrow> map_of m' l = Some s) \<and> (\<forall>w\<in>set ws. \<forall>(l, s) \<in> set w. map_of m' l = Some s)"
proof (induction ws m rule: merge_workers.induct)
  case (2 w ws m)
  from 2(2) obtain m1 where m1: "merge_layers w m = Inr m1" "merge_workers ws m1 = Inr m'" by (auto simp: ebind_eq_Inr)
  from merge_layers_spec [OF m1(1) 2(3)] 2(1) [OF m1] show ?case by auto
qed simp

lemma merged_specs:
  assumes "merge_workers ws [] = Inr m" and "\<forall>w\<in>set ws. \<forall>s\<in>set (dvals w). P s"
  shows "\<forall>s\<in>set (dvals m). P s"
proof -
  have layers: "\<forall>s\<in>set (dvals m'). P s" if "merge_layers w m = Inr m'" "\<forall>s\<in>set (dvals w). P s" "\<forall>s\<in>set (dvals m). P s" for w m m'
    using that
  proof (induction w m rule: merge_layers.induct)
    case (2 l s rest m)
    have upd: "\<forall>s\<in>set (dvals (AList.update l s m)). P s" using 2(4,5) by (induction m) auto
    have rest: "\<forall>s\<in>set (dvals rest). P s" using 2(4) by simp
    show ?case
    proof (cases "map_of m l")
      case None
      with 2(1) [OF None _ rest upd] 2(3) show ?thesis by simp
    next
      case (Some s')
      with 2(2) [OF Some _ _ rest 2(5)] 2(3) show ?thesis by (simp add: ebind_eq_Inr)
    qed
  qed simp
  have "merge_workers ws m0 = Inr m \<Longrightarrow> \<forall>s\<in>set (dvals m0). P s \<Longrightarrow> ?thesis" for m0
    using assms(2)
  proof (induction ws m0 rule: merge_workers.induct)
    case (2 w ws m0)
    from 2(2) obtain m1 where m1: "merge_layers w m0 = Inr m1" "merge_workers ws m1 = Inr m" by (auto simp: ebind_eq_Inr)
    have "\<forall>s\<in>set (dvals m1). P s" using 2(3,4) by (intro layers [OF m1(1)]) simp_all
    moreover have "\<forall>w\<in>set ws. \<forall>s\<in>set (dvals w). P s" using 2(4) by simp
    ultimately show ?case by (rule 2(1) [OF m1])
  qed simp
  from this [OF assms(1)] show ?thesis by simp
qed

text \<open>A tensor that holds a page of each of its layers for \<open>n\<close> blocks.\<close>

definition tensor_ok :: "(string \<Rightarrow> int) \<Rightarrow> (string, kv_cache_spec) dict \<Rightarrow> int \<Rightarrow> kv_cache_tensor \<Rightarrow> bool" where
  "tensor_ok dts specs n t \<longleftrightarrow> (\<exists>page. 0 < page \<and> kt_size t = page * n \<and>
     (\<forall>l\<in>set (kt_shared_by t). map_option (page_size_bytes dts) (map_of specs l) = Some (Inr page)))"

definition plan_ok :: "(string \<Rightarrow> int) \<Rightarrow> (string, kv_cache_spec) dict \<Rightarrow> int \<Rightarrow> kv_cache_config \<Rightarrow> bool" where
  "plan_ok dts specs mem c \<longleftrightarrow> (\<forall>t\<in>set (kf_tensors c). tensor_ok dts specs (kf_num_blocks c) t) \<and>
     mset (concat (map kt_shared_by (kf_tensors c))) = mset (dkeys specs) \<and> sum_list (map kt_size (kf_tensors c)) \<le> max 0 mem"

lemma mset_transposed:
  "\<forall>xs\<in>set xss. length xs \<le> n \<Longrightarrow>
    mset (concat (map (\<lambda>i. map (\<lambda>xs. xs ! i) (filter (\<lambda>xs. i < length xs) xss)) [0..<n])) = mset (concat xss)"
proof (induction xss)
  case (Cons xs xss)
  let ?row = "\<lambda>i. mset (map (\<lambda>xs. xs ! i) (filter (\<lambda>xs. i < length xs) xss))"
  have "(\<Sum>i<n. if i < length xs then {#xs ! i#} else {#}) = (\<Sum>i<length xs. {#xs ! i#})"
    using Cons.prems by (intro sum.mono_neutral_cong_right) auto
  also have "\<dots> = mset xs" by (induction xs rule: rev_induct) (simp_all add: lessThan_Suc nth_append)
  finally have xs: "(\<Sum>i<n. if i < length xs then {#xs ! i#} else {#}) = mset xs" .
  have "(\<Sum>i<n. mset (map (\<lambda>xs. xs ! i) (filter (\<lambda>xs. i < length xs) (xs # xss)))) =
      (\<Sum>i<n. (if i < length xs then {#xs ! i#} else {#}) + ?row i)" by (rule sum.cong) auto
  also have "\<dots> = mset xs + (\<Sum>i<n. ?row i)" by (simp only: sum.distrib xs)
  finally show ?case using Cons by (simp only: mset_concat_upt) simp
qed (simp add: mset_concat_upt)

lemma shared_by_keys:
  "mset (concat (map kt_shared_by ts)) = mset (dkeys specs) \<Longrightarrow> t \<in> set ts \<Longrightarrow> l \<in> set (kt_shared_by t) \<Longrightarrow> l \<in> keyset specs"
  by (drule mset_eq_setD) auto

lemma shared_config_plan:
  assumes run: "shared_config dts vc groups specs mem = Inr c" and over: "vc_num_gpu_blocks_override vc = None"
    and names: "mset (concat (map gs_layer_names groups)) = mset (dkeys specs)" and wf: "wf_dict specs"
    and pos: "\<forall>s\<in>set (dvals specs). spec_ok dts vc s" and ne: "groups \<noteq> []"
  shows "plan_ok dts specs mem c \<and> 0 \<le> kf_num_blocks c"
proof -
  define gs where "gs = Max (set (map (\<lambda>g. length (gs_layer_names g)) groups))"
  obtain page nb where page: "get_uniform_page_size dts specs = Inr page" and gs: "0 < gs"
    and nb: "get_num_blocks vc (int gs) mem page = Inr nb"
    and c: "c = \<lparr>kf_num_blocks = nb, kf_tensors = shared_tensors (page * nb) groups gs, kf_groups = groups\<rparr>"
    using run by (auto simp: shared_config_def Let_def gs_def ebind_eq_Inr)
  obtain ps where ps: "emap (page_size_bytes dts) (dvals specs) = Inr ps" "(case remdups ps of [p] \<Rightarrow> Inr p | _ \<Rightarrow> Inl AssertionError) = Inr page"
    using page unfolding get_uniform_page_size_def page_sizes_def by (elim ebind_Inr_E) (rule that, assumption, simp)
  have single: "remdups ps = [page]" using ps(2) by (cases "remdups ps" rule: remdups_adj.cases) simp_all
  have all: "page_size_bytes dts s = Inr page" if s: "s \<in> set (dvals specs)" for s
  proof -
    obtain y where "page_size_bytes dts s = Inr y" "y \<in> set ps" using emap_elem [OF ps(1) s] by blast
    moreover have "set ps = {page}" by (metis single set_remdups list.simps(15) empty_set)
    ultimately show ?thesis by simp
  qed
  have "dvals specs \<noteq> []" using ps(1) single by auto
  then obtain s where "s \<in> set (dvals specs)" by (cases "dvals specs") auto
  with all pos have pp: "0 < page" by (fastforce simp: spec_ok_def)
  have nb': "nb = max (mem div page div int gs) 0"
    using nb pp gs over by (simp add: get_num_blocks_def floordiv_def may_override_num_blocks_def)
  have len: "\<forall>xs\<in>set (map gs_layer_names groups). length xs \<le> gs" by (auto simp: gs_def intro!: Max_ge)
  have tn: "mset (concat (map kt_shared_by (kf_tensors c))) = mset (dkeys specs)"
    using mset_transposed [OF len] names by (simp add: c shared_tensors_def comp_def filter_map)
  have pg: "map_option (page_size_bytes dts) (map_of specs l) = Some (Inr page)" if "l \<in> keyset specs" for l
    using in_keys_map_of [OF that] all by (force dest: map_of_SomeD)
  have "tensor_ok dts specs nb t" if t: "t \<in> set (kf_tensors c)" for t
  proof -
    have "kt_size t = page * nb" using t by (auto simp: c shared_tensors_def)
    moreover have "\<forall>l\<in>set (kt_shared_by t). map_option (page_size_bytes dts) (map_of specs l) = Some (Inr page)"
      by (intro ballI pg shared_by_keys [OF tn t])
    ultimately show ?thesis using pp unfolding tensor_ok_def by (intro exI [of _ page] conjI)
  qed
  then have "\<forall>t\<in>set (kf_tensors c). tensor_ok dts specs nb t" by blast
  moreover have "sum_list (map kt_size (kf_tensors c)) = int gs * (page * nb)"
    by (simp add: c shared_tensors_def comp_def sum_list_triv)
  moreover have "int gs * (page * nb) \<le> max 0 mem"
  proof (cases "0 \<le> mem")
    case True
    then have n: "nb = mem div page div int gs" using nb' pp gs by (simp add: pos_imp_zdiv_nonneg_iff)
    have "int gs * nb \<le> mem div page" using gs by (simp add: n minus_mod_eq_mult_div [symmetric])
    then have "page * (int gs * nb) \<le> page * (mem div page)" using pp by (simp add: mult_left_mono)
    also have "\<dots> \<le> mem" using pp by (simp add: minus_mod_eq_mult_div [symmetric])
    finally show ?thesis by (simp add: ac_simps)
  next
    case False
    then have "mem div page \<le> 0" using pp by (simp add: div_nonpos_pos_le0)
    then have "nb = 0" using nb' gs by (simp add: div_nonpos_pos_le0)
    then show ?thesis by simp
  qed
  ultimately show ?thesis using tn nb' by (simp add: plan_ok_def c)
qed

lemma sum_list_filter_le:
  fixes g :: "'a \<Rightarrow> int"
  shows "\<forall>x\<in>set xs. 0 \<le> g x \<Longrightarrow> sum_list (map g (filter P xs)) \<le> sum_list (map g xs)"
  by (induction xs) auto

lemma uniform_type_plan:
  assumes run: "uniform_type_config dts vc groups g per_layer mem = Inr c" and over: "vc_num_gpu_blocks_override vc = None"
    and g: "gs_kv_cache_spec g = UniformTypeKVCacheSpecs b per_layer" "gs_layer_names g = filter (\<lambda>l. map_of specs l \<noteq> None) (dkeys per_layer)"
    and names: "mset (gs_layer_names g) = mset (dkeys specs)" and wf: "wf_dict specs" "wf_dict per_layer"
    and sub: "\<And>l s. map_of specs l = Some s \<Longrightarrow> map_option (page_size_bytes dts) (map_of per_layer l) = Some (page_size_bytes dts s)"
    and pos: "\<forall>s\<in>set (dvals specs). spec_ok dts vc s" and pos': "\<forall>s\<in>set (dvals per_layer). \<exists>page>0. page_size_bytes dts s = Inr page"
    and chk: "specs \<noteq> [] \<Longrightarrow> 0 < mem"
  shows "plan_ok dts specs mem c \<and> (specs \<noteq> [] \<longrightarrow> 0 \<le> kf_num_blocks c)"
proof -
  define page where "page = (\<lambda>l. projr (page_size_bytes dts (the (map_of per_layer l))))"
  have page: "\<exists>s. map_of per_layer l = Some s \<and> page_size_bytes dts s = Inr (page l) \<and> 0 < page l" if l: "l \<in> keyset per_layer" for l
    using in_keys_map_of [OF l] pos' by (force simp: page_def dest: map_of_SomeD)
  have "page_size_bytes dts s = Inr (page l)" if ls: "(l, s) \<in> set per_layer" for l s
  proof -
    have "map_of per_layer l = Some s" using ls wf(2) by (simp add: in_set_wf_dict)
    moreover have "l \<in> keyset per_layer" using ls by force
    ultimately show ?thesis using page by fastforce
  qed
  then have pages: "emap (page_size_bytes dts) (dvals per_layer) = Inr (map page (dkeys per_layer))"
    using emap_total [of per_layer "\<lambda>(l, s). page_size_bytes dts s" "\<lambda>(l, s). page l"]
    by (simp add: emap_Inr list_all2_conv_all_nth)
  define total where "total = sum_list (map page (dkeys per_layer))"
  have pg: "group_page_size_bytes dts (gs_kv_cache_spec g) = Inr total" by (simp add: g(1) pages total_def)
  obtain nb ts where tot: "total \<noteq> 0" and nb: "nb = mem div total"
    and ts: "emap (\<lambda>l. ebind (layer_lookup per_layer l) (\<lambda>s. ebind (page_size_bytes dts s) (\<lambda>p.
      Inr \<lparr>kt_size = p * nb, kt_shared_by = [l]\<rparr>))) (gs_layer_names g) = Inr ts"
    and c: "c = \<lparr>kf_num_blocks = nb, kf_tensors = ts, kf_groups = groups\<rparr>"
    using run over by (auto simp: uniform_type_config_def pg floordiv_def may_override_num_blocks_def Let_def ebind_eq_Inr split: if_splits)
  have sub_names: "l \<in> keyset per_layer" if "l \<in> set (gs_layer_names g)" for l using that by (simp add: g(2))
  have "emap (\<lambda>l. ebind (layer_lookup per_layer l) (\<lambda>s. ebind (page_size_bytes dts s) (\<lambda>p. Inr \<lparr>kt_size = p * nb, kt_shared_by = [l]\<rparr>)))
      (gs_layer_names g) = Inr (map (\<lambda>l. \<lparr>kt_size = page l * nb, kt_shared_by = [l]\<rparr>) (gs_layer_names g))"
  proof (rule emap_total)
    fix l assume "l \<in> set (gs_layer_names g)"
    from page [OF sub_names [OF this]] show "ebind (layer_lookup per_layer l) (\<lambda>s. ebind (page_size_bytes dts s) (\<lambda>p.
        Inr \<lparr>kt_size = p * nb, kt_shared_by = [l]\<rparr>)) = Inr \<lparr>kt_size = page l * nb, kt_shared_by = [l]\<rparr>"
      by (auto simp: layer_lookup_def)
  qed
  with ts have ts: "ts = map (\<lambda>l. \<lparr>kt_size = page l * nb, kt_shared_by = [l]\<rparr>) (gs_layer_names g)" by simp
  have keys: "l \<in> keyset specs" if "l \<in> set (gs_layer_names g)" for l
    using that mset_eq_setD [OF names] by simp
  have ok: "tensor_ok dts specs nb \<lparr>kt_size = page l * nb, kt_shared_by = [l]\<rparr>" if l: "l \<in> set (gs_layer_names g)" for l
  proof -
    obtain s where "map_of specs l = Some s" using in_keys_map_of [OF keys [OF l]] by blast
    moreover from page [OF sub_names [OF l]] obtain s' where "map_of per_layer l = Some s'" "page_size_bytes dts s' = Inr (page l)" "0 < page l" by blast
    ultimately show ?thesis using sub [of l s] by (auto simp: tensor_ok_def)
  qed
  have "\<forall>t\<in>set ts. tensor_ok dts specs nb t" unfolding ts by (auto intro: ok)
  moreover have "mset (concat (map kt_shared_by ts)) = mset (dkeys specs)" using names by (simp add: ts comp_def)
  moreover have "sum_list (map kt_size ts) \<le> max 0 mem \<and> (specs \<noteq> [] \<longrightarrow> 0 \<le> nb)"
  proof (cases "specs = []")
    case True
    with names show ?thesis by (simp add: ts)
  next
    case False
    from page have nn: "\<forall>l\<in>set (dkeys per_layer). 0 \<le> page l" by fastforce
    have le: "sum_list (map page (gs_layer_names g)) \<le> total" unfolding g(2) total_def by (rule sum_list_filter_le [OF nn])
    have "0 \<le> total" unfolding total_def by (rule sum_list_nonneg) (use nn in auto)
    with tot chk [OF False] have n: "0 < total" "0 \<le> nb" by (simp_all add: nb pos_imp_zdiv_nonneg_iff)
    have "sum_list (map kt_size ts) = sum_list (map page (gs_layer_names g)) * nb"
      by (simp add: ts comp_def sum_list_mult_const)
    also have "\<dots> \<le> total * nb" using le n(2) by (rule mult_right_mono)
    also have "\<dots> \<le> mem" using n(1) by (simp add: nb minus_mod_eq_mult_div [symmetric])
    finally show ?thesis using n(2) by simp
  qed
  ultimately show ?thesis by (simp add: plan_ok_def c)
qed

lemma worker_names:
  assumes "mset (concat (map gs_layer_names groups)) = mset (dkeys merged)" and "wf_dict merged" and "wf_dict specs"
    and "sum_list (map (\<lambda>g. length (gs_layer_names g)) (worker_groups specs groups)) = length specs"
  shows "mset (concat (map gs_layer_names (worker_groups specs groups))) = mset (dkeys specs)"
proof -
  let ?xs = "concat (map gs_layer_names (worker_groups specs groups))"
  have xs: "?xs = filter (\<lambda>l. map_of specs l \<noteq> None) (concat (map gs_layer_names groups))"
    by (simp add: worker_groups_def filter_concat comp_def)
  have "distinct (concat (map gs_layer_names groups))"
    using assms(1,2) by (metis wf_dict_def distinct_count_atmost_1 set_mset_mset)
  then have d: "distinct ?xs" by (simp add: xs)
  have sub: "set ?xs \<subseteq> set (dkeys specs)" unfolding xs by (auto dest: map_of_in_keys)
  have "length ?xs = length (dkeys specs)" using assms(4) by (simp add: length_concat comp_def)
  then have "card (set ?xs) = card (set (dkeys specs))" using distinct_card [OF d] distinct_card [of "dkeys specs"] assms(3) by (simp only: wf_dict_def)
  with sub have eq: "set ?xs = set (dkeys specs)" by (intro card_subset_eq) auto
  have "distinct (dkeys specs)" using assms(3) by (simp only: wf_dict_def)
  from eq set_eq_iff_mset_eq_distinct [OF d this] show ?thesis by blast
qed

lemma worker_plan:
  assumes run: "worker_config dts vc groups (specs, mem) = Inr c" and over: "vc_num_gpu_blocks_override vc = None"
    and groups: "groups_ok dts merged groups" and merged: "wf_dict merged" "\<forall>(l, s) \<in> set specs. map_of merged l = Some s"
      "\<forall>s\<in>set (dvals merged). spec_ok dts vc s"
    and wf: "wf_dict specs" and chk: "specs \<noteq> [] \<Longrightarrow> 0 < mem"
  shows "plan_ok dts specs mem c \<and> (specs \<noteq> [] \<longrightarrow> 0 \<le> kf_num_blocks c)"
proof -
  let ?own = "worker_groups specs groups"
  have len: "sum_list (map (\<lambda>g. length (gs_layer_names g)) ?own) = length specs"
    and c: "get_kv_cache_config_from_groups dts vc ?own specs mem = Inr c"
    using run by (auto simp: worker_config_def Let_def ebind_eq_Inr)
  have names: "mset (concat (map gs_layer_names ?own)) = mset (dkeys specs)"
    using groups by (intro worker_names [OF _ merged(1) wf len]) (simp add: groups_ok_def)
  have pos: "\<forall>s\<in>set (dvals specs). spec_ok dts vc s" using merged(2,3) by (fastforce dest: map_of_SomeD)
  have shared: "plan_ok dts specs mem c \<and> 0 \<le> kf_num_blocks c" if "shared_config dts vc ?own specs mem = Inr c" "?own \<noteq> []"
    using that shared_config_plan [OF _ over names wf pos] by blast
  show ?thesis
  proof (cases "groups" rule: remdups_adj.cases)
    case 1
    with c names show ?thesis by (auto simp: get_kv_cache_config_from_groups_def worker_groups_def plan_ok_def)
  next
    case (2 g)
    let ?g = "g\<lparr>gs_layer_names := filter (\<lambda>l. map_of specs l \<noteq> None) (gs_layer_names g)\<rparr>"
    have own: "?own = [?g]" by (simp add: 2 worker_groups_def)
    show ?thesis
    proof (cases "gs_kv_cache_spec g")
      case (LayerSpec s)
      with c own shared show ?thesis by (simp add: get_kv_cache_config_from_groups_def)
    next
      case (UniformTypeKVCacheSpecs b per)
      have per: "gs_layer_names g = dkeys per" "same_pages dts merged per" using groups 2 UniformTypeKVCacheSpecs by (auto simp: groups_ok_def)
      have wf': "wf_dict per" using per(2) merged(1) by (simp add: same_pages_def wf_dict_def)
      have page: "map_option (page_size_bytes dts) (map_of per l) = map_option (page_size_bytes dts) (map_of merged l)" for l
        using per(2) by (simp add: same_pages_def)
      have "\<exists>page>0. page_size_bytes dts s = Inr page" if "(l, s) \<in> set per" for l s
      proof -
        from that wf' have "map_of per l = Some s" by (simp add: in_set_wf_dict)
        with page [of l] obtain s' where "map_of merged l = Some s'" "page_size_bytes dts s = page_size_bytes dts s'"
          by (cases "map_of merged l") auto
        moreover from this(1) have "s' \<in> set (dvals merged)" by (force dest: map_of_SomeD)
        with merged(3) have "spec_ok dts vc s'" by blast
        ultimately show ?thesis by (cases "page_size_bytes dts s'") (simp_all add: spec_ok_def)
      qed
      then have pos': "\<forall>s\<in>set (dvals per). \<exists>page>0. page_size_bytes dts s = Inr page" by auto
      have run': "uniform_type_config dts vc ?own ?g per mem = Inr c"
        using c own UniformTypeKVCacheSpecs by (simp add: get_kv_cache_config_from_groups_def)
      show ?thesis
      proof (rule uniform_type_plan [OF run' over _ _ _ wf wf' _ pos pos' chk])
        fix l s assume "map_of specs l = Some s"
        with merged(2) have "map_of merged l = Some s" by (auto dest: map_of_SomeD)
        with page [of l] show "map_option (page_size_bytes dts) (map_of per l) = Some (page_size_bytes dts s)" by simp
      qed (use UniformTypeKVCacheSpecs per(1) names own in simp_all)
    qed
  next
    case (3 g g' gs)
    with c shared show ?thesis by (simp add: get_kv_cache_config_from_groups_def worker_groups_def)
  qed
qed

lemma shrink_plan:
  assumes run: "shrink_config dts vc n c = Inr c'" and plan: "plan_ok dts specs mem c" and le: "n \<le> kf_num_blocks c"
  shows "plan_ok dts specs mem c' \<and> kf_num_blocks c' = n"
proof -
  let ?old = "kf_num_blocks c"
  obtain ts where ts: "emap (shrink_tensor ?old n) (kf_tensors c) = Inr ts" and c': "kf_num_blocks c' = n" "kf_tensors c' = ts"
    using run by (auto simp: shrink_config_def Let_def ebind_eq_Inr split: if_splits)
  have one: "tensor_ok dts specs n t' \<and> kt_shared_by t' = kt_shared_by t \<and> kt_size t' \<le> kt_size t"
    if "shrink_tensor ?old n t = Inr t'" "tensor_ok dts specs ?old t" for t t'
  proof -
    from that(2) obtain page where page: "0 < page" "kt_size t = page * ?old"
      "\<forall>l\<in>set (kt_shared_by t). map_option (page_size_bytes dts) (map_of specs l) = Some (Inr page)" by (auto simp: tensor_ok_def)
    with that(1) have "t' = t\<lparr>kt_size := page * n\<rparr>" by (auto simp: shrink_tensor_def split: if_splits)
    with page le show ?thesis by (auto simp: tensor_ok_def)
  qed
  have "list_all2 (\<lambda>t t'. shrink_tensor ?old n t = Inr t') (kf_tensors c) ts" using ts by (simp add: emap_Inr)
  moreover have "\<forall>t\<in>set (kf_tensors c). tensor_ok dts specs ?old t" using plan by (simp add: plan_ok_def)
  ultimately have "(\<forall>t\<in>set ts. tensor_ok dts specs n t) \<and> map kt_shared_by ts = map kt_shared_by (kf_tensors c) \<and>
      sum_list (map kt_size ts) \<le> sum_list (map kt_size (kf_tensors c))"
  proof (induction rule: list_all2_induct)
    case (Cons t tl t' tl')
    then show ?case using one [of t t'] by auto
  qed simp
  with plan c' show ?thesis by (simp add: plan_ok_def)
qed

lemma check_positive: "check_enough_kv_cache_memory dts vc specs mem = Inr () \<Longrightarrow> specs \<noteq> [] \<Longrightarrow> 0 < mem"
  by (simp add: check_enough_kv_cache_memory_def split: if_splits)


subsection \<open>Models with one kind of layer\<close>

definition uniform_specs :: "kv_cache_spec \<Rightarrow> string list \<Rightarrow> (string, kv_cache_spec) dict" where
  "uniform_specs s ls = map (\<lambda>l. (l, s)) ls"

lemma uniform_specs_simps [simp]:
  "dkeys (uniform_specs s ls) = ls" "dvals (uniform_specs s ls) = map (\<lambda>_. s) ls" "uniform_specs s ls = [] \<longleftrightarrow> ls = []"
  "length (uniform_specs s ls) = length ls" "map_of (uniform_specs s ls) l = (if l \<in> set ls then Some s else None)"
  by (induction ls) (auto simp: uniform_specs_def)

lemma merge_layers_fresh: "distinct (dkeys (m @ w)) \<Longrightarrow> merge_layers w m = Inr (m @ w)"
proof (induction w m rule: merge_layers.induct)
  case (2 l s rest m)
  have "map_of m l = None" "l \<notin> keyset m" using 2(3) by (auto simp: map_of_None_iff)
  with 2(1) 2(3) show ?case by (simp add: update_absent)
qed simp

lemma emap_const: "f s = Inr y \<Longrightarrow> emap f (map (\<lambda>_. s) ls) = Inr (map (\<lambda>_. y) ls)"
  by (induction ls) simp_all

lemma remdups_const: "ls \<noteq> [] \<Longrightarrow> remdups (map (\<lambda>_. x) ls) = [x]"
proof (induction ls)
  case (Cons l ls)
  then show ?case by (cases ls) simp_all
qed simp

lemma map_filter_None: "\<forall>x\<in>set xs. f x = None \<Longrightarrow> List.map_filter f xs = []"
  by (induction xs) (simp_all add: map_filter_simps)

lemma full_attention_config:
  fixes a :: attention_spec and dts :: "string \<Rightarrow> int"
  defines "s \<equiv> FullAttentionSpec a None None" and "page \<equiv> attention_page dts a"
  assumes ls: "ls \<noteq> []" "distinct ls" and a: "0 < at_block_size a" "0 < page" and L: "0 < vc_max_model_len vc"
    and vc: "vc_decode_context_parallel_size vc = 1" "vc_num_gpu_blocks_override vc = None"
    and enough: "int (length ls) * (cdiv (vc_max_model_len vc) (at_block_size a) * page) \<le> mem"
  shows "\<exists>c. get_kv_cache_configs dts vc [uniform_specs s ls] [mem] = Inr [c] \<and> kf_num_blocks c = mem div page div int (length ls)"
proof -
  let ?n = "int (length ls)" and ?k = "cdiv (vc_max_model_len vc) (at_block_size a)" and ?specs = "uniform_specs s ls"
  define nb where "nb = mem div page div ?n"
  define g where "g = \<lparr>gs_layer_names = ls, gs_kv_cache_spec = LayerSpec s\<rparr>"
  define c where "c = \<lparr>kf_num_blocks = nb, kf_tensors = shared_tensors (page * nb) [g] (length ls), kf_groups = [g]\<rparr>"
  have n: "0 < ?n" using ls(1) by simp
  have k: "0 < ?k" using cdiv_le [OF a(1), of "vc_max_model_len vc" 0] L by simp
  have "0 < ?n * (?k * page)" using n k a(2) by simp
  with enough have mem: "0 < mem" by simp
  have "?n * ?k \<le> mem div page" using enough a(2) by (simp add: le_int_div_iff ac_simps)
  then have nb: "?k \<le> nb" using n by (simp add: nb_def le_int_div_iff ac_simps)
  have use: "spec_max_memory_usage_bytes dts vc s = Inr (?k * page)" "page_size_bytes dts s = Inr page"
    using a(1) vc(1) by (simp_all add: s_def page_def pages_def ceildiv_def)
  have "max_memory_usage_bytes dts vc (map (\<lambda>_. s) ls) = Inr (?n * (?k * page))"
    by (simp add: max_memory_usage_bytes_def emap_const [of "spec_max_memory_usage_bytes dts vc", OF use(1)] sum_list_triv)
  then have chk: "check_enough_kv_cache_memory dts vc ?specs mem = Inr ()"
    using ls(1) mem enough by (simp add: check_enough_kv_cache_memory_def)
  have merged: "merge_workers [?specs] [] = Inr ?specs" using ls(2) merge_layers_fresh [of "[]" ?specs] by simp
  have ne: "map (\<lambda>_. s) ls = s # map (\<lambda>_. s) (tl ls)" using ls(1) by (cases ls) simp_all
  have "spec_merge (s # map (\<lambda>_. s) (tl ls)) = Inr s"
    by (simp add: spec_merge_def s_def full_merge_def window_sizes_def map_filter_None list_all_iff list_ex_iff)
  then have merge: "spec_merge (map (\<lambda>_. s) ls) = Inr s" using ne by simp
  then have uni: "is_kv_cache_spec_uniform ?specs = Inr True" by (simp add: is_kv_cache_spec_uniform_def)
  have "emap (layer_lookup ?specs) ls = Inr (map (\<lambda>_. s) ls)" by (rule emap_total) (simp add: layer_lookup_def)
  then have groups: "get_kv_cache_groups dts vc ?specs = Inr [g]"
    using ls(1) uni merge by (simp add: get_kv_cache_groups_def unify_hybrid_kv_cache_specs_def uniform_or_type_def
      get_kv_cache_groups_uniform_spec_def create_kv_cache_group_specs_def g_def)
  have pg: "get_uniform_page_size dts ?specs = Inr page"
    using ls(1) by (simp add: get_uniform_page_size_def page_sizes_def emap_const [of "page_size_bytes dts", OF use(2)] remdups_const)
  have own: "worker_groups ?specs [g] = [g]" by (simp add: worker_groups_def g_def)
  have g: "gs_layer_names g = ls" "gs_kv_cache_spec g = LayerSpec s" by (simp_all add: g_def)
  have "shared_config dts vc [g] ?specs mem = Inr c"
    using pg a(2) ls(1) vc(2) nb k by (simp add: g shared_config_def get_num_blocks_def floordiv_def may_override_num_blocks_def c_def nb_def [symmetric])
  then have "worker_config dts vc [g] (?specs, mem) = Inr c"
    by (simp add: worker_config_def own Let_def g get_kv_cache_config_from_groups_def)
  moreover have "shrink_config dts vc nb c = Inr c"
  proof -
    have "emap (shrink_tensor nb nb) (kf_tensors c) = Inr (map (\<lambda>t. t) (kf_tensors c))"
      by (rule emap_total) (use nb k in \<open>auto simp: c_def shared_tensors_def shrink_tensor_def\<close>)
    moreover have "cdiv (?n * (?k * page)) (page * ?n) = ?k" using n a(2) by (simp add: cdiv_def div_minus_right mult.assoc [symmetric] mult.commute)
    then have "get_max_concurrency_for_kv_cache_config dts vc c = Inr (of_int nb / of_int ?k)"
      using n k a(2) use by (simp add: get_max_concurrency_for_kv_cache_config_def c_def g_def emax_def ceildiv_def)
    ultimately show ?thesis by (simp add: c_def shrink_config_def report_kv_cache_config_def emin_def Let_def)
  qed
  ultimately have "get_kv_cache_configs dts vc [?specs] [mem] = Inr [c]"
    using chk merged groups by (simp add: get_kv_cache_configs_def emin_def c_def)
  then show ?thesis by (simp add: c_def nb_def)
qed

lemma fresh_allocation_fails:
  assumes nb: "0 < nb" "0 < bs" and new: "new \<noteq> 0" and need: "(int nb - 1) * int bs < min (rq_num_computed_tokens r + new) mml"
  shows "\<exists>km km'. init_kv_manager mml caching eagle events nb bs 1 = Inr km \<and> km_allocate_slots u r new 0 (Some [[]]) 0 delay km = Inr (None, km')"
proof -
  obtain km where km: "init_kv_manager mml caching eagle events nb bs 1 = Inr km" and free: "get_num_free_blocks (km_pool km) = int nb - 1"
    using init_kv_inv [OF nb, of mml caching eagle events 1] by blast
  obtain p where kc: "km_coordinator km = \<lparr>kc_enable_caching = caching, kc_use_eagle = eagle, kc_block_pool = p, kc_managers = [new_st_manager bs 0 1]\<rparr>"
    and len: "km_max_model_len km = mml" using km by (auto simp: init_kv_manager_def ebind_eq_Inr)
  have p: "get_num_free_blocks p = int nb - 1" using free kc by simp
  have "int nb - 1 < cdiv (min (rq_num_computed_tokens r + new) mml) (int bs)"
    using need cdiv_le [of "int bs" "min (rq_num_computed_tokens r + new) mml" "int nb - 1"] nb(2) by linarith
  with km new p show ?thesis
    by (auto simp: km_allocate_slots_def kc len kc_remove_skipped_blocks_def on_managers_def sm_remove_skipped_blocks_def get_num_skipped_tokens_def
      kc_get_num_blocks_to_allocate_def sm_get_num_blocks_to_allocate_def new_st_manager_def req_blocks_def dget_or_def Let_def)
qed

text \<open>C37: the check of the memory forgets the null block. It accepts memory that is exactly enough for one request of the maximal length, and the plan
  then has as many blocks as such a request needs. The pool keeps one of them as its null block: even on an empty cache, a request
  that needs its last block is refused slots, so it can never be scheduled.\<close>

theorem memory_check_forgets_null_block:
  fixes a :: attention_spec
  assumes ls: "ls \<noteq> []" "distinct ls" and a: "at_block_size a = int bs" "0 < bs" "0 < attention_page dts a"
    and vc: "vc_decode_context_parallel_size vc = 1" "vc_num_gpu_blocks_override vc = None" "0 < vc_max_model_len vc"
    and mem: "mem = int (length ls) * (cdiv (vc_max_model_len vc) (int bs) * attention_page dts a)"
    and new: "(cdiv (vc_max_model_len vc) (int bs) - 1) * int bs < rq_num_computed_tokens r + new" "new \<noteq> 0"
      "rq_num_computed_tokens r + new \<le> vc_max_model_len vc"
  shows "\<exists>c km km'. get_kv_cache_configs dts vc [uniform_specs (FullAttentionSpec a None None) ls] [mem] = Inr [c] \<and>
    kf_num_blocks c = cdiv (vc_max_model_len vc) (int bs) \<and>
    init_kv_manager (vc_max_model_len vc) caching eagle events (nat (kf_num_blocks c)) bs 1 = Inr km \<and>
    km_allocate_slots u r new 0 (Some [[]]) 0 delay km = Inr (None, km')"
proof -
  let ?k = "cdiv (vc_max_model_len vc) (int bs)"
  have "0 < ?k" using cdiv_le [of "int bs" "vc_max_model_len vc" 0] a(2) vc(3) by simp
  obtain c where c: "get_kv_cache_configs dts vc [uniform_specs (FullAttentionSpec a None None) ls] [mem] = Inr [c]"
    "kf_num_blocks c = mem div attention_page dts a div int (length ls)"
    using full_attention_config [OF ls, of a dts vc mem] a vc mem by auto
  have "kf_num_blocks c = ?k" using a(3) ls(1) by (simp add: c(2) mem mult.left_commute mult.commute)
  with c(1) \<open>0 < ?k\<close> fresh_allocation_fails [of "nat ?k" bs new r "vc_max_model_len vc" caching eagle events u delay] a(2) new show ?thesis by auto
qed

subsection \<open>An instance\<close>

definition sample_attention :: attention_spec where
  "sample_attention = \<lparr>at_block_size = 4, at_num_kv_heads = 2, at_head_size = 8, at_dtype = ''bfloat16''\<rparr>"

abbreviation sample_spec :: kv_cache_spec where
  "sample_spec \<equiv> FullAttentionSpec sample_attention None None"

definition sample_vllm_config :: vllm_config where
  "sample_vllm_config = \<lparr>vc_max_model_len = 8, vc_decode_context_parallel_size = 1, vc_max_num_batched_tokens = 16,
     vc_max_num_encoder_input_tokens = 0, vc_num_gpu_blocks_override = None, vc_disable_hybrid_kv_cache_manager = False\<rparr>"

lemma sample_attention [simp]: "at_block_size sample_attention = 4" "attention_page (\<lambda>_. 2) sample_attention = 256"
  by (simp_all add: sample_attention_def attention_page_def)

lemma sample_vllm_config [simp]: "vc_max_model_len sample_vllm_config = 8" "vc_decode_context_parallel_size sample_vllm_config = 1"
  "vc_num_gpu_blocks_override sample_vllm_config = None" "cdiv 8 4 = 2"
  by (simp_all add: sample_vllm_config_def cdiv_def)

lemma sample_spec_ok: "spec_ok (\<lambda>_. 2) sample_vllm_config sample_spec"
  by (simp add: spec_ok_def)

theorem estimated_length_is_maximal_witness:
  "\<exists>m vc'. estimate_max_model_len (\<lambda>_. 2) sample_vllm_config [sample_spec] 300 = Inr (m, vc') \<and> 0 \<le> m \<and> m \<le> 8"
  using estimated_length_is_maximal [of "[sample_spec]" "\<lambda>_. 2" sample_vllm_config 300] sample_spec_ok
  by auto

lemma sample_plan: "\<exists>c. get_kv_cache_configs (\<lambda>_. 2) sample_vllm_config [uniform_specs sample_spec [''l.0'', ''l.1'']] [1100] = Inr [c]"
  using full_attention_config [of "[''l.0'', ''l.1'']" sample_attention "\<lambda>_. 2" sample_vllm_config 1100] by auto


theorem memory_check_forgets_null_block_witness:
  "\<exists>c km km'. get_kv_cache_configs (\<lambda>_. 2) sample_vllm_config [uniform_specs sample_spec [''l.0'']] [512] = Inr [c] \<and>
     init_kv_manager 8 True False False (nat (kf_num_blocks c)) 4 1 = Inr km \<and>
     km_allocate_slots False (sample_request ''a'' [1, 2, 3, 4, 5, 6, 7]) 7 0 (Some [[]]) 0 False km = Inr (None, km')"
  using memory_check_forgets_null_block [of "[''l.0'']" sample_attention 4 "\<lambda>_. 2" sample_vllm_config 512
      "sample_request ''a'' [1, 2, 3, 4, 5, 6, 7]" 7 True False False False False]
  by (auto simp: sample_request_def)

end
