(* ===== verification/Hybrid_Cache.thy ===== *)
theory Hybrid_Cache
  imports KV_Config
begin

text \<open>
  Models with several kinds of attention: the managers for sliding windows, chunked local attention, Mamba and cross attention in
  \<open>vllm/v1/core/single_type_kv_cache_manager.py\<close>, and the coordinator over several groups in \<open>vllm/v1/core/kv_cache_coordinator.py\<close>. A manager is its
  specification and the state all managers share; \<open>spec_manager_map\<close> is the case distinction on the specification. The theory shows that the
  right-to-left search of a sliding window finds the longest prefix that can be continued, that the coordinator of a hybrid model finds the longest one for both
  kinds of layers, and that blocks are given back only when no later token can attend to them.
\<close>

subsection \<open>Searching the prefix cache\<close>

text \<open>\<open>cached\<close> is used as a condition in the code: an empty list counts as a miss.\<close>

fun window_loop :: "block_pool \<Rightarrow> int list \<Rightarrow> bytes list \<Rightarrow> int \<Rightarrow> nat \<Rightarrow> blkref list list \<Rightarrow> nat \<Rightarrow> (blkref list list \<times> nat \<times> bool) result" where
  "window_loop p gids hashes need 0 computed num_contiguous = Inr (computed, num_contiguous, False)"
| "window_loop p gids hashes need (Suc i) computed num_contiguous =
     (if i \<ge> length hashes then Inl IndexError
      else ebind (get_cached_block p (hashes ! i) gids) (\<lambda>cached.
        case cached of
          None \<Rightarrow> window_loop p gids hashes need i computed 0
        | Some bs \<Rightarrow>
            if bs = [] then window_loop p gids hashes need i computed 0
            else
            let computed' = map2 (\<lambda>c b. c[i := b]) computed bs; num = num_contiguous + 1
            in if int num \<ge> need then Inr (map (take (i + num)) computed', num, True)
               else window_loop p gids hashes need i computed' num))"

text \<open>With a draft model the last matched block is dropped.\<close>

definition pop_last :: "bool \<Rightarrow> blkref list list \<Rightarrow> blkref list list result" where
  "pop_last use_eagle computed =
     (if \<not> use_eagle then Inr computed
      else case computed of
        [] \<Rightarrow> Inl IndexError
      | c # _ \<Rightarrow> if c = [] then Inr computed else if [] \<in> set computed then Inl IndexError else Inr (map butlast computed))"

definition sliding_find_longest_cache_hit ::
  "bytes list \<Rightarrow> int \<Rightarrow> int list \<Rightarrow> block_pool \<Rightarrow> attention_spec \<Rightarrow> int \<Rightarrow> bool \<Rightarrow> int \<Rightarrow> blkref list list result" where
  "sliding_find_longest_cache_hit hashes max_length gids p a window use_eagle dcp_world_size =
     ebind (assert_that (dcp_world_size = 1)) (\<lambda>_.
     ebind (ceildiv (window - 1) (at_block_size a)) (\<lambda>k.
     ebind (floordiv max_length (at_block_size a)) (\<lambda>max_num_blocks.
     ebind (window_loop p gids hashes (if use_eagle then k + 1 else k) (nat max_num_blocks)
              (map (\<lambda>_. replicate (nat max_num_blocks) (bp_null_block p)) gids) 0) (\<lambda>(computed, num, match_found).
       pop_last use_eagle (if match_found then computed else map (take num) computed)))))"

fun chunk_loop :: "block_pool \<Rightarrow> int list \<Rightarrow> bytes list \<Rightarrow> nat list \<Rightarrow> blkref list list \<Rightarrow> blkref list list result" where
  "chunk_loop p gids hashes [] computed = Inr computed"
| "chunk_loop p gids hashes (i # is) computed =
     (if i \<ge> length hashes then Inl IndexError
      else ebind (get_cached_block p (hashes ! i) gids) (\<lambda>cached.
        case cached of
          None \<Rightarrow> Inr computed
        | Some bs \<Rightarrow> if bs = [] then Inr computed else chunk_loop p gids hashes is (map2 (\<lambda>c b. c @ [b]) computed bs)))"

definition chunked_find_longest_cache_hit ::
  "bytes list \<Rightarrow> int \<Rightarrow> int list \<Rightarrow> block_pool \<Rightarrow> attention_spec \<Rightarrow> int \<Rightarrow> bool \<Rightarrow> int \<Rightarrow> blkref list list result" where
  "chunked_find_longest_cache_hit hashes max_length gids p a chunk use_eagle dcp_world_size =
     ebind (assert_that (\<not> use_eagle)) (\<lambda>_.
     ebind (assert_that (dcp_world_size = 1)) (\<lambda>_.
     ebind (floordiv max_length (at_block_size a)) (\<lambda>max_num_blocks.
     ebind (if max_length > 0 then ebind (floordiv max_length chunk) (\<lambda>q. Inr (q * chunk)) else Inr 0) (\<lambda>start_idx.
     ebind (floordiv start_idx (at_block_size a)) (\<lambda>start_block.
       chunk_loop p gids hashes [nat start_block..<nat max_num_blocks] (map (\<lambda>_. replicate (nat start_block) (bp_null_block p)) gids))))))"

fun mamba_loop :: "block_pool \<Rightarrow> int list \<Rightarrow> bytes list \<Rightarrow> nat \<Rightarrow> blkref list list \<Rightarrow> blkref list list result" where
  "mamba_loop p gids hashes 0 computed = Inr computed"
| "mamba_loop p gids hashes (Suc i) computed =
     (if i \<ge> length hashes then Inl IndexError
      else ebind (get_cached_block p (hashes ! i) gids) (\<lambda>cached.
        case cached of
          None \<Rightarrow> mamba_loop p gids hashes i computed
        | Some bs \<Rightarrow> if bs = [] then mamba_loop p gids hashes i computed
            else Inr (map2 (\<lambda>c b. c @ replicate i (bp_null_block p) @ [b]) computed bs)))"

definition mamba_find_longest_cache_hit ::
  "bytes list \<Rightarrow> int \<Rightarrow> int list \<Rightarrow> block_pool \<Rightarrow> mamba_spec \<Rightarrow> int \<Rightarrow> blkref list list result" where
  "mamba_find_longest_cache_hit hashes max_length gids p m dcp_world_size =
     ebind (assert_that (dcp_world_size = 1)) (\<lambda>_.
     ebind (floordiv max_length (mb_block_size m)) (\<lambda>max_num_blocks.
       mamba_loop p gids hashes (nat max_num_blocks) (map (\<lambda>_. []) gids)))"

fun find_longest_cache_hit ::
  "bytes list \<Rightarrow> int \<Rightarrow> int list \<Rightarrow> block_pool \<Rightarrow> kv_cache_spec \<Rightarrow> bool \<Rightarrow> int \<Rightarrow> blkref list list result" where
  "find_longest_cache_hit hashes max_length gids p (SlidingWindowSpec a w) eagle dcp = sliding_find_longest_cache_hit hashes max_length gids p a w eagle dcp"
| "find_longest_cache_hit hashes max_length gids p (ChunkedLocalAttentionSpec a c) eagle dcp = chunked_find_longest_cache_hit hashes max_length gids p a c eagle dcp"
| "find_longest_cache_hit hashes max_length gids p (MambaSpec m) eagle dcp = mamba_find_longest_cache_hit hashes max_length gids p m dcp"
| "find_longest_cache_hit hashes max_length gids p (CrossAttentionSpec _) eagle dcp = Inl NotImplementedError"
| "find_longest_cache_hit hashes max_length gids p (EncoderOnlyAttentionSpec _) eagle dcp = Inl KeyError"
| "find_longest_cache_hit hashes max_length gids p s eagle dcp =
     (if block_size s = 0 then Inl ZeroDivisionError
      else sm_find_longest_cache_hit hashes max_length gids p (nat (if dcp > 1 then block_size s * dcp else block_size s)) eagle)"

subsection \<open>The managers\<close>

fun num_skipped_tokens :: "kv_cache_spec \<Rightarrow> int \<Rightarrow> int" where
  "num_skipped_tokens (SlidingWindowSpec _ w) n = n - w + 1"
| "num_skipped_tokens (ChunkedLocalAttentionSpec _ c) n = n div c * c"
| "num_skipped_tokens _ n = get_num_skipped_tokens n"

type_synonym typed_manager = "kv_cache_spec \<times> st_manager"

fun is_cross :: "kv_cache_spec \<Rightarrow> bool" where
  "is_cross (CrossAttentionSpec _) = True"
| "is_cross _ = False"

text \<open>Mamba allocates extra blocks for speculative decoding.\<close>

fun tokens_with_speculation :: "kv_cache_spec \<Rightarrow> int \<Rightarrow> int" where
  "tokens_with_speculation (MambaSpec m) n =
     (if mb_num_speculative_blocks m > 0 then n + mb_block_size m * mb_num_speculative_blocks m else n)"
| "tokens_with_speculation _ n = n"

definition tm_get_num_blocks_to_allocate :: "reqid \<Rightarrow> int \<Rightarrow> blkref list \<Rightarrow> block_pool \<Rightarrow> typed_manager \<Rightarrow> int \<times> typed_manager" where
  "tm_get_num_blocks_to_allocate rid n new_computed p = (\<lambda>(s, m).
     case sm_get_num_blocks_to_allocate rid (tokens_with_speculation s n) new_computed p m of (k, m') \<Rightarrow> (k, s, m'))"

definition tm_save_new_computed_blocks :: "reqid \<Rightarrow> blkref list \<Rightarrow> typed_manager \<Rightarrow> typed_manager result" where
  "tm_save_new_computed_blocks rid new_computed = (\<lambda>(s, m).
     if is_cross s then ebind (assert_that (length new_computed = 0)) (\<lambda>_. Inr (s, m))
     else ebind (sm_save_new_computed_blocks rid new_computed m) (\<lambda>m'. Inr (s, m')))"

definition tm_allocate_new_blocks :: "bool \<Rightarrow> reqid \<Rightarrow> int \<Rightarrow> block_pool \<Rightarrow> typed_manager \<Rightarrow> (blkref list \<times> block_pool \<times> typed_manager) result" where
  "tm_allocate_new_blocks u rid n p = (\<lambda>(s, m).
     ebind (sm_allocate_new_blocks u rid (tokens_with_speculation s n) p m) (\<lambda>(bs, p', m'). Inr (bs, p', s, m')))"

definition tm_cache_blocks :: "bool \<Rightarrow> request \<Rightarrow> int \<Rightarrow> block_pool \<Rightarrow> typed_manager \<Rightarrow> (block_pool \<times> typed_manager) result" where
  "tm_cache_blocks u r n p = (\<lambda>(s, m).
     if is_cross s then Inl ValueError else ebind (sm_cache_blocks u r n p m) (\<lambda>(p', m'). Inr (p', s, m')))"

definition tm_free :: "reqid \<Rightarrow> block_pool \<Rightarrow> typed_manager \<Rightarrow> (block_pool \<times> typed_manager) result" where
  "tm_free rid p = (\<lambda>(s, m). ebind (sm_free rid p m) (\<lambda>(p', m'). Inr (p', s, m')))"

definition tm_remove_skipped_blocks :: "reqid \<Rightarrow> int \<Rightarrow> block_pool \<Rightarrow> typed_manager \<Rightarrow> (block_pool \<times> typed_manager) result" where
  "tm_remove_skipped_blocks rid n p = (\<lambda>(s, m). ebind (sm_remove_skipped_blocks (num_skipped_tokens s) rid n p m) (\<lambda>(p', m'). Inr (p', s, m')))"

definition tm_get_num_common_prefix_blocks :: "reqid \<Rightarrow> block_pool \<Rightarrow> typed_manager \<Rightarrow> nat \<times> typed_manager" where
  "tm_get_num_common_prefix_blocks rid p = (\<lambda>(s, m).
     if is_full s then (case sm_get_num_common_prefix_blocks rid p m of (n, m') \<Rightarrow> (n, s, m')) else (0, s, m))"

subsection \<open>The coordinator of a hybrid model\<close>

record hybrid_coordinator =
  hc_enable_caching :: bool
  hc_use_eagle :: bool
  hc_block_pool :: block_pool
  hc_managers :: "typed_manager list"
  hc_full_ids :: "int list"
  hc_other_ids :: "int list"
  hc_full_spec :: kv_cache_spec
  hc_other_spec :: kv_cache_spec
  hc_full_attn_first :: bool

fun split_groups :: "int \<Rightarrow> kv_cache_spec list \<Rightarrow> kv_cache_spec option \<times> kv_cache_spec option \<times> int list \<times> int list \<Rightarrow>
    (kv_cache_spec option \<times> kv_cache_spec option \<times> int list \<times> int list) result" where
  "split_groups i [] acc = Inr acc"
| "split_groups i (s # ss) (full, other, fids, oids) =
     (if is_full s then
        ebind (assert_that (full = None \<or> full = Some s)) (\<lambda>_. split_groups (i + 1) ss (Some s, other, fids @ [i], oids))
      else
        ebind (assert_that (other = None \<or> other = Some s)) (\<lambda>_. split_groups (i + 1) ss (full, Some s, fids, oids @ [i])))"

definition verify_and_split_kv_cache_groups :: "bool \<Rightarrow> kv_cache_spec list \<Rightarrow>
    (kv_cache_spec \<times> kv_cache_spec \<times> int list \<times> int list \<times> bool) result" where
  "verify_and_split_kv_cache_groups enable_caching specs =
     ebind (split_groups 0 specs (None, None, [], [])) (\<lambda>(full, other, fids, oids).
     case (full, other) of
       (Some f, Some oth) \<Rightarrow>
         ebind (if enable_caching
                then (if block_size f = 0 then Inl ZeroDivisionError else assert_that (block_size oth mod block_size f = 0))
                else Inr ()) (\<lambda>_.
         if Max (set fids) < Min (set oids) then Inr (f, oth, fids, oids, True)
         else if Max (set oids) < Min (set fids) then Inr (f, oth, fids, oids, False)
         else Inl ValueError)
     | _ \<Rightarrow> Inl AssertionError)"

definition init_hybrid_coordinator :: "kv_cache_spec list \<Rightarrow> nat \<Rightarrow> bool \<Rightarrow> bool \<Rightarrow> bool \<Rightarrow> int \<Rightarrow> hybrid_coordinator result" where
  "init_hybrid_coordinator specs num_blocks enable_caching use_eagle enable_events dcp =
     ebind (init_block_pool num_blocks enable_caching enable_events) (\<lambda>p.
     ebind (emap (\<lambda>(i, s). case s of EncoderOnlyAttentionSpec _ \<Rightarrow> Inl KeyError
                   | _ \<Rightarrow> Inr (s, new_st_manager (nat (block_size s)) (int i) (nat dcp))) (enumerate 0 specs)) (\<lambda>ms.
     ebind (assert_that (dcp = 1)) (\<lambda>_.
     ebind (verify_and_split_kv_cache_groups enable_caching specs) (\<lambda>(f, oth, fids, oids, first).
       Inr \<lparr>hc_enable_caching = enable_caching, hc_use_eagle = use_eagle, hc_block_pool = p, hc_managers = ms, hc_full_ids = fids,
            hc_other_ids = oids, hc_full_spec = f, hc_other_spec = oth, hc_full_attn_first = first\<rparr>))))"

definition hc_find_longest_cache_hit :: "bytes list \<Rightarrow> int \<Rightarrow> hybrid_coordinator \<Rightarrow> (blkref list list \<times> int) result" where
  "hc_find_longest_cache_hit hashes max_len hc =
     ebind (find_longest_cache_hit hashes max_len (hc_full_ids hc) (hc_block_pool hc) (hc_full_spec hc) (hc_use_eagle hc) 1) (\<lambda>full_hit.
     ebind (find_longest_cache_hit hashes (int (length (hd full_hit)) * block_size (hc_full_spec hc)) (hc_other_ids hc) (hc_block_pool hc)
              (hc_other_spec hc) (hc_use_eagle hc) 1) (\<lambda>other_hit.
       let hit_length = int (length (hd other_hit)) * block_size (hc_other_spec hc) in
       ebind (assert_that (hit_length mod block_size (hc_full_spec hc) = 0)) (\<lambda>_.
         let full_hit' = map (take (nat (hit_length div block_size (hc_full_spec hc)))) full_hit
         in Inr (if hc_full_attn_first hc then full_hit' @ other_hit else other_hit @ full_hit', hit_length))))"

fun each_typed :: "(block_pool \<Rightarrow> typed_manager \<Rightarrow> (block_pool \<times> typed_manager) result) \<Rightarrow> block_pool \<Rightarrow> typed_manager list \<Rightarrow>
    (block_pool \<times> typed_manager list) result" where
  "each_typed f p [] = Inr (p, [])"
| "each_typed f p (m # ms) = ebind (f p m) (\<lambda>(p', m'). ebind (each_typed f p' ms) (\<lambda>(p'', ms'). Inr (p'', m' # ms')))"

definition on_typed :: "(block_pool \<Rightarrow> typed_manager \<Rightarrow> (block_pool \<times> typed_manager) result) \<Rightarrow> hybrid_coordinator \<Rightarrow> hybrid_coordinator result" where
  "on_typed f hc = ebind (each_typed f (hc_block_pool hc) (hc_managers hc)) (\<lambda>(p, ms). Inr (hc\<lparr>hc_block_pool := p, hc_managers := ms\<rparr>))"

text \<open>Cross attention has one allocation for the encoder's tokens.\<close>

fun count_typed :: "reqid \<Rightarrow> int \<Rightarrow> int \<Rightarrow> blkref list list \<Rightarrow> block_pool \<Rightarrow> typed_manager list \<Rightarrow> (int \<times> typed_manager list) result" where
  "count_typed rid n enc cs p [] = Inr (0, [])"
| "count_typed rid n enc cs p (m # ms) =
     ebind (if is_cross (fst m) then Inr (tm_get_num_blocks_to_allocate rid enc [] p m)
            else case cs of [] \<Rightarrow> Inl IndexError | c # _ \<Rightarrow> Inr (tm_get_num_blocks_to_allocate rid n c p m)) (\<lambda>(k, m').
     ebind (count_typed rid n enc (drop 1 cs) p ms) (\<lambda>(k', ms'). Inr (k + k', m' # ms')))"

definition hc_get_num_blocks_to_allocate :: "reqid \<Rightarrow> int \<Rightarrow> blkref list list \<Rightarrow> int \<Rightarrow> hybrid_coordinator \<Rightarrow> (int \<times> hybrid_coordinator) result" where
  "hc_get_num_blocks_to_allocate rid n cs enc hc =
     ebind (count_typed rid n enc cs (hc_block_pool hc) (hc_managers hc)) (\<lambda>(k, ms). Inr (k, hc\<lparr>hc_managers := ms\<rparr>))"

fun save_typed :: "reqid \<Rightarrow> blkref list list \<Rightarrow> typed_manager list \<Rightarrow> typed_manager list result" where
  "save_typed rid cs [] = Inr []"
| "save_typed rid [] (m # ms) = Inl IndexError"
| "save_typed rid (c # cs) (m # ms) =
     ebind (tm_save_new_computed_blocks rid c m) (\<lambda>m'. ebind (save_typed rid cs ms) (\<lambda>ms'. Inr (m' # ms')))"

definition hc_save_new_computed_blocks :: "reqid \<Rightarrow> blkref list list \<Rightarrow> hybrid_coordinator \<Rightarrow> hybrid_coordinator result" where
  "hc_save_new_computed_blocks rid cs hc = ebind (save_typed rid cs (hc_managers hc)) (\<lambda>ms. Inr (hc\<lparr>hc_managers := ms\<rparr>))"

fun allocate_typed :: "bool \<Rightarrow> reqid \<Rightarrow> int \<Rightarrow> int \<Rightarrow> block_pool \<Rightarrow> typed_manager list \<Rightarrow> (blkref list list \<times> block_pool \<times> typed_manager list) result" where
  "allocate_typed u rid n enc p [] = Inr ([], p, [])"
| "allocate_typed u rid n enc p (m # ms) =
     ebind (tm_allocate_new_blocks u rid (if is_cross (fst m) then enc else n) p m) (\<lambda>(bs, p', m').
     ebind (allocate_typed u rid n enc p' ms) (\<lambda>(bss, p'', ms'). Inr (bs # bss, p'', m' # ms')))"

definition hc_allocate_new_blocks :: "bool \<Rightarrow> reqid \<Rightarrow> int \<Rightarrow> int \<Rightarrow> hybrid_coordinator \<Rightarrow> (blkref list list \<times> hybrid_coordinator) result" where
  "hc_allocate_new_blocks u rid n enc hc =
     ebind (allocate_typed u rid n enc (hc_block_pool hc) (hc_managers hc)) (\<lambda>(bss, p, ms). Inr (bss, hc\<lparr>hc_block_pool := p, hc_managers := ms\<rparr>))"

definition hc_cache_blocks :: "bool \<Rightarrow> request \<Rightarrow> int \<Rightarrow> hybrid_coordinator \<Rightarrow> hybrid_coordinator result" where
  "hc_cache_blocks u r n hc = on_typed (tm_cache_blocks u r n) hc"

definition hc_free :: "reqid \<Rightarrow> hybrid_coordinator \<Rightarrow> hybrid_coordinator result" where
  "hc_free rid hc = on_typed (tm_free rid) hc"

definition hc_remove_skipped_blocks :: "reqid \<Rightarrow> int \<Rightarrow> hybrid_coordinator \<Rightarrow> hybrid_coordinator result" where
  "hc_remove_skipped_blocks rid n hc = on_typed (tm_remove_skipped_blocks rid n) hc"

fun common_typed :: "reqid \<Rightarrow> block_pool \<Rightarrow> typed_manager list \<Rightarrow> nat list \<times> typed_manager list" where
  "common_typed rid p [] = ([], [])"
| "common_typed rid p (m # ms) =
     (case tm_get_num_common_prefix_blocks rid p m of (n, m') \<Rightarrow> case common_typed rid p ms of (ns, ms') \<Rightarrow> (n # ns, m' # ms'))"

definition hc_get_num_common_prefix_blocks :: "reqid \<Rightarrow> hybrid_coordinator \<Rightarrow> nat list \<times> hybrid_coordinator" where
  "hc_get_num_common_prefix_blocks rid hc =
     (case common_typed rid (hc_block_pool hc) (hc_managers hc) of (ns, ms) \<Rightarrow> (ns, hc\<lparr>hc_managers := ms\<rparr>))"

definition hc_get_blocks :: "reqid \<Rightarrow> hybrid_coordinator \<Rightarrow> blkref list list" where
  "hc_get_blocks rid hc = map (\<lambda>(_, m). dget_or (sm_req_to_blocks m) rid []) (hc_managers hc)"

subsection \<open>Looking up a block in several groups\<close>

definition holds_hash :: "block_pool \<Rightarrow> bytes \<Rightarrow> blkref \<Rightarrow> int \<Rightarrow> bool" where
  "holds_hash p h b g \<longleftrightarrow> (\<exists>i gb. b = Blk i \<and> usable p i \<and> to_bytes_4 g = Inr gb \<and> hash_of p i = Some (h @ gb))"

definition cached_in :: "block_pool \<Rightarrow> int list \<Rightarrow> bytes \<Rightarrow> bool" where
  "cached_in p gids h \<longleftrightarrow> (\<forall>g\<in>set gids. \<exists>b. holds_hash p h b g)"

definition gids_ok :: "int list \<Rightarrow> bool" where
  "gids_ok gids \<longleftrightarrow> gids \<noteq> [] \<and> (\<forall>g\<in>set gids. \<exists>gb. to_bytes_4 g = Inr gb)"

lemma cached_inI: "(\<And>j. j < length gids \<Longrightarrow> holds_hash p h (f j) (gids ! j)) \<Longrightarrow> cached_in p gids h"
  unfolding cached_in_def by (metis in_set_conv_nth)

lemma get_cached_block_spec:
  assumes "pool_rep p xs" and "\<forall>g\<in>set gids. \<exists>gb. to_bytes_4 g = Inr gb"
  shows "(get_cached_block p h gids = Inr None \<and> \<not> cached_in p gids h) \<or>
    (\<exists>bs. get_cached_block p h gids = Inr (Some bs) \<and> list_all2 (holds_hash p h) bs gids)"
  using assms(2)
proof (induction gids)
  case (Cons g gs)
  from Cons.prems obtain gb where gb: "to_bytes_4 g = Inr gb" by auto
  consider (miss) "get_cached_block p h [g] = Inr None" "\<forall>i. hash_of p i \<noteq> Some (h @ gb)"
    | (hit) i where "get_cached_block p h [g] = Inr (Some [Blk i])" "usable p i" "hash_of p i = Some (h @ gb)"
    using cached_block_single [OF assms(1) gb] by blast
  then show ?case
  proof cases
    case miss
    then have "\<not> cached_in p (g # gs) h" using gb by (auto simp: cached_in_def holds_hash_def)
    moreover have "get_cached_block p h (g # gs) = Inr None" using miss(1) by (auto simp: ebind_eq_Inr split: option.splits)
    ultimately show ?thesis by blast
  next
    case hit
    have b: "holds_hash p h (Blk i) g" using hit gb by (auto simp: holds_hash_def)
    have one: "get_cached_block p h (g # gs) = ebind (get_cached_block p h gs) (\<lambda>rest. Inr (map_option (\<lambda>bs. Blk i # bs) rest))"
      using hit(1) by (auto simp: ebind_eq_Inr split: option.splits)
    from Cons.IH Cons.prems consider "get_cached_block p h gs = Inr None" "\<not> cached_in p gs h"
      | bs where "get_cached_block p h gs = Inr (Some bs)" "list_all2 (holds_hash p h) bs gs" by auto
    then show ?thesis
    proof cases
      case 1
      then show ?thesis using one by (auto simp: cached_in_def)
    next
      case 2
      then show ?thesis using one b by auto
    qed
  qed
qed (simp add: cached_in_def)

lemma get_cached_block_cases:
  assumes "pool_rep p xs" and "gids_ok gids"
  obtains (miss) "get_cached_block p h gids = Inr None" "\<not> cached_in p gids h"
    | (hit) bs where "get_cached_block p h gids = Inr (Some bs)" "list_all2 (holds_hash p h) bs gids" "bs \<noteq> []" "cached_in p gids h"
proof -
  from get_cached_block_spec [OF assms(1), of gids h] assms(2) consider "get_cached_block p h gids = Inr None" "\<not> cached_in p gids h"
    | bs where "get_cached_block p h gids = Inr (Some bs)" "list_all2 (holds_hash p h) bs gids" by (auto simp: gids_ok_def)
  then show thesis
  proof cases
    case 2
    have "bs \<noteq> []" using 2(2) assms(2) by (auto simp: gids_ok_def)
    moreover have "cached_in p gids h" using 2(2) by (intro cached_inI [of _ _ _ "\<lambda>j. bs ! j"]) (simp add: list_all2_conv_all_nth)
    ultimately show thesis using 2 hit by blast
  qed (rule miss)
qed

subsection \<open>The search of a sliding window\<close>

text \<open>A prefix of \<open>l\<close> blocks can be continued when the last \<open>w\<close> of them are cached.\<close>

definition window_hit :: "block_pool \<Rightarrow> int list \<Rightarrow> bytes list \<Rightarrow> nat \<Rightarrow> nat \<Rightarrow> bool" where
  "window_hit p gids hashes w l \<longleftrightarrow> (\<forall>k. l - w \<le> k \<longrightarrow> k < l \<longrightarrow> cached_in p gids (hashes ! k))"

definition longest_window_hit :: "block_pool \<Rightarrow> int list \<Rightarrow> bytes list \<Rightarrow> nat \<Rightarrow> nat \<Rightarrow> nat \<Rightarrow> bool" where
  "longest_window_hit p gids hashes w n l \<longleftrightarrow> l \<le> n \<and> window_hit p gids hashes w l \<and> (\<forall>l'. l < l' \<longrightarrow> l' \<le> n \<longrightarrow> \<not> window_hit p gids hashes w l')"

definition window_blocks :: "block_pool \<Rightarrow> int list \<Rightarrow> bytes list \<Rightarrow> nat \<Rightarrow> nat \<Rightarrow> blkref list list \<Rightarrow> bool" where
  "window_blocks p gids hashes w l bss \<longleftrightarrow> length bss = length gids \<and> (\<forall>bs\<in>set bss. length bs = l) \<and>
     (\<forall>j<length gids. \<forall>k<l. if k + w < l then bss ! j ! k = bp_null_block p else holds_hash p (hashes ! k) (bss ! j ! k) (gids ! j))"

text \<open>The state of the search above index \<open>i\<close>.\<close>

definition window_state :: "block_pool \<Rightarrow> int list \<Rightarrow> bytes list \<Rightarrow> nat \<Rightarrow> nat \<Rightarrow> nat \<Rightarrow> blkref list list \<Rightarrow> nat \<Rightarrow> bool" where
  "window_state p gids hashes w n i computed num \<longleftrightarrow> i + num \<le> n \<and> num < w \<and> length computed = length gids \<and> (\<forall>c\<in>set computed. length c = n) \<and>
     (\<forall>j<length gids. \<forall>k<i. computed ! j ! k = bp_null_block p) \<and>
     (\<forall>j<length gids. \<forall>k. i \<le> k \<longrightarrow> k < i + num \<longrightarrow> holds_hash p (hashes ! k) (computed ! j ! k) (gids ! j)) \<and>
     (\<forall>l. i + num < l \<longrightarrow> l \<le> n \<longrightarrow> \<not> window_hit p gids hashes w l)"

lemma window_state_miss:
  assumes "window_state p gids hashes w n (Suc i) computed num" and "\<not> cached_in p gids (hashes ! i)"
  shows "window_state p gids hashes w n i computed 0"
proof -
  have "\<not> window_hit p gids hashes w l" if "i < l" "l \<le> n" for l
  proof (cases "Suc i + num < l")
    case True
    with assms(1) that show ?thesis by (simp add: window_state_def)
  next
    case False
    moreover have "num < w" using assms(1) by (simp add: window_state_def)
    ultimately have "l - w \<le> i" by linarith
    with that(1) assms(2) show ?thesis by (auto simp: window_hit_def)
  qed
  with assms(1) show ?thesis by (auto simp: window_state_def)
qed

lemma window_state_hit:
  assumes st: "window_state p gids hashes w n (Suc i) computed num" and bs: "list_all2 (holds_hash p (hashes ! i)) bs gids"
  defines "computed' \<equiv> map2 (\<lambda>c b. c[i := b]) computed bs"
  shows "length computed' = length gids" "\<forall>c\<in>set computed'. length c = n" "\<forall>j<length gids. \<forall>k<i. computed' ! j ! k = bp_null_block p"
    "\<forall>j<length gids. \<forall>k. i \<le> k \<longrightarrow> k < i + Suc num \<longrightarrow> holds_hash p (hashes ! k) (computed' ! j ! k) (gids ! j)"
proof -
  have len: "length computed = length gids" "length bs = length gids" "i < n" using st bs by (auto simp: window_state_def dest: list_all2_lengthD)
  have c: "length (computed ! j) = n" if "j < length gids" for j using st that len(1) by (simp add: window_state_def)
  have nth: "computed' ! j ! k = (if k = i then bs ! j else computed ! j ! k)" if "j < length gids" for j k
    using that len c [OF that] by (simp add: computed'_def)
  show "length computed' = length gids" using len by (simp add: computed'_def)
  show "\<forall>c\<in>set computed'. length c = n" using st len by (auto simp: computed'_def window_state_def dest: set_zip_leftD)
  show "\<forall>j<length gids. \<forall>k<i. computed' ! j ! k = bp_null_block p" using st by (simp add: nth window_state_def)
  have "holds_hash p (hashes ! i) (bs ! j) (gids ! j)" if "j < length gids" for j using bs that by (simp add: list_all2_conv_all_nth)
  then show "\<forall>j<length gids. \<forall>k. i \<le> k \<longrightarrow> k < i + Suc num \<longrightarrow> holds_hash p (hashes ! k) (computed' ! j ! k) (gids ! j)"
    using st by (auto simp: nth window_state_def)
qed

lemma window_loop_spec:
  assumes pool: "pool_rep p xs" "gids_ok gids" and n: "n \<le> length hashes" and w: "need = int w"
  shows "window_state p gids hashes w n i computed num \<Longrightarrow>
    \<exists>c k found l. window_loop p gids hashes need i computed num = Inr (c, k, found) \<and> longest_window_hit p gids hashes w n l \<and>
      window_blocks p gids hashes w l (if found then c else map (take k) c)"
proof (induction i arbitrary: computed num)
  case 0
  have hit: "window_hit p gids hashes w num"
    unfolding window_hit_def
  proof (intro allI impI)
    fix k assume "k < num"
    with 0 show "cached_in p gids (hashes ! k)"
      by (intro cached_inI [of _ _ _ "\<lambda>j. computed ! j ! k"]) (simp add: window_state_def)
  qed
  have "window_blocks p gids hashes w num (map (take num) computed)"
    using 0 by (auto simp: window_blocks_def window_state_def)
  with 0 hit show ?case by (intro exI [of _ computed] exI [of _ num] exI [of _ False]) (auto simp: longest_window_hit_def window_state_def)
next
  case (Suc i)
  have i: "i < length hashes" using Suc.prems n by (simp add: window_state_def)
  from pool show ?case
  proof (cases rule: get_cached_block_cases [where h = "hashes ! i"])
    case miss
    from Suc.IH [OF window_state_miss [OF Suc.prems miss(2)]] show ?thesis using i miss(1) by simp
  next
    case (hit bs)
    define c where "c = map2 (\<lambda>c b. c[i := b]) computed bs"
    note st = window_state_hit [OF Suc.prems hit(2), folded c_def]
    show ?thesis
    proof (cases "need \<le> int (Suc num)")
      case True
      then have num: "Suc num = w" using Suc.prems w by (simp add: window_state_def)
      have "window_hit p gids hashes w (i + w)"
        unfolding window_hit_def
      proof (intro allI impI)
        fix k assume "i + w - w \<le> k" "k < i + w"
        with st(4) num show "cached_in p gids (hashes ! k)" by (intro cached_inI [of _ _ _ "\<lambda>j. c ! j ! k"]) simp
      qed
      then have "longest_window_hit p gids hashes w n (i + w)" using Suc.prems num by (simp add: longest_window_hit_def window_state_def)
      moreover have "window_blocks p gids hashes w (i + w) (map (take (i + w)) c)"
        using st num Suc.prems by (auto simp: window_blocks_def window_state_def)
      ultimately show ?thesis using i hit(1,3) True num
        by (intro exI [of _ "map (take (i + w)) c"] exI [of _ w] exI [of _ True] exI [of _ "i + w"]) (simp add: c_def)
    next
      case False
      then have "window_state p gids hashes w n i c (Suc num)" using Suc.prems st w by (simp add: window_state_def)
      from Suc.IH [OF this] show ?thesis using i hit(1,3) False by (simp add: c_def)
    qed
  qed
qed

lemma window_tokens:
  assumes blocks: "window_blocks p gids hashes w l bss" and w: "cdiv (window - 1) bs \<le> int w" and bs: "0 < bs"
    and t: "0 \<le> t" "int l * bs - window < t" "t < int l * bs" and j: "j < length gids"
  shows "holds_hash p (hashes ! nat (t div bs)) (bss ! j ! nat (t div bs)) (gids ! j)"
proof -
  let ?k = "t div bs"
  have k: "0 \<le> ?k" "?k < int l" using t bs le_int_div_iff [OF bs, of "int l" t] by (simp_all add: pos_imp_zdiv_nonneg_iff)
  have "t < (?k + 1) * bs" using bs by (simp add: distrib_right) (metis add.commute mult.commute mult_div_mod_eq pos_mod_bound add_less_cancel_left)
  with t(2) have "(int l - (?k + 1)) * bs < window - 1" by (simp add: left_diff_distrib)
  then have "\<not> cdiv (window - 1) bs \<le> int l - (?k + 1)" using cdiv_le [OF bs] by (simp add: linorder_not_le)
  with w have "\<not> nat ?k + w < l" using k by linarith
  moreover have "nat ?k < l" using k by linarith
  ultimately show ?thesis using blocks j by (simp add: window_blocks_def)
qed

lemma sliding_window_spec:
  assumes pool: "pool_rep p xs" "gids_ok gids" and bs: "0 < at_block_size a" and len: "0 \<le> max_len" "max_len div at_block_size a \<le> int (length hashes)"
    and w: "w = nat (cdiv (window - 1) (at_block_size a)) + (if eagle then 1 else 0)" "0 < w" and window: "1 \<le> window"
  shows "\<exists>l bss. sliding_find_longest_cache_hit hashes max_len gids p a window eagle 1 = Inr (if eagle then map butlast bss else bss) \<and>
    longest_window_hit p gids hashes w (nat (max_len div at_block_size a)) l \<and> window_blocks p gids hashes w l bss \<and>
    (\<forall>t j. 0 \<le> t \<longrightarrow> int l * at_block_size a - window < t \<longrightarrow> t < int l * at_block_size a \<longrightarrow> j < length gids \<longrightarrow>
      holds_hash p (hashes ! nat (t div at_block_size a)) (bss ! j ! nat (t div at_block_size a)) (gids ! j))"
proof -
  let ?bs = "at_block_size a" and ?n = "nat (max_len div at_block_size a)"
  let ?need = "if eagle then cdiv (window - 1) ?bs + 1 else cdiv (window - 1) ?bs"
  have nn: "0 \<le> cdiv (window - 1) ?bs" using bs window by (simp add: cdiv_nonneg)
  then have need: "?need = int w" by (simp add: w)
  have "window_state p gids hashes w ?n ?n (map (\<lambda>_. replicate ?n (bp_null_block p)) gids) 0"
    using w(2) by (auto simp: window_state_def)
  moreover have "?n \<le> length hashes" using len by (simp add: nat_le_iff)
  ultimately obtain c k found l
    where loop: "window_loop p gids hashes ?need ?n (map (\<lambda>_. replicate ?n (bp_null_block p)) gids) 0 = Inr (c, k, found)"
    and l: "longest_window_hit p gids hashes w ?n l" "window_blocks p gids hashes w l (if found then c else map (take k) c)"
    using window_loop_spec [OF pool _ need] by blast
  define bss where "bss = (if found then c else map (take k) c)"
  have lens: "length bss = length gids" "\<forall>b\<in>set bss. length b = l" using l(2) by (simp_all add: bss_def window_blocks_def)
  have "pop_last eagle bss = Inr (if eagle then map butlast bss else bss)"
  proof (cases bss)
    case Nil
    with lens(1) pool(2) show ?thesis by (simp add: gids_ok_def)
  next
    case (Cons b rest)
    with lens(2) have "map butlast bss = bss" if "b = []" using that by (auto intro!: map_idI)
    with Cons lens(2) show ?thesis by (auto simp: pop_last_def)
  qed
  then have "sliding_find_longest_cache_hit hashes max_len gids p a window eagle 1 = Inr (if eagle then map butlast bss else bss)"
    using bs loop by (simp add: sliding_find_longest_cache_hit_def ceildiv_def floordiv_def bss_def split: if_splits)
  moreover have "cdiv (window - 1) ?bs \<le> int w" using nn by (simp add: w)
  ultimately show ?thesis using l window_tokens [OF l(2) _ bs] unfolding bss_def by blast
qed

text \<open>C38: the search of a sliding window is exact. For a window of more than one token (or with a draft model), on any pool that satisfies its invariant, the right-to-left search
  returns the longest prefix within the limit whose last blocks, as many as the window needs, are cached in all groups; the blocks before them are
  null blocks, and every earlier token that the next token attends to is in a block with its hash. With a draft model one more
  block is required, and the last one is dropped.\<close>

theorem sliding_window_hit_is_longest:
  assumes pool: "pool_rep p xs" "gids_ok gids" and bs: "0 < at_block_size a" and len: "0 \<le> max_len" "max_len div at_block_size a \<le> int (length hashes)"
    and w: "w = nat (cdiv (window - 1) (at_block_size a)) + (if eagle then 1 else 0)" "0 < w" and window: "1 \<le> window"
  shows "\<exists>l bss. sliding_find_longest_cache_hit hashes max_len gids p a window eagle 1 = Inr (if eagle then map butlast bss else bss) \<and>
    longest_window_hit p gids hashes w (nat (max_len div at_block_size a)) l \<and> window_blocks p gids hashes w l bss \<and>
    (\<forall>t j. 0 \<le> t \<longrightarrow> int l * at_block_size a - window < t \<longrightarrow> t < int l * at_block_size a \<longrightarrow> j < length gids \<longrightarrow>
      holds_hash p (hashes ! nat (t div at_block_size a)) (bss ! j ! nat (t div at_block_size a)) (gids ! j))"
  using assms by (rule sliding_window_spec)

subsection \<open>Hybrid models\<close>

lemma cache_hit_loop_groups:
  assumes "pool_rep p xs" "gids_ok gids"
  shows "length computed = length gids \<Longrightarrow> \<exists>n bss. cache_hit_loop p gids hs computed = Inr (map2 (@) computed bss) \<and> length bss = length gids \<and>
    (\<forall>b\<in>set bss. length b = n) \<and> n \<le> length hs \<and> (\<forall>j<length gids. \<forall>k<n. holds_hash p (hs ! k) (bss ! j ! k) (gids ! j)) \<and>
    (n < length hs \<longrightarrow> \<not> cached_in p gids (hs ! n))"
proof (induction hs arbitrary: computed)
  case Nil
  have "map2 (@) computed (map (\<lambda>_. []) gids) = computed" using Nil by (simp add: list_eq_iff_nth_eq)
  then show ?case by (intro exI [of _ 0] exI [of _ "map (\<lambda>_. []) gids"]) simp
next
  case (Cons h hs)
  from assms show ?case
  proof (cases rule: get_cached_block_cases [where h = h])
    case miss
    have "map2 (@) computed (map (\<lambda>_. []) gids) = computed" using Cons.prems by (simp add: list_eq_iff_nth_eq)
    with miss show ?thesis by (intro exI [of _ 0] exI [of _ "map (\<lambda>_. []) gids"]) simp
  next
    case (hit bs)
    let ?c = "map2 (\<lambda>c b. c @ [b]) computed bs"
    have lb: "length bs = length gids" using hit(2) by (rule list_all2_lengthD)
    then have "length ?c = length gids" using Cons.prems by simp
    from Cons.IH [OF this] obtain n bss where ih: "cache_hit_loop p gids hs ?c = Inr (map2 (@) ?c bss)" "length bss = length gids"
      "\<forall>b\<in>set bss. length b = n" "n \<le> length hs" "\<forall>j<length gids. \<forall>k<n. holds_hash p (hs ! k) (bss ! j ! k) (gids ! j)"
      "n < length hs \<longrightarrow> \<not> cached_in p gids (hs ! n)" by blast
    have "map2 (@) ?c bss = map2 (@) computed (map2 (#) bs bss)" using Cons.prems lb ih(2) by (simp add: list_eq_iff_nth_eq)
    moreover have "\<forall>b\<in>set (map2 (#) bs bss). length b = Suc n" using ih(3) by (auto dest: set_zip_rightD)
    moreover have "\<forall>j<length gids. \<forall>k<Suc n. holds_hash p ((h # hs) ! k) (map2 (#) bs bss ! j ! k) (gids ! j)"
      using ih(2,5) lb hit(2) by (auto simp: list_all2_conv_all_nth nth_Cons split: nat.splits)
    ultimately show ?thesis using ih hit(1,3) lb by (intro exI [of _ "Suc n"] exI [of _ "map2 (#) bs bss"]) auto
  qed
qed

definition full_blocks_of :: "block_pool \<Rightarrow> int list \<Rightarrow> bytes list \<Rightarrow> nat \<Rightarrow> blkref list list \<Rightarrow> bool" where
  "full_blocks_of p gids hashes l bss \<longleftrightarrow> length bss = length gids \<and> (\<forall>bs\<in>set bss. length bs = l) \<and>
     (\<forall>j<length gids. \<forall>k<l. holds_hash p (hashes ! k) (bss ! j ! k) (gids ! j))"

lemma full_find_spec:
  assumes pool: "pool_rep p xs" "gids_ok gids" and bs: "0 < at_block_size a" and len: "0 \<le> max_len" "max_len div at_block_size a \<le> int (length hashes)"
  shows "\<exists>n bss. find_longest_cache_hit hashes max_len gids p (FullAttentionSpec a sw ch) False 1 = Inr bss \<and> full_blocks_of p gids hashes n bss \<and>
    n \<le> nat (max_len div at_block_size a) \<and> (n < nat (max_len div at_block_size a) \<longrightarrow> \<not> cached_in p gids (hashes ! n))"
proof -
  let ?m = "nat (max_len div at_block_size a)"
  obtain n bss where h: "cache_hit_loop p gids (take ?m hashes) (map (\<lambda>_. []) gids) = Inr (map2 (@) (map (\<lambda>_. []) gids) bss)" "length bss = length gids"
    "\<forall>b\<in>set bss. length b = n" "n \<le> length (take ?m hashes)"
    "\<forall>j<length gids. \<forall>k<n. holds_hash p (take ?m hashes ! k) (bss ! j ! k) (gids ! j)"
    "n < length (take ?m hashes) \<longrightarrow> \<not> cached_in p gids (take ?m hashes ! n)"
    using cache_hit_loop_groups [OF pool length_map] by blast
  have "map2 (@) (map (\<lambda>_. []) gids) bss = bss" using h(2) by (simp add: list_eq_iff_nth_eq)
  moreover have m: "length (take ?m hashes) = ?m" using len by (simp add: nat_le_iff)
  ultimately show ?thesis using h bs len by (intro exI [of _ n] exI [of _ bss])
    (simp add: full_blocks_of_def sm_find_longest_cache_hit_def Let_def pos_imp_zdiv_nonneg_iff linorder_not_less)
qed

text \<open>C39: the hit of a hybrid model is the longest for all its layers. For full attention groups beside sliding window groups of the same block size, without a draft
  model, the coordinator raises nothing and returns blocks for every group, all of the same length; the full attention blocks are cached from the start, the
  blocks in the last window are cached for the others; and no longer prefix within the limit would do for both.\<close>

theorem hybrid_hit_is_longest:
  assumes pool: "pool_rep (hc_block_pool hc) xs" "gids_ok (hc_full_ids hc)" "gids_ok (hc_other_ids hc)"
    and specs: "hc_full_spec hc = FullAttentionSpec a sw ch" "hc_other_spec hc = SlidingWindowSpec b window" "at_block_size b = at_block_size a"
    and bs: "0 < at_block_size a" and eagle: "\<not> hc_use_eagle hc" and window: "1 < window"
    and len: "0 \<le> max_len" "max_len div at_block_size a \<le> int (length hashes)" and w: "w = nat (cdiv (window - 1) (at_block_size a))"
  shows "\<exists>l full other. hc_find_longest_cache_hit hashes max_len hc =
      Inr (if hc_full_attn_first hc then full @ other else other @ full, int l * at_block_size a) \<and> l \<le> nat (max_len div at_block_size a) \<and>
    full_blocks_of (hc_block_pool hc) (hc_full_ids hc) hashes l full \<and> window_blocks (hc_block_pool hc) (hc_other_ids hc) hashes w l other \<and>
    (\<forall>l'. l < l' \<longrightarrow> l' \<le> nat (max_len div at_block_size a) \<longrightarrow>
      \<not> ((\<forall>k<l'. cached_in (hc_block_pool hc) (hc_full_ids hc) (hashes ! k)) \<and> window_hit (hc_block_pool hc) (hc_other_ids hc) hashes w l'))"
proof -
  let ?p = "hc_block_pool hc" and ?bs = "at_block_size a" and ?m = "nat (max_len div at_block_size a)"
  obtain n fs where full: "find_longest_cache_hit hashes max_len (hc_full_ids hc) ?p (hc_full_spec hc) False 1 = Inr fs"
    "full_blocks_of ?p (hc_full_ids hc) hashes n fs" "n \<le> ?m" "n < ?m \<longrightarrow> \<not> cached_in ?p (hc_full_ids hc) (hashes ! n)"
    using full_find_spec [OF pool(1,2) bs len, of sw ch] specs(1) by auto
  have "0 < cdiv (window - 1) ?bs" using cdiv_le [OF bs, of "window - 1" 0] window by simp
  then have w0: "0 < w" by (simp add: w)
  have fl: "length (hd fs) = n" using full(2) pool(2) by (cases fs) (auto simp: full_blocks_of_def gids_ok_def)
  have "int n * ?bs div ?bs \<le> int (length hashes)" using bs full(3) len by (simp add: le_nat_iff pos_imp_zdiv_nonneg_iff)
  then obtain l os where other: "sliding_find_longest_cache_hit hashes (int n * ?bs) (hc_other_ids hc) ?p b window False 1 = Inr os"
    "longest_window_hit ?p (hc_other_ids hc) hashes w n l" "window_blocks ?p (hc_other_ids hc) hashes w l os"
    using sliding_window_spec [OF pool(1,3), of b "int n * ?bs" hashes w window False] bs window w w0 specs(3) by auto
  have ol: "length (hd os) = l" using other(3) pool(3) by (cases os) (auto simp: window_blocks_def gids_ok_def)
  have ln: "l \<le> n" using other(2) by (simp add: longest_window_hit_def)
  have "full_blocks_of ?p (hc_full_ids hc) hashes l (map (take l) fs)" using full(2) ln by (auto simp: full_blocks_of_def)
  moreover have "hc_find_longest_cache_hit hashes max_len hc =
      Inr (if hc_full_attn_first hc then map (take l) fs @ os else os @ map (take l) fs, int l * ?bs)"
    using full(1) other(1) specs eagle bs by (simp add: hc_find_longest_cache_hit_def fl ol Let_def)
  moreover have "\<not> ((\<forall>k<l'. cached_in ?p (hc_full_ids hc) (hashes ! k)) \<and> window_hit ?p (hc_other_ids hc) hashes w l')" if "l < l'" "l' \<le> ?m" for l'
    using that full(3,4) other(2) unfolding longest_window_hit_def by (meson less_le_trans not_le_imp_less)
  ultimately show ?thesis using other(3) ln full(3) by (intro exI [of _ l] exI [of _ "map (take l) fs"] exI [of _ os]) auto
qed

subsection \<open>Giving back blocks outside the window\<close>

lemma skip_loop_below: "i \<le> j \<Longrightarrow> skip_loop z i (replicate j z @ post) removed = Inr (replicate j z @ post, removed)"
  by (cases i) (simp_all add: nth_append)

lemma skip_loop_mid:
  "z \<notin> set mid \<Longrightarrow> skip_loop z (j + length mid) (replicate j z @ mid @ post) removed = Inr (replicate (j + length mid) z @ post, removed @ rev mid)"
proof (induction mid arbitrary: post removed rule: rev_induct)
  case Nil
  then show ?case using skip_loop_below [of j j z post removed] by simp
next
  case (snoc b mid)
  from snoc.prems have b: "b \<noteq> z" "z \<notin> set mid" by auto
  have "skip_loop z (j + length (mid @ [b])) (replicate j z @ (mid @ [b]) @ post) removed =
      skip_loop z (j + length mid) (replicate j z @ mid @ (z # post)) (removed @ [b])"
    using b(1) by (simp add: nth_append list_update_append)
  with snoc.IH [OF b(2)] show ?case by (simp add: replicate_app_Cons_same replicate_add [symmetric])
qed

text \<open>The tokens that the next token, after \<open>n\<close> computed ones, attends to.\<close>

fun attends_to :: "kv_cache_spec \<Rightarrow> int \<Rightarrow> int \<Rightarrow> bool" where
  "attends_to (SlidingWindowSpec _ w) n t = (n - w < t)"
| "attends_to (ChunkedLocalAttentionSpec _ c) n t = (n div c * c \<le> t)"
| "attends_to _ n t = True"

lemma attended_not_skipped: "attends_to s n t \<Longrightarrow> 0 \<le> t \<Longrightarrow> num_skipped_tokens s n \<le> t"
  by (cases s) (auto simp: get_num_skipped_tokens_def)

text \<open>C40: only blocks that no later token needs are given back. The table of a request starts with null blocks for what was given back before. Removing the
  skipped blocks never raises when the skipped tokens have blocks; it replaces exactly the blocks that lie before the window of the next
  token by null blocks and drops the request's reference to each of them once; every token that the next token attends to keeps its block.\<close>

theorem window_blocks_kept:
  assumes pool: "pool_rep p xs" and bs: "0 < sm_block_size m" and table: "map_of (sm_req_to_blocks m) rid = Some (replicate j (Blk 0) @ map Blk js)"
    and js: "distinct js" "\<forall>i\<in>set js. usable p i \<and> ref_of p i \<ge> 1"
    and len: "num_skipped_tokens s n \<le> int ((j + length js) * sm_block_size m)" and pos: "0 < num_skipped_tokens s n"
    and k: "k = nat (num_skipped_tokens s n div int (sm_block_size m))"
  shows "\<exists>p' m' xs'. tm_remove_skipped_blocks rid n p (s, m) = Inr (p', s, m') \<and> pool_rep p' xs' \<and>
    (\<forall>rid'. dget_or (sm_req_to_blocks m') rid' [] =
      (if rid' = rid then replicate (max j k) (Blk 0) @ map Blk (drop (k - j) js) else dget_or (sm_req_to_blocks m) rid' [])) \<and>
    (\<forall>i. ref_of p' i = ref_of p i - (if i \<in> set (take (k - j) js) then 1 else 0)) \<and>
    (\<forall>t. 0 \<le> t \<longrightarrow> attends_to s n t \<longrightarrow> t < int ((j + length js) * sm_block_size m) \<longrightarrow>
      dget_or (sm_req_to_blocks m') rid [] ! nat (t div int (sm_block_size m)) = (replicate j (Blk 0) @ map Blk js) ! nat (t div int (sm_block_size m)))"
proof -
  let ?bs = "int (sm_block_size m)" and ?old = "replicate j (Blk 0) @ map Blk js" and ?new = "replicate (max j k) (Blk 0) @ map Blk (drop (k - j) js)"
  have null: "bp_null_block p = Blk 0" using pool_repD(2) [OF pool] by (simp add: labels_ok_def)
  have "num_skipped_tokens s n div ?bs * ?bs \<le> num_skipped_tokens s n" using bs by (simp add: minus_mod_eq_div_mult [symmetric])
  with len have "num_skipped_tokens s n div ?bs * ?bs \<le> int (j + length js) * ?bs" by simp
  then have kl: "k \<le> j + length js" using bs by (simp add: k nat_le_iff)
  have zero: "Blk 0 \<notin> set (map Blk js)" using js(2) by (auto simp: usable_def)
  have loop: "skip_loop (Blk 0) k ?old [] = Inr (?new, rev (map Blk (take (k - j) js)))"
  proof (cases "k \<le> j")
    case True
    then show ?thesis using skip_loop_below [of k j "Blk 0"] by (simp add: max_def)
  next
    case False
    let ?mid = "map Blk (take (k - j) js)"
    have "map Blk js = ?mid @ map Blk (drop (k - j) js)" by (simp flip: map_append)
    moreover have "j + length ?mid = k" using False kl by simp
    moreover have "Blk 0 \<notin> set ?mid" using zero by (auto dest: in_set_takeD)
    ultimately show ?thesis using skip_loop_mid [of "Blk 0" ?mid j "map Blk (drop (k - j) js)" "[]"] False by (simp add: max_def)
  qed
  let ?gone = "rev (take (k - j) js)"
  obtain p' where p': "free_blocks (map Blk ?gone) p = Inr p'" "pool_rep p' (xs @ filter (\<lambda>i. ref_of p i = 1) ?gone)"
    "\<forall>i. ref_of p' i = ref_of p i - (if i \<in> set ?gone then 1 else 0)"
    using free_blocks_spec [OF pool, of ?gone] js by (auto dest: in_set_takeD)
  define m' where "m' = set_req_blocks rid ?new (snd (req_blocks rid m))"
  have run: "tm_remove_skipped_blocks rid n p (s, m) = Inr (p', s, m')"
    using pos loop p'(1) by (simp add: tm_remove_skipped_blocks_def sm_remove_skipped_blocks_def req_blocks_def table dget_or_def null k [symmetric] rev_map m'_def Let_def)
  have new: "dget_or (sm_req_to_blocks m') rid' [] = (if rid' = rid then ?new else dget_or (sm_req_to_blocks m) rid' [])" for rid'
    by (simp add: m'_def set_req_blocks_def req_blocks_def dict_simps)
  have "?new ! nat (t div ?bs) = ?old ! nat (t div ?bs)" if "0 \<le> t" "attends_to s n t" "t < int ((j + length js) * sm_block_size m)" for t
  proof -
    have "num_skipped_tokens s n div ?bs \<le> t div ?bs" using attended_not_skipped [OF that(2,1)] bs by (simp add: zdiv_mono1)
    then have "k \<le> nat (t div ?bs)" by (simp add: k)
    then show ?thesis using kl by (auto simp: nth_append max_def drop_map [symmetric])
  qed
  with run p' new show ?thesis by (intro exI [of _ p'] exI [of _ m'] exI) auto
qed

subsection \<open>An instance\<close>

text \<open>A fresh pool of eight blocks, with a full attention group and a sliding window group.\<close>

definition sample_hybrid_pool :: block_pool where
  "sample_hybrid_pool = (case init_block_pool 8 True False of Inr p \<Rightarrow> p | Inl _ \<Rightarrow> undefined)"

lemma sample_hybrid_pool: "pool_rep sample_hybrid_pool [1..<8]" "bp_num_gpu_blocks sample_hybrid_pool = 8"
  using init_block_pool_rep [of 8 True False] by (auto simp: sample_hybrid_pool_def)

lemma sample_gids: "gids_ok [0]" "gids_ok [1]"
  by (simp_all add: gids_ok_def to_bytes_4_def)

theorem sliding_window_hit_is_longest_witness:
  "\<exists>l bss. sliding_find_longest_cache_hit [[1], [2]] 8 [1] sample_hybrid_pool sample_attention 5 False 1 = Inr bss \<and>
     longest_window_hit sample_hybrid_pool [1] [[1], [2]] 1 2 l"
proof -
  have "cdiv 4 4 = 1" by (simp add: cdiv_def)
  with sliding_window_hit_is_longest [OF sample_hybrid_pool(1) sample_gids(2), of sample_attention 8 "[[1], [2]]" 1 5 False] show ?thesis by auto
qed

definition sample_hybrid :: hybrid_coordinator where
  "sample_hybrid = \<lparr>hc_enable_caching = True, hc_use_eagle = False, hc_block_pool = sample_hybrid_pool, hc_managers = [], hc_full_ids = [0],
     hc_other_ids = [1], hc_full_spec = sample_spec, hc_other_spec = SlidingWindowSpec sample_attention 5, hc_full_attn_first = True\<rparr>"

theorem hybrid_hit_is_longest_witness: "\<exists>l hit. hc_find_longest_cache_hit [[1], [2]] 8 sample_hybrid = Inr (hit, int l * 4)"
proof -
  have s: "hc_block_pool sample_hybrid = sample_hybrid_pool" "hc_full_ids sample_hybrid = [0]" "hc_other_ids sample_hybrid = [1]"
    "hc_full_spec sample_hybrid = sample_spec" "hc_other_spec sample_hybrid = SlidingWindowSpec sample_attention 5" "\<not> hc_use_eagle sample_hybrid"
    by (simp_all add: sample_hybrid_def)
  with hybrid_hit_is_longest [of sample_hybrid "[1..<8]" sample_attention None None sample_attention 5 8 "[[1], [2]]" _]
    sample_hybrid_pool(1) sample_gids show ?thesis by fastforce
qed

definition sample_window_manager :: st_manager where
  "sample_window_manager = (new_st_manager 4 1 1)\<lparr>sm_req_to_blocks := [(''a'', map Blk [1, 2, 3])]\<rparr>"

theorem window_blocks_kept_witness:
  "\<exists>p p' m'. pool_rep p [4..<8] \<and> tm_remove_skipped_blocks ''a'' 9 p (SlidingWindowSpec sample_attention 5, sample_window_manager) =
       Inr (p', SlidingWindowSpec sample_attention 5, m') \<and>
     dget_or (sm_req_to_blocks m') ''a'' [] = [Blk 0, Blk 2, Blk 3]"
proof -
  have "[1..<8] = [1, 2, 3] @ [4..<8 :: nat]" by (simp add: upt_rec)
  then obtain p where p: "pool_rep p [4..<8]" "same_config sample_hybrid_pool p" "\<forall>i. ref_of p i = (if i \<in> {1, 2, 3} then 1 else ref_of sample_hybrid_pool i)"
    using get_new_blocks_spec [OF sample_hybrid_pool(1), of 3 False] by auto
  have js: "\<forall>i\<in>set [1, 2, 3]. usable p i \<and> 1 \<le> ref_of p i"
    using p(2,3) sample_hybrid_pool(2) by (simp add: usable_def same_config_def)
  have t: "map_of (sm_req_to_blocks sample_window_manager) ''a'' = Some (replicate 0 (Blk 0) @ map Blk [1, 2, 3])"
    "0 < sm_block_size sample_window_manager" "sm_block_size sample_window_manager = 4" by (simp_all add: sample_window_manager_def new_st_manager_def)
  from window_blocks_kept [OF p(1) t(2,1) _ js, of "SlidingWindowSpec sample_attention 5" 9 1] t(3) p(1) show ?thesis by (auto simp: max_def)
qed

end
