(* ===== verification/Free_Queue_Spec.thy ===== *)
theory Free_Queue_Spec
  imports Free_Queue
begin

text \<open>
  The abstract specification of \<open>FreeKVCacheBlockQueue\<close>: a list of block ids with removal from the middle. Every
  operation of the linked list, errors included, is simulated by the operation of the specification, so that
  whole sequences of operations give the same answers. The walk over the links, which would not end on a
  cyclic structure, always ends.
\<close>

subsection \<open>Operations as data\<close>

datatype fq_op = PopLeft | PopLeftN nat | Remove nat | Append nat | AppendN "nat list" | GetAll

datatype fq_ret = Blocks "blkref list" | Walk "blkref list option" | Done

fun fq_exec :: "fq_op \<Rightarrow> free_queue \<Rightarrow> (fq_ret \<times> free_queue) result" where
  "fq_exec PopLeft q = ebind (popleft q) (\<lambda>(b, q'). Inr (Blocks [b], q'))"
| "fq_exec (PopLeftN n) q = ebind (popleft_n (int n) q) (\<lambda>(bs, q'). Inr (Blocks bs, q'))"
| "fq_exec (Remove i) q = ebind (fq_remove (Blk i) q) (\<lambda>q'. Inr (Done, q'))"
| "fq_exec (Append i) q = ebind (fq_append (Blk i) q) (\<lambda>q'. Inr (Done, q'))"
| "fq_exec (AppendN is) q = ebind (append_n (map Blk is) q) (\<lambda>q'. Inr (Done, q'))"
| "fq_exec GetAll q = ebind (get_all_free_blocks q) (\<lambda>w. Inr (Walk w, q))"

fun spec_exec :: "fq_op \<Rightarrow> nat list \<Rightarrow> (fq_ret \<times> nat list) result" where
  "spec_exec PopLeft xs = (case xs of [] \<Rightarrow> Inl ValueError | x # ys \<Rightarrow> Inr (Blocks [Blk x], ys))"
| "spec_exec (PopLeftN n) xs =
     (if length xs < n then Inl AssertionError else Inr (Blocks (map Blk (take n xs)), drop n xs))"
| "spec_exec (Remove i) xs = (if i \<in> set xs then Inr (Done, remove1 i xs) else Inl RuntimeError)"
| "spec_exec (Append i) xs = Inr (Done, xs @ [i])"
| "spec_exec (AppendN is) xs = Inr (Done, xs @ is)"
| "spec_exec GetAll xs = Inr (Walk (Some (map Blk xs)), xs)"

text \<open>The callers append only blocks that are not in the queue.\<close>

fun op_allowed :: "fq_op \<Rightarrow> nat list \<Rightarrow> bool" where
  "op_allowed (Append i) xs \<longleftrightarrow> i \<notin> set xs"
| "op_allowed (AppendN is) xs \<longleftrightarrow> distinct is \<and> set xs \<inter> set is = {}"
| "op_allowed _ xs \<longleftrightarrow> True"

text \<open>A run stops at the first error and otherwise collects the answers.\<close>

fun run_ops :: "(fq_op \<Rightarrow> 's \<Rightarrow> (fq_ret \<times> 's) result) \<Rightarrow> fq_op list \<Rightarrow> 's \<Rightarrow> (fq_ret list \<times> 's) result" where
  "run_ops f [] s = Inr ([], s)"
| "run_ops f (x # xs) s = ebind (f x s) (\<lambda>(r, s'). ebind (run_ops f xs s') (\<lambda>(rs, s''). Inr (r # rs, s'')))"

fun run_allowed :: "fq_op list \<Rightarrow> nat list \<Rightarrow> bool" where
  "run_allowed [] xs \<longleftrightarrow> True"
| "run_allowed (x # ops) xs \<longleftrightarrow> op_allowed x xs \<and>
     (case spec_exec x xs of Inl _ \<Rightarrow> True | Inr (_, xs') \<Rightarrow> run_allowed ops xs')"

subsection \<open>Simulation\<close>

text \<open>The two results agree: the same error, or the same answer with related states and unchanged block contents.\<close>

definition simulates :: "free_queue \<Rightarrow> ('r \<times> free_queue) result \<Rightarrow> ('r \<times> nat list) result \<Rightarrow> bool" where
  "simulates q c a \<longleftrightarrow> (case a of
       Inl err \<Rightarrow> c = Inl err
     | Inr (r, xs') \<Rightarrow> \<exists>q'. c = Inr (r, q') \<and> queue_rep q' xs' \<and> payload (fq_heap q') = payload (fq_heap q))"

lemma simulates_simps [simp]:
  "simulates q c (Inl err) \<longleftrightarrow> c = Inl err"
  "simulates q c (Inr (r, xs')) \<longleftrightarrow> (\<exists>q'. c = Inr (r, q') \<and> queue_rep q' xs' \<and> payload (fq_heap q') = payload (fq_heap q))"
  by (simp_all add: simulates_def)

lemma popleft_n_too_many: "queue_rep q xs \<Longrightarrow> length xs < n \<Longrightarrow> popleft_n (int n) q = Inl AssertionError"
  by (auto simp: popleft_n_def dest: queue_repD(3))

lemma exec_simulates:
  assumes rep: "queue_rep q xs" and "op_allowed x xs"
  shows "simulates q (fq_exec x q) (spec_exec x xs)"
proof (cases x)
  case PopLeft
  with rep show ?thesis by (cases xs) (auto simp: rep_popleft_Nil dest: rep_popleft_Cons)
next
  case (PopLeftN n)
  with rep show ?thesis by (cases "length xs < n") (auto simp: popleft_n_too_many not_less dest: rep_popleft_n)
next
  case (Remove i)
  with rep show ?thesis using fq.rem_mem [OF rep, of i] by (cases "i \<in> set xs") (auto simp: rep_remove_absent)
next
  case (Append i)
  with assms rep_append_n [OF rep, of "[i]"] show ?thesis by (auto simp: fq_append_eq_append_n)
next
  case (AppendN "is")
  with assms rep_append_n [OF rep, of "is"] show ?thesis by auto
next
  case GetAll
  with rep show ?thesis by (simp add: rep_get_all)
qed

lemma run_simulates:
  "queue_rep q xs \<Longrightarrow> run_allowed ops xs \<Longrightarrow> simulates q (run_ops fq_exec ops q) (run_ops spec_exec ops xs)"
proof (induction ops arbitrary: q xs)
  case (Cons x ops)
  have sim: "simulates q (fq_exec x q) (spec_exec x xs)" using Cons.prems by (intro exec_simulates) simp_all
  show ?case
  proof (cases "spec_exec x xs")
    case (Inl err)
    with sim show ?thesis by simp
  next
    case (Inr a)
    obtain r xs' where a: "a = (r, xs')" by (cases a)
    with sim Inr obtain q' where q': "fq_exec x q = Inr (r, q')" "queue_rep q' xs'" "payload (fq_heap q') = payload (fq_heap q)"
      by auto
    have "run_allowed ops xs'" using Cons.prems(2) Inr a by simp
    from Cons.IH [OF q'(2) this] Inr a q' show ?thesis
      by (cases "run_ops spec_exec ops xs'") (auto simp: simulates_def)
  qed
qed simp

lemma init_rep: "queue_rep (init_free_queue [0..<n] initial_heap) [0..<n]"
  by (rule rep_init) (simp_all add: initial_heap_def new_block_def)

lemma run_observe:
  "simulates q c a \<Longrightarrow> map_sum id fst c = map_sum id fst a"
  by (cases a) (auto simp: simulates_def split: prod.splits)

subsection \<open>Properties\<close>

text \<open>C22: refinement of the free list. A queue built over \<open>n\<close> blocks, driven through any sequence of operations (pops, removals from the
  middle, appends, walks) in which only blocks outside the queue are appended, answers exactly as a plain list of block
  ids does, down to which exception the first failing operation raises.\<close>

theorem free_queue_refines_list:
  assumes "run_allowed ops [0..<n]"
  shows "map_sum id fst (run_ops fq_exec ops (init_free_queue [0..<n] initial_heap)) = map_sum id fst (run_ops spec_exec ops [0..<n])"
  by (rule run_observe [OF run_simulates [OF init_rep assms]])

theorem free_queue_refines_list_witness:
  "map_sum id fst (run_ops fq_exec [PopLeftN 2, Remove 3, AppendN [1, 0], PopLeft, GetAll] (init_free_queue [0..<4] initial_heap)) =
    Inr [Blocks [Blk 0, Blk 1], Done, Done, Blocks [Blk 2], Walk (Some [Blk 1, Blk 0])]"
  using free_queue_refines_list [of "[PopLeftN 2, Remove 3, AppendN [1, 0], PopLeft, GetAll]" 4]
  by (simp add: upt_rec numeral_eq_Suc)

text \<open>C23: the walk over the free list ends. After any sequence of allowed operations that succeeds, \<open>get_all_free_blocks\<close> terminates; it
  returns as many blocks as the counter \<open>num_free_blocks\<close> says, each of them once.\<close>

theorem free_walk_terminates:
  assumes "run_allowed ops [0..<n]" and "run_ops fq_exec ops (init_free_queue [0..<n] initial_heap) = Inr (rs, q)"
  shows "\<exists>bs. get_all_free_blocks q = Inr (Some bs) \<and> distinct bs \<and> int (length bs) = fq_num_free_blocks q"
proof -
  obtain xs where "queue_rep q xs" using run_simulates [OF init_rep assms(1)] assms(2)
    by (cases "run_ops spec_exec ops [0..<n]") (auto simp: simulates_def split: prod.splits)
  then show ?thesis by (simp add: rep_get_all distinct_map inj_on_def queue_repD(2) queue_repD(3))
qed

theorem free_walk_terminates_witness:
  "\<exists>rs q bs. run_ops fq_exec [PopLeft, Append 0] (init_free_queue [0..<2] initial_heap) = Inr (rs, q) \<and> get_all_free_blocks q = Inr (Some bs)"
proof -
  have ok: "run_allowed [PopLeft, Append 0] [0..<2]" by (simp add: upt_rec)
  obtain rs q where r: "run_ops fq_exec [PopLeft, Append 0] (init_free_queue [0..<2] initial_heap) = Inr (rs, q)"
    using run_simulates [OF init_rep ok] by (auto simp: upt_rec)
  from free_walk_terminates [OF ok r] r show ?thesis by blast
qed

end
