(* ===== verification/Tree_Props.thy ===== *)
theory Tree_Props
  imports Trace_Tree
begin

text \<open>
  The trace tree as a state machine. A step is one operation of \<open>TraceTree\<close> in the way the engine calls it: roots get ids from
  outside, branches get the generated id, only active traces are pruned, pruned traces are not completed, and only a trace
  without children is removed (a branch whose request could not be built). The invariant of \<open>Trace_Tree\<close> holds in
  every reachable tree.
\<close>

subsection \<open>Steps\<close>

inductive tree_step :: "trace_tree \<Rightarrow> trace_tree \<Rightarrow> bool" where
  step_root: "\<not> tree_contains t rid \<Longrightarrow> external_id rid \<Longrightarrow> tree_step t (add_root rid t)"
| step_branch: "can_trace_branch p n t \<Longrightarrow> tree_step t (snd (add_branch p (generate_branch_id p t) l t))"
| step_prune: "get_node rid t = Some n \<Longrightarrow> nd_is_active n \<Longrightarrow> tree_step t (mark_pruned rid t)"
| step_complete: "get_node rid t = Some n \<Longrightarrow> \<not> nd_is_pruned n \<Longrightarrow> tree_step t (mark_completed rid txt ids fin stp sc t)"
| step_score: "tree_step t (record_score rid s t)"
| step_tick: "tree_step t (increment_step t)"
| step_remove: "get_node rid t = Some n \<Longrightarrow> (\<forall>k m. get_node k t = Some m \<longrightarrow> nd_parent_id m \<noteq> Some rid) \<Longrightarrow>
    tree_step t (remove_trace rid t)"

inductive_cases tree_stepE: "tree_step t t'"

lemma tree_step_inv: "tree_step t t' \<Longrightarrow> tree_inv t \<Longrightarrow> tree_inv t'"
proof (induction rule: tree_step.induct)
  case (step_branch p n t l)
  then obtain m where "map_of (tt_nodes t) p = Some m" by (auto simp: can_trace_branch_def split: option.splits)
  with step_branch(2) show ?case by (rule tree_inv_add_branch)
next
  case (step_prune rid t n)
  with tree_invD(2) [OF step_prune(3), of rid n] show ?case
    by (intro tree_inv_mark_pruned) (auto simp: get_node_def node_ok_def)
qed (auto simp: get_node_def intro: tree_inv_add_root tree_inv_mark_completed tree_inv_remove_trace)

lemma reachable_tree_inv: "tree_step\<^sup>*\<^sup>* (new_tree m c k) t \<Longrightarrow> tree_inv t"
  by (induction rule: rtranclp_induct) (auto intro: tree_step_inv)

lemma foldl_max_ge: "d \<le> foldl max d xs" "x \<in> set xs \<Longrightarrow> x \<le> foldl max d xs" for d :: int
proof -
  show ge: "d \<le> foldl max d xs" for d :: int and xs by (induction xs arbitrary: d) (auto intro: order_trans [OF max.cobounded1])
  show "x \<in> set xs \<Longrightarrow> x \<le> foldl max d xs" by (induction xs arbitrary: d) (auto intro: order_trans [OF max.cobounded2 ge])
qed

lemma max_depth_ge: "map_of ns k = Some n \<Longrightarrow> nd_branch_depth n \<le> foldl max d (map (nd_branch_depth \<circ> snd) ns)"
  by (rule foldl_max_ge(2)) (force dest: map_of_SomeD simp: image_iff)

text \<open>A tree with a root and a branch that was pruned.\<close>

definition sample_branch_tree :: trace_tree where
  "sample_branch_tree = (let t = add_root ''a'' (new_tree 4 0 0)
     in mark_pruned ''gambit_0_a'' (snd (add_branch ''a'' (generate_branch_id ''a'' t) 0 t)))"

lemma digit_char_0: "digit_char 0 = CHR ''0''"
  by code_simp

lemmas sample_branch_tree_simps = add_branch_def tree_op_defs new_tree_def new_node_def generate_branch_id_def branch_id_def int_str_def
  nat_str.simps digit_char_0 dmodify_def Let_def

lemma sample_branch_tree_reachable: "tree_step\<^sup>*\<^sup>* (new_tree 4 0 0) sample_branch_tree"
proof -
  let ?s = "new_tree 4 0 0" let ?t = "add_root ''a'' ?s" let ?u = "snd (add_branch ''a'' (generate_branch_id ''a'' ?t) 0 ?t)"
  have s1: "tree_step ?s ?t" by (rule step_root) (simp_all add: tree_contains_def new_tree_def external_id_def)
  have s2: "tree_step ?t ?u"
    by (rule step_branch [of _ 0]) (simp add: can_trace_branch_def can_branch_def tree_op_defs new_tree_def new_node_def get_active_count_def dcount_def)
  have s3: "tree_step ?u (mark_pruned ''gambit_0_a'' ?u)"
    by (rule step_prune [of _ _ "new_node ''gambit_0_a'' (Some ''a'') 1 0 0 []"])
      (simp_all add: sample_branch_tree_simps)
  show ?thesis unfolding sample_branch_tree_def Let_def
    by (rule converse_rtranclp_into_rtranclp [of tree_step, OF s1])
      (rule converse_rtranclp_into_rtranclp [of tree_step, OF s2], rule r_into_rtranclp [of tree_step, OF s3])
qed

subsection \<open>Properties\<close>



text \<open>The statistics account for every trace. In every reachable tree the active, completed and pruned traces of \<open>get_stats\<close> add up to
  the number of nodes, agree with \<open>get_active_count\<close> and \<open>get_completed_count\<close>, and no trace lies deeper than \<open>max_depth\<close>.\<close>

lemma stats_account_for_all_traces:
  assumes "tree_step\<^sup>*\<^sup>* (new_tree max_traces cooldown min_tokens) t"
  shows "st_total_nodes (get_stats t) = st_active_count (get_stats t) + st_completed_count (get_stats t) + st_pruned_count (get_stats t) \<and>
    st_active_count (get_stats t) = get_active_count t \<and> st_completed_count (get_stats t) = get_completed_count t \<and>
    st_total_nodes (get_stats t) = tree_len t \<and> (\<forall>k n. get_node k t = Some n \<longrightarrow> nd_branch_depth n \<le> st_max_depth (get_stats t))"
proof -
  have inv: "tree_inv t" by (rule reachable_tree_inv [OF assms])
  have "node_ok k n" if "(k, n) \<in> set (tt_nodes t)" for k n using inv that by (auto simp: tree_inv_def)
  from dcount_partition [OF this] get_stats_counts [of t] show ?thesis
    by (auto simp: get_stats_def stats_loop_eq tree_len_def get_active_count_def get_completed_count_def get_node_def
        intro!: max_depth_ge dest: map_of_SomeD)
qed

end
