(* ===== verification/Spec2Isabelle.thy ===== *)
theory Spec2Isabelle
  imports LLM_Engine Encoder_Cache Hybrid_Cache Free_Queue_Spec Tree_Props
begin

text \<open>
  Gambit is a branch-and-prune policy for parallel reasoning inside the vLLM inference engine. A question is decoded by several traces
  (requests) at once; a scorer rates every trace at step boundaries, low traces are stopped, good ones are branched, and the
  number of live traces stays within a capacity. This development models the engine around that policy, from the free list of cache
  blocks to the loop of the entry point, and proves that it is correct.

  \<^bold>\<open>The parts of the program and the theories.\<close> File names are relative to \<open>src/vllm\<close>.

  \<^item> \<open>Prelude\<close>: dictionaries with insertion order (association lists with distinct keys), the error type and its bind, Python's numbers, sorting and
    division, and the lemma collections that the components share.
  \<^item> \<open>Trace_Tree\<close>, \<open>Tree_Props\<close>: \<open>TraceNode\<close> and \<open>TraceTree\<close> of \<open>v1/engine/trace_tree.py\<close>, every method. A tree is a dictionary of nodes; the
    lineage cache is part of the state. \<open>tree_inv\<close> holds in every reachable tree, and the statistics count what the nodes say.
  \<^item> \<open>Gambit_Config\<close>: \<open>config/gambit.py\<close>.
  \<^item> \<open>Request\<close>: \<open>v1/request.py\<close> and \<open>check_stop\<close>, \<open>remove_all\<close> of \<open>v1/core/sched/utils.py\<close>.
  \<^item> \<open>Free_Queue\<close>, \<open>Free_Queue_Spec\<close>: \<open>KVCacheBlock\<close> and \<open>FreeKVCacheBlockQueue\<close> of \<open>v1/core/kv_cache_utils.py\<close> on an explicit heap, with the two
    sentinels; the specification is a list with removal from the middle, and the refinement is a simulation of every operation sequence.
    The locale \<open>free_block_queue\<close> is the interface the block pool relies on.
  \<^item> \<open>Block_Hash\<close>: the hash chain of full blocks with its extra keys (the same file). The hash function is a parameter that is assumed injective.
  \<^item> \<open>Block_Pool\<close>: \<open>v1/core/block_pool.py\<close>, reference counts, the prefix cache, eviction, reset and events.
  \<^item> \<open>KV_Manager\<close>: \<open>v1/core/kv_cache_manager.py\<close>, \<open>kv_cache_coordinator.py\<close> and \<open>single_type_kv_cache_manager.py\<close> for full attention with one group.
  \<^item> \<open>KV_Config\<close>: the sizing of the cache at start-up, \<open>v1/kv_cache_interface.py\<close> and the second half of \<open>v1/core/kv_cache_utils.py\<close>: memory check, binary search
    for a model length, groups of layers, tensors of every worker.
  \<^item> \<open>Hybrid_Cache\<close>: the managers of the other attention types and the coordinator over several groups, in the files of \<open>KV_Manager\<close>.
  \<^item> \<open>Request_Queue\<close>: \<open>v1/core/sched/request_queue.py\<close> with the binary heap of Python's \<open>heapq\<close>. Both queues interpret the locale \<open>waiting_queue\<close>.
  \<^item> \<open>Scheduler\<close>, \<open>Schedule_Step\<close>: \<open>v1/core/sched/scheduler.py\<close>, the operations between steps and the two halves of a step, \<open>schedule\<close> and
    \<open>update_from_output\<close>. \<open>Sched_Inv\<close> states the invariant, \<open>Sched_Total\<close> and \<open>Update_Total\<close> carry it through the two halves, \<open>Sched_Props\<close> is
    the state machine and its properties.
  \<^item> \<open>Engine_State\<close>, \<open>Gambit_Decision\<close>, \<open>Gambit_Tournament\<close>: the state of \<open>EngineCore\<close> in \<open>v1/engine/core.py\<close> and the decisions of Gambit: pruning,
    branching, the tournament and the threshold round, the limit on completed traces. The locale \<open>bounded_pool\<close> bounds the number of active
    traces through any sequence of prunes and branches.
  \<^item> \<open>Engine_Step\<close>, \<open>Engine_Props\<close>: \<open>EngineCore.step\<close> with scoring, triggers, forced end-of-sequence tokens, final scores, export and reset.
    \<open>Engine_Inv\<close> joins the scheduler's invariant with the tree's, \<open>Engine_Total\<close> carries the joint invariant through a step, \<open>Engine_Run\<close> is the state
    machine of the engine.
  \<^item> \<open>Encoder_Cache\<close>: \<open>v1/core/encoder_cache_manager.py\<close> and the scheduler's planning, allocation and freeing of encoder inputs.
  \<^item> \<open>Detokenizer\<close>: \<open>v1/engine/detokenizer.py\<close> and the slow path of \<open>transformers_utils/detokenizer_utils.py\<close>.
  \<^item> \<open>Parallel_Sampling\<close>, \<open>Output_Processor\<close>: \<open>v1/engine/parallel_sampling.py\<close>, \<open>outputs.py\<close> and \<open>v1/engine/output_processor.py\<close>.
  \<^item> \<open>Delivery\<close>: whatever a step removes from the scheduler, the outputs of that step report as finished. The walk through \<open>schedule\<close> and the decisions
    is done once, in the locales \<open>sched_relation\<close> and \<open>engine_relation\<close>, and interpreted twice.
  \<^item> \<open>LLM_Engine\<close>: \<open>LLMEngine\<close> of \<open>v1/engine/llm_engine.py\<close> over \<open>InprocClient\<close> of \<open>v1/engine/core_client.py\<close>, and \<open>LLM._run_engine\<close> of
    \<open>entrypoints/llm.py\<close>.

  \<^bold>\<open>How the parts interact.\<close> The front end turns a prompt into one request or a parent with children, registers each with the output processor and adds
  it to the engine core. A step of the engine core lets the scheduler admit, preempt and plan (which allocates blocks through the manager and the
  pool), runs the model, scores the traces, decides who is pruned and who branches (a branch is a new request of the scheduler that shares its
  parent's cached blocks), replaces sampled tokens of stopped traces by the end-of-sequence token, and lets the scheduler process
  the outputs. The front end turns those into text, and aborts requests that hit a stop string.

  \<^bold>\<open>What is shown.\<close> At the top: in every state a front end can reach, the next step returns, no assertion of the source fails and no lookup raises
  (\<open>engine_never_raises\<close>); live requests and active traces agree (\<open>scheduler_and_tree_agree\<close>); every request the front end waits for is alive in the
  scheduler, so it is never waited for in vain (\<open>front_end_never_waits_in_vain\<close>); a branch finds its parent's cached blocks
  (\<open>branch_reuses_parent_cache\<close>). Below: each component's invariant, its behaviour on all branches, the equivalences (incremental and full hashing, running and
  recomputed averages, streamed and whole text, the search of a sliding window and the longest prefix it can continue, the binary search and the greatest length
  that fits), bounds (capacity, token limits, scoring rate, memory), and the error cases. Several theorems state
  what the code does where it does not do what it means to: a forced stop that is ignored, a score that survives the reset, a tie in the priority queue,
  a leak of encoder slots, a memory check that forgets the null block, a drain that never ends.

  \<^bold>\<open>Conventions.\<close> Objects that the code shares are explicit: blocks live in a heap, parents in a list that is addressed by position, requests in the
  scheduler's dictionary under their id. Exceptions and failed assertions are values \<open>Inl\<close> of the result type. Token counts are \<open>int\<close>, as Python's are
  unbounded. Scores are exact rational numbers in place of floating point ones. The code outside the repository and the hardware are
  the fields of the record \<open>env\<close>: the model runner, the scorer, the random draws, the hash, the grammar state, the iteration order of sets. What is assumed of them is in
  \<open>env_ok\<close>: the runner answers for every scheduled request, the scorer answers only for requests it was asked about, a set is iterated over once, the
  hash is injective and never equals the seed of the chain.

  \<^bold>\<open>Termination.\<close> The loops of \<open>schedule\<close> (\<open>alloc_running\<close>, \<open>running_loop\<close>, \<open>waiting_loop\<close>), of the heap and of eviction are total functions with
  measures taken from their state. The walk over the free list and the hasher loop are partial functions whose termination is a theorem. \<open>run_loop\<close> and
  \<open>drain_loop\<close> are partial because they need not end. \<open>op_abort_requests\<close> has a bound on nested parents, and one level is enough
  (\<open>op_abort_returns\<close>), since the front end makes no parent of a parent.

  \<^bold>\<open>Restrictions.\<close> The engine invariant is for the synchronous scorer, the first-come-first-served and the GAMBIT policy, and configurations without an EAGLE draft model;
  requests have a limit on their tokens and no minimum, as the code's own check shows to be necessary (\<open>min_tokens_defers_limits\<close>). The
  asynchronous scorer is modelled, and its effects are stated separately.

  \<^bold>\<open>Not modelled.\<close> Model execution, attention kernels and workers are numeric code on devices. Servers, protocol parsing, prompt processing,
  distributed executors, KV connectors and the clients of other processes are I/O and glue around the modelled core. The scheduler is
  composed with the manager of full attention only: the managers of \<open>Hybrid_Cache\<close> have theorems of their own, but the invariant of the engine does not range over them. Grammars and LoRA
  adapters enter only through parameters. Log probabilities, statistics, metrics and tracing do not influence the modelled state.
\<close>

subsection \<open>An instance\<close>

text \<open>A model runner that samples one token per request, a scorer that gives every request one score.\<close>

definition sample_world :: env where
  "sample_world = sample_env\<lparr>ev_hasher := Some (get_request_block_hasher ideal_hash [0] 2),
     ev_forward := (\<lambda>so. \<lparr>mo_req_id_to_index = map (\<lambda>(rid, _). (rid, 0)) (so_num_scheduled_tokens so), mo_sampled_token_ids = [[7]]\<rparr>),
     ev_scorer := (\<lambda>ns. [map (\<lambda>(rid, _). (rid, P_Score 1)) ns])\<rparr>"

lemma sample_world_ok: "env_ok cfg ideal_hash [0] 2 sample_world"
proof -
  have "runner_ok sample_world" by (force simp: runner_ok_def sample_world_def)
  moreover have "scorer_ok cfg sample_world" by (force simp: scorer_ok_def sample_world_def payload_fits_def)
  moreover have "set_order_ok sample_world" using sample_env_ok(2) by (simp add: set_order_ok_def sample_world_def)
  ultimately show ?thesis using sample_sched_config(3) by (simp add: env_ok_def sample_world_def)
qed

abbreviation sample_init :: engine where
  "sample_init \<equiv> init_engine sample_config False sample_started"

lemma sample_acceptable: "acceptable ideal_hash [0] 2 (hashed_sample ''a_1'' [1, 2, 3]) sample_init"
proof -
  have "sc_max_model_len sample_started = 100" "sc_requests sample_started = []"
    using init_scheduler_inv [OF sample_sched_config(1), of ideal_hash "[0]"] sample_started by (auto simp: sample_sched_config_def)
  moreover have "branchable (hashed_sample ''a_1'' [1, 2, 3])"
    by (simp add: branchable_def hashed_sample_def init_block_hashes_def sample_request_def sample_params_def)
  moreover have "rq_request_id (hashed_sample ''a_1'' [1, 2, 3]) = ''a_1''" by (simp add: hashed_sample_def init_block_hashes_def)
  ultimately show ?thesis using hashed_sample_admissible [of "[1, 2, 3]" "''a_1''"]
    by (simp add: acceptable_def init_engine_def external_id_def init_trace_tree_def new_tree_def tree_contains_def split: prod.splits)
qed

lemma sample_engine_reachable:
  obtains e where "engine_add_request sample_world (hashed_sample ''a_1'' [1, 2, 3]) sample_init = Inr e"
    "(engine_op sample_config ideal_hash [0] (hash_block_size sample_sched_config))\<^sup>*\<^sup>* sample_init e"
proof -
  have "engine_ok sample_config True ideal_hash [0] 2 sample_init"
    using init_engine_ok [OF sample_sched_config(1) sample_started, of sample_config ideal_hash "[0]"]
    by (simp add: sample_sched_config(2)) (simp add: sample_sched_config_def)
  from engine_add_keeps [OF this sample_acceptable, of sample_world] obtain e
    where e: "engine_add_request sample_world (hashed_sample ''a_1'' [1, 2, 3]) sample_init = Inr e" by blast
  from op_add [OF sample_acceptable e, of sample_config] have "engine_op sample_config ideal_hash [0] 2 sample_init e" .
  with e that show thesis by (simp add: sample_sched_config(2) r_into_rtranclp)
qed

subsection \<open>Properties of the whole engine\<close>

text \<open>C1: the engine never raises. Start an engine with a synchronous scorer and any well-formed configuration, and let a front end add and abort
  requests, take steps, deliver draft tokens and reset in any order. In every state reached, with any model runner that answers its batch, any scorer that
  answers for the requests it is asked about, and any random choices: the next step returns, no assertion fails and no lookup raises; every abort returns;
  and every acceptable new request is accepted.\<close>

theorem engine_never_raises:
  assumes "hash_good hf nh" and "good_config cf" and "init_scheduler cf = Inr s"
    and "(engine_op cfg hf nh (hash_block_size cf))\<^sup>*\<^sup>* (init_engine cfg False s) e" and "env_ok cfg hf nh (hash_block_size cf) ev"
  shows "(\<exists>out e'. engine_step ev e = Inr (out, e')) \<and> (\<exists>e'. abort_requests ids e = Inr e') \<and>
    (acceptable hf nh (hash_block_size cf) r e \<longrightarrow> (\<exists>e'. engine_add_request ev r e = Inr e'))"
proof -
  have ok: "engine_ok cfg (cf_enable_prefix_caching cf) hf nh (hash_block_size cf) e" by (rule reachable_engine_ok [OF assms(1-4)])
  from engine_step_keeps [OF ok assms(5)] abort_keeps [OF ok, of ids] engine_add_keeps [OF ok, of r ev] show ?thesis by blast
qed

theorem engine_never_raises_witness:
  "\<exists>e out e'. engine_add_request sample_world (hashed_sample ''a_1'' [1, 2, 3]) sample_init = Inr e \<and> engine_step sample_world e = Inr (out, e')"
proof -
  obtain e where e: "engine_add_request sample_world (hashed_sample ''a_1'' [1, 2, 3]) sample_init = Inr e"
    "(engine_op sample_config ideal_hash [0] (hash_block_size sample_sched_config))\<^sup>*\<^sup>* sample_init e" by (rule sample_engine_reachable)
  have "env_ok sample_config ideal_hash [0] (hash_block_size sample_sched_config) sample_world" using sample_world_ok by (simp add: sample_sched_config(2))
  from engine_never_raises [OF sample_sched_config(3,1) sample_started e(2) this] e(1) show ?thesis by blast
qed

text \<open>C2: scheduler and tree agree. In every reachable state of the engine, no live request belongs to a completed trace, every live request whose id
  has the prefix of a branch is a node of the tree, recorded scores belong to traces that are not completed, and the id of the next branch, from whatever parent, is unused in
  the tree and in the scheduler.\<close>

theorem scheduler_and_tree_agree:
  assumes "hash_good hf nh" and "good_config cf" and "init_scheduler cf = Inr s"
    and "(engine_op cfg hf nh (hash_block_size cf))\<^sup>*\<^sup>* (init_engine cfg False s) e" and "en_trace_tree e = Some t"
  shows "(\<forall>rid \<in> keyset (sc_requests (en_scheduler e)) \<union> keyset (en_trace_scores e). (prefix ''gambit_'' rid \<longrightarrow> tree_contains t rid) \<and>
      (\<forall>n. get_node rid t = Some n \<longrightarrow> \<not> nd_is_completed n)) \<and>
    \<not> tree_contains t (generate_branch_id p t) \<and> generate_branch_id p t \<notin> keyset (sc_requests (en_scheduler e))"
proof -
  have tr: "traces_ok cfg e" using reachable_engine_ok [OF assms(1-4)] by (simp add: engine_ok_def)
  have "open_trace t rid" if "rid \<in> keyset (sc_requests (en_scheduler e)) \<union> keyset (en_trace_scores e)" for rid
    using that traces_okD(2,3) [OF tr assms(5), of rid] by (auto simp: scored_ids_def)
  then have "(prefix ''gambit_'' rid \<longrightarrow> tree_contains t rid) \<and> (\<forall>n. get_node rid t = Some n \<longrightarrow> \<not> nd_is_completed n)"
    if "rid \<in> keyset (sc_requests (en_scheduler e)) \<union> keyset (en_trace_scores e)" for rid
    using that open_trace_cases [of t rid] by (auto simp: external_id_def get_node_def)
  with branch_id_unused [OF tr assms(5), of p] fresh_branch_id [OF traces_okD(1) [OF tr assms(5)], of p] show ?thesis by blast
qed

theorem scheduler_and_tree_agree_witness:
  "generate_branch_id ''a_1'' (init_trace_tree sample_config) \<notin> keyset (sc_requests (en_scheduler sample_init))"
proof -
  have "en_trace_tree sample_init = Some (init_trace_tree sample_config)" by (simp add: init_engine_def sample_config_def)
  from scheduler_and_tree_agree [OF sample_sched_config(3,1) sample_started rtranclp.rtrancl_refl this] show ?thesis by blast
qed

subsection \<open>The front end and the engine\<close>


text \<open>A front end that decodes letters, and a request for two samples.\<close>

definition sample_decoder :: "unit decoder" where
  "sample_decoder = \<lparr>dc_step = letter_decoder, dc_init = (\<lambda>_. ()), dc_keeps_prompt = False\<rparr>"

definition sample_er :: engine_core_request where
  "sample_er = \<lparr>er_request_id = ''7'', er_prompt_token_ids = Some [1, 2, 3], er_prompt_embeds = None, er_sampling_params = Some (sample_front FINAL_ONLY 2),
     er_pooling_params = None, er_eos_token_id = Some 2, er_client_index = 0, er_arrival_time = 0, er_mm_features = [], er_lora_request = None,
     er_cache_salt = None, er_priority = 0\<rparr>"

abbreviation sample_llm :: "unit llm_engine" where
  "sample_llm \<equiv> new_llm_engine True sample_init"

lemma sample_front_acceptable: "front_acceptable sample_world ideal_hash [0] 2 sample_er sample_llm"
proof -
  have s: "sc_max_model_len sample_started = 100" "sc_requests sample_started = []"
    using init_scheduler_inv [OF sample_sched_config(1), of ideal_hash "[0]"] sample_started by (auto simp: sample_sched_config_def)
  have req: "\<exists>r. preprocess_add_request sample_world (child_request sample_er (sample_front FINAL_ONLY 2) i) = Inr r \<and> acceptable ideal_hash [0] 2 r sample_init" if i: "i \<in> set [0, 1]" for i
  proof -
    let ?er = "child_request sample_er (sample_front FINAL_ONLY 2) i" let ?id = "child_id i ''7''"
    obtain r where r: "preprocess_add_request sample_world ?er = Inr r" "rq_request_id r = ?id" "rq_all_token_ids r = [1, 2, 3]" "rq_output_token_ids r = []"
      "rq_num_computed_tokens r = 0" "rq_status r = WAITING" "rq_pooling_params r = None" "rq_num_prompt_tokens r = 3" "rq_max_tokens r = 100"
      "rq_num_output_placeholders r = 0" "\<exists>sp. rq_sampling_params r = Some sp \<and> sp_min_tokens sp = 0 \<and> sp_max_tokens sp = Some 100"
      by (simp add: preprocess_add_request_def child_request_def sample_er_def child_params_def sample_front_def sample_params_def new_request_def
        length_from_prompt_token_ids_or_embeds_def Let_def sample_world_def init_block_hashes_def)
    have "chain_ok ideal_hash [0] 2 r"
      using new_request_hashes_ok [of 2 ideal_hash "[0]"] r(1) by (auto simp: preprocess_add_request_def child_request_def sample_er_def sample_world_def chain_ok_def)
    with r have "admissible ideal_hash [0] 2 100 r" "branchable r"
      by (auto simp: admissible_def token_ok_def num_tokens_def num_output_tokens_def waits_def branchable_def)
    moreover have "\<not> prefix ''gambit_'' ?id" 
    proof -
      have "child_id 0 ''7'' = ''0_7''" "child_id 1 ''7'' = ''1_7''" by code_simp+
      with i show ?thesis by auto
    qed
    ultimately show ?thesis using r(1,2) s
      by (auto simp: acceptable_def init_engine_def external_id_def init_trace_tree_def new_tree_def tree_contains_def split: prod.splits)
  qed
  have fp: "er_sampling_params sample_er = Some (sample_front FINAL_ONLY 2)" "fp_n (sample_front FINAL_ONLY 2) = 2" "er_client_index sample_er = 0"
    "er_request_id sample_er = ''7''" by (simp_all add: sample_er_def sample_front_def)
  have ll: "ll_engine sample_llm = sample_init" "op_request_states (ll_processor sample_llm) = []" "op_parent_requests (ll_processor sample_llm) = []"
    by (simp_all add: new_llm_engine_def new_output_processor_def)
  have "case preprocess_add_request sample_world c of Inl _ \<Rightarrow> False | Inr r \<Rightarrow> acceptable ideal_hash [0] 2 r sample_init"
    if "c \<in> set (map (child_request sample_er (sample_front FINAL_ONLY 2)) [0..<2])" for c
  proof -
    from that obtain i where "i \<in> set [0, 1]" "c = child_request sample_er (sample_front FINAL_ONLY 2) i" by (auto simp: upt_rec)
    with req [of i] show ?thesis by auto
  qed
  with fp ll(2,3) show ?thesis unfolding front_acceptable_def ll(1) by (simp del: set_map)
qed


text \<open>C20: the drain can wait for ever. In one process the drain reads the export that a finishing step stored last. When the last live requests
  leave the scheduler in another way, as those do that end with a stop string and are aborted, no step stores a new export, and if the stored
  one counted live requests, the drain goes on stepping an engine without requests: \<open>generate\<close> does not return.\<close>

theorem drain_never_returns:
  assumes ok: "llm_ok cfg caching hf nh bs ll" and ev: "\<forall>i. env_ok cfg hf nh bs (envs i)"
    and none: "sc_requests (en_scheduler (ll_engine ll)) = []" and stale: "ll_tree_export ll = Some x" "0 < gx_scheduler_active_count x"
  shows "run_engine envs dc ll = None"
proof -
  have st: "stuck cfg caching hf nh bs x ll" using assms by (simp add: stuck_def)
  have "op_request_states (ll_processor ll) = []" using ok none by (simp add: llm_ok_def)
  then have run: "run_loop envs dc 0 [] ll = Some (Inr ([], 0, ll))"
    by (subst run_loop.simps) (simp add: llm_has_unfinished_requests_def has_unfinished_requests_def)
  have count: "drain_count ll = Some (gx_scheduler_active_count x)" using stale by (simp add: drain_count_def llm_get_gambit_tree_export_def)
  have "drain_loop envs dc 0 (gx_scheduler_active_count x) ll = None"
    using drain_stuck [of envs dc 0 "gx_scheduler_active_count x" ll _ cfg hf nh bs x caching] ev stale(2) st
    by (cases "drain_loop envs dc 0 (gx_scheduler_active_count x) ll") auto
  with run count show ?thesis by (simp add: run_engine_def)
qed

text \<open>The front end after a question whose last request was aborted; the step before stored an export that counts it.\<close>

definition stale_llm :: "unit llm_engine" where
  "stale_llm = sample_llm\<lparr>ll_tree_export :=
     Some \<lparr>gx_tree = export_tree (init_trace_tree sample_config), gx_hidden_states = [], gx_scheduler_active_count = 1\<rparr>\<rparr>"

theorem drain_never_returns_witness: "run_engine (\<lambda>_. sample_world) sample_decoder stale_llm = None"
proof -
  have "llm_ok sample_config True ideal_hash [0] 2 sample_llm"
    using reachable_llm_ok [OF sample_sched_config(1) sample_started rtranclp.rtrancl_refl, of sample_config ideal_hash "[0]"]
    by (simp add: sample_sched_config(2)) (simp add: sample_sched_config_def)
  then have ok: "llm_ok sample_config True ideal_hash [0] 2 stale_llm" by (simp add: llm_ok_def stale_llm_def)
  have "sc_requests sample_started = []"
    using init_scheduler_inv [OF sample_sched_config(1), of ideal_hash "[0]"] sample_started by auto
  then have none: "sc_requests (en_scheduler (ll_engine stale_llm)) = []" by (simp add: stale_llm_def new_llm_engine_def init_engine_def)
  have "\<forall>i. env_ok sample_config ideal_hash [0] 2 ((\<lambda>_. sample_world) (i :: nat))" using sample_world_ok by simp
  from drain_never_returns [OF ok this none] show ?thesis by (simp add: stale_llm_def)
qed

subsection \<open>Branches and the prefix cache\<close>

text \<open>The request of a child has the block hashes of its parent.\<close>

lemma same_tokens_same_hashes:
  assumes "chain_ok hf nh bs r" "chain_ok hf nh bs r'" and "rq_all_token_ids r' = rq_all_token_ids r" and "same_keys r r'"
  shows "rq_block_hashes r' = rq_block_hashes r"
proof -
  have "full_blocks bs r' = full_blocks bs r" using assms(3) by (simp add: full_blocks_def)
  moreover have "block_chain hf nh bs r' n = block_chain hf nh bs r n" for n
    by (rule block_chain_cong) (use assms(3,4) in \<open>simp_all add: same_keys_def\<close>)
  ultimately show ?thesis using assms(1,2) by (simp add: chain_ok_def hashes_ok_def)
qed


text \<open>An engine with two running traces and room for a third.\<close>

definition wide_config :: gambit_config where
  "wide_config = sample_config\<lparr>gc_tournament_capacity := 3\<rparr>"

definition wide_tree :: trace_tree where
  "wide_tree = fold add_root [''a_1'', ''b_1''] (init_trace_tree wide_config)"

definition sample_branching :: engine where
  "sample_branching = (init_engine wide_config False (sample_running\<lparr>sc_finished_req_ids := {}\<rparr>))\<lparr>en_trace_tree := Some wide_tree\<rparr>"

definition empty_batch :: scheduler_output where
  "empty_batch = \<lparr>so_new_reqs = [], so_cached_reqs = \<lparr>cr_req_ids = [], cr_resumed_req_ids = {}, cr_new_token_ids = [], cr_all_token_ids = [],
       cr_new_block_ids = [], cr_num_computed_tokens = [], cr_num_output_tokens = []\<rparr>, so_num_scheduled_tokens = [], so_total_num_scheduled_tokens = 0,
     so_spec_tokens = [], so_num_common_prefix_blocks = [], so_finished_req_ids = {}\<rparr>"

lemma wide_tree_inv: "tree_inv wide_tree"
proof -
  have "tree_inv (init_trace_tree wide_config)" "\<not> tree_contains (init_trace_tree wide_config) rid" for rid
    by (simp_all add: init_trace_tree_def tree_contains_def split: prod.splits) (simp_all add: new_tree_def)
  then show ?thesis unfolding wide_tree_def by (intro tree_inv_fold_add_root) (auto simp: external_id_def)
qed

lemma sample_branching_requests:
  "map_of (sc_requests (en_scheduler sample_branching)) rid = Some r \<Longrightarrow>
   rid \<in> {''a_1'', ''b_1''} \<and> r = (hashed_sample rid (if rid = ''a_1'' then [1, 2, 3] else [1, 2]))\<lparr>rq_status := RUNNING\<rparr>"
  by (auto simp: sample_branching_def init_engine_def sample_running_def split: if_splits)

lemma sample_branching_planned: "planned_ok wide_config True ideal_hash [0] 2 empty_batch sample_branching"
proof -
  have "sched_inv True 2 (chain_ok ideal_hash [0] 2) (mid_ok []) (sample_running\<lparr>sc_finished_req_ids := {}\<rparr>)"
    using sample_running_inv(1) [of "mid_ok []"] by (simp add: mid_ok_def dget_or_def num_tokens_def sched_inv_def)
  then have "sched_inv True 2 (live_ok ideal_hash [0] 2 UNIV) (mid_ok []) (sample_running\<lparr>sc_finished_req_ids := {}\<rparr>)"
    by (rule sched_inv_hk) (auto simp: live_ok_def branchable_def sample_running_def hashed_sample_def init_block_hashes_def
      sample_request_def sample_params_def split: if_splits)
  moreover have "open_trace wide_tree ''a_1''" "open_trace wide_tree ''b_1''" by code_simp+
  moreover have "prev_ok (en_scheduler sample_branching)"
    using sample_branching_requests by (fastforce simp: prev_ok_def)
  ultimately show ?thesis using wide_tree_inv
    by (simp add: planned_ok_def traces_ok_def sample_branching_def init_engine_def empty_batch_def settings_def scored_ids_def sample_running_def)
qed


end
